(* ===== verification/Kr_Prelude.thy ===== *)
theory Kr_Prelude
  imports Main "HOL-Library.Word" "HOL-Library.Monad_Syntax"
begin

text \<open>
  Shared ground of the development: C's fixed-width arithmetic on \<^typ>\<open>int\<close>, the result
  conventions of the kernel code, and the little-endian bitmaps of a block buffer with the
  kernel's bit operations on them (\<^verbatim>\<open>test_bit_le\<close>, \<^verbatim>\<open>__test_and_set_bit_le\<close>,
  \<^verbatim>\<open>__test_and_clear_bit_le\<close>, \<^verbatim>\<open>find_next_zero_bit_le\<close>, \<^verbatim>\<open>memscan\<close>), which the sources
  use as their C library.

  Conventions.
  \<^item> A field that is stored with a width is a word of that width. A local variable is an
    \<^typ>\<open>int\<close>, and every conversion or operation that can wrap is written out with
    \<open>u16\<close>, \<open>u32\<close>, \<open>u64\<close> or \<open>s32\<close> (LP64: \<^verbatim>\<open>int\<close> has 32 bits, \<^verbatim>\<open>long\<close> 64).
  \<^item> A call returns an \<^typ>\<open>'a option\<close>. \<^term>\<open>None\<close> means that the call never returns to
    its caller: the kernel has panicked, hit a \<^verbatim>\<open>BUG()\<close>, touched memory outside a buffer,
    spins on a lock it holds, or loops. A theorem that a call gives \<^term>\<open>Some\<close> result is a
    theorem that none of this happens.
  \<^item> A negative errno is a value of \<open>errno\<close>, on the left of a sum.
\<close>

unbundle bit_operations_syntax

section \<open>Collections\<close>

named_theorems c_int "arithmetic of the C integer types"
named_theorems kr_frame "what an operation leaves unchanged"
named_theorems kr_inv "invariants and their preservation"

section \<open>Fixed-width integers\<close>

definition u16 :: "int \<Rightarrow> int" where
  "u16 x = x mod 2 ^ 16"

definition u32 :: "int \<Rightarrow> int" where
  "u32 x = x mod 2 ^ 32"

definition u64 :: "int \<Rightarrow> int" where
  "u64 x = x mod 2 ^ 64"

definition s32 :: "int \<Rightarrow> int" where
  "s32 x = (x + 2 ^ 31) mod 2 ^ 32 - 2 ^ 31"

text \<open>The division and remainder of \<^verbatim>\<open>int\<close>, which round towards zero.\<close>

definition c_div :: "int \<Rightarrow> int \<Rightarrow> int" where
  "c_div a b = sgn a * sgn b * (\<bar>a\<bar> div \<bar>b\<bar>)"

definition c_mod :: "int \<Rightarrow> int \<Rightarrow> int" where
  "c_mod a b = a - b * c_div a b"

section \<open>Results\<close>

datatype errno =
    EPERM | ENOENT | EIO | EAGAIN | ENOMEM | EACCES | EFAULT | EBUSY | EEXIST
  | EINVAL | ENOTTY | ENOSPC | EROFS | ERANGE | ENAMETOOLONG | ENOTEMPTY | ENODATA
  | EDQUOT | ESTALE | EFSCORRUPTED | ENOIOCTLCMD | EOPNOTSUPP

section \<open>Bitmaps of a block buffer\<close>

type_synonym bitmap = "bool list"

definition test_bit_le :: "int \<Rightarrow> bitmap \<Rightarrow> bool option" where
  "test_bit_le i bm = (if 0 \<le> i \<and> i < int (length bm) then Some (bm ! nat i) else None)"

text \<open>The two test-and-modify operations give the old value of the bit.\<close>

definition set_bit_le :: "int \<Rightarrow> bitmap \<Rightarrow> (bool \<times> bitmap) option" where
  "set_bit_le i bm =
     (if 0 \<le> i \<and> i < int (length bm) then Some (bm ! nat i, bm[nat i := True]) else None)"

definition clear_bit_le :: "int \<Rightarrow> bitmap \<Rightarrow> (bool \<times> bitmap) option" where
  "clear_bit_le i bm =
     (if 0 \<le> i \<and> i < int (length bm) then Some (bm ! nat i, bm[nat i := False]) else None)"

text \<open>
  \<^verbatim>\<open>find_next_zero_bit_le(addr, size, offset)\<close>: both numbers are converted to
  \<^verbatim>\<open>unsigned long\<close>; the result is the first clear bit in \<open>[offset, size)\<close>, or \<open>size\<close>.
\<close>

definition find_next_zero_bit_le :: "bitmap \<Rightarrow> int \<Rightarrow> int \<Rightarrow> int option" where
  "find_next_zero_bit_le bm sz offset =
     (let n = u64 sz; k = u64 offset in
      if n \<le> k then Some n
      else if int (length bm) < n then None
      else Some (k + int (length (takeWhile id (take (nat (n - k)) (drop (nat k) bm))))))"

text \<open>\<^verbatim>\<open>memscan(p, 0, size)\<close>: the first zero byte of \<open>size\<close> bytes from byte \<open>k\<close>, or the end.\<close>

fun memscan_zero :: "bitmap \<Rightarrow> nat \<Rightarrow> nat \<Rightarrow> nat option" where
  "memscan_zero bm k 0 = Some k"
| "memscan_zero bm k (Suc n) =
     (if length bm < 8 * k + 8 then None
      else if \<not> list_ex id (take 8 (drop (8 * k) bm)) then Some k
      else memscan_zero bm (Suc k) n)"

text \<open>How many of the first \<open>n\<close> bits are clear.\<close>

definition zero_bits :: "bitmap \<Rightarrow> nat \<Rightarrow> nat" where
  "zero_bits bm n = length (filter Not (take n bm))"

section \<open>Lemmas: fixed-width integers\<close>

lemma u16_id [c_int]: "0 \<le> x \<Longrightarrow> x < 65536 \<Longrightarrow> u16 x = x"
  by (simp add: u16_def)

lemma u32_id [c_int]: "0 \<le> x \<Longrightarrow> x < 4294967296 \<Longrightarrow> u32 x = x"
  by (simp add: u32_def)

lemma u64_id [c_int]: "0 \<le> x \<Longrightarrow> x < 18446744073709551616 \<Longrightarrow> u64 x = x"
  by (simp add: u64_def)

lemma s32_id [c_int]: "- 2147483648 \<le> x \<Longrightarrow> x < 2147483648 \<Longrightarrow> s32 x = x"
  by (simp add: s32_def)

lemma c_div_nonneg [c_int]: "0 \<le> a \<Longrightarrow> 0 < b \<Longrightarrow> c_div a b = a div b"
  by (cases "a = 0") (simp_all add: c_div_def)

lemma c_mod_nonneg [c_int]: "0 \<le> a \<Longrightarrow> 0 < b \<Longrightarrow> c_mod a b = a mod b"
  by (simp add: c_mod_def c_div_nonneg minus_mult_div_eq_mod)

lemma u64_range [simp]: "0 \<le> u64 x" "u64 x < 18446744073709551616"
  by (simp_all add: u64_def)

lemma u64_idem [simp]: "u64 (u64 x) = u64 x"
  by (simp add: u64_def)

lemma uint16_lt [simp]: "uint (w :: 16 word) < 65536"
  using uint_lt2p [of w] by simp

lemma uint32_lt [simp]: "uint (w :: 32 word) < 4294967296"
  using uint_lt2p [of w] by simp

lemma uint_word16 [c_int]: "0 \<le> x \<Longrightarrow> x < 65536 \<Longrightarrow> uint (word_of_int x :: 16 word) = x"
  by (simp add: uint_word_of_int take_bit_eq_mod)

lemma uint_word32 [c_int]: "0 \<le> x \<Longrightarrow> x < 4294967296 \<Longrightarrow> uint (word_of_int x :: 32 word) = x"
  by (simp add: uint_word_of_int take_bit_eq_mod)

lemma and_not_mask: "(x :: int) AND NOT (mask n) = 2 ^ n * (x div 2 ^ n)"
proof -
  have "x AND NOT (mask n) = push_bit n (drop_bit n x)"
    by (auto intro!: bit_eqI simp: bit_simps)
  then show ?thesis by (simp add: push_bit_eq_mult drop_bit_eq_div mult.commute)
qed

lemma and_not_63 [c_int]: "(x :: int) AND NOT 63 = 64 * (x div 64)"
  using and_not_mask [of x 6] by (simp add: mask_eq_exp_minus_1)

lemma and_minus_64 [c_int]: "(x :: int) AND - 64 = 64 * (x div 64)"
  using and_not_63 [of x] by simp

section \<open>Lemmas: bitmaps\<close>

text \<open>The bits \<open>a \<le> i < a + n\<close> of a bitmap all set to one value.\<close>

definition mark_range :: "bool \<Rightarrow> nat \<Rightarrow> nat \<Rightarrow> bitmap \<Rightarrow> bitmap" where
  "mark_range v a n bm = map (\<lambda>i. if a \<le> i \<and> i < a + n then v else bm ! i) [0..<length bm]"

lemma length_mark_range [simp]: "length (mark_range v a n bm) = length bm"
  by (simp add: mark_range_def)

lemma nth_mark_range [simp]:
  "i < length bm \<Longrightarrow> mark_range v a n bm ! i = (if a \<le> i \<and> i < a + n then v else bm ! i)"
  by (simp add: mark_range_def)

lemma mark_range_0 [simp]: "mark_range v a 0 bm = bm"
  by (rule nth_equalityI) auto

lemma mark_range_1: "mark_range v a (Suc 0) bm = bm[a := v]"
  by (rule nth_equalityI) (auto simp: nth_list_update)

lemma mark_range_Suc: "mark_range v (Suc a) n (bm[a := v]) = mark_range v a (Suc n) bm"
  by (rule nth_equalityI) (auto simp: nth_list_update)

lemma mark_range_inverse:
  "(\<And>i. a \<le> i \<Longrightarrow> i < a + n \<Longrightarrow> i < length bm \<Longrightarrow> bm ! i = v) \<Longrightarrow> mark_range v a n (mark_range w a n bm) = bm"
  by (rule nth_equalityI) auto

lemma find_next_zero_bit_le_spec:
  assumes "0 \<le> k" "k < 18446744073709551616" "0 \<le> n" "n < 18446744073709551616"
    and "n \<le> int (length bm)" "k \<le> n"
  obtains r where "find_next_zero_bit_le bm n k = Some r" "k \<le> r" "r \<le> n"
    "r < n \<Longrightarrow> \<not> bm ! nat r" "\<And>i. nat k \<le> i \<Longrightarrow> i < nat r \<Longrightarrow> bm ! i"
proof (cases "n = k")
  case True
  then show ?thesis using assms that [of n] by (simp add: find_next_zero_bit_le_def u64_id)
next
  case False
  let ?xs = "take (nat (n - k)) (drop (nat k) bm)"
  let ?t = "length (takeWhile id ?xs)"
  have len: "length ?xs = nat (n - k)" using assms by simp
  have t: "?t \<le> nat (n - k)" using length_takeWhile_le [of id ?xs] len by simp
  have nth: "?xs ! i = bm ! (nat k + i)" if "i < nat (n - k)" for i
    using that assms by (simp add: nth_drop)
  show ?thesis
  proof (rule that)
    show "find_next_zero_bit_le bm n k = Some (k + int ?t)"
      using assms False by (simp add: find_next_zero_bit_le_def u64_id)
    show "k \<le> k + int ?t" by simp
    show "k + int ?t \<le> n" using t assms by simp
    show "\<not> bm ! nat (k + int ?t)" if "k + int ?t < n"
    proof -
      have lt: "?t < length ?xs" using that len assms by simp
      then have "\<not> ?xs ! ?t" using nth_length_takeWhile [of id ?xs] by simp
      then show ?thesis using nth [of ?t] lt len assms by (simp add: nat_add_distrib)
    qed
    show "bm ! i" if "nat k \<le> i" "i < nat (k + int ?t)" for i
    proof -
      have i: "i - nat k < ?t" using that assms by (simp add: nat_add_distrib)
      have "takeWhile id ?xs ! (i - nat k) \<in> set (takeWhile id ?xs)" using i by (rule nth_mem)
      then have "takeWhile id ?xs ! (i - nat k)" using set_takeWhileD by fastforce
      then show ?thesis using takeWhile_nth [OF i] nth [of "i - nat k"] i t that(1) by simp
    qed
  qed
qed

lemma memscan_zero_spec:
  assumes "8 * (k + n) \<le> length bm"
  obtains r where "memscan_zero bm k n = Some r" "k \<le> r" "r \<le> k + n"
    "\<And>i. r < k + n \<Longrightarrow> 8 * r \<le> i \<Longrightarrow> i < 8 * r + 8 \<Longrightarrow> \<not> bm ! i"
proof -
  have "\<exists>r. memscan_zero bm k n = Some r \<and> k \<le> r \<and> r \<le> k + n \<and>
      (\<forall>i. r < k + n \<longrightarrow> 8 * r \<le> i \<longrightarrow> i < 8 * r + 8 \<longrightarrow> \<not> bm ! i)"
    using assms
  proof (induction n arbitrary: k)
    case 0
    then show ?case by simp
  next
    case (Suc n)
    let ?b = "take 8 (drop (8 * k) bm)"
    show ?case
    proof (cases "list_ex id ?b")
      case True
      obtain r where "memscan_zero bm (Suc k) n = Some r \<and> Suc k \<le> r \<and> r \<le> Suc k + n \<and>
          (\<forall>i. r < Suc k + n \<longrightarrow> 8 * r \<le> i \<longrightarrow> i < 8 * r + 8 \<longrightarrow> \<not> bm ! i)"
        using Suc.IH [of "Suc k"] Suc.prems by auto
      then show ?thesis using True Suc.prems by (intro exI [of _ r]) auto
    next
      case False
      have "\<not> bm ! i" if "8 * k \<le> i" "i < 8 * k + 8" for i
      proof -
        have "?b ! (i - 8 * k) \<in> set ?b" using that Suc.prems by (intro nth_mem) auto
        then show ?thesis using False that Suc.prems by (auto simp: list_ex_iff)
      qed
      then show ?thesis using False Suc.prems by (intro exI [of _ k]) auto
    qed
  qed
  then show ?thesis using that by blast
qed

lemma zero_bits_card: "zero_bits bm n = card {i. i < n \<and> i < length bm \<and> \<not> bm ! i}"
proof -
  have "{i. i < length (take n bm) \<and> \<not> take n bm ! i} = {i. i < n \<and> i < length bm \<and> \<not> bm ! i}"
    by auto
  then show ?thesis by (simp add: zero_bits_def length_filter_conv_card)
qed

lemma zero_bits_mark_clear:
  assumes "a + m \<le> n" "n \<le> length bm" "\<And>i. a \<le> i \<Longrightarrow> i < a + m \<Longrightarrow> bm ! i"
  shows "zero_bits (mark_range False a m bm) n = zero_bits bm n + m"
proof -
  let ?Z = "{i. i < n \<and> i < length bm \<and> \<not> bm ! i}"
  have "{i. i < n \<and> i < length bm \<and> \<not> mark_range False a m bm ! i} = ?Z \<union> {a..<a + m}"
    using assms by (auto split: if_splits)
  moreover have "card (?Z \<union> {a..<a + m}) = card ?Z + card {a..<a + m}"
    using assms(3) by (intro card_Un_disjoint) auto
  ultimately show ?thesis by (simp add: zero_bits_card)
qed

lemma zero_bits_mark_set:
  assumes "a + m \<le> n" "n \<le> length bm" "\<And>i. a \<le> i \<Longrightarrow> i < a + m \<Longrightarrow> \<not> bm ! i"
  shows "zero_bits (mark_range True a m bm) n + m = zero_bits bm n"
proof -
  have "mark_range False a m (mark_range True a m bm) = bm"
    using assms by (intro mark_range_inverse) auto
  then show ?thesis
    using zero_bits_mark_clear [of a m n "mark_range True a m bm"] assms by simp
qed

lemma zero_bits_le: "zero_bits bm n \<le> n"
  by (simp add: zero_bits_def le_trans [OF length_filter_le])

lemma zero_bits_0_iff:
  "n \<le> length bm \<Longrightarrow> zero_bits bm n = 0 \<longleftrightarrow> (\<forall>i < n. bm ! i)"
  by (auto simp: zero_bits_card)

end
