(* ===== verification/Kr_Types.thy ===== *)
theory Kr_Types
  imports Kr_Prelude "HOL-Library.Tree"
begin

text \<open>
  The data of \<^verbatim>\<open>kr.h\<close>: the on-disk super block, group descriptors and inodes, the in-core
  super block and inode, reservation windows, the mount-option, feature and inode flags, and
  the header's inline functions.

  \<^item> \<^verbatim>\<open>struct super_block\<close>, \<^verbatim>\<open>struct kr_sb_info\<close> and the buffers they point to are one
    record \<open>super_block\<close>, whose \<open>sbi\<close> and \<open>es\<close> fields are \<^verbatim>\<open>*KR_SB(sb)\<close> and
    \<^verbatim>\<open>*KR_SB(sb)->s_es\<close>. A field \<^verbatim>\<open>es->s_x\<close> is \<open>es_x\<close>.
  \<^item> \<open>s_group_desc\<close> is the array of descriptor buffers; \<^term>\<open>None\<close> is a null pointer.
  \<^item> \<open>b_data\<close> gives the contents of a bitmap buffer by block number, so two descriptors that
    name the same block share it.
  \<^item> \<open>b_ind\<close> gives the block numbers stored in an indirect block, by block number, and
    \<open>b_inode\<close> the on-disk inode at a block of the inode table and a byte offset in it.
  \<^item> A reservation window is a pointer \<open>rsv_ptr\<close>: the static head of the list, or the window
    of the file with a given inode number. The red-black tree \<open>s_rsv_window_root\<close> holds
    pointers, and \<open>rsv_node\<close> is what they point to.
  \<^item> \<^verbatim>\<open>struct inode\<close> and \<^verbatim>\<open>struct kr_inode_info\<close> are one record \<open>inode\<close>; \<open>vfs_flags\<close> is
    \<^verbatim>\<open>inode->i_flags\<close> and \<open>i_flags\<close> is \<^verbatim>\<open>KR_I(inode)->i_flags\<close>.
  \<^item> Padding and fields that no code reads are left out.
\<close>

section \<open>Reservation windows\<close>

record kr_reserve_window_node =
  rsv_goal_size :: "32 word"
  rsv_alloc_hit :: "32 word"
  rsv_start :: int
  rsv_end :: int

datatype rsv_ptr = RsvHead | RsvOf int

record kr_block_alloc_info =
  last_alloc_logical_block :: "32 word"
  last_alloc_physical_block :: int

section \<open>Group descriptors and the super block on disk\<close>

record kr_group_desc =
  bg_block_bitmap :: "32 word"
  bg_inode_bitmap :: "32 word"
  bg_inode_table :: "32 word"
  bg_free_blocks_count :: "16 word"
  bg_free_inodes_count :: "16 word"
  bg_used_dirs_count :: "16 word"

record kr_super_block =
  es_inodes_count :: "32 word"
  es_blocks_count :: "32 word"
  es_r_blocks_count :: "32 word"
  es_free_blocks_count :: "32 word"
  es_free_inodes_count :: "32 word"
  es_first_data_block :: "32 word"
  es_log_block_size :: "32 word"
  es_log_frag_size :: "32 word"
  es_blocks_per_group :: "32 word"
  es_frags_per_group :: "32 word"
  es_inodes_per_group :: "32 word"
  es_mtime :: "32 word"
  es_wtime :: "32 word"
  es_mnt_count :: "16 word"
  es_max_mnt_count :: "16 word"
  es_magic :: "16 word"
  es_state :: "16 word"
  es_errors :: "16 word"
  es_lastcheck :: "32 word"
  es_checkinterval :: "32 word"
  es_rev_level :: "32 word"
  es_def_resuid :: "16 word"
  es_def_resgid :: "16 word"
  es_first_ino :: "32 word"
  es_inode_size :: "16 word"
  es_feature_compat :: "32 word"
  es_feature_incompat :: "32 word"
  es_feature_ro_compat :: "32 word"
  es_uuid :: "8 word list"
  es_default_mount_opts :: "32 word"
  es_first_meta_bg :: "32 word"

section \<open>Inodes on disk\<close>

record kr_inode =
  ri_mode :: "16 word"
  ri_uid_low :: "16 word"
  ri_size :: "32 word"
  ri_atime :: "32 word"
  ri_ctime :: "32 word"
  ri_mtime :: "32 word"
  ri_dtime :: "32 word"
  ri_gid_low :: "16 word"
  ri_links_count :: "16 word"
  ri_blocks :: "32 word"
  ri_flags :: "32 word"
  ri_block :: "32 word list"
  ri_generation :: "32 word"
  ri_file_acl :: "32 word"
  ri_dir_acl :: "32 word"
  ri_faddr :: "32 word"
  ri_frag :: "8 word"
  ri_fsize :: "8 word"
  ri_uid_high :: "16 word"
  ri_gid_high :: "16 word"

section \<open>The super block in memory\<close>

record kr_sb_info =
  s_frag_size :: int
  s_frags_per_block :: int
  s_inodes_per_block :: int
  s_frags_per_group :: int
  s_blocks_per_group :: int
  s_inodes_per_group :: int
  s_itb_per_group :: int
  s_gdb_count :: int
  s_desc_per_block :: int
  s_groups_count :: int
  s_overhead_last :: int
  s_blocks_last :: int
  s_mount_opt :: "64 word"
  s_sb_block :: int
  s_resuid :: "32 word"
  s_resgid :: "32 word"
  s_mount_state :: "16 word"
  s_addr_per_block_bits :: nat
  s_desc_per_block_bits :: nat
  s_inode_size :: int
  s_first_ino :: int
  s_next_generation :: "32 word"
  s_debts :: "8 word list"
  s_freeblocks_counter :: int
  s_freeinodes_counter :: int
  s_dirs_counter :: int

record super_block =
  s_flags :: "64 word"
  s_blocksize :: int
  s_blocksize_bits :: nat
  s_maxbytes :: int
  sbi :: kr_sb_info
  es :: kr_super_block
  s_group_desc :: "kr_group_desc list option list"
  b_data :: "int \<Rightarrow> bitmap"
  b_ind :: "int \<Rightarrow> 32 word list"
  b_inode :: "int \<Rightarrow> int \<Rightarrow> kr_inode"
  s_rsv_window_root :: "rsv_ptr tree"
  rsv_node :: "rsv_ptr \<Rightarrow> kr_reserve_window_node"

section \<open>Inodes in memory\<close>

record inode =
  i_ino :: int
  i_mode :: "16 word"
  i_uid :: "32 word"
  i_gid :: "32 word"
  i_nlink :: "32 word"
  i_size :: int
  i_blocks :: int
  i_atime :: int
  i_ctime :: int
  i_mtime :: int
  vfs_flags :: "32 word"
  i_generation :: "32 word"
  i_rdev :: "32 word"
  i_data :: "32 word list"
  i_flags :: "32 word"
  i_faddr :: "32 word"
  i_frag_no :: "8 word"
  i_frag_size :: "8 word"
  i_state :: "16 word"
  i_file_acl :: "32 word"
  i_dir_acl :: "32 word"
  i_dtime :: "32 word"
  i_block_group :: "32 word"
  i_block_alloc_info :: "kr_block_alloc_info option"
  i_dir_start_lookup :: "32 word"

section \<open>Constants\<close>

abbreviation (input) KR_RESERVE_WINDOW_NOT_ALLOCATED :: int where
  "KR_RESERVE_WINDOW_NOT_ALLOCATED \<equiv> 0"
abbreviation (input) KR_DEFAULT_RESERVE_BLOCKS :: int where "KR_DEFAULT_RESERVE_BLOCKS \<equiv> 8"
abbreviation (input) KR_MAX_RESERVE_BLOCKS :: int where "KR_MAX_RESERVE_BLOCKS \<equiv> 1027"

abbreviation (input) KR_ROOT_INO :: int where "KR_ROOT_INO \<equiv> 2"
abbreviation (input) KR_GOOD_OLD_FIRST_INO :: int where "KR_GOOD_OLD_FIRST_INO \<equiv> 11"
abbreviation (input) KR_GOOD_OLD_INODE_SIZE :: int where "KR_GOOD_OLD_INODE_SIZE \<equiv> 128"
abbreviation (input) KR_GOOD_OLD_REV :: int where "KR_GOOD_OLD_REV \<equiv> 0"
abbreviation (input) KR_DYNAMIC_REV :: int where "KR_DYNAMIC_REV \<equiv> 1"
abbreviation (input) KR_MAX_SUPP_REV :: int where "KR_MAX_SUPP_REV \<equiv> 1"

abbreviation (input) KR_NDIR_BLOCKS :: int where "KR_NDIR_BLOCKS \<equiv> 12"
abbreviation (input) KR_IND_BLOCK :: int where "KR_IND_BLOCK \<equiv> 12"
abbreviation (input) KR_DIND_BLOCK :: int where "KR_DIND_BLOCK \<equiv> 13"
abbreviation (input) KR_TIND_BLOCK :: int where "KR_TIND_BLOCK \<equiv> 14"
abbreviation (input) KR_N_BLOCKS :: nat where "KR_N_BLOCKS \<equiv> 15"

text \<open>File-system states and the VFS's mount flags.\<close>

abbreviation (input) KR_VALID_FS :: "16 word" where "KR_VALID_FS \<equiv> 1"
abbreviation (input) KR_ERROR_FS :: "16 word" where "KR_ERROR_FS \<equiv> 2"

abbreviation (input) MS_RDONLY :: "64 word" where "MS_RDONLY \<equiv> 1"
abbreviation (input) MS_POSIXACL :: "64 word" where "MS_POSIXACL \<equiv> 0x10000"

text \<open>Mount options.\<close>

abbreviation (input) KR_MOUNT_CHECK :: "64 word" where "KR_MOUNT_CHECK \<equiv> 0x000001"
abbreviation (input) KR_MOUNT_OLDALLOC :: "64 word" where "KR_MOUNT_OLDALLOC \<equiv> 0x000002"
abbreviation (input) KR_MOUNT_GRPID :: "64 word" where "KR_MOUNT_GRPID \<equiv> 0x000004"
abbreviation (input) KR_MOUNT_DEBUG :: "64 word" where "KR_MOUNT_DEBUG \<equiv> 0x000008"
abbreviation (input) KR_MOUNT_ERRORS_CONT :: "64 word" where "KR_MOUNT_ERRORS_CONT \<equiv> 0x000010"
abbreviation (input) KR_MOUNT_ERRORS_RO :: "64 word" where "KR_MOUNT_ERRORS_RO \<equiv> 0x000020"
abbreviation (input) KR_MOUNT_ERRORS_PANIC :: "64 word" where "KR_MOUNT_ERRORS_PANIC \<equiv> 0x000040"
abbreviation (input) KR_MOUNT_MINIX_DF :: "64 word" where "KR_MOUNT_MINIX_DF \<equiv> 0x000080"
abbreviation (input) KR_MOUNT_NOBH :: "64 word" where "KR_MOUNT_NOBH \<equiv> 0x000100"
abbreviation (input) KR_MOUNT_NO_UID32 :: "64 word" where "KR_MOUNT_NO_UID32 \<equiv> 0x000200"
abbreviation (input) KR_MOUNT_POSIX_ACL :: "64 word" where "KR_MOUNT_POSIX_ACL \<equiv> 0x008000"
abbreviation (input) KR_MOUNT_XIP :: "64 word" where "KR_MOUNT_XIP \<equiv> 0x010000"
abbreviation (input) KR_MOUNT_USRQUOTA :: "64 word" where "KR_MOUNT_USRQUOTA \<equiv> 0x020000"
abbreviation (input) KR_MOUNT_GRPQUOTA :: "64 word" where "KR_MOUNT_GRPQUOTA \<equiv> 0x040000"
abbreviation (input) KR_MOUNT_RESERVATION :: "64 word" where "KR_MOUNT_RESERVATION \<equiv> 0x080000"
abbreviation (input) KR_MOUNT_XATTR_USER :: "64 word" where "KR_MOUNT_XATTR_USER \<equiv> 0x004000"
abbreviation (input) KR_MOUNT_DAX :: "64 word" where "KR_MOUNT_DAX \<equiv> 0x100000"

text \<open>Feature sets.\<close>

abbreviation (input) KR_FEATURE_RO_COMPAT_SPARSE_SUPER :: "32 word" where
  "KR_FEATURE_RO_COMPAT_SPARSE_SUPER \<equiv> 0x0001"
abbreviation (input) KR_FEATURE_RO_COMPAT_LARGE_FILE :: "32 word" where
  "KR_FEATURE_RO_COMPAT_LARGE_FILE \<equiv> 0x0002"
abbreviation (input) KR_FEATURE_RO_COMPAT_SUPP :: "32 word" where
  "KR_FEATURE_RO_COMPAT_SUPP \<equiv> 0x0007"
abbreviation (input) KR_FEATURE_INCOMPAT_FILETYPE :: "32 word" where
  "KR_FEATURE_INCOMPAT_FILETYPE \<equiv> 0x0002"
abbreviation (input) KR_FEATURE_INCOMPAT_META_BG :: "32 word" where
  "KR_FEATURE_INCOMPAT_META_BG \<equiv> 0x0010"
abbreviation (input) KR_FEATURE_INCOMPAT_SUPP :: "32 word" where
  "KR_FEATURE_INCOMPAT_SUPP \<equiv> 0x0012"

text \<open>Inode flags of the disk format (\<^verbatim>\<open>FS_*_FL\<close>) and of the VFS (\<^verbatim>\<open>S_*\<close>).\<close>

abbreviation (input) KR_SECRM_FL :: "32 word" where "KR_SECRM_FL \<equiv> 0x00000001"
abbreviation (input) KR_UNRM_FL :: "32 word" where "KR_UNRM_FL \<equiv> 0x00000002"
abbreviation (input) KR_COMPR_FL :: "32 word" where "KR_COMPR_FL \<equiv> 0x00000004"
abbreviation (input) KR_SYNC_FL :: "32 word" where "KR_SYNC_FL \<equiv> 0x00000008"
abbreviation (input) KR_IMMUTABLE_FL :: "32 word" where "KR_IMMUTABLE_FL \<equiv> 0x00000010"
abbreviation (input) KR_APPEND_FL :: "32 word" where "KR_APPEND_FL \<equiv> 0x00000020"
abbreviation (input) KR_NODUMP_FL :: "32 word" where "KR_NODUMP_FL \<equiv> 0x00000040"
abbreviation (input) KR_NOATIME_FL :: "32 word" where "KR_NOATIME_FL \<equiv> 0x00000080"
abbreviation (input) KR_COMPRBLK_FL :: "32 word" where "KR_COMPRBLK_FL \<equiv> 0x00000200"
abbreviation (input) KR_NOCOMP_FL :: "32 word" where "KR_NOCOMP_FL \<equiv> 0x00000400"
abbreviation (input) KR_BTREE_FL :: "32 word" where "KR_BTREE_FL \<equiv> 0x00001000"
abbreviation (input) KR_JOURNAL_DATA_FL :: "32 word" where "KR_JOURNAL_DATA_FL \<equiv> 0x00004000"
abbreviation (input) KR_NOTAIL_FL :: "32 word" where "KR_NOTAIL_FL \<equiv> 0x00008000"
abbreviation (input) KR_DIRSYNC_FL :: "32 word" where "KR_DIRSYNC_FL \<equiv> 0x00010000"
abbreviation (input) KR_TOPDIR_FL :: "32 word" where "KR_TOPDIR_FL \<equiv> 0x00020000"
abbreviation (input) KR_FL_USER_VISIBLE :: "32 word" where "KR_FL_USER_VISIBLE \<equiv> 0x0003DFFF"
abbreviation (input) KR_FL_USER_MODIFIABLE :: "32 word" where "KR_FL_USER_MODIFIABLE \<equiv> 0x000380FF"

abbreviation (input) S_SYNC :: "32 word" where "S_SYNC \<equiv> 1"
abbreviation (input) S_NOATIME :: "32 word" where "S_NOATIME \<equiv> 2"
abbreviation (input) S_APPEND :: "32 word" where "S_APPEND \<equiv> 4"
abbreviation (input) S_IMMUTABLE :: "32 word" where "S_IMMUTABLE \<equiv> 8"
abbreviation (input) S_NOQUOTA :: "32 word" where "S_NOQUOTA \<equiv> 32"
abbreviation (input) S_DIRSYNC :: "32 word" where "S_DIRSYNC \<equiv> 64"
abbreviation (input) S_DAX :: "32 word" where "S_DAX \<equiv> 8192"

abbreviation (input) KR_STATE_NEW :: "16 word" where "KR_STATE_NEW \<equiv> 1"

text \<open>File modes.\<close>

abbreviation (input) S_IFMT :: "16 word" where "S_IFMT \<equiv> 0xF000"
abbreviation (input) S_IFSOCK :: "16 word" where "S_IFSOCK \<equiv> 0xC000"
abbreviation (input) S_IFLNK :: "16 word" where "S_IFLNK \<equiv> 0xA000"
abbreviation (input) S_IFREG :: "16 word" where "S_IFREG \<equiv> 0x8000"
abbreviation (input) S_IFBLK :: "16 word" where "S_IFBLK \<equiv> 0x6000"
abbreviation (input) S_IFDIR :: "16 word" where "S_IFDIR \<equiv> 0x4000"
abbreviation (input) S_IFCHR :: "16 word" where "S_IFCHR \<equiv> 0x2000"
abbreviation (input) S_IFIFO :: "16 word" where "S_IFIFO \<equiv> 0x1000"

definition S_ISDIR :: "16 word \<Rightarrow> bool" where "S_ISDIR m = (m AND S_IFMT = S_IFDIR)"
definition S_ISREG :: "16 word \<Rightarrow> bool" where "S_ISREG m = (m AND S_IFMT = S_IFREG)"
definition S_ISLNK :: "16 word \<Rightarrow> bool" where "S_ISLNK m = (m AND S_IFMT = S_IFLNK)"
definition S_ISCHR :: "16 word \<Rightarrow> bool" where "S_ISCHR m = (m AND S_IFMT = S_IFCHR)"
definition S_ISBLK :: "16 word \<Rightarrow> bool" where "S_ISBLK m = (m AND S_IFMT = S_IFBLK)"

section \<open>Macros and inline functions\<close>

abbreviation KR_BLOCKS_PER_GROUP :: "super_block \<Rightarrow> int" where
  "KR_BLOCKS_PER_GROUP sb \<equiv> s_blocks_per_group (sbi sb)"
abbreviation KR_INODES_PER_GROUP :: "super_block \<Rightarrow> int" where
  "KR_INODES_PER_GROUP sb \<equiv> s_inodes_per_group (sbi sb)"
abbreviation KR_DESC_PER_BLOCK :: "super_block \<Rightarrow> int" where
  "KR_DESC_PER_BLOCK sb \<equiv> s_desc_per_block (sbi sb)"
abbreviation KR_FIRST_INO :: "super_block \<Rightarrow> int" where
  "KR_FIRST_INO sb \<equiv> s_first_ino (sbi sb)"

definition KR_ADDR_PER_BLOCK :: "super_block \<Rightarrow> int" where
  "KR_ADDR_PER_BLOCK sb = s_blocksize sb div 4"

definition test_opt :: "super_block \<Rightarrow> 64 word \<Rightarrow> bool" where
  "test_opt sb opt = (s_mount_opt (sbi sb) AND opt \<noteq> 0)"

definition set_opt :: "64 word \<Rightarrow> 64 word \<Rightarrow> 64 word" where
  "set_opt opt x = opt OR x"

definition clear_opt :: "64 word \<Rightarrow> 64 word \<Rightarrow> 64 word" where
  "clear_opt opt x = opt AND NOT x"

definition KR_HAS_RO_COMPAT_FEATURE :: "super_block \<Rightarrow> 32 word \<Rightarrow> bool" where
  "KR_HAS_RO_COMPAT_FEATURE sb m = (es_feature_ro_compat (es sb) AND m \<noteq> 0)"

definition KR_HAS_INCOMPAT_FEATURE :: "super_block \<Rightarrow> 32 word \<Rightarrow> bool" where
  "KR_HAS_INCOMPAT_FEATURE sb m = (es_feature_incompat (es sb) AND m \<noteq> 0)"

definition KR_FL_INHERITED :: "32 word" where
  "KR_FL_INHERITED = KR_SECRM_FL OR KR_UNRM_FL OR KR_COMPR_FL OR KR_SYNC_FL OR KR_NODUMP_FL
     OR KR_NOATIME_FL OR KR_COMPRBLK_FL OR KR_NOCOMP_FL OR KR_JOURNAL_DATA_FL
     OR KR_NOTAIL_FL OR KR_DIRSYNC_FL"

definition KR_REG_FLMASK :: "32 word" where
  "KR_REG_FLMASK = NOT (KR_DIRSYNC_FL OR KR_TOPDIR_FL)"

definition KR_OTHER_FLMASK :: "32 word" where
  "KR_OTHER_FLMASK = KR_NODUMP_FL OR KR_NOATIME_FL"

definition kr_mask_flags :: "16 word \<Rightarrow> 32 word \<Rightarrow> 32 word" where
  "kr_mask_flags mode flags =
     (if S_ISDIR mode then flags
      else if S_ISREG mode then flags AND KR_REG_FLMASK
      else flags AND KR_OTHER_FLMASK)"

definition kr_group_first_block_no :: "super_block \<Rightarrow> int \<Rightarrow> int" where
  "kr_group_first_block_no sb group_no =
     u64 (group_no * KR_BLOCKS_PER_GROUP sb + uint (es_first_data_block (es sb)))"

section \<open>The kernel underneath\<close>

text \<open>
  What the file system calls and does not define: the buffer cache, the disk, quota, the
  clock, the caller's credentials, the random generator, the memory allocator, the VFS and
  the red-black tree library. They are parameters: a record of the answers, which every
  operation that uses them takes as its argument.
\<close>

record kernel =
  k_getblk :: "int \<Rightarrow> bool"                   \<comment> \<open>\<^verbatim>\<open>sb_getblk\<close> finds memory for the block\<close>
  k_uptodate :: "int \<Rightarrow> bool"                 \<comment> \<open>the buffer is already up to date\<close>
  k_bread :: "int \<Rightarrow> bool"                    \<comment> \<open>reading the block from disk succeeds\<close>
  k_now :: int                               \<comment> \<open>\<^verbatim>\<open>get_seconds\<close>, \<^verbatim>\<open>current_time\<close>\<close>
  k_percpu_read :: "int \<Rightarrow> int"              \<comment> \<open>the approximate, non-negative reading of a counter\<close>
  k_capable :: bool                          \<comment> \<open>\<^verbatim>\<open>capable(CAP_SYS_RESOURCE)\<close>\<close>
  k_fsuid :: "32 word"                       \<comment> \<open>\<^verbatim>\<open>current_fsuid\<close>\<close>
  k_in_group :: "32 word \<Rightarrow> bool"             \<comment> \<open>\<^verbatim>\<open>in_group_p\<close>\<close>
  k_kmalloc :: bool
  k_random :: "32 word"                      \<comment> \<open>\<^verbatim>\<open>prandom_u32\<close>\<close>
  k_trylock :: bool                          \<comment> \<open>\<^verbatim>\<open>spin_trylock\<close> of the reservation lock\<close>
  k_dquot_alloc_block :: "inode \<Rightarrow> int \<Rightarrow> errno option \<times> inode"
  k_dquot_free_block :: "inode \<Rightarrow> int \<Rightarrow> inode"
  k_new_inode :: "inode option"              \<comment> \<open>the fresh inode of \<^verbatim>\<open>new_inode\<close>\<close>
  k_init_owner :: "inode \<Rightarrow> inode \<Rightarrow> 16 word \<Rightarrow> inode"
  k_insert_inode :: "int \<Rightarrow> bool"            \<comment> \<open>\<^verbatim>\<open>insert_inode_locked\<close> succeeds\<close>
  k_dquot_initialize :: "inode \<Rightarrow> errno option"
  k_dquot_alloc_inode :: "inode \<Rightarrow> errno option"
  k_congested :: bool                        \<comment> \<open>the device queue is congested\<close>
  k_pid :: int                               \<comment> \<open>\<^verbatim>\<open>current->pid\<close>\<close>
  k_zeroout :: "int \<Rightarrow> int \<Rightarrow> errno option"    \<comment> \<open>\<^verbatim>\<open>sb_issue_zeroout\<close>\<close>
  k_truncate_page :: "inode \<Rightarrow> int \<Rightarrow> errno option"  \<comment> \<open>zeroing the rest of the last page\<close>
  k_iget_locked :: "int \<Rightarrow> (bool \<times> inode) option"   \<comment> \<open>whether the inode is new, and the inode\<close>
  k_old_valid_dev :: "32 word \<Rightarrow> bool"
  k_old_encode_dev :: "32 word \<Rightarrow> 32 word"
  k_old_decode_dev :: "32 word \<Rightarrow> 32 word"
  k_new_encode_dev :: "32 word \<Rightarrow> 32 word"
  k_new_decode_dev :: "32 word \<Rightarrow> 32 word"
  k_fs_overflowuid :: "16 word"
  k_fs_overflowgid :: "16 word"
  k_sync_buffer :: "int \<Rightarrow> bool"             \<comment> \<open>writing the buffer out succeeds\<close>
  k_rb_insert_color :: "rsv_ptr tree \<Rightarrow> rsv_ptr tree"
  k_rb_erase :: "rsv_ptr \<Rightarrow> rsv_ptr tree \<Rightarrow> rsv_ptr tree"
  k_rb_first :: "rsv_ptr tree \<Rightarrow> rsv_ptr option"
  k_rb_next :: "rsv_ptr \<Rightarrow> rsv_ptr tree \<Rightarrow> rsv_ptr option"
  k_rb_prev :: "rsv_ptr \<Rightarrow> rsv_ptr tree \<Rightarrow> rsv_ptr option"

end
