(* ===== verification/Kr_Group.thy ===== *)
theory Kr_Group
  imports Kr_Types
begin

text \<open>
  Group descriptors and error reporting: \<^verbatim>\<open>kr_get_group_desc\<close>, the three counting loops over
  the descriptors (\<^verbatim>\<open>balloc.c\<close>, \<^verbatim>\<open>ialloc.c\<close>), and \<^verbatim>\<open>kr_sync_super\<close>, \<^verbatim>\<open>kr_error\<close>
  (\<^verbatim>\<open>super.c\<close>).

  These functions call each other in a circle: \<^verbatim>\<open>kr_error\<close> writes the super block, which
  counts the free blocks, which reads descriptors, which report an error when one is not
  loaded. The circle is cut by the spin lock \<^verbatim>\<open>s_lock\<close>: \<^verbatim>\<open>kr_sync_super\<close> counts while it
  holds it, and a nested \<^verbatim>\<open>kr_error\<close> on a writable file system takes it again, so it never
  returns. \<open>kr_error_locked\<close> is that nested call, and the functions that may report an
  error are written over the error routine of their context.

  The lemmas show that with every descriptor loaded no lookup fails, that descriptors are
  stored and read back independently of each other, and what the counts are.
\<close>

section \<open>Model\<close>

definition kr_error_tail :: "super_block \<Rightarrow> super_block option" where
  "kr_error_tail sb =
     (if test_opt sb KR_MOUNT_ERRORS_PANIC then None
      else Some (if test_opt sb KR_MOUNT_ERRORS_RO
                 then sb\<lparr>s_flags := s_flags sb OR MS_RDONLY\<rparr> else sb))"

definition sb_rdonly :: "super_block \<Rightarrow> bool" where
  "sb_rdonly sb = (s_flags sb AND MS_RDONLY \<noteq> 0)"

definition kr_error_locked :: "super_block \<Rightarrow> super_block option" where
  "kr_error_locked sb = (if sb_rdonly sb then kr_error_tail sb else None)"

definition desc_block :: "super_block \<Rightarrow> int \<Rightarrow> nat" where
  "desc_block sb g = nat (drop_bit (s_desc_per_block_bits (sbi sb)) g)"

definition desc_offset :: "super_block \<Rightarrow> int \<Rightarrow> nat" where
  "desc_offset sb g = nat (g AND (KR_DESC_PER_BLOCK sb - 1))"

definition kr_get_group_desc_with ::
  "(super_block \<Rightarrow> super_block option) \<Rightarrow> super_block \<Rightarrow> int \<Rightarrow> (kr_group_desc option \<times> super_block) option"
where
  "kr_get_group_desc_with err sb block_group =
     (let bg = u32 block_group in
      if s_groups_count (sbi sb) \<le> bg then do { sb' \<leftarrow> err sb; Some (None, sb') }
      else if length (s_group_desc sb) \<le> desc_block sb bg then None
      else case s_group_desc sb ! desc_block sb bg of
          None \<Rightarrow> do { sb' \<leftarrow> err sb; Some (None, sb') }
        | Some descs \<Rightarrow>
            if desc_offset sb bg < length descs then Some (Some (descs ! desc_offset sb bg), sb)
            else None)"

text \<open>The counting loops: \<open>n\<close> groups are left, from group \<open>i\<close>.\<close>

fun count_groups ::
  "(super_block \<Rightarrow> super_block option) \<Rightarrow> (kr_group_desc \<Rightarrow> 16 word) \<Rightarrow> nat \<Rightarrow> int \<Rightarrow>
   super_block \<Rightarrow> int \<Rightarrow> (int \<times> super_block) option"
where
  "count_groups err field 0 i sb acc = Some (acc, sb)"
| "count_groups err field (Suc n) i sb acc =
     do { (desc, sb') \<leftarrow> kr_get_group_desc_with err sb i;
          count_groups err field n (i + 1) sb'
            (case desc of None \<Rightarrow> acc | Some d \<Rightarrow> u64 (acc + uint (field d))) }"

definition kr_count_free_blocks ::
  "(super_block \<Rightarrow> super_block option) \<Rightarrow> super_block \<Rightarrow> (int \<times> super_block) option" where
  "kr_count_free_blocks err sb =
     count_groups err bg_free_blocks_count (nat (s_groups_count (sbi sb))) 0 sb 0"

definition kr_count_free_inodes ::
  "(super_block \<Rightarrow> super_block option) \<Rightarrow> super_block \<Rightarrow> (int \<times> super_block) option" where
  "kr_count_free_inodes err sb =
     count_groups err bg_free_inodes_count (nat (s_groups_count (sbi sb))) 0 sb 0"

definition kr_count_dirs ::
  "(super_block \<Rightarrow> super_block option) \<Rightarrow> super_block \<Rightarrow> (int \<times> super_block) option" where
  "kr_count_dirs err sb =
     count_groups err bg_used_dirs_count (nat (s_groups_count (sbi sb))) 0 sb 0"

definition kr_sync_super :: "kernel \<Rightarrow> super_block \<Rightarrow> super_block option" where
  "kr_sync_super k sb =
     do { (fb, sb1) \<leftarrow> kr_count_free_blocks kr_error_locked sb;
          let sb2 = sb1\<lparr>es := (es sb1)\<lparr>es_free_blocks_count := word_of_int fb\<rparr>\<rparr>;
          (fi, sb3) \<leftarrow> kr_count_free_inodes kr_error_locked sb2;
          Some (sb3\<lparr>es := (es sb3)\<lparr>es_free_inodes_count := word_of_int fi,
                                  es_wtime := word_of_int (k_now k)\<rparr>\<rparr>) }"

definition kr_error :: "kernel \<Rightarrow> super_block \<Rightarrow> super_block option" where
  "kr_error k sb =
     do { sb' \<leftarrow>
            (if sb_rdonly sb then Some sb
             else kr_sync_super k
                    (sb\<lparr>sbi := (sbi sb)\<lparr>s_mount_state := s_mount_state (sbi sb) OR KR_ERROR_FS\<rparr>,
                        es := (es sb)\<lparr>es_state := es_state (es sb) OR KR_ERROR_FS\<rparr>\<rparr>));
          kr_error_tail sb' }"

abbreviation kr_get_group_desc ::
  "kernel \<Rightarrow> super_block \<Rightarrow> int \<Rightarrow> (kr_group_desc option \<times> super_block) option" where
  "kr_get_group_desc k \<equiv> kr_get_group_desc_with (kr_error k)"

text \<open>
  The descriptor a successful lookup of group \<open>g\<close> points to, and the store through that
  pointer.
\<close>

definition gdesc :: "super_block \<Rightarrow> int \<Rightarrow> kr_group_desc" where
  "gdesc sb g = the (s_group_desc sb ! desc_block sb g) ! desc_offset sb g"

definition set_gdesc :: "int \<Rightarrow> kr_group_desc \<Rightarrow> super_block \<Rightarrow> super_block" where
  "set_gdesc g d sb =
     sb\<lparr>s_group_desc := (s_group_desc sb)[desc_block sb g :=
          map_option (\<lambda>ds. ds[desc_offset sb g := d]) (s_group_desc sb ! desc_block sb g)]\<rparr>"

section \<open>Loaded descriptors\<close>

definition desc_loaded :: "super_block \<Rightarrow> int \<Rightarrow> bool" where
  "desc_loaded sb g =
     (desc_block sb g < length (s_group_desc sb) \<and>
      (case s_group_desc sb ! desc_block sb g of None \<Rightarrow> False
       | Some ds \<Rightarrow> desc_offset sb g < length ds))"

text \<open>
  The state in which the mounted file system keeps its descriptors: the descriptors per
  block are a power of two, and every group's descriptor is loaded.
\<close>

definition gd_ok :: "super_block \<Rightarrow> bool" where
  "gd_ok sb =
     (KR_DESC_PER_BLOCK sb = 2 ^ s_desc_per_block_bits (sbi sb) \<and>
      0 < s_groups_count (sbi sb) \<and> s_groups_count (sbi sb) \<le> 2147483648 \<and>
      (\<forall>g \<in> {0..<s_groups_count (sbi sb)}. desc_loaded sb g))"

lemma desc_block_eq: "desc_block sb g = nat (g div 2 ^ s_desc_per_block_bits (sbi sb))"
  by (simp add: desc_block_def drop_bit_eq_div)

lemma desc_offset_eq:
  "KR_DESC_PER_BLOCK sb = 2 ^ s_desc_per_block_bits (sbi sb) \<Longrightarrow>
   desc_offset sb g = nat (g mod 2 ^ s_desc_per_block_bits (sbi sb))"
  by (simp add: desc_offset_def flip: take_bit_eq_mod mask_eq_exp_minus_1 take_bit_eq_mask)

lemma get_group_desc_loaded [simp]:
  assumes "gd_ok sb" "0 \<le> g" "g < s_groups_count (sbi sb)"
  shows "kr_get_group_desc_with err sb g = Some (Some (gdesc sb g), sb)"
proof -
  have "u32 g = g" using assms by (simp add: gd_ok_def u32_id)
  moreover have "desc_loaded sb g" using assms by (simp add: gd_ok_def)
  ultimately show ?thesis using assms
    by (auto simp: kr_get_group_desc_with_def gdesc_def desc_loaded_def split: option.splits)
qed

lemma get_group_desc_beyond:
  assumes "0 \<le> g" "g < 4294967296" "s_groups_count (sbi sb) \<le> g"
  shows "kr_get_group_desc_with err sb g = map_option (\<lambda>s. (None, s)) (err sb)"
  using assms by (cases "err sb") (simp_all add: kr_get_group_desc_with_def u32_id)

text \<open>A store through a descriptor changes that descriptor and nothing else.\<close>

lemma set_gdesc_frame [simp, kr_frame]:
  "s_flags (set_gdesc g d sb) = s_flags sb" "s_blocksize (set_gdesc g d sb) = s_blocksize sb"
  "s_blocksize_bits (set_gdesc g d sb) = s_blocksize_bits sb"
  "s_maxbytes (set_gdesc g d sb) = s_maxbytes sb"
  "sbi (set_gdesc g d sb) = sbi sb" "es (set_gdesc g d sb) = es sb"
  "b_data (set_gdesc g d sb) = b_data sb"
  "s_rsv_window_root (set_gdesc g d sb) = s_rsv_window_root sb"
  "rsv_node (set_gdesc g d sb) = rsv_node sb"
  "desc_block (set_gdesc g d sb) = desc_block sb"
  "desc_offset (set_gdesc g d sb) = desc_offset sb"
  by (simp_all add: set_gdesc_def desc_block_def desc_offset_def fun_eq_iff)

lemma desc_loaded_set_gdesc [simp]: "desc_loaded (set_gdesc g d sb) h = desc_loaded sb h"
proof -
  have e: "desc_block (set_gdesc g d sb) = desc_block sb" "desc_offset (set_gdesc g d sb) = desc_offset sb"
    by simp_all
  show ?thesis
    unfolding desc_loaded_def e
    by (cases "desc_block sb h = desc_block sb g"; cases "desc_block sb g < length (s_group_desc sb)";
        cases "s_group_desc sb ! desc_block sb g")
      (simp_all add: set_gdesc_def)
qed

lemma gd_ok_set_gdesc [simp]: "gd_ok (set_gdesc g d sb) = gd_ok sb"
  by (simp add: gd_ok_def)

lemma desc_position_inj:
  assumes "gd_ok sb" "0 \<le> g" "0 \<le> h"
    and "desc_block sb g = desc_block sb h" "desc_offset sb g = desc_offset sb h"
  shows "g = h"
proof -
  let ?m = "2 ^ s_desc_per_block_bits (sbi sb) :: int"
  have dpb: "KR_DESC_PER_BLOCK sb = ?m" using assms by (simp add: gd_ok_def)
  have "g div ?m = h div ?m"
    using assms(2-4) eq_nat_nat_iff [of "g div ?m" "h div ?m"]
    by (simp add: desc_block_eq pos_imp_zdiv_nonneg_iff)
  moreover have "g mod ?m = h mod ?m"
    using assms(5) eq_nat_nat_iff [of "g mod ?m" "h mod ?m"] by (simp add: desc_offset_eq [OF dpb])
  ultimately show ?thesis by (metis div_mult_mod_eq)
qed

lemma gdesc_set_gdesc:
  assumes "gd_ok sb" "0 \<le> g" "g < s_groups_count (sbi sb)" "0 \<le> h" "h < s_groups_count (sbi sb)"
  shows "gdesc (set_gdesc g d sb) h = (if h = g then d else gdesc sb h)"
proof -
  have l: "desc_loaded sb g" "desc_loaded sb h" using assms by (simp_all add: gd_ok_def)
  have e: "desc_block (set_gdesc g d sb) = desc_block sb" "desc_offset (set_gdesc g d sb) = desc_offset sb"
    by simp_all
  obtain ds where ds: "s_group_desc sb ! desc_block sb g = Some ds"
    using l(1) by (auto simp: desc_loaded_def split: option.splits)
  show ?thesis
  proof (cases "desc_block sb h = desc_block sb g")
    case True
    then show ?thesis
      using l ds desc_position_inj [OF assms(1,2,4)] unfolding gdesc_def e
      by (cases "desc_offset sb h = desc_offset sb g") (auto simp: set_gdesc_def desc_loaded_def)
  next
    case False
    then show ?thesis unfolding gdesc_def e by (auto simp: set_gdesc_def)
  qed
qed

section \<open>The counts\<close>

lemma count_groups_loaded:
  assumes "gd_ok sb" "0 \<le> i" "i + int n \<le> s_groups_count (sbi sb)" "0 \<le> acc"
    and "acc + 65536 * int n < 18446744073709551616"
  shows "count_groups err field n i sb acc =
     Some (acc + (\<Sum>g = i..<i + int n. uint (field (gdesc sb g))), sb)"
  using assms
proof (induction n arbitrary: i acc)
  case 0
  then show ?case by simp
next
  case (Suc n)
  let ?x = "uint (field (gdesc sb i))"
  have x: "0 \<le> ?x" "?x < 65536" by simp_all
  have b: "acc + 65536 + 65536 * int n < 18446744073709551616" using Suc.prems(5) by simp
  have acc: "u64 (acc + ?x) = acc + ?x"
    by (rule u64_id) (use Suc.prems(4) b x in linarith)+
  have "count_groups err field n (i + 1) sb (acc + ?x) =
      Some (acc + ?x + (\<Sum>g = i + 1..<i + 1 + int n. uint (field (gdesc sb g))), sb)"
    using Suc.prems(1-4) b x by (intro Suc.IH) linarith+
  moreover have "{i..<i + int (Suc n)} = insert i {i + 1..<i + 1 + int n}" by auto
  ultimately show ?case
    using Suc.prems acc by simp
qed

lemma count_all_groups:
  assumes "gd_ok sb"
  shows "count_groups err field (nat (s_groups_count (sbi sb))) 0 sb 0 =
     Some (\<Sum>g = 0..<s_groups_count (sbi sb). uint (field (gdesc sb g)), sb)"
  using count_groups_loaded [OF assms, of 0 "nat (s_groups_count (sbi sb))" 0] assms
  by (simp add: gd_ok_def)

lemma kr_count_free_blocks_eq:
  "gd_ok sb \<Longrightarrow> kr_count_free_blocks err sb =
     Some (\<Sum>g = 0..<s_groups_count (sbi sb). uint (bg_free_blocks_count (gdesc sb g)), sb)"
  by (simp add: kr_count_free_blocks_def count_all_groups)

lemma kr_count_free_inodes_eq:
  "gd_ok sb \<Longrightarrow> kr_count_free_inodes err sb =
     Some (\<Sum>g = 0..<s_groups_count (sbi sb). uint (bg_free_inodes_count (gdesc sb g)), sb)"
  by (simp add: kr_count_free_inodes_def count_all_groups)

section \<open>Error reporting\<close>

text \<open>
  The parts of the state that \<open>kr_error\<close> and \<open>kr_sync_super\<close> leave alone; what they change
  is the error state, the two free counts of the on-disk super block, its write time, and
  the read-only flag.
\<close>

definition without_errors :: "super_block \<Rightarrow> super_block" where
  "without_errors sb =
     sb\<lparr>s_flags := 0, sbi := (sbi sb)\<lparr>s_mount_state := 0\<rparr>,
        es := (es sb)\<lparr>es_free_blocks_count := 0, es_free_inodes_count := 0,
                      es_wtime := 0, es_state := 0\<rparr>\<rparr>"

definition same_but_errors :: "super_block \<Rightarrow> super_block \<Rightarrow> bool" where
  "same_but_errors sb sb' = (without_errors sb = without_errors sb')"

lemma same_but_errors_refl [simp]: "same_but_errors sb sb"
  by (simp add: same_but_errors_def)

lemma same_but_errors_trans:
  "same_but_errors a b \<Longrightarrow> same_but_errors b c \<Longrightarrow> same_but_errors a c"
  by (simp add: same_but_errors_def)

lemma without_errors_frame:
  "s_blocksize (without_errors sb) = s_blocksize sb"
  "s_group_desc (without_errors sb) = s_group_desc sb"
  "b_data (without_errors sb) = b_data sb"
  "s_rsv_window_root (without_errors sb) = s_rsv_window_root sb"
  "rsv_node (without_errors sb) = rsv_node sb"
  "(sbi (without_errors sb)) = (sbi sb)\<lparr>s_mount_state := 0\<rparr>"
  "es_blocks_count (es (without_errors sb)) = es_blocks_count (es sb)"
  "es_inodes_count (es (without_errors sb)) = es_inodes_count (es sb)"
  "es_first_data_block (es (without_errors sb)) = es_first_data_block (es sb)"
  "gdesc (without_errors sb) = gdesc sb" "gd_ok (without_errors sb) = gd_ok sb"
  by (simp_all add: without_errors_def gdesc_def gd_ok_def desc_loaded_def desc_block_def
      desc_offset_def fun_eq_iff cong: option.case_cong)

lemma same_but_errorsD [kr_frame]:
  assumes "same_but_errors sb sb'"
  shows "s_blocksize sb' = s_blocksize sb" "s_group_desc sb' = s_group_desc sb"
    "b_data sb' = b_data sb" "s_rsv_window_root sb' = s_rsv_window_root sb"
    "rsv_node sb' = rsv_node sb" "s_groups_count (sbi sb') = s_groups_count (sbi sb)"
    "KR_BLOCKS_PER_GROUP sb' = KR_BLOCKS_PER_GROUP sb"
    "KR_INODES_PER_GROUP sb' = KR_INODES_PER_GROUP sb"
    "s_itb_per_group (sbi sb') = s_itb_per_group (sbi sb)"
    "s_mount_opt (sbi sb') = s_mount_opt (sbi sb)"
    "s_freeblocks_counter (sbi sb') = s_freeblocks_counter (sbi sb)"
    "s_freeinodes_counter (sbi sb') = s_freeinodes_counter (sbi sb)"
    "s_dirs_counter (sbi sb') = s_dirs_counter (sbi sb)"
    "s_debts (sbi sb') = s_debts (sbi sb)"
    "es_blocks_count (es sb') = es_blocks_count (es sb)"
    "es_inodes_count (es sb') = es_inodes_count (es sb)"
    "es_first_data_block (es sb') = es_first_data_block (es sb)"
    "gdesc sb' = gdesc sb" "gd_ok sb' = gd_ok sb"
proof -
  have e: "without_errors sb' = without_errors sb" using assms by (simp add: same_but_errors_def)
  note f = without_errors_frame [of sb', unfolded e without_errors_frame [of sb]]
  show "s_blocksize sb' = s_blocksize sb" "s_group_desc sb' = s_group_desc sb"
    "b_data sb' = b_data sb" "s_rsv_window_root sb' = s_rsv_window_root sb"
    "rsv_node sb' = rsv_node sb" "es_blocks_count (es sb') = es_blocks_count (es sb)"
    "es_inodes_count (es sb') = es_inodes_count (es sb)"
    "es_first_data_block (es sb') = es_first_data_block (es sb)"
    "gdesc sb' = gdesc sb" "gd_ok sb' = gd_ok sb"
    by (simp_all only: f)
  show "s_groups_count (sbi sb') = s_groups_count (sbi sb)"
    "KR_BLOCKS_PER_GROUP sb' = KR_BLOCKS_PER_GROUP sb"
    "KR_INODES_PER_GROUP sb' = KR_INODES_PER_GROUP sb"
    "s_itb_per_group (sbi sb') = s_itb_per_group (sbi sb)"
    "s_freeblocks_counter (sbi sb') = s_freeblocks_counter (sbi sb)"
    "s_freeinodes_counter (sbi sb') = s_freeinodes_counter (sbi sb)"
    "s_dirs_counter (sbi sb') = s_dirs_counter (sbi sb)"
    "s_mount_opt (sbi sb') = s_mount_opt (sbi sb)"
    "s_debts (sbi sb') = s_debts (sbi sb)"
    by (use f(6) in \<open>cases "sbi sb"; cases "sbi sb'"; simp\<close>)+
qed

lemmas same_but_errors_gd_ok = same_but_errorsD(19)
lemmas same_but_errors_gdesc = same_but_errorsD(18)

lemma kr_error_tail_same:
  "kr_error_tail sb = Some sb' \<Longrightarrow> same_but_errors sb sb'"
  by (auto simp: kr_error_tail_def same_but_errors_def without_errors_def split: if_splits)

text \<open>With the descriptors loaded the super block is written with the true totals.\<close>

lemma kr_sync_super_eq:
  assumes "gd_ok sb"
  shows "kr_sync_super k sb = Some (sb\<lparr>es := (es sb)\<lparr>
     es_free_blocks_count :=
       word_of_int (\<Sum>g = 0..<s_groups_count (sbi sb). uint (bg_free_blocks_count (gdesc sb g))),
     es_free_inodes_count :=
       word_of_int (\<Sum>g = 0..<s_groups_count (sbi sb). uint (bg_free_inodes_count (gdesc sb g))),
     es_wtime := word_of_int (k_now k)\<rparr>\<rparr>)"
proof -
  let ?sb = "sb\<lparr>es := (es sb)\<lparr>es_free_blocks_count :=
       word_of_int (\<Sum>g = 0..<s_groups_count (sbi sb). uint (bg_free_blocks_count (gdesc sb g)))\<rparr>\<rparr>"
  have same: "same_but_errors sb ?sb"
    by (simp add: same_but_errors_def without_errors_def)
  then have "gd_ok ?sb" using assms(1) by (simp only: same_but_errors_gd_ok)
  then show ?thesis
    using assms same_but_errors_gdesc [OF same]
    by (simp add: kr_sync_super_def kr_count_free_blocks_eq kr_count_free_inodes_eq)
qed

lemma kr_error_total:
  assumes "gd_ok sb" "\<not> test_opt sb KR_MOUNT_ERRORS_PANIC"
  shows "\<exists>sb'. kr_error k sb = Some sb' \<and> same_but_errors sb sb'"
proof (cases "sb_rdonly sb")
  case True
  then obtain sb' where "kr_error k sb = Some sb'" "kr_error_tail sb = Some sb'"
    using assms by (auto simp: kr_error_def kr_error_tail_def)
  then show ?thesis using kr_error_tail_same by blast
next
  case False
  let ?sb = "sb\<lparr>sbi := (sbi sb)\<lparr>s_mount_state := s_mount_state (sbi sb) OR KR_ERROR_FS\<rparr>,
                 es := (es sb)\<lparr>es_state := es_state (es sb) OR KR_ERROR_FS\<rparr>\<rparr>"
  have s1: "same_but_errors sb ?sb"
    by (simp add: same_but_errors_def without_errors_def)
  then have ok: "gd_ok ?sb" using assms(1) by (simp only: same_but_errors_gd_ok)
  obtain sb2 where sb2: "kr_sync_super k ?sb = Some sb2" "same_but_errors ?sb sb2"
    unfolding kr_sync_super_eq [OF ok] by (simp add: same_but_errors_def without_errors_def)
  have s2: "same_but_errors sb sb2" using s1 sb2(2) same_but_errors_trans by blast
  then have "\<not> test_opt sb2 KR_MOUNT_ERRORS_PANIC"
    using assms(2) by (simp add: test_opt_def same_but_errorsD)
  then obtain sb' where "kr_error_tail sb2 = Some sb'" by (auto simp: kr_error_tail_def)
  then show ?thesis
    using False sb2(1) s2 kr_error_tail_same same_but_errors_trans
    by (fastforce simp: kr_error_def)
qed

end
