(* ===== verification/Kr_Bitmap.thy ===== *)
theory Kr_Bitmap
  imports Kr_Group
begin

text \<open>
  Block bitmaps (\<^verbatim>\<open>balloc.c\<close>): the check of a bitmap that was read from disk, the searches
  for a free bit, and \<^verbatim>\<open>kr_try_to_allocate\<close>, which claims a run of bits in one group.

  A search works on the contents of the bitmap buffer. Reading or writing past the end of
  the buffer is \<^term>\<open>None\<close>. The lemmas show that the searches are sound and complete
  (a block they give is free and in range; they give none only when there is none), and
  that \<open>kr_try_to_allocate\<close> either claims a non-empty run of free bits in its range and
  changes nothing else, or leaves the bitmap as it was.
\<close>

section \<open>Model\<close>

definition kr_valid_block_bitmap ::
  "kernel \<Rightarrow> super_block \<Rightarrow> kr_group_desc \<Rightarrow> int \<Rightarrow> bitmap \<Rightarrow> (bool \<times> super_block) option"
where
  "kr_valid_block_bitmap k sb desc block_group bm =
     (let group_first_block = kr_group_first_block_no sb block_group;
          off = (\<lambda>blk :: 32 word. s32 (u64 (uint blk - group_first_block)));
          itb = s_itb_per_group (sbi sb);
          err_out = do { sb' \<leftarrow> kr_error k sb; Some (False, sb') }
      in do {
        b \<leftarrow> test_bit_le (off (bg_block_bitmap desc)) bm;
        if \<not> b then err_out else do {
          i \<leftarrow> test_bit_le (off (bg_inode_bitmap desc)) bm;
          if \<not> i then err_out else do {
            let offset = off (bg_inode_table desc);
            next_zero_bit \<leftarrow> find_next_zero_bit_le bm (u64 (offset + itb)) offset;
            if u64 (offset + itb) \<le> u64 (s32 next_zero_bit) then Some (True, sb)
            else err_out } } })"

text \<open>The result is the block number of the bitmap's buffer.\<close>

definition read_block_bitmap ::
  "kernel \<Rightarrow> super_block \<Rightarrow> int \<Rightarrow> (int option \<times> super_block) option" where
  "read_block_bitmap k sb block_group =
     do { (desc, sb1) \<leftarrow> kr_get_group_desc k sb block_group;
          case desc of None \<Rightarrow> Some (None, sb1)
          | Some d \<Rightarrow>
              let bitmap_blk = uint (bg_block_bitmap d) in
              if \<not> k_getblk k bitmap_blk then do { sb2 \<leftarrow> kr_error k sb1; Some (None, sb2) }
              else if k_uptodate k bitmap_blk then Some (Some bitmap_blk, sb1)
              else if \<not> k_bread k bitmap_blk then do { sb2 \<leftarrow> kr_error k sb1; Some (None, sb2) }
              else do {
                (valid, sb2) \<leftarrow> kr_valid_block_bitmap k sb1 d (u32 block_group) (b_data sb1 bitmap_blk);
                Some (Some bitmap_blk, sb2) } }"

definition group_adjust_blocks :: "super_block \<Rightarrow> int \<Rightarrow> int \<Rightarrow> super_block" where
  "group_adjust_blocks sb group_no count =
     (if count = 0 then sb
      else let d = gdesc sb group_no in
        set_gdesc group_no
          (d\<lparr>bg_free_blocks_count := word_of_int (u32 (uint (bg_free_blocks_count d) + count))\<rparr>) sb)"

definition bitmap_search_next_usable_block :: "int \<Rightarrow> bitmap \<Rightarrow> int \<Rightarrow> int option" where
  "bitmap_search_next_usable_block start bm maxblocks =
     do { nxt \<leftarrow> find_next_zero_bit_le bm maxblocks start;
          Some (if maxblocks \<le> s32 nxt then - 1 else s32 nxt) }"

definition find_next_usable_block :: "int \<Rightarrow> bitmap \<Rightarrow> int \<Rightarrow> int option" where
  "find_next_usable_block start bm maxblocks =
     do { near \<leftarrow>
            (if 0 < start then
               (let end_goal = min (s32 (start + 63) AND NOT 63) maxblocks in
                do { here \<leftarrow> find_next_zero_bit_le bm end_goal start;
                     Some (if s32 here < end_goal then Some (s32 here) else None) })
             else Some None);
          case near of Some here \<Rightarrow> Some here
          | None \<Rightarrow>
              let here = max start 0 in do {
                r \<leftarrow> memscan_zero bm (nat (here div 8))
                       (nat (u64 (s32 (maxblocks + 7) div 8 - here div 8)));
                let nxt = s32 (8 * int r);
                if nxt < maxblocks \<and> here \<le> nxt then Some nxt
                else bitmap_search_next_usable_block here bm maxblocks } }"

text \<open>The loop that moves a found block back over at most \<open>n\<close> free bits.\<close>

fun back_up :: "nat \<Rightarrow> int \<Rightarrow> int \<Rightarrow> bitmap \<Rightarrow> int option" where
  "back_up 0 start g bm = Some g"
| "back_up (Suc n) start g bm =
     (if g \<le> start then Some g
      else do { b \<leftarrow> test_bit_le (g - 1) bm;
                if b then Some g else back_up n start (g - 1) bm })"

text \<open>
  The \<^verbatim>\<open>repeat\<close> loop after the first goal is known: the goal is not negative any more, so
  each round tries the next bit. The result is the first bit it could set.
\<close>

function claim :: "int \<Rightarrow> int \<Rightarrow> bitmap \<Rightarrow> (int option \<times> bitmap) option" where
  "claim g end bm =
     do { (old, bm') \<leftarrow> set_bit_le g bm;
          if \<not> old then Some (Some g, bm')
          else if end \<le> g + 1 then Some (None, bm')
          else claim (g + 1) end bm' }"
  by pat_completeness auto
termination by (relation "measure (\<lambda>(g, end, bm). nat (end - g))") auto

text \<open>The loop that extends the run: \<open>num\<close> bits are set, \<open>g\<close> is the next one.\<close>

function grab :: "int \<Rightarrow> int \<Rightarrow> int \<Rightarrow> int \<Rightarrow> bitmap \<Rightarrow> (int \<times> int \<times> bitmap) option" where
  "grab num count g end bm =
     (if num < count \<and> g < end then
        do { (old, bm') \<leftarrow> set_bit_le g bm;
             if old then Some (num, g, bm') else grab (num + 1) count (g + 1) end bm' }
      else Some (num, g, bm))"
  by pat_completeness auto
termination by (relation "measure (\<lambda>(num, count, g, end, bm). nat (end - g))") auto

declare claim.simps [simp del] grab.simps [simp del]

text \<open>
  The range of the allocation, and the goal in it: \<open>(start, end, grp_goal)\<close>.
\<close>

definition allocation_range ::
  "super_block \<Rightarrow> int \<Rightarrow> int \<Rightarrow> (int \<times> int) option \<Rightarrow> int \<times> int \<times> int" where
  "allocation_range sb group_no grp_goal my_rsv =
     (case my_rsv of
        None \<Rightarrow> (if 0 < grp_goal then grp_goal else 0, s32 (KR_BLOCKS_PER_GROUP sb), grp_goal)
      | Some (rstart, rend) \<Rightarrow>
          let group_first_block = kr_group_first_block_no sb group_no;
              start = (if group_first_block \<le> rstart then s32 (rstart - group_first_block) else 0);
              end0 = s32 (rend - group_first_block + 1);
              end1 = (if KR_BLOCKS_PER_GROUP sb < u64 end0 then s32 (KR_BLOCKS_PER_GROUP sb) else end0)
          in if start \<le> grp_goal \<and> grp_goal < end1 then (grp_goal, end1, grp_goal)
             else (start, end1, - 1))"

text \<open>The result is the first block of the run or \<open>-1\<close>, the new \<^verbatim>\<open>*count\<close> and the bitmap.\<close>

definition kr_try_to_allocate ::
  "super_block \<Rightarrow> int \<Rightarrow> bitmap \<Rightarrow> int \<Rightarrow> int \<Rightarrow> (int \<times> int) option \<Rightarrow> (int \<times> int \<times> bitmap) option"
where
  "kr_try_to_allocate sb group_no bm grp_goal0 count my_rsv =
     (case allocation_range sb group_no grp_goal0 my_rsv of (start, end, grp_goal) \<Rightarrow>
      if KR_BLOCKS_PER_GROUP sb < u64 start then None
      else do {
        g \<leftarrow> (if grp_goal < 0 then do {
                f \<leftarrow> find_next_usable_block start bm end;
                if f < 0 then Some f
                else if my_rsv = None then back_up 7 start f bm
                else Some f }
              else Some grp_goal);
        if g < 0 then Some (- 1, 0, bm)
        else do {
          (c, bm1) \<leftarrow> claim g end bm;
          case c of None \<Rightarrow> Some (- 1, 0, bm1)
          | Some g1 \<Rightarrow> do {
              (num, g2, bm2) \<leftarrow> grab 1 count (g1 + 1) end bm1;
              Some (g2 - num, num, bm2) } } })"

section \<open>The searches\<close>

text \<open>
  A buffer that holds a bitmap: whole bytes, and small enough for every bit number to be an
  \<^verbatim>\<open>int\<close> (a block has at most 64 KiB).
\<close>

definition bitmap_buffer :: "bitmap \<Rightarrow> bool" where
  "bitmap_buffer bm = (8 dvd length bm \<and> length bm < 1073741824)"

lemma bitmap_buffer_mark [simp]: "bitmap_buffer (mark_range v a n bm) = bitmap_buffer bm"
  by (simp add: bitmap_buffer_def)

text \<open>The contract of a search for a free bit in \<open>[lo, hi)\<close>.\<close>

definition free_bit_found :: "bitmap \<Rightarrow> int \<Rightarrow> int \<Rightarrow> int \<Rightarrow> bool" where
  "free_bit_found bm lo hi r =
     (if r < 0 then r = - 1 \<and> (\<forall>i. lo \<le> int i \<and> int i < hi \<longrightarrow> bm ! i)
      else lo \<le> r \<and> r < hi \<and> \<not> bm ! nat r)"

lemma bitmap_search_next_usable_block_spec:
  assumes "bitmap_buffer bm" "0 \<le> start" "start < 2147483648" "0 \<le> hi" "hi \<le> int (length bm)"
  shows "\<exists>r. bitmap_search_next_usable_block start bm hi = Some r \<and> free_bit_found bm start hi r"
proof (cases "start \<le> hi")
  case True
  have l: "int (length bm) < 1073741824" using assms by (simp add: bitmap_buffer_def)
  obtain r where r: "find_next_zero_bit_le bm hi start = Some r" "start \<le> r" "r \<le> hi"
      "r < hi \<Longrightarrow> \<not> bm ! nat r" "\<And>i. nat start \<le> i \<Longrightarrow> i < nat r \<Longrightarrow> bm ! i"
    using find_next_zero_bit_le_spec [of start hi bm] assms l True by auto
  have "s32 r = r" using r assms l by (simp add: s32_id)
  then show ?thesis
    using r assms by (auto simp: bitmap_search_next_usable_block_def free_bit_found_def)
next
  case False
  then have "find_next_zero_bit_le bm hi start = Some hi" "s32 hi = hi"
    using assms by (simp_all add: find_next_zero_bit_le_def u64_id s32_id bitmap_buffer_def)
  then show ?thesis
    using False by (auto simp: bitmap_search_next_usable_block_def free_bit_found_def)
qed

lemma near_goal:
  assumes "0 \<le> start" "start < 1073741824"
  shows "start \<le> s32 (start + 63) AND NOT 63" "0 \<le> s32 (start + 63) AND NOT 63"
  using assms by (simp_all add: s32_id and_minus_64)

lemma find_next_usable_block_spec:
  assumes "bitmap_buffer bm" "start \<le> hi" "0 \<le> hi" "hi \<le> int (length bm)"
  shows "\<exists>r. find_next_usable_block start bm hi = Some r \<and> free_bit_found bm (max start 0) hi r"
proof -
  have l: "int (length bm) < 1073741824" "8 dvd int (length bm)"
    using assms by (auto simp: bitmap_buffer_def)
  let ?here = "max start 0"
  let ?e = "min (s32 (start + 63) AND NOT 63) hi"
  have e: "start \<le> ?e" "0 \<le> ?e" "?e \<le> int (length bm)" if "0 < start"
    using that assms l near_goal [of start] by (auto simp: min_le_iff_disj)
  define near where "near = (if 0 < start then
       (do { here \<leftarrow> find_next_zero_bit_le bm ?e start;
             Some (if s32 here < ?e then Some (s32 here) else None) })
     else Some None)"
  have near: "\<exists>h. near = Some h \<and> (case h of None \<Rightarrow> True | Some r \<Rightarrow> start \<le> r \<and> r < hi \<and> 0 \<le> r \<and> \<not> bm ! nat r)"
  proof (cases "0 < start")
    case True
    obtain r where r: "find_next_zero_bit_le bm ?e start = Some r" "start \<le> r" "r \<le> ?e"
        "r < ?e \<Longrightarrow> \<not> bm ! nat r"
      by (rule find_next_zero_bit_le_spec [of start ?e bm]) ((use e [OF True] True l in linarith)+, blast)
    have "s32 r = r" using r assms l True by (intro s32_id) auto
    then show ?thesis using r True by (auto simp: near_def)
  qed (simp add: near_def)
  have eq: "find_next_usable_block start bm hi = do { h \<leftarrow> near;
      case h of Some here \<Rightarrow> Some here | None \<Rightarrow> do {
        r \<leftarrow> memscan_zero bm (nat (?here div 8)) (nat (u64 (s32 (hi + 7) div 8 - ?here div 8)));
        let nxt = s32 (8 * int r);
        if nxt < hi \<and> ?here \<le> nxt then Some nxt
        else bitmap_search_next_usable_block ?here bm hi } }"
    unfolding find_next_usable_block_def near_def Let_def by (rule refl)
  have search: "\<exists>r. bitmap_search_next_usable_block ?here bm hi = Some r \<and> free_bit_found bm ?here hi r"
    using assms l by (intro bitmap_search_next_usable_block_spec) auto
  have n: "u64 (s32 (hi + 7) div 8 - ?here div 8) = (hi + 7) div 8 - ?here div 8"
    using assms l by (simp add: s32_id) (rule u64_id, auto intro: zdiv_mono1)
  have fits: "8 * (nat (?here div 8) + nat ((hi + 7) div 8 - ?here div 8)) \<le> length bm"
  proof -
    obtain q where q: "int (length bm) = 8 * q" using l(2) by blast
    have "?here div 8 \<le> (hi + 7) div 8" using assms by (intro zdiv_mono1) auto
    moreover have "0 \<le> ?here div 8" by simp
    moreover have "(hi + 7) div 8 \<le> q" using assms(4) q by linarith
    ultimately have "int (8 * (nat (?here div 8) + nat ((hi + 7) div 8 - ?here div 8))) \<le> int (length bm)"
      using q by simp
    then show ?thesis by (simp only: of_nat_le_iff)
  qed
  obtain r where r: "memscan_zero bm (nat (?here div 8)) (nat ((hi + 7) div 8 - ?here div 8)) = Some r"
      "\<And>i. r < nat (?here div 8) + nat ((hi + 7) div 8 - ?here div 8) \<Longrightarrow> 8 * r \<le> i \<Longrightarrow> i < 8 * r + 8 \<Longrightarrow> \<not> bm ! i"
      "r \<le> nat (?here div 8) + nat ((hi + 7) div 8 - ?here div 8)"
    using memscan_zero_spec [OF fits] by metis
  have r8: "s32 (8 * int r) = 8 * int r"
  proof -
    have "8 * r \<le> length bm" using le_trans [OF mult_le_mono2 [OF r(3)] fits] .
    then show ?thesis using l by (intro s32_id) linarith+
  qed
  have hit: "free_bit_found bm ?here hi (8 * int r)" if "8 * int r < hi" "?here \<le> 8 * int r"
    using that r(2) [of "8 * r"] by (auto simp: free_bit_found_def nat_mult_distrib)
  obtain h where h: "near = Some h"
      "case h of None \<Rightarrow> True | Some r \<Rightarrow> start \<le> r \<and> r < hi \<and> 0 \<le> r \<and> \<not> bm ! nat r"
    using near by blast
  show ?thesis
  proof (cases h)
    case None
    then show ?thesis using search hit unfolding eq n by (simp add: h(1) r(1) r8 Let_def)
  next
    case (Some x)
    then have "free_bit_found bm ?here hi x" using h(2) by (simp add: free_bit_found_def)
    then show ?thesis unfolding eq by (simp add: h(1) Some)
  qed
qed

section \<open>Claiming a run of bits\<close>

lemma back_up_spec:
  assumes "0 \<le> start" "start \<le> g" "g < int (length bm)" "\<not> bm ! nat g"
  shows "\<exists>g'. back_up n start g bm = Some g' \<and> start \<le> g' \<and> g' \<le> g \<and> \<not> bm ! nat g'"
  using assms
proof (induction n arbitrary: g)
  case (Suc n)
  show ?case
  proof (cases "g \<le> start \<or> bm ! nat (g - 1)")
    case True
    then show ?thesis using Suc.prems by (auto simp: test_bit_le_def)
  next
    case False
    then show ?thesis using Suc.IH [of "g - 1"] Suc.prems by (fastforce simp: test_bit_le_def)
  qed
qed auto

lemma claim_spec:
  assumes "0 \<le> g" "g < e" "e \<le> int (length bm)"
  shows "\<exists>c bm'. claim g e bm = Some (c, bm') \<and>
     (case c of None \<Rightarrow> bm' = bm \<and> (\<forall>i. g \<le> int i \<and> int i < e \<longrightarrow> bm ! i)
      | Some h \<Rightarrow> g \<le> h \<and> h < e \<and> \<not> bm ! nat h \<and> bm' = bm[nat h := True])"
  using assms
proof (induction g e bm rule: claim.induct)
  case (1 g e bm)
  have set_bit: "set_bit_le g bm = Some (bm ! nat g, bm[nat g := True])"
    using "1.prems" by (simp add: set_bit_le_def)
  show ?case
  proof (cases "bm ! nat g")
    case True
    then have id: "bm[nat g := True] = bm" by (metis list_update_id)
    show ?thesis
    proof (cases "e \<le> g + 1")
      case True
      then have "i = nat g" if "g \<le> int i" "int i < e" for i using that "1.prems" by linarith
      then show ?thesis using \<open>bm ! nat g\<close> True id set_bit
        by (auto simp: claim.simps [of g])
    next
      case False
      have step: "claim g e bm = claim (g + 1) e bm"
        using \<open>bm ! nat g\<close> False id set_bit by (simp add: claim.simps [of g])
      obtain c bm' where ih: "claim (g + 1) e bm = Some (c, bm')"
        "case c of None \<Rightarrow> bm' = bm \<and> (\<forall>i. g + 1 \<le> int i \<and> int i < e \<longrightarrow> bm ! i)
         | Some h \<Rightarrow> g + 1 \<le> h \<and> h < e \<and> \<not> bm ! nat h \<and> bm' = bm[nat h := True]"
        using "1.IH" [OF set_bit refl, unfolded id] \<open>bm ! nat g\<close> False "1.prems" by auto
      have "bm ! i" if "g \<le> int i" "int i < e" "\<forall>i. g + 1 \<le> int i \<and> int i < e \<longrightarrow> bm ! i" for i
        using that \<open>bm ! nat g\<close> by (cases "int i = g") auto
      then show ?thesis using ih step by (cases c) auto
    qed
  next
    case False
    then show ?thesis using set_bit "1.prems" by (simp add: claim.simps [of g])
  qed
qed

lemma grab_spec:
  assumes "0 \<le> g" "e \<le> int (length bm)" "g \<le> e"
  shows "\<exists>m bm'. grab num count g e bm = Some (num + int m, g + int m, bm') \<and>
     bm' = mark_range True (nat g) m bm \<and> g + int m \<le> e \<and> num + int m \<le> max num count \<and>
     (\<forall>i. nat g \<le> i \<and> i < nat g + m \<longrightarrow> \<not> bm ! i) \<and>
     (num + int m < count \<and> g + int m < e \<longrightarrow> bm ! (nat g + m))"
  using assms
proof (induction num count g e bm rule: grab.induct)
  case (1 num count g e bm)
  show ?case
  proof (cases "num < count \<and> g < e")
    case True
    have set_bit: "set_bit_le g bm = Some (bm ! nat g, bm[nat g := True])"
      using "1.prems" True by (simp add: set_bit_le_def)
    show ?thesis
    proof (cases "bm ! nat g")
      case old: True
      then have "bm[nat g := True] = bm" by (metis list_update_id)
      then show ?thesis using old True set_bit "1.prems"
        by (intro exI [of _ 0]) (auto simp: grab.simps [of num])
    next
      case False
      have n1: "nat (g + 1) = Suc (nat g)" using "1.prems" by simp
      obtain m bm' where ih: "grab (num + 1) count (g + 1) e (bm[nat g := True]) =
            Some (num + 1 + int m, g + 1 + int m, bm')"
          "bm' = mark_range True (Suc (nat g)) m (bm[nat g := True])" "g + 1 + int m \<le> e"
          "num + 1 + int m \<le> max (num + 1) count"
          "\<And>i. Suc (nat g) \<le> i \<Longrightarrow> i < Suc (nat g) + m \<Longrightarrow> \<not> bm ! i"
          "num + 1 + int m < count \<Longrightarrow> g + 1 + int m < e \<Longrightarrow> bm ! (Suc (nat g) + m)"
        using "1.IH" [OF True set_bit refl False] True "1.prems" by (auto simp: n1 nth_list_update)
      have "\<not> bm ! i" if "nat g \<le> i" "i < nat g + Suc m" for i
        using that False ih(5) by (cases "i = nat g") auto
      then show ?thesis using ih set_bit False True "1.prems"
        by (intro exI [of _ "Suc m"] exI [of _ bm'])
          (auto simp: grab.simps [of num count g] mark_range_Suc add.commute add.left_commute)
    qed
  next
    case False
    then show ?thesis using "1.prems"
      by (intro exI [of _ 0]) (auto simp: grab.simps [of num])
  qed
qed

text \<open>
  The contract of an allocation in the range \<open>[lo, hi)\<close> of a bitmap: on success a run of
  free bits has been claimed and nothing else has changed; on failure nothing has changed
  and there was no free bit.
\<close>

definition alloc_post :: "bitmap \<Rightarrow> int \<Rightarrow> int \<Rightarrow> int \<Rightarrow> int \<Rightarrow> int \<Rightarrow> bitmap \<Rightarrow> bool" where
  "alloc_post bm lo hi count r num bm' =
     (if r < 0 then r = - 1 \<and> num = 0 \<and> bm' = bm \<and> (\<forall>i. lo \<le> int i \<and> int i < hi \<longrightarrow> bm ! i)
      else lo \<le> r \<and> r + num \<le> hi \<and> 1 \<le> num \<and> num \<le> max 1 count \<and>
           (\<forall>i. nat r \<le> i \<and> i < nat (r + num) \<longrightarrow> \<not> bm ! i) \<and>
           bm' = mark_range True (nat r) (nat num) bm)"

lemma claim_grab_spec:
  assumes "0 \<le> g" "g < e" "e \<le> int (length bm)"
  shows "\<exists>r num bm'. do { (c, bm1) \<leftarrow> claim g e bm;
          case c of None \<Rightarrow> Some (- 1, 0, bm1)
          | Some g1 \<Rightarrow> do { (num, g2, bm2) \<leftarrow> grab 1 count (g1 + 1) e bm1; Some (g2 - num, num, bm2) } }
      = Some (r, num, bm') \<and> alloc_post bm g e count r num bm'"
proof -
  obtain c bm1 where c: "claim g e bm = Some (c, bm1)"
     "case c of None \<Rightarrow> bm1 = bm \<and> (\<forall>i. g \<le> int i \<and> int i < e \<longrightarrow> bm ! i)
      | Some h \<Rightarrow> g \<le> h \<and> h < e \<and> \<not> bm ! nat h \<and> bm1 = bm[nat h := True]"
    using claim_spec [OF assms] by blast
  show ?thesis
  proof (cases c)
    case None
    then show ?thesis using c by (simp add: alloc_post_def)
  next
    case (Some h)
    then have h: "g \<le> h" "h < e" "\<not> bm ! nat h" "bm1 = bm[nat h := True]" using c by auto
    have n1: "nat (h + 1) = Suc (nat h)" using h assms by simp
    obtain m bm2 where m: "grab 1 count (h + 1) e bm1 = Some (1 + int m, h + 1 + int m, bm2)"
        "bm2 = mark_range True (nat (h + 1)) m bm1" "h + 1 + int m \<le> e" "1 + int m \<le> max 1 count"
        "\<forall>i. nat (h + 1) \<le> i \<and> i < nat (h + 1) + m \<longrightarrow> \<not> bm1 ! i"
      using grab_spec [of "h + 1" e bm1 1 count] h assms by auto
    have clear: "\<not> bm ! i" if "nat h \<le> i" "i < nat h + Suc m" for i
      using m(5) [rule_format, of i] that h(3,4) unfolding n1 by (cases "i = nat h") auto
    have "nat (h + (1 + int m)) = nat h + Suc m" "nat (1 + int m) = Suc m" using h assms by simp_all
    then have "alloc_post bm g e count h (1 + int m) bm2"
      using m clear h assms unfolding alloc_post_def n1 by (auto simp: mark_range_Suc)
    then show ?thesis using c(1) Some m(1) by (intro exI [of _ h] exI [of _ "1 + int m"] exI [of _ bm2]) simp
  qed
qed

lemma alloc_post_lower:
  "alloc_post bm g e count r num bm' \<Longrightarrow> \<not> bm ! nat g \<Longrightarrow> 0 \<le> g \<Longrightarrow> g < e \<Longrightarrow> lo \<le> g \<Longrightarrow>
   alloc_post bm lo e count r num bm'"
  by (auto simp: alloc_post_def split: if_splits)

lemma try_to_allocate_in_range:
  assumes bm: "bitmap_buffer bm" "e \<le> int (length bm)"
    and range: "allocation_range sb g goal0 rsv = (start, e, goal)"
    and ok: "0 \<le> start" "start \<le> e" "start \<le> KR_BLOCKS_PER_GROUP sb"
      "goal < 0 \<or> goal = start \<and> start < e"
  shows "\<exists>r num bm'. kr_try_to_allocate sb g bm goal0 count rsv = Some (r, num, bm') \<and>
     alloc_post bm start e count r num bm'"
proof -
  have l: "int (length bm) < 1073741824" using bm by (simp add: bitmap_buffer_def)
  have s: "u64 start = start" using ok bm l by (simp add: u64_id)
  let ?tail = "\<lambda>g. do { (c, bm1) \<leftarrow> claim g e bm;
          case c of None \<Rightarrow> Some (- 1, 0, bm1)
          | Some g1 \<Rightarrow> do { (num, g2, bm2) \<leftarrow> grab 1 count (g1 + 1) e bm1; Some (g2 - num, num, bm2) } }"
  have eq: "kr_try_to_allocate sb g bm goal0 count rsv = do {
      h \<leftarrow> (if goal < 0 then do {
                f \<leftarrow> find_next_usable_block start bm e;
                if f < 0 then Some f else if rsv = None then back_up 7 start f bm else Some f }
            else Some goal);
      if h < 0 then Some (- 1, 0, bm) else ?tail h }"
    using ok s by (simp add: kr_try_to_allocate_def range)
  show ?thesis
  proof (cases "goal < 0")
    case False
    then show ?thesis
      using claim_grab_spec [of start e bm count] ok bm unfolding eq by simp
  next
    case True
    obtain f where f: "find_next_usable_block start bm e = Some f" "free_bit_found bm start e f"
      using find_next_usable_block_spec [of bm start e] bm ok by (auto simp: max_def)
    show ?thesis
    proof (cases "f < 0")
      case True
      then show ?thesis using f \<open>goal < 0\<close> unfolding eq
        by (auto simp: alloc_post_def free_bit_found_def)
    next
      case False
      obtain h where h: "(if rsv = None then back_up 7 start f bm else Some f) = Some h"
          "start \<le> h" "h \<le> f" "\<not> bm ! nat h"
        using back_up_spec [of start f bm 7] f False ok(1) bm
        by (cases rsv) (auto simp: free_bit_found_def)
      have "h < e" using h f False by (auto simp: free_bit_found_def)
      then obtain r num bm' where "?tail h = Some (r, num, bm')" "alloc_post bm h e count r num bm'"
        using claim_grab_spec [of h e bm count] h ok bm by auto
      then show ?thesis
        using alloc_post_lower [of bm h e count r num bm' start] h f False ok \<open>goal < 0\<close> \<open>h < e\<close>
        unfolding eq by (auto simp: f(1))
    qed
  qed
qed

section \<open>The range of an allocation\<close>

lemma allocation_range_no_window:
  assumes "- 1 \<le> goal" "goal < KR_BLOCKS_PER_GROUP sb" "KR_BLOCKS_PER_GROUP sb < 2147483648"
  shows "\<exists>start. allocation_range sb g goal None = (start, KR_BLOCKS_PER_GROUP sb, goal) \<and>
     start = max goal 0"
  using assms by (simp add: allocation_range_def s32_id max_def)

text \<open>
  A window that meets the group restricts the range to the blocks of the window in the
  group. The last block of the window has to be near enough for an \<^verbatim>\<open>int\<close>.
\<close>

lemma allocation_range_window:
  fixes rs re :: int
  defines "s \<equiv> \<lambda>F. max (rs - F) 0" and "e \<equiv> \<lambda>F B. min (re - F + 1) B"
  assumes "F = kr_group_first_block_no sb g" "B = KR_BLOCKS_PER_GROUP sb"
    and "rs \<le> re" "0 < B" "B < 2147483647" "rs \<le> F + B - 1" "F \<le> re" "re - F < 2147483647"
  shows "allocation_range sb g goal (Some (rs, re)) =
      (if s F \<le> goal \<and> goal < e F B then (goal, e F B, goal) else (s F, e F B, - 1))"
    and "0 \<le> s F" "s F < e F B" "e F B \<le> B"
proof -
  show "0 \<le> s F" "s F < e F B" "e F B \<le> B" using assms by (auto simp: s_def e_def)
  have "(if F \<le> rs then s32 (rs - F) else 0) = s F" using assms by (simp add: s32_id s_def)
  moreover have "s32 (re - F + 1) = re - F + 1" "u64 (re - F + 1) = re - F + 1" "s32 B = B"
    using assms by (simp_all add: s32_id u64_id)
  ultimately show "allocation_range sb g goal (Some (rs, re)) =
      (if s F \<le> goal \<and> goal < e F B then (goal, e F B, goal) else (s F, e F B, - 1))"
    unfolding allocation_range_def assms(3,4) [symmetric] by (auto simp: Let_def e_def min_def)
qed

end
