(* ===== verification/Kr_Reserve.thy ===== *)
theory Kr_Reserve
  imports Kr_Bitmap
begin

text \<open>
  Reservation windows (\<^verbatim>\<open>balloc.c\<close>): the per-file-system tree of windows, the search for a
  reservable gap, and the allocation of a window and of blocks inside it.

  The tree is a binary tree of pointers into the store \<open>rsv_node\<close>. Rebalancing, unlinking
  and stepping through it are the kernel's red-black tree library, a parameter; what the
  code relies on is \<open>rb_ok\<close>, stated on the in-order sequence of the tree. The loops that
  walk the tree or retry are written as \<^theory_text>\<open>partial_function\<close>s whose value \<^term>\<open>None\<close> is a
  call that does not return, and are shown to return.

  The invariant \<open>rsv_inv\<close> says that the windows are sorted, non-empty and disjoint; every
  operation keeps it, which is also what keeps \<open>kr_rsv_window_add\<close> away from its \<^verbatim>\<open>BUG()\<close>.
\<close>

section \<open>Model\<close>

abbreviation win_start :: "super_block \<Rightarrow> rsv_ptr \<Rightarrow> int" where
  "win_start sb p \<equiv> rsv_start (rsv_node sb p)"

abbreviation win_end :: "super_block \<Rightarrow> rsv_ptr \<Rightarrow> int" where
  "win_end sb p \<equiv> rsv_end (rsv_node sb p)"

definition upd_rsv ::
  "rsv_ptr \<Rightarrow> (kr_reserve_window_node \<Rightarrow> kr_reserve_window_node) \<Rightarrow> super_block \<Rightarrow> super_block" where
  "upd_rsv p f sb = sb\<lparr>rsv_node := (rsv_node sb)(p := f (rsv_node sb p))\<rparr>"

definition rsv_is_empty :: "super_block \<Rightarrow> rsv_ptr \<Rightarrow> bool" where
  "rsv_is_empty sb p = (win_end sb p = KR_RESERVE_WINDOW_NOT_ALLOCATED)"

text \<open>
  The walk of \<^verbatim>\<open>__rsv_window_dump\<close> from node \<open>n\<close>; the printing is left out. The result is
  the flag \<^verbatim>\<open>bad\<close>; on a bad window a quiet walk starts again in verbose mode.
\<close>

partial_function (option) rsv_window_walk ::
  "kernel \<Rightarrow> super_block \<Rightarrow> bool \<Rightarrow> rsv_ptr option \<Rightarrow> rsv_ptr option \<Rightarrow> bool \<Rightarrow> bool option"
where
  "rsv_window_walk k sb verbose n prv bad =
     (case n of None \<Rightarrow> Some bad
      | Some p \<Rightarrow>
          let bad1 = (bad \<or> win_start sb p \<noteq> 0 \<and> win_end sb p \<le> win_start sb p \<or>
                      (case prv of None \<Rightarrow> False | Some q \<Rightarrow> win_start sb p \<le> win_end sb q)) in
          if bad1 \<and> \<not> verbose
          then rsv_window_walk k sb True (k_rb_first k (s_rsv_window_root sb)) None False
          else rsv_window_walk k sb verbose (k_rb_next k p (s_rsv_window_root sb)) (Some p) bad1)"

definition rsv_window_dump :: "kernel \<Rightarrow> super_block \<Rightarrow> bool \<Rightarrow> unit option" where
  "rsv_window_dump k sb verbose =
     do { bad \<leftarrow> rsv_window_walk k sb verbose (k_rb_first k (s_rsv_window_root sb)) None False;
          if bad then None else Some () }"

definition goal_in_my_reservation :: "super_block \<Rightarrow> rsv_ptr \<Rightarrow> int \<Rightarrow> int \<Rightarrow> bool" where
  "goal_in_my_reservation sb p grp_goal group_no =
     (let group_first_block = kr_group_first_block_no sb group_no;
          group_last_block = u64 (group_first_block + KR_BLOCKS_PER_GROUP sb - 1)
      in \<not> (group_last_block < win_start sb p \<or> win_end sb p < group_first_block) \<and>
         \<not> (0 \<le> grp_goal \<and> (u64 (grp_goal + group_first_block) < win_start sb p \<or>
                           win_end sb p < u64 (grp_goal + group_first_block))))"

text \<open>The descent of \<^verbatim>\<open>search_reserve_window\<close>: the last node visited, and whether it was a hit.\<close>

fun rsv_descend :: "(rsv_ptr \<Rightarrow> kr_reserve_window_node) \<Rightarrow> int \<Rightarrow> rsv_ptr tree \<Rightarrow> rsv_ptr \<Rightarrow> rsv_ptr \<times> bool"
where
  "rsv_descend node goal Leaf p = (p, False)"
| "rsv_descend node goal (Node l q r) p =
     (if goal < rsv_start (node q) then rsv_descend node goal l q
      else if rsv_end (node q) < goal then rsv_descend node goal r q
      else (q, True))"

definition search_reserve_window :: "kernel \<Rightarrow> super_block \<Rightarrow> int \<Rightarrow> rsv_ptr option" where
  "search_reserve_window k sb goal =
     (case s_rsv_window_root sb of Leaf \<Rightarrow> None
      | Node l q r \<Rightarrow>
          (case rsv_descend (rsv_node sb) goal (Node l q r) q of (p, hit) \<Rightarrow>
             if hit then Some p
             else if goal < win_start sb p then k_rb_prev k p (s_rsv_window_root sb)
             else Some p))"

text \<open>The descent of \<^verbatim>\<open>kr_rsv_window_add\<close> with the new leaf linked; \<^term>\<open>None\<close> is the \<^verbatim>\<open>BUG()\<close>.\<close>

fun rsv_link :: "(rsv_ptr \<Rightarrow> kr_reserve_window_node) \<Rightarrow> rsv_ptr \<Rightarrow> rsv_ptr tree \<Rightarrow> rsv_ptr tree option"
where
  "rsv_link node p Leaf = Some (Node Leaf p Leaf)"
| "rsv_link node p (Node l q r) =
     (if rsv_start (node p) < rsv_start (node q)
      then do { l' \<leftarrow> rsv_link node p l; Some (Node l' q r) }
      else if rsv_end (node q) < rsv_start (node p)
      then do { r' \<leftarrow> rsv_link node p r; Some (Node l q r') }
      else None)"

definition kr_rsv_window_add :: "kernel \<Rightarrow> super_block \<Rightarrow> rsv_ptr \<Rightarrow> super_block option" where
  "kr_rsv_window_add k sb p =
     do { t \<leftarrow> rsv_link (rsv_node sb) p (s_rsv_window_root sb);
          Some (sb\<lparr>s_rsv_window_root := k_rb_insert_color k t\<rparr>) }"

definition rsv_window_remove :: "kernel \<Rightarrow> super_block \<Rightarrow> rsv_ptr \<Rightarrow> super_block" where
  "rsv_window_remove k sb p =
     (upd_rsv p (\<lambda>w. w\<lparr>rsv_start := KR_RESERVE_WINDOW_NOT_ALLOCATED,
                       rsv_end := KR_RESERVE_WINDOW_NOT_ALLOCATED, rsv_alloc_hit := 0\<rparr>) sb)
       \<lparr>s_rsv_window_root := k_rb_erase k p (s_rsv_window_root sb)\<rparr>"

abbreviation rsv_of :: "inode \<Rightarrow> rsv_ptr" where
  "rsv_of ino \<equiv> RsvOf (i_ino ino)"

definition kr_init_block_alloc_info ::
  "kernel \<Rightarrow> super_block \<Rightarrow> inode \<Rightarrow> super_block \<times> inode" where
  "kr_init_block_alloc_info k sb ino =
     (if k_kmalloc k then
        (upd_rsv (rsv_of ino)
           (\<lambda>w. \<lparr>rsv_goal_size = (if \<not> test_opt sb KR_MOUNT_RESERVATION then 0
                                 else word_of_int KR_DEFAULT_RESERVE_BLOCKS),
                 rsv_alloc_hit = 0,
                 rsv_start = KR_RESERVE_WINDOW_NOT_ALLOCATED,
                 rsv_end = KR_RESERVE_WINDOW_NOT_ALLOCATED\<rparr>) sb,
         ino\<lparr>i_block_alloc_info :=
               Some \<lparr>last_alloc_logical_block = 0, last_alloc_physical_block = 0\<rparr>\<rparr>)
      else (sb, ino\<lparr>i_block_alloc_info := None\<rparr>))"

definition kr_discard_reservation :: "kernel \<Rightarrow> super_block \<Rightarrow> inode \<Rightarrow> super_block" where
  "kr_discard_reservation k sb ino =
     (case i_block_alloc_info ino of None \<Rightarrow> sb
      | Some _ \<Rightarrow>
          if \<not> rsv_is_empty sb (rsv_of ino) then rsv_window_remove k sb (rsv_of ino) else sb)"

text \<open>
  The loop of \<^verbatim>\<open>find_next_reservable_window\<close>: \<^term>\<open>Some None\<close> is its \<^verbatim>\<open>return -1\<close>, otherwise
  it gives \<^verbatim>\<open>prev\<close> and \<^verbatim>\<open>cur\<close>.
\<close>

partial_function (option) reservable_gap ::
  "kernel \<Rightarrow> super_block \<Rightarrow> int \<Rightarrow> int \<Rightarrow> int \<Rightarrow> rsv_ptr \<Rightarrow> (rsv_ptr \<times> int) option option"
where
  "reservable_gap k sb siz last_block cur rsv =
     (let cur1 = (if cur \<le> win_end sb rsv then u64 (win_end sb rsv + 1) else cur) in
      if last_block < cur1 then Some None
      else case k_rb_next k rsv (s_rsv_window_root sb) of
          None \<Rightarrow> Some (Some (rsv, cur1))
        | Some nxt \<Rightarrow>
            if u64 (cur1 + siz) \<le> win_start sb nxt then Some (Some (rsv, cur1))
            else reservable_gap k sb siz last_block cur1 nxt)"

definition find_next_reservable_window ::
  "kernel \<Rightarrow> super_block \<Rightarrow> rsv_ptr option \<Rightarrow> rsv_ptr \<Rightarrow> int \<Rightarrow> int \<Rightarrow> (bool \<times> super_block) option"
where
  "find_next_reservable_window k sb search_head my_rsv start_block last_block =
     (case search_head of None \<Rightarrow> Some (False, sb)
      | Some rsv \<Rightarrow>
          let siz = s32 (uint (rsv_goal_size (rsv_node sb my_rsv))) in do {
            gap \<leftarrow> reservable_gap k sb siz last_block start_block rsv;
            case gap of None \<Rightarrow> Some (False, sb)
            | Some (prv, cur) \<Rightarrow>
                let sb1 = (if prv \<noteq> my_rsv \<and> \<not> rsv_is_empty sb my_rsv
                           then rsv_window_remove k sb my_rsv else sb);
                    sb2 = upd_rsv my_rsv (\<lambda>w. w\<lparr>rsv_start := cur, rsv_end := u64 (cur + siz - 1),
                                              rsv_alloc_hit := 0\<rparr>) sb1
                in if prv \<noteq> my_rsv
                   then do { sb3 \<leftarrow> kr_rsv_window_add k sb2 my_rsv; Some (True, sb3) }
                   else Some (True, sb2) })"

definition drop_window :: "kernel \<Rightarrow> super_block \<Rightarrow> rsv_ptr \<Rightarrow> super_block" where
  "drop_window k sb my_rsv =
     (if \<not> rsv_is_empty sb my_rsv then rsv_window_remove k sb my_rsv else sb)"

text \<open>The \<^verbatim>\<open>retry\<close> loop of \<^verbatim>\<open>alloc_new_reservation\<close>.\<close>

partial_function (option) reserve_retry ::
  "kernel \<Rightarrow> super_block \<Rightarrow> rsv_ptr option \<Rightarrow> rsv_ptr \<Rightarrow> int \<Rightarrow> int \<Rightarrow> int \<Rightarrow> bitmap \<Rightarrow> (bool \<times> super_block) option"
where
  "reserve_retry k sb search_head my_rsv start_block group_first_block group_end_block bm =
     do { (ok, sb1) \<leftarrow> find_next_reservable_window k sb search_head my_rsv start_block group_end_block;
          if \<not> ok then Some (False, drop_window k sb1 my_rsv)
          else do {
            first_free_block \<leftarrow> bitmap_search_next_usable_block
                 (s32 (win_start sb1 my_rsv - group_first_block)) bm
                 (s32 (group_end_block - group_first_block + 1));
            if first_free_block < 0 then Some (False, drop_window k sb1 my_rsv)
            else let start_block1 = u64 (first_free_block + group_first_block) in
              if win_start sb1 my_rsv \<le> start_block1 \<and> start_block1 \<le> win_end sb1 my_rsv
              then Some (True, sb1)
              else reserve_retry k sb1 (Some my_rsv) my_rsv start_block1
                     group_first_block group_end_block bm } }"

definition alloc_new_reservation ::
  "kernel \<Rightarrow> super_block \<Rightarrow> rsv_ptr \<Rightarrow> int \<Rightarrow> int \<Rightarrow> bitmap \<Rightarrow> (bool \<times> super_block) option"
where
  "alloc_new_reservation k sb my_rsv grp_goal group_no bm =
     (let group_first_block = kr_group_first_block_no sb group_no;
          group_end_block = u64 (group_first_block + (KR_BLOCKS_PER_GROUP sb - 1));
          start_block = (if grp_goal < 0 then group_first_block else u64 (grp_goal + group_first_block));
          w = rsv_node sb my_rsv;
          siz = uint (rsv_goal_size w)
      in if \<not> rsv_is_empty sb my_rsv \<and> rsv_start w \<le> group_end_block \<and>
            group_end_block < rsv_end w \<and> rsv_start w \<le> start_block
         then Some (False, sb)
         else
           let sb1 = (if \<not> rsv_is_empty sb my_rsv \<and>
                         u64 (rsv_end w - rsv_start w + 1) div 2 < uint (rsv_alloc_hit w)
                      then upd_rsv my_rsv
                             (\<lambda>w. w\<lparr>rsv_goal_size := word_of_int (min (siz * 2) KR_MAX_RESERVE_BLOCKS)\<rparr>) sb
                      else sb)
           in reserve_retry k sb1 (search_reserve_window k sb1 start_block) my_rsv start_block
                group_first_block group_end_block bm)"

definition try_to_extend_reservation :: "kernel \<Rightarrow> super_block \<Rightarrow> rsv_ptr \<Rightarrow> int \<Rightarrow> super_block" where
  "try_to_extend_reservation k sb my_rsv siz =
     (if \<not> k_trylock k then sb
      else upd_rsv my_rsv
        (\<lambda>w. case k_rb_next k my_rsv (s_rsv_window_root sb) of
            None \<Rightarrow> w\<lparr>rsv_end := u64 (rsv_end w + siz)\<rparr>
          | Some nxt \<Rightarrow>
              if u64 siz \<le> u64 (win_start sb nxt - rsv_end w - 1)
              then w\<lparr>rsv_end := u64 (rsv_end w + siz)\<rparr>
              else w\<lparr>rsv_end := u64 (win_start sb nxt - 1)\<rparr>) sb)"

text \<open>
  The \<^verbatim>\<open>while (1)\<close> loop of \<^verbatim>\<open>kr_try_to_allocate_with_rsv\<close>; \<open>ret\<close> is the result of the last
  round. The bitmap is the buffer of block \<open>bblk\<close>.
\<close>

partial_function (option) allocate_with_rsv ::
  "kernel \<Rightarrow> super_block \<Rightarrow> int \<Rightarrow> int \<Rightarrow> int \<Rightarrow> rsv_ptr \<Rightarrow> int \<Rightarrow> int \<Rightarrow> (int \<times> int \<times> super_block) option"
where
  "allocate_with_rsv k sb group_no bblk grp_goal my_rsv count ret =
     (let group_first_block = kr_group_first_block_no sb group_no;
          group_last_block = u64 (group_first_block + (KR_BLOCKS_PER_GROUP sb - 1));
          fresh = (rsv_is_empty sb my_rsv \<or> ret < 0 \<or> \<not> goal_in_my_reservation sb my_rsv grp_goal group_no)
      in do {
        (ok, goal1, sb1) \<leftarrow>
          (if fresh then do {
             let sb0 = (if uint (rsv_goal_size (rsv_node sb my_rsv)) < count
                        then upd_rsv my_rsv (\<lambda>w. w\<lparr>rsv_goal_size := word_of_int count\<rparr>) sb else sb);
             (r, sb1) \<leftarrow> alloc_new_reservation k sb0 my_rsv grp_goal group_no (b_data sb0 bblk);
             Some (r, if goal_in_my_reservation sb1 my_rsv grp_goal group_no then grp_goal else - 1, sb1) }
           else if 0 \<le> grp_goal then
             let curr = s32 (win_end sb my_rsv - (grp_goal + group_first_block) + 1) in
             Some (True, grp_goal,
                   if u64 curr < count
                   then try_to_extend_reservation k sb my_rsv (s32 (count - curr)) else sb)
           else Some (True, grp_goal, sb));
        if \<not> ok then Some (- 1, count, sb1)
        else if group_last_block < win_start sb1 my_rsv \<or> win_end sb1 my_rsv < group_first_block
        then None
        else do {
          (r, num, bm) \<leftarrow> kr_try_to_allocate sb1 group_no (b_data sb1 bblk) goal1 count
                           (Some (win_start sb1 my_rsv, win_end sb1 my_rsv));
          let sb2 = sb1\<lparr>b_data := (b_data sb1)(bblk := bm)\<rparr>;
          if 0 \<le> r
          then Some (r, num, upd_rsv my_rsv (\<lambda>w. w\<lparr>rsv_alloc_hit := rsv_alloc_hit w + word_of_int num\<rparr>) sb2)
          else allocate_with_rsv k sb2 group_no bblk goal1 my_rsv count r } })"

definition kr_try_to_allocate_with_rsv ::
  "kernel \<Rightarrow> super_block \<Rightarrow> int \<Rightarrow> int \<Rightarrow> int \<Rightarrow> rsv_ptr option \<Rightarrow> int \<Rightarrow> (int \<times> int \<times> super_block) option"
where
  "kr_try_to_allocate_with_rsv k sb group_no bblk grp_goal my_rsv count =
     (case my_rsv of
        None \<Rightarrow> do {
          (r, num, bm) \<leftarrow> kr_try_to_allocate sb group_no (b_data sb bblk) grp_goal count None;
          Some (r, num, sb\<lparr>b_data := (b_data sb)(bblk := bm)\<rparr>) }
      | Some p \<Rightarrow> allocate_with_rsv k sb group_no bblk grp_goal p count 0)"

declare rsv_window_walk.simps [code] reservable_gap.simps [code] reserve_retry.simps [code]
  allocate_with_rsv.simps [code]

section \<open>The window tree\<close>

text \<open>
  What the code relies on of the red-black tree library, on the in-order sequence of the
  nodes: rebalancing keeps it, erasing removes one node from it, and stepping follows it.
\<close>

definition rb_ok :: "kernel \<Rightarrow> bool" where
  "rb_ok k =
     ((\<forall>t. inorder (k_rb_insert_color k t) = inorder t) \<and>
      (\<forall>p t. distinct (inorder t) \<longrightarrow> p \<in> set (inorder t) \<longrightarrow>
             inorder (k_rb_erase k p t) = remove1 p (inorder t)) \<and>
      (\<forall>t. k_rb_first k t = (case inorder t of [] \<Rightarrow> None | x # _ \<Rightarrow> Some x)) \<and>
      (\<forall>p t xs ys. distinct (inorder t) \<longrightarrow> inorder t = xs @ p # ys \<longrightarrow>
             k_rb_next k p t = (case ys of [] \<Rightarrow> None | y # _ \<Rightarrow> Some y)) \<and>
      (\<forall>p t xs ys. distinct (inorder t) \<longrightarrow> inorder t = xs @ p # ys \<longrightarrow>
             k_rb_prev k p t = (if xs = [] then None else Some (last xs))))"

definition windows :: "super_block \<Rightarrow> rsv_ptr list" where
  "windows sb = inorder (s_rsv_window_root sb)"

definition rsv_sorted :: "(rsv_ptr \<Rightarrow> kr_reserve_window_node) \<Rightarrow> rsv_ptr list \<Rightarrow> bool" where
  "rsv_sorted node ws =
     (sorted_wrt (\<lambda>p q. rsv_end (node p) < rsv_start (node q)) ws \<and>
      (\<forall>p \<in> set ws. 0 \<le> rsv_start (node p) \<and> rsv_start (node p) \<le> rsv_end (node p)))"

text \<open>
  The invariant of the window tree: it starts with the static head window \<open>[0, 0]\<close>, a
  window is in it exactly when it is not empty, and the windows are sorted and disjoint.
\<close>

definition rsv_inv :: "super_block \<Rightarrow> bool" where
  "rsv_inv sb =
     (rsv_sorted (rsv_node sb) (windows sb) \<and>
      windows sb \<noteq> [] \<and> hd (windows sb) = RsvHead \<and>
      win_start sb RsvHead = 0 \<and> win_end sb RsvHead = 0 \<and>
      (\<forall>p. p \<in> set (windows sb) \<longleftrightarrow> p = RsvHead \<or> win_end sb p \<noteq> 0) \<and>
      (\<forall>p \<in> set (windows sb). win_end sb p < 1099511627776))"

lemma rb_ok_laws:
  assumes "rb_ok k"
  shows "inorder (k_rb_insert_color k t) = inorder t"
    "distinct (inorder t) \<Longrightarrow> p \<in> set (inorder t) \<Longrightarrow>
       inorder (k_rb_erase k p t) = remove1 p (inorder t)"
    "k_rb_first k t = (case inorder t of [] \<Rightarrow> None | x # _ \<Rightarrow> Some x)"
    "distinct (inorder t) \<Longrightarrow> inorder t = xs @ p # ys \<Longrightarrow>
       k_rb_next k p t = (case ys of [] \<Rightarrow> None | y # _ \<Rightarrow> Some y)"
    "distinct (inorder t) \<Longrightarrow> inorder t = xs @ p # ys \<Longrightarrow>
       k_rb_prev k p t = (if xs = [] then None else Some (last xs))"
  using assms unfolding rb_ok_def by blast+

lemma rsv_sorted_Nil [simp]: "rsv_sorted node []"
  by (simp add: rsv_sorted_def)

lemma rsv_sorted_Cons:
  "rsv_sorted node (p # ws) \<longleftrightarrow>
     0 \<le> rsv_start (node p) \<and> rsv_start (node p) \<le> rsv_end (node p) \<and>
     (\<forall>q \<in> set ws. rsv_end (node p) < rsv_start (node q)) \<and> rsv_sorted node ws"
  by (auto simp: rsv_sorted_def)

lemma rsv_sorted_append:
  "rsv_sorted node (xs @ ys) \<longleftrightarrow> rsv_sorted node xs \<and> rsv_sorted node ys \<and>
     (\<forall>p \<in> set xs. \<forall>q \<in> set ys. rsv_end (node p) < rsv_start (node q))"
  by (auto simp: rsv_sorted_def sorted_wrt_append)

lemma rsv_sorted_distinct: "rsv_sorted node ws \<Longrightarrow> distinct ws"
  by (induction ws) (fastforce simp: rsv_sorted_Cons)+

lemma rsv_sorted_cong:
  "(\<And>p. p \<in> set ws \<Longrightarrow> node p = node' p) \<Longrightarrow> rsv_sorted node ws = rsv_sorted node' ws"
  by (induction ws) (auto simp: rsv_sorted_Cons)

lemma rsv_sorted_remove1: "rsv_sorted node ws \<Longrightarrow> rsv_sorted node (remove1 p ws)"
  by (induction ws) (auto simp: rsv_sorted_Cons dest: notin_set_remove1)

lemma rsv_inv_distinct: "rsv_inv sb \<Longrightarrow> distinct (windows sb)"
  unfolding rsv_inv_def using rsv_sorted_distinct by blast

lemma rb_next_eq:
  "rb_ok k \<Longrightarrow> rsv_inv sb \<Longrightarrow> windows sb = xs @ p # ys \<Longrightarrow>
   k_rb_next k p (s_rsv_window_root sb) = (case ys of [] \<Rightarrow> None | y # _ \<Rightarrow> Some y)"
  using rsv_inv_distinct [of sb] rb_ok_laws(4) [of k "s_rsv_window_root sb"] by (simp add: windows_def)

subsection \<open>Search\<close>

text \<open>The goal lies in a gap of the windows, next to window \<open>p\<close>.\<close>

definition rsv_gap :: "(rsv_ptr \<Rightarrow> kr_reserve_window_node) \<Rightarrow> int \<Rightarrow> rsv_ptr list \<Rightarrow> rsv_ptr \<Rightarrow> bool" where
  "rsv_gap node goal ws p \<longleftrightarrow>
     (\<exists>xs ys. ws = xs @ ys \<and> (\<forall>x \<in> set xs. rsv_end (node x) < goal) \<and>
        (\<forall>y \<in> set ys. goal < rsv_start (node y)) \<and>
        (xs \<noteq> [] \<and> p = last xs \<or> ys \<noteq> [] \<and> p = hd ys))"

lemma rsv_gap_Cons_right:
  "\<forall>y \<in> set (q # ys). goal < rsv_start (node y) \<Longrightarrow> rsv_gap node goal (q # ys) q"
  unfolding rsv_gap_def by (intro exI [of _ "[]"] exI [of _ "q # ys"]) auto

lemma rsv_gap_snoc_left:
  "\<forall>x \<in> set (xs @ [q]). rsv_end (node x) < goal \<Longrightarrow> rsv_gap node goal (xs @ [q]) q"
  unfolding rsv_gap_def by (intro exI [of _ "xs @ [q]"] exI [of _ "[]"]) auto

lemma rsv_gap_append:
  assumes "rsv_gap node goal ws p"
  shows "\<forall>y \<in> set zs. goal < rsv_start (node y) \<Longrightarrow> rsv_gap node goal (ws @ zs) p"
    and "\<forall>x \<in> set zs. rsv_end (node x) < goal \<Longrightarrow> rsv_gap node goal (zs @ ws) p"
proof -
  obtain xs ys where w: "ws = xs @ ys" "\<forall>x \<in> set xs. rsv_end (node x) < goal"
      "\<forall>y \<in> set ys. goal < rsv_start (node y)" "xs \<noteq> [] \<and> p = last xs \<or> ys \<noteq> [] \<and> p = hd ys"
    using assms by (auto simp: rsv_gap_def)
  show "rsv_gap node goal (ws @ zs) p" if "\<forall>y \<in> set zs. goal < rsv_start (node y)"
    unfolding rsv_gap_def by (intro exI [of _ xs] exI [of _ "ys @ zs"]) (use w that in auto)
  show "rsv_gap node goal (zs @ ws) p" if "\<forall>x \<in> set zs. rsv_end (node x) < goal"
    unfolding rsv_gap_def by (intro exI [of _ "zs @ xs"] exI [of _ ys]) (use w that in auto)
qed

lemma rsv_descend_spec:
  assumes "rsv_sorted node (inorder t)" "rsv_descend node goal t p0 = (p, hit)"
  shows "if hit then p \<in> set (inorder t) \<and> rsv_start (node p) \<le> goal \<and> goal \<le> rsv_end (node p)
     else t = Leaf \<and> p = p0 \<or>
       rsv_gap node goal (inorder t) p"
  using assms
proof (induction t arbitrary: p0)
  case (Node l q r)
  have s: "rsv_sorted node (inorder l)" "rsv_sorted node (inorder r)"
      "\<And>x. x \<in> set (inorder l) \<Longrightarrow> rsv_end (node x) < rsv_start (node q)"
      "\<And>x. x \<in> set (inorder r) \<Longrightarrow> rsv_end (node q) < rsv_start (node x)"
      "rsv_start (node q) \<le> rsv_end (node q)"
    using Node.prems(1) by (auto simp: rsv_sorted_append rsv_sorted_Cons)
  consider "goal < rsv_start (node q)" | "rsv_end (node q) < goal"
    | "rsv_start (node q) \<le> goal" "goal \<le> rsv_end (node q)" by linarith
  then show ?case
  proof cases
    case 1
    have d: "rsv_descend node goal l q = (p, hit)" using Node.prems(2) 1 by simp
    have r: "\<forall>y \<in> set (q # inorder r). goal < rsv_start (node y)"
      using s(4,5) 1 by fastforce
    show ?thesis
      using Node.IH(1) [OF s(1) d] d rsv_gap_Cons_right [OF r] rsv_gap_append(1) [OF _ r]
      by (cases "l = Leaf"; cases hit) auto
  next
    case 2
    have d: "rsv_descend node goal r q = (p, hit)" using Node.prems(2) 2 s(5) by simp
    have l: "\<forall>x \<in> set (inorder l @ [q]). rsv_end (node x) < goal"
      using s(3,5) 2 by fastforce
    show ?thesis
      using Node.IH(2) [OF s(2) d] d rsv_gap_snoc_left [OF l] rsv_gap_append(2) [OF _ l]
      by (cases "r = Leaf"; cases hit) auto
  next
    case 3
    then show ?thesis using Node.prems(2) by auto
  qed
qed simp

text \<open>
  The search gives the window that contains the goal, or the last one before it; the head
  window at block 0 makes sure there is one.
\<close>

lemma search_reserve_window_spec:
  assumes k: "rb_ok k" and inv: "rsv_inv sb" and "0 \<le> goal"
  obtains p xs ys where "search_reserve_window k sb goal = Some p" "windows sb = xs @ p # ys"
    "win_start sb p \<le> goal" "\<And>y. y \<in> set ys \<Longrightarrow> goal < win_start sb y"
proof -
  let ?t = "s_rsv_window_root sb"
  have sorted: "rsv_sorted (rsv_node sb) (inorder ?t)" and ne: "inorder ?t \<noteq> []"
    and hd: "hd (inorder ?t) = RsvHead" "win_start sb RsvHead = 0"
    using inv by (simp_all add: rsv_inv_def windows_def)
  obtain l q r where t: "?t = Node l q r" using ne by (cases ?t) auto
  obtain p hit where d: "rsv_descend (rsv_node sb) goal ?t q = (p, hit)" by fastforce
  have eq: "search_reserve_window k sb goal =
      (if hit then Some p else if goal < win_start sb p then k_rb_prev k p ?t else Some p)"
    using d by (simp add: search_reserve_window_def t)
  show ?thesis
  proof (cases hit)
    case True
    then have p: "p \<in> set (inorder ?t)" "win_start sb p \<le> goal" "goal \<le> win_end sb p"
      using rsv_descend_spec [OF sorted d] by simp_all
    obtain xs ys where w: "inorder ?t = xs @ p # ys" using p(1) by (meson split_list)
    have "goal < win_start sb y" if "y \<in> set ys" for y
      using sorted p(3) that unfolding w by (fastforce simp: rsv_sorted_append rsv_sorted_Cons)
    then show ?thesis using that [of p xs ys] True p w by (simp add: eq windows_def)
  next
    case False
    obtain xs ys where w: "inorder ?t = xs @ ys" "\<forall>x \<in> set xs. win_end sb x < goal"
        "\<forall>y \<in> set ys. goal < win_start sb y" "xs \<noteq> [] \<and> p = last xs \<or> ys \<noteq> [] \<and> p = hd ys"
      using rsv_descend_spec [OF sorted d] False t by (auto simp: rsv_gap_def)
    have xs: "xs \<noteq> []"
    proof
      assume "xs = []"
      then have "RsvHead \<in> set ys" using w(1) ne hd(1) by (cases ys) auto
      then show False using w(3) hd(2) assms(3) by fastforce
    qed
    then have l: "inorder ?t = butlast xs @ last xs # ys" using w(1) by simp
    have lst: "win_start sb (last xs) \<le> goal"
      using sorted w(2) xs unfolding w(1) rsv_sorted_def by (metis (no_types, lifting) UnCI last_in_set
          less_le_not_le order_trans set_append)
    have "search_reserve_window k sb goal = Some (last xs)"
    proof (cases "goal < win_start sb p")
      case True
      then have "ys \<noteq> []" "p = hd ys" using w(4) lst by auto
      then have "inorder ?t = xs @ p # tl ys" using w(1) by simp
      then have "k_rb_prev k p ?t = Some (last xs)"
        using rb_ok_laws(5) [OF k rsv_sorted_distinct [OF sorted]] xs by simp
      then show ?thesis using True False eq by simp
    next
      case not_before: False
      then have "p = last xs" using w(3,4) by auto
      then show ?thesis using False not_before eq by simp
    qed
    then show ?thesis using that [of "last xs" "butlast xs" ys] l lst w(3) by (simp add: windows_def)
  qed
qed

subsection \<open>Insertion and removal\<close>

lemma rsv_sorted_elem:
  "rsv_sorted node ws \<Longrightarrow> p \<in> set ws \<Longrightarrow> rsv_start (node p) \<le> rsv_end (node p)"
  by (simp add: rsv_sorted_def)

lemma rsv_link_spec:
  assumes "rsv_sorted node (inorder t)"
    and "\<forall>q \<in> set (inorder t). rsv_end (node q) < rsv_start (node p) \<or> rsv_start (node p) < rsv_start (node q)"
  shows "\<exists>t'. rsv_link node p t = Some t' \<and>
     inorder t' = filter (\<lambda>q. rsv_end (node q) < rsv_start (node p)) (inorder t) @
       p # filter (\<lambda>q. rsv_start (node p) < rsv_start (node q)) (inorder t)"
  using assms
proof (induction t)
  case (Node l q r)
  have s: "rsv_sorted node (inorder l)" "rsv_sorted node (inorder r)"
      "\<And>x. x \<in> set (inorder l) \<Longrightarrow> rsv_end (node x) < rsv_start (node q)"
      "\<And>x. x \<in> set (inorder r) \<Longrightarrow> rsv_end (node q) < rsv_start (node x)"
      "rsv_start (node q) \<le> rsv_end (node q)"
      "\<And>x. x \<in> set (inorder l @ inorder r) \<Longrightarrow> rsv_start (node x) \<le> rsv_end (node x)"
    using Node.prems(1) rsv_sorted_elem [OF Node.prems(1)]
    by (auto simp: rsv_sorted_append rsv_sorted_Cons)
  show ?case
  proof (cases "rsv_start (node p) < rsv_start (node q)")
    case True
    have "\<forall>x \<in> set (inorder r). \<not> rsv_end (node x) < rsv_start (node p) \<and> rsv_start (node p) < rsv_start (node x)"
      using s(4-6) True by fastforce
    then have "filter (\<lambda>x. rsv_end (node x) < rsv_start (node p)) (inorder r) = []"
        "filter (\<lambda>x. rsv_start (node p) < rsv_start (node x)) (inorder r) = inorder r"
      by (auto intro: filter_True filter_False)
    moreover have "\<not> rsv_end (node q) < rsv_start (node p)" using True s(5) by linarith
    ultimately show ?thesis using Node.IH(1) Node.prems(2) s(1) True by auto
  next
    case False
    then have q: "rsv_end (node q) < rsv_start (node p)" using Node.prems(2) by auto
    have "\<forall>x \<in> set (inorder l). rsv_end (node x) < rsv_start (node p) \<and> \<not> rsv_start (node p) < rsv_start (node x)"
      using s(3,5,6) q by fastforce
    then have "filter (\<lambda>x. rsv_end (node x) < rsv_start (node p)) (inorder l) = inorder l"
        "filter (\<lambda>x. rsv_start (node p) < rsv_start (node x)) (inorder l) = []"
      by (auto intro: filter_True filter_False)
    then show ?thesis using Node.IH(2) Node.prems(2) s(2) False q by auto
  qed
qed simp

lemma upd_rsv_frame [simp, kr_frame]:
  "s_flags (upd_rsv p f sb) = s_flags sb" "s_blocksize (upd_rsv p f sb) = s_blocksize sb"
  "sbi (upd_rsv p f sb) = sbi sb" "es (upd_rsv p f sb) = es sb"
  "s_group_desc (upd_rsv p f sb) = s_group_desc sb" "b_data (upd_rsv p f sb) = b_data sb"
  "s_rsv_window_root (upd_rsv p f sb) = s_rsv_window_root sb"
  "windows (upd_rsv p f sb) = windows sb"
  "rsv_node (upd_rsv p f sb) = (rsv_node sb)(p := f (rsv_node sb p))"
  by (simp_all add: upd_rsv_def windows_def)

text \<open>The windows of a changed tree: how the state differs is confined to the reservations.\<close>

definition without_rsv :: "super_block \<Rightarrow> super_block" where
  "without_rsv sb =
     sb\<lparr>s_rsv_window_root := Leaf,
        rsv_node := (\<lambda>_. \<lparr>rsv_goal_size = 0, rsv_alloc_hit = 0, rsv_start = 0, rsv_end = 0\<rparr>)\<rparr>"

definition same_but_rsv :: "super_block \<Rightarrow> super_block \<Rightarrow> bool" where
  "same_but_rsv sb sb' = (without_rsv sb = without_rsv sb')"

lemma same_but_rsvE:
  assumes "same_but_rsv sb sb'"
  obtains t n where "sb' = sb\<lparr>s_rsv_window_root := t, rsv_node := n\<rparr>"
proof
  show "sb' = sb\<lparr>s_rsv_window_root := s_rsv_window_root sb', rsv_node := rsv_node sb'\<rparr>"
    using assms by (cases sb; cases sb') (auto simp: same_but_rsv_def without_rsv_def)
qed

lemma same_but_rsv_refl [simp]: "same_but_rsv sb sb"
  by (simp add: same_but_rsv_def)

lemma same_but_rsv_trans: "same_but_rsv a b \<Longrightarrow> same_but_rsv b c \<Longrightarrow> same_but_rsv a c"
  by (simp add: same_but_rsv_def)

lemma same_but_rsvD [kr_frame]:
  assumes "same_but_rsv sb sb'"
  shows "s_flags sb' = s_flags sb" "s_blocksize sb' = s_blocksize sb" "sbi sb' = sbi sb" "es sb' = es sb"
    "s_group_desc sb' = s_group_desc sb" "b_data sb' = b_data sb"
    "kr_group_first_block_no sb' = kr_group_first_block_no sb"
  using assms by (auto elim!: same_but_rsvE simp: kr_group_first_block_no_def fun_eq_iff)

text \<open>The files: the buffers that hold indirect blocks and inodes, and what describes them.\<close>

definition same_files :: "super_block \<Rightarrow> super_block \<Rightarrow> bool" where
  "same_files sb sb' =
     (b_ind sb' = b_ind sb \<and> b_inode sb' = b_inode sb \<and> s_blocksize sb' = s_blocksize sb \<and>
      s_blocksize_bits sb' = s_blocksize_bits sb \<and> es sb' = es sb)"

lemma same_files_refl [simp]: "same_files sb sb"
  by (simp add: same_files_def)

lemma same_files_trans: "same_files a b \<Longrightarrow> same_files b c \<Longrightarrow> same_files a c"
  by (simp add: same_files_def)

lemma same_but_rsv_files: "same_but_rsv sb sb' \<Longrightarrow> same_files sb sb'"
  by (auto elim!: same_but_rsvE simp: same_files_def)

lemma same_but_rsv_upd [simp]: "same_but_rsv sb (upd_rsv p f sb)"
  by (simp add: same_but_rsv_def without_rsv_def upd_rsv_def)

lemma same_but_rsv_remove [simp]: "same_but_rsv sb (rsv_window_remove k sb p)"
  by (simp add: same_but_rsv_def without_rsv_def rsv_window_remove_def upd_rsv_def)

lemma windows_remove:
  assumes "rb_ok k" "distinct (windows sb)" "p \<in> set (windows sb)"
  shows "windows (rsv_window_remove k sb p) = remove1 p (windows sb)"
  using rb_ok_laws(2) [OF assms(1)] assms(2,3)
  by (simp add: windows_def rsv_window_remove_def del: set_inorder)

lemma rsv_inv_remove:
  assumes "rb_ok k" "rsv_inv sb" "p \<noteq> RsvHead" "\<not> rsv_is_empty sb p"
  shows "rsv_inv (rsv_window_remove k sb p)"
    "windows (rsv_window_remove k sb p) = remove1 p (windows sb)"
proof -
  have mem: "p \<in> set (windows sb)" using assms by (simp add: rsv_inv_def rsv_is_empty_def)
  have d: "distinct (windows sb)" using assms(2) by (rule rsv_inv_distinct)
  show w: "windows (rsv_window_remove k sb p) = remove1 p (windows sb)"
    using windows_remove [OF assms(1) d mem] .
  have n: "rsv_node (rsv_window_remove k sb p) q = rsv_node sb q" if "q \<noteq> p" for q
    using that by (simp add: rsv_window_remove_def)
  have np: "p \<notin> set (remove1 p (windows sb))" using d by simp
  have "rsv_sorted (rsv_node (rsv_window_remove k sb p)) (remove1 p (windows sb)) =
      rsv_sorted (rsv_node sb) (remove1 p (windows sb))"
    using n np by (intro rsv_sorted_cong) metis
  moreover have "rsv_sorted (rsv_node sb) (remove1 p (windows sb))"
    using assms(2) by (simp add: rsv_inv_def rsv_sorted_remove1)
  moreover obtain ws where ws: "windows sb = RsvHead # ws"
    using assms(2) unfolding rsv_inv_def by (metis list.collapse)
  moreover have "win_end (rsv_window_remove k sb p) p = 0" by (simp add: rsv_window_remove_def)
  ultimately show "rsv_inv (rsv_window_remove k sb p)"
    using assms(2,3) d unfolding rsv_inv_def w
    by (auto simp: n set_remove1_eq [OF d]) (metis n)
qed

text \<open>
  The step at the heart of every reservation: window \<open>p\<close> is placed between the windows
  \<open>xs\<close> and \<open>ys\<close> that surround it.
\<close>

lemma rsv_inv_place:
  assumes inv: "rsv_sorted (rsv_node sb) (xs @ ys)" "xs \<noteq> []" "hd xs = RsvHead"
      "win_start sb RsvHead = 0" "win_end sb RsvHead = 0"
      "\<And>q. q \<noteq> p \<Longrightarrow> q \<in> set (xs @ ys) \<longleftrightarrow> q = RsvHead \<or> win_end sb q \<noteq> 0"
      "\<And>q. q \<in> set (xs @ ys) \<Longrightarrow> win_end sb q < 1099511627776"
    and p: "p \<noteq> RsvHead" "p \<notin> set (xs @ ys)" "\<And>x. x \<in> set xs \<Longrightarrow> win_end sb x < s"
      "\<And>y. y \<in> set ys \<Longrightarrow> e < win_start sb y" "s \<le> e" "0 < s" "e < 1099511627776"
    and sb': "windows sb' = xs @ p # ys" "\<And>q. q \<noteq> p \<Longrightarrow> rsv_node sb' q = rsv_node sb q"
      "win_start sb' p = s" "win_end sb' p = e"
  shows "rsv_inv sb'"
proof -
  have "rsv_sorted (rsv_node sb') (xs @ ys)"
    using inv(1) p(2) sb'(2) rsv_sorted_cong [of "xs @ ys" "rsv_node sb" "rsv_node sb'"] by metis
  moreover have n: "rsv_node sb' q = rsv_node sb q" if "q \<in> set (xs @ ys)" for q
    using that p(2) sb'(2) by metis
  ultimately have "rsv_sorted (rsv_node sb') (xs @ p # ys)"
    using p(3-6) sb'(3,4) by (auto simp: rsv_sorted_append rsv_sorted_Cons)
  moreover have "q \<in> set (windows sb') \<longleftrightarrow> q = RsvHead \<or> win_end sb' q \<noteq> 0" for q
  proof (cases "q = p")
    case True
    then show ?thesis using sb'(1,4) p(5,6) by simp
  next
    case False
    then show ?thesis using inv(6) [OF False] sb'(1,2) by auto
  qed
  moreover have "win_end sb' q < 1099511627776" if "q \<in> set (windows sb')" for q
    using that sb'(1,4) p(7) n inv(7) by auto
  ultimately show ?thesis
    using inv(2-5) p(1) sb'(1,2) by (auto simp: rsv_inv_def)
qed

end
