(* ===== verification/Kr_Window.thy ===== *)
theory Kr_Window
  imports Kr_Reserve
begin

text \<open>
  Correctness of the reservation operations of \<open>Kr_Reserve\<close>: the search for a gap, the
  reservation of a window in it, its extension, and the allocation of blocks inside a
  window. Each is shown to return (none of the loops runs forever, no \<^verbatim>\<open>BUG()\<close> is hit), to
  keep the window invariant and to change nothing but reservations and the bitmap it
  allocates from.
\<close>

section \<open>Finding a gap\<close>

text \<open>The contract of the gap search: the gap \<open>[c, c + siz)\<close> follows window \<open>prv\<close>.\<close>

definition gap_after :: "super_block \<Rightarrow> int \<Rightarrow> int \<Rightarrow> int \<Rightarrow> rsv_ptr \<Rightarrow> int \<Rightarrow> bool" where
  "gap_after sb siz lst cur prv c =
     (cur \<le> c \<and> c \<le> lst \<and> win_end sb prv < c \<and>
      (\<exists>us vs. windows sb = us @ prv # vs \<and> (vs \<noteq> [] \<longrightarrow> c + siz \<le> win_start sb (hd vs))))"

lemma gap_afterI:
  "windows sb = us @ prv # vs \<Longrightarrow> (vs \<noteq> [] \<Longrightarrow> c + siz \<le> win_start sb (hd vs)) \<Longrightarrow>
   cur \<le> c \<Longrightarrow> c \<le> lst \<Longrightarrow> win_end sb prv < c \<Longrightarrow> gap_after sb siz lst cur prv c"
  unfolding gap_after_def by blast

lemma gap_after_mono: "gap_after sb siz lst cur' prv c \<Longrightarrow> cur \<le> cur' \<Longrightarrow> gap_after sb siz lst cur prv c"
  by (auto simp: gap_after_def)

lemma reservable_gap_spec:
  assumes k: "rb_ok k" and inv: "rsv_inv sb" and w: "windows sb = xs @ p # ys"
    and "0 \<le> cur" "cur < 1099511627776" "0 \<le> siz" "siz < 4294967296"
  shows "\<exists>g. reservable_gap k sb siz lst cur p = Some g \<and>
     (case g of None \<Rightarrow> True
      | Some (prv, c) \<Rightarrow> gap_after sb siz lst cur prv c)"
  using w assms(4,5)
proof (induction ys arbitrary: xs p cur)
  case Nil
  then have "win_end sb p < 1099511627776" "0 \<le> win_end sb p"
    using inv unfolding rsv_inv_def rsv_sorted_def by force+
  then have u: "u64 (win_end sb p + 1) = win_end sb p + 1" by (simp add: u64_id)
  have n: "k_rb_next k p (s_rsv_window_root sb) = None" using rb_next_eq [OF k inv Nil.prems(1)] by simp
  show ?case
    unfolding reservable_gap.simps [of k sb siz lst cur p] Let_def n u
    using gap_afterI [OF Nil.prems(1)] by auto
next
  case (Cons q ys)
  have "win_end sb p < 1099511627776" "0 \<le> win_end sb p"
    using inv Cons.prems(1) unfolding rsv_inv_def rsv_sorted_def by force+
  then have u: "u64 (win_end sb p + 1) = win_end sb p + 1" by (simp add: u64_id)
  have n: "k_rb_next k p (s_rsv_window_root sb) = Some q"
    using rb_next_eq [OF k inv Cons.prems(1)] by simp
  define c where "c = (if cur \<le> win_end sb p then win_end sb p + 1 else cur)"
  have c: "cur \<le> c" "win_end sb p < c" "0 \<le> c" "c \<le> 1099511627776"
    using Cons.prems \<open>win_end sb p < _\<close> by (auto simp: c_def)
  have uc: "u64 (c + siz) = c + siz" using c assms(6,7) by (simp add: u64_id)
  have eq: "reservable_gap k sb siz lst cur p =
      (if lst < c then Some None
       else if c + siz \<le> win_start sb q then Some (Some (p, c))
       else reservable_gap k sb siz lst c q)"
    unfolding reservable_gap.simps [of k sb siz lst cur p] Let_def n u c_def [symmetric] by (simp add: uc)
  consider "lst < c" | "c \<le> lst" "c + siz \<le> win_start sb q" | "c \<le> lst" "win_start sb q < c + siz"
    by linarith
  then show ?case
  proof cases
    case 1
    then show ?thesis by (simp add: eq)
  next
    case 2
    then show ?thesis using c gap_afterI [OF Cons.prems(1), of c siz] by (simp add: eq)
  next
    case 3
    have w': "windows sb = (xs @ [p]) @ q # ys" using Cons.prems(1) by simp
    have qe: "win_end sb q < 1099511627776" "0 \<le> win_end sb q" "win_end sb p < win_start sb q" "win_start sb q \<le> win_end sb q"
      using inv unfolding rsv_inv_def w' rsv_sorted_append rsv_sorted_Cons by auto
    have c2: "c < 1099511627776"
      using c(4) qe Cons.prems(3) unfolding c_def by auto
    have r: "reservable_gap k sb siz lst cur p = reservable_gap k sb siz lst c q" using 3 by (simp add: eq)
    obtain g where g: "reservable_gap k sb siz lst c q = Some g"
        "case g of None \<Rightarrow> True | Some (prv, d) \<Rightarrow> gap_after sb siz lst c prv d"
      using Cons.IH [OF w' c(3) c2] by blast
    show ?thesis
      unfolding r by (intro exI [of _ g]) (use g gap_after_mono c(1) in \<open>auto split: option.splits\<close>)
  qed
qed

text \<open>The window \<open>p\<close> after a search that succeeded: in the gap, and nothing else moved.\<close>

definition window_placed :: "super_block \<Rightarrow> super_block \<Rightarrow> rsv_ptr \<Rightarrow> int \<Rightarrow> int \<Rightarrow> bool" where
  "window_placed sb sb' p lo hi =
     (lo \<le> win_start sb' p \<and> win_start sb' p \<le> hi \<and>
      win_end sb' p = win_start sb' p + uint (rsv_goal_size (rsv_node sb p)) - 1 \<and>
      rsv_goal_size (rsv_node sb' p) = rsv_goal_size (rsv_node sb p) \<and>
      p \<in> set (windows sb') \<and> (\<forall>q. q \<noteq> p \<longrightarrow> rsv_node sb' q = rsv_node sb q))"

lemma kr_rsv_window_add_spec:
  assumes k: "rb_ok k" and sorted: "rsv_sorted (rsv_node sb) (us @ vs)" "windows sb = us @ vs"
    and us: "\<And>x. x \<in> set us \<Longrightarrow> win_end sb x < win_start sb p"
    and vs: "\<And>y. y \<in> set vs \<Longrightarrow> win_start sb p < win_start sb y"
  obtains t where "kr_rsv_window_add k sb p = Some (sb\<lparr>s_rsv_window_root := t\<rparr>)" "inorder t = us @ p # vs"
proof -
  let ?t = "s_rsv_window_root sb"
  have elem: "win_start sb q \<le> win_end sb q" if "q \<in> set (us @ vs)" for q
    using sorted(1) that rsv_sorted_elem by blast
  have split: "\<forall>q \<in> set (inorder ?t). win_end sb q < win_start sb p \<or> win_start sb p < win_start sb q"
    using us vs sorted(2) by (auto simp: windows_def simp del: set_inorder)
  obtain t' where t': "rsv_link (rsv_node sb) p ?t = Some t'"
      "inorder t' = filter (\<lambda>q. win_end sb q < win_start sb p) (us @ vs) @
         p # filter (\<lambda>q. win_start sb p < win_start sb q) (us @ vs)"
    using rsv_link_spec [OF _ split] sorted by (auto simp: windows_def)
  have "filter (\<lambda>q. win_end sb q < win_start sb p) us = us"
    "filter (\<lambda>q. win_end sb q < win_start sb p) vs = []"
    "filter (\<lambda>q. win_start sb p < win_start sb q) us = []"
    "filter (\<lambda>q. win_start sb p < win_start sb q) vs = vs"
    using us vs elem by (auto simp: filter_empty_conv intro!: filter_True) force+
  then have "inorder t' = us @ p # vs" using t'(2) by simp
  then show ?thesis
    using that [of "k_rb_insert_color k t'"] t'(1) rb_ok_laws(1) [OF k, of t'] by (simp add: kr_rsv_window_add_def)
qed

lemma rsv_sorted_between:
  assumes "rsv_sorted node (us @ prv # vs)"
  shows "\<And>x. x \<in> set us \<Longrightarrow> rsv_end (node x) < rsv_end (node prv)"
    and "vs \<noteq> [] \<Longrightarrow> y \<in> set vs \<Longrightarrow> rsv_start (node (hd vs)) \<le> rsv_start (node y)"
proof -
  show "rsv_end (node x) < rsv_end (node prv)" if "x \<in> set us" for x
    using assms that unfolding rsv_sorted_append rsv_sorted_Cons by fastforce
  show "rsv_start (node (hd vs)) \<le> rsv_start (node y)" if "vs \<noteq> []" "y \<in> set vs"
    using assms that unfolding rsv_sorted_append rsv_sorted_Cons
    by (cases vs) (force simp: rsv_sorted_Cons)+
qed

lemma remove1_around:
  "distinct (us @ q # vs) \<Longrightarrow> q \<noteq> p \<Longrightarrow> remove1 p (us @ q # vs) = remove1 p (us @ [q]) @ remove1 p vs"
  by (cases "p \<in> set us") (auto simp: remove1_append remove1_idem disjoint_iff)

lemma rsv_invD:
  assumes "rsv_inv sb"
  shows "win_start sb RsvHead = 0" "win_end sb RsvHead = 0" "hd (windows sb) = RsvHead"
    "rsv_sorted (rsv_node sb) (windows sb)"
    "q \<in> set (windows sb) \<longleftrightarrow> q = RsvHead \<or> win_end sb q \<noteq> 0"
    "q \<in> set (windows sb) \<Longrightarrow> win_end sb q < 1099511627776"
  using assms unfolding rsv_inv_def by blast+

text \<open>The windows on both sides of a gap.\<close>

lemma gap_afterE:
  assumes inv: "rsv_inv sb" and gap: "gap_after sb siz lst start prv c" and siz: "1 \<le> siz"
  obtains us vs where "windows sb = us @ prv # vs" "rsv_sorted (rsv_node sb) (us @ prv # vs)"
    "distinct (us @ prv # vs)" "start \<le> c" "c \<le> lst" "0 < c"
    "\<And>x. x \<in> set (us @ [prv]) \<Longrightarrow> win_end sb x < c"
    "\<And>y. y \<in> set vs \<Longrightarrow> c + siz - 1 < win_start sb y"
proof -
  obtain us vs where c: "start \<le> c" "c \<le> lst" "win_end sb prv < c" and w: "windows sb = us @ prv # vs"
      and vs: "vs \<noteq> [] \<longrightarrow> c + siz \<le> win_start sb (hd vs)"
    using gap unfolding gap_after_def by auto
  have sorted: "rsv_sorted (rsv_node sb) (us @ prv # vs)" using rsv_invD(4) [OF inv] w by simp
  have d: "distinct (us @ prv # vs)" using rsv_inv_distinct [OF inv] w by simp
  have left: "win_end sb x < c" if "x \<in> set (us @ [prv])" for x
    using that rsv_sorted_between(1) [OF sorted, of x] c(3) by auto
  have right: "c + siz - 1 < win_start sb y" if "y \<in> set vs" for y
    using that rsv_sorted_between(2) [OF sorted _ that] vs by (cases vs) auto
  have "0 < c" using c(3) sorted unfolding rsv_sorted_append rsv_sorted_Cons by auto
  then show ?thesis using that w sorted d c left right by blast
qed

text \<open>The two ways a window gets into a gap: it already precedes the gap, or it is moved there.\<close>

lemma window_stretched:
  assumes inv: "rsv_inv sb" and p: "p \<noteq> RsvHead" and gap: "gap_after sb siz lst start p c"
    and siz: "1 \<le> siz" "c + siz < 1099511627776"
  defines "sb' \<equiv> upd_rsv p (\<lambda>w. w\<lparr>rsv_start := c, rsv_end := c + siz - 1, rsv_alloc_hit := 0\<rparr>) sb"
  shows "rsv_inv sb'" "p \<in> set (windows sb')"
proof -
  obtain us vs where w: "windows sb = us @ p # vs" "rsv_sorted (rsv_node sb) (us @ p # vs)"
      "distinct (us @ p # vs)" "0 < c"
      and left: "\<And>x. x \<in> set (us @ [p]) \<Longrightarrow> win_end sb x < c"
      and right: "\<And>y. y \<in> set vs \<Longrightarrow> c + siz - 1 < win_start sb y"
    using gap_afterE [OF inv gap siz(1)] by metis
  note d = rsv_invD [OF inv]
  have us: "us \<noteq> []" "hd us = RsvHead" using d(3) p unfolding w(1) by (cases us; auto)+
  show "rsv_inv sb'"
  proof (rule rsv_inv_place [of sb us vs p c "c + siz - 1" sb'])
    show "rsv_sorted (rsv_node sb) (us @ vs)" using w(2) by (auto simp: rsv_sorted_append rsv_sorted_Cons)
    show "q \<noteq> p \<Longrightarrow> q \<in> set (us @ vs) \<longleftrightarrow> q = RsvHead \<or> win_end sb q \<noteq> 0" for q
      using d(5) [of q] unfolding w(1) by auto
    show "q \<in> set (us @ vs) \<Longrightarrow> win_end sb q < 1099511627776" for q
      using d(6) [of q] unfolding w(1) by auto
  qed (use us d(1,2) p w left right siz in \<open>auto simp: sb'_def\<close>)
  show "p \<in> set (windows sb')" using w(1) by (simp add: sb'_def)
qed

lemma window_moved:
  assumes k: "rb_ok k" and inv: "rsv_inv sb" and p: "p \<noteq> RsvHead" "prv \<noteq> p"
    and gap: "gap_after sb siz lst start prv c" and siz: "1 \<le> siz" "c + siz < 1099511627776"
  defines "sb1 \<equiv> if \<not> rsv_is_empty sb p then rsv_window_remove k sb p else sb"
  defines "sb2 \<equiv> upd_rsv p (\<lambda>w. w\<lparr>rsv_start := c, rsv_end := c + siz - 1, rsv_alloc_hit := 0\<rparr>) sb1"
  obtains t where "kr_rsv_window_add k sb2 p = Some (sb2\<lparr>s_rsv_window_root := t\<rparr>)"
    "rsv_inv (sb2\<lparr>s_rsv_window_root := t\<rparr>)" "p \<in> set (inorder t)"
proof -
  obtain us vs where w: "windows sb = us @ prv # vs" "rsv_sorted (rsv_node sb) (us @ prv # vs)"
      "distinct (us @ prv # vs)" "0 < c"
      and left: "\<And>x. x \<in> set (us @ [prv]) \<Longrightarrow> win_end sb x < c"
      and right: "\<And>y. y \<in> set vs \<Longrightarrow> c + siz - 1 < win_start sb y"
    using gap_afterE [OF inv gap siz(1)] by metis
  note d = rsv_invD [OF inv]
  let ?us = "remove1 p (us @ [prv])" and ?vs = "remove1 p vs"
  note split = remove1_around [OF w(3) p(2)]
  have w1: "windows sb1 = ?us @ ?vs"
    using rsv_inv_remove(2) [OF k inv p(1)] d(5) [of p] p(1) w(1)
    by (auto simp: sb1_def rsv_is_empty_def remove1_idem simp flip: split)
  have np: "p \<notin> set (?us @ ?vs)" and sub: "set (?us @ ?vs) = set (windows sb) - {p}"
    using w(3) unfolding w(1) by (simp_all flip: split)
  have s1: "rsv_sorted (rsv_node sb) (?us @ ?vs)"
    using rsv_sorted_remove1 [OF w(2), of p] by (simp only: split)
  have n2: "rsv_node sb2 q = rsv_node sb q" if "q \<noteq> p" for q
    using that by (simp add: sb1_def sb2_def rsv_window_remove_def)
  have w2: "win_start sb2 p = c" "win_end sb2 p = c + siz - 1" by (simp_all add: sb2_def)
  have s2: "rsv_sorted (rsv_node sb2) (?us @ ?vs)"
    using s1 np n2 rsv_sorted_cong [of "?us @ ?vs" "rsv_node sb" "rsv_node sb2"] by metis
  have nu: "rsv_node sb2 q = rsv_node sb q" if "q \<in> set (?us @ ?vs)" for q
    using that np n2 by metis
  have lu: "x \<in> set ?us \<Longrightarrow> win_end sb x < c" for x using left set_remove1_subset by fastforce
  have rv: "y \<in> set ?vs \<Longrightarrow> c + siz - 1 < win_start sb y" for y using right set_remove1_subset by fastforce
  obtain t where t: "kr_rsv_window_add k sb2 p = Some (sb2\<lparr>s_rsv_window_root := t\<rparr>)"
      "inorder t = ?us @ p # ?vs"
  proof (rule kr_rsv_window_add_spec [OF k s2])
    show "windows sb2 = ?us @ ?vs" using w1 by (simp add: sb2_def)
    show "win_end sb2 x < win_start sb2 p" if "x \<in> set ?us" for x
      using lu [OF that] nu [of x] that w2 by simp
    show "win_start sb2 p < win_start sb2 y" if "y \<in> set ?vs" for y
      using rv [OF that] nu [of y] that w2 siz by simp
  qed
  let ?sb3 = "sb2\<lparr>s_rsv_window_root := t\<rparr>"
  have w3: "windows ?sb3 = ?us @ p # ?vs" using t(2) by (simp add: windows_def)
  have hu: "?us \<noteq> []" "hd ?us = RsvHead" using d(3) p unfolding w(1) by (cases us; auto)+
  have "rsv_inv ?sb3"
  proof (rule rsv_inv_place [of sb ?us ?vs p c "c + siz - 1" ?sb3])
    show "q \<noteq> p \<Longrightarrow> q \<in> set (?us @ ?vs) \<longleftrightarrow> q = RsvHead \<or> win_end sb q \<noteq> 0" for q
      using d(5) [of q] sub by auto
    show "q \<in> set (?us @ ?vs) \<Longrightarrow> win_end sb q < 1099511627776" for q using d(6) [of q] sub by auto
  qed (use s1 hu d(1,2) p np lu rv siz w(4) n2 w2 w3 in auto)
  moreover have "p \<in> set (inorder t)" unfolding t(2) by simp
  ultimately show ?thesis using that t(1) by blast
qed

lemma find_next_reservable_window_spec:
  assumes k: "rb_ok k" and inv: "rsv_inv sb" and p: "p \<noteq> RsvHead"
    and size: "1 \<le> uint (rsv_goal_size (rsv_node sb p))" "uint (rsv_goal_size (rsv_node sb p)) < 2147483648"
    and head: "h \<in> set (windows sb)"
    and blocks: "0 \<le> start" "start < 549755813888" "lst < 549755813888"
  shows "\<exists>ok sb'. find_next_reservable_window k sb (Some h) p start lst = Some (ok, sb') \<and>
     (if ok then rsv_inv sb' \<and> same_but_rsv sb sb' \<and> window_placed sb sb' p start lst else sb' = sb)"
proof -
  define siz where "siz = uint (rsv_goal_size (rsv_node sb p))"
  have s32: "s32 siz = siz" and siz: "1 \<le> siz" using size by (simp_all add: siz_def s32_id)
  obtain xs ys where "windows sb = xs @ h # ys" using head by (meson split_list)
  then obtain g where g: "reservable_gap k sb siz lst start h = Some g"
     "case g of None \<Rightarrow> True | Some (prv, c) \<Rightarrow> gap_after sb siz lst start prv c"
    using reservable_gap_spec [OF k inv, of xs h ys start siz lst] blocks size unfolding siz_def by auto
  show ?thesis
  proof (cases g)
    case None
    then show ?thesis using g(1)
      by (intro exI [of _ False]) (simp add: find_next_reservable_window_def Let_def s32 siz_def [symmetric])
  next
    case (Some pc)
    obtain prv c where pc: "pc = (prv, c)" by fastforce
    have gap: "gap_after sb siz lst start prv c" using g(2) Some pc by simp
    have c: "start \<le> c" "c \<le> lst" using gap by (simp_all add: gap_after_def)
    have e: "u64 (c + siz - 1) = c + siz - 1" and big: "c + siz < 1099511627776"
      using c blocks size by (simp_all add: u64_id siz_def)
    define place where "place = upd_rsv p (\<lambda>w. w\<lparr>rsv_start := c, rsv_end := c + siz - 1, rsv_alloc_hit := 0\<rparr>)"
    define sb1 where "sb1 = (if \<not> rsv_is_empty sb p then rsv_window_remove k sb p else sb)"
    have res: "find_next_reservable_window k sb (Some h) p start lst =
        (if prv \<noteq> p then do { sb3 \<leftarrow> kr_rsv_window_add k (place sb1) p; Some (True, sb3) }
         else Some (True, place sb))"
      by (simp add: find_next_reservable_window_def Let_def s32 siz_def [symmetric] g(1) Some pc e
          sb1_def place_def)
    show ?thesis
    proof (cases "prv = p")
      case True
      have "rsv_inv (place sb)" "p \<in> set (windows (place sb))"
        using window_stretched [OF inv p _ siz big] gap True unfolding place_def by auto
      then show ?thesis using True res c
        by (auto simp: window_placed_def siz_def place_def)
    next
      case False
      obtain t where t: "kr_rsv_window_add k (place sb1) p = Some ((place sb1)\<lparr>s_rsv_window_root := t\<rparr>)"
          "rsv_inv ((place sb1)\<lparr>s_rsv_window_root := t\<rparr>)" "p \<in> set (inorder t)"
        using window_moved [OF k inv p False gap siz big] unfolding sb1_def place_def by blast
      have "same_but_rsv sb ((place sb1)\<lparr>s_rsv_window_root := t\<rparr>)"
        by (simp add: sb1_def place_def same_but_rsv_def without_rsv_def upd_rsv_def rsv_window_remove_def)
      moreover have "window_placed sb ((place sb1)\<lparr>s_rsv_window_root := t\<rparr>) p start lst"
        using c t(3) by (auto simp: window_placed_def siz_def place_def sb1_def rsv_window_remove_def windows_def)
      ultimately show ?thesis using False res t by (intro exI [of _ True]) simp
    qed
  qed
qed

section \<open>Reserving a window\<close>

text \<open>
  The contract of a reservation in the group whose first block is \<open>F\<close> and whose bitmap is
  \<open>bm\<close> with \<open>B\<close> bits: the invariant holds, only reservations changed, no other window
  changed; on success the window of \<open>p\<close> starts in the group at or after \<open>lo\<close> and contains a
  block that is free in the bitmap; on failure the window is empty or as it was.
\<close>

definition reserved_post ::
  "super_block \<Rightarrow> super_block \<Rightarrow> rsv_ptr \<Rightarrow> int \<Rightarrow> int \<Rightarrow> bitmap \<Rightarrow> int \<Rightarrow> bool \<Rightarrow> bool" where
  "reserved_post sb sb' p F B bm lo ok =
     (rsv_inv sb' \<and> same_but_rsv sb sb' \<and> (\<forall>q. q \<noteq> p \<longrightarrow> rsv_node sb' q = rsv_node sb q) \<and>
      rsv_goal_size (rsv_node sb' p) = rsv_goal_size (rsv_node sb p) \<and>
      (\<not> ok \<longrightarrow> rsv_is_empty sb' p \<or> win_start sb' p = win_start sb p \<and> win_end sb' p = win_end sb p) \<and>
      (ok \<longrightarrow> lo \<le> win_start sb' p \<and> win_start sb' p < F + B \<and> p \<in> set (windows sb') \<and>
         win_end sb' p = win_start sb' p + uint (rsv_goal_size (rsv_node sb p)) - 1 \<and>
         (\<exists>i. win_start sb' p \<le> F + int i \<and> F + int i \<le> win_end sb' p \<and> int i < B \<and> \<not> bm ! i)))"

lemma drop_window_post:
  assumes "rb_ok k" "rsv_inv sb" "p \<noteq> RsvHead"
  shows "reserved_post sb (drop_window k sb p) p F B bm lo False"
    "rsv_is_empty (drop_window k sb p) p"
  using assms rsv_inv_remove [of k sb p]
  by (auto simp: reserved_post_def drop_window_def rsv_is_empty_def rsv_window_remove_def upd_rsv_def
      same_but_rsv_def without_rsv_def)

lemma reserved_post_trans:
  assumes "reserved_post sb1 sb2 p F B bm lo' ok" "lo \<le> lo'"
    and "same_but_rsv sb sb1" "\<And>q. q \<noteq> p \<Longrightarrow> rsv_node sb1 q = rsv_node sb q"
    and "rsv_goal_size (rsv_node sb1 p) = rsv_goal_size (rsv_node sb p)" "ok \<or> rsv_is_empty sb2 p"
  shows "reserved_post sb sb2 p F B bm lo ok"
  using assms same_but_rsv_trans [of sb sb1 sb2] by (auto simp: reserved_post_def)

lemma reserve_retry_spec:
  assumes k: "rb_ok k" and bm: "bitmap_buffer bm" "B \<le> int (length bm)" "0 < B"
    and F: "0 \<le> F" "F < 274877906944" and p: "p \<noteq> RsvHead"
  shows "\<lbrakk> rsv_inv sb; h \<in> set (windows sb); 1 \<le> uint (rsv_goal_size (rsv_node sb p));
      uint (rsv_goal_size (rsv_node sb p)) < 2147483648; F \<le> start; start < 549755813888 \<rbrakk> \<Longrightarrow>
    \<exists>ok sb'. reserve_retry k sb (Some h) p start F (F + B - 1) bm = Some (ok, sb') \<and>
      reserved_post sb sb' p F B bm start ok \<and> (ok \<or> rsv_is_empty sb' p)"
proof (induction "nat (F + B - start)" arbitrary: sb h start rule: less_induct)
  case less
  have B: "B < 1073741824" using bm by (simp add: bitmap_buffer_def)
  obtain ok sb1 where f: "find_next_reservable_window k sb (Some h) p start (F + B - 1) = Some (ok, sb1)"
     "if ok then rsv_inv sb1 \<and> same_but_rsv sb sb1 \<and> window_placed sb sb1 p start (F + B - 1) else sb1 = sb"
    using find_next_reservable_window_spec [OF k less.prems(1) p less.prems(3,4,2), of start "F + B - 1"]
      less.prems(5,6) F B by auto
  note unfold = reserve_retry.simps [of k sb "Some h" p start F "F + B - 1" bm]
  show ?case
  proof (cases ok)
    case False
    then show ?thesis using f drop_window_post [OF k less.prems(1) p] by (auto simp: unfold)
  next
    case True
    then have sb1: "rsv_inv sb1" "same_but_rsv sb sb1" "window_placed sb sb1 p start (F + B - 1)"
      using f(2) by auto
    note pl = sb1(3) [unfolded window_placed_def]
    let ?s = "win_start sb1 p"
    have args: "s32 (?s - F) = ?s - F" "s32 B = B"
      using pl less.prems(5) B by (simp_all add: s32_id)
    obtain r where r: "bitmap_search_next_usable_block (?s - F) bm B = Some r"
        "free_bit_found bm (?s - F) B r"
      using bitmap_search_next_usable_block_spec [of bm "?s - F" B] bm pl less.prems(5) B by auto
    show ?thesis
    proof (cases "r < 0")
      case True
      have "reserved_post sb (drop_window k sb1 p) p F B bm start False"
        using reserved_post_trans [OF drop_window_post(1) [OF k sb1(1) p], where lo' = start] sb1(2) pl
          drop_window_post(2) [OF k sb1(1) p] by (auto simp: reserved_post_def)
      then show ?thesis using True \<open>ok\<close> f(1) r(1) drop_window_post(2) [OF k sb1(1) p]
        by (auto simp: unfold args)
    next
      case False
      then have rb: "?s - F \<le> r" "r < B" "\<not> bm ! nat r" using r(2) by (auto simp: free_bit_found_def)
      have u: "u64 (r + F) = r + F" using False rb B F by (simp add: u64_id)
      show ?thesis
      proof (cases "r + F \<le> win_end sb1 p")
        case True
        have "reserved_post sb sb1 p F B bm start True"
          using sb1 pl rb True False by (auto simp: reserved_post_def intro!: exI [of _ "nat r"])
        then show ?thesis using True \<open>ok\<close> False f(1) r(1) rb by (auto simp: unfold args u)
      next
        case beyond: False
        have rec: "reserve_retry k sb (Some h) p start F (F + B - 1) bm =
            reserve_retry k sb1 (Some p) p (r + F) F (F + B - 1) bm"
          using beyond \<open>ok\<close> False f(1) r(1) by (simp add: unfold args u)
        have "start < r + F" using beyond pl less.prems(3) by auto
        then obtain ok' sb2 where "reserve_retry k sb1 (Some p) p (r + F) F (F + B - 1) bm = Some (ok', sb2)"
            "reserved_post sb1 sb2 p F B bm (r + F) ok'" "ok' \<or> rsv_is_empty sb2 p"
          using less.hyps [of "r + F" sb1 p] sb1(1) pl less.prems(3-6) rb F B False by auto
        then show ?thesis using reserved_post_trans [of sb1 sb2 p F B bm "r + F" ok' start sb]
            sb1(2) pl \<open>start < r + F\<close> unfolding rec by auto
      qed
    qed
  qed
qed

text \<open>The geometry a group has to have for block numbers not to wrap.\<close>

definition group_geometry :: "super_block \<Rightarrow> int \<Rightarrow> bitmap \<Rightarrow> bool" where
  "group_geometry sb g bm =
     (0 < KR_BLOCKS_PER_GROUP sb \<and> bitmap_buffer bm \<and> KR_BLOCKS_PER_GROUP sb \<le> int (length bm) \<and>
      kr_group_first_block_no sb g < 274877906944)"

lemma group_geometryD:
  assumes "group_geometry sb g bm"
  defines "F \<equiv> kr_group_first_block_no sb g" and "B \<equiv> KR_BLOCKS_PER_GROUP sb"
  shows "0 < B" "bitmap_buffer bm" "B \<le> int (length bm)" "0 \<le> F" "F < 274877906944"
    "B < 1073741824" "u64 (F + B - 1) = F + B - 1" "u64 (F + (B - 1)) = F + B - 1"
    "0 \<le> i \<Longrightarrow> i < B \<Longrightarrow> u64 (i + F) = i + F"
proof -
  show b: "0 < B" "bitmap_buffer bm" "B \<le> int (length bm)" "F < 274877906944"
    using assms by (simp_all add: group_geometry_def)
  show "0 \<le> F" by (simp add: F_def kr_group_first_block_no_def)
  moreover show "B < 1073741824" using b by (simp add: bitmap_buffer_def)
  ultimately show "u64 (F + B - 1) = F + B - 1" "0 \<le> i \<Longrightarrow> i < B \<Longrightarrow> u64 (i + F) = i + F"
    using b by (auto intro!: u64_id)
  then show "u64 (F + (B - 1)) = F + B - 1" by (simp add: algebra_simps)
qed

lemma group_geometry_cong:
  "sbi sb' = sbi sb \<Longrightarrow> es sb' = es sb \<Longrightarrow> group_geometry sb' g bm = group_geometry sb g bm"
  by (simp add: group_geometry_def kr_group_first_block_no_def)

abbreviation set_goal_size :: "rsv_ptr \<Rightarrow> 32 word \<Rightarrow> super_block \<Rightarrow> super_block" where
  "set_goal_size p s \<equiv> upd_rsv p (\<lambda>w. w\<lparr>rsv_goal_size := s\<rparr>)"

definition goal_size_ok :: "32 word \<Rightarrow> bool" where
  "goal_size_ok s = (1 \<le> uint s \<and> uint s \<le> 1073741824)"

lemma rsv_inv_set_goal_size [simp]: "rsv_inv (set_goal_size p s sb) = rsv_inv sb"
proof -
  have "rsv_start (((rsv_node sb)(p := (rsv_node sb p)\<lparr>rsv_goal_size := s\<rparr>)) q) = win_start sb q"
    "rsv_end (((rsv_node sb)(p := (rsv_node sb p)\<lparr>rsv_goal_size := s\<rparr>)) q) = win_end sb q" for q
    by simp_all
  then show ?thesis by (simp only: rsv_inv_def rsv_sorted_def upd_rsv_frame)
qed

lemma set_goal_size_same [simp]: "set_goal_size p (rsv_goal_size (rsv_node sb p)) sb = sb"
  by (simp add: upd_rsv_def)

lemma reserved_post_refl:
  "rsv_inv sb \<Longrightarrow> reserved_post sb sb p F B bm lo False"
  by (simp add: reserved_post_def)

lemma search_reserve_window_some:
  assumes "rb_ok k" "rsv_inv sb" "0 \<le> goal"
  shows "\<exists>h. search_reserve_window k sb goal = Some h \<and> h \<in> set (windows sb)"
  using search_reserve_window_spec [OF assms] by (metis in_set_conv_decomp)

lemma alloc_new_reservation_spec:
  fixes sb g
  defines "F \<equiv> kr_group_first_block_no sb g" and "B \<equiv> KR_BLOCKS_PER_GROUP sb"
  assumes k: "rb_ok k" and inv: "rsv_inv sb" and p: "p \<noteq> RsvHead" and geo: "group_geometry sb g bm"
    and gs: "goal_size_ok (rsv_goal_size (rsv_node sb p))" and goal: "- 1 \<le> goal" "goal < B"
  shows "\<exists>ok sb' s. alloc_new_reservation k sb p goal g bm = Some (ok, sb') \<and> goal_size_ok s \<and>
     reserved_post (set_goal_size p s sb) sb' p F B bm (if goal < 0 then F else F + goal) ok"
proof -
  note G = group_geometryD [OF geo, folded F_def B_def]
  let ?w = "rsv_node sb p" and ?lo = "if goal < 0 then F else F + goal"
  have lo: "(if goal < 0 then F else u64 (goal + F)) = ?lo" "F \<le> ?lo" "?lo < F + B" using G goal by auto
  define s where "s = (if \<not> rsv_is_empty sb p \<and> u64 (rsv_end ?w - rsv_start ?w + 1) div 2 < uint (rsv_alloc_hit ?w)
      then word_of_int (min (uint (rsv_goal_size ?w) * 2) 1027) else rsv_goal_size ?w)"
  have s: "goal_size_ok s" using gs by (auto simp: s_def goal_size_ok_def uint_word32 min_def)
  have s1: "(if \<not> rsv_is_empty sb p \<and> u64 (rsv_end ?w - rsv_start ?w + 1) div 2 < uint (rsv_alloc_hit ?w)
      then set_goal_size p (word_of_int (min (uint (rsv_goal_size ?w) * 2) 1027)) sb else sb) = set_goal_size p s sb"
    by (simp add: s_def)
  let ?early = "\<not> rsv_is_empty sb p \<and> rsv_start ?w \<le> F + B - 1 \<and> F + B - 1 < rsv_end ?w \<and> rsv_start ?w \<le> ?lo"
  have eq: "alloc_new_reservation k sb p goal g bm = (if ?early then Some (False, sb)
     else reserve_retry k (set_goal_size p s sb) (search_reserve_window k (set_goal_size p s sb) ?lo) p ?lo F (F + B - 1) bm)"
    unfolding alloc_new_reservation_def Let_def F_def [symmetric] B_def [symmetric] G(8) lo(1) s1 by (rule refl)
  show ?thesis
  proof (cases ?early)
    case True
    have "reserved_post (set_goal_size p (rsv_goal_size ?w) sb) sb p F B bm ?lo False"
      using reserved_post_refl [OF inv] by simp
    then show ?thesis unfolding eq if_P [OF True] using gs by blast
  next
    case False
    let ?sb = "set_goal_size p s sb"
    have inv': "rsv_inv ?sb" using inv by simp
    have "0 \<le> ?lo" using lo(2) G(4) by linarith
    then obtain h where h: "search_reserve_window k ?sb ?lo = Some h" "h \<in> set (windows ?sb)"
      using search_reserve_window_some [OF k inv'] by blast
    obtain ok sb' where "reserve_retry k ?sb (Some h) p ?lo F (F + B - 1) bm = Some (ok, sb')"
        "reserved_post ?sb sb' p F B bm ?lo ok"
      using reserve_retry_spec [OF k G(2,3,1,4,5) p inv' h(2), of ?lo] s lo G(5,6)
      by (auto simp: goal_size_ok_def)
    then show ?thesis unfolding eq if_not_P [OF False] h(1) using s by blast
  qed
qed

text \<open>Extending a window stops at the next one.\<close>

lemma try_to_extend_reservation_inv:
  assumes k: "rb_ok k" and inv: "rsv_inv sb" and p: "p \<noteq> RsvHead" "\<not> rsv_is_empty sb p"
    and siz: "0 \<le> siz" "win_end sb p + siz < 1099511627776"
  defines "sb' \<equiv> try_to_extend_reservation k sb p siz"
  shows "rsv_inv sb'" "same_but_rsv sb sb'" "windows sb' = windows sb"
    "win_start sb' p = win_start sb p" "win_end sb p \<le> win_end sb' p" "win_end sb' p \<le> win_end sb p + siz"
    "\<And>q. q \<noteq> p \<Longrightarrow> rsv_node sb' q = rsv_node sb q"
    "rsv_goal_size (rsv_node sb' p) = rsv_goal_size (rsv_node sb p)"
proof -
  note d = rsv_invD [OF inv]
  have "p \<in> set (windows sb)" using d(5) [of p] p by (simp add: rsv_is_empty_def)
  then obtain us vs where w: "windows sb = us @ p # vs" by (meson split_list)
  have sorted: "rsv_sorted (rsv_node sb) (us @ p # vs)" and dist: "distinct (us @ p # vs)"
    using d(4) rsv_inv_distinct [OF inv] w by simp_all
  have e: "0 \<le> win_end sb p" "0 < win_start sb p" "win_start sb p \<le> win_end sb p"
    "\<And>x. x \<in> set us \<Longrightarrow> win_end sb x < win_start sb p" "\<And>y. y \<in> set vs \<Longrightarrow> win_end sb p < win_start sb y"
    "\<And>y. y \<in> set vs \<Longrightarrow> win_start sb y < 1099511627776"
    using sorted d(2,3) d(6) p(1) unfolding w rsv_sorted_append rsv_sorted_Cons
    by (cases us; fastforce simp: rsv_sorted_def)+
  have u: "u64 (win_end sb p + siz) = win_end sb p + siz" "u64 siz = siz" using siz e by (simp_all add: u64_id)
  define E where "E = (case vs of [] \<Rightarrow> win_end sb p + siz
     | nxt # _ \<Rightarrow> if siz \<le> win_start sb nxt - win_end sb p - 1 then win_end sb p + siz else win_start sb nxt - 1)"
  have E: "win_end sb p \<le> E" "E \<le> win_end sb p + siz" using siz e(5) by (auto simp: E_def split: list.splits)
  have sb': "sb' = sb \<or> sb' = upd_rsv p (\<lambda>w. w\<lparr>rsv_end := E\<rparr>) sb"
  proof (cases vs)
    case Nil
    then show ?thesis using rb_next_eq [OF k inv w] u
      by (simp add: sb'_def try_to_extend_reservation_def E_def upd_rsv_def)
  next
    case (Cons nxt ys)
    have "u64 (win_start sb nxt - win_end sb p - 1) = win_start sb nxt - win_end sb p - 1"
      "u64 (win_start sb nxt - 1) = win_start sb nxt - 1"
      using e(1) e(5) [of nxt] e(6) [of nxt] Cons by (simp_all add: u64_id)
    then show ?thesis using rb_next_eq [OF k inv w] u Cons
      by (simp add: sb'_def try_to_extend_reservation_def E_def upd_rsv_def)
  qed
  have right: "E < win_start sb y" if y: "y \<in> set vs" for y
  proof (cases vs)
    case (Cons nxt ys)
    then have "win_start sb nxt \<le> win_start sb y" using rsv_sorted_between(2) [OF sorted _ y] by simp
    then show ?thesis using Cons by (auto simp: E_def split: if_splits)
  qed (use y in simp)
  have us: "us \<noteq> []" "hd us = RsvHead" using d(3) p unfolding w by (cases us; auto)+
  have "rsv_inv (upd_rsv p (\<lambda>w. w\<lparr>rsv_end := E\<rparr>) sb)"
  proof (rule rsv_inv_place [of sb us vs p "win_start sb p" E])
    show "rsv_sorted (rsv_node sb) (us @ vs)" using sorted by (auto simp: rsv_sorted_append rsv_sorted_Cons)
    show "q \<noteq> p \<Longrightarrow> q \<in> set (us @ vs) \<longleftrightarrow> q = RsvHead \<or> win_end sb q \<noteq> 0" for q
      using d(5) [of q] unfolding w by auto
    show "q \<in> set (us @ vs) \<Longrightarrow> win_end sb q < 1099511627776" for q
      using d(6) [of q] unfolding w by auto
  qed (use us d(1,2) p w dist e right E siz in auto)
  then show "rsv_inv sb'" "same_but_rsv sb sb'" "windows sb' = windows sb"
    "win_start sb' p = win_start sb p" "win_end sb p \<le> win_end sb' p" "win_end sb' p \<le> win_end sb p + siz"
    "\<And>q. q \<noteq> p \<Longrightarrow> rsv_node sb' q = rsv_node sb q"
    "rsv_goal_size (rsv_node sb' p) = rsv_goal_size (rsv_node sb p)"
    using sb' inv E siz by auto
qed

section \<open>Allocating inside a window\<close>

text \<open>
  The frame of an allocation with a window: the bitmap of block \<open>bblk\<close> and the reservations
  may change, nothing else.
\<close>

definition same_but_alloc :: "int \<Rightarrow> super_block \<Rightarrow> super_block \<Rightarrow> bool" where
  "same_but_alloc bblk sb sb' =
     same_but_rsv (sb\<lparr>b_data := (b_data sb)(bblk := b_data sb' bblk)\<rparr>) sb'"

lemma same_but_allocD [kr_frame]:
  assumes "same_but_alloc bblk sb sb'"
  shows "s_flags sb' = s_flags sb" "s_blocksize sb' = s_blocksize sb" "sbi sb' = sbi sb" "es sb' = es sb"
    "s_group_desc sb' = s_group_desc sb" "kr_group_first_block_no sb' = kr_group_first_block_no sb"
    "b_data sb' = (b_data sb)(bblk := b_data sb' bblk)"
proof -
  have s: "same_but_rsv (sb\<lparr>b_data := (b_data sb)(bblk := b_data sb' bblk)\<rparr>) sb'"
    using assms by (simp add: same_but_alloc_def)
  note d = same_but_rsvD [OF s]
  show "s_flags sb' = s_flags sb" "s_blocksize sb' = s_blocksize sb" "sbi sb' = sbi sb" "es sb' = es sb"
    "s_group_desc sb' = s_group_desc sb" using d(1-5) by simp_all
  show "b_data sb' = (b_data sb)(bblk := b_data sb' bblk)" using d(6) by simp
  show "kr_group_first_block_no sb' = kr_group_first_block_no sb"
    using d(3,4) by (simp add: kr_group_first_block_no_def fun_eq_iff)
qed

text \<open>The contract of \<open>kr_try_to_allocate_with_rsv\<close> for a group of \<open>B\<close> blocks.\<close>

definition window_len_ok :: "int \<Rightarrow> super_block \<Rightarrow> rsv_ptr \<Rightarrow> bool" where
  "window_len_ok L sb p = (rsv_is_empty sb p \<or> win_end sb p - win_start sb p < L)"

definition rsv_alloc_post ::
  "super_block \<Rightarrow> super_block \<Rightarrow> rsv_ptr \<Rightarrow> int \<Rightarrow> int \<Rightarrow> int \<Rightarrow> int \<Rightarrow> int \<Rightarrow> bool" where
  "rsv_alloc_post sb sb' p bblk B count r num =
     (rsv_inv sb' \<and> same_but_alloc bblk sb sb' \<and> (\<forall>q. q \<noteq> p \<longrightarrow> rsv_node sb' q = rsv_node sb q) \<and>
      goal_size_ok (rsv_goal_size (rsv_node sb' p)) \<and>
      (if r < 0 then r = - 1 \<and> num = count \<and> b_data sb' = b_data sb \<and> window_len_ok 1073741824 sb' p
       else \<exists>lo hi. 0 \<le> lo \<and> hi \<le> B \<and> alloc_post (b_data sb bblk) lo hi count r num (b_data sb' bblk)))"

lemma rsv_alloc_post_trans:
  assumes "rsv_alloc_post sb1 sb2 p bblk B count r num" "same_but_rsv sb sb1" "\<And>q. q \<noteq> p \<Longrightarrow> rsv_node sb1 q = rsv_node sb q"
  shows "rsv_alloc_post sb sb2 p bblk B count r num"
proof -
  have "same_but_rsv (sb\<lparr>b_data := (b_data sb)(bblk := b_data sb2 bblk)\<rparr>)
      (sb1\<lparr>b_data := (b_data sb1)(bblk := b_data sb2 bblk)\<rparr>)"
    using assms(2) by (elim same_but_rsvE) (simp add: same_but_rsv_def without_rsv_def)
  then have "same_but_alloc bblk sb sb2"
    using assms(1) unfolding rsv_alloc_post_def same_but_alloc_def by (blast intro: same_but_rsv_trans)
  then show ?thesis using assms(1,3) same_but_rsvD(6) [OF assms(2)]
    by (auto simp: rsv_alloc_post_def split: if_splits)
qed

text \<open>The attempt inside the current window, once the window meets the group.\<close>

lemma allocate_in_window:
  fixes sb g
  defines "F \<equiv> kr_group_first_block_no sb g" and "B \<equiv> KR_BLOCKS_PER_GROUP sb"
  assumes inv: "rsv_inv sb" and geo: "group_geometry sb g (b_data sb bblk)"
    and p: "p \<in> set (windows sb)"
    and meets: "win_start sb p \<le> F + B - 1" "F \<le> win_end sb p" "win_end sb p - F < 2147483647"
  obtains r num bm start e where
    "kr_try_to_allocate sb g (b_data sb bblk) goal count (Some (win_start sb p, win_end sb p)) = Some (r, num, bm)"
    "alloc_post (b_data sb bblk) start e count r num bm" "0 \<le> start" "e \<le> B"
    "e = min (win_end sb p - F + 1) B" "start = goal \<and> win_start sb p \<le> F + goal \<or> start = max (win_start sb p - F) 0"
proof -
  note G = group_geometryD [OF geo, folded F_def B_def]
  have ord: "win_start sb p \<le> win_end sb p" using rsv_sorted_elem [OF rsv_invD(4) [OF inv] p] .
  let ?s = "max (win_start sb p - F) 0" and ?e = "min (win_end sb p - F + 1) B"
  have FB: "F = kr_group_first_block_no sb g" "B = KR_BLOCKS_PER_GROUP sb" by (simp_all add: F_def B_def)
  have "B < 2147483647" using G(6) by simp
  note r = allocation_range_window [OF FB ord G(1) this meets]
  have e: "?e \<le> int (length (b_data sb bblk))" using G(3) by simp
  show ?thesis
  proof (cases "?s \<le> goal \<and> goal < ?e")
    case True
    then have "allocation_range sb g goal (Some (win_start sb p, win_end sb p)) = (goal, ?e, goal)"
      using r(1) [of goal] by simp
    from try_to_allocate_in_range [OF G(2) e this, of count] True that [of _ _ _ goal ?e]
    show ?thesis by (auto simp: B_def)
  next
    case False
    then have "allocation_range sb g goal (Some (win_start sb p, win_end sb p)) = (?s, ?e, - 1)"
      using r(1) [of goal] by simp
    from try_to_allocate_in_range [OF G(2) e this, of count] r(2-4) that [of _ _ _ ?s ?e]
    show ?thesis by (auto simp: B_def)
  qed
qed

lemma rsv_inv_alloc_hit:
  assumes "rsv_inv sb" "s_rsv_window_root sb' = s_rsv_window_root sb"
    "\<And>q. win_start sb' q = win_start sb q" "\<And>q. win_end sb' q = win_end sb q"
  shows "rsv_inv sb'"
proof -
  have "windows sb' = windows sb" using assms(2) by (simp add: windows_def)
  then show ?thesis using assms(1,3,4) by (simp add: rsv_inv_def rsv_sorted_def)
qed

lemma allocated_in_window_post:
  assumes "rsv_inv sb" "alloc_post (b_data sb bblk) lo hi count r num bm" "0 \<le> r" "0 \<le> lo" "hi \<le> B"
    and "goal_size_ok (rsv_goal_size (rsv_node sb p))"
  shows "rsv_alloc_post sb (upd_rsv p (\<lambda>w. w\<lparr>rsv_alloc_hit := rsv_alloc_hit w + word_of_int num\<rparr>)
     (sb\<lparr>b_data := (b_data sb)(bblk := bm)\<rparr>)) p bblk B count r num"
  unfolding rsv_alloc_post_def
  using assms(2-6) rsv_inv_alloc_hit [OF assms(1)]
  by (auto simp: same_but_alloc_def same_but_rsv_def without_rsv_def upd_rsv_def)

text \<open>A round that reserves a new window: it succeeds, or there is no window to be had.\<close>

lemma allocate_with_rsv_fresh:
  fixes sb g
  defines "F \<equiv> kr_group_first_block_no sb g" and "B \<equiv> KR_BLOCKS_PER_GROUP sb"
  assumes k: "rb_ok k" and inv: "rsv_inv sb" and p: "p \<noteq> RsvHead"
    and geo: "group_geometry sb g (b_data sb bblk)"
    and gs: "goal_size_ok (rsv_goal_size (rsv_node sb p))" and count: "0 \<le> count" "count \<le> 1073741824"
    and goal: "- 1 \<le> goal" "goal < B"
    and len: "window_len_ok 1073741824 sb p"
    and fresh: "rsv_is_empty sb p \<or> ret < 0 \<or> \<not> goal_in_my_reservation sb p goal g"
  shows "\<exists>r num sb'. allocate_with_rsv k sb g bblk goal p count ret = Some (r, num, sb') \<and>
     rsv_alloc_post sb sb' p bblk B count r num"
proof -
  note G = group_geometryD [OF geo, folded F_def B_def]
  define sb0 where "sb0 = (if uint (rsv_goal_size (rsv_node sb p)) < count
      then set_goal_size p (word_of_int count) sb else sb)"
  have same0: "same_but_rsv sb sb0" "rsv_inv sb0" using inv by (simp_all add: sb0_def)
  have w0: "win_start sb0 p = win_start sb p" "win_end sb0 p = win_end sb p" by (simp_all add: sb0_def)
  note f0 = same_but_rsvD [OF same0(1)]
  have gs0: "goal_size_ok (rsv_goal_size (rsv_node sb0 p))"
    using gs count by (auto simp: sb0_def goal_size_ok_def uint_word32)
  have geo0: "group_geometry sb0 g (b_data sb bblk)"
    using geo group_geometry_cong [OF f0(3,4)] by simp
  have goal0: "goal < KR_BLOCKS_PER_GROUP sb0" using goal(2) by (simp add: B_def f0)
  let ?lo = "if goal < 0 then F else F + goal"
  obtain ok sb1 s where a: "alloc_new_reservation k sb0 p goal g (b_data sb bblk) = Some (ok, sb1)"
      "goal_size_ok s" "reserved_post (set_goal_size p s sb0) sb1 p F B (b_data sb bblk) ?lo ok"
    using alloc_new_reservation_spec [OF k same0(2) p geo0 gs0 goal(1) goal0]
    unfolding f0(3,7) F_def [symmetric] B_def [symmetric] by blast
  have same1: "rsv_inv sb1" "same_but_rsv sb sb1"
    using a(3) same0(1) same_but_rsv_trans [OF same0(1) same_but_rsv_trans, of "set_goal_size p s sb0"]
    by (simp_all add: reserved_post_def)
  have n1: "\<And>q. q \<noteq> p \<Longrightarrow> rsv_node sb1 q = rsv_node sb q" "goal_size_ok (rsv_goal_size (rsv_node sb1 p))"
    using a(2,3) by (simp_all add: reserved_post_def sb0_def)
  note f1 = same_but_rsvD [OF same1(2)]
  define goal1 where "goal1 = (if goal_in_my_reservation sb1 p goal g then goal else - 1)"
  note unfold = allocate_with_rsv.simps [of k sb g bblk goal p count ret]
  have eq: "allocate_with_rsv k sb g bblk goal p count ret =
     (if \<not> ok then Some (- 1, count, sb1)
      else if F + B - 1 < win_start sb1 p \<or> win_end sb1 p < F then None
      else do {
        (r, num, bm) \<leftarrow> kr_try_to_allocate sb1 g (b_data sb1 bblk) goal1 count
           (Some (win_start sb1 p, win_end sb1 p));
        let sb2 = sb1\<lparr>b_data := (b_data sb1)(bblk := bm)\<rparr>;
        if 0 \<le> r
        then Some (r, num, upd_rsv p (\<lambda>w. w\<lparr>rsv_alloc_hit := rsv_alloc_hit w + word_of_int num\<rparr>) sb2)
        else allocate_with_rsv k sb2 g bblk goal1 p count r })"
    unfolding unfold Let_def F_def [symmetric] B_def [symmetric] G(8)
    using fresh a(1) by (simp add: sb0_def [symmetric] goal1_def [symmetric] f0(6))
  show ?thesis
  proof (cases ok)
    case False
    have "window_len_ok 1073741824 sb1 p"
      using a(3) False len w0 by (auto simp: reserved_post_def window_len_ok_def rsv_is_empty_def)
    then have "rsv_alloc_post sb sb1 p bblk B count (- 1) count"
      using same1 n1 f1(6) by (simp add: rsv_alloc_post_def same_but_alloc_def)
    then show ?thesis using False eq by auto
  next
    case True
    obtain i where w: "?lo \<le> win_start sb1 p" "win_start sb1 p < F + B" "p \<in> set (windows sb1)"
        "win_end sb1 p = win_start sb1 p + uint s - 1"
        and i: "win_start sb1 p \<le> F + int i" "F + int i \<le> win_end sb1 p" "int i < B" "\<not> b_data sb bblk ! i"
      using a(3) True unfolding reserved_post_def by auto
    have meets: "F \<le> win_end sb1 p" "win_end sb1 p - F < 2147483647" "F \<le> win_start sb1 p"
      using w i a(2) G(1,6) goal by (auto simp: goal_size_ok_def split: if_splits)
    have geo1: "group_geometry sb1 g (b_data sb1 bblk)"
      using geo group_geometry_cong [OF f1(3,4)] by (simp add: f1)
    obtain r num bm start e where t:
        "kr_try_to_allocate sb1 g (b_data sb1 bblk) goal1 count (Some (win_start sb1 p, win_end sb1 p)) = Some (r, num, bm)"
        "alloc_post (b_data sb1 bblk) start e count r num bm" "0 \<le> start" "e \<le> B"
        "e = min (win_end sb1 p - F + 1) B"
        "start = goal1 \<and> win_start sb1 p \<le> F + goal1 \<or> start = max (win_start sb1 p - F) 0"
      using allocate_in_window [OF same1(1) geo1 w(3), where goal = goal1 and count = count and thesis = thesis] w(2) meets
      by (simp add: f1 F_def B_def)
    have "start \<le> int i"
      using t(6) w(1) i(1) meets(3) goal by (auto simp: goal1_def split: if_splits)
    moreover have "int i < e" using i t(5) by auto
    ultimately have r: "0 \<le> r"
      using t(2) i(4) unfolding alloc_post_def f1(6) by (auto split: if_splits)
    have "rsv_alloc_post sb (upd_rsv p (\<lambda>w. w\<lparr>rsv_alloc_hit := rsv_alloc_hit w + word_of_int num\<rparr>)
        (sb1\<lparr>b_data := (b_data sb1)(bblk := bm)\<rparr>)) p bblk B count r num"
      using rsv_alloc_post_trans [OF allocated_in_window_post [OF same1(1) t(2) r t(3,4) n1(2)] same1(2)] n1(1)
      by blast
    then show ?thesis using True w meets(1) t(1) r unfolding eq by auto
  qed
qed

text \<open>
  Every call returns: it has claimed free blocks of the group, or changed no bitmap. The
  \<^verbatim>\<open>BUG()\<close> of the loop is not reached, and after at most one failed attempt in an old
  window the loop ends.
\<close>

lemma allocate_with_rsv_spec:
  fixes sb g
  defines "F \<equiv> kr_group_first_block_no sb g" and "B \<equiv> KR_BLOCKS_PER_GROUP sb"
  assumes k: "rb_ok k" and inv: "rsv_inv sb" and p: "p \<noteq> RsvHead"
    and geo: "group_geometry sb g (b_data sb bblk)"
    and gs: "goal_size_ok (rsv_goal_size (rsv_node sb p))" and count0: "0 \<le> count" "count \<le> 268435456"
    and goal: "- 1 \<le> goal" "goal < B"
    and len: "window_len_ok (if goal < 0 then 1073741824 else 536870912) sb p"
  shows "\<exists>r num sb'. allocate_with_rsv k sb g bblk goal p count 0 = Some (r, num, sb') \<and>
     rsv_alloc_post sb sb' p bblk B count r num"
proof (cases "rsv_is_empty sb p \<or> \<not> goal_in_my_reservation sb p goal g")
  have count: "0 \<le> count" "count \<le> 1073741824" using count0 by auto
  have len1: "window_len_ok 1073741824 sb p" using len by (auto simp: window_len_ok_def split: if_splits)
  case True
  then show ?thesis
    using allocate_with_rsv_fresh [OF k inv p geo gs count goal(1) _ len1, of 0] goal(2)
    unfolding B_def by blast
next
  case False
  have count: "0 \<le> count" "count \<le> 1073741824" using count0 by auto
  have small: "win_end sb p - win_start sb p < 1073741824"
      "0 \<le> goal \<Longrightarrow> win_end sb p - win_start sb p < 536870912"
    using len False by (auto simp: window_len_ok_def split: if_splits)
  note G = group_geometryD [OF geo, folded F_def B_def]
  have in_win: "win_start sb p \<le> F + B - 1" "F \<le> win_end sb p"
      "0 \<le> goal \<Longrightarrow> win_start sb p \<le> goal + F \<and> goal + F \<le> win_end sb p"
    using False goal(2) G(7,9) unfolding goal_in_my_reservation_def Let_def F_def [symmetric] B_def [symmetric]
    by (auto simp: not_less)
  have pw: "p \<in> set (windows sb)" using False rsv_invD(5) [OF inv, of p] by (simp add: rsv_is_empty_def)
  define curr where "curr = win_end sb p - (goal + F) + 1"
  have curr: "s32 curr = curr" "u64 curr = curr" "1 \<le> curr" "curr < 2147483648" if "0 \<le> goal"
    using in_win(3) [OF that] small(1) in_win(1) that G(6) by (auto simp: curr_def intro!: s32_id u64_id)
  define sb1 where "sb1 = (if 0 \<le> goal \<and> curr < count
      then try_to_extend_reservation k sb p (count - curr) else sb)"
  have ext: "rsv_inv sb1 \<and> same_but_rsv sb sb1 \<and> windows sb1 = windows sb \<and> win_start sb1 p = win_start sb p \<and>
      win_end sb p \<le> win_end sb1 p \<and> win_end sb1 p - F < 2147483647 \<and>
      (\<forall>q. q \<noteq> p \<longrightarrow> rsv_node sb1 q = rsv_node sb q) \<and> win_end sb1 p - win_start sb1 p < 1073741824 \<and>
      rsv_goal_size (rsv_node sb1 p) = rsv_goal_size (rsv_node sb p)"
  proof (cases "0 \<le> goal \<and> curr < count")
    case True
    have "win_end sb p < 1099511627776 - 1073741824"
      using in_win(1) small(1) G(5,6) by linarith
    then have "win_end sb p + (count - curr) < 1099511627776" using count curr True by linarith
    from try_to_extend_reservation_inv [OF k inv p _ _ this] True False curr
    have e: "rsv_inv sb1" "same_but_rsv sb sb1" "windows sb1 = windows sb" "win_start sb1 p = win_start sb p"
        "win_end sb p \<le> win_end sb1 p" "win_end sb1 p \<le> win_end sb p + (count - curr)"
        "rsv_goal_size (rsv_node sb1 p) = rsv_goal_size (rsv_node sb p)"
        "\<forall>q. q \<noteq> p \<longrightarrow> rsv_node sb1 q = rsv_node sb q"
      by (auto simp: sb1_def)
    have "win_end sb1 p - F \<le> goal + count - 1" using e(6) by (simp add: curr_def)
    moreover have "win_end sb1 p - win_start sb1 p < 1073741824"
      using calculation e(4) small(2) in_win(3) True count0 by linarith
    ultimately show ?thesis using e goal(2) G(6) count by auto
  next
    case False
    then show ?thesis using inv in_win(1) small(1) G(6) by (auto simp: sb1_def)
  qed
  note f1 = same_but_rsvD [of sb sb1]
  have s1: "same_but_rsv sb sb1" "rsv_inv sb1" using ext by auto
  have geo1: "group_geometry sb1 g (b_data sb1 bblk)"
    using geo group_geometry_cong [OF f1(3,4)] s1(1) by (simp add: f1)
  obtain r num bm start e where t:
      "kr_try_to_allocate sb1 g (b_data sb1 bblk) goal count (Some (win_start sb1 p, win_end sb1 p)) = Some (r, num, bm)"
      "alloc_post (b_data sb1 bblk) start e count r num bm" "0 \<le> start" "e \<le> B"
    using allocate_in_window [OF s1(2) geo1, where p = p and goal = goal and count = count and thesis = thesis] pw ext in_win(1,2)
    by (simp add: f1 [OF s1(1)] F_def B_def)
  have ce: "s32 (count - curr) = count - curr" if "0 \<le> goal" "curr < count"
    using curr(3) [OF that(1)] that(2) count by (intro s32_id) auto
  have eq: "allocate_with_rsv k sb g bblk goal p count 0 =
      (let sb2 = sb1\<lparr>b_data := (b_data sb1)(bblk := bm)\<rparr> in
       if 0 \<le> r
       then Some (r, num, upd_rsv p (\<lambda>w. w\<lparr>rsv_alloc_hit := rsv_alloc_hit w + word_of_int num\<rparr>) sb2)
       else allocate_with_rsv k sb2 g bblk goal p count r)"
    unfolding allocate_with_rsv.simps [of k sb g bblk goal p count 0] Let_def F_def [symmetric]
      B_def [symmetric] G(8) curr_def [symmetric]
    using False ext in_win(1,2) t(1) curr ce by (auto simp: sb1_def)
  show ?thesis
  proof (cases "0 \<le> r")
    case True
    have "rsv_alloc_post sb (upd_rsv p (\<lambda>w. w\<lparr>rsv_alloc_hit := rsv_alloc_hit w + word_of_int num\<rparr>)
        (sb1\<lparr>b_data := (b_data sb1)(bblk := bm)\<rparr>)) p bblk B count r num"
      using rsv_alloc_post_trans [OF allocated_in_window_post [OF s1(2) t(2) True t(3,4)] s1(1)] ext gs by simp
    then show ?thesis using True by (simp add: eq Let_def)
  next
    case False
    then have "bm = b_data sb1 bblk" using t(2) by (simp add: alloc_post_def)
    then have again: "allocate_with_rsv k sb g bblk goal p count 0 = allocate_with_rsv k sb1 g bblk goal p count r"
      using False by (simp add: eq)
    have gs1: "goal_size_ok (rsv_goal_size (rsv_node sb1 p))" using gs ext by simp
    have "goal < KR_BLOCKS_PER_GROUP sb1" using goal(2) by (simp add: f1 [OF s1(1)] B_def)
    then obtain r' num' sb' where "allocate_with_rsv k sb1 g bblk goal p count r = Some (r', num', sb')"
        "rsv_alloc_post sb1 sb' p bblk B count r' num'"
      using allocate_with_rsv_fresh [OF k s1(2) p geo1 gs1 count goal(1), of r] False ext
      by (auto simp: f1 [OF s1(1)] B_def window_len_ok_def)
    then show ?thesis using again rsv_alloc_post_trans [OF _ s1(1)] ext by auto
  qed
qed

end
