(* ===== verification/Kr_Balloc.thy ===== *)
theory Kr_Balloc
  imports Kr_Window
begin

text \<open>
  Block allocation and freeing (\<^verbatim>\<open>balloc.c\<close>): \<^verbatim>\<open>kr_free_blocks\<close>, \<^verbatim>\<open>kr_new_blocks\<close> and the
  small predicates around them.

  The state is the super block and the inode the blocks belong to (for quota and
  \<^verbatim>\<open>i_blocks\<close>, which the quota calls of the VFS update). The allocator's invariant
  \<open>fs_ok\<close> says that in every group the descriptor's free count is the number of clear bits
  of the bitmap, and that the bits of the group's own metadata and of blocks past the end
  of the file system are set.
\<close>

section \<open>Model\<close>

definition in_range :: "int \<Rightarrow> int \<Rightarrow> int \<Rightarrow> bool" where
  "in_range b first len = (first \<le> b \<and> b \<le> u64 (first + len - 1))"

text \<open>The test for blocks in a system zone, in \<^verbatim>\<open>kr_free_blocks\<close> and \<^verbatim>\<open>kr_new_blocks\<close>.\<close>

definition in_system_zone :: "super_block \<Rightarrow> kr_group_desc \<Rightarrow> int \<Rightarrow> int \<Rightarrow> bool" where
  "in_system_zone sb desc block count =
     (in_range (uint (bg_block_bitmap desc)) block count \<or>
      in_range (uint (bg_inode_bitmap desc)) block count \<or>
      in_range block (uint (bg_inode_table desc)) (s_itb_per_group (sbi sb)) \<or>
      in_range (u64 (block + count - 1)) (uint (bg_inode_table desc)) (s_itb_per_group (sbi sb)))"

text \<open>
  The loop over the bits of one group: \<open>n\<close> bits are left, the next is \<open>b\<close>. The result is
  \<^verbatim>\<open>group_freed\<close>.
\<close>

fun clear_bits :: "kernel \<Rightarrow> int \<Rightarrow> nat \<Rightarrow> int \<Rightarrow> super_block \<Rightarrow> int \<Rightarrow> (int \<times> super_block) option" where
  "clear_bits k bblk 0 b sb freed = Some (freed, sb)"
| "clear_bits k bblk (Suc n) b sb freed =
     do { (old, bm) \<leftarrow> clear_bit_le b (b_data sb bblk);
          let sb1 = sb\<lparr>b_data := (b_data sb)(bblk := bm)\<rparr>;
          if \<not> old then do { sb2 \<leftarrow> kr_error k sb1; clear_bits k bblk n (b + 1) sb2 freed }
          else clear_bits k bblk n (b + 1) sb1 (u32 (freed + 1)) }"

text \<open>The \<^verbatim>\<open>do_more\<close> loop of \<^verbatim>\<open>kr_free_blocks\<close>, one round per group; the result is \<^verbatim>\<open>freed\<close>.\<close>

function free_groups :: "kernel \<Rightarrow> super_block \<Rightarrow> int \<Rightarrow> int \<Rightarrow> int \<Rightarrow> (int \<times> super_block) option" where
  "free_groups k sb block count0 freed =
     (if KR_BLOCKS_PER_GROUP sb \<le> 0 then None
      else
        let count = u64 count0;
            rel = u64 (block - uint (es_first_data_block (es sb)));
            block_group = rel div KR_BLOCKS_PER_GROUP sb;
            bit = rel mod KR_BLOCKS_PER_GROUP sb;
            overflow = (if KR_BLOCKS_PER_GROUP sb < u64 (bit + count)
                        then u64 (bit + count) - KR_BLOCKS_PER_GROUP sb else 0);
            count1 = count - overflow
        in do {
          (bblk, sb1) \<leftarrow> read_block_bitmap k sb block_group;
          case bblk of None \<Rightarrow> Some (freed, sb1)
          | Some bb \<Rightarrow> do {
              (desc, sb2) \<leftarrow> kr_get_group_desc k sb1 block_group;
              case desc of None \<Rightarrow> Some (freed, sb2)
              | Some d \<Rightarrow>
                  if in_system_zone sb2 d block count1
                  then do { sb3 \<leftarrow> kr_error k sb2; Some (freed, sb3) }
                  else do {
                    (group_freed, sb3) \<leftarrow> clear_bits k bb (nat count1) bit sb2 0;
                    let sb4 = group_adjust_blocks sb3 block_group (s32 group_freed);
                    let freed1 = u32 (freed + group_freed);
                    if overflow \<noteq> 0 then free_groups k sb4 (u64 (block + count1)) overflow freed1
                    else Some (freed1, sb4) } } })"
  by pat_completeness auto
termination
proof (relation "measure (\<lambda>(k, sb, block, count, freed). nat (u64 count))", goal_cases)
  case (2 k sb block count0 freed count rel bg bit overflow count1)
  let ?B = "KR_BLOCKS_PER_GROUP sb"
  have bit: "0 \<le> bit" "bit < ?B" using 2 by simp_all
  have o: "?B < u64 (bit + count)" "overflow = u64 (bit + count) - ?B" using 2 by (auto split: if_splits)
  have count: "count = u64 count0" using 2 by simp
  have "u64 (bit + count) \<le> bit + count"
    using bit(1) count by (simp add: u64_def zmod_le_nonneg_dividend)
  moreover have "u64 (bit + count) < 18446744073709551616" by simp
  ultimately have "overflow < 18446744073709551616" "overflow < count" using bit o by linarith+
  moreover have "0 < overflow" using o by simp
  ultimately show ?case using count by (simp add: u64_id)
qed simp

declare free_groups.simps [simp del]

text \<open>\<^verbatim>\<open>percpu_counter_add\<close> and \<^verbatim>\<open>percpu_counter_sub\<close> on \<^verbatim>\<open>s_freeblocks_counter\<close>.\<close>

definition freeblocks_add :: "int \<Rightarrow> super_block \<Rightarrow> super_block" where
  "freeblocks_add n sb = sb\<lparr>sbi := (sbi sb)\<lparr>s_freeblocks_counter := s_freeblocks_counter (sbi sb) + n\<rparr>\<rparr>"

definition kr_free_blocks ::
  "kernel \<Rightarrow> super_block \<Rightarrow> inode \<Rightarrow> int \<Rightarrow> int \<Rightarrow> (super_block \<times> inode) option" where
  "kr_free_blocks k sb ino block count =
     do { (freed, sb1) \<leftarrow>
            (if block < uint (es_first_data_block (es sb)) \<or> u64 (block + count) < block \<or>
                uint (es_blocks_count (es sb)) < u64 (block + count)
             then do { sb' \<leftarrow> kr_error k sb; Some (0, sb') }
             else free_groups k sb block count 0);
          Some (if freed \<noteq> 0
                then (freeblocks_add freed sb1, k_dquot_free_block k ino freed)
                else (sb1, ino)) }"

definition kr_has_free_blocks :: "kernel \<Rightarrow> super_block \<Rightarrow> bool" where
  "kr_has_free_blocks k sb =
     (let free_blocks = k_percpu_read k (s_freeblocks_counter (sbi sb));
          root_blocks = uint (es_r_blocks_count (es sb))
      in \<not> (free_blocks < root_blocks + 1 \<and> \<not> k_capable k \<and>
            s_resuid (sbi sb) \<noteq> k_fsuid k \<and>
            (s_resgid (sbi sb) = 0 \<or> \<not> k_in_group k (s_resgid (sbi sb)))))"

definition kr_data_block_valid :: "super_block \<Rightarrow> int \<Rightarrow> int \<Rightarrow> bool" where
  "kr_data_block_valid sb start_blk count =
     (if start_blk \<le> uint (es_first_data_block (es sb)) \<or> u64 (start_blk + count) < start_blk \<or>
         uint (es_blocks_count (es sb)) < start_blk
      then False
      else if start_blk \<le> s_sb_block (sbi sb) \<and> s_sb_block (sbi sb) \<le> u64 (start_blk + count)
      then False
      else True)"

text \<open>
  How the search over the groups ends: with \<open>num\<close> blocks from \<open>grp_alloc_blk\<close> of a group,
  at the label \<^verbatim>\<open>io_error\<close>, or with nothing (and \<open>num\<close> as the last attempt left it).
\<close>

datatype group_search = Found (gs_group: int) (gs_block: int) (gs_num: int) | SearchIOError | NotFound int

text \<open>One attempt in group \<open>g\<close>, whose descriptor has been read.\<close>

definition try_group ::
  "kernel \<Rightarrow> super_block \<Rightarrow> int \<Rightarrow> int \<Rightarrow> rsv_ptr option \<Rightarrow> int \<Rightarrow> (group_search \<times> super_block) option"
where
  "try_group k sb g grp_goal my_rsv num =
     do { (bblk, sb1) \<leftarrow> read_block_bitmap k sb g;
          case bblk of None \<Rightarrow> Some (SearchIOError, sb1)
          | Some bb \<Rightarrow> do {
              (r, num1, sb2) \<leftarrow> kr_try_to_allocate_with_rsv k sb1 g bb grp_goal my_rsv num;
              Some (if 0 \<le> r then Found g r num1 else NotFound num1, sb2) } }"

text \<open>The \<^verbatim>\<open>for\<close> loop over the rest of the groups, with \<open>n\<close> rounds left.\<close>

fun rest_groups ::
  "kernel \<Rightarrow> nat \<Rightarrow> super_block \<Rightarrow> int \<Rightarrow> rsv_ptr option \<Rightarrow> int \<Rightarrow> int \<Rightarrow> (group_search \<times> super_block) option"
where
  "rest_groups k 0 sb group_no my_rsv windowsz num = Some (NotFound num, sb)"
| "rest_groups k (Suc n) sb group_no my_rsv windowsz num =
     (let g = (if s_groups_count (sbi sb) \<le> group_no + 1 then 0 else group_no + 1) in do {
        (desc, sb1) \<leftarrow> kr_get_group_desc k sb g;
        case desc of None \<Rightarrow> Some (SearchIOError, sb1)
        | Some d \<Rightarrow>
            let free_blocks = uint (bg_free_blocks_count d) in
            if free_blocks = 0 \<or> my_rsv \<noteq> None \<and> free_blocks \<le> windowsz div 2
            then rest_groups k n sb1 g my_rsv windowsz num
            else do {
              (res, sb2) \<leftarrow> try_group k sb1 g (- 1) my_rsv num;
              case res of NotFound num1 \<Rightarrow> rest_groups k n sb2 g my_rsv windowsz num1
              | _ \<Rightarrow> Some (res, sb2) } })"

text \<open>How \<^verbatim>\<open>kr_new_blocks\<close> ends: at \<^verbatim>\<open>out\<close> with \<^verbatim>\<open>performed_allocation\<close>, or with blocks.\<close>

datatype new_blocks_exit = ExitOut bool errno | ExitAllocated int int

text \<open>The code from \<^verbatim>\<open>retry_alloc\<close> on.\<close>

partial_function (option) retry_alloc ::
  "kernel \<Rightarrow> super_block \<Rightarrow> int \<Rightarrow> int \<Rightarrow> int \<Rightarrow> rsv_ptr option \<Rightarrow> int \<Rightarrow> int \<Rightarrow> (new_blocks_exit \<times> super_block) option"
where
  "retry_alloc k sb goal goal_group group_no my_rsv windowsz num =
     do { (desc, sb1) \<leftarrow> kr_get_group_desc k sb group_no;
          case desc of None \<Rightarrow> Some (ExitOut False EIO, sb1)
          | Some d \<Rightarrow> do {
              let free_blocks = uint (bg_free_blocks_count d);
              let my_rsv1 = (case my_rsv of None \<Rightarrow> None
                 | Some p \<Rightarrow> if free_blocks < windowsz \<and> 0 < free_blocks \<and> rsv_is_empty sb1 p
                            then None else Some p);
              (res1, sb2) \<leftarrow>
                (if 0 < free_blocks
                 then try_group k sb1 group_no
                        ((goal - uint (es_first_data_block (es sb1))) mod KR_BLOCKS_PER_GROUP sb1) my_rsv1 num
                 else Some (NotFound num, sb1));
              (res2, sb3) \<leftarrow>
                (case res1 of
                   NotFound num1 \<Rightarrow>
                     rest_groups k (nat (s_groups_count (sbi sb2))) sb2 group_no my_rsv1 windowsz num1
                 | _ \<Rightarrow> Some (res1, sb2));
              case res2 of
                SearchIOError \<Rightarrow> Some (ExitOut False EIO, sb3)
              | NotFound num2 \<Rightarrow>
                  if my_rsv1 \<noteq> None then retry_alloc k sb3 goal goal_group goal_group None 0 num2
                  else Some (ExitOut False ENOSPC, sb3)
              | Found g blk num2 \<Rightarrow>
                  let ret_block = u64 (blk + kr_group_first_block_no sb3 g) in
                  if in_system_zone sb3 (gdesc sb3 g) ret_block num2 then do {
                    sb4 \<leftarrow> kr_error k sb3;
                    retry_alloc k sb4 goal goal_group g my_rsv1 windowsz num2 }
                  else if uint (es_blocks_count (es sb3)) \<le> u64 (ret_block + num2 - 1) then do {
                    sb4 \<leftarrow> kr_error k sb3;
                    Some (ExitOut True ENOSPC, sb4) }
                  else
                    let sb4 = group_adjust_blocks sb3 g (s32 (- num2)) in
                    Some (ExitAllocated ret_block num2, freeblocks_add (- num2) sb4) } }"

text \<open>The result is \<^verbatim>\<open>*errp\<close>, or the first block and the new \<^verbatim>\<open>*count\<close>.\<close>

definition kr_new_blocks ::
  "kernel \<Rightarrow> super_block \<Rightarrow> inode \<Rightarrow> int \<Rightarrow> int \<Rightarrow> ((errno + int \<times> int) \<times> super_block \<times> inode) option"
where
  "kr_new_blocks k sb ino goal0 count =
     (case k_dquot_alloc_block k ino count of
        (Some e, ino1) \<Rightarrow> Some (Inl e, sb, ino1)
      | (None, ino1) \<Rightarrow>
          let windowsz = (case i_block_alloc_info ino of None \<Rightarrow> 0
                 | Some _ \<Rightarrow> u16 (uint (rsv_goal_size (rsv_node sb (rsv_of ino)))));
              my_rsv = (if 0 < windowsz then Some (rsv_of ino) else None);
              first = uint (es_first_data_block (es sb));
              goal = (if goal0 < first \<or> uint (es_blocks_count (es sb)) \<le> goal0 then first else goal0);
              group_no = s32 ((goal - first) div KR_BLOCKS_PER_GROUP sb)
          in do {
            (ex, sb1) \<leftarrow>
              (if \<not> kr_has_free_blocks k sb then Some (ExitOut False ENOSPC, sb)
               else if KR_BLOCKS_PER_GROUP sb \<le> 0 then None
               else retry_alloc k sb goal group_no group_no my_rsv windowsz count);
            Some (case ex of
                ExitOut performed e \<Rightarrow>
                  (Inl e, sb1, if performed then ino1 else k_dquot_free_block k ino1 count)
              | ExitAllocated b num \<Rightarrow>
                  (Inr (b, if num < count then num else count), sb1,
                   if num < count then k_dquot_free_block k ino1 (count - num) else ino1)) })"

definition kr_new_block ::
  "kernel \<Rightarrow> super_block \<Rightarrow> inode \<Rightarrow> int \<Rightarrow> ((errno + int \<times> int) \<times> super_block \<times> inode) option" where
  "kr_new_block k sb ino goal = kr_new_blocks k sb ino goal 1"

section \<open>Model: super block backups\<close>

text \<open>
  The loop of \<^verbatim>\<open>test_root\<close>. \<^verbatim>\<open>num\<close> is an \<^verbatim>\<open>int\<close>: its overflow is undefined in C and wraps
  here, so the loop may run forever.
\<close>

partial_function (option) test_root_loop :: "int \<Rightarrow> int \<Rightarrow> int \<Rightarrow> bool option" where
  "test_root_loop a b num =
     (if num < a then test_root_loop a b (s32 (num * b)) else Some (num = a))"

definition test_root :: "int \<Rightarrow> int \<Rightarrow> bool option" where
  "test_root a b = test_root_loop a b b"

definition kr_group_sparse :: "int \<Rightarrow> bool option" where
  "kr_group_sparse g =
     (if g \<le> 1 then Some True
      else do { a \<leftarrow> test_root g 3;
                if a then Some True else do {
                  b \<leftarrow> test_root g 5;
                  if b then Some True else test_root g 7 } })"

definition kr_bg_has_super :: "super_block \<Rightarrow> int \<Rightarrow> int option" where
  "kr_bg_has_super sb g =
     (if KR_HAS_RO_COMPAT_FEATURE sb KR_FEATURE_RO_COMPAT_SPARSE_SUPER
      then do { s \<leftarrow> kr_group_sparse g; Some (if s then 1 else 0) }
      else Some 1)"

definition kr_bg_num_gdb :: "super_block \<Rightarrow> int \<Rightarrow> int option" where
  "kr_bg_num_gdb sb g = do { s \<leftarrow> kr_bg_has_super sb g; Some (if s \<noteq> 0 then s_gdb_count (sbi sb) else 0) }"

declare retry_alloc.simps [code] test_root_loop.simps [code]

section \<open>The invariant of the block allocator\<close>

abbreviation group_bitmap :: "super_block \<Rightarrow> int \<Rightarrow> bitmap" where
  "group_bitmap sb g \<equiv> b_data sb (uint (bg_block_bitmap (gdesc sb g)))"

definition metadata_block :: "super_block \<Rightarrow> int \<Rightarrow> int \<Rightarrow> bool" where
  "metadata_block sb g b =
     (let d = gdesc sb g in
      b = uint (bg_block_bitmap d) \<or> b = uint (bg_inode_bitmap d) \<or>
      uint (bg_inode_table d) \<le> b \<and> b < uint (bg_inode_table d) + s_itb_per_group (sbi sb))"

text \<open>
  A group is in order: its metadata lies in the group, its bitmap marks the metadata and the
  blocks past the end of the file system as used, and the descriptor counts the free bits.
\<close>

definition group_ok :: "super_block \<Rightarrow> int \<Rightarrow> bool" where
  "group_ok sb g =
     (let d = gdesc sb g; F = kr_group_first_block_no sb g; B = KR_BLOCKS_PER_GROUP sb;
          bm = group_bitmap sb g
      in group_geometry sb g bm \<and>
         F \<le> uint (bg_block_bitmap d) \<and> uint (bg_block_bitmap d) < F + B \<and>
         F \<le> uint (bg_inode_bitmap d) \<and> uint (bg_inode_bitmap d) < F + B \<and>
         F \<le> uint (bg_inode_table d) \<and> uint (bg_inode_table d) + s_itb_per_group (sbi sb) \<le> F + B \<and>
         (\<forall>i < nat B. metadata_block sb g (F + int i) \<or> uint (es_blocks_count (es sb)) \<le> F + int i \<longrightarrow> bm ! i) \<and>
         uint (bg_free_blocks_count d) = int (zero_bits bm (nat B)))"

definition fs_ok :: "super_block \<Rightarrow> bool" where
  "fs_ok sb =
     (gd_ok sb \<and> 1 \<le> s_itb_per_group (sbi sb) \<and> 0 < KR_BLOCKS_PER_GROUP sb \<and> KR_BLOCKS_PER_GROUP sb < 65536 \<and>
      uint (es_first_data_block (es sb)) < uint (es_blocks_count (es sb)) \<and>
      uint (es_blocks_count (es sb)) \<le>
        uint (es_first_data_block (es sb)) + s_groups_count (sbi sb) * KR_BLOCKS_PER_GROUP sb \<and>
      (\<forall>g \<in> {0..<s_groups_count (sbi sb)}. group_ok sb g))"

text \<open>No disk errors and enough memory for buffers.\<close>

definition io_ok :: "kernel \<Rightarrow> bool" where
  "io_ok k = (\<forall>b. k_getblk k b \<and> (k_uptodate k b \<or> k_bread k b))"

text \<open>The bit of a block, and the free blocks of the file system.\<close>

definition group_of :: "super_block \<Rightarrow> int \<Rightarrow> int" where
  "group_of sb b = (b - uint (es_first_data_block (es sb))) div KR_BLOCKS_PER_GROUP sb"

definition bit_of :: "super_block \<Rightarrow> int \<Rightarrow> nat" where
  "bit_of sb b = nat ((b - uint (es_first_data_block (es sb))) mod KR_BLOCKS_PER_GROUP sb)"

definition block_used :: "super_block \<Rightarrow> int \<Rightarrow> bool" where
  "block_used sb b = group_bitmap sb (group_of sb b) ! bit_of sb b"

definition free_set :: "super_block \<Rightarrow> int set" where
  "free_set sb = {b. uint (es_first_data_block (es sb)) \<le> b \<and> b < uint (es_blocks_count (es sb)) \<and> \<not> block_used sb b}"

lemma group_first_block:
  assumes "fs_ok sb" "0 \<le> g" "g \<le> s_groups_count (sbi sb)"
  shows "kr_group_first_block_no sb g = g * KR_BLOCKS_PER_GROUP sb + uint (es_first_data_block (es sb))"
proof -
  have "g * KR_BLOCKS_PER_GROUP sb \<le> 2147483648 * 65536"
    using assms by (intro mult_mono) (auto simp: fs_ok_def gd_ok_def)
  moreover have "uint (es_first_data_block (es sb)) < 4294967296" by simp
  moreover have "0 \<le> g * KR_BLOCKS_PER_GROUP sb" using assms by (simp add: fs_ok_def)
  ultimately show ?thesis
    unfolding kr_group_first_block_no_def by (intro u64_id) (use uint_ge_0 in \<open>smt (verit)\<close>)+
qed

lemma group_okD:
  assumes "fs_ok sb" "0 \<le> g" "g < s_groups_count (sbi sb)"
  defines "d \<equiv> gdesc sb g" and "F \<equiv> kr_group_first_block_no sb g" and "B \<equiv> KR_BLOCKS_PER_GROUP sb"
    and "bm \<equiv> group_bitmap sb g"
  shows "group_geometry sb g bm" "F \<le> uint (bg_block_bitmap d)" "uint (bg_block_bitmap d) < F + B"
    "F \<le> uint (bg_inode_bitmap d)" "uint (bg_inode_bitmap d) < F + B"
    "F \<le> uint (bg_inode_table d)" "uint (bg_inode_table d) + s_itb_per_group (sbi sb) \<le> F + B"
    "\<And>i. int i < B \<Longrightarrow> metadata_block sb g (F + int i) \<or> uint (es_blocks_count (es sb)) \<le> F + int i \<Longrightarrow> bm ! i"
    "uint (bg_free_blocks_count d) = int (zero_bits bm (nat B))"
proof -
  have "group_ok sb g" using assms(1-3) by (simp add: fs_ok_def)
  then show "group_geometry sb g bm" "F \<le> uint (bg_block_bitmap d)" "uint (bg_block_bitmap d) < F + B"
    "F \<le> uint (bg_inode_bitmap d)" "uint (bg_inode_bitmap d) < F + B"
    "F \<le> uint (bg_inode_table d)" "uint (bg_inode_table d) + s_itb_per_group (sbi sb) \<le> F + B"
    "uint (bg_free_blocks_count d) = int (zero_bits bm (nat B))"
    "\<And>i. int i < B \<Longrightarrow> metadata_block sb g (F + int i) \<or> uint (es_blocks_count (es sb)) \<le> F + int i \<Longrightarrow> bm ! i"
    unfolding group_ok_def Let_def d_def F_def B_def bm_def by auto
qed

lemma metadata_marked:
  assumes "fs_ok sb" "0 \<le> g" "g < s_groups_count (sbi sb)" "metadata_block sb g b"
  shows "group_bitmap sb g ! nat (b - kr_group_first_block_no sb g)"
proof -
  note d = group_okD [OF assms(1-3)]
  let ?F = "kr_group_first_block_no sb g"
  have "?F \<le> b" "b < ?F + KR_BLOCKS_PER_GROUP sb"
    using assms(4) d(2-7) by (auto simp: metadata_block_def Let_def)
  then show ?thesis using d(8) [of "nat (b - ?F)"] assms(4) by simp
qed

text \<open>A bitmap that is in order passes the check on reading it.\<close>

lemma kr_valid_block_bitmap_ok:
  assumes ok: "fs_ok sb" "0 \<le> g" "g < s_groups_count (sbi sb)"
  shows "kr_valid_block_bitmap k sb (gdesc sb g) g (group_bitmap sb g) = Some (True, sb)"
proof -
  let ?d = "gdesc sb g" and ?F = "kr_group_first_block_no sb g" and ?B = "KR_BLOCKS_PER_GROUP sb"
  let ?bm = "group_bitmap sb g" and ?itb = "s_itb_per_group (sbi sb)"
  note d = group_okD [OF ok]
  note G = group_geometryD [OF d(1)]
  have itb: "1 \<le> ?itb" using ok(1) by (simp add: fs_ok_def)
  have off: "s32 (u64 (uint b - ?F)) = uint b - ?F" if "?F \<le> uint b" "uint b < ?F + ?B" for b :: "32 word"
  proof -
    have "u64 (uint b - ?F) = uint b - ?F" using that G(6) by (intro u64_id) auto
    then show ?thesis using that G(6) by (simp add: s32_id)
  qed
  have bit: "test_bit_le (uint b - ?F) ?bm = Some True"
    if "?F \<le> uint b" "uint b < ?F + ?B" "metadata_block sb g (uint b)" for b :: "32 word"
    using that G(3) metadata_marked [OF ok that(3)] by (simp add: test_bit_le_def)
  let ?o = "uint (bg_inode_table ?d) - ?F"
  have o: "0 \<le> ?o" "?o + ?itb \<le> ?B" using d(6,7) by auto
  obtain r where r: "find_next_zero_bit_le ?bm (?o + ?itb) ?o = Some r" "?o \<le> r" "r \<le> ?o + ?itb"
      "r < ?o + ?itb \<Longrightarrow> \<not> ?bm ! nat r"
    by (rule find_next_zero_bit_le_spec [of ?o "?o + ?itb" ?bm]) ((use o itb G(3,6) in linarith)+, blast)
  have "?bm ! nat r" if "r < ?o + ?itb"
  proof -
    have "metadata_block sb g (?F + r)" using that r(2) by (simp add: metadata_block_def Let_def)
    then show ?thesis using metadata_marked [OF ok] by fastforce
  qed
  then have fin: "r = ?o + ?itb" using r(3,4) by fastforce
  have u: "u64 (?o + ?itb) = ?o + ?itb" "s32 (?o + ?itb) = ?o + ?itb" using o itb G(6) by (auto intro!: u64_id s32_id)
  have t: "uint (bg_inode_table ?d) < ?F + ?B" using d(7) itb by simp
  show ?thesis
    unfolding kr_valid_block_bitmap_def Let_def off [OF d(2,3)] off [OF d(4,5)] off [OF d(6) t] u(1)
    using bit [OF d(2,3)] bit [OF d(4,5)] r(1) fin u by (simp add: metadata_block_def Let_def)
qed

lemma read_block_bitmap_ok:
  assumes "io_ok k" "fs_ok sb" "0 \<le> g" "g < s_groups_count (sbi sb)"
  shows "read_block_bitmap k sb g = Some (Some (uint (bg_block_bitmap (gdesc sb g))), sb)"
proof -
  have gd: "gd_ok sb" using assms(2) by (simp add: fs_ok_def)
  have "u32 g = g" using assms(3,4) gd by (simp add: gd_ok_def u32_id)
  then show ?thesis
    using assms kr_valid_block_bitmap_ok [OF assms(2-4), of k] get_group_desc_loaded [OF gd assms(3,4)]
    by (auto simp: read_block_bitmap_def io_ok_def Let_def)
qed

section \<open>Changing one group\<close>

text \<open>The effect of an operation on group \<open>g\<close>: a new bitmap and a new free count.\<close>

definition update_group :: "super_block \<Rightarrow> int \<Rightarrow> bitmap \<Rightarrow> 16 word \<Rightarrow> super_block" where
  "update_group sb g bm cnt =
     set_gdesc g ((gdesc sb g)\<lparr>bg_free_blocks_count := cnt\<rparr>)
       (sb\<lparr>b_data := (b_data sb)(uint (bg_block_bitmap (gdesc sb g)) := bm)\<rparr>)"

lemma gdesc_b_data [simp]: "gdesc (sb\<lparr>b_data := f\<rparr>) = gdesc sb"
  by (simp add: gdesc_def desc_block_def desc_offset_def fun_eq_iff)

lemma gd_ok_b_data [simp]: "gd_ok (sb\<lparr>b_data := f\<rparr>) = gd_ok sb"
  by (simp add: gd_ok_def desc_loaded_def desc_block_def desc_offset_def cong: option.case_cong)

lemma update_group_frame [simp, kr_frame]:
  "sbi (update_group sb g bm cnt) = sbi sb" "es (update_group sb g bm cnt) = es sb"
  "s_flags (update_group sb g bm cnt) = s_flags sb"
  "kr_group_first_block_no (update_group sb g bm cnt) = kr_group_first_block_no sb"
  "rsv_node (update_group sb g bm cnt) = rsv_node sb"
  "s_rsv_window_root (update_group sb g bm cnt) = s_rsv_window_root sb"
  "group_of (update_group sb g bm cnt) = group_of sb" "bit_of (update_group sb g bm cnt) = bit_of sb"
  "gd_ok (update_group sb g bm cnt) = gd_ok sb"
  "b_data (update_group sb g bm cnt) = (b_data sb)(uint (bg_block_bitmap (gdesc sb g)) := bm)"
  by (simp_all add: update_group_def kr_group_first_block_no_def group_of_def bit_of_def fun_eq_iff)

lemma same_files_update_group [simp]: "same_files sb (update_group sb g bm cnt)"
  by (simp add: same_files_def update_group_def set_gdesc_def)

lemma bitmap_blocks_distinct:
  assumes "fs_ok sb" "0 \<le> g" "g < s_groups_count (sbi sb)" "0 \<le> h" "h < s_groups_count (sbi sb)" "h \<noteq> g"
  shows "uint (bg_block_bitmap (gdesc sb h)) \<noteq> uint (bg_block_bitmap (gdesc sb g))"
proof -
  let ?B = "KR_BLOCKS_PER_GROUP sb"
  note dg = group_okD(2,3) [OF assms(1-3)] and dh = group_okD(2,3) [OF assms(1,4,5)]
  have F: "kr_group_first_block_no sb g = g * ?B + uint (es_first_data_block (es sb))"
    "kr_group_first_block_no sb h = h * ?B + uint (es_first_data_block (es sb))"
    using assms by (auto intro: group_first_block)
  have "g * ?B + ?B \<le> h * ?B \<or> h * ?B + ?B \<le> g * ?B"
  proof (cases "g < h")
    case True
    then have "(g + 1) * ?B \<le> h * ?B" using assms(1) by (intro mult_right_mono) (auto simp: fs_ok_def)
    then show ?thesis by (simp add: algebra_simps)
  next
    case False
    then have "(h + 1) * ?B \<le> g * ?B" using assms(1,6) by (intro mult_right_mono) (auto simp: fs_ok_def)
    then show ?thesis by (simp add: algebra_simps)
  qed
  then show ?thesis using dg dh F by auto
qed

lemma update_group_desc:
  assumes "fs_ok sb" "0 \<le> g" "g < s_groups_count (sbi sb)" "0 \<le> h" "h < s_groups_count (sbi sb)"
  shows "gdesc (update_group sb g bm cnt) h =
      (if h = g then (gdesc sb g)\<lparr>bg_free_blocks_count := cnt\<rparr> else gdesc sb h)"
    "group_bitmap (update_group sb g bm cnt) h = (if h = g then bm else group_bitmap sb h)"
proof -
  have gd: "gd_ok (sb\<lparr>b_data := (b_data sb)(uint (bg_block_bitmap (gdesc sb g)) := bm)\<rparr>)"
    using assms(1) by (simp add: fs_ok_def)
  show d: "gdesc (update_group sb g bm cnt) h =
      (if h = g then (gdesc sb g)\<lparr>bg_free_blocks_count := cnt\<rparr> else gdesc sb h)"
    using gdesc_set_gdesc [OF gd assms(2) _ assms(4)] assms(3,5) by (simp add: update_group_def)
  show "group_bitmap (update_group sb g bm cnt) h = (if h = g then bm else group_bitmap sb h)"
    unfolding d using bitmap_blocks_distinct [OF assms] by (simp add: update_group_def)
qed

lemma metadata_block_update:
  assumes "fs_ok sb" "0 \<le> g" "g < s_groups_count (sbi sb)" "0 \<le> h" "h < s_groups_count (sbi sb)"
  shows "metadata_block (update_group sb g bm cnt) h = metadata_block sb h"
  using update_group_desc(1) [OF assms] by (simp add: metadata_block_def fun_eq_iff Let_def)

lemma fs_ok_update_group:
  assumes ok: "fs_ok sb" "0 \<le> g" "g < s_groups_count (sbi sb)"
    and len: "length bm = length (group_bitmap sb g)"
    and used: "\<And>i. int i < KR_BLOCKS_PER_GROUP sb \<Longrightarrow>
      metadata_block sb g (kr_group_first_block_no sb g + int i) \<or>
      uint (es_blocks_count (es sb)) \<le> kr_group_first_block_no sb g + int i \<Longrightarrow> bm ! i"
    and cnt: "uint cnt = int (zero_bits bm (nat (KR_BLOCKS_PER_GROUP sb)))"
  shows "fs_ok (update_group sb g bm cnt)"
proof -
  let ?sb = "update_group sb g bm cnt"
  have "group_ok ?sb h" if h: "0 \<le> h" "h < s_groups_count (sbi sb)" for h
  proof (cases "h = g")
    case True
    note d = group_okD [OF ok]
    note u = update_group_desc [OF ok ok(2,3), of bm cnt]
    have "group_geometry ?sb g bm"
      using d(1) len by (simp add: group_geometry_def bitmap_buffer_def)
    then show ?thesis
      unfolding group_ok_def Let_def True u metadata_block_update [OF ok ok(2,3)]
      using d(2-7) used cnt by simp
  next
    case False
    note u = update_group_desc [OF ok h, of bm cnt]
    have "group_ok sb h" using ok(1) h by (simp add: fs_ok_def)
    then show ?thesis
      unfolding group_ok_def Let_def u if_not_P [OF False] metadata_block_update [OF ok h]
      using bitmap_blocks_distinct [OF ok h False] by (simp add: group_geometry_def)
  qed
  then show ?thesis using ok(1) by (simp add: fs_ok_def)
qed

text \<open>The abstraction: the free blocks after a run of bits of group \<open>g\<close> has changed.\<close>

lemma group_of_range:
  assumes "fs_ok sb" "uint (es_first_data_block (es sb)) \<le> b" "b < uint (es_blocks_count (es sb))"
  shows "0 \<le> group_of sb b" "group_of sb b < s_groups_count (sbi sb)" "int (bit_of sb b) < KR_BLOCKS_PER_GROUP sb"
    "b = kr_group_first_block_no sb (group_of sb b) + int (bit_of sb b)"
proof -
  let ?f = "uint (es_first_data_block (es sb))" and ?B = "KR_BLOCKS_PER_GROUP sb"
  have B: "0 < ?B" using assms(1) by (simp add: fs_ok_def)
  show g0: "0 \<le> group_of sb b" using assms(2) B by (simp add: group_of_def pos_imp_zdiv_nonneg_iff)
  have "b - ?f < s_groups_count (sbi sb) * ?B" using assms(1,3) by (simp add: fs_ok_def)
  moreover have "group_of sb b * ?B \<le> b - ?f"
    using B by (simp add: group_of_def minus_mod_eq_div_mult [symmetric])
  ultimately have "group_of sb b * ?B < s_groups_count (sbi sb) * ?B" by linarith
  then show g1: "group_of sb b < s_groups_count (sbi sb)" using B by simp
  show "int (bit_of sb b) < ?B" using B by (simp add: bit_of_def)
  show "b = kr_group_first_block_no sb (group_of sb b) + int (bit_of sb b)"
    using group_first_block [OF assms(1) g0] g1 B by (simp add: group_of_def bit_of_def)
qed

lemma group_of_eq:
  assumes "fs_ok sb" "0 \<le> g" "g < s_groups_count (sbi sb)" "int i < KR_BLOCKS_PER_GROUP sb"
  shows "group_of sb (kr_group_first_block_no sb g + int i) = g" "bit_of sb (kr_group_first_block_no sb g + int i) = i"
  using assms group_first_block [OF assms(1,2)]
  by (simp_all add: group_of_def bit_of_def fs_ok_def)

lemma free_set_update:
  assumes ok: "fs_ok sb" "0 \<le> g" "g < s_groups_count (sbi sb)"
    and run: "int a + int n \<le> KR_BLOCKS_PER_GROUP sb"
      "kr_group_first_block_no sb g + int a + int n \<le> uint (es_blocks_count (es sb))"
  defines "run \<equiv> {kr_group_first_block_no sb g + int a ..< kr_group_first_block_no sb g + int a + int n}"
  shows "free_set (update_group sb g (mark_range v a n (group_bitmap sb g)) cnt) =
     (if v then free_set sb - run else free_set sb \<union> run)"
proof -
  let ?F = "kr_group_first_block_no sb g" and ?sb = "update_group sb g (mark_range v a n (group_bitmap sb g)) cnt"
  let ?f = "uint (es_first_data_block (es sb))" and ?n = "uint (es_blocks_count (es sb))"
  have len: "KR_BLOCKS_PER_GROUP sb \<le> int (length (group_bitmap sb g))"
    using group_geometryD(3) [OF group_okD(1) [OF ok]] .
  have used: "block_used ?sb b = (if b \<in> run then v else block_used sb b)" if b: "?f \<le> b" "b < ?n" for b
  proof -
    note r = group_of_range [OF ok(1) b]
    have "b \<in> run \<longleftrightarrow> group_of sb b = g \<and> a \<le> bit_of sb b \<and> bit_of sb b < a + n"
    proof
      assume in_run: "b \<in> run"
      define i where "i = nat (b - ?F)"
      have i: "b = ?F + int i" "a \<le> i" "i < a + n" using in_run by (auto simp: run_def i_def)
      then show "group_of sb b = g \<and> a \<le> bit_of sb b \<and> bit_of sb b < a + n"
        using group_of_eq [OF ok, of i] run by auto
    next
      assume "group_of sb b = g \<and> a \<le> bit_of sb b \<and> bit_of sb b < a + n"
      then show "b \<in> run" using r(4) by (auto simp: run_def)
    qed
    moreover have "bit_of sb b < length (group_bitmap sb g)" using r(3) len by simp
    ultimately show ?thesis
      using update_group_desc(2) [OF ok r(1,2), of "mark_range v a n (group_bitmap sb g)" cnt]
      by (auto simp: block_used_def)
  qed
  have "run \<subseteq> {?f..<?n}"
    using run group_first_block [OF ok(1,2)] ok by (auto simp: run_def fs_ok_def)
  then show ?thesis using used by (auto simp: free_set_def split: if_splits)
qed

section \<open>Freeing\<close>

lemma word16_of_u32: "0 \<le> x \<Longrightarrow> x < 65536 \<Longrightarrow> uint (word_of_int (u32 x) :: 16 word) = x"
  by (simp only: u32_id uint_word16)

lemma clear_bits_set:
  assumes "0 \<le> b" "nat b + n \<le> length (b_data sb bb)" "0 \<le> freed" "freed + int n < 4294967296"
    and "\<And>i. nat b \<le> i \<Longrightarrow> i < nat b + n \<Longrightarrow> b_data sb bb ! i"
  shows "clear_bits k bb n b sb freed =
     Some (freed + int n, sb\<lparr>b_data := (b_data sb)(bb := mark_range False (nat b) n (b_data sb bb))\<rparr>)"
  using assms
proof (induction n arbitrary: b sb freed)
  case 0
  then show ?case by simp
next
  case (Suc n)
  let ?bm = "b_data sb bb"
  let ?sb = "sb\<lparr>b_data := (b_data sb)(bb := ?bm[nat b := False])\<rparr>"
  have c: "clear_bit_le b ?bm = Some (True, ?bm[nat b := False])"
    using Suc.prems(1,2) Suc.prems(5) [of "nat b"] by (simp add: clear_bit_le_def)
  have n1: "nat (b + 1) = Suc (nat b)" using Suc.prems(1) by simp
  have u: "u32 (freed + 1) = freed + 1" using Suc.prems(3,4) by (simp add: u32_id)
  have "clear_bits k bb n (b + 1) ?sb (freed + 1) = Some (freed + 1 + int n,
      ?sb\<lparr>b_data := (b_data ?sb)(bb := mark_range False (nat (b + 1)) n (b_data ?sb bb))\<rparr>)"
    using Suc.prems by (intro Suc.IH) (auto simp: n1)
  then have "clear_bits k bb n (b + 1) ?sb (freed + 1) = Some (freed + int (Suc n),
      sb\<lparr>b_data := (b_data sb)(bb := mark_range False (nat b) (Suc n) ?bm)\<rparr>)"
    by (simp add: n1 mark_range_Suc)
  then show ?case using c u by (simp add: fun_upd_def)
qed

text \<open>A range of blocks that may be freed: in the data zone, in use, and no metadata.\<close>

definition freeable :: "super_block \<Rightarrow> int \<Rightarrow> int \<Rightarrow> bool" where
  "freeable sb block count =
     (uint (es_first_data_block (es sb)) \<le> block \<and> 0 < count \<and>
      block + count \<le> uint (es_blocks_count (es sb)) \<and>
      (\<forall>b \<in> {block..<block + count}. block_used sb b \<and> \<not> metadata_block sb (group_of sb b) b))"

text \<open>The blocks in use that hold data: what the files own.\<close>

definition data_set :: "super_block \<Rightarrow> int set" where
  "data_set sb =
     {b. uint (es_first_data_block (es sb)) \<le> b \<and> b < uint (es_blocks_count (es sb)) \<and> block_used sb b \<and>
         \<not> metadata_block sb (group_of sb b) b}"

lemma freeable_iff: "freeable sb block count \<longleftrightarrow> 0 < count \<and> {block..<block + count} \<subseteq> data_set sb"
proof
  assume "0 < count \<and> {block..<block + count} \<subseteq> data_set sb"
  moreover from this have "block \<in> data_set sb" "block + count - 1 \<in> data_set sb" by auto
  ultimately show "freeable sb block count" by (auto simp: freeable_def data_set_def)
qed (auto simp: freeable_def data_set_def)

lemma data_set_update:
  assumes ok: "fs_ok sb" "0 \<le> g" "g < s_groups_count (sbi sb)"
    and fs: "free_set (update_group sb g bm cnt) = free_set sb \<union> R"
  shows "data_set (update_group sb g bm cnt) = data_set sb - R"
proof -
  let ?sb = "update_group sb g bm cnt" and ?f = "uint (es_first_data_block (es sb))" and ?n = "uint (es_blocks_count (es sb))"
  have "b \<in> data_set ?sb \<longleftrightarrow> b \<in> data_set sb - R" for b
  proof (cases "?f \<le> b \<and> b < ?n")
    case True
    then have "block_used ?sb b \<longleftrightarrow> b \<notin> free_set ?sb" "block_used sb b \<longleftrightarrow> b \<notin> free_set sb"
      by (auto simp: free_set_def)
    moreover have "metadata_block ?sb (group_of sb b) b = metadata_block sb (group_of sb b) b"
      using metadata_block_update [OF ok group_of_range(1,2) [OF ok(1)]] True by auto
    ultimately show ?thesis using fs by (auto simp: data_set_def)
  qed (auto simp: data_set_def)
  then show ?thesis by blast
qed

lemma not_in_system_zone:
  assumes ok: "fs_ok sb" "0 \<le> g" "g < s_groups_count (sbi sb)"
    and run: "0 \<le> block" "0 < count" "block + count < 18446744073709551616"
    and "\<And>b. block \<le> b \<Longrightarrow> b < block + count \<Longrightarrow> \<not> metadata_block sb g b"
  shows "\<not> in_system_zone sb (gdesc sb g) block count"
proof -
  let ?d = "gdesc sb g" and ?itb = "s_itb_per_group (sbi sb)"
  have itb: "1 \<le> ?itb" using ok(1) by (simp add: fs_ok_def)
  have "uint (bg_inode_table ?d) + ?itb \<le> kr_group_first_block_no sb g + KR_BLOCKS_PER_GROUP sb"
    using group_okD(7) [OF ok] .
  then have "u64 (uint (bg_inode_table ?d) + ?itb - 1) = uint (bg_inode_table ?d) + ?itb - 1"
    using itb group_geometryD(5,6) [OF group_okD(1) [OF ok]] by (intro u64_id) (use uint_ge_0 in \<open>smt (verit)\<close>)+
  moreover have "u64 (block + count - 1) = block + count - 1" using run by (simp add: u64_id)
  ultimately show ?thesis
    using assms(7) [of "uint (bg_block_bitmap ?d)"] assms(7) [of "uint (bg_inode_bitmap ?d)"]
      assms(7) [of block] assms(7) [of "block + count - 1"] run(2)
    by (auto simp: in_system_zone_def in_range_def metadata_block_def Let_def)
qed

text \<open>One round of the loop: \<open>n\<close> used bits from bit \<open>a\<close> of group \<open>g\<close> are freed.\<close>

lemma group_adjust_update:
  assumes "gd_ok sb" "c \<noteq> 0"
  shows "group_adjust_blocks (sb\<lparr>b_data := (b_data sb)(uint (bg_block_bitmap (gdesc sb g)) := bm)\<rparr>) g c =
     update_group sb g bm (word_of_int (u32 (uint (bg_free_blocks_count (gdesc sb g)) + c)))"
  using assms(2) by (simp add: group_adjust_blocks_def update_group_def Let_def)

lemma free_run_ok:
  assumes ok: "fs_ok sb" "0 \<le> g" "g < s_groups_count (sbi sb)"
    and run: "0 < n" "int a + int n \<le> KR_BLOCKS_PER_GROUP sb"
      "kr_group_first_block_no sb g + int a + int n \<le> uint (es_blocks_count (es sb))"
    and used: "\<And>i. a \<le> i \<Longrightarrow> i < a + n \<Longrightarrow> group_bitmap sb g ! i"
    and data: "\<And>i. a \<le> i \<Longrightarrow> i < a + n \<Longrightarrow> \<not> metadata_block sb g (kr_group_first_block_no sb g + int i)"
  defines "bm \<equiv> mark_range False a n (group_bitmap sb g)"
  defines "cnt \<equiv> word_of_int (u32 (uint (bg_free_blocks_count (gdesc sb g)) + int n)) :: 16 word"
  shows "fs_ok (update_group sb g bm cnt)"
proof (rule fs_ok_update_group [OF ok])
  let ?B = "nat (KR_BLOCKS_PER_GROUP sb)"
  note d = group_okD [OF ok]
  have len: "?B \<le> length (group_bitmap sb g)" using group_geometryD(3) [OF d(1)] by simp
  show "length bm = length (group_bitmap sb g)" by (simp add: bm_def)
  have z: "zero_bits bm ?B = zero_bits (group_bitmap sb g) ?B + n"
    unfolding bm_def using run(2) len used by (intro zero_bits_mark_clear) auto
  have "zero_bits bm ?B \<le> ?B" by (rule zero_bits_le)
  moreover have "KR_BLOCKS_PER_GROUP sb < 65536" using ok(1) by (simp add: fs_ok_def)
  then have "?B < 65536" by simp
  ultimately have "int (zero_bits (group_bitmap sb g) ?B) + int n < 65536" using z by linarith
  then show "uint cnt = int (zero_bits bm ?B)"
    unfolding cnt_def d(9) z using word16_of_u32 [of "int (zero_bits (group_bitmap sb g) ?B) + int n"] by simp
  show "bm ! i" if "int i < KR_BLOCKS_PER_GROUP sb"
      "metadata_block sb g (kr_group_first_block_no sb g + int i) \<or>
       uint (es_blocks_count (es sb)) \<le> kr_group_first_block_no sb g + int i" for i
    using d(8) [OF that] data [of i] that run len by (auto simp: bm_def)
qed

text \<open>
  A state that differs from another in the block bitmaps and free-block counts of some groups: the
  effect of freeing blocks, one group at a time.
\<close>

inductive blocks_changed :: "super_block \<Rightarrow> super_block \<Rightarrow> bool" for sb where
  unchanged: "blocks_changed sb sb"
| one_group: "blocks_changed sb s \<Longrightarrow> fs_ok s \<Longrightarrow> 0 \<le> g \<Longrightarrow> g < s_groups_count (sbi s) \<Longrightarrow>
    blocks_changed sb (update_group s g bm cnt)"

lemma blocks_changed_trans: "blocks_changed b c \<Longrightarrow> blocks_changed a b \<Longrightarrow> blocks_changed a c"
  by (induction rule: blocks_changed.induct) (auto intro: one_group)

lemma free_groups_ok:
  assumes io: "io_ok k"
  shows "\<lbrakk> fs_ok sb; freeable sb block count; 0 \<le> freed; freed + count < 2147483648 \<rbrakk> \<Longrightarrow>
     \<exists>sb'. free_groups k sb block count freed = Some (freed + count, sb') \<and> fs_ok sb' \<and>
       free_set sb' = free_set sb \<union> {block..<block + count} \<and> sbi sb' = sbi sb \<and>
       same_files sb sb' \<and> rsv_node sb' = rsv_node sb \<and> data_set sb' = data_set sb - {block..<block + count} \<and>
       blocks_changed sb sb'"
proof (induction "nat count" arbitrary: sb block count freed rule: less_induct)
  case less
  let ?B = "KR_BLOCKS_PER_GROUP sb" and ?f = "uint (es_first_data_block (es sb))"
  define g where "g = group_of sb block"
  define a where "a = bit_of sb block"
  let ?F = "kr_group_first_block_no sb g"
  note fr = less.prems(2) [unfolded freeable_def]
  have count: "u64 count = count" using fr less.prems(3,4) by (intro u64_id) auto
  have bc: "uint (es_blocks_count (es sb)) < 4294967296" by simp
  have rel: "u64 (block - ?f) = block - ?f" using fr bc uint_ge_0 [of "es_first_data_block (es sb)"] by (intro u64_id) linarith+
  have B: "0 < ?B" "?B < 65536" using less.prems(1) by (simp_all add: fs_ok_def)
  have blk: "?f \<le> block" "block < uint (es_blocks_count (es sb))" using fr by auto
  have g: "0 \<le> g" "g < s_groups_count (sbi sb)" "int a < ?B" "block = ?F + int a"
    using group_of_range [OF less.prems(1) blk] by (simp_all add: g_def a_def)
  define ov where "ov = (if ?B < int a + count then int a + count - ?B else 0)"
  define c1 where "c1 = count - ov"
  have c1: "0 < c1" "int a + c1 \<le> ?B" "0 \<le> ov" "ov < count" "count = c1 + ov" using g(3) fr by (auto simp: ov_def c1_def)
  have uo: "u64 (int a + count) = int a + count" using g(3) B less.prems fr by (intro u64_id) auto
  have gb: "group_of sb (?F + int i) = g" "bit_of sb (?F + int i) = i" if "int i < ?B" for i
    using group_of_eq [OF less.prems(1) g(1,2) that] by auto
  have used: "group_bitmap sb g ! i" and data: "\<not> metadata_block sb g (?F + int i)"
    if "a \<le> i" "i < a + nat c1" for i
  proof -
    have i: "int i < ?B" using that c1 by linarith
    have "?F + int i \<in> {block..<block + count}" using that g(4) c1 by auto
    then have "block_used sb (?F + int i)" "\<not> metadata_block sb (group_of sb (?F + int i)) (?F + int i)" using fr by auto
    then show "group_bitmap sb g ! i" "\<not> metadata_block sb g (?F + int i)"
      using gb [OF i] by (simp_all add: block_used_def)
  qed
  have zone: "\<not> in_system_zone sb (gdesc sb g) block c1"
  proof (rule not_in_system_zone [OF less.prems(1) g(1,2)])
    show "0 \<le> block" using fr uint_ge_0 [of "es_first_data_block (es sb)"] by linarith
    show "block + c1 < 18446744073709551616" using fr bc c1 by linarith
    show "\<not> metadata_block sb g b" if "block \<le> b" "b < block + c1" for b
      using data [of "nat (b - ?F)"] that g(4) by simp
  qed (use c1 in simp)
  let ?bm = "mark_range False a (nat c1) (group_bitmap sb g)"
  define cnt where "cnt = (word_of_int (u32 (uint (bg_free_blocks_count (gdesc sb g)) + int (nat c1))) :: 16 word)"
  define sb4 where "sb4 = update_group sb g ?bm cnt"
  have len: "?B \<le> int (length (group_bitmap sb g))"
    using group_geometryD(3) [OF group_okD(1) [OF less.prems(1) g(1,2)]] .
  have cb: "clear_bits k (uint (bg_block_bitmap (gdesc sb g))) (nat c1) (int a) sb 0 = Some (c1,
      sb\<lparr>b_data := (b_data sb)(uint (bg_block_bitmap (gdesc sb g)) := ?bm)\<rparr>)"
    using clear_bits_set [of "int a" "nat c1" sb _ 0] used c1 len less.prems(3,4) by simp
  have gdok: "gd_ok sb" using less.prems(1) by (simp add: fs_ok_def)
  have s32: "s32 c1 = c1" "c1 \<noteq> 0" using c1 less.prems(3,4) by (auto intro!: s32_id)
  have adj: "group_adjust_blocks (sb\<lparr>b_data := (b_data sb)(uint (bg_block_bitmap (gdesc sb g)) := ?bm)\<rparr>) g c1 = sb4"
    using group_adjust_update [OF gdok s32(2), of g ?bm] c1(1) by (simp add: sb4_def cnt_def)
  have fu: "u32 (freed + c1) = freed + c1" using c1 less.prems(3,4) by (intro u32_id) auto
  have bu: "u64 (block + c1) = block + c1"
    using fr bc c1 uint_ge_0 [of "es_first_data_block (es sb)"] by (intro u64_id) linarith+
  have step: "free_groups k sb block count freed =
      (if ov \<noteq> 0 then free_groups k sb4 (block + c1) ov (freed + c1) else Some (freed + c1, sb4))"
  proof -
    have a: "(block - ?f) div ?B = g" "(block - ?f) mod ?B = int a"
      using B by (simp_all add: g_def a_def group_of_def bit_of_def)
    have o: "(if ?B < u64 (int a + count) then u64 (int a + count) - ?B else 0) = ov" by (simp add: uo ov_def)
    show ?thesis
      unfolding free_groups.simps [of k sb block count] Let_def count rel a o c1_def [symmetric]
        read_block_bitmap_ok [OF io less.prems(1) g(1,2)]
      using B zone get_group_desc_loaded [OF gdok g(1,2)] by (simp add: cb s32 adj fu bu)
  qed
  have run: "0 < nat c1" "int a + int (nat c1) \<le> ?B" "?F + int a + int (nat c1) \<le> uint (es_blocks_count (es sb))"
    using c1 fr g(4) by auto
  have ok4: "fs_ok sb4"
    using free_run_ok [OF less.prems(1) g(1,2) run used data] by (simp add: sb4_def cnt_def)
  have fs4: "free_set sb4 = free_set sb \<union> {block..<block + c1}"
    using free_set_update [OF less.prems(1) g(1,2) run(2,3), of False] c1(1) g(4) by (simp add: sb4_def)
  have ds4: "data_set sb4 = data_set sb - {block..<block + c1}"
    using data_set_update [OF less.prems(1) g(1,2)] fs4 by (simp add: sb4_def)
  have bc4: "blocks_changed sb sb4" unfolding sb4_def by (intro one_group unchanged less.prems(1) g(1,2))
  show ?case
  proof (cases "ov = 0")
    case True
    then show ?thesis using step ok4 fs4 ds4 bc4 c1 by (auto simp: sb4_def)
  next
    case False
    have "freeable sb4 (block + c1) ov"
      using less.prems(2) ds4 c1 False unfolding freeable_iff by auto
    moreover have "nat ov < nat count" using c1 by simp
    ultimately obtain sb' where r: "free_groups k sb4 (block + c1) ov (freed + c1) = Some (freed + c1 + ov, sb')"
        "fs_ok sb'" "free_set sb' = free_set sb4 \<union> {block + c1..<block + c1 + ov}" "sbi sb' = sbi sb4"
        "same_files sb4 sb'" "rsv_node sb' = rsv_node sb4" "data_set sb' = data_set sb4 - {block + c1..<block + c1 + ov}"
        "blocks_changed sb4 sb'"
      using less.hyps [of ov sb4 "block + c1" "freed + c1"] ok4 less.prems(3,4) c1 by auto
    have "same_files sb sb4" by (simp add: sb4_def)
    then have "same_files sb sb'" using r(5) same_files_trans by blast
    then show ?thesis using step False fs4 ds4 c1 r blocks_changed_trans [OF r(8) bc4] by (auto simp: sb4_def)
  qed
qed

end
