(* ===== verification/Kr_New_Blocks.thy ===== *)
theory Kr_New_Blocks
  imports Kr_Balloc
begin

text \<open>
  Correctness of \<^verbatim>\<open>kr_new_blocks\<close> and of the allocator as a whole: every call returns, it hands
  out only free blocks that hold no metadata, keeps the bitmaps and the free counts in step,
  and fails with \<^verbatim>\<open>ENOSPC\<close> only when no block is free (or the free ones are reserved for root).
  The interface \<open>block_allocator\<close> states this over the set of free blocks for the clients of
  the allocator. The theory also holds the lemmas on the groups that carry a backup of the
  super block.
\<close>

section \<open>Allocating\<close>

lemma same_but_rsv_gdesc:
  assumes "same_but_rsv sb sb'"
  shows "gdesc sb' = gdesc sb" "gd_ok sb' = gd_ok sb" "group_of sb' = group_of sb" "bit_of sb' = bit_of sb"
    "metadata_block sb' = metadata_block sb" "fs_ok sb' = fs_ok sb" "free_set sb' = free_set sb" "data_set sb' = data_set sb"
proof -
  obtain t n where sb': "sb' = sb\<lparr>s_rsv_window_root := t, rsv_node := n\<rparr>" using assms by (rule same_but_rsvE)
  show gd: "gdesc sb' = gdesc sb" and ok: "gd_ok sb' = gd_ok sb"
    unfolding sb' by (simp_all add: gdesc_def gd_ok_def desc_loaded_def desc_block_def desc_offset_def fun_eq_iff
        cong: option.case_cong)
  show gb: "group_of sb' = group_of sb" "bit_of sb' = bit_of sb"
    unfolding sb' by (simp_all add: group_of_def bit_of_def fun_eq_iff)
  show m: "metadata_block sb' = metadata_block sb"
    unfolding metadata_block_def gd fun_eq_iff by (simp add: sb')
  have F: "kr_group_first_block_no sb' = kr_group_first_block_no sb"
    unfolding sb' by (simp add: kr_group_first_block_no_def fun_eq_iff)
  have "group_ok sb' g = group_ok sb g" for g
    unfolding group_ok_def Let_def gd m F group_geometry_def by (simp add: sb')
  then show "fs_ok sb' = fs_ok sb" unfolding fs_ok_def ok by (simp add: sb')
  show "free_set sb' = free_set sb"
    unfolding free_set_def block_used_def gd gb by (simp add: sb')
  show "data_set sb' = data_set sb"
    unfolding data_set_def block_used_def gd gb m by (simp add: sb')
qed

text \<open>What an allocation needs of the window it uses, if it uses one.\<close>

definition rsv_ready :: "kernel \<Rightarrow> super_block \<Rightarrow> rsv_ptr option \<Rightarrow> int \<Rightarrow> bool" where
  "rsv_ready k sb my_rsv L =
     (case my_rsv of None \<Rightarrow> True
      | Some p \<Rightarrow> rb_ok k \<and> rsv_inv sb \<and> p \<noteq> RsvHead \<and> goal_size_ok (rsv_goal_size (rsv_node sb p)) \<and>
          window_len_ok L sb p)"

lemma rsv_ready_mono: "rsv_ready k sb r L \<Longrightarrow> L \<le> L' \<Longrightarrow> rsv_ready k sb r L'"
  by (auto simp: rsv_ready_def window_len_ok_def split: option.splits)

text \<open>
  The contract of a search in the state \<open>sb\<close> for at most \<open>num\<close> blocks: a run of free bits of
  one group has been claimed, or no bitmap has changed.
\<close>

definition claimed :: "super_block \<Rightarrow> super_block \<Rightarrow> int \<Rightarrow> int \<Rightarrow> int \<Rightarrow> int \<Rightarrow> bool" where
  "claimed sb sb' num g r n =
     (let bb = uint (bg_block_bitmap (gdesc sb g)); bm = b_data sb bb in
      0 \<le> g \<and> g < s_groups_count (sbi sb) \<and> 0 \<le> r \<and> 1 \<le> n \<and> n \<le> max 1 num \<and>
      r + n \<le> KR_BLOCKS_PER_GROUP sb \<and> (\<forall>i. nat r \<le> i \<and> i < nat (r + n) \<longrightarrow> \<not> bm ! i) \<and>
      same_but_rsv (sb\<lparr>b_data := (b_data sb)(bb := mark_range True (nat r) (nat n) bm)\<rparr>) sb')"

definition search_post ::
  "kernel \<Rightarrow> super_block \<Rightarrow> super_block \<Rightarrow> rsv_ptr option \<Rightarrow> int \<Rightarrow> group_search \<Rightarrow> bool" where
  "search_post k sb sb' my_rsv num res =
     ((my_rsv \<noteq> None \<longrightarrow> rsv_inv sb') \<and> (my_rsv = None \<longrightarrow> rsv_node sb' = rsv_node sb) \<and>
      (case res of Found g r n \<Rightarrow> claimed sb sb' num g r n
       | SearchIOError \<Rightarrow> False
       | NotFound m \<Rightarrow> same_but_rsv sb sb' \<and> 0 \<le> m \<and> m \<le> num \<and> rsv_ready k sb' my_rsv 1073741824))"

lemma search_post_trans:
  assumes "search_post k sb1 sb2 my_rsv m res" "same_but_rsv sb sb1" "m \<le> num"
    and "my_rsv = None \<Longrightarrow> rsv_node sb1 = rsv_node sb"
  shows "search_post k sb sb2 my_rsv num res"
proof (cases res)
  case (Found g r n)
  note f = same_but_rsvD [OF assms(2)]
  have "same_but_rsv (sb\<lparr>b_data := h\<rparr>) (sb1\<lparr>b_data := h\<rparr>)" for h
    using assms(2) by (elim same_but_rsvE) (simp add: same_but_rsv_def without_rsv_def)
  then show ?thesis
    using assms(1,3,4) same_but_rsv_trans unfolding Found search_post_def claimed_def
      same_but_rsv_gdesc [OF assms(2)] f(3,6) Let_def group_search.case by fastforce
qed (use assms same_but_rsv_trans in \<open>auto simp: search_post_def\<close>)

definition group_full :: "super_block \<Rightarrow> int \<Rightarrow> bool" where
  "group_full sb g = (\<forall>i < nat (KR_BLOCKS_PER_GROUP sb). group_bitmap sb g ! i)"

lemma try_group_ok:
  assumes ok: "fs_ok sb" "0 \<le> g" "g < s_groups_count (sbi sb)" and io: "io_ok k"
    and num: "0 \<le> num" "num \<le> 268435456" and goal: "- 1 \<le> goal" "goal < KR_BLOCKS_PER_GROUP sb"
    and rsv: "rsv_ready k sb my_rsv (if goal < 0 then 1073741824 else 536870912)"
  shows "\<exists>res sb'. try_group k sb g goal my_rsv num = Some (res, sb') \<and> search_post k sb sb' my_rsv num res \<and>
     (my_rsv = None \<longrightarrow> goal < 0 \<longrightarrow> (\<exists>m. res = NotFound m) \<longrightarrow> group_full sb g)"
proof -
  let ?bb = "uint (bg_block_bitmap (gdesc sb g))" and ?bm = "group_bitmap sb g" and ?B = "KR_BLOCKS_PER_GROUP sb"
  note d = group_okD(1) [OF ok]
  note G = group_geometryD [OF d]
  have eq: "try_group k sb g goal my_rsv num = do {
      (r, num1, sb2) \<leftarrow> kr_try_to_allocate_with_rsv k sb g ?bb goal my_rsv num;
      Some (if 0 \<le> r then Found g r num1 else NotFound num1, sb2) }"
    by (simp add: try_group_def read_block_bitmap_ok [OF io ok])
  show ?thesis
  proof (cases my_rsv)
    case None
    obtain start where a: "allocation_range sb g goal None = (start, ?B, goal)" "start = max goal 0"
      using allocation_range_no_window [of goal sb] goal G(6) by auto
    obtain r n bm where t: "kr_try_to_allocate sb g ?bm goal num None = Some (r, n, bm)"
        "alloc_post ?bm start ?B num r n bm"
    proof -
      have "0 \<le> start" "start \<le> ?B" "goal < 0 \<or> goal = start \<and> start < ?B" using a(2) goal G(1) by auto
      then show thesis using try_to_allocate_in_range [OF G(2,3) a(1), of num] that by blast
    qed
    show ?thesis
    proof (cases "r < 0")
      case True
      then have "bm = ?bm" "n = 0" "\<forall>i. start \<le> int i \<and> int i < ?B \<longrightarrow> ?bm ! i"
        using t(2) by (auto simp: alloc_post_def)
      moreover from this have "group_full sb g" if "goal < 0" using that a(2) by (auto simp: group_full_def)
      ultimately show ?thesis using True t(1) num(1) unfolding None eq [unfolded None]
        by (auto simp: kr_try_to_allocate_with_rsv_def search_post_def rsv_ready_def)
    next
      case False
      then have "claimed sb (sb\<lparr>b_data := (b_data sb)(?bb := bm)\<rparr>) num g r n"
        using t(2) ok a(2) by (auto simp: alloc_post_def claimed_def Let_def)
      then show ?thesis using False t(1) unfolding None eq [unfolded None]
        by (auto simp: kr_try_to_allocate_with_rsv_def search_post_def)
    qed
  next
    case (Some p)
    have ready: "rb_ok k" "rsv_inv sb" "p \<noteq> RsvHead" "goal_size_ok (rsv_goal_size (rsv_node sb p))"
        "window_len_ok (if goal < 0 then 1073741824 else 536870912) sb p"
      using rsv Some by (auto simp: rsv_ready_def)
    obtain r n sb' where t: "allocate_with_rsv k sb g ?bb goal p num 0 = Some (r, n, sb')"
        "rsv_alloc_post sb sb' p ?bb ?B num r n"
      using allocate_with_rsv_spec [OF ready(1-3) d ready(4) num goal ready(5)] by auto
    note post = t(2) [unfolded rsv_alloc_post_def]
    show ?thesis
    proof (cases "r < 0")
      case True
      then have "b_data sb' = b_data sb" using post by simp
      then have "same_but_rsv sb sb'" using post by (simp add: same_but_alloc_def)
      then show ?thesis using True t(1) post num(1) ready unfolding Some eq [unfolded Some]
        by (auto simp: kr_try_to_allocate_with_rsv_def search_post_def rsv_ready_def)
    next
      case False
      obtain lo hi where ap: "0 \<le> lo" "hi \<le> ?B" "alloc_post ?bm lo hi num r n (b_data sb' ?bb)"
        using post False by auto
      have "claimed sb sb' num g r n"
        using ap False post ok by (auto simp: alloc_post_def claimed_def Let_def same_but_alloc_def)
      then show ?thesis using False t(1) post unfolding Some eq [unfolded Some]
        by (auto simp: kr_try_to_allocate_with_rsv_def search_post_def)
    qed
  qed
qed

lemma group_full_zero:
  assumes "fs_ok sb" "0 \<le> g" "g < s_groups_count (sbi sb)" "uint (bg_free_blocks_count (gdesc sb g)) = 0"
  shows "group_full sb g"
  using group_okD(9) [OF assms(1-3)] group_geometryD(3) [OF group_okD(1) [OF assms(1-3)]] assms(4)
  by (simp add: group_full_def zero_bits_0_iff)

lemma same_but_rsv_group_full: "same_but_rsv sb sb' \<Longrightarrow> group_full sb' = group_full sb"
  using same_but_rsv_gdesc(1) [of sb sb'] same_but_rsvD(3,6) [of sb sb'] by (simp add: group_full_def fun_eq_iff)

lemma rest_groups_ok:
  assumes io: "io_ok k"
  shows "\<lbrakk> fs_ok sb; 0 \<le> g; g < s_groups_count (sbi sb); 0 \<le> num; num \<le> 268435456;
      rsv_ready k sb my_rsv 1073741824 \<rbrakk> \<Longrightarrow>
     \<exists>res sb'. rest_groups k n sb g my_rsv wsz num = Some (res, sb') \<and> search_post k sb sb' my_rsv num res \<and>
       (my_rsv = None \<longrightarrow> (\<exists>m. res = NotFound m) \<longrightarrow>
          (\<forall>j \<in> {1..int n}. group_full sb ((g + j) mod s_groups_count (sbi sb))))"
proof (induction n arbitrary: sb g num)
  case 0
  then show ?case by (auto simp: search_post_def rsv_ready_def split: option.splits)
next
  case (Suc n)
  let ?N = "s_groups_count (sbi sb)"
  define h where "h = (if ?N \<le> g + 1 then 0 else g + 1)"
  have h: "0 \<le> h" "h < ?N" "h = (g + 1) mod ?N"
  proof -
    show "0 \<le> h" "h < ?N" using Suc.prems(2,3) by (auto simp: h_def)
    have "(g + 1) mod ?N = 0" if "?N \<le> g + 1"
    proof -
      have "g + 1 = ?N" using that Suc.prems(3) by linarith
      then show ?thesis by simp
    qed
    then show "h = (g + 1) mod ?N" using Suc.prems(2,3) by (auto simp: h_def)
  qed
  have gd: "kr_get_group_desc k sb h = Some (Some (gdesc sb h), sb)"
    using Suc.prems(1) h by (simp add: fs_ok_def)
  have shift: "group_full sb ((g + j) mod ?N)"
    if "group_full sb h" "\<forall>j \<in> {1..int n}. group_full sb ((h + j) mod ?N)" "j \<in> {1..int (Suc n)}" for j
  proof (cases "j = 1")
    case False
    then have "group_full sb ((h + (j - 1)) mod ?N)" using that(2,3) by auto
    moreover have "(h + (j - 1)) mod ?N = (g + 1 + (j - 1)) mod ?N" unfolding h(3) by (rule mod_add_left_eq)
    ultimately show ?thesis by simp
  qed (use that(1) h(3) in simp)
  let ?skip = "uint (bg_free_blocks_count (gdesc sb h)) = 0 \<or>
      my_rsv \<noteq> None \<and> uint (bg_free_blocks_count (gdesc sb h)) \<le> wsz div 2"
  have step: "rest_groups k (Suc n) sb g my_rsv wsz num =
     (if ?skip then rest_groups k n sb h my_rsv wsz num
      else do { (res, sb2) \<leftarrow> try_group k sb h (- 1) my_rsv num;
                case res of NotFound num1 \<Rightarrow> rest_groups k n sb2 h my_rsv wsz num1 | _ \<Rightarrow> Some (res, sb2) })"
    unfolding rest_groups.simps Let_def h_def [symmetric] gd by simp
  show ?case
  proof (cases ?skip)
    case True
    obtain res sb' where r: "rest_groups k n sb h my_rsv wsz num = Some (res, sb')"
        "search_post k sb sb' my_rsv num res"
        "my_rsv = None \<longrightarrow> (\<exists>m. res = NotFound m) \<longrightarrow> (\<forall>j \<in> {1..int n}. group_full sb ((h + j) mod ?N))"
      using Suc.IH [OF Suc.prems(1) h(1,2) Suc.prems(4-6)] by blast
    have "group_full sb h" if "my_rsv = None"
      using True that group_full_zero [OF Suc.prems(1) h(1,2)] by simp
    then show ?thesis unfolding step if_P [OF True] using r shift by blast
  next
    case False
    obtain res sb1 where t: "try_group k sb h (- 1) my_rsv num = Some (res, sb1)"
        "search_post k sb sb1 my_rsv num res"
        "my_rsv = None \<longrightarrow> (\<exists>m. res = NotFound m) \<longrightarrow> group_full sb h"
      using try_group_ok [OF Suc.prems(1) h(1,2) io Suc.prems(4,5), of "- 1" my_rsv] Suc.prems(1,6)
      by (auto simp: fs_ok_def)
    show ?thesis
    proof (cases res)
      case (NotFound m)
      have s: "same_but_rsv sb sb1" "0 \<le> m" "m \<le> num" "rsv_ready k sb1 my_rsv 1073741824"
        using t(2) NotFound by (auto simp: search_post_def)
      have node: "my_rsv = None \<Longrightarrow> rsv_node sb1 = rsv_node sb" using t(2) by (simp add: search_post_def)
      note f = same_but_rsvD(3) [OF s(1)]
      have "fs_ok sb1" "h < s_groups_count (sbi sb1)" "m \<le> 268435456"
        using same_but_rsv_gdesc(6) [OF s(1)] Suc.prems(1,5) h s(3) by (simp_all add: f)
      then obtain res2 sb2 where r: "rest_groups k n sb1 h my_rsv wsz m = Some (res2, sb2)"
          "search_post k sb1 sb2 my_rsv m res2"
          "my_rsv = None \<longrightarrow> (\<exists>m. res2 = NotFound m) \<longrightarrow>
             (\<forall>j \<in> {1..int n}. group_full sb1 ((h + j) mod s_groups_count (sbi sb1)))"
        using Suc.IH [OF _ h(1) _ s(2) _ s(4)] by blast
      have "search_post k sb sb2 my_rsv num res2" using search_post_trans [OF r(2) s(1,3) node] .
      moreover have "rest_groups k (Suc n) sb g my_rsv wsz num = Some (res2, sb2)"
        unfolding step if_not_P [OF False] using t(1) r(1) NotFound by simp
      moreover have "\<forall>j \<in> {1..int n}. group_full sb ((h + j) mod ?N)" if "my_rsv = None" "\<exists>m. res2 = NotFound m"
        using r(3) that same_but_rsv_group_full [OF s(1)] by (simp add: f)
      ultimately show ?thesis using t(3) NotFound shift by blast
    next
      case (Found g' r' n')
      then show ?thesis unfolding step if_not_P [OF False] using t by simp
    qed (use t in \<open>simp add: search_post_def\<close>)
  qed
qed

text \<open>
  A claimed run lies in the file system and holds no metadata, so neither retry nor error
  path is taken, and the bookkeeping restores the invariant.
\<close>

lemma claimed_run:
  assumes ok: "fs_ok sb" and c: "claimed sb sb' num g r n"
  shows "\<not> in_system_zone sb (gdesc sb g) (kr_group_first_block_no sb g + r) n"
    "kr_group_first_block_no sb g + r + n \<le> uint (es_blocks_count (es sb))"
    "{kr_group_first_block_no sb g + r..<kr_group_first_block_no sb g + r + n} \<subseteq> free_set sb"
proof -
  let ?F = "kr_group_first_block_no sb g" and ?B = "KR_BLOCKS_PER_GROUP sb"
  have g: "0 \<le> g" "g < s_groups_count (sbi sb)" and r: "0 \<le> r" "1 \<le> n" "r + n \<le> ?B"
    and clear: "\<And>i. nat r \<le> i \<Longrightarrow> i < nat (r + n) \<Longrightarrow> \<not> group_bitmap sb g ! i"
    using c by (auto simp: claimed_def Let_def)
  note d = group_okD [OF ok g] and G = group_geometryD [OF group_okD(1) [OF ok g]]
  have free: "\<not> metadata_block sb g b \<and> b < uint (es_blocks_count (es sb)) \<and> \<not> block_used sb b"
    if b: "?F + r \<le> b" "b < ?F + r + n" for b
  proof -
    define i where "i = nat (b - ?F)"
    have i: "b = ?F + int i" "nat r \<le> i" "i < nat (r + n)" "int i < ?B" using b r by (auto simp: i_def)
    have "\<not> (metadata_block sb g b \<or> uint (es_blocks_count (es sb)) \<le> b)"
      using clear [OF i(2,3)] d(8) [OF i(4)] i(1) by blast
    then show ?thesis
      using clear [OF i(2,3)] group_of_eq [OF ok g i(4)] i(1) by (simp add: block_used_def not_le)
  qed
  have "0 \<le> ?F" using G(4) .
  then show "\<not> in_system_zone sb (gdesc sb g) (?F + r) n"
    using free r G(5,6) by (intro not_in_system_zone [OF ok g]) auto
  show "?F + r + n \<le> uint (es_blocks_count (es sb))" using free [of "?F + r + n - 1"] r by auto
  have "uint (es_first_data_block (es sb)) \<le> ?F"
    using group_first_block [OF ok g(1)] g ok by (simp add: fs_ok_def)
  then show "{?F + r..<?F + r + n} \<subseteq> free_set sb" using free r by (auto simp: free_set_def)
qed

lemma freeblocks_add_frame [simp, kr_frame]:
  "fs_ok (freeblocks_add n sb) = fs_ok sb" "free_set (freeblocks_add n sb) = free_set sb"
  "sbi (freeblocks_add n sb) = (sbi sb)\<lparr>s_freeblocks_counter := s_freeblocks_counter (sbi sb) + n\<rparr>"
  "rsv_inv (freeblocks_add n sb) = rsv_inv sb" "freeable (freeblocks_add n sb) = freeable sb" "data_set (freeblocks_add n sb) = data_set sb"
proof -
  let ?sb = "freeblocks_add n sb"
  have gd: "gdesc ?sb = gdesc sb" "gd_ok ?sb = gd_ok sb" "group_of ?sb = group_of sb" "bit_of ?sb = bit_of sb"
    by (simp_all add: freeblocks_add_def gdesc_def gd_ok_def desc_loaded_def desc_block_def desc_offset_def fun_eq_iff
        group_of_def bit_of_def cong: option.case_cong)
  have F: "kr_group_first_block_no ?sb = kr_group_first_block_no sb"
    by (simp add: freeblocks_add_def kr_group_first_block_no_def fun_eq_iff)
  have m: "metadata_block ?sb = metadata_block sb" by (simp add: freeblocks_add_def [of n sb] metadata_block_def gd [unfolded freeblocks_add_def] fun_eq_iff)
  then have "group_ok ?sb g = group_ok sb g" for g
    unfolding group_ok_def Let_def gd F group_geometry_def by (simp add: freeblocks_add_def)
  then show "fs_ok ?sb = fs_ok sb" unfolding fs_ok_def gd by (simp add: freeblocks_add_def)
  show "free_set ?sb = free_set sb" unfolding free_set_def block_used_def gd by (simp add: freeblocks_add_def)
  show "freeable ?sb = freeable sb"
    unfolding freeable_def block_used_def gd m fun_eq_iff by (simp add: freeblocks_add_def)
  show "data_set ?sb = data_set sb"
    unfolding data_set_def block_used_def gd m by (simp add: freeblocks_add_def)
  show "sbi ?sb = (sbi sb)\<lparr>s_freeblocks_counter := s_freeblocks_counter (sbi sb) + n\<rparr>" "rsv_inv ?sb = rsv_inv sb"
    by (simp_all add: freeblocks_add_def rsv_inv_def windows_def)
qed

lemma claimed_committed:
  assumes ok: "fs_ok sb" and c: "claimed sb sb3 num g r n"
  defines "F \<equiv> kr_group_first_block_no sb g"
  defines "sb4 \<equiv> group_adjust_blocks sb3 g (- n)"
  shows "fs_ok sb4" "free_set sb4 = free_set sb - {F + r..<F + r + n}" "sbi sb4 = sbi sb"
    "rsv_inv sb4 = rsv_inv sb3" "freeable sb4 (F + r) n" "data_set sb4 = data_set sb \<union> {F + r..<F + r + n}"
proof -
  let ?bb = "uint (bg_block_bitmap (gdesc sb g))" and ?B = "nat (KR_BLOCKS_PER_GROUP sb)"
  let ?bm = "mark_range True (nat r) (nat n) (group_bitmap sb g)"
  have g: "0 \<le> g" "g < s_groups_count (sbi sb)" and r: "0 \<le> r" "1 \<le> n" "r + n \<le> KR_BLOCKS_PER_GROUP sb"
    and clear: "\<And>i. nat r \<le> i \<Longrightarrow> i < nat (r + n) \<Longrightarrow> \<not> group_bitmap sb g ! i"
    and same: "same_but_rsv (sb\<lparr>b_data := (b_data sb)(?bb := ?bm)\<rparr>) sb3"
    using c by (auto simp: claimed_def Let_def)
  obtain t w where sb3: "sb3 = sb\<lparr>b_data := (b_data sb)(?bb := ?bm), s_rsv_window_root := t, rsv_node := w\<rparr>"
    using same by (rule same_but_rsvE)
  note d = group_okD [OF ok g] and G = group_geometryD [OF group_okD(1) [OF ok g]]
  have len: "?B \<le> length (group_bitmap sb g)" using G(3) by simp
  define cnt where "cnt = (word_of_int (u32 (uint (bg_free_blocks_count (gdesc sb g)) + - n)) :: 16 word)"
  have gd3: "gdesc sb3 = gdesc sb" using same_but_rsv_gdesc(1) [OF same] by simp
  have sb4: "same_but_rsv (update_group sb g ?bm cnt) sb4"
    using r(2) unfolding sb4_def group_adjust_blocks_def gd3 Let_def
    by (simp add: sb3 cnt_def update_group_def same_but_rsv_def without_rsv_def set_gdesc_def desc_block_def
        desc_offset_def)
  have nr: "nat r + nat n = nat (r + n)" using r by simp
  have z: "zero_bits ?bm ?B + nat n = zero_bits (group_bitmap sb g) ?B"
    using r len clear by (intro zero_bits_mark_set) (auto simp: nr)
  have B: "KR_BLOCKS_PER_GROUP sb < 65536" using ok by (simp add: fs_ok_def)
  have "int (zero_bits (group_bitmap sb g) ?B) - n = int (zero_bits ?bm ?B)" using z r by linarith
  moreover have "int (zero_bits ?bm ?B) < 65536" using zero_bits_le [of ?bm ?B] B by linarith
  ultimately have cnt: "uint cnt = int (zero_bits ?bm ?B)"
    unfolding cnt_def d(9) using word16_of_u32 [of "int (zero_bits (group_bitmap sb g) ?B) - n"] by simp
  have ok4: "fs_ok (update_group sb g ?bm cnt)"
  proof (rule fs_ok_update_group [OF ok g])
    show "?bm ! i" if "int i < KR_BLOCKS_PER_GROUP sb"
      "metadata_block sb g (kr_group_first_block_no sb g + int i) \<or>
       uint (es_blocks_count (es sb)) \<le> kr_group_first_block_no sb g + int i" for i
      using d(8) [OF that] that(1) len by simp
  qed (use cnt in simp_all)
  show "fs_ok sb4" using same_but_rsv_gdesc(6) [OF sb4] ok4 by simp
  have "free_set sb4 = free_set (update_group sb g ?bm cnt)" using same_but_rsv_gdesc(7) [OF sb4] .
  then show fs4: "free_set sb4 = free_set sb - {F + r..<F + r + n}"
    using free_set_update [OF ok g, of "nat r" "nat n" True cnt] claimed_run(2) [OF ok c] r
    by (simp add: F_def)
  have e: "es sb4 = es sb" "group_of sb4 = group_of sb" "metadata_block sb4 = metadata_block (update_group sb g ?bm cnt)"
    using same_but_rsvD(4) [OF sb4] same_but_rsv_gdesc(3,5) [OF sb4] by simp_all
  have meta: "metadata_block sb4 (group_of sb4 b) b = metadata_block sb (group_of sb b) b" "\<not> block_used sb b \<Longrightarrow> \<not> metadata_block sb (group_of sb b) b"
    if b: "uint (es_first_data_block (es sb)) \<le> b" "b < uint (es_blocks_count (es sb))" for b
  proof -
    note go = group_of_range [OF ok b]
    have "nat (b - kr_group_first_block_no sb (group_of sb b)) = bit_of sb b" using go(4) by linarith
    then show "\<not> block_used sb b \<Longrightarrow> \<not> metadata_block sb (group_of sb b) b"
      using metadata_marked [OF ok go(1,2), of b] b by (auto simp: block_used_def)
    show "metadata_block sb4 (group_of sb4 b) b = metadata_block sb (group_of sb b) b"
      using metadata_block_update [OF ok g go(1,2)] by (simp add: e)
  qed
  have run: "{F + r..<F + r + n} \<subseteq> free_set sb" using claimed_run(3) [OF ok c] by (simp add: F_def)
  have used: "block_used sb4 b \<longleftrightarrow> block_used sb b \<or> b \<in> {F + r..<F + r + n}"
    if b: "uint (es_first_data_block (es sb)) \<le> b" "b < uint (es_blocks_count (es sb))" for b
  proof -
    have "b \<in> free_set sb4 \<longleftrightarrow> b \<in> free_set sb \<and> b \<notin> {F + r..<F + r + n}" unfolding fs4 by simp
    then show ?thesis using b by (auto simp: free_set_def e)
  qed
  show ds: "data_set sb4 = data_set sb \<union> {F + r..<F + r + n}"
  proof (intro equalityI subsetI)
    fix b assume "b \<in> data_set sb4"
    then show "b \<in> data_set sb \<union> {F + r..<F + r + n}" using meta(1) [of b] used [of b] by (auto simp: data_set_def e)
  next
    fix b assume b: "b \<in> data_set sb \<union> {F + r..<F + r + n}"
    then have "uint (es_first_data_block (es sb)) \<le> b" "b < uint (es_blocks_count (es sb))" "\<not> metadata_block sb (group_of sb b) b"
        "block_used sb b \<or> b \<in> {F + r..<F + r + n}"
      using run meta(2) [of b] by (auto simp: data_set_def free_set_def)
    then show "b \<in> data_set sb4" using meta(1) [of b] used [of b] by (simp add: data_set_def e)
  qed
  show "freeable sb4 (F + r) n" using ds r(2) by (simp add: freeable_iff)
  show "sbi sb4 = sbi sb" using same_but_rsvD(3) [OF sb4] by simp
  show "rsv_inv sb4 = rsv_inv sb3"
    using r(2) by (simp add: sb4_def group_adjust_blocks_def Let_def rsv_inv_def windows_def)
qed

text \<open>How an allocation from the state \<open>sb\<close> ends.\<close>

definition exit_post :: "super_block \<Rightarrow> super_block \<Rightarrow> int \<Rightarrow> new_blocks_exit \<Rightarrow> bool" where
  "exit_post sb sb' num ex =
     (fs_ok sb' \<and> same_files sb sb' \<and>
      (case ex of
         ExitAllocated b n \<Rightarrow>
           1 \<le> n \<and> n \<le> max 1 num \<and> {b..<b + n} \<subseteq> free_set sb \<and> free_set sb' = free_set sb - {b..<b + n} \<and>
           freeable sb' b n \<and> data_set sb' = data_set sb \<union> {b..<b + n} \<and>
           sbi sb' = (sbi sb)\<lparr>s_freeblocks_counter := s_freeblocks_counter (sbi sb) - n\<rparr>
       | ExitOut performed e \<Rightarrow>
           \<not> performed \<and> e = ENOSPC \<and> free_set sb = {} \<and> free_set sb' = {} \<and> data_set sb' = data_set sb \<and> sbi sb' = sbi sb))"

lemma commit_eq:
  assumes ok: "fs_ok sb" and c: "claimed sb sb3 num g r n" and num: "num \<le> 268435456"
  defines "F \<equiv> kr_group_first_block_no sb g"
  shows "u64 (r + kr_group_first_block_no sb3 g) = F + r"
    "\<not> in_system_zone sb3 (gdesc sb3 g) (F + r) n"
    "\<not> uint (es_blocks_count (es sb3)) \<le> u64 (F + r + n - 1)" "s32 (- n) = - n"
proof -
  have g: "0 \<le> g" "g < s_groups_count (sbi sb)" and r: "0 \<le> r" "1 \<le> n" "n \<le> max 1 num" "r + n \<le> KR_BLOCKS_PER_GROUP sb"
    using c by (auto simp: claimed_def Let_def)
  note G = group_geometryD [OF group_okD(1) [OF ok g]]
  have same: "same_but_rsv (sb\<lparr>b_data := b_data sb3\<rparr>) sb3"
    using c same_but_rsvD(6) unfolding claimed_def Let_def by fastforce
  have f: "sbi sb3 = sbi sb" "es sb3 = es sb" "gdesc sb3 = gdesc sb"
    "kr_group_first_block_no sb3 = kr_group_first_block_no sb"
    using same_but_rsvD(3,4) [OF same] same_but_rsv_gdesc(1) [OF same]
    by (simp_all add: kr_group_first_block_no_def fun_eq_iff)
  show "u64 (r + kr_group_first_block_no sb3 g) = F + r"
    using r G(4-6) by (simp add: f F_def u64_id)
  show "\<not> in_system_zone sb3 (gdesc sb3 g) (F + r) n"
    using claimed_run(1) [OF ok c] by (simp add: in_system_zone_def f F_def)
  have "u64 (F + r + n - 1) = F + r + n - 1" using r G(4-6) by (simp add: F_def u64_id)
  then show "\<not> uint (es_blocks_count (es sb3)) \<le> u64 (F + r + n - 1)"
    using claimed_run(2) [OF ok c] by (simp add: f F_def)
  show "s32 (- n) = - n" using r num by (intro s32_id) auto
qed

lemma full_no_free:
  assumes ok: "fs_ok sb" and full: "\<And>g. 0 \<le> g \<Longrightarrow> g < s_groups_count (sbi sb) \<Longrightarrow> group_full sb g"
  shows "free_set sb = {}"
proof -
  have "block_used sb b" if "uint (es_first_data_block (es sb)) \<le> b" "b < uint (es_blocks_count (es sb))" for b
    using group_of_range [OF ok that] full [of "group_of sb b"] by (simp add: block_used_def group_full_def)
  then show ?thesis by (auto simp: free_set_def)
qed

text \<open>One pass over all groups, from \<^verbatim>\<open>retry_alloc\<close> to the end of the \<^verbatim>\<open>for\<close> loop.\<close>

definition search_all ::
  "kernel \<Rightarrow> super_block \<Rightarrow> int \<Rightarrow> int \<Rightarrow> rsv_ptr option \<Rightarrow> int \<Rightarrow> int \<Rightarrow> (group_search \<times> super_block) option"
where
  "search_all k sb goal group_no my_rsv windowsz num =
     do { (res1, sb2) \<leftarrow>
            (if 0 < uint (bg_free_blocks_count (gdesc sb group_no))
             then try_group k sb group_no
                    ((goal - uint (es_first_data_block (es sb))) mod KR_BLOCKS_PER_GROUP sb) my_rsv num
             else Some (NotFound num, sb));
          case res1 of
            NotFound num1 \<Rightarrow>
              rest_groups k (nat (s_groups_count (sbi sb2))) sb2 group_no my_rsv windowsz num1
          | _ \<Rightarrow> Some (res1, sb2) }"

lemma search_all_ok:
  assumes io: "io_ok k" and ok: "fs_ok sb" "0 \<le> g" "g < s_groups_count (sbi sb)"
    and num: "0 \<le> num" "num \<le> 268435456" and rsv: "rsv_ready k sb my_rsv 536870912"
  shows "\<exists>res sb'. search_all k sb goal g my_rsv wsz num = Some (res, sb') \<and> search_post k sb sb' my_rsv num res \<and>
     (my_rsv = None \<longrightarrow> (\<exists>m. res = NotFound m) \<longrightarrow> free_set sb = {})"
proof -
  let ?N = "s_groups_count (sbi sb)" and ?B = "KR_BLOCKS_PER_GROUP sb"
  let ?gl = "(goal - uint (es_first_data_block (es sb))) mod ?B"
  have B: "0 < ?B" using ok(1) by (simp add: fs_ok_def)
  have full: "free_set sb = {}" if "\<forall>j \<in> {1..int (nat ?N)}. group_full sb ((g + j) mod ?N)"
  proof (rule full_no_free [OF ok(1)])
    fix h assume h: "0 \<le> h" "h < ?N"
    have "(g + (if g < h then h - g else h - g + ?N)) mod ?N = h" using h by simp
    then show "group_full sb h"
      using that [rule_format, of "if g < h then h - g else h - g + ?N"] h ok(2,3) by (auto split: if_splits)
  qed
  have rest: "\<exists>res sb'. rest_groups k (nat (s_groups_count (sbi sb2))) sb2 g my_rsv wsz m = Some (res, sb') \<and>
      search_post k sb sb' my_rsv num res \<and> (my_rsv = None \<longrightarrow> (\<exists>m. res = NotFound m) \<longrightarrow> free_set sb = {})"
    if s: "same_but_rsv sb sb2" "0 \<le> m" "m \<le> num" "rsv_ready k sb2 my_rsv 1073741824"
      and node: "my_rsv = None \<Longrightarrow> rsv_node sb2 = rsv_node sb" for sb2 m
  proof -
    note f = same_but_rsvD(3) [OF s(1)]
    have "fs_ok sb2" "g < s_groups_count (sbi sb2)" "m \<le> 268435456"
      using same_but_rsv_gdesc(6) [OF s(1)] ok num s(3) by (simp_all add: f)
    from rest_groups_ok [OF io this(1) ok(2) this(2) s(2) this(3) s(4), of "nat (s_groups_count (sbi sb2))" wsz]
    obtain res sb' where r: "rest_groups k (nat (s_groups_count (sbi sb2))) sb2 g my_rsv wsz m = Some (res, sb')"
        "search_post k sb2 sb' my_rsv m res"
        "my_rsv = None \<longrightarrow> (\<exists>m. res = NotFound m) \<longrightarrow>
           (\<forall>j \<in> {1..int (nat ?N)}. group_full sb2 ((g + j) mod ?N))"
      by (auto simp: f)
    have "free_set sb = {}" if "my_rsv = None" "\<exists>m. res = NotFound m"
      using full r(3) that same_but_rsv_group_full [OF s(1)] by simp
    then show ?thesis using r search_post_trans [OF r(2) s(1,3) node] by blast
  qed
  show ?thesis
  proof (cases "0 < uint (bg_free_blocks_count (gdesc sb g))")
    case False
    then have "search_all k sb goal g my_rsv wsz num = rest_groups k (nat ?N) sb g my_rsv wsz num"
      by (simp add: search_all_def)
    then show ?thesis using rest [of sb num] num(1) rsv_ready_mono [OF rsv] by simp
  next
    case True
    have "0 \<le> ?gl" "?gl < ?B" using B by simp_all
    then have gl: "- 1 \<le> ?gl" "?gl < ?B" "\<not> ?gl < 0" by linarith+
    obtain res1 sb2 where t: "try_group k sb g ?gl my_rsv num = Some (res1, sb2)" "search_post k sb sb2 my_rsv num res1"
      using try_group_ok [OF ok io num gl(1,2), of my_rsv] rsv gl(3) by auto
    show ?thesis
    proof (cases res1)
      case (NotFound m)
      then have "search_all k sb goal g my_rsv wsz num =
          rest_groups k (nat (s_groups_count (sbi sb2))) sb2 g my_rsv wsz m"
        using True t(1) by (simp add: search_all_def)
      then show ?thesis using rest [of sb2 m] t(2) NotFound by (simp add: search_post_def)
    next
      case (Found g' r' n')
      then show ?thesis using True t by (simp add: search_all_def)
    qed (use t(2) in \<open>simp add: search_post_def\<close>)
  qed
qed

lemma retry_alloc_pass:
  assumes ok: "fs_ok sb" "0 \<le> g" "g < s_groups_count (sbi sb)"
    and s: "search_all k sb goal g r1 wsz num = Some (res, sb3)"
    and r1: "r1 = (case my_rsv of None \<Rightarrow> None
       | Some p \<Rightarrow> if uint (bg_free_blocks_count (gdesc sb g)) < wsz \<and>
            0 < uint (bg_free_blocks_count (gdesc sb g)) \<and> rsv_is_empty sb p then None else Some p)"
    and found: "\<And>g' r n. res = Found g' r n \<Longrightarrow> claimed sb sb3 num g' r n" and num: "num \<le> 268435456"
  shows "retry_alloc k sb goal gg g my_rsv wsz num =
     (case res of
        SearchIOError \<Rightarrow> Some (ExitOut False EIO, sb3)
      | NotFound m \<Rightarrow> if r1 \<noteq> None then retry_alloc k sb3 goal gg gg None 0 m else Some (ExitOut False ENOSPC, sb3)
      | Found g' r n \<Rightarrow>
          let sb4 = group_adjust_blocks sb3 g' (- n) in
          Some (ExitAllocated (kr_group_first_block_no sb g' + r) n, freeblocks_add (- n) sb4))"
proof -
  have gd: "kr_get_group_desc k sb g = Some (Some (gdesc sb g), sb)" using ok by (simp add: fs_ok_def)
  let ?free = "uint (bg_free_blocks_count (gdesc sb g))"
  have eq: "retry_alloc k sb goal gg g my_rsv wsz num = do {
      (res2, sb3) \<leftarrow> search_all k sb goal g r1 wsz num;
      case res2 of
          SearchIOError \<Rightarrow> Some (ExitOut False EIO, sb3)
        | NotFound num2 \<Rightarrow>
            if r1 \<noteq> None then retry_alloc k sb3 goal gg gg None 0 num2 else Some (ExitOut False ENOSPC, sb3)
        | Found g blk num2 \<Rightarrow>
            let ret_block = u64 (blk + kr_group_first_block_no sb3 g) in
            if in_system_zone sb3 (gdesc sb3 g) ret_block num2 then do {
              sb4 \<leftarrow> kr_error k sb3; retry_alloc k sb4 goal gg g r1 wsz num2 }
            else if uint (es_blocks_count (es sb3)) \<le> u64 (ret_block + num2 - 1) then do {
              sb4 \<leftarrow> kr_error k sb3; Some (ExitOut True ENOSPC, sb4) }
            else
              let sb4 = group_adjust_blocks sb3 g (s32 (- num2)) in
              Some (ExitAllocated ret_block num2, freeblocks_add (- num2) sb4) }"
    unfolding retry_alloc.simps [of k sb goal gg g] gd search_all_def Let_def Option.bind_lunit prod.case
      option.case r1 [symmetric]
    by (cases "try_group k sb g ((goal - uint (es_first_data_block (es sb))) mod KR_BLOCKS_PER_GROUP sb) r1 num")
      (auto split: prod.splits)
  show ?thesis
  proof (cases res)
    case (Found g' r n)
    note c = commit_eq [OF ok(1) found [OF Found] num]
    show ?thesis unfolding eq using s by (simp add: Found c)
  qed (simp_all add: eq s)
qed


lemma group_search_exit:
  assumes ok: "fs_ok sb" and c: "claimed sb sb3 num g r n"
  defines "sb4 \<equiv> group_adjust_blocks sb3 g (- n)"
  shows "exit_post sb (freeblocks_add (- n) sb4) num
     (ExitAllocated (kr_group_first_block_no sb g + r) n)"
proof -
  have "same_files sb (freeblocks_add (- n) sb4)"
    using c by (auto simp: claimed_def Let_def sb4_def same_files_def freeblocks_add_def group_adjust_blocks_def
        set_gdesc_def elim!: same_but_rsvE)
  then show ?thesis
    using claimed_committed [OF ok c] claimed_run(3) [OF ok c] c
    by (simp add: exit_post_def sb4_def claimed_def Let_def)
qed

lemma commit_rsv_node [simp]: "rsv_node (freeblocks_add n (group_adjust_blocks sb g m)) = rsv_node sb"
  by (simp add: freeblocks_add_def group_adjust_blocks_def Let_def)

lemma retry_alloc_no_window:
  assumes io: "io_ok k" and ok: "fs_ok sb" "0 \<le> g" "g < s_groups_count (sbi sb)"
    and num: "0 \<le> num" "num \<le> 268435456"
  shows "\<exists>ex sb'. retry_alloc k sb goal gg g None wsz num = Some (ex, sb') \<and> exit_post sb sb' num ex \<and>
     rsv_node sb' = rsv_node sb"
proof -
  have "rsv_ready k sb None 536870912" by (simp add: rsv_ready_def)
  then obtain res sb3 where s: "search_all k sb goal g None wsz num = Some (res, sb3)"
      "search_post k sb sb3 None num res" "(\<exists>m. res = NotFound m) \<longrightarrow> free_set sb = {}"
    using search_all_ok [OF io ok num] by blast
  have found: "claimed sb sb3 num g' r n" if "res = Found g' r n" for g' r n
    using s(2) that by (simp add: search_post_def)
  have node: "rsv_node sb3 = rsv_node sb" using s(2) by (simp add: search_post_def)
  note pass = retry_alloc_pass [OF ok s(1) _ found num(2), of None gg]
  show ?thesis
  proof (cases res)
    case (Found g' r n)
    show ?thesis using pass group_search_exit [OF ok(1) found [OF Found]] node by (simp add: Found Let_def)
  next
    case (NotFound m)
    then have "same_but_rsv sb sb3" "free_set sb = {}" using s(2,3) by (simp_all add: search_post_def)
    then have "exit_post sb sb3 num (ExitOut False ENOSPC)"
      using ok(1) same_but_rsv_gdesc(6,7,8) same_but_rsvD(3) same_but_rsv_files by (simp add: exit_post_def)
    then show ?thesis using pass NotFound node by simp
  qed (use s(2) in \<open>simp add: search_post_def\<close>)
qed

lemma exit_post_trans:
  assumes "exit_post sb1 sb2 m ex" "same_but_rsv sb sb1" "m \<le> num"
  shows "exit_post sb sb2 num ex"
  using assms(1,3) same_but_rsv_gdesc(7,8) [OF assms(2)] same_but_rsvD(3) [OF assms(2)]
    same_files_trans [OF same_but_rsv_files [OF assms(2)]]
  by (auto simp: exit_post_def split: new_blocks_exit.splits)

text \<open>
  Every allocation returns: with free blocks, or with \<^verbatim>\<open>ENOSPC\<close> on a full file system. With
  a window the search is done at most twice.
\<close>

lemma retry_alloc_ok:
  assumes io: "io_ok k" and ok: "fs_ok sb" "0 \<le> g" "g < s_groups_count (sbi sb)"
    and num: "0 \<le> num" "num \<le> 268435456" and rsv: "rsv_ready k sb my_rsv 536870912"
  shows "\<exists>ex sb'. retry_alloc k sb goal g g my_rsv wsz num = Some (ex, sb') \<and> exit_post sb sb' num ex \<and>
     (my_rsv = None \<longrightarrow> rsv_node sb' = rsv_node sb)"
proof -
  define r1 where "r1 = (case my_rsv of None \<Rightarrow> None
       | Some p \<Rightarrow> if uint (bg_free_blocks_count (gdesc sb g)) < wsz \<and>
            0 < uint (bg_free_blocks_count (gdesc sb g)) \<and> rsv_is_empty sb p then None else Some p)"
  have "rsv_ready k sb r1 536870912" using rsv by (auto simp: r1_def rsv_ready_def split: option.splits)
  then obtain res sb3 where s: "search_all k sb goal g r1 wsz num = Some (res, sb3)"
      "search_post k sb sb3 r1 num res" "r1 = None \<longrightarrow> (\<exists>m. res = NotFound m) \<longrightarrow> free_set sb = {}"
    using search_all_ok [OF io ok num] by blast
  have found: "claimed sb sb3 num g' r n" if "res = Found g' r n" for g' r n
    using s(2) that by (simp add: search_post_def)
  have node: "my_rsv = None \<longrightarrow> rsv_node sb3 = rsv_node sb" using s(2) by (simp add: search_post_def r1_def)
  note pass = retry_alloc_pass [OF ok s(1) r1_def found num(2), of g]
  show ?thesis
  proof (cases res)
    case (Found g' r n)
    show ?thesis using pass group_search_exit [OF ok(1) found [OF Found]] node by (simp add: Found Let_def)
  next
    case (NotFound m)
    then have m: "same_but_rsv sb sb3" "0 \<le> m" "m \<le> num" using s(2) by (simp_all add: search_post_def)
    have ok3: "fs_ok sb3" "g < s_groups_count (sbi sb3)" "free_set sb3 = free_set sb" "sbi sb3 = sbi sb" "data_set sb3 = data_set sb"
      using ok same_but_rsv_gdesc(6,7,8) [OF m(1)] same_but_rsvD(3) [OF m(1)] by simp_all
    show ?thesis
    proof (cases "r1 = None")
      case True
      then have "exit_post sb sb3 num (ExitOut False ENOSPC)"
        using ok3 s(3) NotFound same_but_rsv_files [OF m(1)] by (simp add: exit_post_def)
      then show ?thesis using pass NotFound True node by simp
    next
      case False
      have "m \<le> 268435456" using m(3) num(2) by simp
      then obtain ex sb' where "retry_alloc k sb3 goal g g None 0 m = Some (ex, sb')" "exit_post sb3 sb' m ex"
        using retry_alloc_no_window [OF io ok3(1) ok(2) ok3(2) m(2)] by blast
      moreover have "my_rsv \<noteq> None" using False by (cases my_rsv) (auto simp: r1_def)
      ultimately show ?thesis using pass NotFound False exit_post_trans [OF _ m(1,3)] by auto
    qed
  qed (use s(2) in \<open>simp add: search_post_def\<close>)
qed

text \<open>The quota calls of the VFS: what they do to the inode is theirs.\<close>

lemma kr_new_blocks_ok:
  assumes io: "io_ok k" and ok: "fs_ok sb" and num: "1 \<le> count" "count \<le> 268435456"
    and quota: "k_dquot_alloc_block k ino count = (None, ino1)"
    and rsv: "i_block_alloc_info ino \<noteq> None \<Longrightarrow> rsv_goal_size (rsv_node sb (rsv_of ino)) \<noteq> 0 \<Longrightarrow>
      rsv_ready k sb (Some (rsv_of ino)) 536870912"
  shows "\<exists>res sb' ino'. kr_new_blocks k sb ino goal count = Some (res, sb', ino') \<and> fs_ok sb' \<and>
     same_files sb sb' \<and>
     (i_block_alloc_info ino = None \<or> rsv_goal_size (rsv_node sb (rsv_of ino)) = 0 \<longrightarrow> rsv_node sb' = rsv_node sb) \<and>
     (case res of
        Inr (b, n) \<Rightarrow> 1 \<le> n \<and> n \<le> count \<and> {b..<b + n} \<subseteq> free_set sb \<and>
          free_set sb' = free_set sb - {b..<b + n} \<and> freeable sb' b n \<and> data_set sb' = data_set sb \<union> {b..<b + n} \<and>
          sbi sb' = (sbi sb)\<lparr>s_freeblocks_counter := s_freeblocks_counter (sbi sb) - n\<rparr> \<and>
          ino' = (if n < count then k_dquot_free_block k ino1 (count - n) else ino1)
      | Inl e \<Rightarrow> e = ENOSPC \<and> free_set sb' = free_set sb \<and> data_set sb' = data_set sb \<and> sbi sb' = sbi sb \<and>
          ino' = k_dquot_free_block k ino1 count \<and> (kr_has_free_blocks k sb \<longrightarrow> free_set sb = {}))"
proof (cases "kr_has_free_blocks k sb")
  case False
  then show ?thesis using quota ok by (simp add: kr_new_blocks_def)
next
  case True
  let ?f = "uint (es_first_data_block (es sb))" and ?B = "KR_BLOCKS_PER_GROUP sb"
  define wsz where "wsz = (case i_block_alloc_info ino of None \<Rightarrow> 0
      | Some _ \<Rightarrow> u16 (uint (rsv_goal_size (rsv_node sb (rsv_of ino)))))"
  define my_rsv where "my_rsv = (if 0 < wsz then Some (rsv_of ino) else None)"
  define gl where "gl = (if goal < ?f \<or> uint (es_blocks_count (es sb)) \<le> goal then ?f else goal)"
  define g where "g = (gl - ?f) div ?B"
  have gl: "?f \<le> gl" "gl < uint (es_blocks_count (es sb))" using ok by (auto simp: gl_def fs_ok_def)
  have g: "0 \<le> g" "g < s_groups_count (sbi sb)" using group_of_range(1,2) [OF ok gl] by (simp_all add: g_def group_of_def)
  have s32: "s32 g = g" using g ok by (intro s32_id) (auto simp: fs_ok_def gd_ok_def)
  have "rsv_ready k sb my_rsv 536870912"
  proof (cases "0 < wsz")
    case True
    then have "i_block_alloc_info ino \<noteq> None" "rsv_goal_size (rsv_node sb (rsv_of ino)) \<noteq> 0"
      by (auto simp: wsz_def u16_def split: option.splits)
    then show ?thesis using True rsv by (simp add: my_rsv_def)
  qed (simp add: my_rsv_def rsv_ready_def)
  then obtain ex sb' where r: "retry_alloc k sb gl g g my_rsv wsz count = Some (ex, sb')" "exit_post sb sb' count ex"
      "my_rsv = None \<longrightarrow> rsv_node sb' = rsv_node sb"
    using retry_alloc_ok [OF io ok g _ num(2)] num(1) by fastforce
  have "my_rsv = None" if "i_block_alloc_info ino = None \<or> rsv_goal_size (rsv_node sb (rsv_of ino)) = 0"
    using that by (auto simp: my_rsv_def wsz_def u16_def split: option.splits)
  note node = this
  have B: "0 < ?B" using ok by (simp add: fs_ok_def)
  have eq: "kr_new_blocks k sb ino goal count = Some (case ex of
        ExitOut performed e \<Rightarrow> (Inl e, sb', if performed then ino1 else k_dquot_free_block k ino1 count)
      | ExitAllocated b n \<Rightarrow> (Inr (b, if n < count then n else count), sb',
           if n < count then k_dquot_free_block k ino1 (count - n) else ino1))"
    unfolding kr_new_blocks_def quota prod.case option.case Let_def wsz_def [symmetric] my_rsv_def [symmetric]
      gl_def [symmetric] g_def [symmetric] s32
    using True B r(1) by simp
  show ?thesis
  proof (cases ex)
    case (ExitOut performed e)
    then show ?thesis using r(2,3) node unfolding eq by (auto simp: exit_post_def)
  next
    case (ExitAllocated b n)
    then have "n \<le> count" using r(2) num(1) by (simp add: exit_post_def)
    then have "(if n < count then n else count) = n" by simp
    then show ?thesis using r(2,3) node ExitAllocated \<open>n \<le> count\<close> unfolding eq by (auto simp: exit_post_def)
  qed
qed

lemma kr_free_blocks_ok:
  assumes io: "io_ok k" and ok: "fs_ok sb" and range: "freeable sb block count" "count < 2147483648"
  shows "\<exists>sb'. kr_free_blocks k sb ino block count = Some (sb', k_dquot_free_block k ino count) \<and> fs_ok sb' \<and>
     free_set sb' = free_set sb \<union> {block..<block + count} \<and>
     sbi sb' = (sbi sb)\<lparr>s_freeblocks_counter := s_freeblocks_counter (sbi sb) + count\<rparr> \<and>
     same_files sb sb' \<and> rsv_node sb' = rsv_node sb \<and> data_set sb' = data_set sb - {block..<block + count} \<and>
     (\<exists>s. blocks_changed sb s \<and> sb' = freeblocks_add count s)"
proof -
  obtain sb' where f: "free_groups k sb block count 0 = Some (count, sb')" "fs_ok sb'"
      "free_set sb' = free_set sb \<union> {block..<block + count}" "sbi sb' = sbi sb"
      "same_files sb sb'" "rsv_node sb' = rsv_node sb" "data_set sb' = data_set sb - {block..<block + count}"
      "blocks_changed sb sb'"
    using free_groups_ok [OF io ok range(1), of 0] range(2) by auto
  note fr = range(1) [unfolded freeable_def]
  have "uint (es_blocks_count (es sb)) < 4294967296" "0 \<le> uint (es_first_data_block (es sb))" by simp_all
  then have u: "u64 (block + count) = block + count" using fr by (intro u64_id) linarith+
  have "\<not> (block < uint (es_first_data_block (es sb)) \<or> u64 (block + count) < block \<or>
      uint (es_blocks_count (es sb)) < u64 (block + count))" using fr u by auto
  moreover have "same_files sb (freeblocks_add count sb')" "rsv_node (freeblocks_add count sb') = rsv_node sb"
    using f(5,6) by (simp_all add: freeblocks_add_def same_files_def)
  ultimately show ?thesis using f fr by (auto simp: kr_free_blocks_def)
qed

section \<open>The allocator as an interface\<close>

text \<open>
  What a client of the block allocator may rely on, over an abstract set of free blocks:
  an allocation hands out blocks that were free, blocks that may be given back are in use,
  and giving them back makes them free again. \<open>ready\<close> is what an allocation asks of the file
  it is for, \<open>avail\<close> the counter of free blocks.
\<close>

locale block_allocator =
  fixes inv :: "'s \<Rightarrow> bool" and free :: "'s \<Rightarrow> int set" and avail :: "'s \<Rightarrow> int"
    and returnable :: "'s \<Rightarrow> int \<Rightarrow> int \<Rightarrow> bool" and ready :: "'s \<Rightarrow> 'f \<Rightarrow> bool"
    and new_blocks :: "'s \<Rightarrow> 'f \<Rightarrow> int \<Rightarrow> int \<Rightarrow> ((errno + int \<times> int) \<times> 's \<times> 'f) option"
    and free_blocks :: "'s \<Rightarrow> 'f \<Rightarrow> int \<Rightarrow> int \<Rightarrow> ('s \<times> 'f) option"
  assumes new_blocks_ok:
    "inv s \<Longrightarrow> ready s f \<Longrightarrow> 1 \<le> count \<Longrightarrow> count \<le> 268435456 \<Longrightarrow>
     \<exists>res s' f'. new_blocks s f goal count = Some (res, s', f') \<and> inv s' \<and>
       (case res of
          Inr (b, n) \<Rightarrow> 1 \<le> n \<and> n \<le> count \<and> {b..<b + n} \<subseteq> free s \<and> free s' = free s - {b..<b + n} \<and>
            avail s' = avail s - n \<and> returnable s' b n
        | Inl e \<Rightarrow> free s' = free s \<and> avail s' = avail s)"
  and free_blocks_ok:
    "inv s \<Longrightarrow> returnable s b n \<Longrightarrow> n < 2147483648 \<Longrightarrow>
     \<exists>s' f'. free_blocks s f b n = Some (s', f') \<and> inv s' \<and> free s' = free s \<union> {b..<b + n} \<and> avail s' = avail s + n"
begin

text \<open>Blocks that are allocated and given back leave the free blocks as they were.\<close>

lemma round_trip:
  assumes "inv s" "ready s f" "1 \<le> count" "count \<le> 268435456" "new_blocks s f goal count = Some (Inr (b, n), s', f')"
  shows "\<exists>s'' f''. free_blocks s' owner b n = Some (s'', f'') \<and> inv s'' \<and> free s'' = free s \<and> avail s'' = avail s"
proof -
  have n: "inv s'" "n \<le> count" "{b..<b + n} \<subseteq> free s" "free s' = free s - {b..<b + n}" "avail s' = avail s - n" "returnable s' b n"
    using new_blocks_ok [OF assms(1-4), of goal] assms(5) by auto
  then obtain s'' f'' where "free_blocks s' owner b n = Some (s'', f'')" "inv s''" "free s'' = free s' \<union> {b..<b + n}" "avail s'' = avail s' + n"
    using free_blocks_ok [of s' b n owner] assms(4) by auto
  then show ?thesis using n by auto
qed

text \<open>No block is handed out twice, for the same file or for two.\<close>

lemma allocations_disjoint:
  assumes "inv s" "ready s f1" "1 \<le> c1" "c1 \<le> 268435456" "new_blocks s f1 goal1 c1 = Some (Inr (b1, n1), s1, f1')"
    and "ready s1 f2" "1 \<le> c2" "c2 \<le> 268435456" "new_blocks s1 f2 goal2 c2 = Some (Inr (b2, n2), s2, f2')"
  shows "{b1..<b1 + n1} \<inter> {b2..<b2 + n2} = {}"
proof -
  have 1: "inv s1" "free s1 = free s - {b1..<b1 + n1}" using new_blocks_ok [OF assms(1-4), of goal1] assms(5) by auto
  have "{b2..<b2 + n2} \<subseteq> free s1" using new_blocks_ok [OF 1(1) assms(6-8), of goal2] assms(9) by auto
  then show ?thesis unfolding 1(2) by blast
qed

end

text \<open>
  The model as an instance. The state is the kernel underneath and the super block; quota
  grants every request and there are no disk errors. An inode may use a window: then the
  windows are sorted and disjoint, and its own is not longer than \<open>2 ^ 29\<close> blocks.
\<close>

definition same_but_blocks :: "inode \<Rightarrow> inode \<Rightarrow> bool" where
  "same_but_blocks i i' = (i'\<lparr>i_blocks := 0\<rparr> = i\<lparr>i_blocks := 0\<rparr>)"

definition quota_ok :: "kernel \<Rightarrow> bool" where
  "quota_ok k =
     (\<forall>i c. fst (k_dquot_alloc_block k i c) = None \<and>
        same_but_blocks i (snd (k_dquot_alloc_block k i c)) \<and> same_but_blocks i (k_dquot_free_block k i c))"

lemma same_but_blocks_refl [simp]: "same_but_blocks i i"
  by (simp add: same_but_blocks_def)

lemma same_but_blocks_trans: "same_but_blocks a b \<Longrightarrow> same_but_blocks b c \<Longrightarrow> same_but_blocks a c"
  by (simp add: same_but_blocks_def)

lemma same_but_blocksD:
  assumes "same_but_blocks i i'"
  shows "i_ino i' = i_ino i" "i_data i' = i_data i" "i_block_alloc_info i' = i_block_alloc_info i"
    "i_mode i' = i_mode i" "vfs_flags i' = vfs_flags i" "i_block_group i' = i_block_group i" "i_size i' = i_size i"
  by (use assms in \<open>cases i; cases i'; simp add: same_but_blocks_def\<close>)+

definition window_ready :: "kernel \<Rightarrow> super_block \<Rightarrow> inode \<Rightarrow> bool" where
  "window_ready k sb ino =
     (i_block_alloc_info ino \<noteq> None \<longrightarrow> rsv_goal_size (rsv_node sb (rsv_of ino)) \<noteq> 0 \<longrightarrow> rsv_ready k sb (Some (rsv_of ino)) 536870912)"

definition balloc_inv :: "kernel \<times> super_block \<Rightarrow> bool" where
  "balloc_inv = (\<lambda>(k, sb). io_ok k \<and> quota_ok k \<and> fs_ok sb)"

definition balloc_new ::
  "kernel \<times> super_block \<Rightarrow> inode \<Rightarrow> int \<Rightarrow> int \<Rightarrow> ((errno + int \<times> int) \<times> (kernel \<times> super_block) \<times> inode) option" where
  "balloc_new = (\<lambda>(k, sb) ino goal count.
     map_option (\<lambda>(res, sb', ino'). (res, (k, sb'), ino')) (kr_new_blocks k sb ino goal count))"

definition balloc_free ::
  "kernel \<times> super_block \<Rightarrow> inode \<Rightarrow> int \<Rightarrow> int \<Rightarrow> ((kernel \<times> super_block) \<times> inode) option" where
  "balloc_free = (\<lambda>(k, sb) ino b n. map_option (\<lambda>(sb', ino'). ((k, sb'), ino')) (kr_free_blocks k sb ino b n))"

lemma kr_new_blocks_inode:
  assumes "quota_ok k" "kr_new_blocks k sb ino goal count = Some (res, sb', ino')"
  shows "same_but_blocks ino ino'"
proof -
  obtain ino1 where q: "k_dquot_alloc_block k ino count = (None, ino1)"
    using assms(1) unfolding quota_ok_def by (metis prod.collapse)
  then have i1: "same_but_blocks ino ino1" using assms(1) unfolding quota_ok_def by (metis snd_conv)
  obtain ex where "ino' = (case ex of
        ExitOut performed e \<Rightarrow> if performed then ino1 else k_dquot_free_block k ino1 count
      | ExitAllocated b n \<Rightarrow> if n < count then k_dquot_free_block k ino1 (count - n) else ino1)"
    using assms(2) unfolding kr_new_blocks_def q prod.case option.case Let_def bind_eq_Some_conv
    by (fastforce split: new_blocks_exit.splits)
  then show ?thesis
    using i1 assms(1) same_but_blocks_trans [OF i1] by (auto simp: quota_ok_def split: new_blocks_exit.splits)
qed

interpretation balloc: block_allocator balloc_inv "\<lambda>(k, sb). free_set sb" "\<lambda>(k, sb). s_freeblocks_counter (sbi sb)"
  "\<lambda>(k, sb). freeable sb" "\<lambda>(k, sb). window_ready k sb" balloc_new balloc_free
proof
  fix s :: "kernel \<times> super_block" and ino :: inode and goal count :: int
  assume a: "balloc_inv s" "(case s of (k, sb) \<Rightarrow> window_ready k sb) ino" "1 \<le> count" "count \<le> 268435456"
  obtain k sb where s: "s = (k, sb)" by (cases s)
  have i: "io_ok k" "quota_ok k" "fs_ok sb" "window_ready k sb ino" using a(1,2) by (auto simp: s balloc_inv_def)
  obtain ino1 where q: "k_dquot_alloc_block k ino count = (None, ino1)" using i(2) unfolding quota_ok_def by (metis prod.collapse)
  obtain res sb' ino' where r: "kr_new_blocks k sb ino goal count = Some (res, sb', ino')" "fs_ok sb'"
     "case res of
        Inr (b, n) \<Rightarrow> 1 \<le> n \<and> n \<le> count \<and> {b..<b + n} \<subseteq> free_set sb \<and>
          free_set sb' = free_set sb - {b..<b + n} \<and> freeable sb' b n \<and>
          s_freeblocks_counter (sbi sb') = s_freeblocks_counter (sbi sb) - n
      | Inl e \<Rightarrow> free_set sb' = free_set sb \<and> sbi sb' = sbi sb"
    using kr_new_blocks_ok [OF i(1,3) a(3,4) q, of goal] i(4) unfolding window_ready_def by (fastforce split: sum.splits)
  then show "\<exists>res s' f'. balloc_new s ino goal count = Some (res, s', f') \<and> balloc_inv s' \<and>
       (case res of
          Inr (b, n) \<Rightarrow> 1 \<le> n \<and> n \<le> count \<and> {b..<b + n} \<subseteq> (case s of (k, sb) \<Rightarrow> free_set sb) \<and>
            (case s' of (k, sb) \<Rightarrow> free_set sb) = (case s of (k, sb) \<Rightarrow> free_set sb) - {b..<b + n} \<and>
            (case s' of (k, sb) \<Rightarrow> s_freeblocks_counter (sbi sb)) = (case s of (k, sb) \<Rightarrow> s_freeblocks_counter (sbi sb)) - n \<and>
            (case s' of (k, sb) \<Rightarrow> freeable sb) b n
        | Inl e \<Rightarrow> (case s' of (k, sb) \<Rightarrow> free_set sb) = (case s of (k, sb) \<Rightarrow> free_set sb) \<and>
            (case s' of (k, sb) \<Rightarrow> s_freeblocks_counter (sbi sb)) = (case s of (k, sb) \<Rightarrow> s_freeblocks_counter (sbi sb)))"
    using i by (intro exI [of _ res] exI [of _ "(k, sb')"] exI [of _ ino']) (auto simp: s balloc_new_def balloc_inv_def split: sum.splits)
next
  fix s :: "kernel \<times> super_block" and ino :: inode and b n :: int
  assume a: "balloc_inv s" "(case s of (k, sb) \<Rightarrow> freeable sb) b n" "n < 2147483648"
  obtain k sb where s: "s = (k, sb)" by (cases s)
  have i: "io_ok k" "fs_ok sb" "freeable sb b n" using a(1,2) by (auto simp: s balloc_inv_def)
  from kr_free_blocks_ok [OF i a(3), of ino]
  show "\<exists>s' f'. balloc_free s ino b n = Some (s', f') \<and> balloc_inv s' \<and>
      (case s' of (k, sb) \<Rightarrow> free_set sb) = (case s of (k, sb) \<Rightarrow> free_set sb) \<union> {b..<b + n} \<and>
      (case s' of (k, sb) \<Rightarrow> s_freeblocks_counter (sbi sb)) = (case s of (k, sb) \<Rightarrow> s_freeblocks_counter (sbi sb)) + n"
    using a(1) by (auto simp: s balloc_free_def balloc_inv_def)
qed

section \<open>Super block backups\<close>

lemma test_root_loop_pow:
  assumes "2 \<le> b" "b \<le> 7" "a \<le> 306783378" "1 \<le> n" "\<forall>m. 1 \<le> m \<and> m < n \<longrightarrow> b ^ m \<noteq> a" "b ^ n \<le> 306783378 * b"
  shows "test_root_loop a b (b ^ n) = Some (\<exists>m \<ge> 1. a = b ^ m)"
  using assms(4-6)
proof (induction "nat (a - b ^ n)" arbitrary: n rule: less_induct)
  case less
  have pos: "1 \<le> b ^ n" using assms(1) by simp
  show ?case
  proof (cases "b ^ n < a")
    case True
    have "b ^ n * b \<le> 306783378 * 7"
      using True assms(1-3) pos by (intro mult_mono) auto
    moreover have "0 \<le> b ^ n * b" using pos assms(1) by (intro mult_nonneg_nonneg) auto
    ultimately have "s32 (b ^ n * b) = b ^ n * b" by (intro s32_id) linarith+
    then have s: "s32 (b ^ n * b) = b ^ Suc n" by (simp add: mult.commute)
    have lt: "b ^ n < b ^ Suc n" using assms(1) by (intro power_strict_increasing) auto
    have "test_root_loop a b (b ^ Suc n) = Some (\<exists>m \<ge> 1. a = b ^ m)"
    proof (rule less.hyps)
      show "nat (a - b ^ Suc n) < nat (a - b ^ n)" using lt True by linarith
      show "\<forall>m. 1 \<le> m \<and> m < Suc n \<longrightarrow> b ^ m \<noteq> a" using less.prems(2) True by (auto simp: less_Suc_eq)
      show "b ^ Suc n \<le> 306783378 * b" using True assms(1,3) by (simp add: mult.commute)
    qed simp
    then show ?thesis using True by (simp add: test_root_loop.simps [of a b "b ^ n"] s)
  next
    case False
    have "(\<exists>m \<ge> 1. a = b ^ m) \<longleftrightarrow> b ^ n = a"
    proof
      assume "\<exists>m \<ge> 1. a = b ^ m"
      then obtain m where m: "1 \<le> m" "a = b ^ m" by blast
      have "b ^ m \<le> b ^ n" using False m by simp
      then have "m \<le> n" using assms(1) by (simp add: power_increasing_iff)
      then show "b ^ n = a" using less.prems(2) m by (cases "m = n") auto
    qed (use less.prems(1) in auto)
    then show ?thesis using False by (simp add: test_root_loop.simps [of a b "b ^ n"])
  qed
qed

lemma test_root_pow:
  assumes "2 \<le> b" "b \<le> 7" "a \<le> 306783378"
  shows "test_root a b = Some (\<exists>m \<ge> 1. a = b ^ m)"
  using test_root_loop_pow [OF assms, of 1] assms by (simp add: test_root_def)

end
