(* ===== verification/Kr_Ialloc.thy ===== *)
theory Kr_Ialloc
  imports Kr_Balloc Kr_Flags
begin

text \<open>
  Inode allocation (\<^verbatim>\<open>ialloc.c\<close>): the inode bitmaps, the choice of a group for a new inode
  (the old directory policy, Orlov's policy, and the policy for files), and
  \<^verbatim>\<open>kr_new_inode\<close> and \<^verbatim>\<open>kr_free_inode\<close>.

  The sources run these functions concurrently; the model runs one at a time, so the branch
  for a lost race in \<^verbatim>\<open>kr_new_inode\<close> is there and is never taken. The root directory is the
  inode with number \<^verbatim>\<open>KR_ROOT_INO\<close>, from which \<^verbatim>\<open>kr_fill_super\<close> makes \<^verbatim>\<open>sb->s_root\<close>.
\<close>

section \<open>Model: reading and releasing\<close>

definition read_inode_bitmap :: "kernel \<Rightarrow> super_block \<Rightarrow> int \<Rightarrow> (int option \<times> super_block) option" where
  "read_inode_bitmap k sb block_group =
     do { (desc, sb1) \<leftarrow> kr_get_group_desc k sb block_group;
          case desc of None \<Rightarrow> Some (None, sb1)
          | Some d \<Rightarrow>
              let blk = uint (bg_inode_bitmap d) in
              if k_getblk k blk \<and> (k_uptodate k blk \<or> k_bread k blk) then Some (Some blk, sb1)
              else do { sb2 \<leftarrow> kr_error k sb1; Some (None, sb2) } }"

definition kr_release_inode :: "kernel \<Rightarrow> super_block \<Rightarrow> int \<Rightarrow> bool \<Rightarrow> super_block option" where
  "kr_release_inode k sb g dir =
     do { (desc, sb1) \<leftarrow> kr_get_group_desc k sb g;
          case desc of None \<Rightarrow> kr_error k sb1
          | Some d \<Rightarrow>
              let d1 = d\<lparr>bg_free_inodes_count := bg_free_inodes_count d + 1\<rparr>;
                  d2 = (if dir then d1\<lparr>bg_used_dirs_count := bg_used_dirs_count d1 - 1\<rparr> else d1);
                  sb2 = set_gdesc (u32 g) d2 sb1
              in Some (if dir
                       then sb2\<lparr>sbi := (sbi sb2)\<lparr>s_dirs_counter := s_dirs_counter (sbi sb2) - 1\<rparr>\<rparr>
                       else sb2) }"

definition kr_free_inode :: "kernel \<Rightarrow> super_block \<Rightarrow> inode \<Rightarrow> super_block option" where
  "kr_free_inode k sb inode =
     (let ino = i_ino inode; is_directory = S_ISDIR (i_mode inode) in
      if ino < KR_FIRST_INO sb \<or> uint (es_inodes_count (es sb)) < ino then kr_error k sb
      else if KR_INODES_PER_GROUP sb \<le> 0 then None
      else
        let block_group = u64 (ino - 1) div KR_INODES_PER_GROUP sb;
            bit = u64 (ino - 1) mod KR_INODES_PER_GROUP sb
        in do {
          (bitmap_bh, sb1) \<leftarrow> read_inode_bitmap k sb block_group;
          case bitmap_bh of None \<Rightarrow> Some sb1
          | Some blk \<Rightarrow> do {
              (old, bm) \<leftarrow> clear_bit_le bit (b_data sb1 blk);
              let sb2 = sb1\<lparr>b_data := (b_data sb1)(blk := bm)\<rparr>;
              if \<not> old then kr_error k sb2
              else kr_release_inode k sb2 (s32 block_group) is_directory } })"

text \<open>The result is the block that is read ahead, if any.\<close>

definition kr_preread_inode :: "kernel \<Rightarrow> super_block \<Rightarrow> int \<Rightarrow> (int option \<times> super_block) option" where
  "kr_preread_inode k sb ino =
     (if k_congested k then Some (None, sb)
      else if KR_INODES_PER_GROUP sb \<le> 0 then None
      else do {
        (gdp, sb1) \<leftarrow> kr_get_group_desc k sb (u64 (ino - 1) div KR_INODES_PER_GROUP sb);
        case gdp of None \<Rightarrow> Some (None, sb1)
        | Some d \<Rightarrow>
            let offset = u64 ((u64 (ino - 1) mod KR_INODES_PER_GROUP sb) * s_inode_size (sbi sb1)) in
            Some (Some (u64 (uint (bg_inode_table d) + drop_bit (s_blocksize_bits sb1) offset)), sb1) })"

section \<open>Model: choosing a group\<close>

text \<open>\<^verbatim>\<open>find_group_dir\<close>: the loop over the groups, with the best one so far.\<close>

fun group_dir_loop ::
  "kernel \<Rightarrow> int \<Rightarrow> nat \<Rightarrow> int \<Rightarrow> (int \<times> kr_group_desc) option \<Rightarrow> super_block \<Rightarrow>
   ((int \<times> kr_group_desc) option \<times> super_block) option"
where
  "group_dir_loop k avefreei 0 g best sb = Some (best, sb)"
| "group_dir_loop k avefreei (Suc n) g best sb =
     do { (desc, sb1) \<leftarrow> kr_get_group_desc k sb g;
          group_dir_loop k avefreei n (g + 1)
            (case desc of None \<Rightarrow> best
             | Some d \<Rightarrow>
                 if bg_free_inodes_count d = 0 then best
                 else if uint (bg_free_inodes_count d) < avefreei then best
                 else (case best of None \<Rightarrow> Some (g, d)
                       | Some (_, best_desc) \<Rightarrow>
                           if uint (bg_free_blocks_count best_desc) < uint (bg_free_blocks_count d)
                           then Some (g, d) else best)) sb1 }"

definition find_group_dir :: "kernel \<Rightarrow> super_block \<Rightarrow> (int \<times> super_block) option" where
  "find_group_dir k sb =
     (let ngroups = s32 (s_groups_count (sbi sb)) in
      if ngroups = 0 then None
      else do {
        (free, sb1) \<leftarrow> kr_count_free_inodes (kr_error k) sb;
        let avefreei = s32 (free div u64 ngroups);
        (best, sb2) \<leftarrow> group_dir_loop k avefreei (nat ngroups) 0 None sb1;
        Some (case best of None \<Rightarrow> - 1 | Some (g, _) \<Rightarrow> g, sb2) })"

text \<open>
  The cyclic searches of \<^verbatim>\<open>find_group_orlov\<close>: round \<open>i\<close> of \<open>n\<close> rounds looks at group
  \<open>(parent_group + i) % ngroups\<close>, and the first acceptable group with a free inode ends it.
\<close>

fun cyclic_search ::
  "kernel \<Rightarrow> (super_block \<Rightarrow> int \<Rightarrow> kr_group_desc \<Rightarrow> bool option) \<Rightarrow> int \<Rightarrow> int \<Rightarrow> nat \<Rightarrow> int \<Rightarrow> super_block \<Rightarrow>
   (int option \<times> super_block) option"
where
  "cyclic_search k accept ngroups parent_group 0 i sb = Some (None, sb)"
| "cyclic_search k accept ngroups parent_group (Suc n) i sb =
     (let g = c_mod (s32 (parent_group + i)) ngroups in do {
        (desc, sb1) \<leftarrow> kr_get_group_desc k sb g;
        case desc of None \<Rightarrow> cyclic_search k accept ngroups parent_group n (i + 1) sb1
        | Some d \<Rightarrow>
            if bg_free_inodes_count d = 0 then cyclic_search k accept ngroups parent_group n (i + 1) sb1
            else do {
              ok \<leftarrow> accept sb1 g d;
              if ok then Some (Some g, sb1)
              else cyclic_search k accept ngroups parent_group n (i + 1) sb1 } })"

text \<open>The loop for a directory at the top: the group with the fewest directories so far.\<close>

fun topdir_loop ::
  "kernel \<Rightarrow> int \<Rightarrow> int \<Rightarrow> int \<Rightarrow> int \<Rightarrow> nat \<Rightarrow> int \<Rightarrow> int \<Rightarrow> int \<Rightarrow> super_block \<Rightarrow> (int \<times> super_block) option"
where
  "topdir_loop k ngroups parent_group avefreei avefreeb 0 i best_group best_ndir sb = Some (best_group, sb)"
| "topdir_loop k ngroups parent_group avefreei avefreeb (Suc n) i best_group best_ndir sb =
     (let g = c_mod (s32 (parent_group + i)) ngroups in do {
        (desc, sb1) \<leftarrow> kr_get_group_desc k sb g;
        case desc of None \<Rightarrow> topdir_loop k ngroups parent_group avefreei avefreeb n (i + 1) best_group best_ndir sb1
        | Some d \<Rightarrow>
            if bg_free_inodes_count d = 0 \<or> best_ndir \<le> uint (bg_used_dirs_count d) \<or>
               uint (bg_free_inodes_count d) < avefreei \<or> uint (bg_free_blocks_count d) < avefreeb
            then topdir_loop k ngroups parent_group avefreei avefreeb n (i + 1) best_group best_ndir sb1
            else topdir_loop k ngroups parent_group avefreei avefreeb n (i + 1) g
                   (uint (bg_used_dirs_count d)) sb1 })"

text \<open>The label \<^verbatim>\<open>fallback\<close>, which is passed a second time with \<^verbatim>\<open>avefreei = 0\<close>.\<close>

definition orlov_fallback :: "kernel \<Rightarrow> int \<Rightarrow> int \<Rightarrow> int \<Rightarrow> super_block \<Rightarrow> (int \<times> super_block) option" where
  "orlov_fallback k ngroups parent_group avefreei sb =
     (let search = (\<lambda>ave. cyclic_search k (\<lambda>sb g d. Some (ave \<le> uint (bg_free_inodes_count d)))
                            ngroups parent_group (nat ngroups) 0)
      in do {
        (r, sb1) \<leftarrow> search avefreei sb;
        case r of Some g \<Rightarrow> Some (g, sb1)
        | None \<Rightarrow>
            if avefreei \<noteq> 0 then do {
              (r', sb2) \<leftarrow> search 0 sb1;
              Some (case r' of Some g \<Rightarrow> g | None \<Rightarrow> - 1, sb2) }
            else Some (- 1, sb1) })"

abbreviation (input) INODE_COST :: int where "INODE_COST \<equiv> 64"
abbreviation (input) BLOCK_COST :: int where "BLOCK_COST \<equiv> 256"

definition orlov_max_debt :: "super_block \<Rightarrow> int \<Rightarrow> int \<Rightarrow> int" where
  "orlov_max_debt sb inodes_per_group blocks_per_dir =
     (let m0 = s32 (KR_BLOCKS_PER_GROUP sb div max blocks_per_dir BLOCK_COST);
          m1 = (if inodes_per_group < s32 (m0 * INODE_COST) then c_div inodes_per_group INODE_COST else m0);
          m2 = (if 255 < m1 then 255 else m1)
      in if m2 = 0 then 1 else m2)"

definition orlov_accept ::
  "int \<Rightarrow> int \<Rightarrow> int \<Rightarrow> int \<Rightarrow> super_block \<Rightarrow> int \<Rightarrow> kr_group_desc \<Rightarrow> bool option" where
  "orlov_accept max_debt max_dirs min_inodes min_blocks sb g d =
     (if 0 \<le> g \<and> g < int (length (s_debts (sbi sb)))
      then Some (\<not> (max_debt \<le> uint (s_debts (sbi sb) ! nat g) \<or>
                    max_dirs \<le> uint (bg_used_dirs_count d) \<or>
                    uint (bg_free_inodes_count d) < min_inodes \<or>
                    uint (bg_free_blocks_count d) < min_blocks))
      else None)"

definition find_group_orlov :: "kernel \<Rightarrow> super_block \<Rightarrow> inode \<Rightarrow> (int \<times> super_block) option" where
  "find_group_orlov k sb parent =
     (let parent_group = s32 (uint (i_block_group parent));
          ngroups = s32 (s_groups_count (sbi sb));
          inodes_per_group = s32 (KR_INODES_PER_GROUP sb);
          freei = s32 (k_percpu_read k (s_freeinodes_counter (sbi sb)));
          avefreei = c_div freei ngroups;
          free_blocks = s32 (k_percpu_read k (s_freeblocks_counter (sbi sb)));
          avefreeb = c_div free_blocks ngroups;
          ndirs0 = s32 (k_percpu_read k (s_dirs_counter (sbi sb)))
      in
      if ngroups = 0 then None
      else if i_ino parent = KR_ROOT_INO \<or> i_flags parent AND KR_TOPDIR_FL \<noteq> 0 then
        let pg = s32 (uint (k_random k) mod u32 ngroups) in do {
          (best_group, sb1) \<leftarrow>
             topdir_loop k ngroups pg avefreei avefreeb (nat ngroups) 0 (- 1) inodes_per_group sb;
          if 0 \<le> best_group then Some (best_group, sb1)
          else orlov_fallback k ngroups pg avefreei sb1 }
      else
        let ndirs = (if ndirs0 = 0 then 1 else ndirs0);
            blocks_per_dir = s32 (u32 (uint (es_blocks_count (es sb)) - free_blocks) div u32 ndirs);
            max_dirs = s32 (c_div ndirs ngroups + c_div inodes_per_group 16);
            min_inodes = s32 (avefreei - c_div inodes_per_group 4);
            min_blocks = s32 (avefreeb - KR_BLOCKS_PER_GROUP sb div 4);
            max_debt = orlov_max_debt sb inodes_per_group blocks_per_dir
        in do {
          (r, sb1) \<leftarrow> cyclic_search k
             (orlov_accept max_debt max_dirs min_inodes min_blocks)
             ngroups parent_group (nat ngroups) 0 sb;
          case r of Some g \<Rightarrow> Some (g, sb1)
          | None \<Rightarrow> orlov_fallback k ngroups parent_group avefreei sb1 })"

text \<open>
  \<^verbatim>\<open>find_group_other\<close>: the quadratic hash doubles \<^verbatim>\<open>i\<close>, which wraps for absurd group counts;
  then the linear search.
\<close>

partial_function (option) quadratic_search ::
  "kernel \<Rightarrow> int \<Rightarrow> int \<Rightarrow> int \<Rightarrow> super_block \<Rightarrow> (int option \<times> super_block) option"
where
  "quadratic_search k ngroups i g0 sb =
     (if i < ngroups then
        let g1 = s32 (g0 + i); g = (if ngroups \<le> g1 then g1 - ngroups else g1) in do {
          (desc, sb1) \<leftarrow> kr_get_group_desc k sb g;
          if (case desc of None \<Rightarrow> False
              | Some d \<Rightarrow> bg_free_inodes_count d \<noteq> 0 \<and> bg_free_blocks_count d \<noteq> 0)
          then Some (Some g, sb1)
          else quadratic_search k ngroups (s32 (2 * i)) g sb1 }
      else Some (None, sb))"

declare quadratic_search.simps [code]

fun linear_search :: "kernel \<Rightarrow> int \<Rightarrow> nat \<Rightarrow> int \<Rightarrow> super_block \<Rightarrow> (int \<times> super_block) option" where
  "linear_search k ngroups 0 g sb = Some (- 1, sb)"
| "linear_search k ngroups (Suc n) g sb =
     (let g' = (if ngroups \<le> s32 (g + 1) then 0 else s32 (g + 1)) in do {
        (desc, sb1) \<leftarrow> kr_get_group_desc k sb g';
        if (case desc of None \<Rightarrow> False | Some d \<Rightarrow> bg_free_inodes_count d \<noteq> 0)
        then Some (g', sb1)
        else linear_search k ngroups n g' sb1 })"

definition find_group_other :: "kernel \<Rightarrow> super_block \<Rightarrow> inode \<Rightarrow> (int \<times> super_block) option" where
  "find_group_other k sb parent =
     (let parent_group = s32 (uint (i_block_group parent));
          ngroups = s32 (s_groups_count (sbi sb))
      in do {
        (desc, sb1) \<leftarrow> kr_get_group_desc k sb parent_group;
        if (case desc of None \<Rightarrow> False
            | Some d \<Rightarrow> bg_free_inodes_count d \<noteq> 0 \<and> bg_free_blocks_count d \<noteq> 0)
        then Some (parent_group, sb1)
        else if ngroups = 0 then None
        else do {
          (r, sb2) \<leftarrow> quadratic_search k ngroups 1 (s32 (u64 (parent_group + i_ino parent) mod u64 ngroups)) sb1;
          case r of Some g \<Rightarrow> Some (g, sb2)
          | None \<Rightarrow> linear_search k ngroups (nat ngroups) parent_group sb2 } })"

section \<open>Model: new inodes\<close>

text \<open>
  The bitmap search of \<^verbatim>\<open>kr_new_inode\<close> in one group, from the label
  \<^verbatim>\<open>repeat_in_this_group\<close>: the bit it set, or none.
\<close>

partial_function (option) repeat_in_this_group :: "int \<Rightarrow> bitmap \<Rightarrow> int \<Rightarrow> (int option \<times> bitmap) option" where
  "repeat_in_this_group ipg bm ino0 =
     do { ino \<leftarrow> find_next_zero_bit_le bm ipg ino0;
          if ipg \<le> ino then Some (None, bm)
          else do {
            (old, bm1) \<leftarrow> set_bit_le ino bm;
            if old then (if ipg \<le> ino + 1 then Some (None, bm1) else repeat_in_this_group ipg bm1 (ino + 1))
            else Some (Some ino, bm1) } }"

declare repeat_in_this_group.simps [code]

datatype inode_search = InodeFound int int | InodeIOError | NoInode

text \<open>The loop over the groups, with \<open>n\<close> rounds left: the group and the bit it set.\<close>

fun scan_inode_groups ::
  "kernel \<Rightarrow> nat \<Rightarrow> int \<Rightarrow> super_block \<Rightarrow> (inode_search \<times> super_block) option"
where
  "scan_inode_groups k 0 g sb = Some (NoInode, sb)"
| "scan_inode_groups k (Suc n) g sb =
     (let g' = (if g + 1 = s_groups_count (sbi sb) then 0 else g + 1) in do {
        (gdp, sb1) \<leftarrow> kr_get_group_desc k sb g;
        case gdp of None \<Rightarrow> scan_inode_groups k n g' sb1
        | Some d \<Rightarrow> do {
            (bitmap_bh, sb2) \<leftarrow> read_inode_bitmap k sb1 g;
            case bitmap_bh of None \<Rightarrow> Some (InodeIOError, sb2)
            | Some blk \<Rightarrow> do {
                (r, bm) \<leftarrow> repeat_in_this_group (KR_INODES_PER_GROUP sb2) (b_data sb2 blk) 0;
                let sb3 = sb2\<lparr>b_data := (b_data sb2)(blk := bm)\<rparr>;
                case r of None \<Rightarrow> scan_inode_groups k n g' sb3
                | Some i \<Rightarrow> Some (InodeFound g i, sb3) } } })"

text \<open>
  The accounting for a new inode in group \<open>g\<close>: the two counters, the descriptor and the
  debt of the group.
\<close>

definition new_inode_info :: "bool \<Rightarrow> int \<Rightarrow> kr_sb_info \<Rightarrow> kr_sb_info" where
  "new_inode_info dir g info =
     (let debt = s_debts info ! nat g;
          debt1 = (if dir then (if uint debt < 255 then debt + 1 else debt)
                   else (if debt \<noteq> 0 then debt - 1 else debt))
      in info\<lparr>s_freeinodes_counter := s_freeinodes_counter info - 1,
              s_dirs_counter := (if dir then s_dirs_counter info + 1 else s_dirs_counter info),
              s_debts := (s_debts info)[nat g := debt1]\<rparr>)"

definition new_inode_desc :: "bool \<Rightarrow> kr_group_desc \<Rightarrow> kr_group_desc" where
  "new_inode_desc dir d =
     d\<lparr>bg_free_inodes_count := bg_free_inodes_count d - 1,
       bg_used_dirs_count := (if dir then bg_used_dirs_count d + 1 else bg_used_dirs_count d)\<rparr>"

definition account_new_inode :: "bool \<Rightarrow> int \<Rightarrow> super_block \<Rightarrow> super_block option" where
  "account_new_inode dir g sb =
     (if 0 \<le> g \<and> g < int (length (s_debts (sbi sb)))
      then Some (set_gdesc g (new_inode_desc dir (gdesc sb g)) (sb\<lparr>sbi := new_inode_info dir g (sbi sb)\<rparr>))
      else None)"

text \<open>The fields of the new inode.\<close>

definition init_new_inode ::
  "kernel \<Rightarrow> super_block \<Rightarrow> inode \<Rightarrow> inode \<Rightarrow> 16 word \<Rightarrow> int \<Rightarrow> int \<Rightarrow> inode" where
  "init_new_inode k sb fresh dir mode g ino =
     (let owned = (if test_opt sb KR_MOUNT_GRPID
                   then fresh\<lparr>i_mode := mode, i_uid := k_fsuid k, i_gid := i_gid dir\<rparr>
                   else k_init_owner k fresh dir mode)
      in kr_set_inode_flags sb
           (owned\<lparr>i_ino := ino, i_blocks := 0, i_mtime := k_now k, i_atime := k_now k, i_ctime := k_now k,
                  i_data := replicate KR_N_BLOCKS 0,
                  i_flags := kr_mask_flags mode (i_flags dir AND KR_FL_INHERITED),
                  i_faddr := 0, i_frag_no := 0, i_frag_size := 0, i_file_acl := 0, i_dir_acl := 0,
                  i_dtime := 0, i_block_alloc_info := None, i_block_group := word_of_int g,
                  i_dir_start_lookup := 0, i_state := KR_STATE_NEW\<rparr>))"

text \<open>
  \<open>iput\<close> is the VFS's drop of the last reference to an inode without links, which calls
  back into \<^verbatim>\<open>kr_evict_inode\<close>; on the bad inode of the label \<^verbatim>\<open>fail\<close> that does nothing to the
  file system.
\<close>

definition kr_new_inode ::
  "kernel \<Rightarrow> (super_block \<Rightarrow> inode \<Rightarrow> super_block option) \<Rightarrow> super_block \<Rightarrow> inode \<Rightarrow> 16 word \<Rightarrow>
   ((errno + inode) \<times> super_block) option"
where
  "kr_new_inode k iput sb dir mode =
     (case k_new_inode k of None \<Rightarrow> Some (Inl ENOMEM, sb)
      | Some fresh \<Rightarrow> do {
          (g, sb1) \<leftarrow>
            (if S_ISDIR mode then
               (if test_opt sb KR_MOUNT_OLDALLOC then find_group_dir k sb else find_group_orlov k sb dir)
             else find_group_other k sb dir);
          if g = - 1 then Some (Inl ENOSPC, sb1)
          else do {
            (r, sb2) \<leftarrow> scan_inode_groups k (nat (s_groups_count (sbi sb1))) g sb1;
            case r of
              InodeIOError \<Rightarrow> Some (Inl EIO, sb2)
            | NoInode \<Rightarrow> Some (Inl ENOSPC, sb2)
            | InodeFound g' i \<Rightarrow>
                let ino = u64 (i + (g' * KR_INODES_PER_GROUP sb2 + 1)) in
                if ino < KR_FIRST_INO sb2 \<or> uint (es_inodes_count (es sb2)) < ino then do {
                  sb3 \<leftarrow> kr_error k sb2;
                  Some (Inl EIO, sb3) }
                else do {
                  sb3 \<leftarrow> account_new_inode (S_ISDIR mode) g' sb2;
                  let inode0 = (init_new_inode k sb3 fresh dir mode g' ino)
                                 \<lparr>i_generation := s_next_generation (sbi sb3)\<rparr>;
                  let sb4 = sb3\<lparr>sbi := (sbi sb3)\<lparr>s_next_generation := s_next_generation (sbi sb3) + 1\<rparr>\<rparr>;
                  if \<not> k_insert_inode k ino then do {
                    sb5 \<leftarrow> kr_error k sb4;
                    Some (Inl EIO, sb5) }
                  else
                    case (case k_dquot_initialize k inode0 of Some e \<Rightarrow> Some e
                          | None \<Rightarrow> k_dquot_alloc_inode k inode0) of
                      Some e \<Rightarrow> do {
                        sb5 \<leftarrow> iput sb4 (inode0\<lparr>vfs_flags := vfs_flags inode0 OR S_NOQUOTA, i_nlink := 0\<rparr>);
                        Some (Inl e, sb5) }
                    | None \<Rightarrow> do {
                        (_, sb5) \<leftarrow> kr_preread_inode k sb4 ino;
                        Some (Inr inode0, sb5) } } } })"

section \<open>The choice of a group\<close>

text \<open>
  What each policy promises: a group that has a free inode, or \<open>- 1\<close> when no group has one.
\<close>

definition has_inode :: "super_block \<Rightarrow> int \<Rightarrow> bool" where
  "has_inode sb g = (bg_free_inodes_count (gdesc sb g) \<noteq> 0)"

definition group_found :: "super_block \<Rightarrow> int \<Rightarrow> bool" where
  "group_found sb g =
     (if g = - 1 then \<forall>h \<in> {0..<s_groups_count (sbi sb)}. \<not> has_inode sb h
      else 0 \<le> g \<and> g < s_groups_count (sbi sb) \<and> has_inode sb g)"

text \<open>The file systems for which \<^verbatim>\<open>int\<close> holds every sum of two group numbers.\<close>

definition few_groups :: "super_block \<Rightarrow> bool" where
  "few_groups sb = (gd_ok sb \<and> s_groups_count (sbi sb) \<le> 1073741824)"

lemma few_groupsD:
  assumes "few_groups sb"
  shows "gd_ok sb" "s32 (s_groups_count (sbi sb)) = s_groups_count (sbi sb)"
    "0 < s_groups_count (sbi sb)" "s_groups_count (sbi sb) \<le> 1073741824"
  using assms by (auto simp: few_groups_def gd_ok_def intro!: s32_id)

text \<open>The old directory policy takes the group with most free blocks among the eligible ones.\<close>

definition dir_eligible :: "super_block \<Rightarrow> int \<Rightarrow> int \<Rightarrow> bool" where
  "dir_eligible sb ave g = (has_inode sb g \<and> ave \<le> uint (bg_free_inodes_count (gdesc sb g)))"

definition best_dir_group :: "super_block \<Rightarrow> int \<Rightarrow> int \<Rightarrow> (int \<times> kr_group_desc) option \<Rightarrow> bool" where
  "best_dir_group sb ave n best =
     (case best of
        None \<Rightarrow> \<forall>h \<in> {0..<n}. \<not> dir_eligible sb ave h
      | Some (b, d) \<Rightarrow> d = gdesc sb b \<and> 0 \<le> b \<and> b < n \<and> dir_eligible sb ave b \<and>
          (\<forall>h \<in> {0..<n}. dir_eligible sb ave h \<longrightarrow>
             uint (bg_free_blocks_count (gdesc sb h)) \<le> uint (bg_free_blocks_count d)))"

lemma best_dir_group_step:
  assumes "best_dir_group sb ave g best" "0 \<le> g"
  shows "best_dir_group sb ave (g + 1)
     (if bg_free_inodes_count (gdesc sb g) = 0 then best
      else if uint (bg_free_inodes_count (gdesc sb g)) < ave then best
      else case best of None \<Rightarrow> Some (g, gdesc sb g)
           | Some (_, bd) \<Rightarrow> if uint (bg_free_blocks_count bd) < uint (bg_free_blocks_count (gdesc sb g))
                            then Some (g, gdesc sb g) else best)"
proof -
  have ins: "{0..<g + 1} = insert g {0..<g}" using assms(2) by auto
  show ?thesis
    using assms unfolding best_dir_group_def ins
    by (cases best) (auto simp: dir_eligible_def has_inode_def, metis atLeastLessThan_iff less_imp_le order_trans)
qed

lemma group_dir_loop_best:
  assumes "gd_ok sb" "0 \<le> g" "g + int n \<le> s_groups_count (sbi sb)" "best_dir_group sb ave g best"
  shows "\<exists>best'. group_dir_loop k ave n g best sb = Some (best', sb) \<and> best_dir_group sb ave (g + int n) best'"
  using assms(2-4)
proof (induction n arbitrary: g best)
  case 0
  then show ?case by simp
next
  case (Suc n)
  have "kr_get_group_desc k sb g = Some (Some (gdesc sb g), sb)" using Suc.prems assms(1) by simp
  moreover note Suc.IH [OF _ _ best_dir_group_step [OF Suc.prems(3,1)]]
  ultimately show ?case using Suc.prems by (auto simp: algebra_simps)
qed

text \<open>Some group has at least the average number of free inodes.\<close>

lemma above_average_exists:
  fixes f :: "int \<Rightarrow> int"
  assumes "0 < n"
  shows "\<exists>g \<in> {0..<n}. (\<Sum>h = 0..<n. f h) div n \<le> f g"
proof (rule ccontr)
  let ?S = "\<Sum>h = 0..<n. f h"
  assume "\<not> ?thesis"
  then have "\<forall>g \<in> {0..<n}. f g + 1 \<le> ?S div n"
    by (simp add: not_le add1_zle_eq)
  then have "(\<Sum>h = 0..<n. f h + 1) \<le> (\<Sum>h = 0..<n. ?S div n)" by (intro sum_mono) auto
  also have "\<dots> = n * (?S div n)" using assms by simp
  also have "\<dots> \<le> ?S" using minus_mod_eq_mult_div [of ?S n] pos_mod_sign [OF assms, of ?S] by linarith
  finally show False using assms by (simp add: sum.distrib)
qed

lemma find_group_dir_found:
  assumes "few_groups sb"
  shows "\<exists>g. find_group_dir k sb = Some (g, sb) \<and> group_found sb g \<and>
     (g \<noteq> - 1 \<longrightarrow>
        (let free = (\<lambda>h. uint (bg_free_inodes_count (gdesc sb h))); n = s_groups_count (sbi sb);
             ave = (\<Sum>h = 0..<n. free h) div n
         in ave \<le> free g \<and>
            (\<forall>h \<in> {0..<n}. has_inode sb h \<and> ave \<le> free h \<longrightarrow>
               uint (bg_free_blocks_count (gdesc sb h)) \<le> uint (bg_free_blocks_count (gdesc sb g)))))"
proof -
  note G = few_groupsD [OF assms]
  let ?n = "s_groups_count (sbi sb)" and ?f = "\<lambda>h. uint (bg_free_inodes_count (gdesc sb h))"
  let ?S = "\<Sum>h = 0..<?n. ?f h"
  define ave where "ave = ?S div ?n"
  have S0: "0 \<le> ?S" by (simp add: sum_nonneg)
  have "?S \<le> (\<Sum>h = 0..<?n. 65535)" by (intro sum_mono) (use uint16_lt in \<open>smt (verit)\<close>)
  then have "ave \<le> 65535" using G(3) by (simp add: ave_def div_le_mono2 zdiv_mono1 [of ?S "?n * 65535" ?n, simplified])
  moreover have a0: "0 \<le> ave" using S0 G(3) by (simp add: ave_def pos_imp_zdiv_nonneg_iff)
  ultimately have a: "s32 ave = ave" "0 \<le> ave" by (auto intro: s32_id)
  have u: "u64 ?n = ?n" using G by (intro u64_id) auto
  obtain best where b: "group_dir_loop k ave (nat ?n) 0 None sb = Some (best, sb)" "best_dir_group sb ave ?n best"
    using group_dir_loop_best [OF G(1), of 0 "nat ?n" ave None k] G(3) by (auto simp: best_dir_group_def)
  have eq: "find_group_dir k sb = Some (case best of None \<Rightarrow> - 1 | Some (g, _) \<Rightarrow> g, sb)"
    using G b(1) a(1) u by (simp add: find_group_dir_def kr_count_free_inodes_eq ave_def)
  show ?thesis
  proof (cases best)
    case None
    obtain g where g: "g \<in> {0..<?n}" "ave \<le> ?f g" using above_average_exists [OF G(3), of ?f] by (auto simp: ave_def)
    then have "\<not> dir_eligible sb ave g" using b(2) None by (simp add: best_dir_group_def)
    then have "?f g = 0" using g(2) by (simp add: dir_eligible_def has_inode_def)
    then have "ave = 0" using g a(2) by simp
    then have "group_found sb (- 1)"
      using b(2) None by (auto simp: group_found_def best_dir_group_def dir_eligible_def)
    then show ?thesis using eq None by simp
  next
    case (Some p)
    obtain g where p: "p = (g, gdesc sb g)" using b(2) Some by (cases p) (auto simp: best_dir_group_def)
    then have "group_found sb g" "ave \<le> ?f g"
      "\<forall>h \<in> {0..<?n}. has_inode sb h \<and> ave \<le> ?f h \<longrightarrow>
         uint (bg_free_blocks_count (gdesc sb h)) \<le> uint (bg_free_blocks_count (gdesc sb g))"
      using b(2) Some by (auto simp: best_dir_group_def group_found_def dir_eligible_def)
    then show ?thesis using eq Some p by (simp add: ave_def Let_def)
  qed
qed

text \<open>A cyclic search looks at every group, in the order from the parent's group on.\<close>

definition nth_group :: "super_block \<Rightarrow> int \<Rightarrow> int \<Rightarrow> int" where
  "nth_group sb pg i = (pg + i) mod s_groups_count (sbi sb)"

lemma nth_group_eq:
  assumes "few_groups sb" "0 \<le> pg" "pg < s_groups_count (sbi sb)" "0 \<le> i" "i < s_groups_count (sbi sb)"
  shows "c_mod (s32 (pg + i)) (s_groups_count (sbi sb)) = nth_group sb pg i"
    "0 \<le> nth_group sb pg i" "nth_group sb pg i < s_groups_count (sbi sb)"
proof -
  note G = few_groupsD [OF assms(1)]
  have "s32 (pg + i) = pg + i" using assms G by (intro s32_id) linarith+
  then show "c_mod (s32 (pg + i)) (s_groups_count (sbi sb)) = nth_group sb pg i"
    using assms G(3) by (simp add: nth_group_def c_mod_nonneg)
  show "0 \<le> nth_group sb pg i" "nth_group sb pg i < s_groups_count (sbi sb)"
    using G(3) by (simp_all add: nth_group_def)
qed

lemma nth_group_all:
  assumes "0 \<le> h" "h < s_groups_count (sbi sb)"
  shows "\<exists>i \<in> {0..<s_groups_count (sbi sb)}. nth_group sb pg i = h"
  using assms by (intro bexI [of _ "(h - pg) mod s_groups_count (sbi sb)"]) (auto simp: nth_group_def mod_simps)

definition cyclic_post ::
  "super_block \<Rightarrow> (super_block \<Rightarrow> int \<Rightarrow> kr_group_desc \<Rightarrow> bool option) \<Rightarrow> int \<Rightarrow> int \<Rightarrow> int option \<Rightarrow> bool" where
  "cyclic_post sb accept pg i r =
     (case r of
        Some g \<Rightarrow> 0 \<le> g \<and> g < s_groups_count (sbi sb) \<and> has_inode sb g \<and> accept sb g (gdesc sb g) = Some True
      | None \<Rightarrow> \<forall>j \<in> {i..<s_groups_count (sbi sb)}.
          has_inode sb (nth_group sb pg j) \<longrightarrow>
          accept sb (nth_group sb pg j) (gdesc sb (nth_group sb pg j)) = Some False)"

lemma cyclic_search_post:
  assumes "few_groups sb" "0 \<le> pg" "pg < s_groups_count (sbi sb)"
    and accept: "\<And>g. 0 \<le> g \<Longrightarrow> g < s_groups_count (sbi sb) \<Longrightarrow> accept sb g (gdesc sb g) \<noteq> None"
    and "0 \<le> i" "i + int n = s_groups_count (sbi sb)"
  shows "\<exists>r. cyclic_search k accept (s_groups_count (sbi sb)) pg n i sb = Some (r, sb) \<and> cyclic_post sb accept pg i r"
  using assms(5,6)
proof (induction n arbitrary: i)
  case 0
  then show ?case by (simp add: cyclic_post_def)
next
  case (Suc n)
  let ?g = "nth_group sb pg i"
  have i: "i < s_groups_count (sbi sb)" using Suc.prems by simp
  note g = nth_group_eq [OF assms(1-3) Suc.prems(1) i]
  have get: "kr_get_group_desc k sb ?g = Some (Some (gdesc sb ?g), sb)"
    using g few_groupsD(1) [OF assms(1)] by simp
  obtain b where b: "accept sb ?g (gdesc sb ?g) = Some b" using accept g by blast
  obtain r where r: "cyclic_search k accept (s_groups_count (sbi sb)) pg n (i + 1) sb = Some (r, sb)"
      "cyclic_post sb accept pg (i + 1) r" using Suc.IH [of "i + 1"] Suc.prems by auto
  show ?case
  proof (cases "has_inode sb ?g \<and> b")
    case True
    then show ?thesis using get b g by (simp add: cyclic_post_def has_inode_def)
  next
    case False
    have "{i..<s_groups_count (sbi sb)} = insert i {i + 1..<s_groups_count (sbi sb)}" using i by auto
    then have "cyclic_post sb accept pg i r"
      using r(2) False b by (cases r) (auto simp: cyclic_post_def)
    then show ?thesis using False get b g r(1) by (auto simp: has_inode_def Let_def)
  qed
qed

lemma orlov_fallback_found:
  assumes "few_groups sb" "0 \<le> pg" "pg < s_groups_count (sbi sb)"
  shows "\<exists>g. orlov_fallback k (s_groups_count (sbi sb)) pg ave sb = Some (g, sb) \<and> group_found sb g"
proof -
  let ?n = "s_groups_count (sbi sb)" and ?acc = "\<lambda>ave. \<lambda>sb g d. Some (ave \<le> uint (bg_free_inodes_count d))"
  have s: "\<exists>r. cyclic_search k (?acc a) ?n pg (nat ?n) 0 sb = Some (r, sb) \<and> cyclic_post sb (?acc a) pg 0 r" for a
    using cyclic_search_post [OF assms, of "?acc a" 0 "nat ?n" k] few_groupsD(3) [OF assms(1)] by simp
  have found: "group_found sb g" if "cyclic_post sb (?acc a) pg 0 (Some g)" for a g
    using that by (auto simp: cyclic_post_def group_found_def)
  have none: "group_found sb (- 1)" if "cyclic_post sb (?acc 0) pg 0 None"
    using that nth_group_all [of _ sb pg] by (fastforce simp: cyclic_post_def group_found_def)
  obtain r r' where r: "cyclic_search k (?acc ave) ?n pg (nat ?n) 0 sb = Some (r, sb)" "cyclic_post sb (?acc ave) pg 0 r"
      "cyclic_search k (?acc 0) ?n pg (nat ?n) 0 sb = Some (r', sb)" "cyclic_post sb (?acc 0) pg 0 r'"
    using s by blast
  show ?thesis
    using r found [of ave] found [of 0] none by (cases r; cases r'; cases "ave = 0") (auto simp: orlov_fallback_def)
qed

lemma topdir_loop_found:
  assumes "few_groups sb" "0 \<le> pg" "pg < s_groups_count (sbi sb)" "0 \<le> i" "i + int n = s_groups_count (sbi sb)"
    and "best = - 1 \<or> 0 \<le> best \<and> best < s_groups_count (sbi sb) \<and> has_inode sb best"
  shows "\<exists>g. topdir_loop k (s_groups_count (sbi sb)) pg avei aveb n i best ndir sb = Some (g, sb) \<and>
     (g = - 1 \<or> 0 \<le> g \<and> g < s_groups_count (sbi sb) \<and> has_inode sb g)"
  using assms(4-6)
proof (induction n arbitrary: i best ndir)
  case 0
  then show ?case by simp
next
  case (Suc n)
  let ?g = "nth_group sb pg i"
  have i: "i < s_groups_count (sbi sb)" using Suc.prems by simp
  note g = nth_group_eq [OF assms(1-3) Suc.prems(1) i]
  have get: "kr_get_group_desc k sb ?g = Some (Some (gdesc sb ?g), sb)"
    using g few_groupsD(1) [OF assms(1)] by simp
  have IH: "b = - 1 \<or> 0 \<le> b \<and> b < s_groups_count (sbi sb) \<and> has_inode sb b \<Longrightarrow>
      \<exists>g. topdir_loop k (s_groups_count (sbi sb)) pg avei aveb n (i + 1) b nd sb = Some (g, sb) \<and>
        (g = - 1 \<or> 0 \<le> g \<and> g < s_groups_count (sbi sb) \<and> has_inode sb g)" for b nd
    using Suc.IH [of "i + 1"] Suc.prems by simp
  show ?case using get g IH [OF Suc.prems(3), of ndir] IH [of ?g] by (auto simp: has_inode_def Let_def)
qed

lemma find_group_orlov_found:
  assumes sb: "few_groups sb" and parent: "uint (i_block_group parent) < s_groups_count (sbi sb)"
    and debts: "int (length (s_debts (sbi sb))) = s_groups_count (sbi sb)"
  shows "\<exists>g. find_group_orlov k sb parent = Some (g, sb) \<and> group_found sb g"
proof -
  note G = few_groupsD [OF sb]
  let ?n = "s_groups_count (sbi sb)"
  have pg: "s32 (uint (i_block_group parent)) = uint (i_block_group parent)"
    using parent G(4) by (intro s32_id) (auto intro: order_trans [OF _ uint_ge_0])
  show ?thesis
  proof (cases "i_ino parent = KR_ROOT_INO \<or> i_flags parent AND KR_TOPDIR_FL \<noteq> 0")
    case True
    let ?p = "uint (k_random k) mod ?n"
    have u: "u32 ?n = ?n" using G by (intro u32_id) auto
    have p: "0 \<le> ?p" "?p < ?n" using G(3) by simp_all
    then have p32: "s32 ?p = ?p" using G(4) by (intro s32_id) linarith+
    obtain g where "topdir_loop k ?n ?p (c_div (s32 (k_percpu_read k (s_freeinodes_counter (sbi sb)))) ?n)
        (c_div (s32 (k_percpu_read k (s_freeblocks_counter (sbi sb)))) ?n) (nat ?n) 0 (- 1)
        (s32 (KR_INODES_PER_GROUP sb)) sb = Some (g, sb)"
        "g = - 1 \<or> 0 \<le> g \<and> g < ?n \<and> has_inode sb g"
      using topdir_loop_found [OF sb p, of 0 "nat ?n" "- 1" k] G(3) by fastforce
    then show ?thesis
      using True G u p32 orlov_fallback_found [OF sb p, of k]
      by (cases "0 \<le> g") (auto simp: find_group_orlov_def Let_def group_found_def)
  next
    case False
    let ?pg = "uint (i_block_group parent)" and ?ave = "c_div (s32 (k_percpu_read k (s_freeinodes_counter (sbi sb)))) ?n"
    have search: "\<exists>r. cyclic_search k (orlov_accept a b c d) ?n ?pg (nat ?n) 0 sb = Some (r, sb) \<and>
        (\<forall>g. r = Some g \<longrightarrow> group_found sb g)" for a b c d
      using cyclic_search_post [OF sb _ parent, of "orlov_accept a b c d" 0 "nat ?n" k] G(3) debts
      by (fastforce simp: cyclic_post_def group_found_def orlov_accept_def)
    obtain a b c d where f: "find_group_orlov k sb parent =
        do { (r, sb1) \<leftarrow> cyclic_search k (orlov_accept a b c d) ?n ?pg (nat ?n) 0 sb;
             case r of Some g \<Rightarrow> Some (g, sb1) | None \<Rightarrow> orlov_fallback k ?n ?pg ?ave sb1 }"
      using G(3) unfolding find_group_orlov_def Let_def pg G(2) if_not_P [OF False] by auto
    obtain r where r: "find_group_orlov k sb parent = (case r of Some g \<Rightarrow> Some (g, sb)
          | None \<Rightarrow> orlov_fallback k ?n ?pg ?ave sb)" "\<forall>g. r = Some g \<longrightarrow> group_found sb g"
      using search [of a b c d] unfolding f by auto
    then show ?thesis using orlov_fallback_found [OF sb _ parent, of k ?ave] by (cases r) auto
  qed
qed

lemma quadratic_search_found:
  assumes "few_groups sb" "1 \<le> i" "i \<le> 2147483647" "0 \<le> g0" "g0 < s_groups_count (sbi sb)"
  shows "\<exists>r. quadratic_search k (s_groups_count (sbi sb)) i g0 sb = Some (r, sb) \<and>
     (\<forall>g. r = Some g \<longrightarrow> group_found sb g)"
  using assms(2-5)
proof (induction "nat (s_groups_count (sbi sb) - i)" arbitrary: i g0 rule: less_induct)
  case less
  let ?n = "s_groups_count (sbi sb)"
  note G = few_groupsD [OF assms(1)]
  show ?case
  proof (cases "i < ?n")
    case False
    then show ?thesis by (simp add: quadratic_search.simps)
  next
    case True
    define g where "g = (if ?n \<le> g0 + i then g0 + i - ?n else g0 + i)"
    have g: "0 \<le> g" "g < ?n" using True less.prems by (auto simp: g_def)
    have s: "s32 (g0 + i) = g0 + i" "s32 (2 * i) = 2 * i" using True less.prems G(4) by (auto intro!: s32_id)
    let ?d = "gdesc sb g"
    have eq: "quadratic_search k ?n i g0 sb =
        (if bg_free_inodes_count ?d \<noteq> 0 \<and> bg_free_blocks_count ?d \<noteq> 0 then Some (Some g, sb)
         else quadratic_search k ?n (2 * i) g sb)"
      using True s g G(1) by (subst quadratic_search.simps) (simp add: g_def [symmetric] Let_def)
    show ?thesis
    proof (cases "bg_free_inodes_count ?d \<noteq> 0 \<and> bg_free_blocks_count ?d \<noteq> 0")
      case True
      then show ?thesis using eq g by (simp add: group_found_def has_inode_def)
    next
      case False
      then show ?thesis
        unfolding eq if_not_P [OF False] using less.prems True G(4) g by (intro less.hyps) auto
    qed
  qed
qed

lemma linear_search_found:
  assumes "few_groups sb" "0 \<le> pg" "pg < s_groups_count (sbi sb)" "0 \<le> i" "i + int n = s_groups_count (sbi sb)"
    and "\<forall>j \<in> {0..<i}. \<not> has_inode sb (nth_group sb (pg + 1) j)"
  shows "\<exists>g. linear_search k (s_groups_count (sbi sb)) n (nth_group sb pg i) sb = Some (g, sb) \<and> group_found sb g"
  using assms(4-6)
proof (induction n arbitrary: i)
  case 0
  then show ?case using nth_group_all [of _ sb "pg + 1"] by (fastforce simp: group_found_def)
next
  case (Suc n)
  let ?n = "s_groups_count (sbi sb)" and ?g = "nth_group sb pg i" and ?g' = "nth_group sb pg (i + 1)"
  note G = few_groupsD [OF assms(1)]
  have g: "0 \<le> ?g" "?g < ?n" "0 \<le> ?g'" "?g' < ?n" using G(3) by (simp_all add: nth_group_def)
  have "?g' = (if ?n \<le> ?g + 1 then 0 else ?g + 1)"
  proof (cases "?n \<le> ?g + 1")
    case True
    then have "?g + 1 = ?n" using g(2) by simp
    moreover have "?g' = (?g + 1) mod ?n" by (simp add: nth_group_def mod_simps ac_simps)
    ultimately show ?thesis by simp
  next
    case False
    moreover have "?g' = (?g + 1) mod ?n" by (simp add: nth_group_def mod_simps ac_simps)
    ultimately show ?thesis using g by simp
  qed
  moreover have "s32 (?g + 1) = ?g + 1" using g G(4) by (intro s32_id) linarith+
  ultimately have eq: "linear_search k ?n (Suc n) ?g sb =
      (if has_inode sb ?g' then Some (?g', sb) else linear_search k ?n n ?g' sb)"
    using g G(1) by (simp add: Let_def has_inode_def)
  have nth: "nth_group sb (pg + 1) i = ?g'" by (simp add: nth_group_def ac_simps)
  show ?case
  proof (cases "has_inode sb ?g'")
    case True
    then show ?thesis using eq g by (simp add: group_found_def)
  next
    case False
    have "{0..<i + 1} = insert i {0..<i}" using Suc.prems(1) by auto
    then show ?thesis
      unfolding eq if_not_P [OF False] using Suc.prems False nth by (intro Suc.IH) auto
  qed
qed

lemma find_group_other_found:
  assumes sb: "few_groups sb" and parent: "uint (i_block_group parent) < s_groups_count (sbi sb)"
  shows "\<exists>g. find_group_other k sb parent = Some (g, sb) \<and> group_found sb g"
proof -
  note G = few_groupsD [OF sb]
  let ?n = "s_groups_count (sbi sb)" and ?pg = "uint (i_block_group parent)"
  have pg: "s32 ?pg = ?pg" using parent G(4) by (intro s32_id) (auto intro: order_trans [OF _ uint_ge_0])
  let ?d = "gdesc sb ?pg"
  have get: "kr_get_group_desc k sb ?pg = Some (Some ?d, sb)" using G(1) parent by simp
  show ?thesis
  proof (cases "bg_free_inodes_count ?d \<noteq> 0 \<and> bg_free_blocks_count ?d \<noteq> 0")
    case True
    moreover have "?pg \<noteq> - 1" using uint_ge_0 [of "i_block_group parent"] by linarith
    ultimately show ?thesis using get pg parent by (auto simp: find_group_other_def Let_def group_found_def has_inode_def)
  next
    case False
    let ?h = "u64 (?pg + i_ino parent) mod ?n"
    have u: "u64 ?n = ?n" using G by (intro u64_id) auto
    have h: "0 \<le> ?h" "?h < ?n" using G(3) by simp_all
    have h32: "s32 ?h = ?h" using h G(4) by (intro s32_id) linarith+
    obtain r where r: "quadratic_search k ?n 1 ?h sb = Some (r, sb)" "\<forall>g. r = Some g \<longrightarrow> group_found sb g"
      using quadratic_search_found [OF sb _ _ h, of 1 k] by auto
    have "nth_group sb ?pg 0 = ?pg" using parent by (simp add: nth_group_def)
    then obtain g where g: "linear_search k ?n (nat ?n) ?pg sb = Some (g, sb)" "group_found sb g"
      using linear_search_found [OF sb _ parent, of 0 "nat ?n" k] G(3) by auto
    have "find_group_other k sb parent = (case r of Some g \<Rightarrow> Some (g, sb) | None \<Rightarrow> Some (g, sb))"
      unfolding find_group_other_def Let_def pg G(2) get using False u h32 r(1) g(1) G(3) by (auto split: option.splits)
    then show ?thesis using r(2) g(2) by (cases r) auto
  qed
qed

section \<open>The bitmaps\<close>

lemma read_inode_bitmap_ok:
  assumes "io_ok k" "gd_ok sb" "0 \<le> g" "g < s_groups_count (sbi sb)"
  shows "read_inode_bitmap k sb g = Some (Some (uint (bg_inode_bitmap (gdesc sb g))), sb)"
  using assms by (simp add: read_inode_bitmap_def io_ok_def Let_def)

text \<open>The first clear bit is taken; a lost race cannot happen.\<close>

lemma repeat_in_this_group_spec:
  assumes "0 \<le> ipg" "ipg \<le> int (length bm)" "ipg < 18446744073709551616"
  shows "\<exists>r bm'. repeat_in_this_group ipg bm 0 = Some (r, bm') \<and>
     (case r of
        None \<Rightarrow> bm' = bm \<and> (\<forall>i < nat ipg. bm ! i)
      | Some i \<Rightarrow> 0 \<le> i \<and> i < ipg \<and> \<not> bm ! nat i \<and> (\<forall>j < nat i. bm ! j) \<and> bm' = bm[nat i := True])"
proof -
  obtain r where r: "find_next_zero_bit_le bm ipg 0 = Some r" "0 \<le> r" "r \<le> ipg"
      "r < ipg \<Longrightarrow> \<not> bm ! nat r" "\<And>i. nat 0 \<le> i \<Longrightarrow> i < nat r \<Longrightarrow> bm ! i"
    by (rule find_next_zero_bit_le_spec [of 0 ipg bm]) ((use assms in linarith)+, blast)
  show ?thesis
    using r assms by (subst repeat_in_this_group.simps) (auto simp: set_bit_le_def)
qed

end
