(* ===== verification/Kr_New_Inode.thy ===== *)
theory Kr_New_Inode
  imports Kr_Ialloc
begin

text \<open>
  Correctness of inode allocation. The invariant \<open>ialloc_ok\<close> extends the block allocator's:
  the free-inode count of every group is the number of clear bits of its inode bitmap. A
  change of one bit with its count (\<open>inode_change\<close>) keeps both invariants and changes the
  set of free inode numbers by that one, and \<^verbatim>\<open>kr_new_inode\<close> and \<^verbatim>\<open>kr_free_inode\<close> are such
  changes. The two are an instance of a pool of numbered objects (\<open>object_pool\<close>).
\<close>

section \<open>The invariant of the inode allocator\<close>

abbreviation inode_bitmap :: "super_block \<Rightarrow> int \<Rightarrow> bitmap" where
  "inode_bitmap sb g \<equiv> b_data sb (uint (bg_inode_bitmap (gdesc sb g)))"

text \<open>
  In every group the bits of reserved inodes and of inodes past the last are set, the free
  count is the number of clear bits, and the inode bitmap is not the block bitmap.
\<close>

definition inode_group_ok :: "super_block \<Rightarrow> int \<Rightarrow> bool" where
  "inode_group_ok sb g =
     (let bm = inode_bitmap sb g; I = KR_INODES_PER_GROUP sb in
      I \<le> int (length bm) \<and> bg_inode_bitmap (gdesc sb g) \<noteq> bg_block_bitmap (gdesc sb g) \<and>
      uint (bg_free_inodes_count (gdesc sb g)) = int (zero_bits bm (nat I)) \<and>
      (\<forall>i < nat I. g * I + int i + 1 < KR_FIRST_INO sb \<or> uint (es_inodes_count (es sb)) < g * I + int i + 1 \<longrightarrow> bm ! i))"

definition ialloc_ok :: "super_block \<Rightarrow> bool" where
  "ialloc_ok sb =
     (fs_ok sb \<and> few_groups sb \<and> 0 < KR_INODES_PER_GROUP sb \<and> KR_INODES_PER_GROUP sb < 65536 \<and>
      1 \<le> KR_FIRST_INO sb \<and> int (length (s_debts (sbi sb))) = s_groups_count (sbi sb) \<and>
      uint (es_inodes_count (es sb)) \<le> s_groups_count (sbi sb) * KR_INODES_PER_GROUP sb \<and>
      (\<forall>g \<in> {0..<s_groups_count (sbi sb)}. inode_group_ok sb g))"

lemma ialloc_okD:
  assumes "ialloc_ok sb"
  shows "fs_ok sb" "few_groups sb" "0 < KR_INODES_PER_GROUP sb" "KR_INODES_PER_GROUP sb < 65536"
    "1 \<le> KR_FIRST_INO sb" "int (length (s_debts (sbi sb))) = s_groups_count (sbi sb)"
    "uint (es_inodes_count (es sb)) \<le> s_groups_count (sbi sb) * KR_INODES_PER_GROUP sb"
  using assms by (simp_all add: ialloc_ok_def)

lemma inode_group_okD:
  assumes "ialloc_ok sb" "0 \<le> g" "g < s_groups_count (sbi sb)"
  defines "bm \<equiv> inode_bitmap sb g" and "I \<equiv> KR_INODES_PER_GROUP sb"
  shows "I \<le> int (length bm)" "bg_inode_bitmap (gdesc sb g) \<noteq> bg_block_bitmap (gdesc sb g)"
    "uint (bg_free_inodes_count (gdesc sb g)) = int (zero_bits bm (nat I))"
    "\<And>i. int i < I \<Longrightarrow> g * I + int i + 1 < KR_FIRST_INO sb \<or> uint (es_inodes_count (es sb)) < g * I + int i + 1 \<Longrightarrow> bm ! i"
proof -
  have "inode_group_ok sb g" using assms(1-3) by (simp add: ialloc_ok_def)
  then show "I \<le> int (length bm)" "bg_inode_bitmap (gdesc sb g) \<noteq> bg_block_bitmap (gdesc sb g)"
    "uint (bg_free_inodes_count (gdesc sb g)) = int (zero_bits bm (nat I))"
    "\<And>i. int i < I \<Longrightarrow> g * I + int i + 1 < KR_FIRST_INO sb \<or> uint (es_inodes_count (es sb)) < g * I + int i + 1 \<Longrightarrow> bm ! i"
    unfolding inode_group_ok_def Let_def bm_def I_def by auto
qed

text \<open>The abstraction: the numbers of the free inodes.\<close>

definition inode_group :: "super_block \<Rightarrow> int \<Rightarrow> int" where
  "inode_group sb ino = (ino - 1) div KR_INODES_PER_GROUP sb"

definition inode_index :: "super_block \<Rightarrow> int \<Rightarrow> nat" where
  "inode_index sb ino = nat ((ino - 1) mod KR_INODES_PER_GROUP sb)"

definition free_inodes :: "super_block \<Rightarrow> int set" where
  "free_inodes sb =
     {ino. 1 \<le> ino \<and> ino \<le> uint (es_inodes_count (es sb)) \<and> \<not> inode_bitmap sb (inode_group sb ino) ! inode_index sb ino}"

lemma inode_number:
  assumes "ialloc_ok sb"
  shows "0 \<le> g \<Longrightarrow> 0 \<le> i \<Longrightarrow> i < KR_INODES_PER_GROUP sb \<Longrightarrow> inode_group sb (i + (g * KR_INODES_PER_GROUP sb + 1)) = g"
    "0 \<le> g \<Longrightarrow> 0 \<le> i \<Longrightarrow> i < KR_INODES_PER_GROUP sb \<Longrightarrow> inode_index sb (i + (g * KR_INODES_PER_GROUP sb + 1)) = nat i"
    "ino = int (inode_index sb ino) + (inode_group sb ino * KR_INODES_PER_GROUP sb + 1)"
    "int (inode_index sb ino) < KR_INODES_PER_GROUP sb"
proof -
  let ?I = "KR_INODES_PER_GROUP sb"
  have I: "0 < ?I" using ialloc_okD(3) [OF assms] .
  show "0 \<le> g \<Longrightarrow> 0 \<le> i \<Longrightarrow> i < ?I \<Longrightarrow> inode_group sb (i + (g * ?I + 1)) = g"
    "0 \<le> g \<Longrightarrow> 0 \<le> i \<Longrightarrow> i < ?I \<Longrightarrow> inode_index sb (i + (g * ?I + 1)) = nat i"
    using I by (simp_all add: inode_group_def inode_index_def)
  show "int (inode_index sb ino) < ?I" using I by (simp add: inode_index_def)
  show "ino = int (inode_index sb ino) + (inode_group sb ino * ?I + 1)"
    using I by (simp add: inode_group_def inode_index_def)
qed

lemma inode_group_range:
  assumes "ialloc_ok sb" "1 \<le> ino" "ino \<le> uint (es_inodes_count (es sb))"
  shows "0 \<le> inode_group sb ino" "inode_group sb ino < s_groups_count (sbi sb)"
proof -
  note d = ialloc_okD [OF assms(1)]
  show "0 \<le> inode_group sb ino" using assms(2) d(3) by (simp add: inode_group_def pos_imp_zdiv_nonneg_iff)
  have "ino - 1 < s_groups_count (sbi sb) * KR_INODES_PER_GROUP sb" using assms(3) d(7) by simp
  moreover have "inode_group sb ino * KR_INODES_PER_GROUP sb \<le> ino - 1"
    using minus_mod_eq_div_mult [of "ino - 1" "KR_INODES_PER_GROUP sb"] pos_mod_sign [OF d(3), of "ino - 1"]
    unfolding inode_group_def by linarith
  ultimately have "inode_group sb ino * KR_INODES_PER_GROUP sb < s_groups_count (sbi sb) * KR_INODES_PER_GROUP sb"
    by linarith
  then show "inode_group sb ino < s_groups_count (sbi sb)" using d(3) by simp
qed

text \<open>A group has a free inode exactly if one of its numbers is free.\<close>

lemma has_inode_iff:
  assumes ok: "ialloc_ok sb" and g: "0 \<le> g" "g < s_groups_count (sbi sb)"
  shows "has_inode sb g \<longleftrightarrow> (\<exists>i < nat (KR_INODES_PER_GROUP sb). \<not> inode_bitmap sb g ! i)"
proof -
  note d = inode_group_okD [OF ok g]
  have "has_inode sb g \<longleftrightarrow> uint (bg_free_inodes_count (gdesc sb g)) \<noteq> 0" by (simp add: has_inode_def uint_0_iff)
  also have "\<dots> \<longleftrightarrow> (\<exists>i < nat (KR_INODES_PER_GROUP sb). \<not> inode_bitmap sb g ! i)"
    unfolding d(3) using zero_bits_0_iff [of "nat (KR_INODES_PER_GROUP sb)" "inode_bitmap sb g"] d(1) by auto
  finally show ?thesis .
qed

lemma free_inode_in_group:
  assumes ok: "ialloc_ok sb" and g: "0 \<le> g" "g < s_groups_count (sbi sb)"
    and i: "0 \<le> i" "i < KR_INODES_PER_GROUP sb" "\<not> inode_bitmap sb g ! nat i"
  defines "ino \<equiv> i + (g * KR_INODES_PER_GROUP sb + 1)"
  shows "ino \<in> free_inodes sb" "KR_FIRST_INO sb \<le> ino" "ino \<le> uint (es_inodes_count (es sb))"
proof -
  have r: "KR_FIRST_INO sb \<le> ino \<and> ino \<le> uint (es_inodes_count (es sb))"
  proof (rule ccontr)
    assume "\<not> ?thesis"
    then have "g * KR_INODES_PER_GROUP sb + int (nat i) + 1 < KR_FIRST_INO sb \<or>
        uint (es_inodes_count (es sb)) < g * KR_INODES_PER_GROUP sb + int (nat i) + 1"
      using i(1) by (auto simp: ino_def)
    then show False using inode_group_okD(4) [OF ok g, of "nat i"] i by simp
  qed
  then show "KR_FIRST_INO sb \<le> ino" "ino \<le> uint (es_inodes_count (es sb))" by auto
  then show "ino \<in> free_inodes sb"
    using inode_number(1,2) [OF ok g(1) i(1,2)] i(3) ialloc_okD(5) [OF ok] by (simp add: free_inodes_def ino_def)
qed

lemma free_inodes_empty_iff:
  assumes "ialloc_ok sb"
  shows "free_inodes sb = {} \<longleftrightarrow> (\<forall>g \<in> {0..<s_groups_count (sbi sb)}. \<not> has_inode sb g)"
proof
  assume e: "free_inodes sb = {}"
  show "\<forall>g \<in> {0..<s_groups_count (sbi sb)}. \<not> has_inode sb g"
  proof
    fix g assume "g \<in> {0..<s_groups_count (sbi sb)}"
    then have g: "0 \<le> g" "g < s_groups_count (sbi sb)" by auto
    show "\<not> has_inode sb g"
      using has_inode_iff [OF assms g] free_inode_in_group(1) [OF assms g, of "int _"] e
      by (metis emptyE nat_int of_nat_0_le_iff zless_nat_eq_int_zless)
  qed
next
  assume n: "\<forall>g \<in> {0..<s_groups_count (sbi sb)}. \<not> has_inode sb g"
  show "free_inodes sb = {}"
  proof (rule ccontr)
    assume "free_inodes sb \<noteq> {}"
    then obtain ino where i: "1 \<le> ino" "ino \<le> uint (es_inodes_count (es sb))"
        "\<not> inode_bitmap sb (inode_group sb ino) ! inode_index sb ino" by (auto simp: free_inodes_def)
    note r = inode_group_range [OF assms i(1,2)]
    have "inode_index sb ino < nat (KR_INODES_PER_GROUP sb)" using inode_number(4) [OF assms, of ino] by simp
    then have "has_inode sb (inode_group sb ino)" using has_inode_iff [OF assms r] i(3) by blast
    then show False using n r by simp
  qed
qed

section \<open>Changing one inode's bit\<close>

text \<open>The geometry of the file system: what the invariants read of the two super blocks.\<close>

definition same_geometry :: "super_block \<Rightarrow> super_block \<Rightarrow> bool" where
  "same_geometry sb sb' =
     (s_groups_count (sbi sb') = s_groups_count (sbi sb) \<and> KR_BLOCKS_PER_GROUP sb' = KR_BLOCKS_PER_GROUP sb \<and>
      KR_INODES_PER_GROUP sb' = KR_INODES_PER_GROUP sb \<and> s_itb_per_group (sbi sb') = s_itb_per_group (sbi sb) \<and>
      KR_FIRST_INO sb' = KR_FIRST_INO sb \<and> length (s_debts (sbi sb')) = length (s_debts (sbi sb)) \<and>
      es_first_data_block (es sb') = es_first_data_block (es sb) \<and> es_blocks_count (es sb') = es_blocks_count (es sb) \<and>
      es_inodes_count (es sb') = es_inodes_count (es sb))"

definition without_inode_counts :: "kr_group_desc \<Rightarrow> kr_group_desc" where
  "without_inode_counts d = d\<lparr>bg_free_inodes_count := 0, bg_used_dirs_count := 0\<rparr>"

text \<open>From \<open>sb\<close> to \<open>sb'\<close>, bit \<open>i\<close> of the inode bitmap of group \<open>g\<close> becomes \<open>v\<close>, and the count follows.\<close>

definition inode_change :: "super_block \<Rightarrow> super_block \<Rightarrow> int \<Rightarrow> nat \<Rightarrow> bool \<Rightarrow> bool" where
  "inode_change sb sb' g i v =
     (gd_ok sb' \<and> same_geometry sb sb' \<and>
      b_data sb' = (b_data sb)(uint (bg_inode_bitmap (gdesc sb g)) := (inode_bitmap sb g)[i := v]) \<and>
      (\<forall>h \<in> {0..<s_groups_count (sbi sb)}. h \<noteq> g \<longrightarrow> gdesc sb' h = gdesc sb h) \<and>
      without_inode_counts (gdesc sb' g) = without_inode_counts (gdesc sb g) \<and>
      bg_free_inodes_count (gdesc sb' g) = bg_free_inodes_count (gdesc sb g) + (if v then - 1 else 1))"

lemma without_inode_countsD:
  assumes "without_inode_counts d' = without_inode_counts d"
  shows "bg_block_bitmap d' = bg_block_bitmap d" "bg_inode_bitmap d' = bg_inode_bitmap d"
    "bg_inode_table d' = bg_inode_table d" "bg_free_blocks_count d' = bg_free_blocks_count d"
  by (use assms in \<open>cases d; cases d'; simp add: without_inode_counts_def\<close>)+

lemma inode_change_desc:
  assumes "inode_change sb sb' g i v" "0 \<le> h" "h < s_groups_count (sbi sb)"
  shows "bg_block_bitmap (gdesc sb' h) = bg_block_bitmap (gdesc sb h)"
    "bg_inode_bitmap (gdesc sb' h) = bg_inode_bitmap (gdesc sb h)"
    "bg_inode_table (gdesc sb' h) = bg_inode_table (gdesc sb h)"
    "bg_free_blocks_count (gdesc sb' h) = bg_free_blocks_count (gdesc sb h)"
  using assms without_inode_countsD [of "gdesc sb' g" "gdesc sb g"]
  by (cases "h = g"; auto simp: inode_change_def)+

text \<open>The bitmaps of a file system are all in different blocks.\<close>

lemma metadata_blocks_distinct:
  assumes ok: "fs_ok sb" and g: "0 \<le> g" "g < s_groups_count (sbi sb)" and h: "0 \<le> h" "h < s_groups_count (sbi sb)"
    and b: "metadata_block sb g b" "metadata_block sb h b"
  shows "g = h"
proof (rule ccontr)
  assume ne: "g \<noteq> h"
  let ?B = "KR_BLOCKS_PER_GROUP sb"
  note dg = group_okD(2-7) [OF ok g] and dh = group_okD(2-7) [OF ok h]
  have F: "kr_group_first_block_no sb g = g * ?B + uint (es_first_data_block (es sb))"
    "kr_group_first_block_no sb h = h * ?B + uint (es_first_data_block (es sb))"
    using assms by (auto intro: group_first_block)
  have in_g: "kr_group_first_block_no sb g \<le> b \<and> b < kr_group_first_block_no sb g + ?B"
    using b(1) dg by (auto simp: metadata_block_def Let_def)
  have in_h: "kr_group_first_block_no sb h \<le> b \<and> b < kr_group_first_block_no sb h + ?B"
    using b(2) dh by (auto simp: metadata_block_def Let_def)
  have B: "0 < ?B" using ok by (simp add: fs_ok_def)
  consider "g < h" | "h < g" using ne by linarith
  then show False
  proof cases
    case 1
    then have "(g + 1) * ?B \<le> h * ?B" using B by (intro mult_right_mono) auto
    then show False using in_g in_h F by (simp add: algebra_simps)
  next
    case 2
    then have "(h + 1) * ?B \<le> g * ?B" using B by (intro mult_right_mono) auto
    then show False using in_g in_h F by (simp add: algebra_simps)
  qed
qed

lemma inode_change_bitmaps:
  assumes ok: "ialloc_ok sb" and g: "0 \<le> g" "g < s_groups_count (sbi sb)"
    and c: "inode_change sb sb' g i v" and h: "0 \<le> h" "h < s_groups_count (sbi sb)"
  shows "group_bitmap sb' h = group_bitmap sb h"
    "inode_bitmap sb' h = (if h = g then (inode_bitmap sb g)[i := v] else inode_bitmap sb h)"
proof -
  note d = inode_change_desc [OF c h]
  have b: "b_data sb' = (b_data sb)(uint (bg_inode_bitmap (gdesc sb g)) := (inode_bitmap sb g)[i := v])"
    using c by (simp add: inode_change_def)
  have m: "metadata_block sb x (uint (bg_block_bitmap (gdesc sb x)))" "metadata_block sb x (uint (bg_inode_bitmap (gdesc sb x)))" for x
    by (simp_all add: metadata_block_def Let_def)
  have "uint (bg_block_bitmap (gdesc sb h)) \<noteq> uint (bg_inode_bitmap (gdesc sb g))"
  proof
    assume e: "uint (bg_block_bitmap (gdesc sb h)) = uint (bg_inode_bitmap (gdesc sb g))"
    then have "h = g" using metadata_blocks_distinct [OF ialloc_okD(1) [OF ok] h g m(1)] m(2) [of g] by simp
    then show False using e inode_group_okD(2) [OF ok g] by (simp add: word_uint_eq_iff)
  qed
  then show "group_bitmap sb' h = group_bitmap sb h" unfolding b d by simp
  have "uint (bg_inode_bitmap (gdesc sb h)) \<noteq> uint (bg_inode_bitmap (gdesc sb g))" if "h \<noteq> g"
    using that metadata_blocks_distinct [OF ialloc_okD(1) [OF ok] h g m(2)] m(2) [of g] by auto
  then show "inode_bitmap sb' h = (if h = g then (inode_bitmap sb g)[i := v] else inode_bitmap sb h)"
    unfolding b d by simp
qed

lemma inode_change_fs_ok:
  assumes ok: "ialloc_ok sb" and g: "0 \<le> g" "g < s_groups_count (sbi sb)" and c: "inode_change sb sb' g i v"
  shows "fs_ok sb'" "free_set sb' = free_set sb"
proof -
  have geo: "same_geometry sb sb'" "gd_ok sb'" using c by (simp_all add: inode_change_def)
  note G = geo(1) [unfolded same_geometry_def]
  note F = ialloc_okD(1) [OF ok]
  have first: "kr_group_first_block_no sb' = kr_group_first_block_no sb"
    using G by (simp add: kr_group_first_block_no_def fun_eq_iff)
  have "group_ok sb' h" if h: "0 \<le> h" "h < s_groups_count (sbi sb)" for h
  proof -
    note d = inode_change_desc [OF c h] and bm = inode_change_bitmaps(1) [OF ok g c h]
    have "metadata_block sb' h = metadata_block sb h" using d G by (simp add: metadata_block_def fun_eq_iff Let_def)
    moreover have "group_ok sb h" using F h by (simp add: fs_ok_def)
    ultimately show ?thesis unfolding group_ok_def Let_def bm unfolding d group_geometry_def first using G by simp
  qed
  then show "fs_ok sb'" using F geo G by (simp add: fs_ok_def)
  have "block_used sb' b = block_used sb b"
    if "uint (es_first_data_block (es sb)) \<le> b" "b < uint (es_blocks_count (es sb))" for b
    using inode_change_bitmaps(1) [OF ok g c group_of_range(1,2) [OF F that]] G
    by (simp add: block_used_def group_of_def bit_of_def)
  then show "free_set sb' = free_set sb" using G by (auto simp: free_set_def)
qed

lemma zero_bits_update:
  assumes "i < n" "n \<le> length bm" "bm ! i \<noteq> v"
  shows "int (zero_bits (bm[i := v]) n) = int (zero_bits bm n) + (if v then - 1 else 1)"
proof (cases v)
  case True
  then show ?thesis using zero_bits_mark_set [of i 1 n bm] assms
    by (simp add: mark_range_1 [symmetric] le_Suc_eq less_Suc_eq)
next
  case False
  then show ?thesis using zero_bits_mark_clear [of i 1 n bm] assms
    by (simp add: mark_range_1 [symmetric] le_Suc_eq less_Suc_eq)
qed

lemma inode_change_ok:
  assumes ok: "ialloc_ok sb" and g: "0 \<le> g" "g < s_groups_count (sbi sb)"
    and i: "int i < KR_INODES_PER_GROUP sb" "inode_bitmap sb g ! i \<noteq> v"
    and ino: "KR_FIRST_INO sb \<le> g * KR_INODES_PER_GROUP sb + int i + 1"
      "g * KR_INODES_PER_GROUP sb + int i + 1 \<le> uint (es_inodes_count (es sb))"
    and c: "inode_change sb sb' g i v"
  shows "ialloc_ok sb'"
proof -
  have geo: "same_geometry sb sb'" "gd_ok sb'" using c by (simp_all add: inode_change_def)
  note G = geo(1) [unfolded same_geometry_def] and D = ialloc_okD [OF ok] and dg = inode_group_okD [OF ok g]
  let ?I = "KR_INODES_PER_GROUP sb" and ?bm = "(inode_bitmap sb g)[i := v]"
  have z: "int (zero_bits ?bm (nat ?I)) = int (zero_bits (inode_bitmap sb g) (nat ?I)) + (if v then - 1 else 1)"
    by (rule zero_bits_update) (use i dg(1) in auto)
  have "int (zero_bits ?bm (nat ?I)) < 65536" using zero_bits_le [of ?bm "nat ?I"] D(3,4) by linarith
  then have "uint (word_of_int (int (zero_bits ?bm (nat ?I))) :: 16 word) = int (zero_bits ?bm (nat ?I))"
    by (intro uint_word16) auto
  moreover have "bg_free_inodes_count (gdesc sb' g) = word_of_int (int (zero_bits ?bm (nat ?I)))"
    unfolding z dg(3) [symmetric] using c by (simp add: inode_change_def)
  ultimately have cnt: "uint (bg_free_inodes_count (gdesc sb' g)) = int (zero_bits ?bm (nat ?I))" by simp
  have "inode_group_ok sb' h" if h: "0 \<le> h" "h < s_groups_count (sbi sb)" for h
  proof -
    note d = inode_change_desc(1,2) [OF c h] and bm = inode_change_bitmaps(2) [OF ok g c h]
      and dh = inode_group_okD [OF ok h]
    show ?thesis
    proof (cases "h = g")
      case True
      have "?bm ! j" if j: "int j < ?I"
          "g * ?I + int j + 1 < KR_FIRST_INO sb \<or> uint (es_inodes_count (es sb)) < g * ?I + int j + 1" for j
      proof -
        have "j \<noteq> i" using j(2) ino by auto
        then show ?thesis using dg(4) [OF j] by simp
      qed
      then show ?thesis
        unfolding inode_group_ok_def Let_def bm if_P [OF True] unfolding d True cnt
        using dg(1,2) G inode_change_desc(1,2) [OF c g] by auto
    next
      case False
      have "gdesc sb' h = gdesc sb h" using c h False by (simp add: inode_change_def)
      moreover have "inode_group_ok sb h" using ok h by (simp add: ialloc_ok_def)
      ultimately show ?thesis
        unfolding inode_group_ok_def Let_def bm if_not_P [OF False] using G by simp
    qed
  qed
  then show ?thesis
    using G D geo inode_change_fs_ok(1) [OF ok g c] by (simp add: ialloc_ok_def few_groups_def)
qed

lemma inode_change_free:
  assumes ok: "ialloc_ok sb" and g: "0 \<le> g" "g < s_groups_count (sbi sb)"
    and i: "int i < KR_INODES_PER_GROUP sb"
    and ino: "KR_FIRST_INO sb \<le> g * KR_INODES_PER_GROUP sb + int i + 1"
      "g * KR_INODES_PER_GROUP sb + int i + 1 \<le> uint (es_inodes_count (es sb))"
    and c: "inode_change sb sb' g i v"
  defines "n \<equiv> g * KR_INODES_PER_GROUP sb + int i + 1"
  shows "free_inodes sb' = (if v then free_inodes sb - {n} else insert n (free_inodes sb))"
proof -
  have G: "same_geometry sb sb'" using c by (simp add: inode_change_def)
  have eq: "inode_group sb' = inode_group sb" "inode_index sb' = inode_index sb" "es_inodes_count (es sb') = es_inodes_count (es sb)"
    using G by (simp_all add: same_geometry_def inode_group_def inode_index_def fun_eq_iff)
  have n: "n = int i + (g * KR_INODES_PER_GROUP sb + 1)" by (simp add: n_def)
  have pos: "inode_group sb n = g" "inode_index sb n = i"
    unfolding n using inode_number(1,2) [OF ok g(1), of "int i"] i by simp_all
  have len: "i < length (inode_bitmap sb g)" using inode_group_okD(1) [OF ok g] i by simp
  have bitv: "inode_bitmap sb' (inode_group sb m) ! inode_index sb m =
      (if m = n then v else inode_bitmap sb (inode_group sb m) ! inode_index sb m)"
    if m: "1 \<le> m" "m \<le> uint (es_inodes_count (es sb))" for m
  proof -
    note b = inode_change_bitmaps(2) [OF ok g c inode_group_range [OF ok m]]
    show ?thesis
    proof (cases "m = n")
      case True
      then show ?thesis unfolding b using pos len by simp
    next
      case False
      have "inode_group sb m \<noteq> g \<or> inode_index sb m \<noteq> i"
        using False inode_number(3) [OF ok, of m] unfolding n by metis
      then show ?thesis unfolding b if_not_P [OF False] by (cases "inode_group sb m = g") simp_all
    qed
  qed
  have "1 \<le> n" using ino(1) ialloc_okD(5) [OF ok] by (simp add: n_def)
  then show ?thesis
    using bitv ino(2) [folded n_def] unfolding free_inodes_def eq by (auto split: if_splits)
qed

section \<open>Allocating and freeing\<close>

lemma gdesc_sbi:
  "desc_block (sb\<lparr>sbi := info\<rparr>) = desc_block sb \<Longrightarrow> desc_offset (sb\<lparr>sbi := info\<rparr>) = desc_offset sb \<Longrightarrow>
   gdesc (sb\<lparr>sbi := info\<rparr>) = gdesc sb"
  by (simp add: gdesc_def fun_eq_iff)

text \<open>The in-core information without the counters that allocation of inodes changes.\<close>

definition without_inode_counters :: "kr_sb_info \<Rightarrow> kr_sb_info" where
  "without_inode_counters info =
     info\<lparr>s_freeinodes_counter := 0, s_dirs_counter := 0, s_debts := [], s_next_generation := 0\<rparr>"

lemma without_inode_countersD:
  assumes "without_inode_counters i' = without_inode_counters i"
  shows "s_groups_count i' = s_groups_count i" "s_blocks_per_group i' = s_blocks_per_group i"
    "s_inodes_per_group i' = s_inodes_per_group i" "s_itb_per_group i' = s_itb_per_group i"
    "s_first_ino i' = s_first_ino i" "s_desc_per_block i' = s_desc_per_block i"
    "s_desc_per_block_bits i' = s_desc_per_block_bits i" "s_mount_opt i' = s_mount_opt i"
    "s_freeblocks_counter i' = s_freeblocks_counter i" "s_inode_size i' = s_inode_size i"
  by (use assms in \<open>cases i; cases i'; simp add: without_inode_counters_def\<close>)+

lemma desc_access_cong:
  assumes "without_inode_counters (sbi sb') = without_inode_counters (sbi sb)" "s_group_desc sb' = s_group_desc sb"
  shows "gdesc sb' = gdesc sb" "gd_ok sb' = gd_ok sb"
  using without_inode_countersD [OF assms(1)] assms(2)
  by (simp_all add: gdesc_def gd_ok_def desc_loaded_def desc_block_def desc_offset_def fun_eq_iff cong: option.case_cong)

text \<open>A change of one bit and of the counts, in the form the two operations leave it.\<close>

lemma inode_changeI:
  assumes sb: "gd_ok sb" and g: "0 \<le> g" "g < s_groups_count (sbi sb)"
    and info: "without_inode_counters (sbi sb') = without_inode_counters (sbi sb)"
      "length (s_debts (sbi sb')) = length (s_debts (sbi sb))"
    and es: "es sb' = es sb"
    and desc: "s_group_desc sb' = s_group_desc (set_gdesc g d sb)"
    and data: "b_data sb' = (b_data sb)(uint (bg_inode_bitmap (gdesc sb g)) := (inode_bitmap sb g)[i := v])"
    and d: "without_inode_counts d = without_inode_counts (gdesc sb g)"
      "bg_free_inodes_count d = bg_free_inodes_count (gdesc sb g) + (if v then - 1 else 1)"
  shows "inode_change sb sb' g i v"
proof -
  have c: "gdesc sb' = gdesc (set_gdesc g d sb)" "gd_ok sb' = gd_ok (set_gdesc g d sb)"
    using info(1) desc by (intro desc_access_cong; simp)+
  have "gdesc sb' h = (if h = g then d else gdesc sb h)" if "0 \<le> h" "h < s_groups_count (sbi sb)" for h
    unfolding c using gdesc_set_gdesc [OF sb g that] by simp
  moreover have "same_geometry sb sb'"
    using without_inode_countersD [OF info(1)] info(2) es by (simp add: same_geometry_def)
  ultimately show ?thesis using sb g d data c by (simp add: inode_change_def)
qed

lemma kr_preread_inode_total:
  assumes "gd_ok sb" "0 < KR_INODES_PER_GROUP sb" "1 \<le> ino" "ino < 18446744073709551616"
    and "(ino - 1) div KR_INODES_PER_GROUP sb < s_groups_count (sbi sb)"
  shows "\<exists>b. kr_preread_inode k sb ino = Some (b, sb)"
proof -
  have "u64 (ino - 1) = ino - 1" using assms by (intro u64_id) auto
  moreover have "0 \<le> (ino - 1) div KR_INODES_PER_GROUP sb" using assms by (simp add: pos_imp_zdiv_nonneg_iff)
  ultimately show ?thesis using assms by (simp add: kr_preread_inode_def Let_def)
qed

text \<open>The state in which \<^verbatim>\<open>kr_new_inode\<close> leaves the file system when bit \<open>i\<close> of group \<open>g\<close> was taken.\<close>

lemma scan_finds:
  assumes io: "io_ok k" and ok: "ialloc_ok sb" and g: "0 \<le> g" "g < s_groups_count (sbi sb)" "has_inode sb g"
    and n: "0 < n"
  shows "\<exists>i. 0 \<le> i \<and> i < KR_INODES_PER_GROUP sb \<and> \<not> inode_bitmap sb g ! nat i \<and>
     scan_inode_groups k n g sb = Some (InodeFound g i,
       sb\<lparr>b_data := (b_data sb)(uint (bg_inode_bitmap (gdesc sb g)) := (inode_bitmap sb g)[nat i := True])\<rparr>)"
proof -
  note D = ialloc_okD [OF ok] and d = inode_group_okD [OF ok g(1,2)]
  have gd: "gd_ok sb" using D(1) by (simp add: fs_ok_def)
  obtain m where m: "n = Suc m" using n by (cases n) auto
  have I: "0 \<le> KR_INODES_PER_GROUP sb" "KR_INODES_PER_GROUP sb < 18446744073709551616" using D(3,4) by auto
  obtain r bm' where r: "repeat_in_this_group (KR_INODES_PER_GROUP sb) (inode_bitmap sb g) 0 = Some (r, bm')"
     "case r of None \<Rightarrow> bm' = inode_bitmap sb g \<and> (\<forall>i < nat (KR_INODES_PER_GROUP sb). inode_bitmap sb g ! i)
      | Some i \<Rightarrow> 0 \<le> i \<and> i < KR_INODES_PER_GROUP sb \<and> \<not> inode_bitmap sb g ! nat i \<and>
          (\<forall>j < nat i. inode_bitmap sb g ! j) \<and> bm' = (inode_bitmap sb g)[nat i := True]"
    using repeat_in_this_group_spec [OF I(1) d(1) I(2)] by blast
  obtain i where i: "r = Some i" using r(2) has_inode_iff [OF ok g(1,2)] g(3) by (cases r) auto
  then show ?thesis
    using r g gd read_inode_bitmap_ok [OF io gd g(1,2)] by (intro exI [of _ i]) (simp add: m Let_def)
qed

lemma account_new_inode_eq:
  assumes "0 \<le> g" "g < int (length (s_debts (sbi sb)))"
  shows "\<exists>d info. account_new_inode dir g sb = Some (set_gdesc g d (sb\<lparr>sbi := info\<rparr>)) \<and>
     without_inode_counters info = without_inode_counters (sbi sb) \<and>
     length (s_debts info) = length (s_debts (sbi sb)) \<and> s_next_generation info = s_next_generation (sbi sb) \<and>
     without_inode_counts d = without_inode_counts (gdesc sb g) \<and>
     bg_free_inodes_count d = bg_free_inodes_count (gdesc sb g) - 1 \<and>
     bg_used_dirs_count d = bg_used_dirs_count (gdesc sb g) + (if dir then 1 else 0) \<and>
     s_freeinodes_counter info = s_freeinodes_counter (sbi sb) - 1 \<and>
     s_dirs_counter info = s_dirs_counter (sbi sb) + (if dir then 1 else 0)"
  using assms
  by (intro exI [of _ "new_inode_desc dir (gdesc sb g)"] exI [of _ "new_inode_info dir g (sbi sb)"])
    (simp add: account_new_inode_def new_inode_desc_def new_inode_info_def Let_def
      without_inode_counters_def without_inode_counts_def)

text \<open>No failure of the calls around the allocation: memory, the inode hash and quota.\<close>

definition inode_calls_ok :: "kernel \<Rightarrow> bool" where
  "inode_calls_ok k =
     (k_new_inode k \<noteq> None \<and> (\<forall>i. k_insert_inode k i) \<and>
      (\<forall>i. k_dquot_initialize k i = None \<and> k_dquot_alloc_inode k i = None))"

text \<open>An inode that may be freed: its number is not reserved, exists, and is in use.\<close>

definition inode_in_use :: "super_block \<Rightarrow> int \<Rightarrow> bool" where
  "inode_in_use sb ino =
     (KR_FIRST_INO sb \<le> ino \<and> ino \<le> uint (es_inodes_count (es sb)) \<and> ino \<notin> free_inodes sb)"

definition new_inode_post :: "super_block \<Rightarrow> super_block \<Rightarrow> inode \<Rightarrow> 16 word \<Rightarrow> errno + inode \<Rightarrow> bool" where
  "new_inode_post sb sb' dir mode res =
     (case res of
        Inl e \<Rightarrow> e = ENOSPC \<and> free_inodes sb = {} \<and> sb' = sb
      | Inr ino \<Rightarrow>
          i_ino ino \<in> free_inodes sb \<and> inode_in_use sb' (i_ino ino) \<and>
          free_inodes sb' = free_inodes sb - {i_ino ino} \<and>
          s_freeinodes_counter (sbi sb') = s_freeinodes_counter (sbi sb) - 1 \<and>
          s_dirs_counter (sbi sb') = s_dirs_counter (sbi sb) + (if S_ISDIR mode then 1 else 0) \<and>
          uint (i_block_group ino) = inode_group sb (i_ino ino) \<and>
          i_data ino = replicate KR_N_BLOCKS 0 \<and> i_blocks ino = 0 \<and> i_block_alloc_info ino = None \<and>
          i_flags ino = kr_mask_flags mode (i_flags dir AND KR_FL_INHERITED) \<and>
          i_generation ino = s_next_generation (sbi sb))"

lemma find_group_found:
  assumes ok: "ialloc_ok sb" and parent: "uint (i_block_group dir) < s_groups_count (sbi sb)"
  shows "\<exists>g. (if S_ISDIR mode then
               (if test_opt sb KR_MOUNT_OLDALLOC then find_group_dir k sb else find_group_orlov k sb dir)
             else find_group_other k sb dir) = Some (g, sb) \<and> group_found sb g"
  using find_group_dir_found [of sb k] find_group_orlov_found [OF _ parent, of k] find_group_other_found [OF _ parent, of k]
    ialloc_okD(2,6) [OF ok] by (cases "S_ISDIR mode"; cases "test_opt sb KR_MOUNT_OLDALLOC") auto

lemma init_new_inode_fields:
  "i_ino (init_new_inode k sb fresh dir mode g ino) = ino"
  "i_data (init_new_inode k sb fresh dir mode g ino) = replicate KR_N_BLOCKS 0"
  "i_blocks (init_new_inode k sb fresh dir mode g ino) = 0"
  "i_block_alloc_info (init_new_inode k sb fresh dir mode g ino) = None"
  "i_block_group (init_new_inode k sb fresh dir mode g ino) = word_of_int g"
  "i_flags (init_new_inode k sb fresh dir mode g ino) = kr_mask_flags mode (i_flags dir AND KR_FL_INHERITED)"
  by (simp_all add: init_new_inode_def kr_set_inode_flags_def Let_def)

lemma kr_new_inode_ok:
  assumes io: "io_ok k" and calls: "inode_calls_ok k" and ok: "ialloc_ok sb"
    and parent: "uint (i_block_group dir) < s_groups_count (sbi sb)"
  shows "\<exists>res sb'. kr_new_inode k iput sb dir mode = Some (res, sb') \<and> ialloc_ok sb' \<and> free_set sb' = free_set sb \<and>
     new_inode_post sb sb' dir mode res"
proof -
  note D = ialloc_okD [OF ok]
  have gd: "gd_ok sb" using D(1) by (simp add: fs_ok_def)
  let ?I = "KR_INODES_PER_GROUP sb"
  obtain fresh where fresh: "k_new_inode k = Some fresh" using calls by (auto simp: inode_calls_ok_def)
  obtain g where find: "(if S_ISDIR mode then
               (if test_opt sb KR_MOUNT_OLDALLOC then find_group_dir k sb else find_group_orlov k sb dir)
             else find_group_other k sb dir) = Some (g, sb)" and g: "group_found sb g"
    using find_group_found [OF ok parent] by blast
  show ?thesis
  proof (cases "g = - 1")
    case True
    then have "free_inodes sb = {}" using g free_inodes_empty_iff [OF ok] by (simp add: group_found_def)
    then show ?thesis using True fresh find ok by (simp add: kr_new_inode_def new_inode_post_def)
  next
    case False
    then have g: "0 \<le> g" "g < s_groups_count (sbi sb)" "has_inode sb g" using g by (auto simp: group_found_def)
    obtain i where i: "0 \<le> i" "i < ?I" "\<not> inode_bitmap sb g ! nat i"
      and scan: "scan_inode_groups k (nat (s_groups_count (sbi sb))) g sb = Some (InodeFound g i,
       sb\<lparr>b_data := (b_data sb)(uint (bg_inode_bitmap (gdesc sb g)) := (inode_bitmap sb g)[nat i := True])\<rparr>)"
      using scan_finds [OF io ok g, of "nat (s_groups_count (sbi sb))"] few_groupsD(3) [OF D(2)] by auto
    define ino where "ino = i + (g * ?I + 1)"
    note f = free_inode_in_group [OF ok g(1,2) i, folded ino_def]
    have "uint (es_inodes_count (es sb)) < 4294967296" by simp
    then have u: "u64 ino = ino" using f(2,3) D(5) by (intro u64_id) linarith+
    let ?sb2 = "sb\<lparr>b_data := (b_data sb)(uint (bg_inode_bitmap (gdesc sb g)) := (inode_bitmap sb g)[nat i := True])\<rparr>"
    obtain d info where acc: "account_new_inode (S_ISDIR mode) g ?sb2 = Some (set_gdesc g d (?sb2\<lparr>sbi := info\<rparr>))"
      and info: "without_inode_counters info = without_inode_counters (sbi sb)"
        "length (s_debts info) = length (s_debts (sbi sb))" "s_next_generation info = s_next_generation (sbi sb)"
        "s_freeinodes_counter info = s_freeinodes_counter (sbi sb) - 1"
        "s_dirs_counter info = s_dirs_counter (sbi sb) + (if S_ISDIR mode then 1 else 0)"
      and d: "without_inode_counts d = without_inode_counts (gdesc sb g)"
        "bg_free_inodes_count d = bg_free_inodes_count (gdesc sb g) - 1"
      using account_new_inode_eq [of g ?sb2 "S_ISDIR mode"] g D(6) by auto
    let ?sb3 = "set_gdesc g d (?sb2\<lparr>sbi := info\<rparr>)"
    define sb4 where "sb4 = ?sb3\<lparr>sbi := info\<lparr>s_next_generation := s_next_generation (sbi sb) + 1\<rparr>\<rparr>"
    have info4: "without_inode_counters (sbi sb4) = without_inode_counters (sbi sb)"
      using info(1) by (simp add: sb4_def without_inode_counters_def)
    have "inode_change sb sb4 g (nat i) True"
    proof (rule inode_changeI [OF gd g(1,2) info4])
      show "s_group_desc sb4 = s_group_desc (set_gdesc g d sb)"
        using without_inode_countersD(6,7) [OF info(1)]
        by (simp add: sb4_def set_gdesc_def desc_block_def desc_offset_def)
    qed (use info d in \<open>simp_all add: sb4_def\<close>)
    note c = this
    have n: "g * ?I + int (nat i) + 1 = ino" "int (nat i) < ?I" using i by (simp_all add: ino_def)
    have ok4: "ialloc_ok sb4" using inode_change_ok [OF ok g(1,2) n(2) _ _ _ c] n f i(3) by simp
    have free4: "free_inodes sb4 = free_inodes sb - {ino}" "free_set sb4 = free_set sb"
      using inode_change_free [OF ok g(1,2) n(2) _ _ c] inode_change_fs_ok(2) [OF ok g(1,2) c] n f by simp_all
    have grp: "inode_group sb ino = g" using inode_number(1) [OF ok g(1) i(1,2)] by (simp add: ino_def)
    have "inode_in_use sb4 ino"
      using c f free4 by (simp add: inode_in_use_def inode_change_def same_geometry_def)
    note use4 = this
    have "gd_ok sb4" "KR_INODES_PER_GROUP sb4 = ?I" "s_groups_count (sbi sb4) = s_groups_count (sbi sb)"
      using c by (simp_all add: inode_change_def same_geometry_def)
    then obtain b where pre: "kr_preread_inode k sb4 ino = Some (b, sb4)"
      using kr_preread_inode_total [of sb4 ino k] f D(3,5) g grp u u64_range(2) [of ino]
      by (auto simp: inode_group_def)
    let ?ino = "(init_new_inode k ?sb3 fresh dir mode g ino)\<lparr>i_generation := s_next_generation (sbi sb)\<rparr>"
    have new: "kr_new_inode k iput sb dir mode = Some (Inr ?ino, sb4)"
      unfolding kr_new_inode_def fresh option.case find
      using False scan acc f u calls pre info(3)
      by (simp add: Let_def ino_def [symmetric] inode_calls_ok_def sb4_def)
    have "uint (word_of_int g :: 32 word) = g" using g few_groupsD(4) [OF D(2)] by (intro uint_word32) auto
    then have "new_inode_post sb sb4 dir mode (Inr ?ino)"
      using f free4 info grp use4 by (simp add: new_inode_post_def init_new_inode_fields sb4_def)
    then show ?thesis using new ok4 free4 by blast
  qed
qed

lemma kr_free_inode_ok:
  assumes io: "io_ok k" and ok: "ialloc_ok sb" and used: "inode_in_use sb (i_ino inode)"
  shows "\<exists>sb'. kr_free_inode k sb inode = Some sb' \<and> ialloc_ok sb' \<and> free_set sb' = free_set sb \<and>
     free_inodes sb' = insert (i_ino inode) (free_inodes sb) \<and>
     s_freeinodes_counter (sbi sb') = s_freeinodes_counter (sbi sb) \<and>
     s_dirs_counter (sbi sb') = s_dirs_counter (sbi sb) - (if S_ISDIR (i_mode inode) then 1 else 0)"
proof -
  note D = ialloc_okD [OF ok]
  have gd: "gd_ok sb" using D(1) by (simp add: fs_ok_def)
  let ?n = "i_ino inode" and ?I = "KR_INODES_PER_GROUP sb"
  define g where "g = inode_group sb ?n"
  define i where "i = inode_index sb ?n"
  have n: "KR_FIRST_INO sb \<le> ?n" "?n \<le> uint (es_inodes_count (es sb))" "1 \<le> ?n"
    using used D(5) by (auto simp: inode_in_use_def)
  have g: "0 \<le> g" "g < s_groups_count (sbi sb)" using inode_group_range [OF ok n(3,2)] by (simp_all add: g_def)
  have i: "int i < ?I" "?n = int i + (g * ?I + 1)" using inode_number(3,4) [OF ok, of ?n] by (simp_all add: i_def g_def)
  have bit: "inode_bitmap sb g ! i" using used n by (simp add: inode_in_use_def free_inodes_def g_def i_def)
  have "uint (es_inodes_count (es sb)) < 4294967296" by simp
  then have u: "u64 (?n - 1) = ?n - 1" using n by (intro u64_id) linarith+
  have pos: "u64 (?n - 1) div ?I = g" "u64 (?n - 1) mod ?I = int i"
    using D(3) by (simp_all add: u g_def i_def inode_group_def inode_index_def)
  have len: "i < length (inode_bitmap sb g)" using inode_group_okD(1) [OF ok g] i(1) by simp
  have s: "s32 g = g" "u32 g = g" using g few_groupsD(4) [OF D(2)] by (auto intro!: s32_id u32_id)
  let ?dir = "S_ISDIR (i_mode inode)"
  let ?sb2 = "sb\<lparr>b_data := (b_data sb)(uint (bg_inode_bitmap (gdesc sb g)) := (inode_bitmap sb g)[i := False])\<rparr>"
  let ?d = "(gdesc sb g)\<lparr>bg_free_inodes_count := bg_free_inodes_count (gdesc sb g) + 1,
      bg_used_dirs_count := (if ?dir then bg_used_dirs_count (gdesc sb g) - 1 else bg_used_dirs_count (gdesc sb g))\<rparr>"
  define sb' where "sb' = (set_gdesc g ?d ?sb2)\<lparr>sbi := (sbi sb)\<lparr>s_dirs_counter :=
      s_dirs_counter (sbi sb) - (if ?dir then 1 else 0)\<rparr>\<rparr>"
  have rel: "kr_release_inode k ?sb2 g ?dir = Some sb'"
    using gd g s by (simp add: kr_release_inode_def Let_def sb'_def)
  have "kr_free_inode k sb inode = Some sb'"
    using n D(3) pos read_inode_bitmap_ok [OF io gd g] len bit rel s
    by (simp add: kr_free_inode_def Let_def clear_bit_le_def)
  moreover have c: "inode_change sb sb' g i False"
    by (rule inode_changeI [OF gd g, where d = ?d])
      (simp_all add: sb'_def without_inode_counters_def without_inode_counts_def set_gdesc_def desc_block_def desc_offset_def)
  moreover have "ialloc_ok sb'" using inode_change_ok [OF ok g i(1) _ _ _ c] i(2) n bit by simp
  moreover have "free_inodes sb' = insert ?n (free_inodes sb)"
    using inode_change_free [OF ok g i(1) _ _ c] i(2) n by (simp add: add.commute add.left_commute)
  moreover have "free_set sb' = free_set sb" using inode_change_fs_ok(2) [OF ok g c] .
  ultimately show ?thesis by (auto simp: sb'_def)
qed

section \<open>The inode allocator as an interface\<close>

text \<open>
  A pool of numbered objects: making one takes a number that was free, and fails only when
  none is free; giving one back makes its number free again.
\<close>

locale object_pool =
  fixes inv :: "'s \<Rightarrow> bool" and free :: "'s \<Rightarrow> int set" and request_ok :: "'s \<Rightarrow> 'r \<Rightarrow> bool"
    and in_use :: "'s \<Rightarrow> int \<Rightarrow> bool" and number :: "'o \<Rightarrow> int"
    and new :: "'s \<Rightarrow> 'r \<Rightarrow> ((errno + 'o) \<times> 's) option" and release :: "'s \<Rightarrow> 'o \<Rightarrow> 's option"
  assumes new_ok:
    "inv s \<Longrightarrow> request_ok s r \<Longrightarrow>
     \<exists>res s'. new s r = Some (res, s') \<and> inv s' \<and>
       (case res of
          Inl e \<Rightarrow> free s = {} \<and> s' = s
        | Inr ob \<Rightarrow> number ob \<in> free s \<and> free s' = free s - {number ob} \<and> in_use s' (number ob))"
  and release_ok:
    "inv s \<Longrightarrow> in_use s (number ob) \<Longrightarrow>
     \<exists>s'. release s ob = Some s' \<and> inv s' \<and> free s' = insert (number ob) (free s)"
begin

lemma new_release:
  assumes "inv s" "request_ok s r" "new s r = Some (Inr ob, s')"
  shows "\<exists>s''. release s' ob = Some s'' \<and> inv s'' \<and> free s'' = free s"
proof -
  have n: "inv s'" "number ob \<in> free s" "free s' = free s - {number ob}" "in_use s' (number ob)"
    using new_ok [OF assms(1,2)] assms(3) by auto
  then show ?thesis using release_ok [OF n(1,4)] by (auto simp: insert_absorb)
qed

lemma new_distinct:
  assumes "inv s" "request_ok s r1" "new s r1 = Some (Inr o1, s1)"
    and "request_ok s1 r2" "new s1 r2 = Some (Inr o2, s2)"
  shows "number o1 \<noteq> number o2"
proof -
  have "inv s1" "free s1 = free s - {number o1}" using new_ok [OF assms(1,2)] assms(3) by auto
  then show ?thesis using new_ok [OF _ assms(4)] assms(5) by fastforce
qed

lemma new_succeeds:
  assumes "inv s" "request_ok s r" "free s \<noteq> {}"
  shows "\<exists>ob s'. new s r = Some (Inr ob, s')"
proof -
  obtain res s' where "new s r = Some (res, s')" "case res of
          Inl e \<Rightarrow> free s = {} \<and> s' = s
        | Inr ob \<Rightarrow> number ob \<in> free s \<and> free s' = free s - {number ob} \<and> in_use s' (number ob)"
    using new_ok [OF assms(1,2)] by blast
  then show ?thesis using assms(3) by (cases res) auto
qed

end

text \<open>The model as an instance: the state is the kernel underneath and the super block.\<close>

definition ialloc_inv :: "kernel \<times> super_block \<Rightarrow> bool" where
  "ialloc_inv = (\<lambda>(k, sb). io_ok k \<and> inode_calls_ok k \<and> ialloc_ok sb)"

definition ialloc_new :: "kernel \<times> super_block \<Rightarrow> inode \<times> 16 word \<Rightarrow> ((errno + inode) \<times> kernel \<times> super_block) option" where
  "ialloc_new = (\<lambda>(k, sb) (dir, mode).
     map_option (\<lambda>(res, sb'). (res, k, sb')) (kr_new_inode k (\<lambda>sb i. Some sb) sb dir mode))"

definition ialloc_release :: "kernel \<times> super_block \<Rightarrow> inode \<Rightarrow> (kernel \<times> super_block) option" where
  "ialloc_release = (\<lambda>(k, sb) ino. map_option (Pair k) (kr_free_inode k sb ino))"

interpretation ialloc: object_pool ialloc_inv "\<lambda>(k, sb). free_inodes sb"
  "\<lambda>(k, sb) (dir, mode). uint (i_block_group dir) < s_groups_count (sbi sb)" "\<lambda>(k, sb). inode_in_use sb" i_ino
  ialloc_new ialloc_release
proof
  fix s :: "kernel \<times> super_block" and r :: "inode \<times> 16 word"
  assume a: "ialloc_inv s" "(case s of (k, sb) \<Rightarrow> \<lambda>(dir, mode). uint (i_block_group dir) < s_groups_count (sbi sb)) r"
  obtain k sb dir mode where s: "s = (k, sb)" "r = (dir, mode)" by (cases s; cases r)
  have i: "io_ok k" "inode_calls_ok k" "ialloc_ok sb" "uint (i_block_group dir) < s_groups_count (sbi sb)"
    using a by (simp_all add: s ialloc_inv_def)
  obtain res sb' where r: "kr_new_inode k (\<lambda>sb i. Some sb) sb dir mode = Some (res, sb')" "ialloc_ok sb'"
      "free_set sb' = free_set sb" "new_inode_post sb sb' dir mode res"
    using kr_new_inode_ok [OF i] by blast
  then show "\<exists>res s'. ialloc_new s r = Some (res, s') \<and> ialloc_inv s' \<and>
       (case res of
          Inl e \<Rightarrow> (case s of (k, sb) \<Rightarrow> free_inodes sb) = {} \<and> s' = s
        | Inr ob \<Rightarrow> i_ino ob \<in> (case s of (k, sb) \<Rightarrow> free_inodes sb) \<and>
            (case s' of (k, sb) \<Rightarrow> free_inodes sb) = (case s of (k, sb) \<Rightarrow> free_inodes sb) - {i_ino ob} \<and>
            (case s' of (k, sb) \<Rightarrow> inode_in_use sb) (i_ino ob))"
    using i unfolding s
    by (intro exI [of _ res] exI [of _ "(k, sb')"])
      (auto simp: ialloc_new_def ialloc_inv_def new_inode_post_def split: sum.splits)
next
  fix s :: "kernel \<times> super_block" and ob :: inode
  assume a: "ialloc_inv s" "(case s of (k, sb) \<Rightarrow> inode_in_use sb) (i_ino ob)"
  then show "\<exists>s'. ialloc_release s ob = Some s' \<and> ialloc_inv s' \<and>
      (case s' of (k, sb) \<Rightarrow> free_inodes sb) = insert (i_ino ob) (case s of (k, sb) \<Rightarrow> free_inodes sb)"
    using kr_free_inode_ok [of "fst s" "snd s" ob] by (cases s) (auto simp: ialloc_inv_def ialloc_release_def)
qed

end
