(* ===== verification/Kr_Example.thy ===== *)
theory Kr_Example
  imports Kr_New_Blocks Kr_New_Inode
begin

text \<open>
  A small file system and a kernel that never fails, on which the hypotheses of the theorems
  hold: one group of 16 blocks of which the first five hold metadata, blocks of 8 bytes, 8
  inodes, and a red-black tree library that keeps the tree as a list.
\<close>

fun rsv_spine :: "rsv_ptr list \<Rightarrow> rsv_ptr tree" where
  "rsv_spine [] = Leaf"
| "rsv_spine (p # ps) = Node Leaf p (rsv_spine ps)"

fun rsv_after :: "rsv_ptr \<Rightarrow> rsv_ptr list \<Rightarrow> rsv_ptr option" where
  "rsv_after p [] = None"
| "rsv_after p (q # qs) = (if p = q then (case qs of [] \<Rightarrow> None | r # _ \<Rightarrow> Some r) else rsv_after p qs)"

definition ex_inode :: inode where
  "ex_inode = \<lparr>i_ino = 2, i_mode = S_IFREG, i_uid = 0, i_gid = 0, i_nlink = 1, i_size = 0, i_blocks = 0,
      i_atime = 0, i_ctime = 0, i_mtime = 0, vfs_flags = 0, i_generation = 0, i_rdev = 0,
      i_data = replicate 15 0, i_flags = 0, i_faddr = 0, i_frag_no = 0, i_frag_size = 0, i_state = 0,
      i_file_acl = 0, i_dir_acl = 0, i_dtime = 0, i_block_group = 0, i_block_alloc_info = None,
      i_dir_start_lookup = 0\<rparr>"

definition ex_kernel :: kernel where
  "ex_kernel =
     \<lparr>k_getblk = (\<lambda>b. True), k_uptodate = (\<lambda>b. False), k_bread = (\<lambda>b. True), k_now = 1000,
      k_percpu_read = (\<lambda>c. max c 0), k_capable = False, k_fsuid = 1000, k_in_group = (\<lambda>g. False),
      k_kmalloc = True, k_random = 7, k_trylock = True,
      k_dquot_alloc_block = (\<lambda>i c. (None, i\<lparr>i_blocks := i_blocks i + c\<rparr>)),
      k_dquot_free_block = (\<lambda>i c. i\<lparr>i_blocks := i_blocks i - c\<rparr>),
      k_new_inode = Some ex_inode,
      k_init_owner = (\<lambda>i d m. i\<lparr>i_mode := m, i_uid := 1000, i_gid := 100\<rparr>),
      k_insert_inode = (\<lambda>i. True), k_dquot_initialize = (\<lambda>i. None), k_dquot_alloc_inode = (\<lambda>i. None),
      k_congested = False, k_pid = 42, k_zeroout = (\<lambda>b n. None), k_truncate_page = (\<lambda>i n. None),
      k_iget_locked = (\<lambda>i. Some (True, ex_inode)),
      k_old_valid_dev = (\<lambda>d. d < 0x10000), k_old_encode_dev = (\<lambda>d. d), k_old_decode_dev = (\<lambda>d. d),
      k_new_encode_dev = (\<lambda>d. d), k_new_decode_dev = (\<lambda>d. d),
      k_fs_overflowuid = 65534, k_fs_overflowgid = 65534, k_sync_buffer = (\<lambda>b. True),
      k_rb_insert_color = (\<lambda>t. t), k_rb_erase = (\<lambda>p t. rsv_spine (remove1 p (inorder t))),
      k_rb_first = (\<lambda>t. case inorder t of [] \<Rightarrow> None | x # _ \<Rightarrow> Some x),
      k_rb_next = (\<lambda>p t. rsv_after p (inorder t)),
      k_rb_prev = (\<lambda>p t. rsv_after p (rev (inorder t)))\<rparr>"

definition ex_desc :: kr_group_desc where
  "ex_desc = \<lparr>bg_block_bitmap = 3, bg_inode_bitmap = 4, bg_inode_table = 5,
      bg_free_blocks_count = 11, bg_free_inodes_count = 6, bg_used_dirs_count = 1\<rparr>"

definition ex_es :: kr_super_block where
  "ex_es = \<lparr>es_inodes_count = 8, es_blocks_count = 17, es_r_blocks_count = 0, es_free_blocks_count = 11,
      es_free_inodes_count = 6, es_first_data_block = 1, es_log_block_size = 0, es_log_frag_size = 0,
      es_blocks_per_group = 16, es_frags_per_group = 16, es_inodes_per_group = 8, es_mtime = 0, es_wtime = 0,
      es_mnt_count = 0, es_max_mnt_count = 20, es_magic = 0xEF53, es_state = 1, es_errors = 1,
      es_lastcheck = 0, es_checkinterval = 0, es_rev_level = 0, es_def_resuid = 0, es_def_resgid = 0,
      es_first_ino = 11, es_inode_size = 128, es_feature_compat = 0, es_feature_incompat = 0,
      es_feature_ro_compat = 1, es_uuid = [], es_default_mount_opts = 0, es_first_meta_bg = 0\<rparr>"

definition ex_sbi :: kr_sb_info where
  "ex_sbi = \<lparr>s_frag_size = 8, s_frags_per_block = 1, s_inodes_per_block = 8, s_frags_per_group = 16,
      s_blocks_per_group = 16, s_inodes_per_group = 8, s_itb_per_group = 1, s_gdb_count = 1,
      s_desc_per_block = 1, s_groups_count = 1, s_overhead_last = 0, s_blocks_last = 0,
      s_mount_opt = KR_MOUNT_ERRORS_CONT, s_sb_block = 1, s_resuid = 0, s_resgid = 0, s_mount_state = 1,
      s_addr_per_block_bits = 1, s_desc_per_block_bits = 0, s_inode_size = 128, s_first_ino = 2,
      s_next_generation = 5, s_debts = [0], s_freeblocks_counter = 11, s_freeinodes_counter = 6,
      s_dirs_counter = 1\<rparr>"

definition ex_raw_inode :: kr_inode where
  "ex_raw_inode = \<lparr>ri_mode = S_IFREG, ri_uid_low = 0, ri_size = 0, ri_atime = 0, ri_ctime = 0, ri_mtime = 0,
      ri_dtime = 0, ri_gid_low = 0, ri_links_count = 1, ri_blocks = 0, ri_flags = 0, ri_block = replicate 15 0,
      ri_generation = 0, ri_file_acl = 0, ri_dir_acl = 0, ri_faddr = 0, ri_frag = 0, ri_fsize = 0,
      ri_uid_high = 0, ri_gid_high = 0\<rparr>"

definition ex_sb :: super_block where
  "ex_sb = \<lparr>s_flags = 0, s_blocksize = 8, s_blocksize_bits = 3, s_maxbytes = 1000, sbi = ex_sbi, es = ex_es,
      s_group_desc = [Some [ex_desc]],
      b_data = (\<lambda>b. if b = 3 then replicate 5 True @ replicate 11 False
                    else if b = 4 then [True, True] @ replicate 6 False else []),
      b_ind = (\<lambda>b. [0, 0]), b_inode = (\<lambda>b off. ex_raw_inode),
      s_rsv_window_root = Node Leaf RsvHead Leaf,
      rsv_node = (\<lambda>p. \<lparr>rsv_goal_size = (if p = RsvHead then 0 else 8), rsv_alloc_hit = 0,
                        rsv_start = 0, rsv_end = 0\<rparr>)\<rparr>"

lemma inorder_rsv_spine [simp]: "inorder (rsv_spine ps) = ps"
  by (induction ps) simp_all

lemma rsv_after_append:
  "distinct (xs @ p # ys) \<Longrightarrow> rsv_after p (xs @ p # ys) = (case ys of [] \<Rightarrow> None | y # _ \<Rightarrow> Some y)"
  by (induction xs) auto

lemma ex_kernel_rb: "rb_ok ex_kernel"
  unfolding rb_ok_def
proof (intro conjI allI impI)
  fix p t and xs ys :: "rsv_ptr list"
  assume d: "distinct (inorder t)" and t: "inorder t = xs @ p # ys"
  show "k_rb_next ex_kernel p t = (case ys of [] \<Rightarrow> None | y # _ \<Rightarrow> Some y)"
    using rsv_after_append [of xs p ys] d t by (simp add: ex_kernel_def)
  have "distinct (rev ys @ p # rev xs)" using d t by auto
  then have "rsv_after p (rev (inorder t)) = (case rev xs of [] \<Rightarrow> None | y # _ \<Rightarrow> Some y)"
    using rsv_after_append [of "rev ys" p "rev xs"] t by simp
  then show "k_rb_prev ex_kernel p t = (if xs = [] then None else Some (last xs))"
    by (cases xs rule: rev_cases) (simp_all add: ex_kernel_def)
qed (simp_all add: ex_kernel_def)

lemma ex_kernel_io: "io_ok ex_kernel" and ex_kernel_quota: "quota_ok ex_kernel"
  by (simp_all add: io_ok_def quota_ok_def same_but_blocks_def ex_kernel_def)

lemma ex_sb_fields [simp]:
  "sbi ex_sb = ex_sbi" "es ex_sb = ex_es" "gdesc ex_sb 0 = ex_desc" "s_groups_count ex_sbi = 1"
  "kr_group_first_block_no ex_sb 0 = 1" "s_blocks_per_group ex_sbi = 16" "s_itb_per_group ex_sbi = 1"
  by (simp_all add: ex_sb_def ex_sbi_def ex_es_def gdesc_def desc_block_def desc_offset_def
      kr_group_first_block_no_def u64_def)

lemma ex_sb_bitmap: "group_bitmap ex_sb 0 = replicate 5 True @ replicate 11 False"
  by (simp add: ex_desc_def) (simp add: ex_sb_def)

lemma one_group: "{0..<1 :: int} = {0}"
  by auto

lemma ex_sb_ok: "fs_ok ex_sb"
proof -
  have "desc_loaded ex_sb 0" by code_simp
  then have gd: "gd_ok ex_sb" by (simp add: gd_ok_def ex_sbi_def one_group)
  have "metadata_block ex_sb 0 (1 + int i) \<Longrightarrow> i < 5" for i
    by (auto simp: metadata_block_def ex_desc_def)
  moreover have "zero_bits (group_bitmap ex_sb 0) 16 = 11" by code_simp
  ultimately have "group_ok ex_sb 0"
    unfolding group_ok_def Let_def ex_sb_bitmap
    by (auto simp: group_geometry_def bitmap_buffer_def nth_append ex_desc_def ex_es_def)
  then show ?thesis using gd by (simp add: fs_ok_def ex_es_def ex_sbi_def one_group)
qed

lemma ex_sb_rsv: "rsv_inv ex_sb"
  by (simp add: rsv_inv_def windows_def rsv_sorted_def ex_sb_def)

end
