(* ===== verification/Kr_Balloc_Spec.thy ===== *)
theory Kr_Balloc_Spec
  imports Kr_Example
begin

text \<open>
  The properties of the block allocator, each with an instance on a concrete input.
\<close>

section \<open>Allocation and freeing\<close>

text \<open>
  C1. Allocation is correct. On a file system whose bitmaps and counts are in order, with no
  disk error and quota granted, \<^verbatim>\<open>kr_new_blocks\<close> returns. If it returns blocks, they are a
  run of at least one and at most \<open>count\<close> blocks that were all free (so neither in use nor
  metadata nor past the end), exactly these have become used, they can be freed again, and
  the free-block counter went down by their number. If it fails it has changed nothing, and
  unless the caller may not use the reserved blocks there was no free block at all. The
  bitmaps and counts are in order afterwards.
\<close>

theorem kr_new_blocks_correct:
  assumes "io_ok k" "fs_ok sb" "1 \<le> count" "count \<le> 268435456"
    and "k_dquot_alloc_block k ino count = (None, ino1)"
    and "i_block_alloc_info ino \<noteq> None \<Longrightarrow> rsv_goal_size (rsv_node sb (rsv_of ino)) \<noteq> 0 \<Longrightarrow>
      rsv_ready k sb (Some (rsv_of ino)) 536870912"
  shows "\<exists>res sb' ino'. kr_new_blocks k sb ino goal count = Some (res, sb', ino') \<and> fs_ok sb' \<and>
     (case res of
        Inr (b, n) \<Rightarrow> 1 \<le> n \<and> n \<le> count \<and> {b..<b + n} \<subseteq> free_set sb \<and>
          free_set sb' = free_set sb - {b..<b + n} \<and> freeable sb' b n \<and>
          s_freeblocks_counter (sbi sb') = s_freeblocks_counter (sbi sb) - n
      | Inl e \<Rightarrow> e = ENOSPC \<and> free_set sb' = free_set sb \<and> sbi sb' = sbi sb \<and>
          (kr_has_free_blocks k sb \<longrightarrow> free_set sb = {}))"
  using kr_new_blocks_ok [OF assms, of goal] by (fastforce split: sum.splits)

theorem kr_new_blocks_correct_witness:
  "\<exists>res sb' ino'. kr_new_blocks ex_kernel ex_sb (ex_inode\<lparr>i_block_alloc_info := Some \<lparr>last_alloc_logical_block = 0, last_alloc_physical_block = 0\<rparr>\<rparr>) 9 3 =
       Some (res, sb', ino') \<and> fs_ok sb'"
proof -
  let ?ino = "ex_inode\<lparr>i_block_alloc_info := Some \<lparr>last_alloc_logical_block = 0, last_alloc_physical_block = 0\<rparr>\<rparr>"
  have "rsv_ready ex_kernel ex_sb (Some (rsv_of ?ino)) 536870912"
    using ex_kernel_rb ex_sb_rsv
    by (simp add: rsv_ready_def goal_size_ok_def window_len_ok_def rsv_is_empty_def ex_sb_def)
  moreover obtain ino1 where "k_dquot_alloc_block ex_kernel ?ino 3 = (None, ino1)" by (simp add: ex_kernel_def)
  ultimately show ?thesis
    using kr_new_blocks_correct [of ex_kernel ex_sb 3 ?ino _ 9] ex_kernel_io ex_sb_ok by fastforce
qed

text \<open>
  C2. Freeing is correct. A range of used data blocks, which may span several groups, becomes
  free; nothing else changes its state, every group's free count follows its bitmap, and the
  free-block counter and the owner's quota go up and down by the number of blocks.
\<close>

theorem kr_free_blocks_correct:
  assumes "io_ok k" "fs_ok sb" "freeable sb block count" "count < 2147483648"
  shows "\<exists>sb'. kr_free_blocks k sb ino block count = Some (sb', k_dquot_free_block k ino count) \<and> fs_ok sb' \<and>
     free_set sb' = free_set sb \<union> {block..<block + count} \<and>
     s_freeblocks_counter (sbi sb') = s_freeblocks_counter (sbi sb) + count"
proof -
  obtain sb' where "kr_free_blocks k sb ino block count = Some (sb', k_dquot_free_block k ino count)" "fs_ok sb'"
      "free_set sb' = free_set sb \<union> {block..<block + count}"
      "sbi sb' = (sbi sb)\<lparr>s_freeblocks_counter := s_freeblocks_counter (sbi sb) + count\<rparr>"
    using kr_free_blocks_ok [OF assms, of ino] by blast
  then show ?thesis by simp
qed

theorem kr_free_blocks_correct_witness:
  "\<exists>sb'. kr_free_blocks ex_kernel ex_sb ex_inode 1 2 = Some (sb', k_dquot_free_block ex_kernel ex_inode 2) \<and>
     fs_ok sb' \<and> free_set sb' = free_set ex_sb \<union> {1..<3} \<and> s_freeblocks_counter (sbi sb') = 13"
proof -
  have "freeable ex_sb 1 2" by code_simp
  then show ?thesis
    using kr_free_blocks_correct [of ex_kernel ex_sb 1 2 ex_inode] ex_kernel_io ex_sb_ok by (simp add: ex_sbi_def)
qed

text \<open>
  C3. Blocks that are allocated and then freed, for whatever owner, leave the set of free blocks and
  the free-block counter as they were. The inode may use a reservation window: if it does, the
  windows are sorted and disjoint and its own is in order (\<open>window_ready\<close>). There are no disk
  errors and quota grants the request.
\<close>

theorem alloc_free_round_trip:
  assumes "io_ok k" "quota_ok k" "fs_ok sb" "window_ready k sb ino" "1 \<le> count" "count \<le> 268435456"
    and "kr_new_blocks k sb ino goal count = Some (Inr (b, n), sb', ino')"
  shows "\<exists>sb'' ino''. kr_free_blocks k sb' owner b n = Some (sb'', ino'') \<and> fs_ok sb'' \<and> free_set sb'' = free_set sb \<and>
     s_freeblocks_counter (sbi sb'') = s_freeblocks_counter (sbi sb)"
  using balloc.round_trip [of "(k, sb)" ino count goal b n "(k, sb')" ino' owner] assms
  by (auto simp: balloc_inv_def balloc_new_def balloc_free_def)

abbreviation ex_rsv_inode :: inode where
  "ex_rsv_inode \<equiv> ex_inode\<lparr>i_block_alloc_info := Some \<lparr>last_alloc_logical_block = 0, last_alloc_physical_block = 0\<rparr>\<rparr>"

lemma ex_windows_ready: "window_ready ex_kernel ex_sb ex_rsv_inode" "window_ready k sb ex_inode"
proof -
  show "window_ready ex_kernel ex_sb ex_rsv_inode"
    using ex_kernel_rb ex_sb_rsv
    by (simp add: window_ready_def rsv_ready_def goal_size_ok_def window_len_ok_def rsv_is_empty_def ex_sb_def)
  show "window_ready k sb ex_inode" by (simp add: window_ready_def ex_inode_def)
qed

lemma fst_Some_split: "map_option fst x = Some a \<Longrightarrow> x = Some (a, snd (the x))"
  by (cases x) auto

text \<open>The first allocation reserves a window, the second one has none.\<close>

definition ex_sb1 :: super_block where
  "ex_sb1 = fst (snd (the (kr_new_blocks ex_kernel ex_sb ex_rsv_inode 9 3)))"

lemma ex_new1: "\<exists>ino'. kr_new_blocks ex_kernel ex_sb ex_rsv_inode 9 3 = Some (Inr (9, 3), ex_sb1, ino')"
proof -
  have "map_option fst (kr_new_blocks ex_kernel ex_sb ex_rsv_inode 9 3) = Some (Inr (9, 3))" by code_simp
  from fst_Some_split [OF this] show ?thesis unfolding ex_sb1_def by (metis option.sel prod.collapse snd_conv)
qed

lemma ex_new2: "\<exists>sb' ino'. kr_new_blocks ex_kernel ex_sb1 ex_inode 12 2 = Some (Inr (12, 2), sb', ino')"
proof -
  have "map_option fst (kr_new_blocks ex_kernel ex_sb1 ex_inode 12 2) = Some (Inr (12, 2))" unfolding ex_sb1_def by code_simp
  from fst_Some_split [OF this] show ?thesis by (metis prod.collapse)
qed

theorem alloc_free_round_trip_witness:
  "\<exists>sb'' ino''. kr_free_blocks ex_kernel ex_sb1 ex_inode 9 3 = Some (sb'', ino'') \<and> fs_ok sb'' \<and> free_set sb'' = free_set ex_sb"
proof -
  obtain ino' where "kr_new_blocks ex_kernel ex_sb ex_rsv_inode 9 3 = Some (Inr (9, 3), ex_sb1, ino')" using ex_new1 by blast
  from alloc_free_round_trip [OF ex_kernel_io ex_kernel_quota ex_sb_ok ex_windows_ready(1) _ _ this, of ex_inode]
  show ?thesis by auto
qed

text \<open>
  C4. Two allocations, one after the other, for the same inode or for two, never share a block. Each
  inode may use a reservation window, which must be in order when its allocation starts
  (\<open>window_ready\<close>). There are no disk errors and quota grants the requests.
\<close>

theorem new_blocks_disjoint:
  assumes "io_ok k" "quota_ok k" "fs_ok sb" "1 \<le> c1" "c1 \<le> 268435456" "1 \<le> c2" "c2 \<le> 268435456"
    and "window_ready k sb ino1" "kr_new_blocks k sb ino1 goal1 c1 = Some (Inr (b1, n1), sb1, ino1')"
    and "window_ready k sb1 ino2" "kr_new_blocks k sb1 ino2 goal2 c2 = Some (Inr (b2, n2), sb2, ino2')"
  shows "{b1..<b1 + n1} \<inter> {b2..<b2 + n2} = {}"
  using balloc.allocations_disjoint [of "(k, sb)" ino1 c1 goal1 b1 n1 "(k, sb1)" ino1' ino2 c2 goal2 b2 n2 "(k, sb2)" ino2'] assms
  by (simp add: balloc_inv_def balloc_new_def)

theorem new_blocks_disjoint_witness: "{9..<9 + 3} \<inter> {12..<12 + 2 :: int} = {}"
proof -
  obtain ino1' where 1: "kr_new_blocks ex_kernel ex_sb ex_rsv_inode 9 3 = Some (Inr (9, 3), ex_sb1, ino1')" using ex_new1 by blast
  obtain sb2 ino2' where 2: "kr_new_blocks ex_kernel ex_sb1 ex_inode 12 2 = Some (Inr (12, 2), sb2, ino2')" using ex_new2 by blast
  show ?thesis
    using new_blocks_disjoint [OF ex_kernel_io ex_kernel_quota ex_sb_ok _ _ _ _ ex_windows_ready(1) 1 ex_windows_ready(2) 2] by simp
qed

text \<open>
  C5. A range that does not lie in the data zone, or whose end wraps around, is refused: no
  bitmap, no descriptor and no counter changes, and the error is recorded.
\<close>

theorem kr_free_blocks_outside:
  assumes "gd_ok sb" "\<not> test_opt sb KR_MOUNT_ERRORS_PANIC" "0 \<le> block" "block < 18446744073709551616" "0 \<le> count"
    and "count < 18446744073709551616"
    and "block < uint (es_first_data_block (es sb)) \<or> uint (es_blocks_count (es sb)) < block + count"
  shows "\<exists>sb'. kr_free_blocks k sb ino block count = Some (sb', ino) \<and> same_but_errors sb sb'"
proof -
  have "u64 (block + count) < block \<or> u64 (block + count) = block + count"
  proof (cases "block + count < 18446744073709551616")
    case False
    have "u64 (block + count) = u64 (block + count - 18446744073709551616)"
      using minus_mod_self2 [of "block + count" "2 ^ 64"] by (simp add: u64_def)
    then have "u64 (block + count) = block + count - 18446744073709551616"
      using False assms(4,6) u64_id [of "block + count - 18446744073709551616"] by linarith
    then show ?thesis using assms(6) by simp
  qed (use assms in \<open>simp add: u64_id\<close>)
  then have out: "block < uint (es_first_data_block (es sb)) \<or> u64 (block + count) < block \<or>
      uint (es_blocks_count (es sb)) < u64 (block + count)" using assms(7) by auto
  obtain sb' where "kr_error k sb = Some sb'" "same_but_errors sb sb'"
    using kr_error_total [OF assms(1,2)] by blast
  then show ?thesis unfolding kr_free_blocks_def if_P [OF out] by simp
qed

theorem kr_free_blocks_outside_witness:
  "\<exists>sb'. kr_free_blocks ex_kernel ex_sb ex_inode 16 5 = Some (sb', ex_inode) \<and> same_but_errors ex_sb sb'"
proof -
  have "gd_ok ex_sb" using ex_sb_ok by (simp add: fs_ok_def)
  moreover have "\<not> test_opt ex_sb KR_MOUNT_ERRORS_PANIC" by (simp add: test_opt_def ex_sbi_def)
  ultimately show ?thesis using kr_free_blocks_outside [of ex_sb 16 5 ex_kernel ex_inode] by (simp add: ex_es_def)
qed

text \<open>
  The system-zone check looks at the two ends of a range only: a range that starts before
  the inode table and ends after it passes, although it covers the table.
\<close>

theorem system_zone_gap:
  assumes "0 \<le> block" "block < uint (bg_inode_table d)" "1 \<le> s_itb_per_group (sbi sb)"
    and "uint (bg_inode_table d) + s_itb_per_group (sbi sb) < block + count" "block + count < 18446744073709551616"
    and "\<not> (block \<le> uint (bg_block_bitmap d) \<and> uint (bg_block_bitmap d) < block + count)"
      "\<not> (block \<le> uint (bg_inode_bitmap d) \<and> uint (bg_inode_bitmap d) < block + count)"
  shows "\<not> in_system_zone sb d block count \<and>
     {uint (bg_inode_table d)..<uint (bg_inode_table d) + s_itb_per_group (sbi sb)} \<subseteq> {block..<block + count}"
proof
  have u: "u64 (block + count - 1) = block + count - 1"
    "u64 (uint (bg_inode_table d) + s_itb_per_group (sbi sb) - 1) = uint (bg_inode_table d) + s_itb_per_group (sbi sb) - 1"
    using assms(1-5) by (simp_all add: u64_id)
  show "\<not> in_system_zone sb d block count" using assms u by (auto simp: in_system_zone_def in_range_def)
  show "{uint (bg_inode_table d)..<uint (bg_inode_table d) + s_itb_per_group (sbi sb)} \<subseteq> {block..<block + count}"
    using assms by auto
qed

theorem system_zone_gap_witness:
  "\<not> in_system_zone ex_sb (ex_desc\<lparr>bg_inode_table := 8\<rparr>) 7 3 \<and> {8..<8 + 1} \<subseteq> {7..<7 + 3 :: int}"
  using system_zone_gap [of 7 "ex_desc\<lparr>bg_inode_table := 8\<rparr>" ex_sb 3] by (simp add: ex_desc_def)

text \<open>
  \<^verbatim>\<open>kr_data_block_valid\<close> accepts a block just past the end of the file system, and a range
  that runs past the end.
\<close>

theorem kr_data_block_valid_past_end:
  assumes "uint (es_first_data_block (es sb)) < uint (es_blocks_count (es sb))"
    and "s_sb_block (sbi sb) < uint (es_blocks_count (es sb))" "0 \<le> count" "count < 4294967296"
  shows "kr_data_block_valid sb (uint (es_blocks_count (es sb))) count"
proof -
  have "0 \<le> uint (es_blocks_count (es sb))" "uint (es_blocks_count (es sb)) < 4294967296" by simp_all
  then have "u64 (uint (es_blocks_count (es sb)) + count) = uint (es_blocks_count (es sb)) + count"
    using assms(3,4) by (intro u64_id) linarith+
  then show ?thesis using assms by (simp add: kr_data_block_valid_def)
qed

theorem kr_data_block_valid_past_end_witness: "kr_data_block_valid ex_sb 17 4"
  using kr_data_block_valid_past_end [of ex_sb 4] by (simp add: ex_es_def ex_sbi_def)

section \<open>Bitmaps\<close>

text \<open>
  C6. The search for a usable block is sound and complete: it reads only the bitmap, a block
  it gives lies in the range and is free, and it gives none only if none is free there.
\<close>

theorem find_next_usable_block_correct:
  assumes "bitmap_buffer bm" "start \<le> maxblocks" "0 \<le> maxblocks" "maxblocks \<le> int (length bm)"
  shows "\<exists>r. find_next_usable_block start bm maxblocks = Some r \<and>
     (if r < 0 then r = - 1 \<and> (\<forall>i. max start 0 \<le> int i \<and> int i < maxblocks \<longrightarrow> bm ! i)
      else max start 0 \<le> r \<and> r < maxblocks \<and> \<not> bm ! nat r)"
  using find_next_usable_block_spec [OF assms] by (simp add: free_bit_found_def)

theorem find_next_usable_block_correct_witness:
  "\<exists>r. find_next_usable_block 3 (replicate 12 True @ replicate 4 False) 14 = Some r \<and> r < 14"
  using find_next_usable_block_correct [of "replicate 12 True @ replicate 4 False" 3 14]
  by (auto simp: bitmap_buffer_def split: if_splits)

text \<open>
  An attempt in one group, without a window, claims a run of bits from the goal on that
  were all clear, sets exactly these and counts them; if it gives none, the bitmap is as it was
  and has no clear bit from the goal on.
\<close>

theorem kr_try_to_allocate_correct:
  assumes "bitmap_buffer bm" "0 < KR_BLOCKS_PER_GROUP sb" "KR_BLOCKS_PER_GROUP sb \<le> int (length bm)"
    and "- 1 \<le> grp_goal" "grp_goal < KR_BLOCKS_PER_GROUP sb"
  shows "\<exists>r num bm'. kr_try_to_allocate sb g bm grp_goal count None = Some (r, num, bm') \<and>
     (if r < 0
      then r = - 1 \<and> num = 0 \<and> bm' = bm \<and>
        (\<forall>i. max grp_goal 0 \<le> int i \<and> int i < KR_BLOCKS_PER_GROUP sb \<longrightarrow> bm ! i)
      else max grp_goal 0 \<le> r \<and> r + num \<le> KR_BLOCKS_PER_GROUP sb \<and> 1 \<le> num \<and> num \<le> max 1 count \<and>
        (\<forall>i. nat r \<le> i \<and> i < nat (r + num) \<longrightarrow> \<not> bm ! i) \<and> bm' = mark_range True (nat r) (nat num) bm)"
proof -
  have B: "KR_BLOCKS_PER_GROUP sb < 2147483648" using assms(1,3) by (simp add: bitmap_buffer_def)
  obtain start where a: "allocation_range sb g grp_goal None = (start, KR_BLOCKS_PER_GROUP sb, grp_goal)"
      "start = max grp_goal 0"
    using allocation_range_no_window [OF assms(4,5) B] by blast
  have "0 \<le> start" "start \<le> KR_BLOCKS_PER_GROUP sb" "grp_goal < 0 \<or> grp_goal = start \<and> start < KR_BLOCKS_PER_GROUP sb"
    using a(2) assms(2,4,5) by auto
  then show ?thesis
    using try_to_allocate_in_range [OF assms(1,3) a(1), of count] a(2) by (simp add: alloc_post_def)
qed

theorem kr_try_to_allocate_correct_witness:
  "\<exists>r num bm'. kr_try_to_allocate ex_sb 0 (replicate 5 True @ replicate 11 False) 4 3 None = Some (r, num, bm') \<and>
     r + num \<le> 16"
  using kr_try_to_allocate_correct [of "replicate 5 True @ replicate 11 False" ex_sb 4 0 3]
  by (auto simp: bitmap_buffer_def split: if_splits)

section \<open>Reservation windows\<close>

text \<open>
  The search in the window tree gives the window that contains the goal or, if there is
  none, the last window before it.
\<close>

theorem search_reserve_window_correct:
  assumes "rb_ok k" "rsv_inv sb" "0 \<le> goal"
  shows "\<exists>p xs ys. search_reserve_window k sb goal = Some p \<and> windows sb = xs @ p # ys \<and>
     win_start sb p \<le> goal \<and> (\<forall>y \<in> set ys. goal < win_start sb y)"
  using search_reserve_window_spec [OF assms] by metis

theorem search_reserve_window_correct_witness:
  "\<exists>p xs ys. search_reserve_window ex_kernel ex_sb 9 = Some p \<and> windows ex_sb = xs @ p # ys \<and>
     win_start ex_sb p \<le> 9 \<and> (\<forall>y \<in> set ys. 9 < win_start ex_sb y)"
  using search_reserve_window_correct [OF ex_kernel_rb ex_sb_rsv, of 9] by simp

text \<open>
  C7. Reserving a window always ends, and never with a \<^verbatim>\<open>BUG()\<close>: the windows stay sorted and
  disjoint, no other file's window changes, and on success the new window starts in the
  group, at or after the goal, and contains a block that is free in the bitmap.
\<close>

theorem alloc_new_reservation_correct:
  assumes "rb_ok k" "rsv_inv sb" "p \<noteq> RsvHead" "group_geometry sb g bm"
    and "goal_size_ok (rsv_goal_size (rsv_node sb p))" "- 1 \<le> grp_goal" "grp_goal < KR_BLOCKS_PER_GROUP sb"
  shows "\<exists>ok sb'. alloc_new_reservation k sb p grp_goal g bm = Some (ok, sb') \<and> rsv_inv sb' \<and>
     (\<forall>q. q \<noteq> p \<longrightarrow> rsv_node sb' q = rsv_node sb q) \<and> b_data sb' = b_data sb \<and>
     (let F = kr_group_first_block_no sb g; B = KR_BLOCKS_PER_GROUP sb in
      ok \<longrightarrow> F + max grp_goal 0 \<le> win_start sb' p \<and> win_start sb' p < F + B \<and>
        (\<exists>i. win_start sb' p \<le> F + int i \<and> F + int i \<le> win_end sb' p \<and> int i < B \<and> \<not> bm ! i))"
proof -
  let ?F = "kr_group_first_block_no sb g"
  obtain ok sb' s where a: "alloc_new_reservation k sb p grp_goal g bm = Some (ok, sb')"
      "reserved_post (set_goal_size p s sb) sb' p ?F (KR_BLOCKS_PER_GROUP sb) bm
         (if grp_goal < 0 then ?F else ?F + grp_goal) ok"
    using alloc_new_reservation_spec [OF assms] by blast
  have "(if grp_goal < 0 then ?F else ?F + grp_goal) = ?F + max grp_goal 0" by simp
  then show ?thesis
    using a same_but_rsvD(6) [of "set_goal_size p s sb" sb'] by (auto simp: reserved_post_def Let_def)
qed

theorem alloc_new_reservation_correct_witness:
  "\<exists>ok sb'. alloc_new_reservation ex_kernel ex_sb (RsvOf 2) 3 0 (group_bitmap ex_sb 0) = Some (ok, sb') \<and> rsv_inv sb'"
proof -
  have "goal_size_ok (rsv_goal_size (rsv_node ex_sb (RsvOf 2)))" by (simp add: goal_size_ok_def ex_sb_def)
  moreover have "group_geometry ex_sb 0 (group_bitmap ex_sb 0)" using group_okD(1) [OF ex_sb_ok, of 0] by simp
  ultimately show ?thesis
    using alloc_new_reservation_correct [OF ex_kernel_rb ex_sb_rsv, of "RsvOf 2" 0 "group_bitmap ex_sb 0" 3] by auto
qed

text \<open>
  Extending a window keeps the windows disjoint: it grows by what was asked for or up to
  the block before the next window, and never shrinks.
\<close>

theorem try_to_extend_reservation_correct:
  assumes "rb_ok k" "rsv_inv sb" "p \<noteq> RsvHead" "\<not> rsv_is_empty sb p" "0 \<le> siz"
    and "win_end sb p + siz < 1099511627776"
  shows "rsv_inv (try_to_extend_reservation k sb p siz) \<and>
     win_start (try_to_extend_reservation k sb p siz) p = win_start sb p \<and>
     win_end sb p \<le> win_end (try_to_extend_reservation k sb p siz) p \<and>
     win_end (try_to_extend_reservation k sb p siz) p \<le> win_end sb p + siz"
  using try_to_extend_reservation_inv [OF assms] by auto

definition ex_sb_win :: super_block where
  "ex_sb_win = ex_sb\<lparr>s_rsv_window_root := Node Leaf RsvHead (Node Leaf (RsvOf 2) Leaf),
     rsv_node := (rsv_node ex_sb)(RsvOf 2 :=
       \<lparr>rsv_goal_size = 8, rsv_alloc_hit = 1, rsv_start = 6, rsv_end = 8\<rparr>)\<rparr>"

lemma ex_sb_win_inv: "rsv_inv ex_sb_win"
  by (simp add: rsv_inv_def windows_def rsv_sorted_def ex_sb_win_def ex_sb_def)

theorem try_to_extend_reservation_correct_witness:
  "rsv_inv (try_to_extend_reservation ex_kernel ex_sb_win (RsvOf 2) 4) \<and>
   win_end (try_to_extend_reservation ex_kernel ex_sb_win (RsvOf 2) 4) (RsvOf 2) \<le> 12"
proof -
  have "\<not> rsv_is_empty ex_sb_win (RsvOf 2)" "win_end ex_sb_win (RsvOf 2) = 8"
    by (simp_all add: rsv_is_empty_def ex_sb_win_def)
  then show ?thesis
    using try_to_extend_reservation_correct [OF ex_kernel_rb ex_sb_win_inv, of "RsvOf 2" 4] by simp
qed

section \<open>Super block backups\<close>

text \<open>
  With the sparse-super feature the groups that hold a backup of the super block are
  groups 0 and 1 and the powers of 3, 5 and 7; the test ends for every group number for which
  \<^verbatim>\<open>int\<close> does not overflow.
\<close>

theorem kr_bg_has_super_correct:
  assumes "KR_HAS_RO_COMPAT_FEATURE sb KR_FEATURE_RO_COMPAT_SPARSE_SUPER" "g \<le> 306783378"
  shows "kr_bg_has_super sb g =
     Some (if g \<le> 1 \<or> (\<exists>b \<in> {3, 5, 7}. \<exists>m \<ge> 1. g = b ^ m) then 1 else 0)"
  using assms by (simp add: kr_bg_has_super_def kr_group_sparse_def test_root_pow)

theorem kr_bg_has_super_correct_witness: "kr_bg_has_super ex_sb 49 = Some 1"
proof -
  have "(49 :: int) = 7 ^ 2" by simp
  then have "\<exists>m \<ge> 1. (49 :: int) = 7 ^ m" by (intro exI [of _ 2]) simp
  then show ?thesis
    using kr_bg_has_super_correct [of ex_sb 49] by (simp add: KR_HAS_RO_COMPAT_FEATURE_def ex_es_def)
qed

end
