(* ===== verification/Kr_Ialloc_Spec.thy ===== *)
theory Kr_Ialloc_Spec
  imports Kr_Example
begin

text \<open>
  The properties of the inode allocator and of the inode flags, each with an instance on a
  concrete input.
\<close>

section \<open>The example file system\<close>

lemma ex_sb_ialloc: "ialloc_ok ex_sb"
proof -
  have ig: "inode_bitmap ex_sb 0 = [True, True, False, False, False, False, False, False]"
    by (simp add: ex_desc_def) (simp add: ex_sb_def numeral_eq_Suc)
  have "int i + 1 < 2 \<Longrightarrow> [True, True, False, False, False, False, False, False] ! i" for i
    by simp
  moreover have "zero_bits [True, True, False, False, False, False, False, False] 8 = 6" by code_simp
  ultimately have "inode_group_ok ex_sb 0"
    unfolding inode_group_ok_def Let_def ig by (simp add: ex_sbi_def ex_es_def ex_desc_def)
  moreover have "gd_ok ex_sb" using ex_sb_ok by (simp add: fs_ok_def)
  ultimately show ?thesis
    using ex_sb_ok by (simp add: ialloc_ok_def few_groups_def one_group ex_sbi_def ex_es_def)
qed

lemma ex_kernel_calls: "inode_calls_ok ex_kernel"
  by (simp add: inode_calls_ok_def ex_kernel_def)

lemma ex_parent: "uint (i_block_group ex_inode) < s_groups_count (sbi ex_sb)"
  by (simp add: ex_inode_def)

section \<open>Allocation and freeing\<close>

text \<open>
  C8. Allocation of inodes is correct. On a file system whose bitmaps and counts are in
  order, with no disk error and the calls around it granted, \<^verbatim>\<open>kr_new_inode\<close> returns. It
  fails only with \<^verbatim>\<open>ENOSPC\<close>, when no inode is free, and then nothing has changed. Otherwise
  the new inode has a number that was free and not reserved, exactly that number has become
  used, no data block was touched, the counters follow, and the inode is empty with the
  flags it inherits.
\<close>

theorem kr_new_inode_correct:
  assumes "io_ok k" "inode_calls_ok k" "ialloc_ok sb" "uint (i_block_group dir) < s_groups_count (sbi sb)"
  shows "\<exists>res sb'. kr_new_inode k iput sb dir mode = Some (res, sb') \<and> ialloc_ok sb' \<and> free_set sb' = free_set sb \<and>
     (case res of
        Inl e \<Rightarrow> e = ENOSPC \<and> free_inodes sb = {} \<and> sb' = sb
      | Inr ino \<Rightarrow>
          i_ino ino \<in> free_inodes sb \<and> inode_in_use sb' (i_ino ino) \<and>
          free_inodes sb' = free_inodes sb - {i_ino ino} \<and>
          s_freeinodes_counter (sbi sb') = s_freeinodes_counter (sbi sb) - 1 \<and>
          s_dirs_counter (sbi sb') = s_dirs_counter (sbi sb) + (if S_ISDIR mode then 1 else 0) \<and>
          uint (i_block_group ino) = inode_group sb (i_ino ino) \<and>
          i_data ino = replicate KR_N_BLOCKS 0 \<and> i_blocks ino = 0 \<and> i_block_alloc_info ino = None \<and>
          i_flags ino = kr_mask_flags mode (i_flags dir AND KR_FL_INHERITED) \<and>
          i_generation ino = s_next_generation (sbi sb))"
  using kr_new_inode_ok [OF assms, of iput mode] unfolding new_inode_post_def .

theorem kr_new_inode_correct_witness:
  "\<exists>res sb'. kr_new_inode ex_kernel (\<lambda>sb i. Some sb) ex_sb ex_inode S_IFREG = Some (res, sb') \<and> ialloc_ok sb'"
  using kr_new_inode_correct [OF ex_kernel_io ex_kernel_calls ex_sb_ialloc ex_parent] by blast

text \<open>
  C9. Freeing an inode that is in use makes exactly its number free, keeps the bitmaps and
  counts in order and touches no data block; the counter of directories follows.
\<close>

theorem kr_free_inode_correct:
  assumes "io_ok k" "ialloc_ok sb" "inode_in_use sb (i_ino ino)"
  shows "\<exists>sb'. kr_free_inode k sb ino = Some sb' \<and> ialloc_ok sb' \<and> free_set sb' = free_set sb \<and>
     free_inodes sb' = insert (i_ino ino) (free_inodes sb) \<and>
     s_dirs_counter (sbi sb') = s_dirs_counter (sbi sb) - (if S_ISDIR (i_mode ino) then 1 else 0)"
  using kr_free_inode_ok [OF assms] by blast

lemma ex_inode_used: "inode_in_use ex_sb 2"
proof -
  have "b_data ex_sb (uint (bg_inode_bitmap (gdesc ex_sb (inode_group ex_sb 2)))) ! inode_index ex_sb 2"
    by code_simp
  then have "2 \<notin> free_inodes ex_sb" by (simp add: free_inodes_def)
  then show ?thesis by (simp add: inode_in_use_def ex_sbi_def ex_es_def)
qed

theorem kr_free_inode_correct_witness:
  "\<exists>sb'. kr_free_inode ex_kernel ex_sb ex_inode = Some sb' \<and> free_inodes sb' = insert 2 (free_inodes ex_sb)"
  using kr_free_inode_correct [OF ex_kernel_io ex_sb_ialloc, of ex_inode] ex_inode_used by (auto simp: ex_inode_def)

text \<open>C10. An inode that is allocated and freed again leaves the free inodes as they were.\<close>

theorem inode_round_trip:
  assumes "ialloc_inv s" "uint (i_block_group dir) < s_groups_count (sbi (snd s))"
    and "ialloc_new s (dir, mode) = Some (Inr ino, s')"
  shows "\<exists>s''. ialloc_release s' ino = Some s'' \<and> ialloc_inv s'' \<and> free_inodes (snd s'') = free_inodes (snd s)"
  using ialloc.new_release [OF assms(1) _ assms(3)] assms(2) by (cases s) (auto split: prod.splits)

definition ex_new :: "(errno + inode) \<times> kernel \<times> super_block" where
  "ex_new = the (ialloc_new (ex_kernel, ex_sb) (ex_inode, S_IFREG))"

lemma ex_new_eq: "ialloc_new (ex_kernel, ex_sb) (ex_inode, S_IFREG) = Some (Inr (projr (fst ex_new)), snd ex_new)"
proof -
  have "\<exists>ob s'. ialloc_new (ex_kernel, ex_sb) (ex_inode, S_IFREG) = Some (Inr ob, s')"
  proof (rule ialloc.new_succeeds)
    have "\<not> b_data ex_sb (uint (bg_inode_bitmap (gdesc ex_sb (inode_group ex_sb 3)))) ! inode_index ex_sb 3"
      by code_simp
    then show "(case (ex_kernel, ex_sb) of (k, sb) \<Rightarrow> free_inodes sb) \<noteq> {}"
      by (auto simp: free_inodes_def ex_es_def intro!: exI [of _ 3])
  qed (use ex_kernel_io ex_kernel_calls ex_sb_ialloc ex_parent in \<open>simp_all add: ialloc_inv_def\<close>)
  then show ?thesis by (auto simp: ex_new_def)
qed

lemma ex_ialloc_inv: "ialloc_inv (ex_kernel, ex_sb)"
  using ex_kernel_io ex_kernel_calls ex_sb_ialloc by (simp add: ialloc_inv_def)

theorem inode_round_trip_witness:
  "\<exists>s''. ialloc_release (snd ex_new) (projr (fst ex_new)) = Some s'' \<and> free_inodes (snd s'') = free_inodes ex_sb"
  using inode_round_trip [OF ex_ialloc_inv _ ex_new_eq] ex_parent by auto

text \<open>
  The counter of free inodes drifts: allocation lowers it and freeing does not raise it
  again, so that after an allocation and the matching release it is one too low, although
  the free inodes are the same.
\<close>

theorem freeinodes_counter_drift:
  assumes "io_ok k" "inode_calls_ok k" "ialloc_ok sb" "uint (i_block_group dir) < s_groups_count (sbi sb)"
    and "kr_new_inode k iput sb dir mode = Some (Inr ino, sb1)"
  shows "\<exists>sb2. kr_free_inode k sb1 ino = Some sb2 \<and> free_inodes sb2 = free_inodes sb \<and>
     s_freeinodes_counter (sbi sb2) = s_freeinodes_counter (sbi sb) - 1"
proof -
  have n: "ialloc_ok sb1" "i_ino ino \<in> free_inodes sb" "inode_in_use sb1 (i_ino ino)"
      "free_inodes sb1 = free_inodes sb - {i_ino ino}" "s_freeinodes_counter (sbi sb1) = s_freeinodes_counter (sbi sb) - 1"
    using kr_new_inode_ok [OF assms(1-4), of iput mode] assms(5) by (auto simp: new_inode_post_def)
  then show ?thesis using kr_free_inode_ok [OF assms(1) n(1,3)] by (auto simp: insert_absorb)
qed

theorem freeinodes_counter_drift_witness:
  "\<exists>sb2. kr_free_inode ex_kernel (snd (snd ex_new)) (projr (fst ex_new)) = Some sb2 \<and>
     s_freeinodes_counter (sbi sb2) = 5"
proof -
  have "kr_new_inode ex_kernel (\<lambda>sb i. Some sb) ex_sb ex_inode S_IFREG =
      Some (Inr (projr (fst ex_new)), snd (snd ex_new))"
    using ex_new_eq by (auto simp: ialloc_new_def) (metis snd_conv)
  from freeinodes_counter_drift [OF ex_kernel_io ex_kernel_calls ex_sb_ialloc ex_parent this]
  show ?thesis by (auto simp: ex_sbi_def)
qed

section \<open>The choice of a group\<close>

text \<open>
  The old policy for directories: it gives \<open>- 1\<close> exactly when no group has a free inode;
  otherwise a group with at least the average number of free inodes, and among those one
  with the most free blocks.
\<close>

theorem find_group_dir_correct:
  assumes "few_groups sb"
  shows "\<exists>g. find_group_dir k sb = Some (g, sb) \<and>
     (if g = - 1 then \<forall>h \<in> {0..<s_groups_count (sbi sb)}. bg_free_inodes_count (gdesc sb h) = 0
      else 0 \<le> g \<and> g < s_groups_count (sbi sb) \<and> bg_free_inodes_count (gdesc sb g) \<noteq> 0 \<and>
        (let free = (\<lambda>h. uint (bg_free_inodes_count (gdesc sb h))); n = s_groups_count (sbi sb);
             ave = (\<Sum>h = 0..<n. free h) div n
         in ave \<le> free g \<and>
            (\<forall>h \<in> {0..<n}. has_inode sb h \<and> ave \<le> free h \<longrightarrow>
               uint (bg_free_blocks_count (gdesc sb h)) \<le> uint (bg_free_blocks_count (gdesc sb g)))))"
  using find_group_dir_found [OF assms, of k] unfolding group_found_def has_inode_def by auto

theorem find_group_dir_correct_witness:
  "\<exists>g. find_group_dir ex_kernel ex_sb = Some (g, ex_sb) \<and> g < 1"
  using find_group_dir_correct [OF ialloc_okD(2) [OF ex_sb_ialloc], of ex_kernel] by (auto split: if_splits)

text \<open>
  C11. Orlov's policy always ends with a group that has a free inode if there is one,
  whatever the approximate counters and the random number say.
\<close>

theorem find_group_orlov_correct:
  assumes "few_groups sb" "uint (i_block_group parent) < s_groups_count (sbi sb)"
    and "int (length (s_debts (sbi sb))) = s_groups_count (sbi sb)"
  shows "\<exists>g. find_group_orlov k sb parent = Some (g, sb) \<and>
     (if g = - 1 then \<forall>h \<in> {0..<s_groups_count (sbi sb)}. bg_free_inodes_count (gdesc sb h) = 0
      else 0 \<le> g \<and> g < s_groups_count (sbi sb) \<and> bg_free_inodes_count (gdesc sb g) \<noteq> 0)"
  using find_group_orlov_found [OF assms, of k] unfolding group_found_def has_inode_def by auto

theorem find_group_orlov_correct_witness:
  "\<exists>g. find_group_orlov ex_kernel ex_sb ex_inode = Some (g, ex_sb) \<and> g < 1"
  using find_group_orlov_correct [OF ialloc_okD(2) [OF ex_sb_ialloc] ex_parent, of ex_kernel]
    ialloc_okD(6) [OF ex_sb_ialloc] by (auto split: if_splits)

text \<open>
  The policy for files: the search ends, and gives a group with a free inode if there is
  one. The parent's group is taken if it has a free inode and a free block.
\<close>

theorem find_group_other_correct:
  assumes "few_groups sb" "uint (i_block_group parent) < s_groups_count (sbi sb)"
  shows "\<exists>g. find_group_other k sb parent = Some (g, sb) \<and>
     (if g = - 1 then \<forall>h \<in> {0..<s_groups_count (sbi sb)}. bg_free_inodes_count (gdesc sb h) = 0
      else 0 \<le> g \<and> g < s_groups_count (sbi sb) \<and> bg_free_inodes_count (gdesc sb g) \<noteq> 0) \<and>
     (let p = uint (i_block_group parent) in
      bg_free_inodes_count (gdesc sb p) \<noteq> 0 \<and> bg_free_blocks_count (gdesc sb p) \<noteq> 0 \<longrightarrow> g = p)"
proof -
  note G = few_groupsD [OF assms(1)]
  let ?p = "uint (i_block_group parent)"
  have "s32 ?p = ?p" using assms(2) G(4) by (intro s32_id) (auto intro: order_trans [OF _ uint_ge_0])
  then have "find_group_other k sb parent = Some (?p, sb)"
    if "bg_free_inodes_count (gdesc sb ?p) \<noteq> 0 \<and> bg_free_blocks_count (gdesc sb ?p) \<noteq> 0"
    using that G(1) assms(2) by (simp add: find_group_other_def Let_def)
  then show ?thesis
    using find_group_other_found [OF assms, of k] unfolding group_found_def has_inode_def Let_def by fastforce
qed

theorem find_group_other_correct_witness:
  "\<exists>g. find_group_other ex_kernel ex_sb ex_inode = Some (g, ex_sb) \<and> g < 1"
  using find_group_other_correct [OF ialloc_okD(2) [OF ex_sb_ialloc] ex_parent, of ex_kernel] by (auto split: if_splits)

end
