(* ===== verification/Kr_Super.thy ===== *)
theory Kr_Super
  imports Kr_New_Blocks Kr_New_Inode
begin

text \<open>
  The state of the mounted file system (\<^verbatim>\<open>super.c\<close>): the valid and the error flag of the super
  block through mount, sync, freeze and unmount, the checks of the group descriptors, the
  largest file and \<^verbatim>\<open>statfs\<close>. Quota calls that do not touch the super block are left out,
  and a message is a value only where the code decides which one to print.
\<close>

section \<open>Model: the flags of the super block\<close>

definition kr_update_dynamic_rev :: "super_block \<Rightarrow> super_block" where
  "kr_update_dynamic_rev sb =
     (if KR_GOOD_OLD_REV < uint (es_rev_level (es sb)) then sb
      else sb\<lparr>es := (es sb)\<lparr>es_first_ino := word_of_int KR_GOOD_OLD_FIRST_INO,
                            es_inode_size := word_of_int KR_GOOD_OLD_INODE_SIZE,
                            es_rev_level := word_of_int KR_DYNAMIC_REV\<rparr>\<rparr>)"

definition set_es_state :: "16 word \<Rightarrow> super_block \<Rightarrow> super_block" where
  "set_es_state st sb = sb\<lparr>es := (es sb)\<lparr>es_state := st\<rparr>\<rparr>"

text \<open>Unmounting frees everything in memory: what is left is the super block on the disk.\<close>

definition kr_put_super :: "kernel \<Rightarrow> super_block \<Rightarrow> kr_super_block option" where
  "kr_put_super k sb =
     (if sb_rdonly sb then Some (es sb)
      else do { sb1 \<leftarrow> kr_sync_super k (set_es_state (s_mount_state (sbi sb)) sb); Some (es sb1) })"

definition kr_sync_fs :: "kernel \<Rightarrow> super_block \<Rightarrow> super_block option" where
  "kr_sync_fs k sb =
     kr_sync_super k
       (if es_state (es sb) AND KR_VALID_FS \<noteq> 0
        then set_es_state (es_state (es sb) AND NOT KR_VALID_FS) sb else sb)"

text \<open>\<open>remove_count\<close> is the VFS's count of unlinked files that are still open.\<close>

definition kr_freeze :: "kernel \<Rightarrow> int \<Rightarrow> super_block \<Rightarrow> super_block option" where
  "kr_freeze k remove_count sb =
     (if remove_count \<noteq> 0 then kr_sync_fs k sb
      else kr_sync_super k (set_es_state (s_mount_state (sbi sb)) sb))"

definition kr_write_super :: "kernel \<Rightarrow> super_block \<Rightarrow> super_block option" where
  "kr_write_super k sb = (if sb_rdonly sb then Some sb else kr_sync_fs k sb)"

definition kr_unfreeze :: "kernel \<Rightarrow> super_block \<Rightarrow> super_block option" where
  "kr_unfreeze k sb = kr_write_super k sb"

section \<open>Model: mounting\<close>

abbreviation (input) KR_DFL_MAX_MNT_COUNT :: "16 word" where "KR_DFL_MAX_MNT_COUNT \<equiv> 20"

datatype setup_msg =
  RevisionTooHigh | UncheckedFs | FsWithErrors | MountCountReached | CheckTimeReached | DebugInfo

definition setup_warning :: "kernel \<Rightarrow> kr_sb_info \<Rightarrow> kr_super_block \<Rightarrow> setup_msg list" where
  "setup_warning k si e =
     (if s_mount_state si AND KR_VALID_FS = 0 then [UncheckedFs]
      else if s_mount_state si AND KR_ERROR_FS \<noteq> 0 then [FsWithErrors]
      else if 0 \<le> sint (es_max_mnt_count e) \<and> uint (es_max_mnt_count e) \<le> uint (es_mnt_count e)
      then [MountCountReached]
      else if es_checkinterval e \<noteq> 0 \<and>
              u32 (uint (es_lastcheck e) + uint (es_checkinterval e)) \<le> u64 (k_now k)
      then [CheckTimeReached]
      else [])"

text \<open>The result says whether the mount must be read-only (\<^verbatim>\<open>res\<close> is \<^verbatim>\<open>MS_RDONLY\<close>).\<close>

definition kr_setup_super :: "kernel \<Rightarrow> super_block \<Rightarrow> bool \<Rightarrow> bool \<times> setup_msg list \<times> super_block" where
  "kr_setup_super k sb read_only =
     (let res = KR_MAX_SUPP_REV < uint (es_rev_level (es sb));
          msg0 = (if res then [RevisionTooHigh] else []) in
      if read_only then (res, msg0, sb)
      else
        let msg1 = msg0 @ setup_warning k (sbi sb) (es sb);
            e1 = (if es_max_mnt_count (es sb) = 0
                  then (es sb)\<lparr>es_max_mnt_count := KR_DFL_MAX_MNT_COUNT\<rparr> else es sb);
            e2 = e1\<lparr>es_mnt_count := es_mnt_count e1 + 1\<rparr>;
            msg2 = msg1 @ (if test_opt sb KR_MOUNT_DEBUG then [DebugInfo] else [])
        in (res, msg2, sb\<lparr>es := e2\<rparr>))"

text \<open>
  The loop of \<^verbatim>\<open>kr_check_descriptors\<close>, with \<open>n\<close> groups left from group \<open>i\<close>. A descriptor that is
  not there is a null pointer, which the code follows.
\<close>

definition descriptor_range :: "super_block \<Rightarrow> int \<Rightarrow> int \<times> int" where
  "descriptor_range sb i =
     (let first_block = kr_group_first_block_no sb i in
      (first_block,
       if i = u64 (s_groups_count (sbi sb) - 1) then u32 (uint (es_blocks_count (es sb)) - 1)
       else u64 (first_block + u64 (KR_BLOCKS_PER_GROUP sb - 1))))"

definition descriptor_in_group :: "super_block \<Rightarrow> int \<Rightarrow> kr_group_desc \<Rightarrow> bool" where
  "descriptor_in_group sb i gdp =
     (case descriptor_range sb i of (first_block, last_block) \<Rightarrow>
        \<not> (uint (bg_block_bitmap gdp) < first_block \<or> last_block < uint (bg_block_bitmap gdp)) \<and>
        \<not> (uint (bg_inode_bitmap gdp) < first_block \<or> last_block < uint (bg_inode_bitmap gdp)) \<and>
        \<not> (uint (bg_inode_table gdp) < first_block \<or>
           last_block < u64 (uint (bg_inode_table gdp) + s_itb_per_group (sbi sb) - 1)))"

fun check_descriptors_loop :: "kernel \<Rightarrow> nat \<Rightarrow> int \<Rightarrow> super_block \<Rightarrow> (bool \<times> super_block) option" where
  "check_descriptors_loop k 0 i sb = Some (True, sb)"
| "check_descriptors_loop k (Suc n) i sb =
     do { (desc, sb1) \<leftarrow> kr_get_group_desc k sb i;
          gdp \<leftarrow> desc;
          if descriptor_in_group sb1 i gdp then check_descriptors_loop k n (i + 1) sb1
          else do { sb2 \<leftarrow> kr_error k sb1; Some (False, sb2) } }"

definition kr_check_descriptors :: "kernel \<Rightarrow> super_block \<Rightarrow> (bool \<times> super_block) option" where
  "kr_check_descriptors k sb = check_descriptors_loop k (nat (s_groups_count (sbi sb))) 0 sb"

abbreviation (input) MAX_LFS_FILESIZE :: int where "MAX_LFS_FILESIZE \<equiv> 0x7fffffffffffffff"

definition kr_max_size :: "nat \<Rightarrow> int" where
  "kr_max_size bits =
     (let upper_limit = drop_bit (bits - 9) (2 ^ 32 - 1);
          meta_blocks = s32 (1 + (1 + 2 ^ (bits - 2)) + (1 + 2 ^ (bits - 2) + 2 ^ (2 * (bits - 2))));
          upper_limit = push_bit bits (upper_limit - meta_blocks);
          res = push_bit bits (KR_NDIR_BLOCKS + 2 ^ (bits - 2) + 2 ^ (2 * (bits - 2)) + 2 ^ (3 * (bits - 2)));
          res = (if upper_limit < res then upper_limit else res)
      in if MAX_LFS_FILESIZE < res then MAX_LFS_FILESIZE else res)"

definition descriptor_loc :: "super_block \<Rightarrow> int \<Rightarrow> int \<Rightarrow> int option" where
  "descriptor_loc sb logic_sb_block nr =
     (if \<not> KR_HAS_INCOMPAT_FEATURE sb KR_FEATURE_INCOMPAT_META_BG \<or> nr < uint (es_first_meta_bg (es sb))
      then Some (u64 (logic_sb_block + nr + 1))
      else
        let bg = u64 (s_desc_per_block (sbi sb) * nr) in
        do { s \<leftarrow> kr_bg_has_super sb (s32 bg);
             Some (u64 (kr_group_first_block_no sb bg + (if s \<noteq> 0 then 1 else 0))) })"

section \<open>Model: statfs\<close>

record kstatfs =
  f_type :: int
  f_bsize :: int
  f_blocks :: int
  f_bfree :: int
  f_bavail :: int
  f_files :: int
  f_ffree :: int
  f_namelen :: int
  f_fsid :: "int \<times> int"

abbreviation (input) EXT2_SUPER_MAGIC :: int where "EXT2_SUPER_MAGIC \<equiv> 0xEF53"
abbreviation (input) EXT2_NAME_LEN :: int where "EXT2_NAME_LEN \<equiv> 255"

text \<open>The loop that adds up the super block copies and descriptor blocks of \<open>n\<close> groups from \<open>i\<close>.\<close>

fun super_overhead :: "super_block \<Rightarrow> nat \<Rightarrow> int \<Rightarrow> int \<Rightarrow> int option" where
  "super_overhead sb 0 i overhead = Some overhead"
| "super_overhead sb (Suc n) i overhead =
     do { s \<leftarrow> kr_bg_has_super sb (s32 i);
          g \<leftarrow> kr_bg_num_gdb sb (s32 i);
          super_overhead sb n (i + 1) (u64 (overhead + u64 (s + g))) }"

definition statfs_overhead :: "super_block \<Rightarrow> super_block option" where
  "statfs_overhead sb =
     (if test_opt sb KR_MOUNT_MINIX_DF then Some (sb\<lparr>sbi := (sbi sb)\<lparr>s_overhead_last := 0\<rparr>\<rparr>)
      else if s_blocks_last (sbi sb) \<noteq> uint (es_blocks_count (es sb)) then do {
        overhead \<leftarrow> super_overhead sb (nat (s_groups_count (sbi sb))) 0 (uint (es_first_data_block (es sb)));
        Some (sb\<lparr>sbi := (sbi sb)\<lparr>
          s_overhead_last := u64 (overhead + s_groups_count (sbi sb) * (2 + s_itb_per_group (sbi sb))),
          s_blocks_last := uint (es_blocks_count (es sb))\<rparr>\<rparr>) }
      else Some sb)"

text \<open>\<^verbatim>\<open>le64_to_cpup\<close>: the number stored in eight bytes.\<close>

definition le64 :: "8 word list \<Rightarrow> 64 word" where
  "le64 bs = word_of_int (horner_sum uint 256 bs)"

definition kr_statfs :: "super_block \<Rightarrow> (kstatfs \<times> super_block) option" where
  "kr_statfs sb0 =
     do { sb \<leftarrow> statfs_overhead sb0;
          (bfree, sb1) \<leftarrow> kr_count_free_blocks kr_error_locked sb;
          let sb2 = sb1\<lparr>es := (es sb1)\<lparr>es_free_blocks_count := word_of_int bfree\<rparr>\<rparr>;
          (ffree, sb3) \<leftarrow> kr_count_free_inodes kr_error_locked sb2;
          let sb4 = sb3\<lparr>es := (es sb3)\<lparr>es_free_inodes_count := word_of_int ffree\<rparr>\<rparr>;
          let r_blocks = uint (es_r_blocks_count (es sb));
          let fsid = le64 (take 8 (es_uuid (es sb))) XOR le64 (take 8 (drop 8 (es_uuid (es sb))));
          Some (\<lparr>f_type = EXT2_SUPER_MAGIC, f_bsize = s_blocksize sb,
                 f_blocks = u64 (uint (es_blocks_count (es sb)) - s_overhead_last (sbi sb)),
                 f_bfree = bfree,
                 f_bavail = (if bfree < r_blocks then 0 else u64 (bfree - r_blocks)),
                 f_files = uint (es_inodes_count (es sb)),
                 f_ffree = ffree, f_namelen = EXT2_NAME_LEN,
                 f_fsid = (uint (fsid AND 0xFFFFFFFF), uint (drop_bit 32 fsid AND 0xFFFFFFFF))\<rparr>, sb4) }"

section \<open>Writing the super block\<close>

lemma kr_error_locked_writable [simp]: "\<not> sb_rdonly sb \<Longrightarrow> kr_error_locked sb = None"
  by (simp add: kr_error_locked_def)

lemma kr_error_tail_frame:
  "kr_error_tail sb = Some sb' \<Longrightarrow> sbi sb' = sbi sb \<and> es sb' = es sb"
  by (auto simp: kr_error_tail_def split: if_splits)

lemma kr_error_locked_frame:
  "kr_error_locked sb = Some sb' \<Longrightarrow> sbi sb' = sbi sb \<and> es sb' = es sb \<and> (\<not> sb_rdonly sb \<longrightarrow> sb' = sb)"
  by (auto simp: kr_error_locked_def dest: kr_error_tail_frame split: if_splits)

lemma get_desc_locked_frame:
  assumes "kr_get_group_desc_with kr_error_locked sb g = Some (d, sb')"
  shows "sbi sb' = sbi sb \<and> es sb' = es sb \<and> (\<not> sb_rdonly sb \<longrightarrow> sb' = sb)"
  using assms by (auto simp: kr_get_group_desc_with_def Let_def dest: kr_error_locked_frame
      split: if_splits option.splits bind_splits)

lemma count_locked_frame:
  assumes "count_groups kr_error_locked field n i sb acc = Some (r, sb')"
  shows "sbi sb' = sbi sb \<and> es sb' = es sb \<and> (\<not> sb_rdonly sb \<longrightarrow> sb' = sb)"
  using assms
proof (induction n arbitrary: i sb acc)
  case (Suc n)
  then obtain d sb1 where d: "kr_get_group_desc_with kr_error_locked sb i = Some (d, sb1)"
    and "count_groups kr_error_locked field n (i + 1) sb1
      (case d of None \<Rightarrow> acc | Some d \<Rightarrow> u64 (acc + uint (field d))) = Some (r, sb')"
    by (auto split: bind_splits)
  then have "sbi sb' = sbi sb1 \<and> es sb' = es sb1 \<and> (\<not> sb_rdonly sb1 \<longrightarrow> sb' = sb1)" using Suc.IH by blast
  then show ?case using get_desc_locked_frame [OF d] by auto
qed simp

lemma es_write [simp]:
  "sb_rdonly (sb\<lparr>es := e\<rparr>) = sb_rdonly sb" "sb_rdonly (sb\<lparr>sbi := si\<rparr>) = sb_rdonly sb"
  by (simp_all add: sb_rdonly_def)

text \<open>
  A write of the super block changes nothing in memory, and on the disk neither the state nor
  the options; on a writable file system it leaves the read-only flag clear.
\<close>

lemma kr_sync_super_frame:
  assumes "kr_sync_super k sb = Some sb'"
  shows "sbi sb' = sbi sb" "es_state (es sb') = es_state (es sb)"
    "\<not> sb_rdonly sb \<Longrightarrow> s_flags sb' = s_flags sb"
proof -
  obtain fb sb1 fi sb3 where 1: "kr_count_free_blocks kr_error_locked sb = Some (fb, sb1)"
    and 2: "kr_count_free_inodes kr_error_locked (sb1\<lparr>es := (es sb1)\<lparr>es_free_blocks_count := word_of_int fb\<rparr>\<rparr>)
      = Some (fi, sb3)"
    and 3: "sb' = sb3\<lparr>es := (es sb3)\<lparr>es_free_inodes_count := word_of_int fi, es_wtime := word_of_int (k_now k)\<rparr>\<rparr>"
    using assms by (auto simp: kr_sync_super_def Let_def split: bind_splits)
  note f = count_locked_frame [OF 1 [unfolded kr_count_free_blocks_def]]
    count_locked_frame [OF 2 [unfolded kr_count_free_inodes_def]]
  show "sbi sb' = sbi sb" "es_state (es sb') = es_state (es sb)" using f by (simp_all add: 3)
  show "s_flags sb' = s_flags sb" if "\<not> sb_rdonly sb" using f that by (simp add: 3)
qed

lemma set_es_state_simps [simp]:
  "sbi (set_es_state st sb) = sbi sb" "es_state (es (set_es_state st sb)) = st"
  "s_flags (set_es_state st sb) = s_flags sb" "sb_rdonly (set_es_state st sb) = sb_rdonly sb"
  by (simp_all add: set_es_state_def)

lemma kr_sync_fs_frame:
  assumes "kr_sync_fs k sb = Some sb'"
  shows "sbi sb' = sbi sb" "es_state (es sb') = es_state (es sb) AND NOT KR_VALID_FS"
    "\<not> sb_rdonly sb \<Longrightarrow> s_flags sb' = s_flags sb"
proof -
  let ?sb = "if es_state (es sb) AND KR_VALID_FS \<noteq> 0 then set_es_state (es_state (es sb) AND NOT KR_VALID_FS) sb else sb"
  have s: "kr_sync_super k ?sb = Some sb'" using assms unfolding kr_sync_fs_def .
  have "es_state (es sb) AND NOT KR_VALID_FS = es_state (es sb)" if "es_state (es sb) AND KR_VALID_FS = 0"
  proof (rule bit_eqI)
    fix n
    have "\<not> bit (es_state (es sb) AND 1) n" using that by simp
    then show "bit (es_state (es sb) AND NOT KR_VALID_FS) n = bit (es_state (es sb)) n"
      by (auto simp: bit_and_iff bit_not_iff bit_1_iff dest: bit_imp_le_length)
  qed
  then show "sbi sb' = sbi sb" "es_state (es sb') = es_state (es sb) AND NOT KR_VALID_FS"
    using kr_sync_super_frame(1,2) [OF s] by (auto split: if_splits)
  show "s_flags sb' = s_flags sb" if "\<not> sb_rdonly sb"
    using kr_sync_super_frame(3) [OF s] that by (auto split: if_splits)
qed

section \<open>The error flag\<close>

definition error_seen :: "super_block \<Rightarrow> bool" where
  "error_seen sb = (bit (s_mount_state (sbi sb)) 1 \<and> bit (es_state (es sb)) 1)"

lemma error_seenI: "sbi sb' = sbi sb \<Longrightarrow> es_state (es sb') = es_state (es sb) \<Longrightarrow> error_seen sb \<Longrightarrow> error_seen sb'"
  by (simp add: error_seen_def)

lemma bit_error_fs: "bit (w OR KR_ERROR_FS) 1" for w :: "16 word"
  by (simp add: bit_or_iff)

lemma kr_error_frame:
  assumes "kr_error k sb = Some sb'"
  shows "error_seen sb \<Longrightarrow> error_seen sb'" "\<not> sb_rdonly sb \<Longrightarrow> error_seen sb'"
proof -
  let ?sb = "sb\<lparr>sbi := (sbi sb)\<lparr>s_mount_state := s_mount_state (sbi sb) OR KR_ERROR_FS\<rparr>,
                 es := (es sb)\<lparr>es_state := es_state (es sb) OR KR_ERROR_FS\<rparr>\<rparr>"
  obtain sb1 where 1: "(if sb_rdonly sb then Some sb else kr_sync_super k ?sb) = Some sb1"
    and 2: "kr_error_tail sb1 = Some sb'"
    using assms by (auto simp: kr_error_def split: bind_splits)
  have e: "error_seen sb1 \<Longrightarrow> error_seen sb'" using kr_error_tail_frame [OF 2] by (simp add: error_seen_def)
  have w: "error_seen sb1" if "\<not> sb_rdonly sb"
  proof -
    have s: "kr_sync_super k ?sb = Some sb1" using 1 that by simp
    have "error_seen ?sb" by (simp add: error_seen_def bit_error_fs [simplified])
    then show ?thesis by (rule error_seenI [OF kr_sync_super_frame(1,2) [OF s]])
  qed
  show "error_seen sb'" if "\<not> sb_rdonly sb" using e w that by blast
  show "error_seen sb'" if "error_seen sb" using e w 1 that by (cases "sb_rdonly sb") auto
qed

lemma kr_sync_fs_error: "kr_sync_fs k sb = Some sb' \<Longrightarrow> error_seen sb \<Longrightarrow> error_seen sb'"
  using kr_sync_fs_frame(1,2) [of k sb sb']
  by (simp add: error_seen_def bit_and_iff bit_not_iff bit_1_iff)

lemma kr_write_super_error: "kr_write_super k sb = Some sb' \<Longrightarrow> error_seen sb \<Longrightarrow> error_seen sb'"
  by (auto simp: kr_write_super_def kr_sync_fs_error split: if_splits)

lemma kr_freeze_error: "kr_freeze k n sb = Some sb' \<Longrightarrow> error_seen sb \<Longrightarrow> error_seen sb'"
  using kr_sync_super_frame(1,2) [of k "set_es_state (s_mount_state (sbi sb)) sb" sb'] kr_sync_fs_error [of k sb sb']
  by (cases "n = 0") (simp_all add: kr_freeze_def error_seen_def)

lemma kr_statfs_frame:
  assumes "kr_statfs sb = Some (buf, sb')"
  shows "s_mount_state (sbi sb') = s_mount_state (sbi sb)" "es_state (es sb') = es_state (es sb)"
proof -
  obtain sb0 fb sb1 fi sb3 where 0: "statfs_overhead sb = Some sb0"
    and 1: "kr_count_free_blocks kr_error_locked sb0 = Some (fb, sb1)"
    and 2: "kr_count_free_inodes kr_error_locked (sb1\<lparr>es := (es sb1)\<lparr>es_free_blocks_count := word_of_int fb\<rparr>\<rparr>)
      = Some (fi, sb3)"
    and 3: "sb' = sb3\<lparr>es := (es sb3)\<lparr>es_free_inodes_count := word_of_int fi\<rparr>\<rparr>"
    using assms by (auto simp: kr_statfs_def Let_def split: bind_splits)
  have s: "s_mount_state (sbi sb0) = s_mount_state (sbi sb)" "es sb0 = es sb"
    using 0 by (auto simp: statfs_overhead_def split: if_splits bind_splits)
  note f = count_locked_frame [OF 1 [unfolded kr_count_free_blocks_def]]
    count_locked_frame [OF 2 [unfolded kr_count_free_inodes_def]]
  show "s_mount_state (sbi sb') = s_mount_state (sbi sb)" "es_state (es sb') = es_state (es sb)"
    using f s by (simp_all add: 3)
qed

section \<open>statfs\<close>

definition backup_group :: "super_block \<Rightarrow> int \<Rightarrow> bool" where
  "backup_group sb g =
     (\<not> KR_HAS_RO_COMPAT_FEATURE sb KR_FEATURE_RO_COMPAT_SPARSE_SUPER \<or> g \<le> 1 \<or>
      (\<exists>b \<in> {3, 5, 7}. \<exists>m \<ge> 1. g = b ^ m))"

lemma kr_bg_has_super_eq:
  "g \<le> 306783378 \<Longrightarrow> kr_bg_has_super sb g = Some (if backup_group sb g then 1 else 0)"
  by (cases "g \<le> 1") (auto simp: kr_bg_has_super_def kr_group_sparse_def test_root_pow backup_group_def)

definition group_super :: "super_block \<Rightarrow> int \<Rightarrow> int" where
  "group_super sb g = (if backup_group sb g then 1 + s_gdb_count (sbi sb) else 0)"

lemma super_overhead_eq:
  assumes "0 \<le> i" "i + int n \<le> 306783379" "0 \<le> acc" "0 \<le> s_gdb_count (sbi sb)" "s_gdb_count (sbi sb) < 4294967296"
    and "acc + int n * 4294967296 < 18446744073709551616"
  shows "super_overhead sb n i acc = Some (acc + (\<Sum>g = i..<i + int n. group_super sb g))"
  using assms
proof (induction n arbitrary: i acc)
  case 0
  then show ?case by simp
next
  case (Suc n)
  have i: "s32 i = i" using Suc.prems(1,2) by (intro s32_id) simp_all
  have g: "0 \<le> group_super sb i" "group_super sb i \<le> 4294967296"
    using Suc.prems(4,5) by (simp_all add: group_super_def)
  have b: "acc + 4294967296 + int n * 4294967296 < 18446744073709551616" using Suc.prems(6) by simp
  have s: "kr_bg_has_super sb i = Some (if backup_group sb i then 1 else 0)"
    using Suc.prems(2) by (intro kr_bg_has_super_eq) simp
  have "u64 (acc + group_super sb i) = acc + group_super sb i" "u64 (group_super sb i) = group_super sb i"
    using Suc.prems(3) b g by (intro u64_id; linarith)+
  moreover have "super_overhead sb n (i + 1) (acc + group_super sb i) =
      Some (acc + group_super sb i + (\<Sum>g = i + 1..<i + 1 + int n. group_super sb g))"
    using Suc.prems(1-5) b g by (intro Suc.IH) linarith+
  moreover have "{i..<i + int (Suc n)} = insert i {i + 1..<i + 1 + int n}" by auto
  ultimately show ?case
    using i s by (simp add: kr_bg_num_gdb_def group_super_def split: if_splits)
qed

text \<open>The sizes of the two sets of free objects are the sums of the counts of the groups.\<close>

lemma card_grouped:
  fixes B f G :: int
  assumes "0 < B" "\<And>g. 0 \<le> g \<Longrightarrow> g < G \<Longrightarrow> Z g \<subseteq> {..<nat B}"
  shows "card (\<Union>g \<in> {0..<G}. (\<lambda>i. f + g * B + int i) ` Z g) = (\<Sum>g = 0..<G. card (Z g))"
proof -
  have inj: "inj_on (\<lambda>i. f + g * B + int i) A" for g A by (auto simp: inj_on_def)
  have disj: "((\<lambda>i. f + g * B + int i) ` Z g) \<inter> ((\<lambda>i. f + h * B + int i) ` Z h) = {}"
    if "g \<in> {0..<G}" "h \<in> {0..<G}" "g \<noteq> h" for g h
  proof -
    have "g = h" if "i \<in> Z g" "j \<in> Z h" "f + g * B + int i = f + h * B + int j" for i j
    proof -
      have "i < nat B" "j < nat B" using assms(2) \<open>g \<in> _\<close> \<open>h \<in> _\<close> that(1,2) by auto
      then have "(g * B + int i) div B = g" "(h * B + int j) div B = h" using assms(1) by simp_all
      then show "g = h" using that(3) by simp
    qed
    then show ?thesis using that(3) by blast
  qed
  have "finite (Z g)" if "g \<in> {0..<G}" for g using assms(2) that finite_subset by fastforce
  then have "card (\<Union>g \<in> {0..<G}. (\<lambda>i. f + g * B + int i) ` Z g) =
      (\<Sum>g = 0..<G. card ((\<lambda>i. f + g * B + int i) ` Z g))"
    using disj by (intro card_UN_disjoint) auto
  then show ?thesis by (simp add: card_image [OF inj])
qed

lemma card_free_set:
  assumes "fs_ok sb"
  shows "int (card (free_set sb)) = (\<Sum>g = 0..<s_groups_count (sbi sb). uint (bg_free_blocks_count (gdesc sb g)))"
proof -
  let ?B = "KR_BLOCKS_PER_GROUP sb" and ?f = "uint (es_first_data_block (es sb))"
  define Z where "Z = (\<lambda>g. {i. i < nat ?B \<and> i < length (group_bitmap sb g) \<and> \<not> group_bitmap sb g ! i})"
  have B: "0 < ?B" using assms by (simp add: fs_ok_def)
  have "free_set sb = (\<Union>g \<in> {0..<s_groups_count (sbi sb)}. (\<lambda>i. ?f + g * ?B + int i) ` Z g)"
  proof (intro equalityI subsetI)
    fix b assume "b \<in> free_set sb"
    then have b: "?f \<le> b" "b < uint (es_blocks_count (es sb))" "\<not> block_used sb b" by (simp_all add: free_set_def)
    note r = group_of_range [OF assms b(1,2)]
    have len: "?B \<le> int (length (group_bitmap sb (group_of sb b)))"
      using group_geometryD(3) [OF group_okD(1) [OF assms r(1,2)]] .
    have "bit_of sb b \<in> Z (group_of sb b)" using r(3) len b(3) by (simp add: Z_def block_used_def)
    moreover have "b = ?f + group_of sb b * ?B + int (bit_of sb b)"
      using r(4) group_first_block [OF assms r(1)] r(2) by simp
    ultimately show "b \<in> (\<Union>g \<in> {0..<s_groups_count (sbi sb)}. (\<lambda>i. ?f + g * ?B + int i) ` Z g)"
      using r(1,2) by (intro UN_I [of "group_of sb b"]) auto
  next
    fix b assume "b \<in> (\<Union>g \<in> {0..<s_groups_count (sbi sb)}. (\<lambda>i. ?f + g * ?B + int i) ` Z g)"
    then obtain g i where g: "0 \<le> g" "g < s_groups_count (sbi sb)" and i: "i \<in> Z g" and b: "b = ?f + g * ?B + int i"
      by auto
    have F: "b = kr_group_first_block_no sb g + int i" using group_first_block [OF assms g(1)] g(2) b by simp
    have iB: "int i < ?B" "\<not> group_bitmap sb g ! i" using i by (auto simp: Z_def)
    then have "b < uint (es_blocks_count (es sb))" using group_okD(8) [OF assms g iB(1)] F not_le by blast
    moreover have "?f \<le> b" using b g B by simp
    ultimately show "b \<in> free_set sb"
      using iB group_of_eq [OF assms g iB(1)] F by (simp add: free_set_def block_used_def)
  qed
  moreover have "int (card (Z g)) = uint (bg_free_blocks_count (gdesc sb g))"
    if "g \<in> {0..<s_groups_count (sbi sb)}" for g
    using group_okD(9) [OF assms, of g] that by (simp add: Z_def zero_bits_card)
  ultimately show ?thesis
    using card_grouped [OF B, of "s_groups_count (sbi sb)" Z ?f] by (simp add: Z_def subset_iff)
qed

lemma card_free_inodes:
  assumes "ialloc_ok sb"
  shows "int (card (free_inodes sb)) = (\<Sum>g = 0..<s_groups_count (sbi sb). uint (bg_free_inodes_count (gdesc sb g)))"
proof -
  let ?I = "KR_INODES_PER_GROUP sb"
  define Z where "Z = (\<lambda>g. {i. i < nat ?I \<and> i < length (inode_bitmap sb g) \<and> \<not> inode_bitmap sb g ! i})"
  note I = ialloc_okD(3) [OF assms]
  have "free_inodes sb = (\<Union>g \<in> {0..<s_groups_count (sbi sb)}. (\<lambda>i. 1 + g * ?I + int i) ` Z g)"
  proof (intro equalityI subsetI)
    fix b assume "b \<in> free_inodes sb"
    then have b: "1 \<le> b" "b \<le> uint (es_inodes_count (es sb))" "\<not> inode_bitmap sb (inode_group sb b) ! inode_index sb b"
      by (simp_all add: free_inodes_def)
    note r = inode_group_range [OF assms b(1,2)] and n = inode_number(3,4) [OF assms, of b]
    have "inode_index sb b \<in> Z (inode_group sb b)"
      using n(2) inode_group_okD(1) [OF assms r] b(3) by (simp add: Z_def)
    moreover have "b = 1 + inode_group sb b * ?I + int (inode_index sb b)" using n(1) by linarith
    ultimately show "b \<in> (\<Union>g \<in> {0..<s_groups_count (sbi sb)}. (\<lambda>i. 1 + g * ?I + int i) ` Z g)"
      using r by (intro UN_I [of "inode_group sb b"]) auto
  next
    fix b assume "b \<in> (\<Union>g \<in> {0..<s_groups_count (sbi sb)}. (\<lambda>i. 1 + g * ?I + int i) ` Z g)"
    then obtain g i where g: "0 \<le> g" "g < s_groups_count (sbi sb)" and i: "i \<in> Z g" and b: "b = 1 + g * ?I + int i"
      by auto
    have "int i < ?I" "\<not> inode_bitmap sb g ! nat (int i)" using i by (auto simp: Z_def)
    then have "int i + (g * ?I + 1) \<in> free_inodes sb" by (intro free_inode_in_group(1) [OF assms g]) simp
    then show "b \<in> free_inodes sb" unfolding b by (simp add: ac_simps)
  qed
  moreover have "int (card (Z g)) = uint (bg_free_inodes_count (gdesc sb g))"
    if "g \<in> {0..<s_groups_count (sbi sb)}" for g
    using inode_group_okD(3) [OF assms, of g] that by (simp add: Z_def zero_bits_card)
  ultimately show ?thesis
    using card_grouped [OF I, of "s_groups_count (sbi sb)" Z 1] by (simp add: Z_def subset_iff)
qed

lemma statfs_overhead_eq:
  assumes "gd_ok sb" "s_groups_count (sbi sb) \<le> 306783379" "0 \<le> s_gdb_count (sbi sb)"
    "s_gdb_count (sbi sb) < 4294967296" "0 \<le> s_itb_per_group (sbi sb)" "s_itb_per_group (sbi sb) < 4294967296"
    and "\<not> test_opt sb KR_MOUNT_MINIX_DF" "s_blocks_last (sbi sb) \<noteq> uint (es_blocks_count (es sb))"
  shows "statfs_overhead sb = Some (sb\<lparr>sbi := (sbi sb)\<lparr>
      s_overhead_last := uint (es_first_data_block (es sb)) +
        (\<Sum>g = 0..<s_groups_count (sbi sb). group_super sb g + 2 + s_itb_per_group (sbi sb)),
      s_blocks_last := uint (es_blocks_count (es sb))\<rparr>\<rparr>)"
proof -
  let ?G = "s_groups_count (sbi sb)" and ?f = "uint (es_first_data_block (es sb))"
  have G: "0 < ?G" using assms(1) by (simp add: gd_ok_def)
  have f: "0 \<le> ?f" "?f < 4294967296" by simp_all
  have n: "int (nat ?G) * 4294967296 \<le> 306783379 * 4294967296" using G assms(2) by simp
  have o: "super_overhead sb (nat ?G) 0 ?f = Some (?f + (\<Sum>g = 0..<?G. group_super sb g))"
    using super_overhead_eq [of 0 "nat ?G" ?f sb] G assms(2-4) f n by simp
  have gs: "0 \<le> group_super sb g \<and> group_super sb g \<le> 4294967296" for g
    using assms(3,4) by (simp add: group_super_def)
  have sum: "0 \<le> (\<Sum>g = 0..<?G. group_super sb g)" "(\<Sum>g = 0..<?G. group_super sb g) \<le> ?G * 4294967296"
    using gs sum_bounded_above [of "{0..<?G}" "group_super sb" 4294967296] G by (auto intro: sum_nonneg)
  have it: "0 \<le> ?G * (2 + s_itb_per_group (sbi sb))" "?G * (2 + s_itb_per_group (sbi sb)) \<le> 306783379 * 4294967298"
    using G assms(5) mult_mono [of ?G 306783379 "2 + s_itb_per_group (sbi sb)" 4294967298] assms(2,6) by simp_all
  have "u64 (?f + (\<Sum>g = 0..<?G. group_super sb g) + ?G * (2 + s_itb_per_group (sbi sb))) =
      ?f + (\<Sum>g = 0..<?G. group_super sb g) + ?G * (2 + s_itb_per_group (sbi sb))"
    using f sum it assms(2) by (intro u64_id) linarith+
  moreover have "(\<Sum>g = 0..<?G. group_super sb g + 2 + s_itb_per_group (sbi sb)) =
      (\<Sum>g = 0..<?G. group_super sb g) + ?G * (2 + s_itb_per_group (sbi sb))"
    using G by (simp add: sum.distrib algebra_simps)
  ultimately show ?thesis using assms(7,8) o by (simp add: statfs_overhead_def add.assoc)
qed

text \<open>What \<^verbatim>\<open>statfs\<close> reports once the overhead is known.\<close>

definition free_totals :: "super_block \<Rightarrow> int \<times> int" where
  "free_totals sb =
     (\<Sum>g = 0..<s_groups_count (sbi sb). uint (bg_free_blocks_count (gdesc sb g)),
      \<Sum>g = 0..<s_groups_count (sbi sb). uint (bg_free_inodes_count (gdesc sb g)))"

definition statfs_of :: "super_block \<Rightarrow> kstatfs" where
  "statfs_of sb =
     (let r_blocks = uint (es_r_blocks_count (es sb));
          bfree = fst (free_totals sb);
          fsid = le64 (take 8 (es_uuid (es sb))) XOR le64 (take 8 (drop 8 (es_uuid (es sb))))
      in \<lparr>f_type = EXT2_SUPER_MAGIC, f_bsize = s_blocksize sb,
          f_blocks = u64 (uint (es_blocks_count (es sb)) - s_overhead_last (sbi sb)),
          f_bfree = bfree, f_bavail = (if bfree < r_blocks then 0 else u64 (bfree - r_blocks)),
          f_files = uint (es_inodes_count (es sb)), f_ffree = snd (free_totals sb), f_namelen = EXT2_NAME_LEN,
          f_fsid = (uint (fsid AND 0xFFFFFFFF), uint (drop_bit 32 fsid AND 0xFFFFFFFF))\<rparr>)"

definition store_totals :: "super_block \<Rightarrow> super_block" where
  "store_totals sb =
     sb\<lparr>es := (es sb)\<lparr>es_free_blocks_count := word_of_int (fst (free_totals sb)),
                      es_free_inodes_count := word_of_int (snd (free_totals sb))\<rparr>\<rparr>"

lemma gdesc_es [simp]: "gdesc (sb\<lparr>es := e\<rparr>) = gdesc sb" "gd_ok (sb\<lparr>es := e\<rparr>) = gd_ok sb"
  by (simp_all add: gdesc_def gd_ok_def desc_loaded_def desc_block_def desc_offset_def fun_eq_iff
      cong: option.case_cong)

lemma free_totals_es [simp]: "free_totals (sb\<lparr>es := e\<rparr>) = free_totals sb"
  by (simp add: free_totals_def)

lemma statfs_of_store [simp]: "statfs_of (store_totals sb) = statfs_of sb"
  by (simp add: statfs_of_def store_totals_def Let_def)

lemma store_totals_idem: "store_totals (store_totals sb) = store_totals sb"
  by (simp add: store_totals_def)

lemma kr_statfs_eq:
  assumes "statfs_overhead sb = Some sb1" "gd_ok sb1"
  shows "kr_statfs sb = Some (statfs_of sb1, store_totals sb1)"
  using assms
  by (simp add: kr_statfs_def kr_count_free_blocks_eq kr_count_free_inodes_eq statfs_of_def store_totals_def
      free_totals_def Let_def)

section \<open>The check of the descriptors\<close>

lemma descriptor_in_group_cong:
  assumes "same_but_errors sb sb'"
  shows "descriptor_in_group sb' = descriptor_in_group sb"
  using assms by (simp add: fun_eq_iff descriptor_in_group_def descriptor_range_def Let_def
      kr_group_first_block_no_def same_but_errorsD)

lemma check_descriptors_loop_eq:
  assumes "gd_ok sb" "\<not> test_opt sb KR_MOUNT_ERRORS_PANIC" "0 \<le> i" "i + int n \<le> s_groups_count (sbi sb)"
  shows "\<exists>sb'. check_descriptors_loop k n i sb =
     Some (\<forall>g \<in> {i..<i + int n}. descriptor_in_group sb g (gdesc sb g), sb') \<and> same_but_errors sb sb'"
  using assms(3,4)
proof (induction n arbitrary: i)
  case 0
  then show ?case by simp
next
  case (Suc n)
  have g: "kr_get_group_desc k sb i = Some (Some (gdesc sb i), sb)"
    using assms(1) Suc.prems by simp
  have range: "{i..<i + int (Suc n)} = insert i {i + 1..<i + 1 + int n}" by auto
  show ?case
  proof (cases "descriptor_in_group sb i (gdesc sb i)")
    case True
    then show ?thesis using Suc.IH [of "i + 1"] Suc.prems g unfolding range by simp
  next
    case False
    obtain sb' where "kr_error k sb = Some sb'" "same_but_errors sb sb'" using kr_error_total [OF assms(1,2)] by blast
    then show ?thesis using False g unfolding range by simp
  qed
qed

lemma kr_check_descriptors_eq:
  assumes "gd_ok sb" "\<not> test_opt sb KR_MOUNT_ERRORS_PANIC"
  shows "\<exists>sb'. kr_check_descriptors k sb =
     Some (\<forall>g \<in> {0..<s_groups_count (sbi sb)}. descriptor_in_group sb g (gdesc sb g), sb') \<and> same_but_errors sb sb'"
  using check_descriptors_loop_eq [OF assms, of 0 "nat (s_groups_count (sbi sb))" k] assms(1)
  by (simp add: kr_check_descriptors_def gd_ok_def)

text \<open>The last block that belongs to a group.\<close>

definition group_end :: "super_block \<Rightarrow> int \<Rightarrow> int" where
  "group_end sb g =
     (if g = s_groups_count (sbi sb) - 1 then uint (es_blocks_count (es sb))
      else (g + 1) * KR_BLOCKS_PER_GROUP sb + uint (es_first_data_block (es sb)))"

lemma descriptor_in_group_iff:
  assumes "gd_ok sb" "0 < KR_BLOCKS_PER_GROUP sb" "KR_BLOCKS_PER_GROUP sb < 4294967296"
    and itb: "1 \<le> s_itb_per_group (sbi sb)" "s_itb_per_group (sbi sb) < 4294967296"
    and bc: "0 < uint (es_blocks_count (es sb))" and g: "0 \<le> g" "g < s_groups_count (sbi sb)"
  shows "descriptor_in_group sb g d \<longleftrightarrow>
     (\<forall>b \<in> {uint (bg_block_bitmap d), uint (bg_inode_bitmap d), uint (bg_inode_table d),
            uint (bg_inode_table d) + s_itb_per_group (sbi sb) - 1}.
        g * KR_BLOCKS_PER_GROUP sb + uint (es_first_data_block (es sb)) \<le> b \<and> b < group_end sb g)"
proof -
  let ?B = "KR_BLOCKS_PER_GROUP sb" and ?f = "uint (es_first_data_block (es sb))" and ?G = "s_groups_count (sbi sb)"
  have f: "0 \<le> ?f" "?f < 4294967296" by simp_all
  have G: "?G \<le> 2147483648" using assms(1) by (simp add: gd_ok_def)
  have gB: "0 \<le> g * ?B" "g * ?B \<le> 2147483648 * 4294967296"
    using g assms(2) mult_mono [of g 2147483648 ?B 4294967296] assms(3) G by simp_all
  have F: "kr_group_first_block_no sb g = g * ?B + ?f"
    unfolding kr_group_first_block_no_def by (rule u64_id) (use f gB in linarith)+
  have G1: "u64 (?G - 1) = ?G - 1" by (rule u64_id) (use g G in linarith)+
  have L: "u64 (g * ?B + ?f + u64 (?B - 1)) = g * ?B + ?f + ?B - 1"
  proof -
    have "u64 (?B - 1) = ?B - 1" by (rule u64_id) (use assms(2,3) in linarith)+
    then have "u64 (g * ?B + ?f + u64 (?B - 1)) = u64 (g * ?B + ?f + (?B - 1))" by simp
    also have "\<dots> = g * ?B + ?f + (?B - 1)" by (rule u64_id) (use f gB assms(2,3) in linarith)+
    finally show ?thesis by linarith
  qed
  have BC: "u32 (uint (es_blocks_count (es sb)) - 1) = uint (es_blocks_count (es sb)) - 1"
    using bc uint32_lt [of "es_blocks_count (es sb)"] by (intro u32_id) linarith+
  have IT: "u64 (uint (bg_inode_table d) + s_itb_per_group (sbi sb) - 1) =
      uint (bg_inode_table d) + s_itb_per_group (sbi sb) - 1"
    using itb uint32_lt [of "bg_inode_table d"] uint_ge_0 [of "bg_inode_table d"] by (intro u64_id) linarith+
  have S: "(g + 1) * ?B = g * ?B + ?B" by (simp add: algebra_simps)
  show ?thesis
    unfolding descriptor_in_group_def descriptor_range_def Let_def F G1 L BC IT prod.case group_end_def S
    using itb(1) by (cases "g = ?G - 1") auto
qed

section \<open>The largest file\<close>

lemma kr_max_size_values:
  "kr_max_size 10 = 17247252480"
  "kr_max_size 11 = 275415851008"
  "kr_max_size 12 = 2194719883264"
  "kr_max_size 13 = 2164629929984"
  "kr_max_size 14 = 1924011065344"
  "kr_max_size 15 = - 537001984"
  "kr_max_size 16 = - 15395310534656"
  by (simp_all add: kr_max_size_def s32_def push_bit_eq_mult drop_bit_eq_div Let_def)

end
