(* ===== verification/Kr_Options.thy ===== *)
theory Kr_Options
  imports Kr_Super
begin

text \<open>
  Mount options and remounting (\<^verbatim>\<open>super.c\<close>): \<^verbatim>\<open>get_sb_block\<close>, \<^verbatim>\<open>parse_options\<close>,
  \<^verbatim>\<open>kr_show_options\<close> and \<^verbatim>\<open>kr_remount\<close>. The kernel's option parser and its user name spaces
  are parameters, and so is whether quota support is configured; the module is built without
  \<^verbatim>\<open>CONFIG_KR_FS_POSIX_ACL\<close>, which no configuration file defines.
\<close>

section \<open>Model: the options\<close>

datatype token =
    Opt_bsd_df | Opt_minix_df | Opt_grpid | Opt_nogrpid
  | Opt_resgid | Opt_resuid | Opt_sb | Opt_err_cont | Opt_err_panic
  | Opt_err_ro | Opt_nouid32 | Opt_nocheck | Opt_debug
  | Opt_oldalloc | Opt_orlov | Opt_nobh | Opt_user_xattr | Opt_nouser_xattr
  | Opt_acl | Opt_noacl | Opt_xip | Opt_dax | Opt_ignore | Opt_err | Opt_quota
  | Opt_usrquota | Opt_grpquota | Opt_reservation | Opt_noreservation

definition tokens :: "(token \<times> string option) list" where
  "tokens =
     [(Opt_bsd_df, Some ''bsddf''),
      (Opt_minix_df, Some ''minixdf''),
      (Opt_grpid, Some ''grpid''),
      (Opt_grpid, Some ''bsdgroups''),
      (Opt_nogrpid, Some ''nogrpid''),
      (Opt_nogrpid, Some ''sysvgroups''),
      (Opt_resgid, Some ''resgid=%u''),
      (Opt_resuid, Some ''resuid=%u''),
      (Opt_sb, Some ''sb=%u''),
      (Opt_err_cont, Some ''errors=continue''),
      (Opt_err_panic, Some ''errors=panic''),
      (Opt_err_ro, Some ''errors=remount-ro''),
      (Opt_nouid32, Some ''nouid32''),
      (Opt_nocheck, Some ''check=none''),
      (Opt_nocheck, Some ''nocheck''),
      (Opt_debug, Some ''debug''),
      (Opt_oldalloc, Some ''oldalloc''),
      (Opt_orlov, Some ''orlov''),
      (Opt_nobh, Some ''nobh''),
      (Opt_user_xattr, Some ''user_xattr''),
      (Opt_nouser_xattr, Some ''nouser_xattr''),
      (Opt_acl, Some ''acl''),
      (Opt_noacl, Some ''noacl''),
      (Opt_xip, Some ''xip''),
      (Opt_dax, Some ''dax''),
      (Opt_grpquota, Some ''grpquota''),
      (Opt_ignore, Some ''noquota''),
      (Opt_quota, Some ''quota''),
      (Opt_usrquota, Some ''usrquota''),
      (Opt_reservation, Some ''reservation''),
      (Opt_noreservation, Some ''noreservation''),
      (Opt_err, None)]"

text \<open>
  What the kernel provides: \<^verbatim>\<open>match_token\<close> (the token and the first argument), \<^verbatim>\<open>match_int\<close>,
  \<^verbatim>\<open>make_kuid\<close> and \<^verbatim>\<open>make_kgid\<close> in the caller's name space (\<^term>\<open>None\<close>: not valid),
  \<^verbatim>\<open>simple_strtoul\<close> (the number and the rest of the string), and whether \<^verbatim>\<open>CONFIG_QUOTA\<close> is set.
\<close>

record parser =
  p_match_token :: "string \<Rightarrow> (token \<times> string option) list \<Rightarrow> token \<times> string"
  p_match_int :: "string \<Rightarrow> int option"
  p_make_kuid :: "int \<Rightarrow> 32 word option"
  p_make_kgid :: "int \<Rightarrow> 32 word option"
  p_strtoul :: "string \<Rightarrow> int \<times> string"
  p_config_quota :: bool

text \<open>\<open>get_sb_block\<close> gives the block and the options that are left; \<^term>\<open>None\<close> is a null pointer.\<close>

definition get_sb_block :: "parser \<Rightarrow> string option \<Rightarrow> int \<times> string option" where
  "get_sb_block ps data =
     (case data of
        None \<Rightarrow> (1, data)
      | Some options \<Rightarrow>
          if take 3 options \<noteq> ''sb='' then (1, data)
          else case p_strtoul ps (drop 3 options) of (sb_block, rest) \<Rightarrow>
            (case rest of
               [] \<Rightarrow> (sb_block, Some [])
             | c # cs \<Rightarrow> if c \<noteq> CHR '','' then (1, data) else (sb_block, Some cs)))"

definition set_mount_opt :: "64 word \<Rightarrow> kr_sb_info \<Rightarrow> kr_sb_info" where
  "set_mount_opt x si = si\<lparr>s_mount_opt := set_opt (s_mount_opt si) x\<rparr>"

definition clear_mount_opt :: "64 word \<Rightarrow> kr_sb_info \<Rightarrow> kr_sb_info" where
  "clear_mount_opt x si = si\<lparr>s_mount_opt := clear_opt (s_mount_opt si) x\<rparr>"

text \<open>The \<^verbatim>\<open>switch\<close> over the token; \<^term>\<open>None\<close> is \<^verbatim>\<open>return 0\<close>.\<close>

fun parse_token :: "parser \<Rightarrow> token \<Rightarrow> string \<Rightarrow> kr_sb_info \<Rightarrow> kr_sb_info option" where
  "parse_token ps Opt_bsd_df arg si = Some (clear_mount_opt KR_MOUNT_MINIX_DF si)"
| "parse_token ps Opt_minix_df arg si = Some (set_mount_opt KR_MOUNT_MINIX_DF si)"
| "parse_token ps Opt_grpid arg si = Some (set_mount_opt KR_MOUNT_GRPID si)"
| "parse_token ps Opt_nogrpid arg si = Some (clear_mount_opt KR_MOUNT_GRPID si)"
| "parse_token ps Opt_resuid arg si =
     do { option \<leftarrow> p_match_int ps arg;
          uid \<leftarrow> p_make_kuid ps option;
          Some (si\<lparr>s_resuid := uid\<rparr>) }"
| "parse_token ps Opt_resgid arg si =
     do { option \<leftarrow> p_match_int ps arg;
          gid \<leftarrow> p_make_kgid ps option;
          Some (si\<lparr>s_resgid := gid\<rparr>) }"
| "parse_token ps Opt_sb arg si = Some si"
| "parse_token ps Opt_err_panic arg si =
     Some (set_mount_opt KR_MOUNT_ERRORS_PANIC
             (clear_mount_opt KR_MOUNT_ERRORS_RO (clear_mount_opt KR_MOUNT_ERRORS_CONT si)))"
| "parse_token ps Opt_err_ro arg si =
     Some (set_mount_opt KR_MOUNT_ERRORS_RO
             (clear_mount_opt KR_MOUNT_ERRORS_PANIC (clear_mount_opt KR_MOUNT_ERRORS_CONT si)))"
| "parse_token ps Opt_err_cont arg si =
     Some (set_mount_opt KR_MOUNT_ERRORS_CONT
             (clear_mount_opt KR_MOUNT_ERRORS_PANIC (clear_mount_opt KR_MOUNT_ERRORS_RO si)))"
| "parse_token ps Opt_nouid32 arg si = Some (set_mount_opt KR_MOUNT_NO_UID32 si)"
| "parse_token ps Opt_nocheck arg si = Some (clear_mount_opt KR_MOUNT_CHECK si)"
| "parse_token ps Opt_debug arg si = Some (set_mount_opt KR_MOUNT_DEBUG si)"
| "parse_token ps Opt_oldalloc arg si = Some (set_mount_opt KR_MOUNT_OLDALLOC si)"
| "parse_token ps Opt_orlov arg si = Some (clear_mount_opt KR_MOUNT_OLDALLOC si)"
| "parse_token ps Opt_nobh arg si = Some (set_mount_opt KR_MOUNT_NOBH si)"
| "parse_token ps Opt_user_xattr arg si = Some si"
| "parse_token ps Opt_nouser_xattr arg si = Some si"
| "parse_token ps Opt_acl arg si = Some si"
| "parse_token ps Opt_noacl arg si = Some si"
| "parse_token ps Opt_xip arg si = Some (set_mount_opt KR_MOUNT_XIP si)"
| "parse_token ps Opt_dax arg si = Some si"
| "parse_token ps Opt_quota arg si = Some (if p_config_quota ps then set_mount_opt KR_MOUNT_USRQUOTA si else si)"
| "parse_token ps Opt_usrquota arg si = Some (if p_config_quota ps then set_mount_opt KR_MOUNT_USRQUOTA si else si)"
| "parse_token ps Opt_grpquota arg si = Some (if p_config_quota ps then set_mount_opt KR_MOUNT_GRPQUOTA si else si)"
| "parse_token ps Opt_reservation arg si = Some (set_mount_opt KR_MOUNT_RESERVATION si)"
| "parse_token ps Opt_noreservation arg si = Some (clear_mount_opt KR_MOUNT_RESERVATION si)"
| "parse_token ps Opt_ignore arg si = Some si"
| "parse_token ps Opt_err arg si = None"

text \<open>\<^verbatim>\<open>strsep(&options, ",")\<close>: the next piece, and what \<^verbatim>\<open>options\<close> points to afterwards.\<close>

fun strsep :: "string \<Rightarrow> string \<times> string option" where
  "strsep [] = ([], None)"
| "strsep (c # cs) = (if c = CHR '','' then ([], Some cs) else case strsep cs of (p, rest) \<Rightarrow> (c # p, rest))"

lemma strsep_shorter: "strsep s = (p, Some rest) \<Longrightarrow> length rest < length s"
  by (induction s arbitrary: p) (fastforce split: if_splits prod.splits)+

function parse_loop :: "parser \<Rightarrow> string option \<Rightarrow> kr_sb_info \<Rightarrow> bool \<times> kr_sb_info" where
  "parse_loop ps None si = (True, si)"
| "parse_loop ps (Some options) si =
     (case strsep options of (p, rest) \<Rightarrow>
        if p = [] then parse_loop ps rest si
        else case p_match_token ps p tokens of (token, arg) \<Rightarrow>
          (case parse_token ps token arg si of
             None \<Rightarrow> (False, si)
           | Some si1 \<Rightarrow> parse_loop ps rest si1))"
  by pat_completeness auto

termination
  by (relation "measure (\<lambda>(ps, options, si). case options of None \<Rightarrow> 0 | Some s \<Rightarrow> Suc (length s))")
    (auto split: option.splits dest: strsep_shorter [OF sym])

definition parse_options :: "parser \<Rightarrow> string option \<Rightarrow> super_block \<Rightarrow> bool \<times> super_block" where
  "parse_options ps options sb =
     (case parse_loop ps options (sbi sb) of (ok, si) \<Rightarrow> (ok, sb\<lparr>sbi := si\<rparr>))"

section \<open>Model: the defaults\<close>

abbreviation (input) KR_DEFM_DEBUG :: "32 word" where "KR_DEFM_DEBUG \<equiv> 0x0001"
abbreviation (input) KR_DEFM_BSDGROUPS :: "32 word" where "KR_DEFM_BSDGROUPS \<equiv> 0x0002"
abbreviation (input) KR_DEFM_UID16 :: "32 word" where "KR_DEFM_UID16 \<equiv> 0x0010"
abbreviation (input) KR_ERRORS_CONTINUE :: "16 word" where "KR_ERRORS_CONTINUE \<equiv> 1"
abbreviation (input) KR_ERRORS_PANIC :: "16 word" where "KR_ERRORS_PANIC \<equiv> 3"

text \<open>
  The options that \<^verbatim>\<open>kr_fill_super\<close> takes from the super block on the disk before it parses
  the mount options. The initial user name space maps an id to itself.
\<close>

definition default_options :: "kr_super_block \<Rightarrow> kr_sb_info \<Rightarrow> kr_sb_info" where
  "default_options e si =
     (let def_mount_opts = es_default_mount_opts e;
          si1 = (if def_mount_opts AND KR_DEFM_DEBUG \<noteq> 0 then set_mount_opt KR_MOUNT_DEBUG si else si);
          si2 = (if def_mount_opts AND KR_DEFM_BSDGROUPS \<noteq> 0 then set_mount_opt KR_MOUNT_GRPID si1 else si1);
          si3 = (if def_mount_opts AND KR_DEFM_UID16 \<noteq> 0 then set_mount_opt KR_MOUNT_NO_UID32 si2 else si2);
          si4 = (if es_errors e = KR_ERRORS_PANIC then set_mount_opt KR_MOUNT_ERRORS_PANIC si3
                 else if es_errors e = KR_ERRORS_CONTINUE then set_mount_opt KR_MOUNT_ERRORS_CONT si3
                 else set_mount_opt KR_MOUNT_ERRORS_RO si3);
          si5 = si4\<lparr>s_resuid := ucast (es_def_resuid e), s_resgid := ucast (es_def_resgid e)\<rparr>
      in set_mount_opt KR_MOUNT_RESERVATION si5)"

section \<open>Model: showing the options\<close>

text \<open>A number as \<^verbatim>\<open>%u\<close> and \<^verbatim>\<open>%lu\<close> print it.\<close>

fun decimal_nat :: "nat \<Rightarrow> string" where
  "decimal_nat n =
     (if n < 10 then [char_of (48 + n)] else decimal_nat (n div 10) @ [char_of (48 + n mod 10)])"

declare decimal_nat.simps [simp del]

definition decimal :: "int \<Rightarrow> string" where
  "decimal i = decimal_nat (nat i)"

definition opt_when :: "bool \<Rightarrow> string \<Rightarrow> string list" where
  "opt_when c s = (if c then [s] else [])"

text \<open>The options shown, in order; each is printed after a comma.\<close>

definition show_options_list :: "parser \<Rightarrow> super_block \<Rightarrow> string list" where
  "show_options_list ps sb =
     (let def_mount_opts = es_default_mount_opts (es sb); si = sbi sb; def_errors = es_errors (es sb) in
      opt_when (s_sb_block si \<noteq> 1) (''sb='' @ decimal (s_sb_block si)) @
      opt_when (test_opt sb KR_MOUNT_MINIX_DF) ''minixdf'' @
      opt_when (test_opt sb KR_MOUNT_GRPID) ''grpid'' @
      opt_when (\<not> test_opt sb KR_MOUNT_GRPID \<and> def_mount_opts AND KR_DEFM_BSDGROUPS \<noteq> 0) ''nogrpid'' @
      opt_when (s_resuid si \<noteq> 0 \<or> es_def_resuid (es sb) \<noteq> 0) (''resuid='' @ decimal (uint (s_resuid si))) @
      opt_when (s_resgid si \<noteq> 0 \<or> es_def_resgid (es sb) \<noteq> 0) (''resgid='' @ decimal (uint (s_resgid si))) @
      opt_when (test_opt sb KR_MOUNT_ERRORS_RO \<and>
                (def_errors = KR_ERRORS_PANIC \<or> def_errors = KR_ERRORS_CONTINUE)) ''errors=remount-ro'' @
      opt_when (test_opt sb KR_MOUNT_ERRORS_CONT) ''errors=continue'' @
      opt_when (test_opt sb KR_MOUNT_ERRORS_PANIC) ''errors=panic'' @
      opt_when (test_opt sb KR_MOUNT_NO_UID32) ''nouid32'' @
      opt_when (test_opt sb KR_MOUNT_DEBUG) ''debug'' @
      opt_when (test_opt sb KR_MOUNT_OLDALLOC) ''oldalloc'' @
      opt_when (test_opt sb KR_MOUNT_NOBH) ''nobh'' @
      opt_when (p_config_quota ps \<and> s_mount_opt si AND KR_MOUNT_USRQUOTA \<noteq> 0) ''usrquota'' @
      opt_when (p_config_quota ps \<and> s_mount_opt si AND KR_MOUNT_GRPQUOTA \<noteq> 0) ''grpquota'' @
      opt_when (\<not> test_opt sb KR_MOUNT_RESERVATION) ''noreservation'')"

definition kr_show_options :: "parser \<Rightarrow> super_block \<Rightarrow> string" where
  "kr_show_options ps sb = concat (map (\<lambda>s. CHR '','' # s) (show_options_list ps sb))"

section \<open>Model: remounting\<close>

text \<open>The options that \<^verbatim>\<open>struct kr_mount_options\<close> saves.\<close>

record kr_mount_options =
  o_mount_opt :: "64 word"
  o_resuid :: "32 word"
  o_resgid :: "32 word"

definition save_opts :: "super_block \<Rightarrow> kr_mount_options" where
  "save_opts sb = \<lparr>o_mount_opt = s_mount_opt (sbi sb), o_resuid = s_resuid (sbi sb), o_resgid = s_resgid (sbi sb)\<rparr>"

definition restore_opts :: "kr_mount_options \<Rightarrow> 64 word \<Rightarrow> super_block \<Rightarrow> super_block" where
  "restore_opts old old_sb_flags sb =
     sb\<lparr>sbi := (sbi sb)\<lparr>s_mount_opt := o_mount_opt old, s_resuid := o_resuid old, s_resgid := o_resgid old\<rparr>,
        s_flags := old_sb_flags\<rparr>"

text \<open>
  The part of \<^verbatim>\<open>kr_remount\<close> after the options are parsed. \<open>flags\<close> is \<^verbatim>\<open>*flags\<close>;
  \<open>quota_suspend\<close> is the result of \<^verbatim>\<open>dquot_suspend\<close>.
\<close>

definition kr_remount_ro ::
  "kernel \<Rightarrow> errno option \<Rightarrow> kr_mount_options \<Rightarrow> 64 word \<Rightarrow> super_block \<Rightarrow> ((errno + unit) \<times> super_block) option"
where
  "kr_remount_ro k quota_suspend old old_sb_flags sb =
     (if es_state (es sb) AND KR_VALID_FS \<noteq> 0 \<or> s_mount_state (sbi sb) AND KR_VALID_FS = 0
      then Some (Inr (), sb)
      else
        let sb1 = sb\<lparr>es := (es sb)\<lparr>es_state := s_mount_state (sbi sb), es_mtime := word_of_int (k_now k)\<rparr>\<rparr> in
        case quota_suspend of
          Some e \<Rightarrow> Some (Inl e, restore_opts old old_sb_flags sb1)
        | None \<Rightarrow> do { sb2 \<leftarrow> kr_sync_super k sb1; Some (Inr (), sb2) })"

definition kr_remount_rw ::
  "kernel \<Rightarrow> kr_mount_options \<Rightarrow> 64 word \<Rightarrow> super_block \<Rightarrow> ((errno + unit) \<times> super_block) option"
where
  "kr_remount_rw k old old_sb_flags sb =
     (if KR_HAS_RO_COMPAT_FEATURE sb (NOT KR_FEATURE_RO_COMPAT_SUPP)
      then Some (Inl EROFS, restore_opts old old_sb_flags sb)
      else
        let sb1 = sb\<lparr>sbi := (sbi sb)\<lparr>s_mount_state := es_state (es sb)\<rparr>\<rparr> in
        case kr_setup_super k sb1 False of (res, msgs, sb2) \<Rightarrow>
          let sb3 = (if res then sb2 else sb2\<lparr>s_flags := s_flags sb2 AND NOT MS_RDONLY\<rparr>) in
          do { sb4 \<leftarrow> kr_write_super k sb3; Some (Inr (), sb4) })"

text \<open>
  \<^verbatim>\<open>sync_filesystem\<close> writes a writable file system back through \<^verbatim>\<open>kr_sync_fs\<close>, first without
  and then with waiting.
\<close>

definition sync_filesystem :: "kernel \<Rightarrow> super_block \<Rightarrow> super_block option" where
  "sync_filesystem k sb = (if sb_rdonly sb then Some sb else do { sb1 \<leftarrow> kr_sync_fs k sb; kr_sync_fs k sb1 })"

definition kr_remount ::
  "kernel \<Rightarrow> parser \<Rightarrow> errno option \<Rightarrow> 64 word \<Rightarrow> string option \<Rightarrow> super_block \<Rightarrow>
   ((errno + unit) \<times> super_block) option"
where
  "kr_remount k ps quota_suspend flags data sb0 =
     do { sb \<leftarrow> sync_filesystem k sb0;
          let old_sb_flags = s_flags sb;
          let old_opts = save_opts sb;
          case parse_options ps data sb of (ok, sb1) \<Rightarrow>
            if \<not> ok then Some (Inl EINVAL, restore_opts old_opts old_sb_flags sb1)
            else
              let sb2 = sb1\<lparr>s_flags := (s_flags sb1 AND NOT MS_POSIXACL) OR
                              (if s_mount_opt (sbi sb1) AND KR_MOUNT_POSIX_ACL \<noteq> 0 then MS_POSIXACL else 0)\<rparr>;
                  sb3 = (if (s_mount_opt (sbi sb2) XOR o_mount_opt old_opts) AND KR_MOUNT_DAX \<noteq> 0
                         then sb2\<lparr>sbi := (sbi sb2)\<lparr>s_mount_opt := s_mount_opt (sbi sb2) XOR KR_MOUNT_DAX\<rparr>\<rparr>
                         else sb2)
              in if (flags AND MS_RDONLY) = (s_flags sb3 AND MS_RDONLY) then Some (Inr (), sb3)
                 else if flags AND MS_RDONLY \<noteq> 0 then kr_remount_ro k quota_suspend old_opts old_sb_flags sb3
                 else kr_remount_rw k old_opts old_sb_flags sb3 }"

section \<open>What the options change\<close>

text \<open>The in-memory super block without the three fields that options set.\<close>

definition without_opts :: "kr_sb_info \<Rightarrow> kr_sb_info" where
  "without_opts si = si\<lparr>s_mount_opt := 0, s_resuid := 0, s_resgid := 0\<rparr>"

lemma parse_token_frame: "parse_token ps t arg si = Some si' \<Longrightarrow> without_opts si' = without_opts si"
  by (cases "(ps, t, arg, si)" rule: parse_token.cases)
    (auto simp: without_opts_def set_mount_opt_def clear_mount_opt_def split: bind_splits)

lemma parse_loop_inv:
  assumes "parse_loop ps options si = (ok, si')" "P si"
    and step: "\<And>t arg si si'. P si \<Longrightarrow> parse_token ps t arg si = Some si' \<Longrightarrow> P si'"
  shows "P si'"
  using assms(1,2)
proof (induction "case options of None \<Rightarrow> 0 | Some s \<Rightarrow> Suc (length s)" arbitrary: options si rule: less_induct)
  case less
  show ?case
  proof (cases options)
    case None
    then show ?thesis using less.prems by simp
  next
    case (Some s)
    obtain p rest where p: "strsep s = (p, rest)" by fastforce
    obtain t arg where t: "p_match_token ps p tokens = (t, arg)" by fastforce
    have shorter: "(case rest of None \<Rightarrow> 0 | Some s \<Rightarrow> Suc (length s)) <
        (case options of None \<Rightarrow> 0 | Some s \<Rightarrow> Suc (length s))"
      using p Some by (auto split: option.splits dest: strsep_shorter)
    consider "parse_loop ps rest si = (ok, si')" | "si' = si"
      | si1 where "parse_token ps t arg si = Some si1" "parse_loop ps rest si1 = (ok, si')"
      using less.prems(1) p t Some by (auto split: if_splits option.splits)
    then show ?thesis
    proof cases
      case 1
      then show ?thesis using less.hyps [OF shorter] less.prems(2) by simp
    next
      case 2
      then show ?thesis using less.prems(2) by simp
    next
      case (3 si1)
      have "P si1" by (rule step [OF less.prems(2) 3(1)])
      then show ?thesis using less.hyps [OF shorter 3(2)] by simp
    qed
  qed
qed

lemma parse_options_frame:
  assumes "parse_options ps data sb = (ok, sb')"
  shows "without_opts (sbi sb') = without_opts (sbi sb)" "sb' = sb\<lparr>sbi := sbi sb'\<rparr>"
proof -
  obtain si where l: "parse_loop ps data (sbi sb) = (ok, si)" and sb': "sb' = sb\<lparr>sbi := si\<rparr>"
    using assms by (auto simp: parse_options_def split: prod.splits)
  have "without_opts si = without_opts (sbi sb)"
    by (rule parse_loop_inv [OF l, where P = "\<lambda>s. without_opts s = without_opts (sbi sb)"])
      (auto dest: parse_token_frame)
  then show "without_opts (sbi sb') = without_opts (sbi sb)" "sb' = sb\<lparr>sbi := sbi sb'\<rparr>" by (simp_all add: sb')
qed

lemma without_opts_restore:
  "without_opts si' = without_opts si \<Longrightarrow>
   si'\<lparr>s_mount_opt := s_mount_opt si, s_resuid := s_resuid si, s_resgid := s_resgid si\<rparr> = si"
  by (cases si; cases si') (simp add: without_opts_def)

lemma without_opts_state: "without_opts si' = without_opts si \<Longrightarrow> s_mount_state si' = s_mount_state si"
  by (cases si; cases si') (simp add: without_opts_def)

text \<open>A remount after the options are parsed: \<open>sb\<close> before them and \<open>sb1\<close> after them.\<close>

definition remount_parsed :: "super_block \<Rightarrow> super_block \<Rightarrow> bool" where
  "remount_parsed sb sb1 = (without_opts (sbi sb1) = without_opts (sbi sb) \<and> es sb1 = es sb)"

lemma restore_opts_back:
  "without_opts (sbi sb1) = without_opts (sbi sb) \<Longrightarrow>
   sbi (restore_opts (save_opts sb) f sb1) = sbi sb \<and> s_flags (restore_opts (save_opts sb) f sb1) = f \<and>
   es (restore_opts (save_opts sb) f sb1) = es sb1"
  by (simp add: restore_opts_def save_opts_def without_opts_restore)

lemma kr_remount_ro_error:
  assumes "kr_remount_ro k q (save_opts sb) f sb1 = Some (res, sb')" "remount_parsed sb sb1" "error_seen sb"
  shows "error_seen sb'"
proof -
  have st: "s_mount_state (sbi sb1) = s_mount_state (sbi sb)" "es sb1 = es sb"
    using assms(2) by (auto simp: remount_parsed_def dest: without_opts_state)
  let ?sb2 = "sb1\<lparr>es := (es sb1)\<lparr>es_state := s_mount_state (sbi sb1), es_mtime := word_of_int (k_now k)\<rparr>\<rparr>"
  consider "sb' = sb1" | "sb' = restore_opts (save_opts sb) f ?sb2" | "kr_sync_super k ?sb2 = Some sb'"
    using assms(1) by (auto simp: kr_remount_ro_def Let_def split: if_splits option.splits bind_splits)
  then show ?thesis
  proof cases
    case 1
    then show ?thesis using assms(3) st by (simp add: error_seen_def)
  next
    case 2
    then show ?thesis using assms(3) st by (simp add: error_seen_def restore_opts_def)
  next
    case 3
    then show ?thesis using kr_sync_super_frame(1,2) [OF 3] assms(3) st by (simp add: error_seen_def)
  qed
qed

lemma kr_setup_super_frame:
  "kr_setup_super k sb ro = (res, msgs, sb') \<Longrightarrow>
   sbi sb' = sbi sb \<and> es_state (es sb') = es_state (es sb) \<and> s_flags sb' = s_flags sb"
  by (auto simp: kr_setup_super_def Let_def split: if_splits)

lemma kr_remount_rw_error:
  assumes "kr_remount_rw k (save_opts sb) f sb1 = Some (res, sb')" "remount_parsed sb sb1" "error_seen sb"
  shows "error_seen sb'"
proof -
  have st: "s_mount_state (sbi sb1) = s_mount_state (sbi sb)" "es sb1 = es sb"
    using assms(2) by (auto simp: remount_parsed_def dest: without_opts_state)
  let ?sb2 = "sb1\<lparr>sbi := (sbi sb1)\<lparr>s_mount_state := es_state (es sb1)\<rparr>\<rparr>"
  show ?thesis
  proof (cases "KR_HAS_RO_COMPAT_FEATURE sb1 (NOT KR_FEATURE_RO_COMPAT_SUPP)")
    case True
    then have "sb' = restore_opts (save_opts sb) f sb1" using assms(1) by (simp add: kr_remount_rw_def)
    then show ?thesis using assms(3) st by (simp add: error_seen_def restore_opts_def)
  next
    case False
    obtain r msgs sb3 where s: "kr_setup_super k ?sb2 False = (r, msgs, sb3)" by (metis prod_cases3)
    let ?sb4 = "if r then sb3 else sb3\<lparr>s_flags := s_flags sb3 AND NOT MS_RDONLY\<rparr>"
    have w: "kr_write_super k ?sb4 = Some sb'"
      using assms(1) False s by (auto simp: kr_remount_rw_def Let_def split: bind_splits)
    have "error_seen sb3"
      using kr_setup_super_frame [OF s] assms(3) st by (simp add: error_seen_def)
    then have "error_seen ?sb4" by (simp add: error_seen_def)
    then show ?thesis by (rule kr_write_super_error [OF w])
  qed
qed

lemma sync_filesystem_frame:
  assumes "sync_filesystem k sb = Some sb'"
  shows "sbi sb' = sbi sb" "s_flags sb' = s_flags sb" "error_seen sb \<Longrightarrow> error_seen sb'"
proof -
  consider "sb' = sb" | sb1 where "\<not> sb_rdonly sb" "kr_sync_fs k sb = Some sb1" "kr_sync_fs k sb1 = Some sb'"
    using assms by (auto simp: sync_filesystem_def split: if_splits bind_splits)
  then have "sbi sb' = sbi sb \<and> s_flags sb' = s_flags sb \<and> (error_seen sb \<longrightarrow> error_seen sb')"
  proof cases
    case (2 sb1)
    note a = kr_sync_fs_frame [OF 2(2)] and b = kr_sync_fs_frame [OF 2(3)]
    have "\<not> sb_rdonly sb1" using a(3) 2(1) by (simp add: sb_rdonly_def)
    then show ?thesis using a b 2(1) kr_sync_fs_error [OF 2(2)] kr_sync_fs_error [OF 2(3)] by simp
  qed simp
  then show "sbi sb' = sbi sb" "s_flags sb' = s_flags sb" "error_seen sb \<Longrightarrow> error_seen sb'" by simp_all
qed

text \<open>How a remount goes on after the options have been parsed into \<open>sb1\<close>.\<close>

definition remount_flags :: "kr_mount_options \<Rightarrow> super_block \<Rightarrow> super_block" where
  "remount_flags old sb1 =
     (let sb2 = sb1\<lparr>s_flags := (s_flags sb1 AND NOT MS_POSIXACL) OR
                     (if s_mount_opt (sbi sb1) AND KR_MOUNT_POSIX_ACL \<noteq> 0 then MS_POSIXACL else 0)\<rparr>
      in if (s_mount_opt (sbi sb2) XOR o_mount_opt old) AND KR_MOUNT_DAX \<noteq> 0
         then sb2\<lparr>sbi := (sbi sb2)\<lparr>s_mount_opt := s_mount_opt (sbi sb2) XOR KR_MOUNT_DAX\<rparr>\<rparr> else sb2)"

lemma kr_remount_cases:
  assumes "kr_remount k ps q flags data sb0 = Some (res, sb')"
  obtains sb sb1 where "sync_filesystem k sb0 = Some sb" "parse_options ps data sb = (False, sb1)"
      "res = Inl EINVAL" "sb' = restore_opts (save_opts sb) (s_flags sb) sb1"
  | sb sb1 where "sync_filesystem k sb0 = Some sb" "parse_options ps data sb = (True, sb1)"
      "res = Inr ()" "sb' = remount_flags (save_opts sb) sb1"
  | sb sb1 where "sync_filesystem k sb0 = Some sb" "parse_options ps data sb = (True, sb1)"
      "kr_remount_ro k q (save_opts sb) (s_flags sb) (remount_flags (save_opts sb) sb1) = Some (res, sb')"
  | sb sb1 where "sync_filesystem k sb0 = Some sb" "parse_options ps data sb = (True, sb1)"
      "kr_remount_rw k (save_opts sb) (s_flags sb) (remount_flags (save_opts sb) sb1) = Some (res, sb')"
proof -
  obtain sb where s: "sync_filesystem k sb0 = Some sb"
    using assms by (auto simp: kr_remount_def split: bind_splits)
  obtain ok sb1 where p: "parse_options ps data sb = (ok, sb1)" by (cases "parse_options ps data sb")
  note e = assms [unfolded kr_remount_def s bind.bind_lunit p prod.case Let_def
      remount_flags_def [symmetric, unfolded Let_def]]
  show thesis
    using e s p that by (cases ok) (auto simp: Let_def split: if_splits)
qed

lemma remount_flags_parsed:
  "without_opts (sbi sb1) = without_opts (sbi sb) \<Longrightarrow> es sb1 = es sb \<Longrightarrow>
   remount_parsed sb (remount_flags old sb1)"
  by (simp add: remount_parsed_def remount_flags_def Let_def without_opts_def)

lemma parsed_options:
  assumes "parse_options ps data sb = (ok, sb1)"
  shows "without_opts (sbi sb1) = without_opts (sbi sb)" "es sb1 = es sb" "s_flags sb1 = s_flags sb"
proof -
  note f = parse_options_frame [OF assms]
  show "without_opts (sbi sb1) = without_opts (sbi sb)" by (rule f(1))
  show "es sb1 = es sb" "s_flags sb1 = s_flags sb" by (subst f(2), simp)+
qed

lemma kr_remount_error:
  assumes "kr_remount k ps q flags data sb0 = Some (res, sb')" "error_seen sb0"
  shows "error_seen sb'"
  using assms(1)
proof (cases rule: kr_remount_cases)
  case (1 sb sb1)
  have "error_seen sb" using sync_filesystem_frame(3) [OF 1(1)] assms(2) .
  then show ?thesis
    using parsed_options [OF 1(2)] restore_opts_back [of sb1 sb "s_flags sb"] 1(4) by (simp add: error_seen_def)
next
  case (2 sb sb1)
  have "error_seen sb" using sync_filesystem_frame(3) [OF 2(1)] assms(2) .
  then show ?thesis
    using remount_flags_parsed [OF parsed_options(1,2) [OF 2(2)], of "save_opts sb"] 2(4)
    by (auto simp: error_seen_def remount_parsed_def dest: without_opts_state)
next
  case (3 sb sb1)
  show ?thesis
    by (rule kr_remount_ro_error [OF 3(3) remount_flags_parsed [OF parsed_options(1,2) [OF 3(2)]]
          sync_filesystem_frame(3) [OF 3(1) assms(2)]])
next
  case (4 sb sb1)
  show ?thesis
    by (rule kr_remount_rw_error [OF 4(3) remount_flags_parsed [OF parsed_options(1,2) [OF 4(2)]]
          sync_filesystem_frame(3) [OF 4(1) assms(2)]])
qed

text \<open>A remount that fails leaves the options, all of the super block in memory and the flags as they were.\<close>

lemma kr_remount_failed:
  assumes "kr_remount k ps q flags data sb0 = Some (Inl e, sb')"
  shows "sbi sb' = sbi sb0" "s_flags sb' = s_flags sb0"
proof -
  have undone: "sbi sb' = sbi sb0 \<and> s_flags sb' = s_flags sb0"
    if "sync_filesystem k sb0 = Some sb" "without_opts (sbi sb2) = without_opts (sbi sb)"
      "sb' = restore_opts (save_opts sb) (s_flags sb) sb2" for sb sb2
    using restore_opts_back [OF that(2), of "s_flags sb"] sync_filesystem_frame [OF that(1)] that(3) by simp
  have "sbi sb' = sbi sb0 \<and> s_flags sb' = s_flags sb0"
    using assms
  proof (cases rule: kr_remount_cases)
    case (1 sb sb1)
    then show ?thesis using undone parsed_options(1) by blast
  next
    case (2 sb sb1)
    then show ?thesis by simp
  next
    case (3 sb sb1)
    let ?sb2 = "remount_flags (save_opts sb) sb1"
    let ?sb3 = "?sb2\<lparr>es := (es ?sb2)\<lparr>es_state := s_mount_state (sbi ?sb2), es_mtime := word_of_int (k_now k)\<rparr>\<rparr>"
    have w: "without_opts (sbi ?sb3) = without_opts (sbi sb)"
      using remount_flags_parsed [OF parsed_options(1,2) [OF 3(2)], of "save_opts sb"] by (simp add: remount_parsed_def)
    have "sb' = restore_opts (save_opts sb) (s_flags sb) ?sb3"
      using 3(3) by (auto simp: kr_remount_ro_def Let_def split: if_splits option.splits bind_splits)
    then show ?thesis by (rule undone [OF 3(1) w])
  next
    case (4 sb sb1)
    have w: "without_opts (sbi (remount_flags (save_opts sb) sb1)) = without_opts (sbi sb)"
      using remount_flags_parsed [OF parsed_options(1,2) [OF 4(2)], of "save_opts sb"] by (simp add: remount_parsed_def)
    have "sb' = restore_opts (save_opts sb) (s_flags sb) (remount_flags (save_opts sb) sb1)"
      using 4(3) by (auto simp: kr_remount_rw_def Let_def split: if_splits bind_splits prod.splits)
    then show ?thesis by (rule undone [OF 4(1) w])
  qed
  then show "sbi sb' = sbi sb0" "s_flags sb' = s_flags sb0" by simp_all
qed

section \<open>The life of a mount\<close>

text \<open>
  The steps that reach the super block of a mounted file system, in any order: a reported
  error, the VFS's sync, freeze and thaw, \<^verbatim>\<open>statfs\<close>, and a remount, after which the VFS stores the new flags.
\<close>

inductive super_step :: "kernel \<Rightarrow> super_block \<Rightarrow> super_block \<Rightarrow> bool" for k where
  step_error: "kr_error k sb = Some sb' \<Longrightarrow> super_step k sb sb'"
| step_sync: "kr_sync_fs k sb = Some sb' \<Longrightarrow> super_step k sb sb'"
| step_write: "kr_write_super k sb = Some sb' \<Longrightarrow> super_step k sb sb'"
| step_freeze: "kr_freeze k n sb = Some sb' \<Longrightarrow> super_step k sb sb'"
| step_unfreeze: "kr_unfreeze k sb = Some sb' \<Longrightarrow> super_step k sb sb'"
| step_statfs: "kr_statfs sb = Some (buf, sb') \<Longrightarrow> super_step k sb sb'"
| step_rev: "super_step k sb (kr_update_dynamic_rev sb)"
| step_remount: "kr_remount k ps q flags data sb = Some (res, sb') \<Longrightarrow> super_step k sb sb'"
| step_flags: "super_step k sb (sb\<lparr>s_flags := f\<rparr>)"

lemma error_seen_rev: "error_seen sb \<Longrightarrow> error_seen (kr_update_dynamic_rev sb)"
  by (simp add: kr_update_dynamic_rev_def error_seen_def)

lemma error_seen_flags: "error_seen sb \<Longrightarrow> error_seen (sb\<lparr>s_flags := f\<rparr>)"
  by (simp add: error_seen_def)

lemma super_step_error: "super_step k sb sb' \<Longrightarrow> error_seen sb \<Longrightarrow> error_seen sb'"
proof (induction rule: super_step.induct)
  case (step_statfs sb buf sb')
  then show ?case using kr_statfs_frame [of sb buf sb'] by (simp add: error_seen_def)
qed (auto simp: kr_error_frame kr_sync_fs_error kr_write_super_error kr_freeze_error kr_unfreeze_def
    kr_remount_error error_seen_rev error_seen_flags)

lemma super_steps_error: "(super_step k)\<^sup>*\<^sup>* sb sb' \<Longrightarrow> error_seen sb \<Longrightarrow> error_seen sb'"
  by (induction rule: rtranclp_induct) (auto dest: super_step_error)

lemma kr_put_super_error:
  assumes "kr_put_super k sb = Some e" "error_seen sb"
  shows "bit (es_state e) 1"
proof (cases "sb_rdonly sb")
  case True
  then show ?thesis using assms by (simp add: kr_put_super_def error_seen_def)
next
  case False
  then obtain sb1 where s: "kr_sync_super k (set_es_state (s_mount_state (sbi sb)) sb) = Some sb1" "e = es sb1"
    using assms(1) by (auto simp: kr_put_super_def split: bind_splits)
  then show ?thesis using kr_sync_super_frame(2) [OF s(1)] assms(2) by (simp add: error_seen_def)
qed

section \<open>One behaviour on errors\<close>

definition one_errors_opt :: "64 word \<Rightarrow> bool" where
  "one_errors_opt w =
     ((w AND KR_MOUNT_ERRORS_CONT \<noteq> 0 \<and> w AND KR_MOUNT_ERRORS_RO = 0 \<and> w AND KR_MOUNT_ERRORS_PANIC = 0) \<or>
      (w AND KR_MOUNT_ERRORS_CONT = 0 \<and> w AND KR_MOUNT_ERRORS_RO \<noteq> 0 \<and> w AND KR_MOUNT_ERRORS_PANIC = 0) \<or>
      (w AND KR_MOUNT_ERRORS_CONT = 0 \<and> w AND KR_MOUNT_ERRORS_RO = 0 \<and> w AND KR_MOUNT_ERRORS_PANIC \<noteq> 0))"

lemma flag_pushed64:
  "push_bit 0 1 = (1 :: 64 word)" "push_bit 1 1 = (2 :: 64 word)" "push_bit 2 1 = (4 :: 64 word)"
  "push_bit 3 1 = (8 :: 64 word)" "push_bit 4 1 = (0x10 :: 64 word)" "push_bit 5 1 = (0x20 :: 64 word)"
  "push_bit 6 1 = (0x40 :: 64 word)" "push_bit 7 1 = (0x80 :: 64 word)" "push_bit 8 1 = (0x100 :: 64 word)"
  "push_bit 9 1 = (0x200 :: 64 word)" "push_bit 16 1 = (0x10000 :: 64 word)" "push_bit 17 1 = (0x20000 :: 64 word)"
  "push_bit 18 1 = (0x40000 :: 64 word)" "push_bit 19 1 = (0x80000 :: 64 word)" "push_bit 20 1 = (0x100000 :: 64 word)"
  by (simp_all add: push_bit_eq_mult)

lemma test_flag64:
  fixes w :: "64 word"
  shows "w AND 1 = 0 \<longleftrightarrow> \<not> bit w 0" "w AND 2 = 0 \<longleftrightarrow> \<not> bit w 1" "w AND 4 = 0 \<longleftrightarrow> \<not> bit w 2"
    "w AND 8 = 0 \<longleftrightarrow> \<not> bit w 3" "w AND 0x10 = 0 \<longleftrightarrow> \<not> bit w 4" "w AND 0x20 = 0 \<longleftrightarrow> \<not> bit w 5"
    "w AND 0x40 = 0 \<longleftrightarrow> \<not> bit w 6" "w AND 0x80 = 0 \<longleftrightarrow> \<not> bit w 7" "w AND 0x100 = 0 \<longleftrightarrow> \<not> bit w 8"
    "w AND 0x200 = 0 \<longleftrightarrow> \<not> bit w 9" "w AND 0x10000 = 0 \<longleftrightarrow> \<not> bit w 16" "w AND 0x20000 = 0 \<longleftrightarrow> \<not> bit w 17"
    "w AND 0x40000 = 0 \<longleftrightarrow> \<not> bit w 18" "w AND 0x80000 = 0 \<longleftrightarrow> \<not> bit w 19" "w AND 0x100000 = 0 \<longleftrightarrow> \<not> bit w 20"
  unfolding and_flag [symmetric] flag_pushed64 by simp_all

lemma bit_pushed64: "bit (push_bit m 1 :: 64 word) n \<longleftrightarrow> n = m \<and> m < 64"
  unfolding bit_push_bit_iff bit_1_iff by auto

lemmas bit_flag64 = bit_pushed64 [where m = 0, unfolded flag_pushed64]
  bit_pushed64 [where m = 1, unfolded flag_pushed64] bit_pushed64 [where m = 2, unfolded flag_pushed64]
  bit_pushed64 [where m = 3, unfolded flag_pushed64] bit_pushed64 [where m = 4, unfolded flag_pushed64]
  bit_pushed64 [where m = 5, unfolded flag_pushed64] bit_pushed64 [where m = 6, unfolded flag_pushed64]
  bit_pushed64 [where m = 7, unfolded flag_pushed64] bit_pushed64 [where m = 8, unfolded flag_pushed64]
  bit_pushed64 [where m = 9, unfolded flag_pushed64] bit_pushed64 [where m = 16, unfolded flag_pushed64]
  bit_pushed64 [where m = 17, unfolded flag_pushed64] bit_pushed64 [where m = 18, unfolded flag_pushed64]
  bit_pushed64 [where m = 19, unfolded flag_pushed64] bit_pushed64 [where m = 20, unfolded flag_pushed64]

lemma bit_set_opt: "bit (set_opt w x) n \<longleftrightarrow> bit w n \<or> bit x n"
  by (simp add: set_opt_def bit_or_iff)

lemma bit_clear_opt: "bit (clear_opt w x) n \<longleftrightarrow> bit w n \<and> \<not> bit x n"
  by (auto simp: clear_opt_def bit_and_iff bit_not_iff dest: bit_imp_le_length)

lemma mount_opt_simps [simp]:
  "s_mount_opt (set_mount_opt x si) = set_opt (s_mount_opt si) x"
  "s_mount_opt (clear_mount_opt x si) = clear_opt (s_mount_opt si) x"
  by (simp_all add: set_mount_opt_def clear_mount_opt_def)

lemma bit_set_flag:
  fixes w :: "64 word"
  shows
    "bit (set_opt w 1) n \<longleftrightarrow> n = 0 \<or> bit w n"
    "bit (set_opt w 2) n \<longleftrightarrow> n = 1 \<or> bit w n"
    "bit (set_opt w 4) n \<longleftrightarrow> n = 2 \<or> bit w n"
    "bit (set_opt w 8) n \<longleftrightarrow> n = 3 \<or> bit w n"
    "bit (set_opt w 0x10) n \<longleftrightarrow> n = 4 \<or> bit w n"
    "bit (set_opt w 0x20) n \<longleftrightarrow> n = 5 \<or> bit w n"
    "bit (set_opt w 0x40) n \<longleftrightarrow> n = 6 \<or> bit w n"
    "bit (set_opt w 0x80) n \<longleftrightarrow> n = 7 \<or> bit w n"
    "bit (set_opt w 0x100) n \<longleftrightarrow> n = 8 \<or> bit w n"
    "bit (set_opt w 0x200) n \<longleftrightarrow> n = 9 \<or> bit w n"
    "bit (set_opt w 0x10000) n \<longleftrightarrow> n = 16 \<or> bit w n"
    "bit (set_opt w 0x20000) n \<longleftrightarrow> n = 17 \<or> bit w n"
    "bit (set_opt w 0x40000) n \<longleftrightarrow> n = 18 \<or> bit w n"
    "bit (set_opt w 0x80000) n \<longleftrightarrow> n = 19 \<or> bit w n"
    "bit (set_opt w 0x100000) n \<longleftrightarrow> n = 20 \<or> bit w n"
  unfolding bit_set_opt bit_flag64 by auto

lemma bit_clear_flag:
  fixes w :: "64 word"
  shows
    "bit (clear_opt w 1) n \<longleftrightarrow> n \<noteq> 0 \<and> bit w n"
    "bit (clear_opt w 2) n \<longleftrightarrow> n \<noteq> 1 \<and> bit w n"
    "bit (clear_opt w 4) n \<longleftrightarrow> n \<noteq> 2 \<and> bit w n"
    "bit (clear_opt w 8) n \<longleftrightarrow> n \<noteq> 3 \<and> bit w n"
    "bit (clear_opt w 0x10) n \<longleftrightarrow> n \<noteq> 4 \<and> bit w n"
    "bit (clear_opt w 0x20) n \<longleftrightarrow> n \<noteq> 5 \<and> bit w n"
    "bit (clear_opt w 0x40) n \<longleftrightarrow> n \<noteq> 6 \<and> bit w n"
    "bit (clear_opt w 0x80) n \<longleftrightarrow> n \<noteq> 7 \<and> bit w n"
    "bit (clear_opt w 0x100) n \<longleftrightarrow> n \<noteq> 8 \<and> bit w n"
    "bit (clear_opt w 0x200) n \<longleftrightarrow> n \<noteq> 9 \<and> bit w n"
    "bit (clear_opt w 0x10000) n \<longleftrightarrow> n \<noteq> 16 \<and> bit w n"
    "bit (clear_opt w 0x20000) n \<longleftrightarrow> n \<noteq> 17 \<and> bit w n"
    "bit (clear_opt w 0x40000) n \<longleftrightarrow> n \<noteq> 18 \<and> bit w n"
    "bit (clear_opt w 0x80000) n \<longleftrightarrow> n \<noteq> 19 \<and> bit w n"
    "bit (clear_opt w 0x100000) n \<longleftrightarrow> n \<noteq> 20 \<and> bit w n"
  unfolding bit_clear_opt bit_flag64 by auto

lemmas mount_bits = bit_set_flag bit_clear_flag test_flag64

lemma one_errors_opt_bits:
  "one_errors_opt w \<longleftrightarrow> (bit w 4 \<and> \<not> bit w 5 \<and> \<not> bit w 6) \<or> (\<not> bit w 4 \<and> bit w 5 \<and> \<not> bit w 6) \<or>
     (\<not> bit w 4 \<and> \<not> bit w 5 \<and> bit w 6)"
  unfolding one_errors_opt_def test_flag64 by simp

text \<open>The bits of the mount options that a token sets and clears.\<close>

fun token_sets :: "parser \<Rightarrow> token \<Rightarrow> nat set" where
  "token_sets ps Opt_minix_df = {7}" | "token_sets ps Opt_grpid = {2}" | "token_sets ps Opt_err_panic = {6}"
| "token_sets ps Opt_err_ro = {5}" | "token_sets ps Opt_err_cont = {4}" | "token_sets ps Opt_nouid32 = {9}"
| "token_sets ps Opt_debug = {3}" | "token_sets ps Opt_oldalloc = {1}" | "token_sets ps Opt_nobh = {8}"
| "token_sets ps Opt_xip = {16}" | "token_sets ps Opt_reservation = {19}"
| "token_sets ps Opt_quota = (if p_config_quota ps then {17} else {})"
| "token_sets ps Opt_usrquota = (if p_config_quota ps then {17} else {})"
| "token_sets ps Opt_grpquota = (if p_config_quota ps then {18} else {})"
| "token_sets ps t = {}"

fun token_clears :: "token \<Rightarrow> nat set" where
  "token_clears Opt_bsd_df = {7}" | "token_clears Opt_nogrpid = {2}" | "token_clears Opt_err_panic = {4, 5}"
| "token_clears Opt_err_ro = {4, 6}" | "token_clears Opt_err_cont = {5, 6}" | "token_clears Opt_nocheck = {0}"
| "token_clears Opt_orlov = {1}" | "token_clears Opt_noreservation = {19}"
| "token_clears t = {}"

lemma parse_token_bit:
  "parse_token ps t arg si = Some si' \<Longrightarrow>
   bit (s_mount_opt si') n \<longleftrightarrow> n \<in> token_sets ps t \<or> bit (s_mount_opt si) n \<and> n \<notin> token_clears t"
  by (cases t) (auto simp: mount_bits split: bind_splits if_splits)

lemma token_errors: "one_errors_opt w \<Longrightarrow> \<forall>n. bit w' n \<longleftrightarrow> n \<in> token_sets ps t \<or> bit w n \<and> n \<notin> token_clears t \<Longrightarrow>
    one_errors_opt w'"
  by (cases t) (auto simp: one_errors_opt_bits)

lemma parse_token_bits:
  assumes "parse_token ps t arg si = Some si'"
  shows "one_errors_opt (s_mount_opt si) \<Longrightarrow> one_errors_opt (s_mount_opt si')"
    "bit (s_mount_opt si') 20 = bit (s_mount_opt si) 20"
proof -
  show "one_errors_opt (s_mount_opt si) \<Longrightarrow> one_errors_opt (s_mount_opt si')"
    using token_errors [of "s_mount_opt si" "s_mount_opt si'" ps t] parse_token_bit [OF assms] by blast
  have "20 \<notin> token_sets ps t" "20 \<notin> token_clears t" by (cases t; simp)+
  then show "bit (s_mount_opt si') 20 = bit (s_mount_opt si) 20" using parse_token_bit [OF assms] by simp
qed

section \<open>Options shown and parsed again\<close>

text \<open>The documented behaviour of the kernel's parser on the strings that are shown.\<close>

definition parser_ok :: "parser \<Rightarrow> bool" where
  "parser_ok ps =
     ((\<forall>(t, pat) \<in> set tokens. case pat of None \<Rightarrow> True
        | Some s \<Rightarrow> CHR ''%'' \<in> set s \<or> fst (p_match_token ps s tokens) = t) \<and>
      (\<forall>n. p_match_token ps (''resuid='' @ decimal_nat n) tokens = (Opt_resuid, decimal_nat n) \<and>
           p_match_token ps (''resgid='' @ decimal_nat n) tokens = (Opt_resgid, decimal_nat n) \<and>
           p_match_token ps (''sb='' @ decimal_nat n) tokens = (Opt_sb, decimal_nat n) \<and>
           (int n < 2147483648 \<longrightarrow> p_match_int ps (decimal_nat n) = Some (int n)) \<and>
           p_make_kuid ps (int n) = Some (word_of_int (int n)) \<and>
           p_make_kgid ps (int n) = Some (word_of_int (int n))))"

fun parse_pieces :: "parser \<Rightarrow> string list \<Rightarrow> kr_sb_info \<Rightarrow> kr_sb_info option" where
  "parse_pieces ps [] si = Some si"
| "parse_pieces ps (p # xs) si =
     (case p_match_token ps p tokens of (t, arg) \<Rightarrow>
        do { si1 \<leftarrow> parse_token ps t arg si; parse_pieces ps xs si1 })"

definition piece :: "string \<Rightarrow> bool" where
  "piece s = (s \<noteq> [] \<and> CHR '','' \<notin> set s)"

abbreviation comma_list :: "string list \<Rightarrow> string" where
  "comma_list xs \<equiv> concat (map (\<lambda>s. CHR '','' # s) xs)"

lemma strsep_piece:
  "CHR '','' \<notin> set s \<Longrightarrow>
   strsep (s @ comma_list xs) = (s, case xs of [] \<Rightarrow> None | x # ys \<Rightarrow> Some (x @ comma_list ys))"
  by (induction s) (auto split: list.splits)

lemma parse_loop_pieces:
  assumes "\<forall>x \<in> set xs. piece x" "piece s" "parse_pieces ps (s # xs) si = Some si'"
  shows "parse_loop ps (Some (s @ comma_list xs)) si = (True, si')"
  using assms
proof (induction xs arbitrary: s si)
  case Nil
  then show ?case using strsep_piece [of s "[]"]
    by (auto simp: piece_def split: prod.splits bind_splits)
next
  case (Cons x xs)
  obtain t arg where t: "p_match_token ps s tokens = (t, arg)" by fastforce
  obtain si1 where 1: "parse_token ps t arg si = Some si1" and 2: "parse_pieces ps (x # xs) si1 = Some si'"
    using Cons.prems(3) t by (auto split: bind_splits)
  have "parse_loop ps (Some (x @ comma_list xs)) si1 = (True, si')"
    using Cons.prems(1) 2 by (intro Cons.IH) auto
  moreover have "strsep (s @ comma_list (x # xs)) = (s, Some (x @ comma_list xs))"
    using strsep_piece [of s "x # xs"] Cons.prems(2) by (simp add: piece_def)
  ultimately show ?case using t 1 Cons.prems(2) by (simp add: piece_def)
qed

lemma parse_loop_comma_list:
  assumes "\<forall>x \<in> set xs. piece x" "parse_pieces ps xs si = Some si'"
  shows "parse_loop ps (Some (comma_list xs)) si = (True, si')"
proof (cases xs)
  case Nil
  then show ?thesis using assms by simp
next
  case (Cons x ys)
  then have "parse_loop ps (Some (x @ comma_list ys)) si = (True, si')"
    using assms by (intro parse_loop_pieces) auto
  then show ?thesis using Cons by simp
qed

lemma decimal_nat_piece: "CHR '','' \<notin> set (decimal_nat n)"
proof (induction n rule: decimal_nat.induct)
  case (1 n)
  have "CHR '','' \<noteq> char_of (48 + m)" if "m < 10" for m :: nat
  proof -
    have "(of_char (char_of (48 + m) :: char) :: nat) = 48 + m" using that by simp
    moreover have "(of_char CHR '','' :: nat) = 44" by code_simp
    ultimately have "(of_char CHR '','' :: nat) \<noteq> of_char (char_of (48 + m) :: char)" by linarith
    then show ?thesis by metis
  qed
  then show ?case using 1 by (subst decimal_nat.simps) auto
qed

lemma parse_pieces_append:
  "parse_pieces ps (xs @ ys) si = do { si1 \<leftarrow> parse_pieces ps xs si; parse_pieces ps ys si1 }"
  by (induction xs arbitrary: si) (auto split: prod.splits bind_splits)

lemma shown_literal:
  assumes "parser_ok ps" "(t, Some s) \<in> set tokens" "CHR ''%'' \<notin> set s"
  obtains arg where "p_match_token ps s tokens = (t, arg)"
proof -
  have "fst (p_match_token ps s tokens) = t" using assms by (fastforce simp: parser_ok_def)
  then show thesis using that by (metis prod.collapse)
qed

lemma parse_when:
  assumes "parser_ok ps" "(t, Some s) \<in> set tokens" "CHR ''%'' \<notin> set s"
    and "\<And>arg. parse_token ps t arg si = Some (f si)"
  shows "parse_pieces ps (opt_when c s) si = Some (if c then f si else si)"
proof -
  obtain arg where "p_match_token ps s tokens = (t, arg)" using shown_literal [OF assms(1-3)] .
  then show ?thesis using assms(4) by (simp add: opt_when_def)
qed

lemma parse_when_number:
  assumes "parser_ok ps"
  shows "parse_pieces ps (opt_when c (''sb='' @ decimal i)) si = Some si"
    "uint (w :: 32 word) < 2147483648 \<Longrightarrow>
     parse_pieces ps (opt_when c (''resuid='' @ decimal (uint w))) si = Some (if c then si\<lparr>s_resuid := w\<rparr> else si)"
    "uint (w :: 32 word) < 2147483648 \<Longrightarrow>
     parse_pieces ps (opt_when c (''resgid='' @ decimal (uint w))) si = Some (if c then si\<lparr>s_resgid := w\<rparr> else si)"
proof -
  have n: "p_match_token ps (''resuid='' @ decimal_nat n) tokens = (Opt_resuid, decimal_nat n)"
    "p_match_token ps (''resgid='' @ decimal_nat n) tokens = (Opt_resgid, decimal_nat n)"
    "p_match_token ps (''sb='' @ decimal_nat n) tokens = (Opt_sb, decimal_nat n)"
    "int n < 2147483648 \<Longrightarrow> p_match_int ps (decimal_nat n) = Some (int n)"
    "p_make_kuid ps (int n) = Some (word_of_int (int n))"
    "p_make_kgid ps (int n) = Some (word_of_int (int n))" for n
    using assms unfolding parser_ok_def by blast+
  show "parse_pieces ps (opt_when c (''sb='' @ decimal i)) si = Some si"
    using n(3) by (simp add: opt_when_def decimal_def)
  assume w: "uint w < 2147483648"
  have u: "p_match_int ps (decimal (uint w)) = Some (uint w)" using n(4) [of "nat (uint w)"] w by (simp add: decimal_def)
  show "parse_pieces ps (opt_when c (''resuid='' @ decimal (uint w))) si = Some (if c then si\<lparr>s_resuid := w\<rparr> else si)"
    using n(1) [of "nat (uint w)"] n(5) [of "nat (uint w)"] u by (simp add: opt_when_def decimal_def)
  show "parse_pieces ps (opt_when c (''resgid='' @ decimal (uint w))) si = Some (if c then si\<lparr>s_resgid := w\<rparr> else si)"
    using n(2) [of "nat (uint w)"] n(6) [of "nat (uint w)"] u by (simp add: opt_when_def decimal_def)
qed

definition set_errors :: "64 word \<Rightarrow> 64 word \<Rightarrow> 64 word \<Rightarrow> kr_sb_info \<Rightarrow> kr_sb_info" where
  "set_errors a b c si = set_mount_opt a (clear_mount_opt b (clear_mount_opt c si))"

lemma parse_when_opt:
  assumes "parser_ok ps"
  shows
    "parse_pieces ps (opt_when c ''minixdf'') si = Some (if c then set_mount_opt KR_MOUNT_MINIX_DF si else si)"
    "parse_pieces ps (opt_when c ''grpid'') si = Some (if c then set_mount_opt KR_MOUNT_GRPID si else si)"
    "parse_pieces ps (opt_when c ''nogrpid'') si = Some (if c then clear_mount_opt KR_MOUNT_GRPID si else si)"
    "parse_pieces ps (opt_when c ''errors=remount-ro'') si = Some (if c then set_errors KR_MOUNT_ERRORS_RO KR_MOUNT_ERRORS_PANIC KR_MOUNT_ERRORS_CONT si else si)"
    "parse_pieces ps (opt_when c ''errors=continue'') si = Some (if c then set_errors KR_MOUNT_ERRORS_CONT KR_MOUNT_ERRORS_PANIC KR_MOUNT_ERRORS_RO si else si)"
    "parse_pieces ps (opt_when c ''errors=panic'') si = Some (if c then set_errors KR_MOUNT_ERRORS_PANIC KR_MOUNT_ERRORS_RO KR_MOUNT_ERRORS_CONT si else si)"
    "parse_pieces ps (opt_when c ''nouid32'') si = Some (if c then set_mount_opt KR_MOUNT_NO_UID32 si else si)"
    "parse_pieces ps (opt_when c ''debug'') si = Some (if c then set_mount_opt KR_MOUNT_DEBUG si else si)"
    "parse_pieces ps (opt_when c ''oldalloc'') si = Some (if c then set_mount_opt KR_MOUNT_OLDALLOC si else si)"
    "parse_pieces ps (opt_when c ''nobh'') si = Some (if c then set_mount_opt KR_MOUNT_NOBH si else si)"
    "parse_pieces ps (opt_when c ''noreservation'') si = Some (if c then clear_mount_opt KR_MOUNT_RESERVATION si else si)"
proof -
  note w = parse_when [OF assms]
  show "parse_pieces ps (opt_when c ''minixdf'') si = Some (if c then set_mount_opt KR_MOUNT_MINIX_DF si else si)"
    by (rule w [where t = Opt_minix_df]) (simp_all add: tokens_def set_errors_def)
  show "parse_pieces ps (opt_when c ''grpid'') si = Some (if c then set_mount_opt KR_MOUNT_GRPID si else si)"
    by (rule w [where t = Opt_grpid]) (simp_all add: tokens_def set_errors_def)
  show "parse_pieces ps (opt_when c ''nogrpid'') si = Some (if c then clear_mount_opt KR_MOUNT_GRPID si else si)"
    by (rule w [where t = Opt_nogrpid]) (simp_all add: tokens_def set_errors_def)
  show "parse_pieces ps (opt_when c ''errors=remount-ro'') si = Some (if c then set_errors KR_MOUNT_ERRORS_RO KR_MOUNT_ERRORS_PANIC KR_MOUNT_ERRORS_CONT si else si)"
    by (rule w [where t = Opt_err_ro]) (simp_all add: tokens_def set_errors_def)
  show "parse_pieces ps (opt_when c ''errors=continue'') si = Some (if c then set_errors KR_MOUNT_ERRORS_CONT KR_MOUNT_ERRORS_PANIC KR_MOUNT_ERRORS_RO si else si)"
    by (rule w [where t = Opt_err_cont]) (simp_all add: tokens_def set_errors_def)
  show "parse_pieces ps (opt_when c ''errors=panic'') si = Some (if c then set_errors KR_MOUNT_ERRORS_PANIC KR_MOUNT_ERRORS_RO KR_MOUNT_ERRORS_CONT si else si)"
    by (rule w [where t = Opt_err_panic]) (simp_all add: tokens_def set_errors_def)
  show "parse_pieces ps (opt_when c ''nouid32'') si = Some (if c then set_mount_opt KR_MOUNT_NO_UID32 si else si)"
    by (rule w [where t = Opt_nouid32]) (simp_all add: tokens_def set_errors_def)
  show "parse_pieces ps (opt_when c ''debug'') si = Some (if c then set_mount_opt KR_MOUNT_DEBUG si else si)"
    by (rule w [where t = Opt_debug]) (simp_all add: tokens_def set_errors_def)
  show "parse_pieces ps (opt_when c ''oldalloc'') si = Some (if c then set_mount_opt KR_MOUNT_OLDALLOC si else si)"
    by (rule w [where t = Opt_oldalloc]) (simp_all add: tokens_def set_errors_def)
  show "parse_pieces ps (opt_when c ''nobh'') si = Some (if c then set_mount_opt KR_MOUNT_NOBH si else si)"
    by (rule w [where t = Opt_nobh]) (simp_all add: tokens_def set_errors_def)
  show "parse_pieces ps (opt_when c ''noreservation'') si = Some (if c then clear_mount_opt KR_MOUNT_RESERVATION si else si)"
    by (rule w [where t = Opt_noreservation]) (simp_all add: tokens_def set_errors_def)
qed

lemma parse_when_quota:
  assumes "parser_ok ps" "c \<Longrightarrow> p_config_quota ps"
  shows "parse_pieces ps (opt_when c ''usrquota'') si = Some (if c then set_mount_opt KR_MOUNT_USRQUOTA si else si)"
    "parse_pieces ps (opt_when c ''grpquota'') si = Some (if c then set_mount_opt KR_MOUNT_GRPQUOTA si else si)"
proof -
  obtain u where u: "p_match_token ps ''usrquota'' tokens = (Opt_usrquota, u)"
    by (rule shown_literal [OF assms(1), of Opt_usrquota "''usrquota''"]) (simp_all add: tokens_def)
  obtain g where "p_match_token ps ''grpquota'' tokens = (Opt_grpquota, g)"
    by (rule shown_literal [OF assms(1), of Opt_grpquota "''grpquota''"]) (simp_all add: tokens_def)
  then show "parse_pieces ps (opt_when c ''usrquota'') si = Some (if c then set_mount_opt KR_MOUNT_USRQUOTA si else si)"
    "parse_pieces ps (opt_when c ''grpquota'') si = Some (if c then set_mount_opt KR_MOUNT_GRPQUOTA si else si)"
    using u assms(2) by (simp_all add: opt_when_def)
qed

text \<open>What is known of options that were parsed from the defaults.\<close>

definition opts_from_default :: "parser \<Rightarrow> 64 word \<Rightarrow> 64 word \<Rightarrow> bool" where
  "opts_from_default ps d w =
     ((\<forall>n. bit w n \<longrightarrow> n \<in> {1, 2, 3, 4, 5, 6, 7, 8, 9, 16, 17, 18, 19}) \<and> one_errors_opt w \<and>
      (bit d 3 \<longrightarrow> bit w 3) \<and> (bit d 9 \<longrightarrow> bit w 9) \<and> (\<not> p_config_quota ps \<longrightarrow> \<not> bit w 17 \<and> \<not> bit w 18))"

lemma token_sets_known: "token_sets ps t \<subseteq> {1, 2, 3, 4, 5, 6, 7, 8, 9, 16, 17, 18, 19}"
  by (cases t) auto

lemma token_clears_not: "3 \<notin> token_clears t" "9 \<notin> token_clears t"
  by (cases t; simp)+

lemma token_sets_quota: "\<not> p_config_quota ps \<Longrightarrow> 17 \<notin> token_sets ps t \<and> 18 \<notin> token_sets ps t"
  by (cases t) auto

lemma parse_token_from_default:
  assumes "parse_token ps t arg si = Some si'" "opts_from_default ps d (s_mount_opt si)"
  shows "opts_from_default ps d (s_mount_opt si')"
proof -
  note b = parse_token_bit [OF assms(1)]
  have o: "one_errors_opt (s_mount_opt si')"
    using parse_token_bits(1) [OF assms(1)] assms(2) by (simp add: opts_from_default_def)
  have "\<forall>n. bit (s_mount_opt si') n \<longrightarrow> n \<in> {1, 2, 3, 4, 5, 6, 7, 8, 9, 16, 17, 18, 19}"
    using assms(2) token_sets_known [of ps t] unfolding b opts_from_default_def by blast
  then show ?thesis
    using o assms(2) token_clears_not [of t] token_sets_quota [of ps t] unfolding opts_from_default_def b by blast
qed

lemma test_flag_zero:
  fixes w :: "32 word"
  shows "w AND 1 = 0 \<longleftrightarrow> \<not> bit w 0" "w AND 2 = 0 \<longleftrightarrow> \<not> bit w 1" "w AND 0x10 = 0 \<longleftrightarrow> \<not> bit w 4"
  unfolding and_flag [symmetric] flag_pushed by simp_all

lemma default_options_bits:
  assumes "s_mount_opt si = 0"
  shows "bit (s_mount_opt (default_options e si)) n \<longleftrightarrow>
     (n = 3 \<and> bit (es_default_mount_opts e) 0) \<or> (n = 2 \<and> bit (es_default_mount_opts e) 1) \<or>
     (n = 9 \<and> bit (es_default_mount_opts e) 4) \<or>
     (n = 6 \<and> es_errors e = KR_ERRORS_PANIC) \<or> (n = 4 \<and> es_errors e = KR_ERRORS_CONTINUE) \<or>
     (n = 5 \<and> es_errors e \<noteq> KR_ERRORS_PANIC \<and> es_errors e \<noteq> KR_ERRORS_CONTINUE) \<or> n = 19"
  unfolding default_options_def Let_def
  by (simp add: mount_bits test_flag_zero assms(1) if_distrib [of s_mount_opt] if_distrib [of "\<lambda>w. bit w n"])
    (intro conjI impI; blast)

lemma default_options_from_default:
  assumes "s_mount_opt si = 0"
  shows "opts_from_default ps (s_mount_opt (default_options e si)) (s_mount_opt (default_options e si))"
  unfolding opts_from_default_def one_errors_opt_bits default_options_bits [OF assms] by auto

lemma default_options_frame:
  "without_opts (default_options e si) = without_opts si" "s_resuid (default_options e si) = ucast (es_def_resuid e)"
  "s_resgid (default_options e si) = ucast (es_def_resgid e)"
  by (simp_all add: default_options_def without_opts_def set_mount_opt_def Let_def)

definition opt_if :: "bool \<Rightarrow> (kr_sb_info \<Rightarrow> kr_sb_info) \<Rightarrow> kr_sb_info \<Rightarrow> kr_sb_info" where
  "opt_if c f si = (if c then f si else si)"

text \<open>The options after the shown ones are parsed, starting from \<open>d\<close>.\<close>

definition shown_options :: "parser \<Rightarrow> super_block \<Rightarrow> kr_sb_info \<Rightarrow> kr_sb_info" where
  "shown_options ps sb d =
     (let w = s_mount_opt (sbi sb); e = es sb; si = sbi sb in
      opt_if (\<not> bit w 19) (clear_mount_opt KR_MOUNT_RESERVATION)
      (opt_if (p_config_quota ps \<and> bit w 18) (set_mount_opt KR_MOUNT_GRPQUOTA)
      (opt_if (p_config_quota ps \<and> bit w 17) (set_mount_opt KR_MOUNT_USRQUOTA)
      (opt_if (bit w 8) (set_mount_opt KR_MOUNT_NOBH)
      (opt_if (bit w 1) (set_mount_opt KR_MOUNT_OLDALLOC)
      (opt_if (bit w 3) (set_mount_opt KR_MOUNT_DEBUG)
      (opt_if (bit w 9) (set_mount_opt KR_MOUNT_NO_UID32)
      (opt_if (bit w 6) (set_errors KR_MOUNT_ERRORS_PANIC KR_MOUNT_ERRORS_RO KR_MOUNT_ERRORS_CONT)
      (opt_if (bit w 4) (set_errors KR_MOUNT_ERRORS_CONT KR_MOUNT_ERRORS_PANIC KR_MOUNT_ERRORS_RO)
      (opt_if (bit w 5 \<and> (es_errors e = KR_ERRORS_PANIC \<or> es_errors e = KR_ERRORS_CONTINUE))
         (set_errors KR_MOUNT_ERRORS_RO KR_MOUNT_ERRORS_PANIC KR_MOUNT_ERRORS_CONT)
      (opt_if (s_resgid si \<noteq> 0 \<or> es_def_resgid e \<noteq> 0) (\<lambda>x. x\<lparr>s_resgid := s_resgid si\<rparr>)
      (opt_if (s_resuid si \<noteq> 0 \<or> es_def_resuid e \<noteq> 0) (\<lambda>x. x\<lparr>s_resuid := s_resuid si\<rparr>)
      (opt_if (\<not> bit w 2 \<and> bit (es_default_mount_opts e) 1) (clear_mount_opt KR_MOUNT_GRPID)
      (opt_if (bit w 2) (set_mount_opt KR_MOUNT_GRPID)
      (opt_if (bit w 7) (set_mount_opt KR_MOUNT_MINIX_DF) d)))))))))))))))"

lemma parse_shown:
  assumes "parser_ok ps" "uint (s_resuid (sbi sb)) < 2147483648" "uint (s_resgid (sbi sb)) < 2147483648"
  shows "parse_pieces ps (show_options_list ps sb) d = Some (shown_options ps sb d)"
  unfolding show_options_list_def shown_options_def Let_def opt_if_def test_opt_def
    parse_pieces_append parse_when_number(1) [OF assms(1)] bind.bind_lunit
    parse_when_number(2) [OF assms(1,2)] parse_when_number(3) [OF assms(1,3)]
    parse_when_opt [OF assms(1)] test_flag64 test_flag_zero not_not
  by (simp add: parse_when_quota [OF assms(1)])

lemma opt_if_bits:
  "bit (s_mount_opt (opt_if c (set_mount_opt x) si)) n \<longleftrightarrow> c \<and> bit x n \<or> bit (s_mount_opt si) n"
  "bit (s_mount_opt (opt_if c (clear_mount_opt x) si)) n \<longleftrightarrow> \<not> (c \<and> bit x n) \<and> bit (s_mount_opt si) n"
  "bit (s_mount_opt (opt_if c (set_errors x y z) si)) n \<longleftrightarrow>
     c \<and> bit x n \<or> \<not> (c \<and> (bit y n \<or> bit z n)) \<and> bit (s_mount_opt si) n"
  "s_mount_opt (opt_if c (\<lambda>s. s\<lparr>s_resuid := u\<rparr>) si) = s_mount_opt si"
  "s_mount_opt (opt_if c (\<lambda>s. s\<lparr>s_resgid := u\<rparr>) si) = s_mount_opt si"
  by (auto simp: opt_if_def set_errors_def bit_set_opt bit_clear_opt)

lemma opt_if_frame:
  "s_resuid (opt_if c (set_mount_opt x) si) = s_resuid si" "s_resuid (opt_if c (clear_mount_opt x) si) = s_resuid si"
  "s_resuid (opt_if c (set_errors x y z) si) = s_resuid si"
  "s_resgid (opt_if c (set_mount_opt x) si) = s_resgid si" "s_resgid (opt_if c (clear_mount_opt x) si) = s_resgid si"
  "s_resgid (opt_if c (set_errors x y z) si) = s_resgid si"
  "without_opts (opt_if c (set_mount_opt x) si) = without_opts si"
  "without_opts (opt_if c (clear_mount_opt x) si) = without_opts si"
  "without_opts (opt_if c (set_errors x y z) si) = without_opts si"
  "s_resuid (opt_if c (\<lambda>s. s\<lparr>s_resuid := u\<rparr>) si) = (if c then u else s_resuid si)"
  "s_resgid (opt_if c (\<lambda>s. s\<lparr>s_resuid := u\<rparr>) si) = s_resgid si"
  "s_resgid (opt_if c (\<lambda>s. s\<lparr>s_resgid := u\<rparr>) si) = (if c then u else s_resgid si)"
  "s_resuid (opt_if c (\<lambda>s. s\<lparr>s_resgid := u\<rparr>) si) = s_resuid si"
  "without_opts (opt_if c (\<lambda>s. s\<lparr>s_resuid := u\<rparr>) si) = without_opts si"
  "without_opts (opt_if c (\<lambda>s. s\<lparr>s_resgid := u\<rparr>) si) = without_opts si"
  by (simp_all add: opt_if_def set_errors_def set_mount_opt_def clear_mount_opt_def without_opts_def)

lemma opts_equalI:
  "without_opts a = without_opts b \<Longrightarrow> s_mount_opt a = s_mount_opt b \<Longrightarrow> s_resuid a = s_resuid b \<Longrightarrow>
   s_resgid a = s_resgid b \<Longrightarrow> a = (b :: kr_sb_info)"
  by (cases a; cases b) (simp add: without_opts_def)

lemma shown_options_bit:
  assumes d: "d = default_options (es sb) si0" "s_mount_opt si0 = 0"
    and w: "opts_from_default ps (s_mount_opt d) (s_mount_opt (sbi sb))"
  shows "bit (s_mount_opt (shown_options ps sb d)) n \<longleftrightarrow> n \<noteq> 16 \<and> bit (s_mount_opt (sbi sb)) n"
proof -
  let ?w = "s_mount_opt (sbi sb)"
  note D = default_options_bits [OF d(2), of "es sb", folded d(1)]
  have known: "n \<in> {1, 2, 3, 4, 5, 6, 7, 8, 9, 16, 17, 18, 19}" if "bit ?w n" for n
    using w that by (simp add: opts_from_default_def)
  have mono: "bit (s_mount_opt d) 3 \<longrightarrow> bit ?w 3" "bit (s_mount_opt d) 9 \<longrightarrow> bit ?w 9"
    "\<not> p_config_quota ps \<longrightarrow> \<not> bit ?w 17 \<and> \<not> bit ?w 18"
    using w by (simp_all add: opts_from_default_def)
  have one: "(bit ?w 4 \<and> \<not> bit ?w 5 \<and> \<not> bit ?w 6) \<or> (\<not> bit ?w 4 \<and> bit ?w 5 \<and> \<not> bit ?w 6) \<or>
     (\<not> bit ?w 4 \<and> \<not> bit ?w 5 \<and> bit ?w 6)"
    using w by (simp add: opts_from_default_def one_errors_opt_bits)
  note S = shown_options_def Let_def opt_if_bits bit_flag64
  consider "n \<in> {1, 2, 3, 7, 8, 9, 16, 17, 18, 19}" | "n \<in> {4, 5, 6}" | "n \<notin> {1, 2, 3, 4, 5, 6, 7, 8, 9, 16, 17, 18, 19}" by auto
  then show ?thesis
  proof cases
    case 1
    then show ?thesis unfolding S D using mono [unfolded D] by (elim insertE) auto
  next
    case 2
    then show ?thesis unfolding S D using one by (elim insertE) auto
  next
    case 3
    then have "\<not> bit ?w n" using known by blast
    then show ?thesis unfolding S D using 3 by simp
  qed
qed

lemma shown_options_eq:
  assumes d: "d = default_options (es sb) si0" "s_mount_opt si0 = 0"
    and w: "opts_from_default ps (s_mount_opt d) (s_mount_opt (sbi sb))"
    and f: "without_opts (sbi sb) = without_opts d"
  shows "shown_options ps sb d = clear_mount_opt KR_MOUNT_XIP (sbi sb)"
proof (rule opts_equalI)
  show "without_opts (shown_options ps sb d) = without_opts (clear_mount_opt KR_MOUNT_XIP (sbi sb))"
    using f by (simp add: shown_options_def Let_def opt_if_frame) (simp add: clear_mount_opt_def without_opts_def)
  show "s_mount_opt (shown_options ps sb d) = s_mount_opt (clear_mount_opt KR_MOUNT_XIP (sbi sb))"
    by (rule bit_eqI) (simp add: shown_options_bit [OF d w] mount_bits)
  show "s_resuid (shown_options ps sb d) = s_resuid (clear_mount_opt KR_MOUNT_XIP (sbi sb))"
    using default_options_frame(2) [of "es sb" si0, folded d(1)]
    by (simp add: shown_options_def Let_def opt_if_frame) (simp add: clear_mount_opt_def)
  show "s_resgid (shown_options ps sb d) = s_resgid (clear_mount_opt KR_MOUNT_XIP (sbi sb))"
    using default_options_frame(3) [of "es sb" si0, folded d(1)]
    by (simp add: shown_options_def Let_def opt_if_frame) (simp add: clear_mount_opt_def)
qed

lemma decimal_piece [simp]: "piece (''sb='' @ decimal i)" "piece (''resuid='' @ decimal i)" "piece (''resgid='' @ decimal i)"
  using decimal_nat_piece by (simp_all add: piece_def decimal_def)

lemma show_options_pieces: "\<forall>x \<in> set (show_options_list ps sb). piece x"
proof -
  have one: "(\<forall>x \<in> set (opt_when c s). piece x)" if "piece s" for c s using that by (simp add: opt_when_def)
  have lit: "piece ''minixdf''" "piece ''grpid''" "piece ''nogrpid''" "piece ''errors=remount-ro''"
    "piece ''errors=continue''" "piece ''errors=panic''" "piece ''nouid32''" "piece ''debug''" "piece ''oldalloc''"
    "piece ''nobh''" "piece ''usrquota''" "piece ''grpquota''" "piece ''noreservation''"
    by (simp_all add: piece_def)
  show ?thesis
    unfolding show_options_list_def Let_def set_append ball_Un
    by (intro conjI one lit decimal_piece)
qed

lemma show_parse:
  assumes p: "parser_ok ps" and d: "d = default_options (es sb) si0" "s_mount_opt si0 = 0"
    and l: "parse_loop ps data d = (True, sbi sb)"
    and u: "uint (s_resuid (sbi sb)) < 2147483648" "uint (s_resgid (sbi sb)) < 2147483648"
  shows "parse_loop ps (Some (kr_show_options ps sb)) d = (True, clear_mount_opt KR_MOUNT_XIP (sbi sb))"
proof -
  have w: "opts_from_default ps (s_mount_opt d) (s_mount_opt (sbi sb))"
  proof (rule parse_loop_inv [OF l, where P = "\<lambda>s. opts_from_default ps (s_mount_opt d) (s_mount_opt s)"])
    show "opts_from_default ps (s_mount_opt d) (s_mount_opt d)"
      using default_options_from_default [OF d(2)] by (simp add: d(1))
  qed (rule parse_token_from_default)
  have f: "without_opts (sbi sb) = without_opts d"
    by (rule parse_loop_inv [OF l, where P = "\<lambda>s. without_opts s = without_opts d"]) (auto dest: parse_token_frame)
  have "parse_pieces ps (show_options_list ps sb) d = Some (clear_mount_opt KR_MOUNT_XIP (sbi sb))"
    unfolding parse_shown [OF p u] shown_options_eq [OF d w f] ..
  then show ?thesis unfolding kr_show_options_def by (rule parse_loop_comma_list [OF show_options_pieces])
qed

end
