(* ===== verification/Kr_Bmap.thy ===== *)
theory Kr_Bmap
  imports Kr_New_Blocks
begin

text \<open>
  The block map of a file (\<^verbatim>\<open>inode.c\<close>, \<^verbatim>\<open>kr_block_to_path\<close> to \<^verbatim>\<open>kr_get_block\<close>): a tree of
  block pointers with its root in the inode, twelve direct pointers and one single, one double
  and one triple indirect block.

  A \<^verbatim>\<open>__le32 *\<close> into the tree is a \<open>slot\<close>: an entry of the inode's \<^verbatim>\<open>i_data\<close>, or an entry of
  an indirect block. The chain that the C code keeps in an array of \<^verbatim>\<open>Indirect\<close> is a list, and
  the pointer \<^verbatim>\<open>partial\<close> into it is the last element of the list. An access outside
  \<^verbatim>\<open>i_data\<close> or a buffer is \<^term>\<open>None\<close>.
\<close>

section \<open>Model: slots and chains\<close>

datatype slot = InodeSlot int | BlockSlot int int

record indirect =
  ind_p :: slot
  ind_key :: "32 word"
  ind_bh :: "int option"

fun slot_add :: "slot \<Rightarrow> int \<Rightarrow> slot" where
  "slot_add (InodeSlot i) n = InodeSlot (i + n)"
| "slot_add (BlockSlot b i) n = BlockSlot b (i + n)"

definition get_entry :: "32 word list \<Rightarrow> int \<Rightarrow> 32 word option" where
  "get_entry xs i = (if 0 \<le> i \<and> i < int (length xs) then Some (xs ! nat i) else None)"

definition set_entry :: "32 word list \<Rightarrow> int \<Rightarrow> 32 word \<Rightarrow> 32 word list option" where
  "set_entry xs i v = (if 0 \<le> i \<and> i < int (length xs) then Some (xs[nat i := v]) else None)"

fun read_slot :: "super_block \<Rightarrow> inode \<Rightarrow> slot \<Rightarrow> 32 word option" where
  "read_slot sb ino (InodeSlot i) = get_entry (i_data ino) i"
| "read_slot sb ino (BlockSlot b i) = get_entry (b_ind sb b) i"

fun write_slot :: "super_block \<Rightarrow> inode \<Rightarrow> slot \<Rightarrow> 32 word \<Rightarrow> (super_block \<times> inode) option" where
  "write_slot sb ino (InodeSlot i) v =
     do { d \<leftarrow> set_entry (i_data ino) i v; Some (sb, ino\<lparr>i_data := d\<rparr>) }"
| "write_slot sb ino (BlockSlot b i) v =
     do { d \<leftarrow> set_entry (b_ind sb b) i v; Some (sb\<lparr>b_ind := (b_ind sb)(b := d)\<rparr>, ino) }"

definition sb_bread :: "kernel \<Rightarrow> int \<Rightarrow> bool" where
  "sb_bread k b = (k_getblk k b \<and> (k_uptodate k b \<or> k_bread k b))"

definition add_chain :: "super_block \<Rightarrow> inode \<Rightarrow> int option \<Rightarrow> slot \<Rightarrow> indirect option" where
  "add_chain sb ino bh v = do { key \<leftarrow> read_slot sb ino v; Some \<lparr>ind_p = v, ind_key = key, ind_bh = bh\<rparr> }"

fun verify_chain :: "super_block \<Rightarrow> inode \<Rightarrow> indirect list \<Rightarrow> bool option" where
  "verify_chain sb ino [] = Some True"
| "verify_chain sb ino (c # cs) =
     do { v \<leftarrow> read_slot sb ino (ind_p c);
          if ind_key c = v then verify_chain sb ino cs else Some False }"

section \<open>Model: looking a block up\<close>

text \<open>The offsets, whose number is the depth, and \<^verbatim>\<open>*boundary\<close>.\<close>

definition kr_block_to_path :: "super_block \<Rightarrow> int \<Rightarrow> int list \<times> int" where
  "kr_block_to_path sb i_block =
     (let ptrs = s32 (KR_ADDR_PER_BLOCK sb);
          ptrs_bits = s_addr_per_block_bits (sbi sb);
          double_blocks = s32 (push_bit (ptrs_bits * 2) 1);
          result = (\<lambda>offsets final b. (offsets, s32 (final - 1 - (b AND (ptrs - 1)))))
      in
      if i_block < 0 then result [] 0 i_block
      else if i_block < KR_NDIR_BLOCKS then result [i_block] KR_NDIR_BLOCKS i_block
      else
        let b1 = i_block - KR_NDIR_BLOCKS in
        if b1 < ptrs then result [KR_IND_BLOCK, b1] ptrs b1
        else
          let b2 = b1 - ptrs in
          if b2 < double_blocks
          then result [KR_DIND_BLOCK, drop_bit ptrs_bits b2, b2 AND (ptrs - 1)] ptrs b2
          else
            let b3 = b2 - double_blocks in
            if drop_bit (ptrs_bits * 2) b3 < ptrs
            then result [KR_TIND_BLOCK, drop_bit (ptrs_bits * 2) b3,
                         drop_bit ptrs_bits b3 AND (ptrs - 1), b3 AND (ptrs - 1)] ptrs b3
            else result [] 0 b3)"

text \<open>
  \<^verbatim>\<open>kr_get_branch\<close> for the given offsets: whether the whole chain was found (the C code then
  returns a null pointer), the chain, and \<^verbatim>\<open>*err\<close>.
\<close>

fun get_branch_loop ::
  "kernel \<Rightarrow> super_block \<Rightarrow> inode \<Rightarrow> int list \<Rightarrow> indirect list \<Rightarrow> indirect \<Rightarrow>
   (bool \<times> indirect list \<times> errno option) option"
where
  "get_branch_loop k sb ino [] chain p = Some (True, chain, None)"
| "get_branch_loop k sb ino (off # offs) chain p =
     (let b = uint (ind_key p) in
      if \<not> sb_bread k b then Some (False, chain, Some EIO)
      else do {
        same \<leftarrow> verify_chain sb ino chain;
        if \<not> same then Some (False, chain, Some EAGAIN)
        else do {
          c \<leftarrow> add_chain sb ino (Some b) (BlockSlot b off);
          if ind_key c = 0 then Some (False, chain @ [c], None)
          else get_branch_loop k sb ino offs (chain @ [c]) c } })"

fun kr_get_branch ::
  "kernel \<Rightarrow> super_block \<Rightarrow> inode \<Rightarrow> int list \<Rightarrow> (bool \<times> indirect list \<times> errno option) option"
where
  "kr_get_branch k sb ino [] = None"
| "kr_get_branch k sb ino (off # offs) =
     do { c \<leftarrow> add_chain sb ino None (InodeSlot off);
          if ind_key c = 0 then Some (False, [c], None)
          else get_branch_loop k sb ino offs [c] c }"

section \<open>Model: where to allocate\<close>

fun prev_block :: "32 word list \<Rightarrow> nat \<Rightarrow> 32 word option" where
  "prev_block xs 0 = None"
| "prev_block xs (Suc n) = (if xs ! n \<noteq> 0 then Some (xs ! n) else prev_block xs n)"

definition kr_find_near :: "kernel \<Rightarrow> super_block \<Rightarrow> inode \<Rightarrow> indirect \<Rightarrow> int" where
  "kr_find_near k sb ino ind =
     (case (case ind_p ind of InodeSlot i \<Rightarrow> prev_block (i_data ino) (nat i)
            | BlockSlot b i \<Rightarrow> prev_block (b_ind sb b) (nat i)) of
        Some p \<Rightarrow> uint p
      | None \<Rightarrow>
          (case ind_bh ind of Some b \<Rightarrow> b
           | None \<Rightarrow>
               u64 (kr_group_first_block_no sb (uint (i_block_group ino)) +
                    u64 (c_mod (k_pid k) 16 * (KR_BLOCKS_PER_GROUP sb div 16)))))"

definition kr_find_goal :: "kernel \<Rightarrow> super_block \<Rightarrow> inode \<Rightarrow> int \<Rightarrow> indirect \<Rightarrow> int" where
  "kr_find_goal k sb ino block partial =
     (case i_block_alloc_info ino of
        Some block_i \<Rightarrow>
          if block = u32 (uint (last_alloc_logical_block block_i) + 1) \<and> last_alloc_physical_block block_i \<noteq> 0
          then u64 (last_alloc_physical_block block_i + 1)
          else kr_find_near k sb ino partial
      | None \<Rightarrow> kr_find_near k sb ino partial)"

text \<open>The loop that counts the absent pointers after the first; \<open>n\<close> bounds it by the boundary.\<close>

fun count_absent :: "super_block \<Rightarrow> inode \<Rightarrow> slot \<Rightarrow> int \<Rightarrow> nat \<Rightarrow> int \<Rightarrow> int option" where
  "count_absent sb ino p blks 0 count = Some count"
| "count_absent sb ino p blks (Suc n) count =
     (if count < blks then do {
        v \<leftarrow> read_slot sb ino (slot_add p count);
        if v = 0 then count_absent sb ino p blks n (count + 1) else Some count }
      else Some count)"

definition kr_blks_to_allocate ::
  "super_block \<Rightarrow> inode \<Rightarrow> indirect \<Rightarrow> int \<Rightarrow> int \<Rightarrow> int \<Rightarrow> int option" where
  "kr_blks_to_allocate sb ino branch indirect_blks blks blocks_to_boundary =
     (if 0 < indirect_blks
      then Some (s32 (if blks < u64 (s32 (blocks_to_boundary + 1)) then blks else u64 (s32 (blocks_to_boundary + 1))))
      else do {
        count \<leftarrow> count_absent sb ino (ind_p branch) blks (nat (u64 blocks_to_boundary)) 1;
        Some (s32 count) })"

section \<open>Model: allocating a branch\<close>

fun free_each :: "kernel \<Rightarrow> int list \<Rightarrow> super_block \<Rightarrow> inode \<Rightarrow> (super_block \<times> inode) option" where
  "free_each k [] sb ino = Some (sb, ino)"
| "free_each k (b # bs) sb ino = do { (sb1, ino1) \<leftarrow> kr_free_blocks k sb ino b 1; free_each k bs sb1 ino1 }"

text \<open>
  The \<^verbatim>\<open>while (1)\<close> of \<^verbatim>\<open>kr_alloc_blocks\<close>: \<open>got\<close> are the entries of \<^verbatim>\<open>new_blocks\<close> so far. The
  result is the error, or the numbers for the indirect blocks, the first data block and the
  number of data blocks.
\<close>

partial_function (option) alloc_blocks_loop ::
  "kernel \<Rightarrow> super_block \<Rightarrow> inode \<Rightarrow> int \<Rightarrow> int \<Rightarrow> nat \<Rightarrow> int list \<Rightarrow>
   ((errno + int list \<times> int \<times> int) \<times> super_block \<times> inode) option"
where
  "alloc_blocks_loop k sb ino goal target indirect_blks got =
     do { (res, sb1, ino1) \<leftarrow> kr_new_blocks k sb ino goal (u64 target);
          case res of
            Inl e \<Rightarrow> do { (sb2, ino2) \<leftarrow> free_each k got sb1 ino1; Some (Inl e, sb2, ino2) }
          | Inr (b, count) \<Rightarrow>
              let fill = min (indirect_blks - length got) (nat count);
                  got1 = got @ map (\<lambda>i. b + int i) [0..<fill];
                  rest = count - int fill
              in if 0 < rest then Some (Inr (got1, b + int fill, s32 rest), sb1, ino1)
                 else alloc_blocks_loop k sb1 ino1 goal (s32 (target - count)) indirect_blks got1 }"

declare alloc_blocks_loop.simps [code]

definition kr_alloc_blocks ::
  "kernel \<Rightarrow> super_block \<Rightarrow> inode \<Rightarrow> int \<Rightarrow> nat \<Rightarrow> int \<Rightarrow>
   ((errno + int list \<times> int \<times> int) \<times> super_block \<times> inode) option"
where
  "kr_alloc_blocks k sb ino goal indirect_blks blks =
     alloc_blocks_loop k sb ino goal (s32 (blks + int indirect_blks)) indirect_blks []"

text \<open>A fresh indirect block: \<open>vals\<close> from entry \<open>off\<close> on, and zero elsewhere.\<close>

fun write_entries :: "32 word list \<Rightarrow> int \<Rightarrow> 32 word list \<Rightarrow> 32 word list option" where
  "write_entries xs off [] = Some xs"
| "write_entries xs off (v # vs) = do { ys \<leftarrow> set_entry xs off v; write_entries ys (off + 1) vs }"

text \<open>
  The loop of \<^verbatim>\<open>kr_alloc_branch\<close> over the new indirect blocks \<open>inds\<close>, each of which gets the
  number of the next one, and the last those of the \<open>num\<close> data blocks. It gives the new
  part of the chain, or stops at a block for which there is no buffer.
\<close>

fun init_branch ::
  "kernel \<Rightarrow> super_block \<Rightarrow> int list \<Rightarrow> int list \<Rightarrow> int \<Rightarrow> int \<Rightarrow> ((errno + indirect list) \<times> super_block) option"
where
  "init_branch k sb [] offs first num = Some (Inr [], sb)"
| "init_branch k sb (b # bs) [] first num = None"
| "init_branch k sb (b # bs) (off # offs) first num =
     (if \<not> k_getblk k b then Some (Inl ENOMEM, sb)
      else
        let key = word_of_int (case bs of [] \<Rightarrow> first | b' # _ \<Rightarrow> b');
            vals = (case bs of [] \<Rightarrow> map (\<lambda>i. word_of_int (first + int i)) [0..<max 1 (nat num)] | _ \<Rightarrow> [key])
        in do {
          entries \<leftarrow> write_entries (replicate (nat (KR_ADDR_PER_BLOCK sb)) 0) off vals;
          (res, sb1) \<leftarrow> init_branch k (sb\<lparr>b_ind := (b_ind sb)(b := entries)\<rparr>) bs offs first num;
          Some (case res of Inl e \<Rightarrow> Inl e
                | Inr cs \<Rightarrow> Inr (\<lparr>ind_p = BlockSlot b off, ind_key = key, ind_bh = Some b\<rparr> # cs), sb1) })"

text \<open>The result is the error, or the completed chain from \<open>branch\<close> on and \<^verbatim>\<open>*blks\<close>.\<close>

definition kr_alloc_branch ::
  "kernel \<Rightarrow> super_block \<Rightarrow> inode \<Rightarrow> nat \<Rightarrow> int \<Rightarrow> int \<Rightarrow> int list \<Rightarrow> indirect \<Rightarrow>
   ((errno + indirect list \<times> int) \<times> super_block \<times> inode) option"
where
  "kr_alloc_branch k sb ino indirect_blks blks goal offsets branch =
     do { (res, sb1, ino1) \<leftarrow> kr_alloc_blocks k sb ino goal indirect_blks blks;
          case res of
            Inl e \<Rightarrow> Some (Inl e, sb1, ino1)
          | Inr (inds, first, num) \<Rightarrow> do {
              (res2, sb2) \<leftarrow> init_branch k sb1 inds (drop 1 offsets) first num;
              case res2 of
                Inr cs \<Rightarrow>
                  Some (Inr (branch\<lparr>ind_key := word_of_int (case inds of [] \<Rightarrow> first | b # _ \<Rightarrow> b)\<rparr> # cs, num),
                        sb2, ino1)
              | Inl e \<Rightarrow> do {
                  (sb3, ino3) \<leftarrow> free_each k inds sb2 ino1;
                  (sb4, ino4) \<leftarrow> kr_free_blocks k sb3 ino3 first num;
                  Some (Inl e, sb4, ino4) } } }"

text \<open>The loop that stores the numbers of \<open>n\<close> further data blocks after \<open>where\<close>.\<close>

fun splice_rest ::
  "super_block \<Rightarrow> inode \<Rightarrow> slot \<Rightarrow> nat \<Rightarrow> int \<Rightarrow> int \<Rightarrow> (super_block \<times> inode) option"
where
  "splice_rest sb ino p 0 i b = Some (sb, ino)"
| "splice_rest sb ino p (Suc n) i b =
     do { (sb1, ino1) \<leftarrow> write_slot sb ino (slot_add p i) (word_of_int b);
          splice_rest sb1 ino1 p n (i + 1) (b + 1) }"

definition kr_splice_branch ::
  "kernel \<Rightarrow> super_block \<Rightarrow> inode \<Rightarrow> int \<Rightarrow> indirect list \<Rightarrow> int \<Rightarrow> (super_block \<times> inode) option"
where
  "kr_splice_branch k sb ino block branch blks =
     (case branch of [] \<Rightarrow> None
      | w # ws \<Rightarrow> do {
          (sb1, ino1) \<leftarrow> write_slot sb ino (ind_p w) (ind_key w);
          (sb2, ino2) \<leftarrow>
            (if ws = [] \<and> 1 < blks then splice_rest sb1 ino1 (ind_p w) (nat (blks - 1)) 1 (uint (ind_key w) + 1)
             else Some (sb1, ino1));
          Some (sb2,
            ino2\<lparr>i_block_alloc_info :=
                   map_option (\<lambda>bi. bi\<lparr>last_alloc_logical_block := word_of_int (block + blks - 1),
                                       last_alloc_physical_block :=
                                         u32 (uint (ind_key (last branch)) + blks - 1)\<rparr>)
                     (i_block_alloc_info ino2),
                 i_ctime := k_now k\<rparr>) })"

section \<open>Model: mapping blocks\<close>

text \<open>The loop of \<^verbatim>\<open>kr_get_blocks\<close> that maps more blocks of a chain that was found.\<close>

fun map_more ::
  "super_block \<Rightarrow> inode \<Rightarrow> indirect list \<Rightarrow> int \<Rightarrow> int \<Rightarrow> nat \<Rightarrow> int \<Rightarrow> (int \<times> errno option) option"
where
  "map_more sb ino chain first_block maxblocks 0 count = Some (count, None)"
| "map_more sb ino chain first_block maxblocks (Suc n) count =
     (if count < maxblocks then do {
        same \<leftarrow> verify_chain sb ino chain;
        if \<not> same then Some (0, Some EAGAIN)
        else do {
          blk \<leftarrow> read_slot sb ino (slot_add (ind_p (last chain)) count);
          if uint blk = first_block + count then map_more sb ino chain first_block maxblocks n (count + 1)
          else Some (count, None) } }
      else Some (count, None))"

text \<open>What \<^verbatim>\<open>kr_get_blocks\<close> gives when it maps blocks: their number, the first, \<^verbatim>\<open>*new\<close>, \<^verbatim>\<open>*boundary\<close>.\<close>

record mapping_result =
  m_count :: int
  m_bno :: "32 word"
  m_new :: bool
  m_boundary :: bool

definition IS_DAX :: "inode \<Rightarrow> bool" where
  "IS_DAX ino = (vfs_flags ino AND S_DAX \<noteq> 0)"

text \<open>The label \<^verbatim>\<open>got_it\<close>.\<close>

definition got_it :: "int \<Rightarrow> int \<Rightarrow> indirect list \<Rightarrow> bool \<Rightarrow> errno + mapping_result option" where
  "got_it count blocks_to_boundary chain new =
     Inr (Some \<lparr>m_count = count, m_bno = ind_key (last chain), m_new = new,
                m_boundary = (blocks_to_boundary < count)\<rparr>)"

text \<open>The part of \<^verbatim>\<open>kr_get_blocks\<close> that allocates, with the chain up to the missing link.\<close>

definition get_blocks_alloc ::
  "kernel \<Rightarrow> super_block \<Rightarrow> inode \<Rightarrow> int \<Rightarrow> int \<Rightarrow> int list \<Rightarrow> int \<Rightarrow> indirect list \<Rightarrow>
   ((errno + mapping_result option) \<times> super_block \<times> inode) option"
where
  "get_blocks_alloc k sb0 ino0 iblock maxblocks offsets blocks_to_boundary chain =
     (let (sb, ino) = (if S_ISREG (i_mode ino0) \<and> i_block_alloc_info ino0 = None
                       then kr_init_block_alloc_info k sb0 ino0 else (sb0, ino0));
          partial = last chain;
          goal = kr_find_goal k sb ino iblock partial;
          indirect_blks = length offsets - length chain
      in do {
        count \<leftarrow> kr_blks_to_allocate sb ino partial (int indirect_blks) maxblocks blocks_to_boundary;
        (res, sb1, ino1) \<leftarrow>
          kr_alloc_branch k sb ino indirect_blks count goal (drop (length chain - 1) offsets) partial;
        case res of
          Inl e \<Rightarrow> Some (Inl e, sb1, ino1)
        | Inr (branch, num) \<Rightarrow>
            case (if IS_DAX ino1 then k_zeroout k (uint (ind_key (last branch))) num else None) of
              Some e \<Rightarrow> Some (Inl e, sb1, ino1)
            | None \<Rightarrow> do {
                (sb2, ino2) \<leftarrow> kr_splice_branch k sb1 ino1 iblock branch num;
                Some (got_it num blocks_to_boundary branch (\<not> IS_DAX ino1), sb2, ino2) } })"

definition kr_get_blocks ::
  "kernel \<Rightarrow> super_block \<Rightarrow> inode \<Rightarrow> int \<Rightarrow> int \<Rightarrow> bool \<Rightarrow>
   ((errno + mapping_result option) \<times> super_block \<times> inode) option"
where
  "kr_get_blocks k sb ino iblock maxblocks create =
     (if maxblocks = 0 then None
      else
        let (offsets, blocks_to_boundary) = kr_block_to_path sb iblock in
        if offsets = [] then Some (Inl EIO, sb, ino)
        else do {
          (found, chain, err) \<leftarrow> kr_get_branch k sb ino offsets;
          (count, err1) \<leftarrow>
            (if found then
               map_more sb ino chain (uint (ind_key (last chain))) maxblocks (nat blocks_to_boundary) 1
             else Some (0, err));
          if found \<and> err1 \<noteq> Some EAGAIN then Some (got_it count blocks_to_boundary chain False, sb, ino)
          else if \<not> create \<or> err1 = Some EIO
          then Some (case err1 of Some e \<Rightarrow> Inl e | None \<Rightarrow> Inr None, sb, ino)
          else do {
            same \<leftarrow> (if err1 = Some EAGAIN then Some False else verify_chain sb ino chain);
            if same then get_blocks_alloc k sb ino iblock maxblocks offsets blocks_to_boundary chain
            else do {
              (found2, chain2, err2) \<leftarrow> kr_get_branch k sb ino offsets;
              if found2 then
                (case err2 of
                   Some e \<Rightarrow> Some (Inl e, sb, ino)
                 | None \<Rightarrow> Some (got_it (count + 1) blocks_to_boundary chain2 False, sb, ino))
              else get_blocks_alloc k sb ino iblock maxblocks offsets blocks_to_boundary chain2 } } })"

text \<open>
  \<^verbatim>\<open>kr_get_block\<close>: the fields of \<^verbatim>\<open>bh_result\<close> it sets, if it maps the buffer: the block, the
  size and the two flags.
\<close>

definition kr_get_block ::
  "kernel \<Rightarrow> super_block \<Rightarrow> inode \<Rightarrow> int \<Rightarrow> int \<Rightarrow> bool \<Rightarrow>
   ((errno + (32 word \<times> int \<times> bool \<times> bool) option) \<times> super_block \<times> inode) option"
where
  "kr_get_block k sb ino iblock b_size create =
     do { (res, sb1, ino1) \<leftarrow>
            kr_get_blocks k sb ino iblock (u32 (drop_bit (s_blocksize_bits sb) b_size)) create;
          Some (case res of
              Inl e \<Rightarrow> Inl e
            | Inr None \<Rightarrow> Inr None
            | Inr (Some m) \<Rightarrow>
                Inr (Some (m_bno m, push_bit (s_blocksize_bits sb1) (m_count m), m_new m, m_boundary m)),
              sb1, ino1) }"

section \<open>Paths\<close>

text \<open>
  The block pointers of a file with \<open>p\<close> pointers per indirect block, and the block a path
  leads to.
\<close>

definition addr_ok :: "super_block \<Rightarrow> bool" where
  "addr_ok sb =
     (4 \<le> s_addr_per_block_bits (sbi sb) \<and> s_addr_per_block_bits (sbi sb) \<le> 15 \<and>
      KR_ADDR_PER_BLOCK sb = 2 ^ s_addr_per_block_bits (sbi sb))"

definition file_blocks :: "int \<Rightarrow> int" where
  "file_blocks p = KR_NDIR_BLOCKS + p + p * p + p * p * p"

fun path_block :: "int \<Rightarrow> int list \<Rightarrow> int" where
  "path_block p [i] = i"
| "path_block p [i, a] = KR_NDIR_BLOCKS + a"
| "path_block p [i, a, b] = KR_NDIR_BLOCKS + p + a * p + b"
| "path_block p [i, a, b, c] = KR_NDIR_BLOCKS + p + p * p + a * (p * p) + b * p + c"
| "path_block p path = - 1"

fun path_ok :: "int \<Rightarrow> int list \<Rightarrow> bool" where
  "path_ok p [i] = (0 \<le> i \<and> i < KR_NDIR_BLOCKS)"
| "path_ok p [i, a] = (i = KR_IND_BLOCK \<and> 0 \<le> a \<and> a < p)"
| "path_ok p [i, a, b] = (i = KR_DIND_BLOCK \<and> 0 \<le> a \<and> a < p \<and> 0 \<le> b \<and> b < p)"
| "path_ok p [i, a, b, c] =
     (i = KR_TIND_BLOCK \<and> 0 \<le> a \<and> a < p \<and> 0 \<le> b \<and> b < p \<and> 0 \<le> c \<and> c < p)"
| "path_ok p path = False"

lemma addr_okD:
  assumes "addr_ok sb"
  defines "p \<equiv> KR_ADDR_PER_BLOCK sb" and "n \<equiv> s_addr_per_block_bits (sbi sb)"
  shows "p = 2 ^ n" "16 \<le> p" "p \<le> 32768" "s32 p = p" "s32 (push_bit (n * 2) 1) = p * p"
    "drop_bit n x = x div p" "drop_bit (n * 2) x = x div (p * p)" "x AND (p - 1) = x mod p"
proof -
  show p: "p = 2 ^ n" using assms by (simp add: addr_ok_def)
  have "4 \<le> n" "n \<le> 15" using assms(1) by (simp_all add: addr_ok_def n_def)
  then have "(2::int) ^ 4 \<le> 2 ^ n" "(2::int) ^ n \<le> 2 ^ 15" by (simp_all only: power_increasing)+
  then show b: "16 \<le> p" "p \<le> 32768" by (simp_all add: p)
  then show "s32 p = p" by (intro s32_id) auto
  have pp: "p * p = 2 ^ (n * 2)" by (simp add: p mult_2_right power_add)
  have "p * p \<le> 32768 * 32768" using b by (intro mult_mono) auto
  moreover have "0 \<le> p * p" by simp
  ultimately have "s32 (p * p) = p * p" by (intro s32_id) linarith+
  then show "s32 (push_bit (n * 2) 1) = p * p" by (simp add: push_bit_eq_mult pp [symmetric])
  show "drop_bit n x = x div p" by (simp add: drop_bit_eq_div p)
  show "drop_bit (n * 2) x = x div (p * p)" by (simp add: drop_bit_eq_div pp)
  show "x AND (p - 1) = x mod p" by (simp add: p flip: take_bit_eq_mod mask_eq_exp_minus_1 take_bit_eq_mask)
qed

lemma div_lt: "0 < (p::int) \<Longrightarrow> x < a * p \<Longrightarrow> x div p < a"
proof (rule ccontr)
  assume p: "0 < p" "x < a * p" and "\<not> x div p < a"
  then have "a * p \<le> x div p * p" by (intro mult_right_mono) auto
  then show False using p(2) minus_mod_eq_div_mult [of x p] pos_mod_sign [OF p(1), of x] by linarith
qed

text \<open>The path of a block is well formed and leads back to the block.\<close>

lemma block_to_path_eq:
  assumes ok: "addr_ok sb" and b: "0 \<le> b" "b < file_blocks (KR_ADDR_PER_BLOCK sb)"
  defines "p \<equiv> KR_ADDR_PER_BLOCK sb" and "r \<equiv> kr_block_to_path sb b"
  shows "path_ok p (fst r)" "path_block p (fst r) = b"
    "snd r = (if b < KR_NDIR_BLOCKS then KR_NDIR_BLOCKS else p) - 1 - last (fst r)"
proof -
  note D = addr_okD [OF ok, folded p_def]
  let ?n = "s_addr_per_block_bits (sbi sb)"
  have sub: "s32 (c - 1 - x mod p) = c - 1 - x mod p" if "0 \<le> c" "c \<le> 32768" for c x
    using pos_mod_bound [of p x] pos_mod_sign [of p x] D(2,3) that by (intro s32_id) linarith+
  note eq = kr_block_to_path_def [of sb b, folded r_def, unfolded Let_def, folded p_def, unfolded D(4,5,6,7,8)]
  have P: "0 < p" "0 < p * p" using D(2) by auto
  consider (dir) "b < 12" | (ind) "12 \<le> b" "b - 12 < p" | (dind) "12 \<le> b" "\<not> b - 12 < p" "b - 12 - p < p * p"
    | (tind) "12 \<le> b" "\<not> b - 12 < p" "\<not> b - 12 - p < p * p" by linarith
  then have "path_ok p (fst r) \<and> path_block p (fst r) = b \<and>
     snd r = (if b < KR_NDIR_BLOCKS then KR_NDIR_BLOCKS else p) - 1 - last (fst r)"
  proof cases
    case dir
    have m: "b mod p = b" using dir b D(2) by simp
    then have "s32 (11 - b) = 11 - b" using sub [of 12 b] by simp
    then show ?thesis using dir b m by (simp add: eq)
  next
    case ind
    have "(b - 12) mod p = b - 12" using ind by simp
    then show ?thesis using ind b sub [of p "b - 12"] D(2,3) by (simp add: eq)
  next
    case dind
    define x where "x = b - 12 - p"
    have x: "0 \<le> x" "x < p * p" using dind by (simp_all add: x_def)
    have "0 \<le> x div p" "x div p < p" using x P div_lt [of p x p] by (simp_all add: pos_imp_zdiv_nonneg_iff)
    moreover have "x div p * p + x mod p = x" by simp
    ultimately show ?thesis using dind b sub [of p x] D(2,3) by (simp add: eq x_def [symmetric]) (simp add: x_def)
  next
    case tind
    define x where "x = b - 12 - p - p * p"
    have x: "0 \<le> x" "x < p * (p * p)" using tind b by (simp_all add: x_def file_blocks_def p_def [symmetric] algebra_simps)
    have q: "0 \<le> x div (p * p)" "x div (p * p) < p" using x P div_lt [of "p * p" x p] by (simp_all add: pos_imp_zdiv_nonneg_iff)
    have "x div p = x div (p * p) * p + x div p mod p"
      using zdiv_zmult2_eq [of p x p] P by simp
    then have "x = (x div (p * p) * p + x div p mod p) * p + x mod p"
      by (metis div_mult_mod_eq)
    then have "x div (p * p) * (p * p) + x div p mod p * p + x mod p = x" by (simp add: algebra_simps)
    then show ?thesis using tind b q sub [of p x] D(2,3) by (simp add: eq x_def [symmetric]) (simp add: x_def)
  qed
  then show "path_ok p (fst r)" "path_block p (fst r) = b"
    "snd r = (if b < KR_NDIR_BLOCKS then KR_NDIR_BLOCKS else p) - 1 - last (fst r)" by auto
qed

lemma block_to_path_out:
  assumes ok: "addr_ok sb" and b: "b < 0 \<or> file_blocks (KR_ADDR_PER_BLOCK sb) \<le> b"
  shows "fst (kr_block_to_path sb b) = []"
proof -
  let ?p = "KR_ADDR_PER_BLOCK sb"
  note D = addr_okD [OF ok]
  have "?p \<le> (b - 12 - ?p - ?p * ?p) div (?p * ?p)" if "file_blocks ?p \<le> b"
  proof -
    have "?p * (?p * ?p) \<le> b - 12 - ?p - ?p * ?p" using that by (simp add: file_blocks_def algebra_simps)
    then have "?p * (?p * ?p) div (?p * ?p) \<le> (b - 12 - ?p - ?p * ?p) div (?p * ?p)"
      using D(2) by (intro zdiv_mono1) auto
    then show ?thesis using D(2) by simp
  qed
  note big = this
  show ?thesis
  proof (cases "b < 0")
    case True
    then show ?thesis by (simp add: kr_block_to_path_def Let_def)
  next
    case False
    then have f: "file_blocks ?p \<le> b" using b by simp
    have "0 \<le> ?p * ?p" "0 \<le> ?p * ?p * ?p" using D(2) by auto
    then have "\<not> b < 12" "\<not> b - 12 < ?p" "\<not> b - 12 - ?p < ?p * ?p"
      using f D(2) unfolding file_blocks_def by linarith+
    then show ?thesis using False big [OF f] unfolding kr_block_to_path_def Let_def D(4,5,6,7,8) by simp
  qed
qed

text \<open>A block has one path only, and the next blocks up to the boundary differ in the last offset.\<close>

lemma block_to_path_block:
  assumes ok: "addr_ok sb" and q: "path_ok (KR_ADDR_PER_BLOCK sb) q"
  shows "fst (kr_block_to_path sb (path_block (KR_ADDR_PER_BLOCK sb) q)) = q"
proof -
  let ?p = "KR_ADDR_PER_BLOCK sb"
  note D = addr_okD [OF ok]
  have P: "0 < ?p" "0 < ?p * ?p" using D(2) by auto
  note eq = kr_block_to_path_def [unfolded Let_def, of sb, unfolded D(4,5,6,7,8)]
  have dm: "(a * ?p + b) div ?p = a" "(a * ?p + b) mod ?p = b" if "0 \<le> b" "b < ?p" for a b
    using that P by simp_all
  have small: "0 \<le> a * ?p" "a * ?p + b < ?p * ?p" if "0 \<le> a" "a < ?p" "0 \<le> b" "b < ?p" for a b
  proof -
    have "(a + 1) * ?p \<le> ?p * ?p" using that P by (intro mult_right_mono) auto
    then show "a * ?p + b < ?p * ?p" using that by (simp add: algebra_simps)
    show "0 \<le> a * ?p" using that P by simp
  qed
  from q show ?thesis
  proof (cases "(?p, q)" rule: path_ok.cases)
    case (3 p i a b)
    then have r: "i = 13" "0 \<le> a" "a < ?p" "0 \<le> b" "b < ?p" using q by auto
    have "0 \<le> a * ?p + b" using small(1) [of a b] r by linarith
    then have "\<not> a * ?p + b < 0" by simp
    then show ?thesis using small(2) [of a b] dm [of b a] r D(2) 3 r(1) by (simp add: eq)
  next
    case (4 p i a b c)
    then have r: "i = 14" "0 \<le> a" "a < ?p" "0 \<le> b" "b < ?p" "0 \<le> c" "c < ?p" using q by auto
    have q4: "q = [14, a, b, c]" using 4 r(1) by simp
    define y where "y = a * (?p * ?p) + b * ?p + c"
    have y: "y = (a * ?p + b) * ?p + c" by (simp add: y_def algebra_simps)
    have yp: "y div ?p = a * ?p + b" "y mod ?p = c" unfolding y using dm [of c "a * ?p + b"] r by simp_all
    have "y div (?p * ?p) = y div ?p div ?p" using zdiv_zmult2_eq [of ?p y ?p] P by simp
    then have ypp: "y div (?p * ?p) = a" "y div ?p mod ?p = b" using yp dm [of b a] r by simp_all
    have "0 \<le> a * (?p * ?p)" "0 \<le> b * ?p" using r P by auto
    then have y0: "0 \<le> y" using r by (simp add: y_def)
    have "path_block ?p q = 12 + ?p + ?p * ?p + y" by (simp add: q4 y_def)
    then show ?thesis using y0 P r ypp yp D(2) by (simp add: eq q4) (use P(2) y0 in linarith)
  next
    case (1 p i)
    then show ?thesis using q by (simp add: eq)
  next
    case (2 p i a)
    then show ?thesis using q by (simp add: eq)
  qed (use q in auto)
qed

lemma block_to_path_step:
  assumes ok: "addr_ok sb" and b: "0 \<le> b" "b < file_blocks (KR_ADDR_PER_BLOCK sb)"
    and j: "0 \<le> j" "j \<le> snd (kr_block_to_path sb b)"
  defines "q \<equiv> fst (kr_block_to_path sb b)"
  shows "fst (kr_block_to_path sb (b + j)) = butlast q @ [last q + j]"
proof -
  let ?p = "KR_ADDR_PER_BLOCK sb"
  note e = block_to_path_eq [OF ok b, folded q_def]
  have "path_ok ?p (butlast q @ [last q + j]) \<and> path_block ?p (butlast q @ [last q + j]) = b + j"
  proof (cases "(?p, q)" rule: path_ok.cases)
    case (1 p i)
    then show ?thesis using e j(1) j(2) by (auto split: if_splits)
  next
    case (2 p i a)
    then have "\<not> b < 12" using e by auto
    then show ?thesis using 2 e j by auto
  next
    case (3 p i a c)
    have "0 \<le> a * ?p" "0 \<le> c" "b = 12 + ?p + a * ?p + c" using 3 e(1,2) by auto
    then have "\<not> b < 12" using addr_okD(2) [OF ok] by linarith
    then show ?thesis using 3 e j by auto
  next
    case (4 p i a c d)
    have "0 \<le> a * (?p * ?p)" "0 \<le> c * ?p" "0 \<le> ?p * ?p" "0 \<le> d"
      "b = 12 + ?p + ?p * ?p + a * (?p * ?p) + c * ?p + d" using 4 e(1,2) by auto
    then have "\<not> b < 12" using addr_okD(2) [OF ok] by linarith
    then show ?thesis using 4 e j by auto
  qed (use e(1) in auto)
  then show ?thesis using block_to_path_block [OF ok, of "butlast q @ [last q + j]"] by simp
qed

section \<open>The block map\<close>

text \<open>Following the pointers of a path from a block number; 0 is an absent block.\<close>

fun walk :: "super_block \<Rightarrow> 32 word \<Rightarrow> int list \<Rightarrow> 32 word" where
  "walk sb key [] = key"
| "walk sb key (off # offs) = (if key = 0 then 0 else walk sb (b_ind sb (uint key) ! nat off) offs)"

fun walk_path :: "super_block \<Rightarrow> inode \<Rightarrow> int list \<Rightarrow> 32 word" where
  "walk_path sb ino [] = 0"
| "walk_path sb ino (off # offs) = walk sb (i_data ino ! nat off) offs"

definition block_map :: "super_block \<Rightarrow> inode \<Rightarrow> int \<Rightarrow> 32 word" where
  "block_map sb ino b = walk_path sb ino (fst (kr_block_to_path sb b))"

text \<open>The sizes of the arrays the pointers are kept in.\<close>

definition tree_ok :: "super_block \<Rightarrow> inode \<Rightarrow> bool" where
  "tree_ok sb ino =
     (addr_ok sb \<and> length (i_data ino) = KR_N_BLOCKS \<and> (\<forall>b. int (length (b_ind sb b)) = KR_ADDR_PER_BLOCK sb))"

text \<open>The chain that a lookup builds.\<close>

fun walk_chain :: "super_block \<Rightarrow> 32 word \<Rightarrow> int list \<Rightarrow> indirect list" where
  "walk_chain sb key [] = []"
| "walk_chain sb key (off # offs) =
     (if key = 0 then []
      else let key' = b_ind sb (uint key) ! nat off in
        \<lparr>ind_p = BlockSlot (uint key) off, ind_key = key', ind_bh = Some (uint key)\<rparr> # walk_chain sb key' offs)"

fun branch_chain :: "super_block \<Rightarrow> inode \<Rightarrow> int list \<Rightarrow> indirect list" where
  "branch_chain sb ino [] = []"
| "branch_chain sb ino (off # offs) =
     \<lparr>ind_p = InodeSlot off, ind_key = i_data ino ! nat off, ind_bh = None\<rparr> # walk_chain sb (i_data ino ! nat off) offs"

lemma path_ok_offsets:
  assumes "path_ok p (off # offs)" "16 \<le> p"
  shows "0 \<le> off" "off < 15" "\<forall>x \<in> set offs. 0 \<le> x \<and> x < p"
  using assms by (cases "(p, off # offs)" rule: path_ok.cases; auto)+

lemma verify_chain_append:
  "verify_chain sb ino cs = Some True \<Longrightarrow> verify_chain sb ino (cs @ ds) = verify_chain sb ino ds"
  by (induction cs) (auto simp: bind_eq_Some_conv split: if_splits)

lemma get_branch_loop_chain:
  assumes io: "io_ok k" and ok: "tree_ok sb ino" and offs: "\<forall>x \<in> set offs. 0 \<le> x \<and> x < KR_ADDR_PER_BLOCK sb"
    and "verify_chain sb ino chain = Some True" "ind_key c \<noteq> 0"
  shows "get_branch_loop k sb ino offs chain c =
     Some (walk sb (ind_key c) offs \<noteq> 0, chain @ walk_chain sb (ind_key c) offs, None)"
  using offs assms(4,5)
proof (induction offs arbitrary: chain c)
  case (Cons off offs)
  let ?b = "uint (ind_key c)"
  let ?d = "\<lparr>ind_p = BlockSlot ?b off, ind_key = b_ind sb ?b ! nat off, ind_bh = Some ?b\<rparr>"
  have rd: "read_slot sb ino (BlockSlot ?b off) = Some (b_ind sb ?b ! nat off)"
    using Cons.prems(1) ok by (simp add: get_entry_def tree_ok_def)
  then have v: "verify_chain sb ino (chain @ [?d]) = Some True"
    using verify_chain_append [OF Cons.prems(2), of "[?d]"] by simp
  have step: "get_branch_loop k sb ino (off # offs) chain c =
      (if ind_key ?d = 0 then Some (False, chain @ [?d], None)
       else get_branch_loop k sb ino offs (chain @ [?d]) ?d)"
    using Cons.prems rd io by (simp add: Let_def sb_bread_def io_ok_def add_chain_def)
  show ?case
  proof (cases "ind_key ?d = 0")
    case True
    then have "walk sb (ind_key ?d) offs = 0" "walk_chain sb (ind_key ?d) offs = []" by (cases offs; simp)+
    then show ?thesis unfolding step if_P [OF True] using Cons.prems True by (simp add: Let_def)
  next
    case False
    then show ?thesis
      unfolding step if_not_P [OF False] using Cons.IH [OF _ v False] Cons.prems by (simp add: Let_def)
  qed
qed simp

lemma kr_get_branch_chain:
  assumes io: "io_ok k" and ok: "tree_ok sb ino" and path: "path_ok (KR_ADDR_PER_BLOCK sb) path"
  shows "kr_get_branch k sb ino path = Some (walk_path sb ino path \<noteq> 0, branch_chain sb ino path, None) \<and>
     verify_chain sb ino (branch_chain sb ino path) = Some True"
proof (cases path)
  case (Cons off offs)
  have p: "16 \<le> KR_ADDR_PER_BLOCK sb" using addr_okD(2) ok by (simp add: tree_ok_def)
  note o = path_ok_offsets [OF path [unfolded Cons] p]
  let ?c = "\<lparr>ind_p = InodeSlot off, ind_key = i_data ino ! nat off, ind_bh = None\<rparr>"
  have rd: "read_slot sb ino (InodeSlot off) = Some (i_data ino ! nat off)"
    using o ok by (simp add: get_entry_def tree_ok_def)
  have chain: "verify_chain sb ino (walk_chain sb key xs) = Some True"
    if "\<forall>x \<in> set xs. 0 \<le> x \<and> x < KR_ADDR_PER_BLOCK sb" for key xs
    using that ok by (induction xs arbitrary: key) (auto simp: Let_def get_entry_def tree_ok_def)
  have v: "verify_chain sb ino [?c] = Some True" using rd by simp
  have "kr_get_branch k sb ino path = Some (walk_path sb ino path \<noteq> 0, branch_chain sb ino path, None)"
  proof (cases "ind_key ?c = 0")
    case True
    then have "walk sb (i_data ino ! nat off) offs = 0" "walk_chain sb (i_data ino ! nat off) offs = []"
      by (cases offs; simp)+
    then show ?thesis using True rd by (simp add: Cons add_chain_def)
  next
    case False
    then show ?thesis using get_branch_loop_chain [OF io ok o(3) v False] rd by (simp add: Cons add_chain_def)
  qed
  then show ?thesis using chain [OF o(3)] rd by (simp add: Cons)
qed (use path in simp)

lemma walk_0 [simp]: "walk sb 0 offs = 0"
  by (cases offs) simp_all

lemma walk_snoc:
  "walk sb key (offs @ [off]) =
     (let k = walk sb key offs in if k = 0 then 0 else b_ind sb (uint k) ! nat off)"
  by (induction offs arbitrary: key) (simp_all add: Let_def)

text \<open>The slot that holds the last pointer of a path.\<close>

definition last_slot :: "super_block \<Rightarrow> inode \<Rightarrow> int list \<Rightarrow> slot" where
  "last_slot sb ino path =
     (if length path = 1 then InodeSlot (hd path)
      else BlockSlot (uint (walk_path sb ino (butlast path))) (last path))"

lemma walk_chain_last:
  assumes "offs \<noteq> []" "walk sb key (butlast offs) \<noteq> 0"
  shows "walk_chain sb key offs \<noteq> [] \<and> ind_key (last (walk_chain sb key offs)) = walk sb key offs \<and>
    ind_p (last (walk_chain sb key offs)) = BlockSlot (uint (walk sb key (butlast offs))) (last offs) \<and>
    length (walk_chain sb key offs) = length offs"
  using assms
proof (induction offs arbitrary: key)
  case (Cons off offs)
  have key: "key \<noteq> 0" using Cons.prems by (cases "offs = []") auto
  show ?case using key Cons.IH [of "b_ind sb (uint key) ! nat off"] Cons.prems
    by (cases "offs = []") (auto simp: Let_def)
qed simp

lemma branch_chain_last:
  assumes "walk_path sb ino path \<noteq> 0"
  shows "branch_chain sb ino path \<noteq> []" "ind_key (last (branch_chain sb ino path)) = walk_path sb ino path"
    "ind_p (last (branch_chain sb ino path)) = last_slot sb ino path"
    "length (branch_chain sb ino path) = length path"
proof -
  obtain off offs where path: "path = off # offs" using assms by (cases path) auto
  let ?key = "i_data ino ! nat off"
  have w: "walk sb ?key (butlast offs) \<noteq> 0" if "offs \<noteq> []"
    using assms that walk_snoc [of sb ?key "butlast offs" "last offs"] by (auto simp: path Let_def)
  show "branch_chain sb ino path \<noteq> []" by (simp add: path)
  show "ind_key (last (branch_chain sb ino path)) = walk_path sb ino path"
    "ind_p (last (branch_chain sb ino path)) = last_slot sb ino path"
    "length (branch_chain sb ino path) = length path"
    using walk_chain_last [OF _ w] by (cases "offs = []"; auto simp: path last_slot_def)+
qed

text \<open>The entries next to the last pointer of a path are those of the following blocks.\<close>

lemma read_next_slot:
  assumes ok: "tree_ok sb ino" and path: "path_ok (KR_ADDR_PER_BLOCK sb) path" and w: "walk_path sb ino path \<noteq> 0"
    and next_ok: "path_ok (KR_ADDR_PER_BLOCK sb) (butlast path @ [last path + j])"
  shows "read_slot sb ino (slot_add (last_slot sb ino path) j) = Some (walk_path sb ino (butlast path @ [last path + j]))"
proof (cases path)
  case (Cons off offs)
  have p: "16 \<le> KR_ADDR_PER_BLOCK sb" using addr_okD(2) ok by (simp add: tree_ok_def)
  show ?thesis
  proof (cases "offs = []")
    case True
    have "0 \<le> off + j \<and> off + j < 15" using next_ok by (simp add: Cons True)
    then show ?thesis using ok by (simp add: Cons True last_slot_def get_entry_def tree_ok_def)
  next
    case False
    let ?k = "walk sb (i_data ino ! nat off) (butlast offs)"
    have k: "?k \<noteq> 0"
      using w False walk_snoc [of sb "i_data ino ! nat off" "butlast offs" "last offs"] by (auto simp: Cons Let_def)
    have "\<forall>x \<in> set (butlast offs @ [last offs + j]). 0 \<le> x \<and> x < KR_ADDR_PER_BLOCK sb"
      using path_ok_offsets(3) [OF _ p, of off "butlast offs @ [last offs + j]"] next_ok by (simp add: Cons False)
    then have "0 \<le> last offs + j" "last offs + j < KR_ADDR_PER_BLOCK sb" by auto
    then show ?thesis
      using ok k False by (simp add: Cons last_slot_def get_entry_def tree_ok_def walk_snoc Let_def)
  qed
qed (use path in simp)

text \<open>The run of consecutive blocks that a lookup finds.\<close>

definition mapped_run :: "super_block \<Rightarrow> inode \<Rightarrow> int \<Rightarrow> int \<Rightarrow> bool" where
  "mapped_run sb ino b n = (\<forall>j. 0 \<le> j \<and> j < n \<longrightarrow> uint (block_map sb ino (b + j)) = uint (block_map sb ino b) + j)"

lemma mapped_run_1: "mapped_run sb ino b 1"
  unfolding mapped_run_def
proof (intro allI impI)
  fix j :: int
  assume "0 \<le> j \<and> j < 1"
  then have "j = 0" by linarith
  then show "uint (block_map sb ino (b + j)) = uint (block_map sb ino b) + j" by simp
qed

lemma map_more_run:
  assumes ok: "tree_ok sb ino" and b: "0 \<le> b" "b < file_blocks (KR_ADDR_PER_BLOCK sb)" "block_map sb ino b \<noteq> 0"
    and v: "verify_chain sb ino chain = Some True"
    and chain: "ind_p (last chain) = last_slot sb ino (fst (kr_block_to_path sb b))"
    and c: "1 \<le> c" "c + int n = 1 + snd (kr_block_to_path sb b)" "c \<le> mx" "mapped_run sb ino b c"
  shows "\<exists>c'. map_more sb ino chain (uint (block_map sb ino b)) mx n c = Some (c', None) \<and>
     c \<le> c' \<and> c' \<le> mx \<and> c' \<le> 1 + snd (kr_block_to_path sb b) \<and> mapped_run sb ino b c' \<and>
     (c' < mx \<and> c' \<le> snd (kr_block_to_path sb b) \<longrightarrow> uint (block_map sb ino (b + c')) \<noteq> uint (block_map sb ino b) + c')"
  using c
proof (induction n arbitrary: c)
  case 0
  then show ?case by auto
next
  case (Suc n)
  let ?q = "fst (kr_block_to_path sb b)" and ?bd = "snd (kr_block_to_path sb b)" and ?f = "uint (block_map sb ino b)"
  have aok: "addr_ok sb" using ok by (simp add: tree_ok_def)
  note e = block_to_path_eq [OF aok b(1,2)]
  have cb: "c \<le> ?bd" using Suc.prems by simp
  show ?case
  proof (cases "c < mx")
    case False
    then show ?thesis using Suc.prems cb by auto
  next
    case True
    have step: "fst (kr_block_to_path sb (b + c)) = butlast ?q @ [last ?q + c]"
      using block_to_path_step [OF aok b(1,2) _ cb] Suc.prems(1) by simp
    have "path_ok (KR_ADDR_PER_BLOCK sb) (butlast ?q @ [last ?q + c])"
    proof -
      have "b + c < file_blocks (KR_ADDR_PER_BLOCK sb)"
      proof (rule ccontr)
        assume "\<not> ?thesis"
        then have "fst (kr_block_to_path sb (b + c)) = []" using block_to_path_out [OF aok] by simp
        then show False using step by simp
      qed
      then show ?thesis using block_to_path_eq(1) [OF aok, of "b + c"] b(1) Suc.prems(1) step by simp
    qed
    then have rd: "read_slot sb ino (slot_add (last_slot sb ino ?q) c) = Some (block_map sb ino (b + c))"
      using read_next_slot [OF ok e(1)] b(3) step by (simp add: block_map_def)
    show ?thesis
    proof (cases "uint (block_map sb ino (b + c)) = ?f + c")
      case True
      then have "mapped_run sb ino b (c + 1)"
        using Suc.prems(4) unfolding mapped_run_def by (metis add.commute le_less linorder_not_le zless_add1_eq)
      then show ?thesis using Suc.IH [of "c + 1"] Suc.prems \<open>c < mx\<close> v rd chain True by fastforce
    next
      case False
      then show ?thesis using Suc.prems \<open>c < mx\<close> v rd chain cb by auto
    qed
  qed
qed

lemma kr_get_blocks_lookup:
  assumes io: "io_ok k" and ok: "tree_ok sb ino" and mx: "1 \<le> mx" and b: "0 \<le> b" "b < file_blocks (KR_ADDR_PER_BLOCK sb)"
  shows "\<exists>res. kr_get_blocks k sb ino b mx False = Some (Inr res, sb, ino) \<and>
     (case res of
        None \<Rightarrow> block_map sb ino b = 0
      | Some m \<Rightarrow> m_bno m = block_map sb ino b \<and> m_bno m \<noteq> 0 \<and> 1 \<le> m_count m \<and> m_count m \<le> mx \<and>
          mapped_run sb ino b (m_count m) \<and> \<not> m_new m \<and>
          (m_count m < mx \<and> \<not> m_boundary m \<longrightarrow>
             uint (block_map sb ino (b + m_count m)) \<noteq> uint (m_bno m) + m_count m))"
proof -
  have aok: "addr_ok sb" using ok by (simp add: tree_ok_def)
  obtain q bd where r: "kr_block_to_path sb b = (q, bd)" by (cases "kr_block_to_path sb b")
  note e = block_to_path_eq [OF aok b, unfolded r fst_conv snd_conv]
  have q: "q \<noteq> []" using e(1) by auto
  note br = kr_get_branch_chain [OF io ok e(1)]
  have bm: "walk_path sb ino q = block_map sb ino b" by (simp add: block_map_def r)
  show ?thesis
  proof (cases "block_map sb ino b = 0")
    case True
    then show ?thesis using br mx q by (simp add: kr_get_blocks_def r bm)
  next
    case False
    note last = branch_chain_last [of sb ino q, unfolded bm, OF False]
    have "q = [b]" if "b < 12" using that r b(1) by (simp add: kr_block_to_path_def Let_def)
    moreover have "b < 12" if "q = [i]" for i using e(1,2) that by auto
    ultimately have bd: "0 \<le> bd"
      using e(1,3) b(1) by (cases "(KR_ADDR_PER_BLOCK sb, q)" rule: path_ok.cases) (auto split: if_splits)
    obtain c where c: "map_more sb ino (branch_chain sb ino q) (uint (block_map sb ino b)) mx (nat bd) 1 = Some (c, None)"
       "1 \<le> c" "c \<le> mx" "c \<le> 1 + bd" "mapped_run sb ino b c"
       "c < mx \<and> c \<le> bd \<longrightarrow> uint (block_map sb ino (b + c)) \<noteq> uint (block_map sb ino b) + c"
      using map_more_run [OF ok b False, of "branch_chain sb ino q" 1 "nat bd" mx] br last(3) bd mx mapped_run_1 [of sb ino b]
      by (auto simp: r)
    then show ?thesis
      using br mx q last(1,2) False by (simp add: kr_get_blocks_def r bm got_it_def)
  qed
qed

end
