(* ===== verification/Kr_Super_Spec.thy ===== *)
theory Kr_Super_Spec
  imports Kr_Options Kr_Bmap Kr_Ialloc_Spec
begin

text \<open>
  The properties of the mounted file system's super block, of the mount options and of
  \<^verbatim>\<open>statfs\<close>, with their witnesses.
\<close>

section \<open>An option parser\<close>

definition ex_match_token :: "string \<Rightarrow> (token \<times> string option) list \<Rightarrow> token \<times> string" where
  "ex_match_token s table =
     (if take 7 s = ''resuid='' then (Opt_resuid, drop 7 s)
      else if take 7 s = ''resgid='' then (Opt_resgid, drop 7 s)
      else if take 3 s = ''sb='' then (Opt_sb, drop 3 s)
      else case find (\<lambda>(t, p). p = Some s) table of Some (t, p) \<Rightarrow> (t, []) | None \<Rightarrow> (Opt_err, []))"

definition ex_number :: "string \<Rightarrow> int" where
  "ex_number s = int (foldl (\<lambda>n c. 10 * n + (of_char c - 48)) 0 s)"

definition ex_parser :: parser where
  "ex_parser =
     \<lparr>p_match_token = ex_match_token, p_match_int = (\<lambda>s. Some (ex_number s)),
      p_make_kuid = (\<lambda>n. Some (word_of_int n)), p_make_kgid = (\<lambda>n. Some (word_of_int n)),
      p_strtoul = (\<lambda>s. (ex_number (takeWhile (\<lambda>c. c \<noteq> CHR '','') s), dropWhile (\<lambda>c. c \<noteq> CHR '','') s)),
      p_config_quota = True\<rparr>"

lemma ex_number_decimal: "ex_number (decimal_nat n) = int n"
proof (induction n rule: decimal_nat.induct)
  case (1 n)
  have digit: "(of_char (char_of (48 + m) :: char) :: nat) = 48 + m" if "m < 10" for m :: nat
    using that by simp
  show ?case
  proof (cases "n < 10")
    case True
    then show ?thesis using digit [of n] by (subst decimal_nat.simps) (simp add: ex_number_def)
  next
    case False
    have "ex_number (decimal_nat n) = 10 * ex_number (decimal_nat (n div 10)) + int (n mod 10)"
      using digit [of "n mod 10"] False by (subst decimal_nat.simps) (simp add: ex_number_def)
    moreover have "10 * int (n div 10) + int (n mod 10) = int n" by presburger
    ultimately show ?thesis using 1 False by simp
  qed
qed

lemma ex_parser_ok: "parser_ok ex_parser"
proof -
  have "\<forall>(t, pat) \<in> set tokens. case pat of None \<Rightarrow> True
      | Some s \<Rightarrow> CHR ''%'' \<in> set s \<or> fst (p_match_token ex_parser s tokens) = t"
    by code_simp
  then show ?thesis
    by (simp add: parser_ok_def) (simp add: ex_parser_def ex_match_token_def ex_number_decimal)
qed

section \<open>The error flag\<close>

text \<open>
  C12. An error reported on a writable file system is not lost: whatever syncs, freezes, thaws,
  remounts (with any options, failing or not), \<^verbatim>\<open>statfs\<close> calls, revision updates and further
  errors follow, the super block that an unmount leaves on the disk has \<^verbatim>\<open>KR_ERROR_FS\<close> set.
\<close>

theorem error_flag_survives:
  assumes "\<not> sb_rdonly sb" "kr_error k sb = Some sb1" "(super_step k)\<^sup>*\<^sup>* sb1 sb2" "kr_put_super k sb2 = Some e"
  shows "bit (es_state e) 1"
  using kr_put_super_error [OF assms(4)] super_steps_error [OF assms(3)] kr_error_frame(2) [OF assms(2,1)] by blast

lemma sync_super_total:
  assumes "gd_ok sb"
  obtains sb' where "kr_sync_super k sb = Some sb'" "gd_ok sb'" "s_flags sb' = s_flags sb"
  by (rule that [OF kr_sync_super_eq [OF assms]]) (simp_all add: assms)

lemma set_es_state_gd_ok [simp]: "gd_ok (set_es_state st sb) = gd_ok sb"
  by (simp add: set_es_state_def)

lemma ex_sb_gd_ok: "gd_ok ex_sb"
  using ex_sb_ok by (simp add: fs_ok_def)

lemma ex_sb_opts: "\<not> test_opt ex_sb KR_MOUNT_ERRORS_PANIC" "\<not> sb_rdonly ex_sb"
  by code_simp+

theorem error_flag_survives_witness:
  "\<exists>sb1 sb2 e. kr_error ex_kernel ex_sb = Some sb1 \<and> kr_freeze ex_kernel 0 sb1 = Some sb2 \<and>
     kr_put_super ex_kernel sb2 = Some e \<and> bit (es_state e) 1"
proof -
  obtain sb1 where 1: "kr_error ex_kernel ex_sb = Some sb1" "same_but_errors ex_sb sb1"
    using kr_error_total [OF ex_sb_gd_ok ex_sb_opts(1)] by blast
  have g1: "gd_ok sb1" using same_but_errors_gd_ok [OF 1(2)] ex_sb_gd_ok by simp
  obtain sb2 where 2: "kr_freeze ex_kernel 0 sb1 = Some sb2" "gd_ok sb2"
    using sync_super_total [of "set_es_state (s_mount_state (sbi sb1)) sb1" ex_kernel] g1 by (auto simp: kr_freeze_def)
  have "gd_ok (set_es_state (s_mount_state (sbi sb2)) sb2)" using 2(2) by simp
  then obtain sb3 where "kr_sync_super ex_kernel (set_es_state (s_mount_state (sbi sb2)) sb2) = Some sb3"
    by (rule sync_super_total)
  then have "\<exists>e. kr_put_super ex_kernel sb2 = Some e" by (simp add: kr_put_super_def)
  then obtain e where 3: "kr_put_super ex_kernel sb2 = Some e" by blast
  have "super_step ex_kernel sb1 sb2" by (rule step_freeze [OF 2(1)])
  then show ?thesis using error_flag_survives [OF ex_sb_opts(2) 1(1) _ 3] 1(1) 2(1) 3 by blast
qed

text \<open>
  C17. Freezing a writable file system that has no deleted open files writes the state of the
  mount to the disk, so a clean file system is marked valid, and thawing clears the valid flag
  and no other; both always return, and the rest of the super block in memory is untouched.
\<close>

theorem kr_freeze_thaw:
  assumes "gd_ok sb" "\<not> sb_rdonly sb"
  shows "\<exists>sb1 sb2. kr_freeze k 0 sb = Some sb1 \<and> es_state (es sb1) = s_mount_state (sbi sb) \<and>
     kr_unfreeze k sb1 = Some sb2 \<and> es_state (es sb2) = s_mount_state (sbi sb) AND NOT KR_VALID_FS \<and>
     sbi sb2 = sbi sb \<and> s_flags sb2 = s_flags sb"
proof -
  obtain sb1 where 1: "kr_sync_super k (set_es_state (s_mount_state (sbi sb)) sb) = Some sb1" "gd_ok sb1"
      "s_flags sb1 = s_flags sb"
    using sync_super_total [of "set_es_state (s_mount_state (sbi sb)) sb" k] assms(1) by auto
  have w: "\<not> sb_rdonly sb1" using assms(2) 1(3) by (simp add: sb_rdonly_def)
  let ?sb = "if es_state (es sb1) AND KR_VALID_FS \<noteq> 0
    then set_es_state (es_state (es sb1) AND NOT KR_VALID_FS) sb1 else sb1"
  have "gd_ok ?sb" using 1(2) by simp
  then obtain sb2 where "kr_sync_super k ?sb = Some sb2" by (rule sync_super_total)
  then have 2: "kr_sync_fs k sb1 = Some sb2" unfolding kr_sync_fs_def .
  show ?thesis
    using 1(1,3) 2 w kr_sync_super_frame(1,2) [OF 1(1)] kr_sync_fs_frame [OF 2]
    by (auto simp: kr_freeze_def kr_unfreeze_def kr_write_super_def)
qed

theorem kr_freeze_thaw_witness:
  "\<exists>sb1 sb2. kr_freeze ex_kernel 0 ex_sb = Some sb1 \<and> es_state (es sb1) = 1 \<and>
     kr_unfreeze ex_kernel sb1 = Some sb2 \<and> es_state (es sb2) = 0"
  using kr_freeze_thaw [OF ex_sb_gd_ok ex_sb_opts(2), of ex_kernel] by (auto simp: ex_sbi_def)

section \<open>Mount options\<close>

text \<open>
  Parsing any option string, with any parser and whether it succeeds or not, keeps exactly
  one of the three behaviours on errors, changes only the options and the ids for reserved
  blocks, and never turns direct access on or off.
\<close>

theorem parse_options_one_behaviour:
  assumes "one_errors_opt (s_mount_opt (sbi sb))" "parse_options ps data sb = (ok, sb')"
  shows "one_errors_opt (s_mount_opt (sbi sb')) \<and> without_opts (sbi sb') = without_opts (sbi sb) \<and>
     sb' = sb\<lparr>sbi := sbi sb'\<rparr> \<and> test_opt sb' KR_MOUNT_DAX = test_opt sb KR_MOUNT_DAX"
proof -
  let ?P = "\<lambda>si. one_errors_opt (s_mount_opt si) \<and> bit (s_mount_opt si) 20 = bit (s_mount_opt (sbi sb)) 20"
  have l: "parse_loop ps data (sbi sb) = (ok, sbi sb')"
    using assms(2) by (auto simp: parse_options_def split: prod.splits)
  have "?P (sbi sb')"
    by (rule parse_loop_inv [OF l, where P = ?P]) (use assms(1) parse_token_bits in auto)
  then show ?thesis using parse_options_frame [OF assms(2)] by (simp add: test_opt_def test_flag64)
qed

theorem parse_options_one_behaviour_witness:
  "one_errors_opt (s_mount_opt (sbi (snd (parse_options ex_parser (Some ''errors=panic,grpid,bogus'') ex_sb))))"
proof -
  have "one_errors_opt (s_mount_opt (sbi ex_sb))" by code_simp
  then show ?thesis using parse_options_one_behaviour [of ex_sb ex_parser "Some ''errors=panic,grpid,bogus''"]
    by (metis prod.collapse)
qed

text \<open>
  C13. The options that \<^verbatim>\<open>kr_show_options\<close> prints for a mounted file system are the ones that
  make it: parsed on top of the defaults of the same super block they give every option and
  both ids back, for every option string the mount was made with. Only the obsolete \<^verbatim>\<open>xip\<close>,
  which is not shown, is lost.
\<close>

theorem show_options_round_trip:
  assumes "parser_ok ps" "s_mount_opt si0 = 0"
    and "parse_loop ps data (default_options (es sb) si0) = (True, sbi sb)"
    and "uint (s_resuid (sbi sb)) < 2147483648" "uint (s_resgid (sbi sb)) < 2147483648"
  shows "parse_loop ps (Some (kr_show_options ps sb)) (default_options (es sb) si0) =
     (True, clear_mount_opt KR_MOUNT_XIP (sbi sb))"
  by (rule show_parse [OF assms(1) refl assms(2-5)])

definition ex_si0 :: kr_sb_info where
  "ex_si0 = ex_sbi\<lparr>s_mount_opt := 0\<rparr>"

definition ex_sb_opts_mount :: super_block where
  "ex_sb_opts_mount =
     ex_sb\<lparr>sbi := snd (parse_loop ex_parser (Some ''noreservation,resuid=20,errors=remount-ro,minixdf'') (default_options ex_es ex_si0))\<rparr>"

theorem show_options_round_trip_witness:
  "parse_loop ex_parser (Some (kr_show_options ex_parser ex_sb_opts_mount)) (default_options ex_es ex_si0) =
     (True, clear_mount_opt KR_MOUNT_XIP (sbi ex_sb_opts_mount))"
proof -
  have es: "es ex_sb_opts_mount = ex_es" by (simp add: ex_sb_opts_mount_def)
  have 0: "s_mount_opt ex_si0 = 0" by (simp add: ex_si0_def)
  have "fst (parse_loop ex_parser (Some ''noreservation,resuid=20,errors=remount-ro,minixdf'') (default_options ex_es ex_si0))"
    by code_simp
  then have 1: "parse_loop ex_parser (Some ''noreservation,resuid=20,errors=remount-ro,minixdf'')
      (default_options ex_es ex_si0) = (True, sbi ex_sb_opts_mount)"
    by (simp add: ex_sb_opts_mount_def prod_eq_iff)
  have 2: "uint (s_resuid (sbi ex_sb_opts_mount)) < 2147483648" "uint (s_resgid (sbi ex_sb_opts_mount)) < 2147483648"
    by code_simp+
  show ?thesis
    using show_options_round_trip [OF ex_parser_ok 0, of _ ex_sb_opts_mount, unfolded es, OF 1 2] .
qed

text \<open>
  C14. A remount that fails, because an option is not understood, quota cannot be suspended, or
  the file system has features that only a read-only mount supports, leaves the options, all
  of the super block in memory and the mount flags exactly as they were.
\<close>

theorem kr_remount_atomic:
  assumes "kr_remount k ps quota_suspend flags data sb = Some (Inl e, sb')"
  shows "sbi sb' = sbi sb \<and> s_flags sb' = s_flags sb"
  using kr_remount_failed [OF assms] by simp

lemma ex_remount_fails: "map_option fst (kr_remount ex_kernel ex_parser None 0 (Some ''minixdf,bogus'') ex_sb) = Some (Inl EINVAL)"
  by code_simp

theorem kr_remount_atomic_witness:
  "\<exists>sb'. kr_remount ex_kernel ex_parser None 0 (Some ''minixdf,bogus'') ex_sb = Some (Inl EINVAL, sb') \<and>
     sbi sb' = sbi ex_sb"
proof -
  obtain sb' where "kr_remount ex_kernel ex_parser None 0 (Some ''minixdf,bogus'') ex_sb = Some (Inl EINVAL, sb')"
    using ex_remount_fails by (auto simp: map_option_eq_Some)
  then show ?thesis using kr_remount_atomic by blast
qed

section \<open>statfs\<close>

text \<open>
  C15. \<^verbatim>\<open>statfs\<close> reports the true numbers: the free blocks and free inodes are the sizes of the
  sets of clear bits of the bitmaps, the available blocks are what is left of the free ones
  after the reserve, and the size is the number of blocks less the metadata, whose total is
  the blocks before the first, the copies of the super block with the descriptors in the groups
  that hold one, and two bitmaps and an inode table per group. The total is cached: a second
  call reports the same.
\<close>

theorem kr_statfs_correct:
  assumes "ialloc_ok sb" "s_groups_count (sbi sb) \<le> 306783379"
    "0 \<le> s_gdb_count (sbi sb)" "s_gdb_count (sbi sb) < 4294967296" "s_itb_per_group (sbi sb) < 4294967296"
    and "\<not> test_opt sb KR_MOUNT_MINIX_DF" "s_blocks_last (sbi sb) \<noteq> uint (es_blocks_count (es sb))"
  shows "\<exists>buf sb'. kr_statfs sb = Some (buf, sb') \<and> kr_statfs sb' = Some (buf, sb') \<and>
     f_bfree buf = int (card (free_set sb)) \<and> f_ffree buf = int (card (free_inodes sb)) \<and>
     f_bavail buf = max 0 (f_bfree buf - uint (es_r_blocks_count (es sb))) \<and>
     f_blocks buf = u64 (uint (es_blocks_count (es sb)) - (uint (es_first_data_block (es sb)) +
       (\<Sum>g = 0..<s_groups_count (sbi sb). group_super sb g + 2 + s_itb_per_group (sbi sb))))"
proof -
  have fs: "fs_ok sb" using ialloc_okD(1) [OF assms(1)] .
  then have gd: "gd_ok sb" and itb: "0 \<le> s_itb_per_group (sbi sb)" by (simp_all add: fs_ok_def)
  let ?o = "uint (es_first_data_block (es sb)) +
    (\<Sum>g = 0..<s_groups_count (sbi sb). group_super sb g + 2 + s_itb_per_group (sbi sb))"
  let ?sb = "sb\<lparr>sbi := (sbi sb)\<lparr>s_overhead_last := ?o, s_blocks_last := uint (es_blocks_count (es sb))\<rparr>\<rparr>"
  have o: "statfs_overhead sb = Some ?sb" by (rule statfs_overhead_eq [OF gd assms(2-4) itb assms(5-7)])
  have "gdesc ?sb = gdesc sb \<and> gd_ok ?sb = gd_ok sb"
    by (simp add: gdesc_def gd_ok_def desc_loaded_def desc_block_def desc_offset_def fun_eq_iff cong: option.case_cong)
  then have g1: "gdesc ?sb = gdesc sb" "gd_ok ?sb" using gd by simp_all
  have t: "free_totals ?sb = (int (card (free_set sb)), int (card (free_inodes sb)))"
    by (simp add: free_totals_def g1 card_free_set [OF fs] card_free_inodes [OF assms(1)])
  have 1: "kr_statfs sb = Some (statfs_of ?sb, store_totals ?sb)" by (rule kr_statfs_eq [OF o g1(2)])
  have "statfs_overhead (store_totals ?sb) = Some (store_totals ?sb)"
    using assms(6) by (simp add: statfs_overhead_def store_totals_def test_opt_def)
  moreover have "gd_ok (store_totals ?sb)" using g1(2) by (simp add: store_totals_def)
  ultimately have 2: "kr_statfs (store_totals ?sb) = Some (statfs_of ?sb, store_totals ?sb)"
    using kr_statfs_eq [of "store_totals ?sb"] by (simp add: store_totals_idem)
  have c: "int (card (free_set sb)) \<le> 4294967296"
  proof -
    have "card (free_set sb) \<le> card {0..<4294967296 :: int}"
      by (rule card_mono) (auto simp: free_set_def intro: order_trans [OF uint_ge_0] less_trans [OF _ uint32_lt])
    then show ?thesis by simp
  qed
  have "f_bavail (statfs_of ?sb) = max 0 (int (card (free_set sb)) - uint (es_r_blocks_count (es sb)))"
  proof (cases "int (card (free_set sb)) < uint (es_r_blocks_count (es sb))")
    case False
    have "u64 (int (card (free_set sb)) - uint (es_r_blocks_count (es sb))) =
        int (card (free_set sb)) - uint (es_r_blocks_count (es sb))"
      using False c uint_ge_0 [of "es_r_blocks_count (es sb)"] by (intro u64_id) linarith+
    then show ?thesis using False t by (simp add: statfs_of_def Let_def)
  qed (simp add: statfs_of_def Let_def t)
  then show ?thesis
    using 1 2 t by (intro exI [of _ "statfs_of ?sb"] exI [of _ "store_totals ?sb"]) (simp add: statfs_of_def Let_def)
qed

theorem kr_statfs_correct_witness:
  "\<exists>buf sb'. kr_statfs ex_sb = Some (buf, sb') \<and> kr_statfs sb' = Some (buf, sb') \<and>
     f_bfree buf = int (card (free_set ex_sb))"
proof -
  have "\<not> test_opt ex_sb KR_MOUNT_MINIX_DF" by code_simp
  then show ?thesis
    using kr_statfs_correct [OF ex_sb_ialloc] by (auto simp: ex_sbi_def ex_es_def)
qed

section \<open>Mounting\<close>

text \<open>
  C16. The check of the group descriptors at mount time always returns, and accepts exactly the
  file systems in which every group's block bitmap, inode bitmap, and whole inode table lie
  between the group's first and last block.
\<close>

theorem kr_check_descriptors_correct:
  assumes "gd_ok sb" "\<not> test_opt sb KR_MOUNT_ERRORS_PANIC" "0 < KR_BLOCKS_PER_GROUP sb" "KR_BLOCKS_PER_GROUP sb < 4294967296"
    "1 \<le> s_itb_per_group (sbi sb)" "s_itb_per_group (sbi sb) < 4294967296" "0 < uint (es_blocks_count (es sb))"
  shows "\<exists>sb'. kr_check_descriptors k sb =
     Some (\<forall>g \<in> {0..<s_groups_count (sbi sb)}.
       \<forall>b \<in> {uint (bg_block_bitmap (gdesc sb g)), uint (bg_inode_bitmap (gdesc sb g)), uint (bg_inode_table (gdesc sb g)),
              uint (bg_inode_table (gdesc sb g)) + s_itb_per_group (sbi sb) - 1}.
         g * KR_BLOCKS_PER_GROUP sb + uint (es_first_data_block (es sb)) \<le> b \<and> b < group_end sb g, sb') \<and>
     same_but_errors sb sb'"
proof -
  have "(\<forall>g \<in> {0..<s_groups_count (sbi sb)}. descriptor_in_group sb g (gdesc sb g)) \<longleftrightarrow>
     (\<forall>g \<in> {0..<s_groups_count (sbi sb)}.
       \<forall>b \<in> {uint (bg_block_bitmap (gdesc sb g)), uint (bg_inode_bitmap (gdesc sb g)), uint (bg_inode_table (gdesc sb g)),
              uint (bg_inode_table (gdesc sb g)) + s_itb_per_group (sbi sb) - 1}.
         g * KR_BLOCKS_PER_GROUP sb + uint (es_first_data_block (es sb)) \<le> b \<and> b < group_end sb g)"
    using descriptor_in_group_iff [OF assms(1,3-7)] by (intro ball_cong refl) (auto simp only: atLeastLessThan_iff)
  from kr_check_descriptors_eq [OF assms(1,2), of k, unfolded this] show ?thesis .
qed

theorem kr_check_descriptors_correct_witness: "\<exists>sb'. kr_check_descriptors ex_kernel ex_sb = Some (True, sb')"
proof -
  have "\<exists>sb'. kr_check_descriptors ex_kernel ex_sb = Some (True, sb') \<and> same_but_errors ex_sb sb'"
    using kr_check_descriptors_correct [OF ex_sb_gd_ok ex_sb_opts(1), of ex_kernel]
    by (simp add: ex_es_def ex_sbi_def one_group group_end_def ex_desc_def)
  then show ?thesis by blast
qed

text \<open>
  C18. With blocks of 1 to 16 kilobytes the largest file is one that the block map can address:
  every byte below the limit has a block path.
\<close>

theorem kr_max_size_addressable:
  assumes "addr_ok sb" "bits \<in> {10, 11, 12, 13, 14}" "s_addr_per_block_bits (sbi sb) = bits - 2"
    and "0 \<le> off" "off < kr_max_size bits"
  shows "path_ok (KR_ADDR_PER_BLOCK sb) (fst (kr_block_to_path sb (drop_bit bits off)))"
proof -
  let ?p = "KR_ADDR_PER_BLOCK sb"
  have p: "?p = 2 ^ (bits - 2)" using assms(1,3) by (simp add: addr_ok_def)
  have "kr_max_size bits \<le> file_blocks ?p * 2 ^ bits"
    using assms(2) unfolding p file_blocks_def by (elim insertE) (simp_all add: kr_max_size_values)
  then have "off div 2 ^ bits < file_blocks ?p" using assms(5) div_lt [of "2 ^ bits" off "file_blocks ?p"] by simp
  moreover have "0 \<le> off div 2 ^ bits" using assms(4) by (simp add: pos_imp_zdiv_nonneg_iff)
  ultimately show ?thesis using block_to_path_eq(1) [OF assms(1)] by (simp add: drop_bit_eq_div)
qed

definition ex_sb_1k :: super_block where
  "ex_sb_1k = ex_sb\<lparr>s_blocksize := 1024, s_blocksize_bits := 10, sbi := ex_sbi\<lparr>s_addr_per_block_bits := 8\<rparr>\<rparr>"

lemma ex_sb_1k_addr: "addr_ok ex_sb_1k" "KR_ADDR_PER_BLOCK ex_sb_1k = 256"
  by (simp_all add: addr_ok_def ex_sb_1k_def KR_ADDR_PER_BLOCK_def)

theorem kr_max_size_addressable_witness: "path_ok 256 (fst (kr_block_to_path ex_sb_1k (drop_bit 10 17247252479)))"
  using kr_max_size_addressable [OF ex_sb_1k_addr(1), of 10 17247252479]
  by (simp add: ex_sb_1k_addr(2) kr_max_size_values) (simp add: ex_sb_1k_def)

text \<open>
  With blocks of 32 or 64 kilobytes the computation of the largest file underflows: the
  limit on sectors is smaller than the number of indirect blocks that is taken off it, and the
  largest size is negative.
\<close>

theorem kr_max_size_negative: "kr_max_size 15 < 0 \<and> kr_max_size 16 < 0"
  by (simp add: kr_max_size_values)

end
