(* ===== verification/Kr_Alloc_Frame.thy ===== *)
theory Kr_Alloc_Frame
  imports Kr_New_Inode
begin

text \<open>
  The parts of the state the two allocators share: states that agree on what the allocators look
  at, and the proof that freeing blocks leaves the inodes and their bitmaps alone.
\<close>

section \<open>States with the same allocation\<close>

text \<open>What the allocators look at.\<close>

definition alloc_view :: "super_block \<Rightarrow> kr_sb_info \<times> kr_group_desc list option list \<times> (int \<Rightarrow> bitmap) \<times> 32 word \<times> 32 word \<times> 32 word" where
  "alloc_view sb = (sbi sb, s_group_desc sb, b_data sb, es_first_data_block (es sb), es_blocks_count (es sb), es_inodes_count (es sb))"

lemma alloc_viewD:
  assumes "alloc_view sb' = alloc_view sb"
  shows "sbi sb' = sbi sb" "b_data sb' = b_data sb" "gdesc sb' = gdesc sb" "fs_ok sb' = fs_ok sb" "free_set sb' = free_set sb"
    "data_set sb' = data_set sb" "ialloc_ok sb' = ialloc_ok sb" "free_inodes sb' = free_inodes sb"
    "inode_group sb' = inode_group sb" "inode_index sb' = inode_index sb" "es_inodes_count (es sb') = es_inodes_count (es sb)"
proof -
  show v: "sbi sb' = sbi sb" "b_data sb' = b_data sb" and e: "es_inodes_count (es sb') = es_inodes_count (es sb)"
    using assms by (simp_all add: alloc_view_def)
  have w: "s_group_desc sb' = s_group_desc sb" "es_first_data_block (es sb') = es_first_data_block (es sb)"
    "es_blocks_count (es sb') = es_blocks_count (es sb)" using assms by (simp_all add: alloc_view_def)
  have dl: "desc_loaded sb' = desc_loaded sb"
    by (simp add: desc_loaded_def desc_block_def desc_offset_def v w fun_eq_iff cong: option.case_cong)
  show gd: "gdesc sb' = gdesc sb" by (simp add: gdesc_def desc_block_def desc_offset_def v w fun_eq_iff)
  have ok: "gd_ok sb' = gd_ok sb" by (simp add: gd_ok_def dl v)
  have F: "kr_group_first_block_no sb' = kr_group_first_block_no sb" by (simp add: kr_group_first_block_no_def v w fun_eq_iff)
  have m: "metadata_block sb' = metadata_block sb" by (simp add: metadata_block_def gd v fun_eq_iff)
  have g: "group_ok sb' = group_ok sb" unfolding group_ok_def Let_def gd F m v w group_geometry_def by (simp add: fun_eq_iff)
  show fs: "fs_ok sb' = fs_ok sb" unfolding fs_ok_def ok g v w ..
  have b: "group_of sb' = group_of sb" "bit_of sb' = bit_of sb" by (simp_all add: group_of_def bit_of_def v w fun_eq_iff)
  show "free_set sb' = free_set sb" unfolding free_set_def block_used_def gd b v w ..
  show "data_set sb' = data_set sb" unfolding data_set_def block_used_def gd b v w m ..
  show i: "inode_group sb' = inode_group sb" "inode_index sb' = inode_index sb"
    by (simp_all add: inode_group_def inode_index_def v fun_eq_iff)
  have "inode_group_ok sb' = inode_group_ok sb" unfolding inode_group_ok_def gd v e by (simp add: fun_eq_iff)
  then show "ialloc_ok sb' = ialloc_ok sb" unfolding ialloc_ok_def few_groups_def fs ok v e by simp
  show "free_inodes sb' = free_inodes sb" unfolding free_inodes_def i gd v e ..
qed

section \<open>Freeing blocks leaves the inodes alone\<close>

definition same_inode_state :: "super_block \<Rightarrow> super_block \<Rightarrow> bool" where
  "same_inode_state sb s =
     (same_geometry sb s \<and>
      (\<forall>g \<in> {0..<s_groups_count (sbi sb)}.
         (\<exists>c. gdesc s g = (gdesc sb g)\<lparr>bg_free_blocks_count := c\<rparr>) \<and> inode_bitmap s g = inode_bitmap sb g))"

lemma inode_bitmap_apart:
  assumes "fs_ok sb" "0 \<le> g" "g < s_groups_count (sbi sb)" "0 \<le> h" "h < s_groups_count (sbi sb)" "h \<noteq> g"
  shows "uint (bg_inode_bitmap (gdesc sb h)) \<noteq> uint (bg_block_bitmap (gdesc sb g))"
proof
  assume e: "uint (bg_inode_bitmap (gdesc sb h)) = uint (bg_block_bitmap (gdesc sb g))"
  have in_group: "group_of sb b = i" if "0 \<le> i" "i < s_groups_count (sbi sb)"
      "kr_group_first_block_no sb i \<le> b" "b < kr_group_first_block_no sb i + KR_BLOCKS_PER_GROUP sb" for b i
    using group_of_eq(1) [OF assms(1) that(1,2), of "nat (b - kr_group_first_block_no sb i)"] that by simp
  have "group_ok sb g" "group_ok sb h" using assms by (simp_all add: fs_ok_def)
  then have "group_of sb (uint (bg_block_bitmap (gdesc sb g))) = g" "group_of sb (uint (bg_inode_bitmap (gdesc sb h))) = h"
    using in_group assms by (simp_all add: group_ok_def Let_def)
  then show False using e assms(6) by simp
qed

lemma blocks_changed_inodes:
  assumes "blocks_changed sb s" and apart: "\<And>g. 0 \<le> g \<Longrightarrow> g < s_groups_count (sbi sb) \<Longrightarrow>
    uint (bg_inode_bitmap (gdesc sb g)) \<noteq> uint (bg_block_bitmap (gdesc sb g))"
  shows "same_inode_state sb s"
  using assms(1)
proof (induction rule: blocks_changed.induct)
  case unchanged
  have "gdesc sb g = (gdesc sb g)\<lparr>bg_free_blocks_count := bg_free_blocks_count (gdesc sb g)\<rparr>" for g by simp
  then show ?case unfolding same_inode_state_def same_geometry_def by blast
next
  case (one_group s g bm cnt)
  have I: "same_geometry sb s"
    "\<And>h. 0 \<le> h \<Longrightarrow> h < s_groups_count (sbi sb) \<Longrightarrow> (\<exists>c. gdesc s h = (gdesc sb h)\<lparr>bg_free_blocks_count := c\<rparr>) \<and> inode_bitmap s h = inode_bitmap sb h"
    using one_group.IH by (simp_all add: same_inode_state_def)
  have "(\<exists>c. gdesc (update_group s g bm cnt) h = (gdesc sb h)\<lparr>bg_free_blocks_count := c\<rparr>) \<and>
      inode_bitmap (update_group s g bm cnt) h = inode_bitmap sb h" if h: "0 \<le> h" "h < s_groups_count (sbi sb)" for h
  proof -
    obtain c where c: "gdesc s h = (gdesc sb h)\<lparr>bg_free_blocks_count := c\<rparr>" "inode_bitmap s h = inode_bitmap sb h" using I(2) [OF h] by blast
    have hs: "h < s_groups_count (sbi s)" using h I(1) by (simp add: same_geometry_def)
    note d = update_group_desc(1) [OF one_group.hyps(2-4) h(1) hs, of bm cnt]
    have "uint (bg_inode_bitmap (gdesc s h)) \<noteq> uint (bg_block_bitmap (gdesc s g))"
      using inode_bitmap_apart [OF one_group.hyps(2-4) h(1) hs] apart [OF h] c(1) by (cases "h = g") auto
    moreover have "bg_inode_bitmap (gdesc (update_group s g bm cnt) h) = bg_inode_bitmap (gdesc s h)" unfolding d by simp
    ultimately have "inode_bitmap (update_group s g bm cnt) h = inode_bitmap s h" by (simp add: update_group_def set_gdesc_def)
    moreover have "\<exists>c. gdesc (update_group s g bm cnt) h = (gdesc sb h)\<lparr>bg_free_blocks_count := c\<rparr>"
    proof (cases "h = g")
      case True
      have "(gdesc s h)\<lparr>bg_free_blocks_count := cnt\<rparr> = (gdesc sb h)\<lparr>bg_free_blocks_count := cnt\<rparr>" unfolding c(1) by simp
      then show ?thesis unfolding d if_P [OF True] unfolding True by (rule exI [of _ cnt])
    next
      case False
      show ?thesis unfolding d if_not_P [OF False] by (rule exI [of _ c]) (rule c(1))
    qed
    ultimately show ?thesis using c(2) by simp
  qed
  moreover have "same_geometry sb (update_group s g bm cnt)" using I(1) by (simp add: same_geometry_def)
  ultimately show ?case by (simp add: same_inode_state_def)
qed

definition inodes_kept :: "super_block \<Rightarrow> super_block \<Rightarrow> bool" where
  "inodes_kept sb sb' = (ialloc_ok sb \<longrightarrow> ialloc_ok sb' \<and> free_inodes sb' = free_inodes sb)"

lemma inodes_kept_refl [simp]: "inodes_kept sb sb"
  by (simp add: inodes_kept_def)

lemma inodes_kept_trans: "inodes_kept a b \<Longrightarrow> inodes_kept b c \<Longrightarrow> inodes_kept a c"
  by (simp add: inodes_kept_def)

lemma alloc_view_inodes_kept: "alloc_view sb' = alloc_view sb \<Longrightarrow> inodes_kept sb sb'"
  using alloc_viewD(7,8) [of sb' sb] by (simp add: inodes_kept_def)

lemma same_inode_state_kept:
  assumes s: "same_inode_state sb s" and ok: "fs_ok s"
  shows "inodes_kept sb s"
  unfolding inodes_kept_def
proof
  assume i: "ialloc_ok sb"
  have I: "same_geometry sb s"
    and D: "\<And>h. 0 \<le> h \<Longrightarrow> h < s_groups_count (sbi sb) \<Longrightarrow> (\<exists>c. gdesc s h = (gdesc sb h)\<lparr>bg_free_blocks_count := c\<rparr>) \<and> inode_bitmap s h = inode_bitmap sb h"
    using s by (simp_all add: same_inode_state_def)
  have d: "bg_inode_bitmap (gdesc s h) = bg_inode_bitmap (gdesc sb h) \<and> bg_block_bitmap (gdesc s h) = bg_block_bitmap (gdesc sb h) \<and>
      bg_free_inodes_count (gdesc s h) = bg_free_inodes_count (gdesc sb h)" if "0 \<le> h" "h < s_groups_count (sbi sb)" for h
    using D [OF that] by auto
  have "inode_group_ok s h" if "h \<in> {0..<s_groups_count (sbi sb)}" for h
  proof -
    have "inode_group_ok sb h" using i that by (simp add: ialloc_ok_def)
    moreover have "inode_bitmap s h = inode_bitmap sb h" using D [of h] that by simp
    ultimately show ?thesis using d [of h] that I unfolding inode_group_ok_def Let_def same_geometry_def by simp
  qed
  moreover have "gd_ok s" using ok by (simp add: fs_ok_def)
  ultimately have "ialloc_ok s" using i ok I unfolding ialloc_ok_def few_groups_def same_geometry_def by simp
  moreover have "free_inodes s = free_inodes sb"
  proof -
    have "inode_bitmap s (inode_group sb n) = inode_bitmap sb (inode_group sb n)" if "1 \<le> n" "n \<le> uint (es_inodes_count (es sb))" for n
      using D inode_group_range [OF i that] by blast
    moreover have "inode_group s = inode_group sb" "inode_index s = inode_index sb"
      using I by (simp_all add: inode_group_def inode_index_def same_geometry_def fun_eq_iff)
    moreover have "es_inodes_count (es s) = es_inodes_count (es sb)" using I by (simp add: same_geometry_def)
    ultimately show ?thesis unfolding free_inodes_def by auto
  qed
  ultimately show "ialloc_ok s \<and> free_inodes s = free_inodes sb" by simp
qed

lemma freeblocks_add_inode_state: "same_inode_state sb s \<Longrightarrow> same_inode_state sb (freeblocks_add n s)"
proof -
  have "gdesc (freeblocks_add n s) = gdesc s" by (simp add: freeblocks_add_def gdesc_def desc_block_def desc_offset_def fun_eq_iff)
  then show "same_inode_state sb s \<Longrightarrow> same_inode_state sb (freeblocks_add n s)"
    by (simp add: same_inode_state_def same_geometry_def) (simp add: freeblocks_add_def)
qed

lemma freed_blocks_kept:
  assumes "blocks_changed sb s" "fs_ok (freeblocks_add n s)"
  shows "inodes_kept sb (freeblocks_add n s)"
proof (cases "ialloc_ok sb")
  case True
  have "uint (bg_inode_bitmap (gdesc sb g)) \<noteq> uint (bg_block_bitmap (gdesc sb g))" if "0 \<le> g" "g < s_groups_count (sbi sb)" for g
    using inode_group_okD(2) [OF True that] by (simp add: word_uint_eq_iff)
  from freeblocks_add_inode_state [OF blocks_changed_inodes [OF assms(1) this]] show ?thesis
    by (rule same_inode_state_kept [OF _ assms(2)])
qed (simp add: inodes_kept_def)

end
