(* ===== verification/Kr_Truncate.thy ===== *)
theory Kr_Truncate
  imports Kr_Bmap Kr_Alloc_Frame
begin

text \<open>
  Truncation (\<^verbatim>\<open>inode.c\<close>, \<^verbatim>\<open>all_zeroes\<close> to \<^verbatim>\<open>kr_setsize\<close>): the blocks of a file past a new
  size are unlinked from its block map and freed.

  A range of pointers \<^verbatim>\<open>[p, q)\<close> is the list of its slots. A range that consists of the local
  variable \<^verbatim>\<open>nr\<close> alone is the number itself: \<open>free_branch\<close> is the body of the loop of
  \<^verbatim>\<open>kr_free_branches\<close> for one number that is not zero.
\<close>

section \<open>Model: freeing branches\<close>

fun all_zeroes :: "32 word list \<Rightarrow> bool" where
  "all_zeroes [] = True"
| "all_zeroes (p # ps) = (if p \<noteq> 0 then False else all_zeroes ps)"

text \<open>The loop of \<^verbatim>\<open>kr_free_data\<close>, with the run of blocks that is being gathered.\<close>

fun free_data_loop ::
  "kernel \<Rightarrow> slot list \<Rightarrow> super_block \<Rightarrow> inode \<Rightarrow> int \<Rightarrow> int \<Rightarrow> (super_block \<times> inode) option"
where
  "free_data_loop k [] sb ino block_to_free count =
     (if 0 < count then kr_free_blocks k sb ino block_to_free count else Some (sb, ino))"
| "free_data_loop k (p # ps) sb ino block_to_free count =
     do { nr \<leftarrow> read_slot sb ino p;
          if nr = 0 then free_data_loop k ps sb ino block_to_free count
          else do {
            (sb1, ino1) \<leftarrow> write_slot sb ino p 0;
            if count = 0 then free_data_loop k ps sb1 ino1 (uint nr) 1
            else if block_to_free = u64 (uint nr - count) then free_data_loop k ps sb1 ino1 block_to_free (count + 1)
            else do {
              (sb2, ino2) \<leftarrow> kr_free_blocks k sb1 ino1 block_to_free count;
              free_data_loop k ps sb2 ino2 (uint nr) 1 } } }"

definition kr_free_data :: "kernel \<Rightarrow> slot list \<Rightarrow> super_block \<Rightarrow> inode \<Rightarrow> (super_block \<times> inode) option" where
  "kr_free_data k slots sb ino = free_data_loop k slots sb ino 0 0"

text \<open>The entries of an indirect block from entry \<open>i\<close> on.\<close>

definition block_slots :: "super_block \<Rightarrow> int \<Rightarrow> int \<Rightarrow> slot list" where
  "block_slots sb b i = map (BlockSlot b) [i..KR_ADDR_PER_BLOCK sb - 1]"

text \<open>The loop over a range of pointers that clears each and frees what it pointed to.\<close>

fun free_slots ::
  "(32 word \<Rightarrow> super_block \<Rightarrow> inode \<Rightarrow> (super_block \<times> inode) option) \<Rightarrow> slot list \<Rightarrow> super_block \<Rightarrow> inode \<Rightarrow>
   (super_block \<times> inode) option"
where
  "free_slots f [] sb ino = Some (sb, ino)"
| "free_slots f (p # ps) sb ino =
     do { nr \<leftarrow> read_slot sb ino p;
          if nr = 0 then free_slots f ps sb ino
          else do {
            (sb1, ino1) \<leftarrow> write_slot sb ino p 0;
            (sb2, ino2) \<leftarrow> f nr sb1 ino1;
            free_slots f ps sb2 ino2 } }"

primrec free_branch ::
  "kernel \<Rightarrow> nat \<Rightarrow> 32 word \<Rightarrow> super_block \<Rightarrow> inode \<Rightarrow> (super_block \<times> inode) option"
where
  "free_branch k 0 = (\<lambda>nr sb ino. kr_free_blocks k sb ino (uint nr) 1)"
| "free_branch k (Suc depth) = (\<lambda>nr sb ino.
     if \<not> sb_bread k (uint nr) then do { sb1 \<leftarrow> kr_error k sb; Some (sb1, ino) }
     else do {
       (sb1, ino1) \<leftarrow>
         (if depth = 0 then kr_free_data k (block_slots sb (uint nr) 0) sb ino
          else free_slots (free_branch k depth) (block_slots sb (uint nr) 0) sb ino);
       kr_free_blocks k sb1 ino1 (uint nr) 1 })"

definition kr_free_branches ::
  "kernel \<Rightarrow> slot list \<Rightarrow> nat \<Rightarrow> super_block \<Rightarrow> inode \<Rightarrow> (super_block \<times> inode) option" where
  "kr_free_branches k slots depth sb ino =
     (if depth = 0 then kr_free_data k slots sb ino else free_slots (free_branch k depth) slots sb ino)"

section \<open>Model: the shared part of a branch\<close>

text \<open>The loop that shortens the depth past trailing zero offsets.\<close>

fun shared_depth :: "int list \<Rightarrow> nat \<Rightarrow> nat" where
  "shared_depth offsets (Suc (Suc k)) =
     (if offsets ! Suc k = 0 then shared_depth offsets (Suc k) else Suc (Suc k))"
| "shared_depth offsets k = k"

text \<open>The loop that goes up from element \<open>i\<close> of the chain while nothing stands before its pointer.\<close>

fun slot_index :: "slot \<Rightarrow> nat" where
  "slot_index (InodeSlot i) = nat i"
| "slot_index (BlockSlot b i) = nat i"

fun shared_top :: "super_block \<Rightarrow> indirect list \<Rightarrow> nat \<Rightarrow> nat" where
  "shared_top sb chain 0 = 0"
| "shared_top sb chain (Suc i) =
     (case ind_bh (chain ! Suc i) of
        Some b \<Rightarrow>
          if all_zeroes (take (slot_index (ind_p (chain ! Suc i))) (b_ind sb b)) then shared_top sb chain i
          else Suc i
      | None \<Rightarrow> Suc i)"

text \<open>
  \<^verbatim>\<open>kr_find_shared\<close> gives the chain up to the element it returns, \<^verbatim>\<open>*top\<close>, and the state with
  the top of the branch detached. The error of \<^verbatim>\<open>kr_get_branch\<close> is ignored.
\<close>

definition kr_find_shared ::
  "kernel \<Rightarrow> super_block \<Rightarrow> inode \<Rightarrow> int list \<Rightarrow> (indirect list \<times> 32 word \<times> super_block \<times> inode) option"
where
  "kr_find_shared k sb ino offsets =
     (let d = shared_depth offsets (length offsets) in do {
        (found, chain, err) \<leftarrow> kr_get_branch k sb ino (take d offsets);
        let partial = last chain;
        v \<leftarrow> read_slot sb ino (ind_p partial);
        if ind_key partial = 0 \<and> v \<noteq> 0 then Some (chain, 0, sb, ino)
        else
          let i = shared_top sb chain (length chain - 1); p = chain ! i in
          if i = d - 1 \<and> 0 < i
          then Some (take i chain @ [p\<lparr>ind_p := slot_add (ind_p p) (- 1)\<rparr>], 0, sb, ino)
          else do {
            top \<leftarrow> read_slot sb ino (ind_p p);
            (sb1, ino1) \<leftarrow> write_slot sb ino (ind_p p) 0;
            Some (take (Suc i) chain, top, sb1, ino1) } })"

section \<open>Model: truncation\<close>

text \<open>
  The \<^verbatim>\<open>while (partial > chain)\<close> loop: the ends of the indirect blocks of the chain, the last
  first; the chain is given in reverse and \<open>depth\<close> is \<^verbatim>\<open>(chain+n-1) - partial\<close>.
\<close>

fun clear_ends ::
  "kernel \<Rightarrow> indirect list \<Rightarrow> nat \<Rightarrow> super_block \<Rightarrow> inode \<Rightarrow> (super_block \<times> inode) option"
where
  "clear_ends k (partial # c # cs) depth sb ino =
     (case ind_p partial of
        InodeSlot i \<Rightarrow> None
      | BlockSlot b i \<Rightarrow> do {
          (sb1, ino1) \<leftarrow> kr_free_branches k (block_slots sb b (i + 1)) depth sb ino;
          clear_ends k (c # cs) (Suc depth) sb1 ino1 })"
| "clear_ends k cs depth sb ino = Some (sb, ino)"

text \<open>One case of the \<^verbatim>\<open>switch\<close>: the whole tree that grows from entry \<open>i\<close> of the inode.\<close>

definition kill_tree :: "kernel \<Rightarrow> int \<Rightarrow> nat \<Rightarrow> super_block \<Rightarrow> inode \<Rightarrow> (super_block \<times> inode) option" where
  "kill_tree k i depth sb ino =
     do { nr \<leftarrow> read_slot sb ino (InodeSlot i);
          if nr = 0 then Some (sb, ino)
          else do {
            (sb1, ino1) \<leftarrow> write_slot sb ino (InodeSlot i) 0;
            free_branch k depth nr sb1 ino1 } }"

definition do_indirects :: "kernel \<Rightarrow> int \<Rightarrow> super_block \<Rightarrow> inode \<Rightarrow> (super_block \<times> inode) option" where
  "do_indirects k offset0 sb ino =
     do { (sb1, ino1) \<leftarrow>
            (if offset0 = KR_IND_BLOCK \<or> offset0 = KR_DIND_BLOCK \<or> offset0 = KR_TIND_BLOCK then Some (sb, ino)
             else kill_tree k KR_IND_BLOCK 1 sb ino);
          (sb2, ino2) \<leftarrow>
            (if offset0 = KR_DIND_BLOCK \<or> offset0 = KR_TIND_BLOCK then Some (sb1, ino1)
             else kill_tree k KR_DIND_BLOCK 2 sb1 ino1);
          if offset0 = KR_TIND_BLOCK then Some (sb2, ino2) else kill_tree k KR_TIND_BLOCK 3 sb2 ino2 }"

definition truncate_branch :: "kernel \<Rightarrow> int list \<Rightarrow> super_block \<Rightarrow> inode \<Rightarrow> (super_block \<times> inode) option" where
  "truncate_branch k offsets sb ino =
     (let n = length offsets in
      if n = 1 then kr_free_data k (map InodeSlot [hd offsets..KR_NDIR_BLOCKS - 1]) sb ino
      else do {
        (chain, nr, sb1, ino1) \<leftarrow> kr_find_shared k sb ino offsets;
        (sb2, ino2) \<leftarrow> (if nr \<noteq> 0 then free_branch k (n - length chain) nr sb1 ino1 else Some (sb1, ino1));
        clear_ends k (rev chain) (n - length chain) sb2 ino2 })"

definition kr_truncate_blocks_locked :: "kernel \<Rightarrow> super_block \<Rightarrow> inode \<Rightarrow> int \<Rightarrow> (super_block \<times> inode) option" where
  "kr_truncate_blocks_locked k sb ino offset =
     (let iblock = drop_bit (s_blocksize_bits sb) (offset + s_blocksize sb - 1);
          offsets = fst (kr_block_to_path sb iblock) in
      if offsets = [] then Some (sb, ino)
      else do {
        (sb1, ino1) \<leftarrow> truncate_branch k offsets sb ino;
        (sb2, ino2) \<leftarrow> do_indirects k (hd offsets) sb1 ino1;
        Some (kr_discard_reservation k sb2 ino2, ino2) })"

section \<open>Model: who may truncate\<close>

definition kr_inode_is_fast_symlink :: "super_block \<Rightarrow> inode \<Rightarrow> bool" where
  "kr_inode_is_fast_symlink sb ino =
     (let ea_blocks = (if i_file_acl ino \<noteq> 0 then drop_bit 9 (s_blocksize sb) else 0) in
      S_ISLNK (i_mode ino) \<and> i_blocks ino - ea_blocks = 0)"

definition IS_APPEND :: "inode \<Rightarrow> bool" where
  "IS_APPEND ino = (vfs_flags ino AND S_APPEND \<noteq> 0)"

definition IS_IMMUTABLE :: "inode \<Rightarrow> bool" where
  "IS_IMMUTABLE ino = (vfs_flags ino AND S_IMMUTABLE \<noteq> 0)"

definition has_blocks :: "inode \<Rightarrow> bool" where
  "has_blocks ino = (S_ISREG (i_mode ino) \<or> S_ISDIR (i_mode ino) \<or> S_ISLNK (i_mode ino))"

definition kr_truncate_blocks :: "kernel \<Rightarrow> super_block \<Rightarrow> inode \<Rightarrow> int \<Rightarrow> (super_block \<times> inode) option" where
  "kr_truncate_blocks k sb ino offset =
     (if \<not> has_blocks ino then Some (sb, ino)
      else if kr_inode_is_fast_symlink sb ino then Some (sb, ino)
      else if IS_APPEND ino \<or> IS_IMMUTABLE ino then Some (sb, ino)
      else kr_truncate_blocks_locked k sb ino offset)"

definition kr_write_failed :: "kernel \<Rightarrow> super_block \<Rightarrow> inode \<Rightarrow> int \<Rightarrow> (super_block \<times> inode) option" where
  "kr_write_failed k sb ino to =
     (if i_size ino < to then kr_truncate_blocks k sb ino (i_size ino) else Some (sb, ino))"

section \<open>Slots\<close>

definition valid_slot :: "super_block \<Rightarrow> inode \<Rightarrow> slot \<Rightarrow> bool" where
  "valid_slot sb ino s = (read_slot sb ino s \<noteq> None)"

lemma get_entry_set:
  assumes "set_entry xs i v = Some ys"
  shows "get_entry ys j = (if j = i then Some v else get_entry xs j)"
  using assms by (auto simp: set_entry_def get_entry_def nth_list_update split: if_splits)

lemma read_write_slot:
  assumes "write_slot sb ino s v = Some (sb', ino')"
  shows "read_slot sb' ino' t = (if t = s then Some v else read_slot sb ino t)"
  using assms get_entry_set
  by (cases s; cases t) (auto simp: bind_eq_Some_conv)

lemma write_slot_valid:
  assumes "valid_slot sb ino s"
  obtains sb' ino' where "write_slot sb ino s v = Some (sb', ino')"
  using assms by (cases s) (auto simp: valid_slot_def get_entry_def set_entry_def split: if_splits)

text \<open>The block pointers determine the arrays they are stored in.\<close>

lemma get_entry_ext: "(\<And>i. get_entry xs i = get_entry ys i) \<Longrightarrow> xs = ys"
proof (rule nth_equalityI)
  assume e: "\<And>i. get_entry xs i = get_entry ys i"
  show "length xs = length ys"
  proof (rule ccontr)
    assume "length xs \<noteq> length ys"
    then have "length xs < length ys \<or> length ys < length xs" by auto
    then show False
      using e [of "int (length xs)"] e [of "int (length ys)"] by (auto simp: get_entry_def split: if_splits)
  qed
  fix i
  assume "i < length xs"
  then show "xs ! i = ys ! i" using e [of "int i"] \<open>length xs = length ys\<close> by (simp add: get_entry_def)
qed

lemma b_ind_read:
  "(\<And>i. read_slot sb' ino' (BlockSlot b i) = read_slot sb ino (BlockSlot b i)) \<Longrightarrow> b_ind sb' b = b_ind sb b"
  by (rule get_entry_ext) simp

section \<open>What freeing does\<close>

text \<open>
  The effect of freeing the blocks \<open>B\<close> and clearing the pointers \<open>S\<close>: the allocator's state
  stays in order, exactly \<open>B\<close> becomes free, and no other pointer of any file changes.
\<close>

definition same_but_counter :: "super_block \<Rightarrow> super_block \<Rightarrow> bool" where
  "same_but_counter sb sb' =
     (sbi sb' = (sbi sb)\<lparr>s_freeblocks_counter := s_freeblocks_counter (sbi sb')\<rparr> \<and> es sb' = es sb \<and>
      s_blocksize sb' = s_blocksize sb \<and> s_blocksize_bits sb' = s_blocksize_bits sb \<and> b_inode sb' = b_inode sb \<and>
      rsv_node sb' = rsv_node sb)"

definition same_but_data :: "inode \<Rightarrow> inode \<Rightarrow> bool" where
  "same_but_data ino ino' = (ino' = ino\<lparr>i_blocks := i_blocks ino', i_data := i_data ino'\<rparr>)"

definition freed ::
  "super_block \<Rightarrow> inode \<Rightarrow> int set \<Rightarrow> slot set \<Rightarrow> super_block \<Rightarrow> inode \<Rightarrow> bool" where
  "freed sb ino B S sb' ino' =
     (fs_ok sb' \<and> free_set sb' = free_set sb \<union> B \<and> data_set sb' = data_set sb - B \<and>
      (\<forall>s. read_slot sb' ino' s = (if s \<in> S then Some 0 else read_slot sb ino s)) \<and>
      (\<forall>b. length (b_ind sb' b) = length (b_ind sb b)) \<and> length (i_data ino') = length (i_data ino) \<and>
      same_but_counter sb sb' \<and> same_but_data ino ino' \<and> inodes_kept sb sb')"

lemma same_but_counter_refl [simp]: "same_but_counter sb sb"
  by (simp add: same_but_counter_def)

lemma same_but_counter_trans: "same_but_counter a b \<Longrightarrow> same_but_counter b c \<Longrightarrow> same_but_counter a c"
  by (simp add: same_but_counter_def) (metis kr_sb_info.surjective kr_sb_info.update_convs(24))

lemma same_but_data_refl [simp]: "same_but_data ino ino"
  by (simp add: same_but_data_def)

lemma same_but_data_trans: "same_but_data a b \<Longrightarrow> same_but_data b c \<Longrightarrow> same_but_data a c"
  by (cases a; cases b; cases c) (simp add: same_but_data_def)

lemma freed_refl: "fs_ok sb \<Longrightarrow> freed sb ino {} {} sb ino"
  by (simp add: freed_def)

lemma freed_trans:
  assumes "freed sb ino B S sb1 ino1" "freed sb1 ino1 B' S' sb2 ino2"
  shows "freed sb ino (B \<union> B') (S \<union> S') sb2 ino2"
  using assms same_but_counter_trans [of sb sb1 sb2] same_but_data_trans [of ino ino1 ino2] inodes_kept_trans [of sb sb1 sb2]
  by (auto simp: freed_def)

lemma addr_per_block_frame: "same_but_counter sb sb' \<Longrightarrow> KR_ADDR_PER_BLOCK sb' = KR_ADDR_PER_BLOCK sb"
  by (simp add: same_but_counter_def KR_ADDR_PER_BLOCK_def)

lemma freed_addr: "freed sb ino B S sb' ino' \<Longrightarrow> KR_ADDR_PER_BLOCK sb' = KR_ADDR_PER_BLOCK sb"
  by (simp add: freed_def addr_per_block_frame)

lemma freed_read:
  "freed sb ino B S sb' ino' \<Longrightarrow> read_slot sb' ino' s = (if s \<in> S then Some 0 else read_slot sb ino s)"
  by (simp add: freed_def)

lemma freed_b_ind:
  assumes "freed sb ino B S sb' ino'" "\<And>i. BlockSlot b i \<notin> S"
  shows "b_ind sb' b = b_ind sb b"
  by (rule b_ind_read [of sb' ino' b sb ino]) (simp only: freed_read [OF assms(1)] assms(2) if_False)

lemma fs_ok_b_ind [simp]:
  "fs_ok (sb\<lparr>b_ind := f\<rparr>) = fs_ok sb" "free_set (sb\<lparr>b_ind := f\<rparr>) = free_set sb" "data_set (sb\<lparr>b_ind := f\<rparr>) = data_set sb"
  "inodes_kept sb (sb\<lparr>b_ind := f\<rparr>)"
proof -
  have v: "alloc_view (sb\<lparr>b_ind := f\<rparr>) = alloc_view sb" by (simp add: alloc_view_def)
  show "fs_ok (sb\<lparr>b_ind := f\<rparr>) = fs_ok sb" "free_set (sb\<lparr>b_ind := f\<rparr>) = free_set sb"
    "data_set (sb\<lparr>b_ind := f\<rparr>) = data_set sb" by (rule alloc_viewD(4-6) [OF v])+
  show "inodes_kept sb (sb\<lparr>b_ind := f\<rparr>)" by (rule alloc_view_inodes_kept [OF v])
qed

lemma write_slot_freed:
  assumes "fs_ok sb" "write_slot sb ino s 0 = Some (sb', ino')"
  shows "freed sb ino {} {s} sb' ino'"
proof -
  have "fs_ok sb' \<and> free_set sb' = free_set sb \<and> data_set sb' = data_set sb \<and> same_but_counter sb sb' \<and> same_but_data ino ino' \<and>
      (\<forall>b. length (b_ind sb' b) = length (b_ind sb b)) \<and> length (i_data ino') = length (i_data ino) \<and> inodes_kept sb sb'"
    using assms by (cases s) (auto simp: bind_eq_Some_conv same_but_counter_def same_but_data_def set_entry_def split: if_splits)
  then show ?thesis using read_write_slot [OF assms(2)] by (simp add: freed_def)
qed

lemma kr_free_blocks_freed:
  assumes "io_ok k" "quota_ok k" "fs_ok sb" "0 < n" "n < 2147483648" "{b..<b + n} \<subseteq> data_set sb"
  obtains sb' ino' where "kr_free_blocks k sb ino b n = Some (sb', ino')" "freed sb ino {b..<b + n} {} sb' ino'"
proof -
  have fr: "freeable sb b n" using assms(4,6) by (simp add: freeable_iff)
  obtain sb' where f: "kr_free_blocks k sb ino b n = Some (sb', k_dquot_free_block k ino n)" "fs_ok sb'"
      "free_set sb' = free_set sb \<union> {b..<b + n}"
      "sbi sb' = (sbi sb)\<lparr>s_freeblocks_counter := s_freeblocks_counter (sbi sb) + n\<rparr>"
      "same_files sb sb'" "rsv_node sb' = rsv_node sb" "data_set sb' = data_set sb - {b..<b + n}"
      "\<exists>s. blocks_changed sb s \<and> sb' = freeblocks_add n s"
    using kr_free_blocks_ok [OF assms(1,3) fr assms(5), of ino] by blast
  then have kept: "inodes_kept sb sb'" using freed_blocks_kept by blast
  have q: "same_but_blocks ino (k_dquot_free_block k ino n)" using assms(2) by (simp add: quota_ok_def)
  then have d: "same_but_data ino (k_dquot_free_block k ino n)" "i_data (k_dquot_free_block k ino n) = i_data ino"
    by (cases ino; cases "k_dquot_free_block k ino n"; simp add: same_but_data_def same_but_blocks_def)+
  have r: "read_slot sb' (k_dquot_free_block k ino n) s = read_slot sb ino s" for s
    using f(5) d(2) by (cases s) (simp_all add: same_files_def)
  show ?thesis
    by (rule that [OF f(1)])
      (use f r d kept in \<open>simp add: freed_def same_but_counter_def same_files_def\<close>)
qed

section \<open>Freeing data blocks\<close>

text \<open>The block numbers in a list of slots.\<close>

definition slot_value :: "super_block \<Rightarrow> inode \<Rightarrow> slot \<Rightarrow> 32 word" where
  "slot_value sb ino s = the (read_slot sb ino s)"

definition slot_blocks :: "super_block \<Rightarrow> inode \<Rightarrow> slot list \<Rightarrow> int list" where
  "slot_blocks sb ino ps = map uint (filter (\<lambda>v. v \<noteq> 0) (map (slot_value sb ino) ps))"

lemma slot_blocks_Nil [simp]: "slot_blocks sb ino [] = []"
  by (simp add: slot_blocks_def)

lemma slot_blocks_Cons:
  "slot_blocks sb ino (p # ps) =
     (if slot_value sb ino p = 0 then slot_blocks sb ino ps else uint (slot_value sb ino p) # slot_blocks sb ino ps)"
  by (simp add: slot_blocks_def)

lemma slot_blocks_cong:
  assumes "\<And>p. p \<in> set ps \<Longrightarrow> read_slot sb' ino' p = read_slot sb ino p"
  shows "slot_blocks sb' ino' ps = slot_blocks sb ino ps"
proof -
  have "map (slot_value sb' ino') ps = map (slot_value sb ino) ps"
    using assms by (intro map_cong refl) (simp add: slot_value_def)
  then show ?thesis by (simp only: slot_blocks_def)
qed

lemma valid_slotD: "valid_slot sb ino p \<Longrightarrow> read_slot sb ino p = Some (slot_value sb ino p)"
  by (auto simp: valid_slot_def slot_value_def)

lemma run_continues:
  assumes "0 \<le> f" "f < 4294967296" "0 < count" "count < 4294967296"
  shows "f = u64 (uint (nr :: 32 word) - count) \<longleftrightarrow> uint nr = f + count"
proof (cases "count \<le> uint nr")
  case True
  have "u64 (uint nr - count) = uint nr - count"
    using True assms uint32_lt [of nr] by (intro u64_id) linarith+
  then show ?thesis by auto
next
  case False
  have "u64 (uint nr - count) = uint nr - count + 18446744073709551616"
  proof -
    have "(uint nr - count) mod 18446744073709551616 = (uint nr - count + 18446744073709551616) mod 18446744073709551616" by simp
    also have "\<dots> = uint nr - count + 18446744073709551616"
      using False assms uint_ge_0 [of nr] by (intro mod_pos_pos_trivial) linarith+
    finally show ?thesis by (simp add: u64_def)
  qed
  then have "f \<noteq> u64 (uint nr - count)" "uint nr \<noteq> f + count" using False assms uint_ge_0 [of nr] by linarith+
  then show ?thesis by simp
qed

lemma data_set_range: "b \<in> data_set sb \<Longrightarrow> 0 \<le> b \<and> b < 4294967296"
proof -
  assume "b \<in> data_set sb"
  then have "uint (es_first_data_block (es sb)) \<le> b" "b < uint (es_blocks_count (es sb))" by (simp_all add: data_set_def)
  then show ?thesis using uint_ge_0 [of "es_first_data_block (es sb)"] uint32_lt [of "es_blocks_count (es sb)"] by linarith
qed

lemma free_data_loop_freed:
  assumes io: "io_ok k" and q: "quota_ok k"
  shows "\<lbrakk> fs_ok sb; distinct ps; \<forall>p \<in> set ps. valid_slot sb ino p;
     distinct (slot_blocks sb ino ps); set (slot_blocks sb ino ps) \<subseteq> data_set sb;
     0 \<le> count; {f..<f + count} \<subseteq> data_set sb; {f..<f + count} \<inter> set (slot_blocks sb ino ps) = {};
     count + int (length ps) < 2147483648 \<rbrakk> \<Longrightarrow>
     \<exists>sb' ino'. free_data_loop k ps sb ino f count = Some (sb', ino') \<and>
       freed sb ino ({f..<f + count} \<union> set (slot_blocks sb ino ps)) (set (filter (\<lambda>p. slot_value sb ino p \<noteq> 0) ps)) sb' ino'"
proof (induction ps arbitrary: sb ino f count)
  case Nil
  show ?case
  proof (cases "0 < count")
    case True
    obtain sb' ino' where "kr_free_blocks k sb ino f count = Some (sb', ino')" "freed sb ino {f..<f + count} {} sb' ino'"
      using kr_free_blocks_freed [OF io q Nil(1) True _ Nil(7)] Nil(9) by auto
    then show ?thesis using True by simp
  next
    case False
    then show ?thesis using Nil freed_refl by simp
  qed
next
  case (Cons p ps)
  let ?v = "slot_value sb ino p"
  have rd: "read_slot sb ino p = Some ?v" using Cons.prems(3) valid_slotD by simp
  show ?case
  proof (cases "?v = 0")
    case True
    then show ?thesis using Cons.IH [of sb ino count f] Cons.prems rd by (simp add: slot_blocks_Cons)
  next
    case False
    obtain sb1 ino1 where w: "write_slot sb ino p 0 = Some (sb1, ino1)"
      using write_slot_valid [of sb ino p 0] Cons.prems(3) by auto
    note f1 = write_slot_freed [OF Cons.prems(1) w]
    have same: "read_slot sb1 ino1 x = read_slot sb ino x" if "x \<in> set ps" for x
      using freed_read [OF f1, of x] that Cons.prems(2) by auto
    have sb1: "slot_blocks sb1 ino1 ps = slot_blocks sb ino ps" using same by (rule slot_blocks_cong)
    have val: "\<forall>x \<in> set ps. valid_slot sb1 ino1 x" using Cons.prems(3) same by (simp add: valid_slot_def)
    have nz: "filter (\<lambda>p. slot_value sb1 ino1 p \<noteq> 0) ps = filter (\<lambda>p. slot_value sb ino p \<noteq> 0) ps"
      using same by (intro filter_cong) (simp_all add: slot_value_def)
    have d1: "fs_ok sb1" "data_set sb1 = data_set sb" using f1 by (simp_all add: freed_def)
    have sl: "slot_blocks sb ino (p # ps) = uint ?v # slot_blocks sb ino ps" using False by (simp add: slot_blocks_Cons)
    have dist: "distinct (slot_blocks sb ino ps)" "uint ?v \<notin> set (slot_blocks sb ino ps)"
      "set (slot_blocks sb ino ps) \<subseteq> data_set sb" "uint ?v \<in> data_set sb" "uint ?v \<notin> {f..<f + count}"
      "{f..<f + count} \<inter> set (slot_blocks sb ino ps) = {}"
      using Cons.prems(4,5,8) sl by auto
    have step: "\<exists>sb' ino'. free_data_loop k ps sb2 ino2 g c = Some (sb', ino') \<and>
        freed sb2 ino2 ({g..<g + c} \<union> set (slot_blocks sb ino ps)) (set (filter (\<lambda>p. slot_value sb ino p \<noteq> 0) ps)) sb' ino'"
      if s2: "fs_ok sb2" "\<And>x. x \<in> set ps \<Longrightarrow> read_slot sb2 ino2 x = read_slot sb ino x"
        and g: "0 \<le> c" "{g..<g + c} \<subseteq> data_set sb2" "set (slot_blocks sb ino ps) \<subseteq> data_set sb2"
        "{g..<g + c} \<inter> set (slot_blocks sb ino ps) = {}" "c \<le> count + 1" for sb2 ino2 g c
    proof -
      have e: "slot_blocks sb2 ino2 ps = slot_blocks sb ino ps" using s2(2) by (rule slot_blocks_cong)
      have nz2: "filter (\<lambda>p. slot_value sb2 ino2 p \<noteq> 0) ps = filter (\<lambda>p. slot_value sb ino p \<noteq> 0) ps"
        using s2(2) by (intro filter_cong) (simp_all add: slot_value_def)
      have "\<forall>x \<in> set ps. valid_slot sb2 ino2 x" using Cons.prems(3) s2(2) by (simp add: valid_slot_def)
      then show ?thesis
        using Cons.IH [of sb2 ino2 c g] s2(1) Cons.prems(2,9) dist(1) g unfolding e nz2 by simp
    qed
    have S: "set (filter (\<lambda>p. slot_value sb ino p \<noteq> 0) (p # ps)) = {p} \<union> set (filter (\<lambda>p. slot_value sb ino p \<noteq> 0) ps)"
      using False by simp
    consider "count = 0" | "0 < count" "uint ?v = f + count" | "0 < count" "uint ?v \<noteq> f + count"
      using Cons.prems(6) by linarith
    then show ?thesis
    proof cases
      case 1
      have run: "{uint ?v..<uint ?v + 1} = {uint ?v}" by auto
      obtain sb' ino' where r: "free_data_loop k ps sb1 ino1 (uint ?v) 1 = Some (sb', ino')"
        "freed sb1 ino1 ({uint ?v..<uint ?v + 1} \<union> set (slot_blocks sb ino ps)) (set (filter (\<lambda>p. slot_value sb ino p \<noteq> 0) ps)) sb' ino'"
        using step [of sb1 ino1 1 "uint ?v"] d1 same dist 1 unfolding run by auto
      have "freed sb ino ({f..<f + count} \<union> set (slot_blocks sb ino (p # ps))) (set (filter (\<lambda>p. slot_value sb ino p \<noteq> 0) (p # ps))) sb' ino'"
        using freed_trans [OF f1 r(2)] unfolding S sl run using 1 by (simp add: insert_commute)
      then show ?thesis using rd w False 1 r(1) by simp
    next
      case 2
      have f: "f \<in> data_set sb" using Cons.prems(7) 2(1) by auto
      have run: "{f..<f + (count + 1)} = {f..<f + count} \<union> {uint ?v}" using 2 by auto
      obtain sb' ino' where r: "free_data_loop k ps sb1 ino1 f (count + 1) = Some (sb', ino')"
        "freed sb1 ino1 ({f..<f + (count + 1)} \<union> set (slot_blocks sb ino ps)) (set (filter (\<lambda>p. slot_value sb ino p \<noteq> 0) ps)) sb' ino'"
        using step [of sb1 ino1 "count + 1" f] d1 same dist Cons.prems(7) 2 unfolding run by auto
      have "freed sb ino ({f..<f + count} \<union> set (slot_blocks sb ino (p # ps))) (set (filter (\<lambda>p. slot_value sb ino p \<noteq> 0) (p # ps))) sb' ino'"
        using freed_trans [OF f1 r(2)] unfolding S sl run by (simp add: Un_assoc)
      moreover have "f = u64 (uint ?v - count)"
        using run_continues [of f count ?v] data_set_range [OF f] 2 Cons.prems(9) by auto
      ultimately show ?thesis using rd w False 2(1) r(1) by auto
    next
      case 3
      have f: "f \<in> data_set sb" using Cons.prems(7) 3(1) by auto
      have run: "{uint ?v..<uint ?v + 1} = {uint ?v}" by auto
      obtain sb2 ino2 where fb: "kr_free_blocks k sb1 ino1 f count = Some (sb2, ino2)" "freed sb1 ino1 {f..<f + count} {} sb2 ino2"
        using kr_free_blocks_freed [OF io q d1(1) 3(1), of f ino1] Cons.prems(7,9) d1(2) by auto
      have "fs_ok sb2" "data_set sb2 = data_set sb - {f..<f + count}" "\<And>x. read_slot sb2 ino2 x = read_slot sb1 ino1 x"
        using fb(2) d1(2) by (auto simp: freed_def)
      moreover have "set (slot_blocks sb ino ps) \<subseteq> data_set sb - {f..<f + count}" using dist(3,6) by blast
      ultimately obtain sb' ino' where r: "free_data_loop k ps sb2 ino2 (uint ?v) 1 = Some (sb', ino')"
        "freed sb2 ino2 ({uint ?v..<uint ?v + 1} \<union> set (slot_blocks sb ino ps)) (set (filter (\<lambda>p. slot_value sb ino p \<noteq> 0) ps)) sb' ino'"
        using step [of sb2 ino2 1 "uint ?v"] same dist 3(1) unfolding run by auto
      have "freed sb ino ({f..<f + count} \<union> set (slot_blocks sb ino (p # ps))) (set (filter (\<lambda>p. slot_value sb ino p \<noteq> 0) (p # ps))) sb' ino'"
        using freed_trans [OF f1 freed_trans [OF fb(2) r(2)]] unfolding S sl run by (simp add: insert_commute Un_insert_right)
      moreover have "f \<noteq> u64 (uint ?v - count)"
        using run_continues [of f count ?v] data_set_range [OF f] 3 Cons.prems(9) by auto
      ultimately show ?thesis using rd w False 3(1) fb(1) r(1) by auto
    qed
  qed
qed

section \<open>Freeing branches\<close>

text \<open>
  The blocks of the branch of depth \<open>d\<close> that grows from the block number \<open>nr\<close>, and those of
  them that hold pointers.
\<close>

primrec branch_blocks :: "super_block \<Rightarrow> nat \<Rightarrow> 32 word \<Rightarrow> int list" where
  "branch_blocks sb 0 = (\<lambda>nr. if nr = 0 then [] else [uint nr])"
| "branch_blocks sb (Suc d) =
     (\<lambda>nr. if nr = 0 then [] else uint nr # concat (map (branch_blocks sb d) (b_ind sb (uint nr))))"

primrec branch_nodes :: "super_block \<Rightarrow> nat \<Rightarrow> 32 word \<Rightarrow> int set" where
  "branch_nodes sb 0 = (\<lambda>nr. {})"
| "branch_nodes sb (Suc d) =
     (\<lambda>nr. if nr = 0 then {} else insert (uint nr) (\<Union>v \<in> set (b_ind sb (uint nr)). branch_nodes sb d v))"

definition node_slots :: "super_block \<Rightarrow> int set \<Rightarrow> slot set" where
  "node_slots sb N = {BlockSlot x i | x i. x \<in> N \<and> 0 \<le> i \<and> i < KR_ADDR_PER_BLOCK sb}"

lemma branch_zero [simp]: "branch_blocks sb d 0 = []" "branch_nodes sb d 0 = {}"
  by (cases d; simp)+

lemma branch_nodes_blocks: "branch_nodes sb d nr \<subseteq> set (branch_blocks sb d nr)"
  by (induction d arbitrary: nr) auto

lemma branch_cong:
  assumes "\<And>x. x \<in> branch_nodes sb d nr \<Longrightarrow> b_ind sb' x = b_ind sb x"
  shows "branch_blocks sb' d nr = branch_blocks sb d nr" "branch_nodes sb' d nr = branch_nodes sb d nr"
proof -
  have "branch_blocks sb' d nr = branch_blocks sb d nr \<and> branch_nodes sb' d nr = branch_nodes sb d nr"
    using assms
  proof (induction d arbitrary: nr)
    case (Suc d)
    show ?case
    proof (cases "nr = 0")
      case False
      have e: "b_ind sb' (uint nr) = b_ind sb (uint nr)" using Suc.prems [of "uint nr"] False by simp
      have "branch_blocks sb' d v = branch_blocks sb d v \<and> branch_nodes sb' d v = branch_nodes sb d v"
        if "v \<in> set (b_ind sb (uint nr))" for v
        using Suc.IH [of v] Suc.prems False that by auto
      then have "map (branch_blocks sb' d) (b_ind sb (uint nr)) = map (branch_blocks sb d) (b_ind sb (uint nr))"
        "(\<Union>v \<in> set (b_ind sb (uint nr)). branch_nodes sb' d v) = (\<Union>v \<in> set (b_ind sb (uint nr)). branch_nodes sb d v)"
        by auto
      then show ?thesis using False e by (simp only: branch_blocks.simps branch_nodes.simps if_False)
    qed simp
  qed simp
  then show "branch_blocks sb' d nr = branch_blocks sb d nr" "branch_nodes sb' d nr = branch_nodes sb d nr" by simp_all
qed

lemma node_slots_frame: "same_but_counter sb sb' \<Longrightarrow> node_slots sb' N = node_slots sb N"
  by (simp add: node_slots_def addr_per_block_frame)

text \<open>Slots that are zero already may be counted among the cleared ones.\<close>

lemma freed_zero:
  assumes "freed sb ino B S sb' ino'" "S \<subseteq> T" "\<And>s. s \<in> T - S \<Longrightarrow> read_slot sb ino s = Some 0"
  shows "freed sb ino B T sb' ino'"
  using assms by (auto simp: freed_def)

lemma valid_block_slot:
  assumes "int (length (b_ind sb b)) = KR_ADDR_PER_BLOCK sb"
  shows "valid_slot sb ino (BlockSlot b i) \<longleftrightarrow> 0 \<le> i \<and> i < KR_ADDR_PER_BLOCK sb"
    "0 \<le> i \<Longrightarrow> i < KR_ADDR_PER_BLOCK sb \<Longrightarrow> slot_value sb ino (BlockSlot b i) = b_ind sb b ! nat i"
  using assms by (auto simp: valid_slot_def slot_value_def get_entry_def)

text \<open>The blocks and pointers of the branches that grow from a list of slots.\<close>

definition slots_blocks :: "super_block \<Rightarrow> inode \<Rightarrow> nat \<Rightarrow> slot list \<Rightarrow> int list" where
  "slots_blocks sb ino d ps = concat (map (\<lambda>p. branch_blocks sb d (slot_value sb ino p)) ps)"

definition slots_nodes :: "super_block \<Rightarrow> inode \<Rightarrow> nat \<Rightarrow> slot list \<Rightarrow> int set" where
  "slots_nodes sb ino d ps = (\<Union>p \<in> set ps. branch_nodes sb d (slot_value sb ino p))"

lemma slots_blocks_data: "slots_blocks sb ino 0 ps = slot_blocks sb ino ps" "slots_nodes sb ino 0 ps = {}"
  by (induction ps) (simp_all add: slots_blocks_def slots_nodes_def slot_blocks_def)

lemma slots_blocks_Cons:
  "slots_blocks sb ino d (p # ps) = branch_blocks sb d (slot_value sb ino p) @ slots_blocks sb ino d ps"
  "slots_nodes sb ino d (p # ps) = branch_nodes sb d (slot_value sb ino p) \<union> slots_nodes sb ino d ps"
  by (simp_all add: slots_blocks_def slots_nodes_def)

lemma slots_nodes_blocks: "slots_nodes sb ino d ps \<subseteq> set (slots_blocks sb ino d ps)"
  using branch_nodes_blocks by (fastforce simp: slots_nodes_def slots_blocks_def)

lemma slots_blocks_block:
  assumes "int (length (b_ind sb b)) = KR_ADDR_PER_BLOCK sb"
  shows "slots_blocks sb ino d (block_slots sb b 0) = concat (map (branch_blocks sb d) (b_ind sb b))"
    "slots_nodes sb ino d (block_slots sb b 0) = (\<Union>v \<in> set (b_ind sb b). branch_nodes sb d v)"
proof -
  have "map (slot_value sb ino) (block_slots sb b 0) = b_ind sb b"
  proof (rule nth_equalityI)
    show "length (map (slot_value sb ino) (block_slots sb b 0)) = length (b_ind sb b)"
      using assms by (simp add: block_slots_def)
    fix i
    assume "i < length (map (slot_value sb ino) (block_slots sb b 0))"
    then have i: "int i < KR_ADDR_PER_BLOCK sb" by (simp add: block_slots_def)
    then have "[0..KR_ADDR_PER_BLOCK sb - 1] ! i = int i" by simp
    then show "map (slot_value sb ino) (block_slots sb b 0) ! i = b_ind sb b ! i"
      using i valid_block_slot(2) [OF assms, of "int i" ino] by (simp add: block_slots_def)
  qed
  then have m: "map f (map (slot_value sb ino) (block_slots sb b 0)) = map f (b_ind sb b)"
    "set (map (slot_value sb ino) (block_slots sb b 0)) = set (b_ind sb b)" for f :: "32 word \<Rightarrow> int list" by simp_all
  show "slots_blocks sb ino d (block_slots sb b 0) = concat (map (branch_blocks sb d) (b_ind sb b))"
    using m(1) [of "branch_blocks sb d"] by (simp add: slots_blocks_def comp_def)
  have "(\<Union>p \<in> set (block_slots sb b 0). branch_nodes sb d (slot_value sb ino p)) =
      (\<Union>v \<in> set (map (slot_value sb ino) (block_slots sb b 0)). branch_nodes sb d v)" by simp
  then show "slots_nodes sb ino d (block_slots sb b 0) = (\<Union>v \<in> set (b_ind sb b). branch_nodes sb d v)"
    unfolding slots_nodes_def m(2) .
qed

definition ind_ok :: "super_block \<Rightarrow> bool" where
  "ind_ok sb = (KR_ADDR_PER_BLOCK sb \<le> 32768 \<and> (\<forall>b. int (length (b_ind sb b)) = KR_ADDR_PER_BLOCK sb))"

fun slot_apart :: "int set \<Rightarrow> slot \<Rightarrow> bool" where
  "slot_apart N (InodeSlot i) = True"
| "slot_apart N (BlockSlot b i) = (b \<notin> N)"

lemma slot_apart_Un [simp]: "slot_apart (A \<union> B) s \<longleftrightarrow> slot_apart A s \<and> slot_apart B s"
  by (cases s) auto

lemma slot_apart_mono: "slot_apart B s \<Longrightarrow> A \<subseteq> B \<Longrightarrow> slot_apart A s"
  by (cases s) auto

lemma slot_apart_node: "slot_apart N s \<Longrightarrow> s \<notin> node_slots sb N"
  by (cases s) (auto simp: node_slots_def)

lemma apart_slot: "slot_apart N s \<Longrightarrow> x \<in> N \<Longrightarrow> BlockSlot x i \<noteq> s"
  by (cases s) auto

lemma freed_ind_ok: "freed sb ino B S sb' ino' \<Longrightarrow> ind_ok sb \<Longrightarrow> ind_ok sb'"
  using freed_addr [of sb ino B S sb' ino'] by (auto simp: ind_ok_def freed_def)

lemma freed_branch:
  assumes "freed sb ino B S sb' ino'" "\<And>x i. x \<in> branch_nodes sb d nr \<Longrightarrow> BlockSlot x i \<notin> S"
  shows "branch_blocks sb' d nr = branch_blocks sb d nr" "branch_nodes sb' d nr = branch_nodes sb d nr"
  using branch_cong [of sb d nr sb'] freed_b_ind [OF assms(1)] assms(2) by blast+

lemma freed_slots:
  assumes f: "freed sb ino B S sb' ino'" and "\<And>p. p \<in> set ps \<Longrightarrow> p \<notin> S"
    and "\<And>x i. x \<in> slots_nodes sb ino d ps \<Longrightarrow> BlockSlot x i \<notin> S"
  shows "slots_blocks sb' ino' d ps = slots_blocks sb ino d ps" "slots_nodes sb' ino' d ps = slots_nodes sb ino d ps"
    "p \<in> set ps \<Longrightarrow> slot_value sb' ino' p = slot_value sb ino p"
    "p \<in> set ps \<Longrightarrow> valid_slot sb' ino' p = valid_slot sb ino p"
proof -
  have v: "slot_value sb' ino' p = slot_value sb ino p \<and> valid_slot sb' ino' p = valid_slot sb ino p" if "p \<in> set ps" for p
    using freed_read [OF f, of p] assms(2) that by (simp add: slot_value_def valid_slot_def)
  have b: "branch_blocks sb' d (slot_value sb' ino' p) = branch_blocks sb d (slot_value sb ino p) \<and>
      branch_nodes sb' d (slot_value sb' ino' p) = branch_nodes sb d (slot_value sb ino p)" if "p \<in> set ps" for p
    using freed_branch [OF f, of d "slot_value sb ino p"] assms(3) v that by (auto simp: slots_nodes_def)
  show "slots_blocks sb' ino' d ps = slots_blocks sb ino d ps"
    unfolding slots_blocks_def using b by (intro arg_cong [of _ _ concat] map_cong refl) simp
  show "slots_nodes sb' ino' d ps = slots_nodes sb ino d ps"
    unfolding slots_nodes_def using b by (intro SUP_cong refl) simp
  show "p \<in> set ps \<Longrightarrow> slot_value sb' ino' p = slot_value sb ino p"
    "p \<in> set ps \<Longrightarrow> valid_slot sb' ino' p = valid_slot sb ino p" using v by simp_all
qed

definition branch_spec :: "kernel \<Rightarrow> nat \<Rightarrow> bool" where
  "branch_spec k d =
     (\<forall>nr sb ino. fs_ok sb \<longrightarrow> ind_ok sb \<longrightarrow> nr \<noteq> 0 \<longrightarrow> distinct (branch_blocks sb d nr) \<longrightarrow>
        set (branch_blocks sb d nr) \<subseteq> data_set sb \<longrightarrow>
        (\<exists>sb' ino'. free_branch k d nr sb ino = Some (sb', ino') \<and>
           freed sb ino (set (branch_blocks sb d nr)) (node_slots sb (branch_nodes sb d nr)) sb' ino'))"

lemma free_slots_freed:
  assumes spec: "branch_spec k d"
  shows "\<lbrakk> fs_ok sb; ind_ok sb; distinct ps; \<forall>p \<in> set ps. valid_slot sb ino p \<and> slot_apart (slots_nodes sb ino d ps) p;
     distinct (slots_blocks sb ino d ps); set (slots_blocks sb ino d ps) \<subseteq> data_set sb \<rbrakk> \<Longrightarrow>
     \<exists>sb' ino'. free_slots (free_branch k d) ps sb ino = Some (sb', ino') \<and>
       freed sb ino (set (slots_blocks sb ino d ps)) (set ps \<union> node_slots sb (slots_nodes sb ino d ps)) sb' ino'"
proof (induction ps arbitrary: sb ino)
  case Nil
  then show ?case using freed_refl by (simp add: slots_blocks_def slots_nodes_def node_slots_def)
next
  case (Cons p ps)
  let ?v = "slot_value sb ino p"
  have rd: "read_slot sb ino p = Some ?v" using Cons.prems(4) valid_slotD by simp
  note C = slots_blocks_Cons [of sb ino d p ps]
  have apart: "slot_apart (branch_nodes sb d ?v) q" "slot_apart (slots_nodes sb ino d ps) q" if "q \<in> set (p # ps)" for q
    using Cons.prems(4) that by (auto simp: C)
  have nodes: "branch_nodes sb d ?v \<inter> slots_nodes sb ino d ps = {}"
    using Cons.prems(5) branch_nodes_blocks [of sb d ?v] slots_nodes_blocks [of sb ino d ps] unfolding C by auto
  have N: "node_slots sb (slots_nodes sb ino d (p # ps)) =
      node_slots sb (branch_nodes sb d ?v) \<union> node_slots sb (slots_nodes sb ino d ps)"
    by (auto simp: C node_slots_def)
  have rest: "\<exists>sb' ino'. free_slots (free_branch k d) ps sb1 ino1 = Some (sb', ino') \<and>
      freed sb ino (B \<union> set (slots_blocks sb ino d ps))
        (S \<union> (set ps \<union> node_slots sb (slots_nodes sb ino d ps))) sb' ino'"
    if f: "freed sb ino B S sb1 ino1" and B: "B \<inter> set (slots_blocks sb ino d ps) = {}"
      and S: "S \<subseteq> {p} \<union> node_slots sb (branch_nodes sb d ?v)" for B S sb1 ino1
  proof -
    have "q \<notin> S" if "q \<in> set ps" for q
      using S apart(1) [of q] slot_apart_node [of "branch_nodes sb d ?v" q sb] that Cons.prems(3) by auto
    moreover have "BlockSlot x i \<notin> S" if "x \<in> slots_nodes sb ino d ps" for x i
      using S that nodes apart_slot [OF apart(2) [of p] that] by (auto simp: node_slots_def)
    ultimately have F: "slots_blocks sb1 ino1 d ps = slots_blocks sb ino d ps"
      "slots_nodes sb1 ino1 d ps = slots_nodes sb ino d ps" "\<forall>q \<in> set ps. valid_slot sb1 ino1 q = valid_slot sb ino q"
      using freed_slots [OF f] by blast+
    have n: "node_slots sb1 = node_slots sb" using f node_slots_frame by (auto simp: freed_def fun_eq_iff)
    have "fs_ok sb1" "data_set sb1 = data_set sb - B" using f by (simp_all add: freed_def)
    moreover have "set (slots_blocks sb ino d ps) \<subseteq> data_set sb - B" using B Cons.prems(6) by (auto simp: C)
    ultimately obtain sb' ino' where r: "free_slots (free_branch k d) ps sb1 ino1 = Some (sb', ino')"
        "freed sb1 ino1 (set (slots_blocks sb ino d ps)) (set ps \<union> node_slots sb (slots_nodes sb ino d ps)) sb' ino'"
      using Cons.IH [of sb1 ino1, unfolded F(1,2) n] freed_ind_ok [OF f Cons.prems(2)] Cons.prems(3-6) F(3) apart(2) B
      by (auto simp: C)
    show ?thesis using r(1) freed_trans [OF f r(2)] by blast
  qed
  show ?case
  proof (cases "?v = 0")
    case True
    obtain sb' ino' where r: "free_slots (free_branch k d) ps sb ino = Some (sb', ino')"
        "freed sb ino (set (slots_blocks sb ino d ps)) (set ps \<union> node_slots sb (slots_nodes sb ino d ps)) sb' ino'"
      using rest [OF freed_refl [OF Cons.prems(1)]] by auto
    have "freed sb ino (set (slots_blocks sb ino d ps)) (set (p # ps) \<union> node_slots sb (slots_nodes sb ino d ps)) sb' ino'"
      by (rule freed_zero [OF r(2)]) (use rd True in auto)
    then show ?thesis using r(1) rd True by (simp add: C)
  next
    case False
    obtain sb1 ino1 where w: "write_slot sb ino p 0 = Some (sb1, ino1)"
      using write_slot_valid [of sb ino p 0] Cons.prems(4) by auto
    note f1 = write_slot_freed [OF Cons.prems(1) w]
    have e: "branch_blocks sb1 d ?v = branch_blocks sb d ?v" "branch_nodes sb1 d ?v = branch_nodes sb d ?v"
      using freed_branch [OF f1, of d ?v] apart_slot [OF apart(1) [of p]] by auto
    have n: "node_slots sb1 = node_slots sb" using f1 node_slots_frame by (auto simp: freed_def fun_eq_iff)
    have "fs_ok sb1" "data_set sb1 = data_set sb" using f1 by (simp_all add: freed_def)
    then obtain sb2 ino2 where fb: "free_branch k d ?v sb1 ino1 = Some (sb2, ino2)"
        "freed sb1 ino1 (set (branch_blocks sb d ?v)) (node_slots sb (branch_nodes sb d ?v)) sb2 ino2"
      using spec [unfolded branch_spec_def, rule_format, of sb1 ?v ino1, unfolded e n] False
        freed_ind_ok [OF f1 Cons.prems(2)] Cons.prems(5,6) by (auto simp: C)
    note f2 = freed_trans [OF f1 fb(2)]
    obtain sb' ino' where r: "free_slots (free_branch k d) ps sb2 ino2 = Some (sb', ino')"
        "freed sb ino ({} \<union> set (branch_blocks sb d ?v) \<union> set (slots_blocks sb ino d ps))
          ({p} \<union> node_slots sb (branch_nodes sb d ?v) \<union> (set ps \<union> node_slots sb (slots_nodes sb ino d ps))) sb' ino'"
      using rest [OF f2] Cons.prems(5) by (auto simp: C)
    have "set (p # ps) \<union> node_slots sb (slots_nodes sb ino d (p # ps)) =
        {p} \<union> node_slots sb (branch_nodes sb d ?v) \<union> (set ps \<union> node_slots sb (slots_nodes sb ino d ps))"
      "set (slots_blocks sb ino d (p # ps)) = {} \<union> set (branch_blocks sb d ?v) \<union> set (slots_blocks sb ino d ps)"
      unfolding N by (auto simp: C)
    then show ?thesis using r rd w fb(1) False by simp
  qed
qed

lemma block_slots_props:
  assumes "ind_ok sb" "0 \<le> i"
  shows "distinct (block_slots sb b i)" "\<forall>p \<in> set (block_slots sb b i). valid_slot sb ino p"
    "set (block_slots sb b i) = {BlockSlot b j | j. i \<le> j \<and> j < KR_ADDR_PER_BLOCK sb}"
    "length (block_slots sb b i) \<le> 32768"
proof -
  have l: "int (length (b_ind sb b)) = KR_ADDR_PER_BLOCK sb" using assms(1) by (simp add: ind_ok_def)
  show s: "set (block_slots sb b i) = {BlockSlot b j | j. i \<le> j \<and> j < KR_ADDR_PER_BLOCK sb}"
    by (auto simp: block_slots_def)
  show "distinct (block_slots sb b i)" by (simp add: block_slots_def distinct_map inj_on_def)
  show "\<forall>p \<in> set (block_slots sb b i). valid_slot sb ino p" unfolding s using valid_block_slot(1) [OF l] assms(2) by auto
  show "length (block_slots sb b i) \<le> 32768" using assms by (auto simp: block_slots_def ind_ok_def)
qed

lemma kr_free_data_freed:
  assumes "io_ok k" "quota_ok k" "fs_ok sb" "distinct ps" "\<forall>p \<in> set ps. valid_slot sb ino p" "length ps \<le> 32768"
    and "distinct (slots_blocks sb ino 0 ps)" "set (slots_blocks sb ino 0 ps) \<subseteq> data_set sb"
  shows "\<exists>sb' ino'. kr_free_data k ps sb ino = Some (sb', ino') \<and>
     freed sb ino (set (slots_blocks sb ino 0 ps)) (set ps \<union> node_slots sb (slots_nodes sb ino 0 ps)) sb' ino'"
proof -
  obtain sb' ino' where r: "kr_free_data k ps sb ino = Some (sb', ino')"
      "freed sb ino (set (slots_blocks sb ino 0 ps)) (set (filter (\<lambda>p. slot_value sb ino p \<noteq> 0) ps)) sb' ino'"
    using free_data_loop_freed [OF assms(1-5), of 0 0] assms(6-8)
    by (auto simp: kr_free_data_def slots_blocks_data)
  have "freed sb ino (set (slots_blocks sb ino 0 ps)) (set ps) sb' ino'"
    by (rule freed_zero [OF r(2)]) (use assms(5) valid_slotD in auto)
  then show ?thesis using r(1) by (simp add: slots_blocks_data node_slots_def)
qed

lemma kr_free_branches_spec:
  assumes k: "io_ok k" "quota_ok k" and spec: "0 < d \<Longrightarrow> branch_spec k d"
    and "fs_ok sb" "ind_ok sb" "distinct ps" "\<forall>p \<in> set ps. valid_slot sb ino p \<and> slot_apart (slots_nodes sb ino d ps) p"
    "length ps \<le> 32768"
    and "distinct (slots_blocks sb ino d ps)" "set (slots_blocks sb ino d ps) \<subseteq> data_set sb"
  shows "\<exists>sb' ino'. kr_free_branches k ps d sb ino = Some (sb', ino') \<and>
     freed sb ino (set (slots_blocks sb ino d ps)) (set ps \<union> node_slots sb (slots_nodes sb ino d ps)) sb' ino'"
proof (cases "d = 0")
  case True
  then show ?thesis using kr_free_data_freed [OF k assms(4,6)] assms(7-10) by (simp add: kr_free_branches_def)
next
  case False
  then show ?thesis using free_slots_freed [OF spec] assms(4-10) by (simp add: kr_free_branches_def)
qed

lemma free_branch_Suc:
  "free_branch k (Suc d) nr sb ino =
     (if \<not> sb_bread k (uint nr) then do { sb1 \<leftarrow> kr_error k sb; Some (sb1, ino) }
      else do {
        (sb1, ino1) \<leftarrow> kr_free_branches k (block_slots sb (uint nr) 0) d sb ino;
        kr_free_blocks k sb1 ino1 (uint nr) 1 })"
  by (simp add: kr_free_branches_def)

lemma branch_specI:
  assumes k: "io_ok k" "quota_ok k"
  shows "branch_spec k d"
proof (induction d)
  case 0
  show ?case
    unfolding branch_spec_def
  proof (intro allI impI)
    fix nr sb ino
    assume a: "fs_ok sb" "nr \<noteq> 0" "set (branch_blocks sb 0 nr) \<subseteq> data_set sb"
    have run: "{uint nr..<uint nr + 1} = {uint nr}" by auto
    then obtain sb' ino' where "kr_free_blocks k sb ino (uint nr) 1 = Some (sb', ino')" "freed sb ino {uint nr} {} sb' ino'"
      using kr_free_blocks_freed [OF k a(1), of 1 "uint nr" ino] a(2,3) by auto
    then show "\<exists>sb' ino'. free_branch k 0 nr sb ino = Some (sb', ino') \<and>
        freed sb ino (set (branch_blocks sb 0 nr)) (node_slots sb (branch_nodes sb 0 nr)) sb' ino'"
      using a(2) by (simp add: node_slots_def)
  qed
next
  case (Suc d)
  show ?case
    unfolding branch_spec_def
  proof (intro allI impI)
    fix nr sb ino
    assume a: "fs_ok sb" "ind_ok sb" "nr \<noteq> 0" "distinct (branch_blocks sb (Suc d) nr)"
      "set (branch_blocks sb (Suc d) nr) \<subseteq> data_set sb"
    let ?ps = "block_slots sb (uint nr) 0"
    have l: "int (length (b_ind sb (uint nr))) = KR_ADDR_PER_BLOCK sb" using a(2) by (simp add: ind_ok_def)
    note B = slots_blocks_block [OF l, of ino d]
    have bb: "branch_blocks sb (Suc d) nr = uint nr # slots_blocks sb ino d ?ps"
      "branch_nodes sb (Suc d) nr = insert (uint nr) (slots_nodes sb ino d ?ps)" using a(3) by (simp_all add: B)
    note ps = block_slots_props [OF a(2), of 0 "uint nr"]
    have "slot_apart (slots_nodes sb ino d ?ps) p" if "p \<in> set ?ps" for p
      using that a(4) slots_nodes_blocks [of sb ino d ?ps] unfolding bb ps(3) [OF order_refl] by auto
    then obtain sb1 ino1 where f1: "kr_free_branches k ?ps d sb ino = Some (sb1, ino1)"
        "freed sb ino (set (slots_blocks sb ino d ?ps)) (set ?ps \<union> node_slots sb (slots_nodes sb ino d ?ps)) sb1 ino1"
      using kr_free_branches_spec [OF k _ a(1,2), of d ?ps ino] Suc.IH ps a(4,5) unfolding bb by auto
    have run: "{uint nr..<uint nr + 1} = {uint nr}" by auto
    have d1: "fs_ok sb1" "data_set sb1 = data_set sb - set (slots_blocks sb ino d ?ps)" using f1(2) by (simp_all add: freed_def)
    have "uint nr \<in> data_set sb1" using a(4,5) unfolding bb d1(2) by auto
    then obtain sb2 ino2 where f2: "kr_free_blocks k sb1 ino1 (uint nr) 1 = Some (sb2, ino2)" "freed sb1 ino1 {uint nr} {} sb2 ino2"
      using kr_free_blocks_freed [OF k d1(1), of 1 "uint nr" ino1] unfolding run by auto
    have br: "sb_bread k (uint nr)" using k(1) by (simp add: io_ok_def sb_bread_def)
    have N: "node_slots sb (branch_nodes sb (Suc d) nr) = set ?ps \<union> node_slots sb (slots_nodes sb ino d ?ps) \<union> {}"
      unfolding bb ps(3) [OF order_refl] by (auto simp: node_slots_def)
    have "freed sb ino (set (branch_blocks sb (Suc d) nr)) (node_slots sb (branch_nodes sb (Suc d) nr)) sb2 ino2"
      using freed_trans [OF f1(2) f2(2)] unfolding N bb(1) by (simp add: Un_insert_right)
    then show "\<exists>sb' ino'. free_branch k (Suc d) nr sb ino = Some (sb', ino') \<and>
        freed sb ino (set (branch_blocks sb (Suc d) nr)) (node_slots sb (branch_nodes sb (Suc d) nr)) sb' ino'"
      unfolding free_branch_Suc using br f1(1) f2(1) by simp
  qed
qed

lemmas kr_free_branches_freed = kr_free_branches_spec [OF _ _ branch_specI]

end
