(* ===== verification/Kr_Cut.thy ===== *)
theory Kr_Cut
  imports Kr_Truncate
begin

text \<open>
  Positions in the tree of pointers of a file, and what freeing branches does to them: the
  positions below the freed entries are cut out of the file, their blocks become free, and
  everything else stays as it was.
\<close>

section \<open>Positions in the block map\<close>

text \<open>
  A position is a nonempty prefix of a path: an entry of the inode, or an entry of an indirect
  block. \<open>walk_path\<close> gives the block number that is stored there.
\<close>

definition tree_depth :: "int \<Rightarrow> nat" where
  "tree_depth i = (if i < KR_NDIR_BLOCKS then 0 else nat (i - KR_NDIR_BLOCKS + 1))"

definition positions :: "int \<Rightarrow> int list set" where
  "positions p =
     {q. q \<noteq> [] \<and> 0 \<le> hd q \<and> hd q < 15 \<and> length q \<le> Suc (tree_depth (hd q)) \<and> (\<forall>x \<in> set (tl q). 0 \<le> x \<and> x < p)}"

definition live :: "super_block \<Rightarrow> inode \<Rightarrow> int list set" where
  "live sb ino = {q \<in> positions (KR_ADDR_PER_BLOCK sb). walk_path sb ino q \<noteq> 0}"

text \<open>The blocks that a file owns: its data blocks and its indirect blocks.\<close>

definition owned :: "super_block \<Rightarrow> inode \<Rightarrow> int set" where
  "owned sb ino = (\<lambda>q. uint (walk_path sb ino q)) ` live sb ino"

text \<open>A file is in order: no block stands at two positions, and all are data blocks in use.\<close>

definition file_ok :: "super_block \<Rightarrow> inode \<Rightarrow> bool" where
  "file_ok sb ino =
     (tree_ok sb ino \<and> inj_on (walk_path sb ino) (live sb ino) \<and> owned sb ino \<subseteq> data_set sb)"

lemma walk_append: "walk sb nr (q @ r) = walk sb (walk sb nr q) r"
  by (induction q arbitrary: nr) (simp_all)

lemma walk_path_append: "q \<noteq> [] \<Longrightarrow> walk_path sb ino (q @ r) = walk sb (walk_path sb ino q) r"
  by (cases q) (simp_all add: walk_append)

lemma walk_path_prefix: "q \<noteq> [] \<Longrightarrow> walk_path sb ino (q @ r) \<noteq> 0 \<Longrightarrow> walk_path sb ino q \<noteq> 0"
  by (auto simp: walk_path_append)

lemma positions_prefix: "q @ r \<in> positions p \<Longrightarrow> q \<noteq> [] \<Longrightarrow> q \<in> positions p"
  by (cases q) (auto simp: positions_def)

lemma positions_append:
  "q \<noteq> [] \<Longrightarrow> q @ r \<in> positions p \<longleftrightarrow>
     q \<in> positions p \<and> length q + length r \<le> Suc (tree_depth (hd q)) \<and> (\<forall>x \<in> set r. 0 \<le> x \<and> x < p)"
  by (cases q) (auto simp: positions_def)

text \<open>The blocks of a branch are those at the positions below it.\<close>

definition below :: "int \<Rightarrow> nat \<Rightarrow> int list set" where
  "below p d = {r. length r \<le> d \<and> (\<forall>x \<in> set r. 0 \<le> x \<and> x < p)}"

lemma below_0 [simp]: "below p 0 = {[]}"
  by (auto simp: below_def)

lemma below_Cons: "x # r \<in> below p (Suc d) \<longleftrightarrow> 0 \<le> x \<and> x < p \<and> r \<in> below p d"
  by (auto simp: below_def)

lemma Nil_below [simp]: "[] \<in> below p d"
  by (simp add: below_def)

lemma set_entries:
  assumes "ind_ok sb"
  shows "set (b_ind sb b) = {b_ind sb b ! nat x | x. 0 \<le> x \<and> x < KR_ADDR_PER_BLOCK sb}"
proof -
  have l: "int (length (b_ind sb b)) = KR_ADDR_PER_BLOCK sb" using assms by (simp add: ind_ok_def)
  show ?thesis
  proof (intro equalityI subsetI)
    fix v assume "v \<in> set (b_ind sb b)"
    then obtain i where "i < length (b_ind sb b)" "v = b_ind sb b ! i" by (auto simp: in_set_conv_nth)
    then show "v \<in> {b_ind sb b ! nat x | x. 0 \<le> x \<and> x < KR_ADDR_PER_BLOCK sb}"
      using l by (intro CollectI exI [of _ "int i"]) auto
  next
    fix v assume "v \<in> {b_ind sb b ! nat x | x. 0 \<le> x \<and> x < KR_ADDR_PER_BLOCK sb}"
    then show "v \<in> set (b_ind sb b)" using l by (auto intro!: nth_mem)
  qed
qed

lemma branch_blocks_below:
  assumes "ind_ok sb"
  shows "set (branch_blocks sb d nr) =
     {uint (walk sb nr r) | r. r \<in> below (KR_ADDR_PER_BLOCK sb) d \<and> walk sb nr r \<noteq> 0}"
proof (induction d arbitrary: nr)
  case 0
  then show ?case by auto
next
  case (Suc d)
  let ?p = "KR_ADDR_PER_BLOCK sb"
  show ?case
  proof (cases "nr = 0")
    case False
    have "{uint (walk sb nr r) | r. r \<in> below ?p (Suc d) \<and> walk sb nr r \<noteq> 0} =
        insert (uint nr) (\<Union>v \<in> set (b_ind sb (uint nr)). {uint (walk sb v r) | r. r \<in> below ?p d \<and> walk sb v r \<noteq> 0})"
      (is "?L = insert _ ?R")
    proof (intro equalityI subsetI)
      fix b assume "b \<in> ?L"
      then obtain r where r: "b = uint (walk sb nr r)" "r \<in> below ?p (Suc d)" "walk sb nr r \<noteq> 0" by auto
      show "b \<in> insert (uint nr) ?R"
      proof (cases r)
        case (Cons x s)
        then have "0 \<le> x" "x < ?p" "s \<in> below ?p d" using r(2) below_Cons by auto
        then show ?thesis using r Cons False unfolding set_entries [OF assms, of "uint nr"] by auto
      qed (use r in simp)
    next
      fix b assume "b \<in> insert (uint nr) ?R"
      then consider "b = uint nr" | x r where "0 \<le> x" "x < ?p" "b = uint (walk sb (b_ind sb (uint nr) ! nat x) r)"
          "r \<in> below ?p d" "walk sb (b_ind sb (uint nr) ! nat x) r \<noteq> 0"
        unfolding set_entries [OF assms, of "uint nr"] by blast
      then show "b \<in> ?L"
      proof cases
        case 1
        then show ?thesis using False by (intro CollectI exI [of _ "[]"]) simp
      next
        case (2 x r)
        then show ?thesis using False by (intro CollectI exI [of _ "x # r"]) (simp add: below_Cons)
      qed
    qed
    then show ?thesis using False Suc.IH by simp
  qed simp
qed

lemma branch_nodes_below:
  assumes "ind_ok sb"
  shows "x \<in> branch_nodes sb d nr \<Longrightarrow> \<exists>r. r \<in> below (KR_ADDR_PER_BLOCK sb) d \<and> walk sb nr r \<noteq> 0 \<and> x = uint (walk sb nr r)"
  using branch_nodes_blocks [of sb d nr] branch_blocks_below [OF assms, of d nr] by blast

lemma distinct_concat_map:
  assumes "\<And>i. i < length xs \<Longrightarrow> distinct (f (xs ! i))"
    and "\<And>i j. i < j \<Longrightarrow> j < length xs \<Longrightarrow> set (f (xs ! i)) \<inter> set (f (xs ! j)) = {}"
  shows "distinct (concat (map f xs))"
  using assms
proof (induction xs)
  case (Cons x xs)
  have "distinct (concat (map f xs))"
    using Cons.prems(1) [of "Suc _"] Cons.prems(2) [of "Suc _" "Suc _"] by (intro Cons.IH) auto
  moreover have "set (f x) \<inter> set (f y) = {}" if y: "y \<in> set xs" for y
  proof -
    obtain j where "j < length xs" "y = xs ! j" using y by (auto simp: in_set_conv_nth)
    then show ?thesis using Cons.prems(2) [of 0 "Suc j"] by simp
  qed
  ultimately show ?case using Cons.prems(1) [of 0] by auto
qed simp

lemma distinct_branch:
  assumes ok: "ind_ok sb"
    and "\<And>r s. r \<in> below (KR_ADDR_PER_BLOCK sb) d \<Longrightarrow> s \<in> below (KR_ADDR_PER_BLOCK sb) d \<Longrightarrow> walk sb nr r \<noteq> 0 \<Longrightarrow>
      walk sb nr r = walk sb nr s \<Longrightarrow> r = s"
  shows "distinct (branch_blocks sb d nr)"
  using assms(2)
proof (induction d arbitrary: nr)
  case (Suc d)
  let ?p = "KR_ADDR_PER_BLOCK sb" and ?xs = "b_ind sb (uint nr)"
  have l: "int (length ?xs) = ?p" using ok by (simp add: ind_ok_def)
  show ?case
  proof (cases "nr = 0")
    case False
    have inj: "x = y \<and> r = s" if "0 \<le> x" "x < ?p" "0 \<le> y" "y < ?p" "r \<in> below ?p d" "s \<in> below ?p d"
        "walk sb (?xs ! nat x) r \<noteq> 0" "walk sb (?xs ! nat x) r = walk sb (?xs ! nat y) s" for x y r s
      using Suc.prems [of "x # r" "y # s"] that False by (simp add: below_Cons)
    have root: "walk sb (?xs ! nat x) r \<noteq> nr" if "0 \<le> x" "x < ?p" "r \<in> below ?p d" for x r
      using Suc.prems [of "[]" "x # r"] that False by (auto simp: below_Cons)
    have d1: "distinct (branch_blocks sb d (?xs ! i))" if "i < length ?xs" for i
      using that l by (intro Suc.IH) (use inj [of "int i" "int i"] in auto)
    have disj: "set (branch_blocks sb d (?xs ! i)) \<inter> set (branch_blocks sb d (?xs ! j)) = {}"
      if "i < length ?xs" "j < length ?xs" "i \<noteq> j" for i j
    proof -
      have "walk sb (?xs ! i) r \<noteq> walk sb (?xs ! j) s" if "r \<in> below ?p d" "s \<in> below ?p d" "walk sb (?xs ! i) r \<noteq> 0" for r s
        using inj [of "int i" "int j" r s] that \<open>i < length ?xs\<close> \<open>j < length ?xs\<close> \<open>i \<noteq> j\<close> l by auto
      then show ?thesis unfolding branch_blocks_below [OF ok] by (auto simp: word_uint_eq_iff)
    qed
    have "distinct (concat (map (branch_blocks sb d) ?xs))"
      using d1 disj by (intro distinct_concat_map) auto
    moreover have "uint nr \<notin> set (concat (map (branch_blocks sb d) ?xs))"
    proof
      assume "uint nr \<in> set (concat (map (branch_blocks sb d) ?xs))"
      then obtain i r where "i < length ?xs" "r \<in> below ?p d" "uint nr = uint (walk sb (?xs ! i) r)"
        unfolding set_concat set_map by (auto simp: in_set_conv_nth branch_blocks_below [OF ok])
      then show False using root [of "int i" r] l by (simp add: word_uint_eq_iff)
    qed
    ultimately show ?thesis using False by simp
  qed simp
qed simp

section \<open>Cutting positions out of a file\<close>

text \<open>A position whose slot exists: an entry of the inode, or of an indirect block that is there.\<close>

definition open_pos :: "super_block \<Rightarrow> inode \<Rightarrow> int list \<Rightarrow> bool" where
  "open_pos sb ino q =
     (q \<in> positions (KR_ADDR_PER_BLOCK sb) \<and> (length q = 1 \<or> walk_path sb ino (butlast q) \<noteq> 0))"

lemma tree_ok_ind: "tree_ok sb ino \<Longrightarrow> ind_ok sb"
  using addr_okD(3) by (simp add: tree_ok_def ind_ok_def)

lemma open_pos_live: "open_pos sb ino q \<Longrightarrow> length q \<noteq> 1 \<Longrightarrow> butlast q \<in> live sb ino"
proof -
  assume a: "open_pos sb ino q" "length q \<noteq> 1"
  then have "q \<noteq> []" by (auto simp: open_pos_def positions_def)
  then have "q = butlast q @ [last q]" "butlast q \<noteq> []" using a(2) by (simp, cases q rule: rev_cases, auto)
  then show ?thesis using a positions_prefix [of "butlast q" "[last q]"] by (auto simp: open_pos_def live_def)
qed

lemma read_last_slot:
  assumes ok: "tree_ok sb ino" and q: "open_pos sb ino q"
  shows "read_slot sb ino (last_slot sb ino q) = Some (walk_path sb ino q)"
proof -
  have p: "q \<in> positions (KR_ADDR_PER_BLOCK sb)" using q by (simp add: open_pos_def)
  have len: "length (i_data ino) = 15" "\<And>b. int (length (b_ind sb b)) = KR_ADDR_PER_BLOCK sb" using ok by (simp_all add: tree_ok_def)
  show ?thesis
  proof (cases "length q = 1")
    case True
    then obtain x where x: "q = [x]" by (cases q) auto
    then show ?thesis using p len by (simp add: last_slot_def get_entry_def positions_def)
  next
    case False
    note l = open_pos_live [OF q False]
    have ne: "butlast q \<noteq> []" "q \<noteq> []" using l p by (auto simp: live_def positions_def)
    then have e: "q = butlast q @ [last q]" by simp
    have x: "0 \<le> last q" "last q < KR_ADDR_PER_BLOCK sb"
      using p positions_append [OF ne(1), of "[last q]" "KR_ADDR_PER_BLOCK sb"] e by auto
    have "walk_path sb ino q = walk sb (walk_path sb ino (butlast q)) [last q]"
      by (subst e) (rule walk_path_append [OF ne(1)])
    then show ?thesis
      using False x len l by (simp add: last_slot_def get_entry_def live_def)
  qed
qed

lemma last_slot_inj:
  assumes ok: "inj_on (walk_path sb ino) (live sb ino)" and q: "open_pos sb ino q" "open_pos sb ino r"
    and e: "last_slot sb ino q = last_slot sb ino r"
  shows "q = r"
proof -
  have ne: "q \<noteq> []" "r \<noteq> []" using q by (auto simp: open_pos_def positions_def)
  show ?thesis
  proof (cases "length q = 1")
    case True
    then have "length r = 1" using e by (auto simp: last_slot_def split: if_splits)
    then show ?thesis using True e by (cases q; cases r) (auto simp: last_slot_def)
  next
    case False
    then have "length r \<noteq> 1" using e by (auto simp: last_slot_def split: if_splits)
    then have "walk_path sb ino (butlast q) = walk_path sb ino (butlast r)" "last q = last r"
      using e False by (simp_all add: last_slot_def word_uint_eq_iff)
    then have "butlast q = butlast r"
      using ok open_pos_live [OF q(1) False] open_pos_live [OF q(2) \<open>length r \<noteq> 1\<close>] by (auto dest: inj_onD)
    then show ?thesis using \<open>last q = last r\<close> ne by (metis append_butlast_last_id)
  qed
qed

lemma last_slot_Nil [simp]: "last_slot sb ino [j] = InodeSlot j"
  by (simp add: last_slot_def)

lemma last_slot_snoc: "q \<noteq> [] \<Longrightarrow> last_slot sb ino (q @ [j]) = BlockSlot (uint (walk_path sb ino q)) j"
  by (simp add: last_slot_def)

lemma freed_tree_ok: "freed sb ino B S sb' ino' \<Longrightarrow> tree_ok sb ino \<Longrightarrow> tree_ok sb' ino'"
proof -
  assume f: "freed sb ino B S sb' ino'" "tree_ok sb ino"
  have "s_addr_per_block_bits (sbi sb') = s_addr_per_block_bits (sbi sb)"
    using f(1) by (cases "sbi sb"; cases "sbi sb'") (simp add: freed_def same_but_counter_def)
  then show ?thesis using f freed_addr [OF f(1)] by (simp add: tree_ok_def addr_ok_def freed_def)
qed

text \<open>The block numbers after some slots have been cleared.\<close>

definition cut_off :: "super_block \<Rightarrow> inode \<Rightarrow> slot set \<Rightarrow> int list \<Rightarrow> bool" where
  "cut_off sb ino S q = (\<exists>r s. q = r @ s \<and> r \<noteq> [] \<and> open_pos sb ino r \<and> last_slot sb ino r \<in> S)"

lemma cut_off_append: "cut_off sb ino S q \<Longrightarrow> cut_off sb ino S (q @ s)"
  unfolding cut_off_def by (metis append.assoc)

lemma cut_off_snoc:
  "cut_off sb ino S (q @ [j]) \<longleftrightarrow> cut_off sb ino S q \<or> (open_pos sb ino (q @ [j]) \<and> last_slot sb ino (q @ [j]) \<in> S)"
proof
  assume "cut_off sb ino S (q @ [j])"
  then obtain r s where r: "q @ [j] = r @ s" "r \<noteq> []" "open_pos sb ino r" "last_slot sb ino r \<in> S" by (auto simp: cut_off_def)
  show "cut_off sb ino S q \<or> (open_pos sb ino (q @ [j]) \<and> last_slot sb ino (q @ [j]) \<in> S)"
  proof (cases s rule: rev_cases)
    case Nil
    then show ?thesis using r by simp
  next
    case (snoc t x)
    then have "q = r @ t" using r(1) by simp
    then show ?thesis using r by (auto simp: cut_off_def)
  qed
next
  assume "cut_off sb ino S q \<or> (open_pos sb ino (q @ [j]) \<and> last_slot sb ino (q @ [j]) \<in> S)"
  then show "cut_off sb ino S (q @ [j])"
  proof
    assume "open_pos sb ino (q @ [j]) \<and> last_slot sb ino (q @ [j]) \<in> S"
    then show ?thesis unfolding cut_off_def by (intro exI [of _ "q @ [j]"] exI [of _ "[]"]) simp
  qed (rule cut_off_append)
qed

lemma walk_freed:
  assumes f: "freed sb ino B S sb' ino'" and ok: "tree_ok sb ino" and q: "q \<in> positions (KR_ADDR_PER_BLOCK sb)"
  shows "walk_path sb' ino' q = (if cut_off sb ino S q then 0 else walk_path sb ino q)"
  using q
proof (induction q rule: rev_induct)
  case Nil
  then show ?case by (simp add: positions_def)
next
  case (snoc j q)
  note ok' = freed_tree_ok [OF f ok]
  have pos: "positions (KR_ADDR_PER_BLOCK sb') = positions (KR_ADDR_PER_BLOCK sb)" using freed_addr [OF f] by simp
  have new: "walk_path sb' ino' (q @ [j]) = (if last_slot sb ino (q @ [j]) \<in> S then 0 else walk_path sb ino (q @ [j]))"
    if o: "open_pos sb ino (q @ [j])" and s: "last_slot sb' ino' (q @ [j]) = last_slot sb ino (q @ [j])"
      "open_pos sb' ino' (q @ [j])"
    using read_last_slot [OF ok' s(2)] read_last_slot [OF ok o] freed_read [OF f, of "last_slot sb ino (q @ [j])"] s(1)
    by (auto split: if_splits)
  show ?case
  proof (cases "q = []")
    case True
    have "open_pos sb ino [j]" "open_pos sb' ino' [j]" using snoc.prems True by (simp_all add: open_pos_def pos)
    moreover have "\<not> cut_off sb ino S []" by (simp add: cut_off_def)
    ultimately show ?thesis using new True cut_off_snoc [of sb ino S "[]" j] by simp
  next
    case False
    have qp: "q \<in> positions (KR_ADDR_PER_BLOCK sb)" using positions_prefix [OF snoc.prems False] .
    note IH = snoc.IH [OF qp]
    have w: "walk_path s i (q @ [j]) = walk s (walk_path s i q) [j]" for s i by (rule walk_path_append [OF False])
    show ?thesis
    proof (cases "walk_path sb' ino' q = 0")
      case True
      then have "cut_off sb ino S q \<or> walk_path sb ino q = 0" using IH by (auto split: if_splits)
      moreover have "walk_path sb' ino' (q @ [j]) = 0" unfolding w True by simp
      moreover have "walk_path sb ino (q @ [j]) = 0" if "walk_path sb ino q = 0" unfolding w that by simp
      ultimately show ?thesis using cut_off_append [of sb ino S q "[j]"] by auto
    next
      case live: False
      then have n: "\<not> cut_off sb ino S q" and e: "walk_path sb' ino' q = walk_path sb ino q" using IH by (auto split: if_splits)
      have "open_pos sb ino (q @ [j])" "open_pos sb' ino' (q @ [j])"
        using snoc.prems live e False by (simp_all add: open_pos_def pos)
      moreover have "last_slot sb' ino' (q @ [j]) = last_slot sb ino (q @ [j])" using e by (simp add: last_slot_snoc [OF False])
      ultimately show ?thesis using new n cut_off_snoc [of sb ino S q j] by auto
    qed
  qed
qed

definition blocks_at :: "super_block \<Rightarrow> inode \<Rightarrow> int list set \<Rightarrow> int set" where
  "blocks_at sb ino F = (\<lambda>q. uint (walk_path sb ino q)) ` (live sb ino \<inter> F)"

text \<open>
  The positions \<open>F\<close> are cut out of a file: their pointers are gone, their blocks are free, and
  everything else is as it was.
\<close>

definition cut :: "super_block \<Rightarrow> inode \<Rightarrow> int list set \<Rightarrow> super_block \<Rightarrow> inode \<Rightarrow> bool" where
  "cut sb ino F sb' ino' =
     (fs_ok sb' \<and> free_set sb' = free_set sb \<union> blocks_at sb ino F \<and> data_set sb' = data_set sb - blocks_at sb ino F \<and>
      tree_ok sb' ino' \<and> same_but_counter sb sb' \<and> same_but_data ino ino' \<and> inodes_kept sb sb' \<and>
      (\<forall>q \<in> positions (KR_ADDR_PER_BLOCK sb). walk_path sb' ino' q = (if q \<in> F then 0 else walk_path sb ino q)))"

lemma cut_refl: "fs_ok sb \<Longrightarrow> tree_ok sb ino \<Longrightarrow> cut sb ino {} sb ino"
  by (simp add: cut_def blocks_at_def)

lemma cut_addr: "cut sb ino F sb' ino' \<Longrightarrow> KR_ADDR_PER_BLOCK sb' = KR_ADDR_PER_BLOCK sb"
  by (simp add: cut_def addr_per_block_frame)

lemma cut_walk:
  "cut sb ino F sb' ino' \<Longrightarrow> q \<in> positions (KR_ADDR_PER_BLOCK sb) \<Longrightarrow>
     walk_path sb' ino' q = (if q \<in> F then 0 else walk_path sb ino q)"
  by (simp add: cut_def)

lemma cut_live: "cut sb ino F sb' ino' \<Longrightarrow> live sb' ino' = live sb ino - F"
  using cut_walk [of sb ino F sb' ino'] cut_addr [of sb ino F sb' ino'] by (auto simp: live_def split: if_splits)

lemma live_walk: "cut sb ino F sb' ino' \<Longrightarrow> q \<in> live sb ino - F \<Longrightarrow> walk_path sb' ino' q = walk_path sb ino q"
  using cut_walk [of sb ino F sb' ino' q] by (simp add: live_def)

lemma cut_trans:
  assumes c: "cut sb ino F sb1 ino1" "cut sb1 ino1 G sb2 ino2"
  shows "cut sb ino (F \<union> G) sb2 ino2"
proof -
  have "blocks_at sb1 ino1 G = (\<lambda>q. uint (walk_path sb ino q)) ` ((live sb ino - F) \<inter> G)"
    unfolding blocks_at_def cut_live [OF c(1)] using live_walk [OF c(1)] by (intro image_cong) auto
  then have B: "blocks_at sb ino (F \<union> G) = blocks_at sb ino F \<union> blocks_at sb1 ino1 G"
    unfolding blocks_at_def by auto
  show ?thesis
    using c cut_addr [OF c(1)] same_but_counter_trans [of sb sb1 sb2] same_but_data_trans [of ino ino1 ino2]
      inodes_kept_trans [of sb sb1 sb2]
    unfolding cut_def B by auto
qed

lemma blocks_at_inj:
  assumes "file_ok sb ino" "q \<in> live sb ino" "q \<notin> F"
  shows "uint (walk_path sb ino q) \<notin> blocks_at sb ino F"
  using assms by (auto simp: blocks_at_def file_ok_def dest: inj_onD simp flip: word_uint_eq_iff)

lemma cut_file_ok:
  assumes ok: "file_ok sb ino" and c: "cut sb ino F sb' ino'"
  shows "file_ok sb' ino'" "owned sb' ino' = owned sb ino - blocks_at sb ino F"
proof -
  have own: "owned sb' ino' = (\<lambda>q. uint (walk_path sb ino q)) ` (live sb ino - F)"
    unfolding owned_def cut_live [OF c] using live_walk [OF c] by (intro image_cong) auto
  then show o: "owned sb' ino' = owned sb ino - blocks_at sb ino F"
    using blocks_at_inj [OF ok] by (auto simp: owned_def blocks_at_def)
  have "inj_on (walk_path sb' ino') (live sb ino - F)"
  proof (rule inj_onI)
    fix q r
    assume a: "q \<in> live sb ino - F" "r \<in> live sb ino - F" "walk_path sb' ino' q = walk_path sb' ino' r"
    then have "walk_path sb ino q = walk_path sb ino r" using live_walk [OF c] by simp
    then show "q = r" using ok a(1,2) by (auto simp: file_ok_def dest: inj_onD)
  qed
  then show "file_ok sb' ino'"
    using c ok o by (auto simp: file_ok_def cut_live [OF c] cut_def)
qed

text \<open>The positions below the entries \<open>J\<close> of the pointer array at position \<open>par\<close>.\<close>

definition tails :: "int \<Rightarrow> int list \<Rightarrow> int set \<Rightarrow> int list set" where
  "tails p par J = {q \<in> positions p. \<exists>j \<in> J. \<exists>r. q = par @ j # r}"

lemma tails_empty [simp]: "tails p par {} = {}"
  by (simp add: tails_def)

lemma tails_below:
  assumes j: "par @ [j] \<in> positions p" and d: "Suc (tree_depth (hd (par @ [j]))) = length (par @ [j]) + d"
  shows "par @ j # r \<in> positions p \<longleftrightarrow> r \<in> below p d"
  using positions_append [of "par @ [j]" r p] assms by (auto simp: below_def)

text \<open>Entries \<open>js\<close> of one array of pointers, all of them roots of branches of depth \<open>d\<close>.\<close>

definition siblings :: "super_block \<Rightarrow> inode \<Rightarrow> int list \<Rightarrow> int list \<Rightarrow> nat \<Rightarrow> bool" where
  "siblings sb ino par js d =
     (fs_ok sb \<and> file_ok sb ino \<and> distinct js \<and> length js \<le> 32768 \<and>
      (\<forall>j \<in> set js. open_pos sb ino (par @ [j]) \<and> Suc (tree_depth (hd (par @ [j]))) = length (par @ [j]) + d))"

definition sib_slots :: "super_block \<Rightarrow> inode \<Rightarrow> int list \<Rightarrow> int list \<Rightarrow> slot list" where
  "sib_slots sb ino par js = map (\<lambda>j. last_slot sb ino (par @ [j])) js"

lemma siblingsD:
  assumes "siblings sb ino par js d"
  shows "fs_ok sb" "file_ok sb ino" "distinct js" "length js \<le> 32768"
    "j \<in> set js \<Longrightarrow> open_pos sb ino (par @ [j])"
    "j \<in> set js \<Longrightarrow> Suc (tree_depth (hd (par @ [j]))) = length (par @ [j]) + d"
    "tree_ok sb ino" "ind_ok sb" "inj_on (walk_path sb ino) (live sb ino)"
    "j \<in> set js \<Longrightarrow> par @ j # r \<in> positions (KR_ADDR_PER_BLOCK sb) \<longleftrightarrow> r \<in> below (KR_ADDR_PER_BLOCK sb) d"
proof -
  show r: "fs_ok sb" "file_ok sb ino" "distinct js" "length js \<le> 32768"
    "j \<in> set js \<Longrightarrow> open_pos sb ino (par @ [j])"
    "j \<in> set js \<Longrightarrow> Suc (tree_depth (hd (par @ [j]))) = length (par @ [j]) + d" for j
    using assms by (auto simp: siblings_def)
  show "tree_ok sb ino" "ind_ok sb" "inj_on (walk_path sb ino) (live sb ino)"
    using r(2) tree_ok_ind by (auto simp: file_ok_def)
  show "j \<in> set js \<Longrightarrow> par @ j # r \<in> positions (KR_ADDR_PER_BLOCK sb) \<longleftrightarrow> r \<in> below (KR_ADDR_PER_BLOCK sb) d"
    using tails_below [of par j _ d r] r(5) [of j] r(6) [of j] by (simp add: open_pos_def)
qed

lemma sib_same_walk:
  assumes S: "siblings sb ino par js d"
  shows "par @ j # r \<in> positions (KR_ADDR_PER_BLOCK sb) \<Longrightarrow> par @ i # s \<in> positions (KR_ADDR_PER_BLOCK sb) \<Longrightarrow> walk_path sb ino (par @ j # r) \<noteq> 0 \<Longrightarrow>
     walk_path sb ino (par @ j # r) = walk_path sb ino (par @ i # s) \<Longrightarrow> j = i \<and> r = s"
  using inj_onD [OF siblingsD(9) [OF S], of "par @ j # r" "par @ i # s"] by (simp add: live_def)

lemma walk_sib: "walk sb (walk_path sb ino (par @ [j])) r = walk_path sb ino (par @ j # r)"
  using walk_path_append [of "par @ [j]" sb ino r] by simp

lemma sib_value_slot:
  assumes S: "siblings sb ino par js d"
  shows "j \<in> set js \<Longrightarrow> slot_value sb ino (last_slot sb ino (par @ [j])) = walk_path sb ino (par @ [j])"
  using read_last_slot [OF siblingsD(7) [OF S] siblingsD(5) [OF S]] by (simp add: slot_value_def)

lemma sib_branch_set:
  assumes S: "siblings sb ino par js d"
  shows "j \<in> set js \<Longrightarrow> set (branch_blocks sb d (walk_path sb ino (par @ [j]))) = blocks_at sb ino (tails (KR_ADDR_PER_BLOCK sb) par {j})"
proof -
  assume j: "j \<in> set js"
  have "live sb ino \<inter> tails (KR_ADDR_PER_BLOCK sb) par {j} = {par @ j # r | r. r \<in> below (KR_ADDR_PER_BLOCK sb) d \<and> walk_path sb ino (par @ j # r) \<noteq> 0}"
    using siblingsD(10) [OF S j] by (auto simp: live_def tails_def)
  then show ?thesis unfolding branch_blocks_below [OF siblingsD(8) [OF S]] walk_sib blocks_at_def by auto
qed

lemma sib_slots_blocks_eq:
  assumes S: "siblings sb ino par js d"
  shows "slots_blocks sb ino d (sib_slots sb ino par js) = concat (map (\<lambda>j. branch_blocks sb d (walk_path sb ino (par @ [j]))) js)"
  unfolding slots_blocks_def sib_slots_def map_map o_def
  by (intro arg_cong [of _ _ concat] map_cong refl) (simp add: sib_value_slot [OF S])

lemma sib_set_slots_blocks:
  assumes S: "siblings sb ino par js d"
  shows "set (slots_blocks sb ino d (sib_slots sb ino par js)) = blocks_at sb ino (tails (KR_ADDR_PER_BLOCK sb) par (set js))"
proof -
  have "set (slots_blocks sb ino d (sib_slots sb ino par js)) = (\<Union>j \<in> set js. blocks_at sb ino (tails (KR_ADDR_PER_BLOCK sb) par {j}))"
    unfolding sib_slots_blocks_eq [OF S] using sib_branch_set [OF S] by auto
  also have "\<dots> = blocks_at sb ino (tails (KR_ADDR_PER_BLOCK sb) par (set js))" by (auto simp: blocks_at_def tails_def)
  finally show ?thesis .
qed

lemma sib_distinct_slots_blocks:
  assumes S: "siblings sb ino par js d"
  shows "distinct (slots_blocks sb ino d (sib_slots sb ino par js))"
  unfolding sib_slots_blocks_eq [OF S]
proof (rule distinct_concat_map)
  fix i
  assume "i < length js"
  then have j: "js ! i \<in> set js" by simp
  show "distinct (branch_blocks sb d (walk_path sb ino (par @ [js ! i])))"
    by (rule distinct_branch [OF siblingsD(8) [OF S]])
      (use sib_same_walk [OF S, of "js ! i" _ "js ! i"] siblingsD(10) [OF S j] in \<open>simp add: walk_sib\<close>)
next
  fix i l
  assume a: "i < l" "l < length js"
  then have j: "js ! i \<in> set js" "js ! l \<in> set js" "js ! i \<noteq> js ! l" using siblingsD(3) [OF S] by (auto simp: nth_eq_iff_index_eq)
  show "set (branch_blocks sb d (walk_path sb ino (par @ [js ! i]))) \<inter> set (branch_blocks sb d (walk_path sb ino (par @ [js ! l]))) = {}"
    unfolding sib_branch_set [OF S j(1)] sib_branch_set [OF S j(2)]
    using sib_same_walk [OF S, of "js ! i" _ "js ! l"] j(3) by (auto simp: blocks_at_def tails_def live_def simp flip: word_uint_eq_iff)
qed

lemma sib_nodes:
  assumes S: "siblings sb ino par js d"
  shows "x \<in> slots_nodes sb ino d (sib_slots sb ino par js) \<Longrightarrow>
    \<exists>j r. j \<in> set js \<and> par @ j # r \<in> live sb ino \<and> x = uint (walk_path sb ino (par @ j # r))"
proof -
  assume "x \<in> slots_nodes sb ino d (sib_slots sb ino par js)"
  then obtain j where j: "j \<in> set js" "x \<in> branch_nodes sb d (walk_path sb ino (par @ [j]))"
    by (auto simp: slots_nodes_def sib_slots_def sib_value_slot [OF S])
  obtain r where "r \<in> below (KR_ADDR_PER_BLOCK sb) d" "walk sb (walk_path sb ino (par @ [j])) r \<noteq> 0"
      "x = uint (walk sb (walk_path sb ino (par @ [j])) r)" using branch_nodes_below [OF siblingsD(8) [OF S] j(2)] by blast
  then show ?thesis using j(1) siblingsD(10) [OF S j(1), of r] unfolding walk_sib by (auto simp: live_def)
qed

lemma sib_apart:
  assumes S: "siblings sb ino par js d"
  shows "s \<in> set (sib_slots sb ino par js) \<Longrightarrow> slot_apart (slots_nodes sb ino d (sib_slots sb ino par js)) s"
proof -
  assume "s \<in> set (sib_slots sb ino par js)"
  then obtain j where j: "j \<in> set js" "s = last_slot sb ino (par @ [j])" by (auto simp: sib_slots_def)
  show ?thesis
  proof (cases "par = []")
    case False
    have "par \<in> live sb ino" using open_pos_live [OF siblingsD(5) [OF S j(1)]] False by simp
    then have "uint (walk_path sb ino par) \<noteq> uint (walk_path sb ino (par @ i # r))" if "par @ i # r \<in> live sb ino" for i r
      using inj_onD [OF siblingsD(9) [OF S], of par "par @ i # r"] that by (auto simp flip: word_uint_eq_iff)
    then have "uint (walk_path sb ino par) \<notin> slots_nodes sb ino d (sib_slots sb ino par js)" using sib_nodes [OF S] by blast
    then show ?thesis using j(2) False by (simp add: last_slot_snoc)
  qed (use j in simp)
qed

lemma sib_cut_off_slots:
  assumes S: "siblings sb ino par js d"
  shows "q \<in> positions (KR_ADDR_PER_BLOCK sb) \<Longrightarrow> cut_off sb ino (set (sib_slots sb ino par js) \<union> node_slots sb (slots_nodes sb ino d (sib_slots sb ino par js))) q \<longleftrightarrow> q \<in> tails (KR_ADDR_PER_BLOCK sb) par (set js)"
proof
  assume q: "q \<in> positions (KR_ADDR_PER_BLOCK sb)" "q \<in> tails (KR_ADDR_PER_BLOCK sb) par (set js)"
  then obtain j r where "j \<in> set js" "q = (par @ [j]) @ r" by (auto simp: tails_def)
  then show "cut_off sb ino (set (sib_slots sb ino par js) \<union> node_slots sb (slots_nodes sb ino d (sib_slots sb ino par js))) q"
    unfolding cut_off_def using siblingsD(5) [OF S] by (intro exI [of _ "par @ [j]"] exI [of _ r]) (auto simp: sib_slots_def)
next
  assume q: "q \<in> positions (KR_ADDR_PER_BLOCK sb)" "cut_off sb ino (set (sib_slots sb ino par js) \<union> node_slots sb (slots_nodes sb ino d (sib_slots sb ino par js))) q"
  then obtain r s where r: "q = r @ s" "open_pos sb ino r"
      "last_slot sb ino r \<in> set (sib_slots sb ino par js) \<or> last_slot sb ino r \<in> node_slots sb (slots_nodes sb ino d (sib_slots sb ino par js))"
    by (auto simp: cut_off_def)
  from r(3) have "\<exists>j \<in> set js. \<exists>t. r = par @ j # t"
  proof
    assume "last_slot sb ino r \<in> set (sib_slots sb ino par js)"
    then obtain j where "j \<in> set js" "last_slot sb ino r = last_slot sb ino (par @ [j])" by (auto simp: sib_slots_def)
    then show ?thesis using last_slot_inj [OF siblingsD(9) [OF S] r(2) siblingsD(5) [OF S]] by auto
  next
    assume "last_slot sb ino r \<in> node_slots sb (slots_nodes sb ino d (sib_slots sb ino par js))"
    then obtain x i where x: "last_slot sb ino r = BlockSlot x i" "x \<in> slots_nodes sb ino d (sib_slots sb ino par js)" by (auto simp: node_slots_def)
    obtain j t where j: "j \<in> set js" "par @ j # t \<in> live sb ino" "x = uint (walk_path sb ino (par @ j # t))"
      using sib_nodes [OF S x(2)] by blast
    have l: "length r \<noteq> 1" "walk_path sb ino (butlast r) = walk_path sb ino (par @ j # t)"
      using x(1) j(3) by (auto simp: last_slot_def word_uint_eq_iff split: if_splits)
    have "butlast r = par @ j # t" using inj_onD [OF siblingsD(9) [OF S] l(2) open_pos_live [OF r(2) l(1)] j(2)] .
    then have "r = par @ j # (t @ [last r])" using r(2) append_butlast_last_id [of r]
      by (cases "r = []") (auto simp: open_pos_def positions_def)
    then show ?thesis using j(1) by blast
  qed
  then show "q \<in> tails (KR_ADDR_PER_BLOCK sb) par (set js)" using q(1) r(1) by (auto simp: tails_def)
qed

lemma kr_free_branches_cut:
  assumes S: "siblings sb ino par js d" and k: "io_ok k" "quota_ok k"
  shows "\<exists>sb' ino'. kr_free_branches k (sib_slots sb ino par js) d sb ino = Some (sb', ino') \<and> cut sb ino (tails (KR_ADDR_PER_BLOCK sb) par (set js)) sb' ino'"
proof -
  have "distinct (sib_slots sb ino par js)"
    using siblingsD(3) [OF S] last_slot_inj [OF siblingsD(9) [OF S] siblingsD(5) [OF S] siblingsD(5) [OF S]] by (auto simp: sib_slots_def distinct_map inj_on_def)
  moreover have "\<forall>p \<in> set (sib_slots sb ino par js). valid_slot sb ino p \<and> slot_apart (slots_nodes sb ino d (sib_slots sb ino par js)) p"
    using sib_apart [OF S] read_last_slot [OF siblingsD(7) [OF S] siblingsD(5) [OF S]] by (auto simp: sib_slots_def valid_slot_def)
  moreover have "set (slots_blocks sb ino d (sib_slots sb ino par js)) \<subseteq> data_set sb"
    unfolding sib_set_slots_blocks [OF S] using siblingsD(2) [OF S] by (auto simp: file_ok_def owned_def blocks_at_def)
  moreover have "length (sib_slots sb ino par js) \<le> 32768" using siblingsD(4) [OF S] by (simp add: sib_slots_def)
  ultimately obtain sb' ino' where r: "kr_free_branches k (sib_slots sb ino par js) d sb ino = Some (sb', ino')"
      "freed sb ino (set (slots_blocks sb ino d (sib_slots sb ino par js))) (set (sib_slots sb ino par js) \<union> node_slots sb (slots_nodes sb ino d (sib_slots sb ino par js))) sb' ino'"
    using kr_free_branches_freed [OF k _ _ siblingsD(1,8) [OF S], of d "sib_slots sb ino par js" ino] k sib_distinct_slots_blocks [OF S] by blast
  have "cut sb ino (tails (KR_ADDR_PER_BLOCK sb) par (set js)) sb' ino'"
    using r(2) freed_tree_ok [OF r(2) siblingsD(7) [OF S]] walk_freed [OF r(2) siblingsD(7) [OF S]] sib_cut_off_slots [OF S]
    unfolding sib_set_slots_blocks [OF S] by (simp add: cut_def freed_def)
  then show ?thesis using r(1) by blast
qed

end
