(* ===== verification/Kr_Truncate_Path.thy ===== *)
theory Kr_Truncate_Path
  imports Kr_Cut
begin

text \<open>
  Truncation as a whole: the order of the paths of a file, the branch that straddles the new end,
  and the theorem that a truncated file maps the blocks before its new end as before and no
  other, with every block it gave up marked free.
\<close>

section \<open>Paths as positions\<close>

lemma path_ok_iff:
  assumes "16 \<le> p"
  shows "path_ok p q \<longleftrightarrow> q \<in> positions p \<and> length q = Suc (tree_depth (hd q))"
  by (cases "(p, q)" rule: path_ok.cases) (auto simp: positions_def tree_depth_def split: if_splits)

lemma take_position:
  "q \<in> positions p \<Longrightarrow> 0 < l \<Longrightarrow> take l q \<in> positions p"
  using positions_prefix [of "take l q" "drop l q" p] by (cases q) (auto simp: positions_def)

lemma mult_add_less:
  assumes "0 < (p::int)" "a < a'" "b < p" "0 \<le> b'"
  shows "a * p + b < a' * p + b'"
proof -
  have "(a + 1) * p \<le> a' * p" using assms by (intro mult_right_mono) auto
  then show ?thesis using assms by (simp add: algebra_simps)
qed

text \<open>The first block that the tree of entry \<open>h\<close> of the inode maps.\<close>

definition tree_start :: "int \<Rightarrow> int \<Rightarrow> int" where
  "tree_start p h =
     (if h \<le> 12 then h else if h = 13 then 12 + p else if h = 14 then 12 + p + p * p else 12 + p + p * p + p * p * p)"

lemma path_block_bounds:
  assumes p: "16 \<le> p" and q: "path_ok p q"
  shows "tree_start p (hd q) \<le> path_block p q" "path_block p q < tree_start p (hd q + 1)"
proof -
  have "tree_start p (hd q) \<le> path_block p q \<and> path_block p q < tree_start p (hd q + 1)"
  proof (cases "(p, q)" rule: path_ok.cases)
    case (3 p' i a b)
    then show ?thesis using q mult_add_less [of p a p b 0] p by (simp add: tree_start_def)
  next
    case (4 p' i a b c)
    have "a * p + b < p * p" using mult_add_less [of p a p b 0] p q 4 by simp
    then have "(a * p + b) * p + c < p * p * p" using mult_add_less [of p "a * p + b" "p * p" c 0] p q 4 by simp
    moreover have "0 \<le> a * (p * p)" "0 \<le> b * p" using p q 4 by simp_all
    ultimately show ?thesis using q 4 by (simp add: tree_start_def algebra_simps)
  qed (use q p in \<open>simp_all add: tree_start_def\<close>)
  then show "tree_start p (hd q) \<le> path_block p q" "path_block p q < tree_start p (hd q + 1)" by simp_all
qed

lemma path_block_hd:
  assumes p: "16 \<le> p" and q: "path_ok p q" "path_ok p r" "hd q < hd r"
  shows "path_block p q < path_block p r"
proof -
  have "(0::int) \<le> q" if "q = p * p" for q using p that by simp
  moreover have "hd r < 15" using q(2) unfolding path_ok_iff [OF p] positions_def by simp
  ultimately have "tree_start p (hd q + 1) \<le> tree_start p (hd r)"
    unfolding tree_start_def using p q(3) by (auto split: if_splits intro: order_trans [of _ 11])
  then show ?thesis using path_block_bounds [OF p q(1)] path_block_bounds [OF p q(2)] by simp
qed

lemma path_block_less:
  assumes p: "16 \<le> p" and q: "path_ok p (u @ x # r)" "path_ok p (u @ y # s)" "x < y"
  shows "path_block p (u @ x # r) < path_block p (u @ y # s)"
proof (cases "u = []")
  case True
  then show ?thesis using path_block_hd [OF p] q by simp
next
  case False
  note m = mult_add_less [of p]
  have p0: "0 < p" using p by simp
  have len: "length r = length s" using q(1,2) False unfolding path_ok_iff [OF p] by simp
  have h: "a * (p * p) + b * p + c = (a * p + b) * p + c" for a b c by (simp add: algebra_simps)
  from q(1) show ?thesis
  proof (cases "(p, u @ x # r)" rule: path_ok.cases)
    case (2 p' i a)
    then have "u = [i]" "x = a" "r = []" using False by (auto simp: Cons_eq_append_conv append_eq_Cons_conv)
    then show ?thesis using q len by simp
  next
    case (3 p' i a b)
    then consider "u = [i]" "x = a" "r = [b]" | "u = [i, a]" "x = b" "r = []"
      using False by (auto simp: Cons_eq_append_conv append_eq_Cons_conv)
    then show ?thesis
    proof cases
      case 1
      then obtain b' where s: "s = [b']" using len by (auto simp: Suc_length_conv)
      then show ?thesis using q m [of x y b b'] p0 1 by simp
    next
      case 2
      then show ?thesis using q len by simp
    qed
  next
    case (4 p' i a b c)
    then consider "u = [i]" "x = a" "r = [b, c]" | "u = [i, a]" "x = b" "r = [c]" | "u = [i, a, b]" "x = c" "r = []"
      using False by (auto simp: Cons_eq_append_conv append_eq_Cons_conv)
    then show ?thesis
    proof cases
      case 1
      then obtain b' c' where s: "s = [b', c']" using len by (cases s; cases "tl s") auto
      have "x * p + b < y * p + b'" using m [of x y b b'] s q 1 p0 by simp
      then have "(x * p + b) * p + c < (y * p + b') * p + c'" using m s q 1 p0 by simp
      then show ?thesis using 1 s by (simp add: algebra_simps)
    next
      case 2
      then obtain c' where s: "s = [c']" using len by (auto simp: Suc_length_conv)
      then show ?thesis using 2 m [of x y c c'] q p0 by simp
    next
      case 3
      then show ?thesis using q len by simp
    qed
  qed (use q False in \<open>auto simp: append_eq_Cons_conv\<close>)
qed

section \<open>The chain of a branch\<close>

lemma walk_chain_nth:
  "length (walk_chain sb key offs) \<le> length offs \<and>
   (length (walk_chain sb key offs) < length offs \<longrightarrow> walk sb key (take (length (walk_chain sb key offs)) offs) = 0) \<and>
   (\<forall>l < length (walk_chain sb key offs).
      walk sb key (take l offs) \<noteq> 0 \<and>
      walk_chain sb key offs ! l =
        \<lparr>ind_p = BlockSlot (uint (walk sb key (take l offs))) (offs ! l), ind_key = walk sb key (take (Suc l) offs),
         ind_bh = Some (uint (walk sb key (take l offs)))\<rparr>)"
proof (induction offs arbitrary: key)
  case (Cons off offs)
  show ?case
  proof (cases "key = 0")
    case False
    let ?c = "walk_chain sb (b_ind sb (uint key) ! nat off) offs"
    have "walk sb key (take l (off # offs)) \<noteq> 0 \<and>
      walk_chain sb key (off # offs) ! l =
        \<lparr>ind_p = BlockSlot (uint (walk sb key (take l (off # offs)))) ((off # offs) ! l),
         ind_key = walk sb key (take (Suc l) (off # offs)), ind_bh = Some (uint (walk sb key (take l (off # offs))))\<rparr>"
      if "l < Suc (length ?c)" for l
      using Cons.IH [of "b_ind sb (uint key) ! nat off"] False that by (cases l) (auto simp: Let_def)
    then show ?thesis using Cons.IH [of "b_ind sb (uint key) ! nat off"] False by (simp add: Let_def)
  qed simp
qed simp

lemma branch_chain_nth:
  assumes "path \<noteq> []" and chain_def: "chain = branch_chain sb ino path"
  shows "0 < length chain" "length chain \<le> length path"
    "length chain < length path \<Longrightarrow> walk_path sb ino (take (length chain) path) = 0"
    "l < length chain \<Longrightarrow> ind_p (chain ! l) = last_slot sb ino (take (Suc l) path) \<and>
       ind_key (chain ! l) = walk_path sb ino (take (Suc l) path)"
    "0 < l \<Longrightarrow> l < length chain \<Longrightarrow> walk_path sb ino (take l path) \<noteq> 0 \<and>
       ind_bh (chain ! l) = Some (uint (walk_path sb ino (take l path))) \<and>
       ind_p (chain ! l) = BlockSlot (uint (walk_path sb ino (take l path))) (path ! l)"
proof -
  obtain x xs where p: "path = x # xs" using assms(1) by (cases path) auto
  note W = walk_chain_nth [of sb "i_data ino ! nat x" xs]
  show "0 < length chain" "length chain \<le> length path"
    "length chain < length path \<Longrightarrow> walk_path sb ino (take (length chain) path) = 0"
    using W by (simp_all add: chain_def p)
  show five: "0 < l \<Longrightarrow> l < length chain \<Longrightarrow> walk_path sb ino (take l path) \<noteq> 0 \<and>
       ind_bh (chain ! l) = Some (uint (walk_path sb ino (take l path))) \<and>
       ind_p (chain ! l) = BlockSlot (uint (walk_path sb ino (take l path))) (path ! l)" for l
    using W by (cases l) (auto simp: chain_def p)
  show "ind_p (chain ! l) = last_slot sb ino (take (Suc l) path) \<and>
       ind_key (chain ! l) = walk_path sb ino (take (Suc l) path)" if l: "l < length chain"
  proof (cases l)
    case (Suc j)
    then have "l < length path" using l W by (simp add: chain_def p)
    then have "take (Suc l) path = take l path @ [path ! l]" "take l path \<noteq> []" using Suc by (auto simp: take_Suc_conv_app_nth)
    then have "ind_p (chain ! l) = last_slot sb ino (take (Suc l) path)" using five [of l] l Suc by (simp add: last_slot_snoc)
    moreover have "ind_key (chain ! l) = walk_path sb ino (take (Suc l) path)" using W l Suc by (simp add: chain_def p)
    ultimately show ?thesis by simp
  qed (simp add: chain_def p)
qed

lemma kr_get_branch_positions:
  assumes io: "io_ok k" and ok: "tree_ok sb ino" and path: "path \<in> positions (KR_ADDR_PER_BLOCK sb)"
  shows "kr_get_branch k sb ino path = Some (walk_path sb ino path \<noteq> 0, branch_chain sb ino path, None)"
proof (cases path)
  case (Cons off offs)
  have o: "0 \<le> off" "off < 15" "\<forall>x \<in> set offs. 0 \<le> x \<and> x < KR_ADDR_PER_BLOCK sb" using path Cons by (auto simp: positions_def)
  let ?c = "\<lparr>ind_p = InodeSlot off, ind_key = i_data ino ! nat off, ind_bh = None\<rparr>"
  have rd: "read_slot sb ino (InodeSlot off) = Some (i_data ino ! nat off)"
    using o ok by (simp add: get_entry_def tree_ok_def)
  have v: "verify_chain sb ino [?c] = Some True" using rd by simp
  show ?thesis
  proof (cases "ind_key ?c = 0")
    case True
    then have "walk_chain sb (i_data ino ! nat off) offs = []" by (cases offs) simp_all
    then show ?thesis using True rd by (simp add: Cons add_chain_def)
  next
    case False
    then show ?thesis using get_branch_loop_chain [OF io ok o(3) v False] rd by (simp add: Cons add_chain_def)
  qed
qed (use path in \<open>simp add: positions_def\<close>)

lemma shared_depth_props:
  assumes "0 < n"
  shows "0 < shared_depth offs n \<and> shared_depth offs n \<le> n \<and>
     (\<forall>l. shared_depth offs n \<le> l \<and> l < n \<longrightarrow> offs ! l = 0) \<and>
     (1 < shared_depth offs n \<longrightarrow> offs ! (shared_depth offs n - 1) \<noteq> 0)"
  using assms
proof (induction offs n rule: shared_depth.induct)
  case (1 offs k)
  show ?case
  proof (cases "offs ! Suc k = 0")
    case True
    then show ?thesis using 1 by (auto simp: less_Suc_eq)
  qed simp
qed auto

lemma shared_top_props:
  assumes "\<And>l. 0 < l \<Longrightarrow> l \<le> m \<Longrightarrow> ind_bh (chain ! l) = Some (b l) \<and> slot_index (ind_p (chain ! l)) = j l"
  shows "shared_top sb chain m \<le> m \<and> (\<forall>l. shared_top sb chain m < l \<and> l \<le> m \<longrightarrow> all_zeroes (take (j l) (b_ind sb (b l))))"
  using assms
proof (induction m)
  case (Suc m)
  show ?case
  proof (cases "all_zeroes (take (j (Suc m)) (b_ind sb (b (Suc m))))")
    case True
    have e: "shared_top sb chain (Suc m) = shared_top sb chain m" using Suc.prems [of "Suc m"] True by simp
    have "shared_top sb chain m \<le> m \<and> (\<forall>l. shared_top sb chain m < l \<and> l \<le> m \<longrightarrow> all_zeroes (take (j l) (b_ind sb (b l))))"
      using Suc by simp
    then show ?thesis unfolding e using True by (auto simp: le_Suc_eq)
  next
    case False
    then show ?thesis using Suc.prems [of "Suc m"] by auto
  qed
qed simp

lemma all_zeroes_nth: "all_zeroes xs \<Longrightarrow> i < length xs \<Longrightarrow> xs ! i = 0"
  by (induction xs arbitrary: i) (auto simp: nth_Cons split: if_splits nat.splits)

section \<open>Truncating a branch\<close>

lemma siblings_single:
  assumes "fs_ok sb" "file_ok sb ino" "open_pos sb ino (par @ [j])" "Suc (tree_depth (hd (par @ [j]))) = length (par @ [j]) + d"
  shows "siblings sb ino par [j] d"
  using assms by (simp add: siblings_def)

lemma set_entry_id: "get_entry xs i = Some v \<Longrightarrow> set_entry xs i v = Some xs"
  by (auto simp: get_entry_def set_entry_def split: if_splits)

lemma write_slot_id: "read_slot sb ino s = Some v \<Longrightarrow> write_slot sb ino s v = Some (sb, ino)"
  by (cases s) (simp_all add: set_entry_id)

lemma bind_pair: "m \<bind> (\<lambda>(x, y). Some (x, y)) = m"
  by (cases m) auto

lemma free_slots_Nil: "free_slots f [] = (\<lambda>sb ino. Some (sb, ino))"
  by (simp add: fun_eq_iff)

text \<open>Clearing one slot and freeing the branch that grew from it.\<close>

lemma detach_branch:
  assumes "0 < d" "read_slot sb ino s = Some v"
  shows "do { (sb1, ino1) \<leftarrow> write_slot sb ino s 0; if v \<noteq> 0 then free_branch k d v sb1 ino1 else Some (sb1, ino1) } =
     kr_free_branches k [s] d sb ino"
  using assms write_slot_id [of sb ino s 0]
  by (auto simp: kr_free_branches_def free_slots_Nil bind_pair)

lemma kill_tree_eq: "0 < d \<Longrightarrow> kill_tree k i d sb ino = kr_free_branches k [InodeSlot i] d sb ino"
  by (cases "read_slot sb ino (InodeSlot i)") (simp_all add: kill_tree_def kr_free_branches_def free_slots_Nil bind_pair del: read_slot.simps write_slot.simps)

lemma open_root: "0 \<le> j \<Longrightarrow> j < 15 \<Longrightarrow> open_pos sb ino [j]"
  by (simp add: open_pos_def positions_def)

lemma kill_tree_cut:
  assumes k: "io_ok k" "quota_ok k" and ok: "fs_ok sb" "file_ok sb ino" and i: "12 \<le> i" "i < 15" "d = nat (i - 11)"
  shows "\<exists>sb' ino'. kill_tree k i d sb ino = Some (sb', ino') \<and> cut sb ino (tails (KR_ADDR_PER_BLOCK sb) [] {i}) sb' ino'"
proof -
  have "siblings sb ino [] [i] d"
    by (rule siblings_single [OF ok]) (use i open_root in \<open>simp_all add: tree_depth_def\<close>)
  from kr_free_branches_cut [OF this k] show ?thesis
    using i by (simp add: kill_tree_eq sib_slots_def)
qed

text \<open>One more step on a file that has been cut.\<close>

lemma cut_step:
  assumes c: "cut sb ino F sb1 ino1" and ok: "file_ok sb ino"
    and step: "fs_ok sb1 \<Longrightarrow> file_ok sb1 ino1 \<Longrightarrow>
      \<exists>sb' ino'. m sb1 ino1 = Some (sb', ino') \<and> cut sb1 ino1 G sb' ino'"
  shows "\<exists>sb' ino'. m sb1 ino1 = Some (sb', ino') \<and> cut sb ino (F \<union> G) sb' ino'"
proof -
  have "fs_ok sb1" using c by (simp add: cut_def)
  then show ?thesis using step cut_file_ok(1) [OF ok c] cut_trans [OF c] by blast
qed

lemma tails_Un: "tails p par A \<union> tails p par B = tails p par (A \<union> B)"
  by (auto simp: tails_def)

lemma do_indirects_cut:
  assumes k: "io_ok k" "quota_ok k" and ok: "fs_ok sb" "file_ok sb ino"
  shows "\<exists>sb' ino'. do_indirects k h sb ino = Some (sb', ino') \<and>
     cut sb ino (tails (KR_ADDR_PER_BLOCK sb) [] ({t. h < t \<and> 12 \<le> t \<and> t \<le> 14} \<union> (if h = 12 \<or> h = 13 \<or> h = 14 then {} else {12, 13, 14}))) sb' ino'"
proof -
  let ?p = "KR_ADDR_PER_BLOCK sb"
  have tr: "tree_ok sb ino" using ok by (simp add: file_ok_def)
  let ?A = "if h = 12 \<or> h = 13 \<or> h = 14 then {} else {12}" and ?B = "if h = 13 \<or> h = 14 then {} else {13}"
  obtain sb1 ino1 where 1: "(if h = 12 \<or> h = 13 \<or> h = 14 then Some (sb, ino) else kill_tree k 12 1 sb ino) = Some (sb1, ino1)"
      "cut sb ino (tails ?p [] ?A) sb1 ino1"
    using kill_tree_cut [OF k ok, of 12 1] cut_refl [OF ok(1) tr]
    by (cases "h = 12 \<or> h = 13 \<or> h = 14") auto
  note p1 = cut_addr [OF 1(2)]
  have "\<exists>sb2 ino2. (if h = 13 \<or> h = 14 then Some (sb1, ino1) else kill_tree k 13 2 sb1 ino1) = Some (sb2, ino2) \<and>
      cut sb ino (tails ?p [] ?A \<union> tails ?p [] ?B) sb2 ino2"
    by (rule cut_step [OF 1(2) ok(2), where m = "\<lambda>s i. if h = 13 \<or> h = 14 then Some (s, i) else kill_tree k 13 2 s i"])
      (use kill_tree_cut [OF k, of sb1 ino1 13 2] cut_refl [of sb1 ino1] p1 in \<open>auto simp: file_ok_def\<close>)
  then obtain sb2 ino2 where 2: "(if h = 13 \<or> h = 14 then Some (sb1, ino1) else kill_tree k 13 2 sb1 ino1) = Some (sb2, ino2)"
      "cut sb ino (tails ?p [] ?A \<union> tails ?p [] ?B) sb2 ino2" by blast
  note p2 = cut_addr [OF 2(2)]
  have "\<exists>sb3 ino3. (if h = 14 then Some (sb2, ino2) else kill_tree k 14 3 sb2 ino2) = Some (sb3, ino3) \<and>
      cut sb ino (tails ?p [] ?A \<union> tails ?p [] ?B \<union> tails ?p [] (if h = 14 then {} else {14})) sb3 ino3"
    by (rule cut_step [OF 2(2) ok(2), where m = "\<lambda>s i. if h = 14 then Some (s, i) else kill_tree k 14 3 s i"])
      (use kill_tree_cut [OF k, of sb2 ino2 14 3] cut_refl [of sb2 ino2] p2 in \<open>auto simp: file_ok_def\<close>)
  moreover have "?A \<union> ?B \<union> (if h = 14 then {} else {14}) =
      {t. h < t \<and> 12 \<le> t \<and> t \<le> 14} \<union> (if h = 12 \<or> h = 13 \<or> h = 14 then {} else {12, 13, 14})" by auto
  ultimately show ?thesis using 1(1) 2(1) by (simp add: do_indirects_def tails_Un)
qed

lemma clear_ends_cut:
  assumes k: "io_ok k" "quota_ok k" and o: "path_ok p offs" "16 \<le> p" "p = KR_ADDR_PER_BLOCK sb"
  shows "\<lbrakk> fs_ok sb'; file_ok sb' ino; KR_ADDR_PER_BLOCK sb' = p; length cs = Suc i; i < length offs;
     \<And>l. 0 < l \<Longrightarrow> l \<le> i \<Longrightarrow> ind_p (cs ! l) = BlockSlot (uint (walk_path sb' ino (take l offs))) (c l) \<and>
       walk_path sb' ino (take l offs) \<noteq> 0 \<and> - 1 \<le> c l \<rbrakk> \<Longrightarrow>
     \<exists>sb2 ino2. clear_ends k (rev cs) (length offs - Suc i) sb' ino = Some (sb2, ino2) \<and>
       cut sb' ino (\<Union>l \<in> {1..i}. tails p (take l offs) {c l + 1..<p}) sb2 ino2"
proof (induction i arbitrary: sb' ino cs)
  case 0
  then obtain x where "cs = [x]" by (cases cs) auto
  then show ?case using cut_refl 0 by (simp add: file_ok_def)
next
  case (Suc i)
  let ?par = "take (Suc i) offs" and ?js = "[c (Suc i) + 1..p - 1]" and ?d = "length offs - Suc (Suc i)"
  have n: "length offs = Suc (tree_depth (hd offs))" "offs \<in> positions p" using o path_ok_iff by auto
  have ne: "?par \<noteq> []" "offs \<noteq> []" using Suc.prems(5) by auto
  have par: "?par \<in> positions p" using take_position [OF n(2), of "Suc i"] by simp
  have c: "ind_p (cs ! Suc i) = BlockSlot (uint (walk_path sb' ino ?par)) (c (Suc i))" "walk_path sb' ino ?par \<noteq> 0" "- 1 \<le> c (Suc i)"
    using Suc.prems(6) [of "Suc i"] by auto
  have cs: "rev cs = cs ! Suc i # rev (butlast cs)" "length (butlast cs) = Suc i"
    using Suc.prems(4) by (cases cs rule: rev_cases; simp add: nth_append)+
  have pos: "?par @ [j] \<in> positions p" if "0 \<le> j" "j < p" for j
    using positions_append [OF ne(1), of "[j]" p] par n(1) that Suc.prems(5) by (simp add: hd_take)
  have "siblings sb' ino ?par ?js ?d"
    using Suc.prems(1-3,5) pos c(2,3) n(1) o(2,3) tree_ok_ind [of sb' ino] ne
    by (auto simp: siblings_def open_pos_def file_ok_def ind_ok_def)
  from kr_free_branches_cut [OF this k] have "\<exists>sb1 ino1.
      kr_free_branches k (sib_slots sb' ino ?par ?js) ?d sb' ino = Some (sb1, ino1) \<and> cut sb' ino (tails p ?par (set ?js)) sb1 ino1"
    unfolding Suc.prems(3) .
  moreover have "sib_slots sb' ino ?par ?js = block_slots sb' (uint (walk_path sb' ino ?par)) (c (Suc i) + 1)"
    unfolding sib_slots_def block_slots_def Suc.prems(3) using last_slot_snoc [OF ne(1)] by simp
  moreover have "set ?js = {c (Suc i) + 1..<p}" by auto
  ultimately obtain sb1 ino1 where f: "kr_free_branches k (block_slots sb' (uint (walk_path sb' ino ?par)) (c (Suc i) + 1)) ?d sb' ino = Some (sb1, ino1)"
      "cut sb' ino (tails p ?par {c (Suc i) + 1..<p}) sb1 ino1" by auto
  have ok1: "fs_ok sb1" "file_ok sb1 ino1" "KR_ADDR_PER_BLOCK sb1 = p"
    using f(2) cut_file_ok(1) [OF Suc.prems(2) f(2)] cut_addr [OF f(2)] Suc.prems(3) by (simp_all add: cut_def)
  have same: "walk_path sb1 ino1 (take l offs) = walk_path sb' ino (take l offs)" if "0 < l" "l \<le> i" for l
    using cut_walk [OF f(2), of "take l offs"] take_position [OF n(2), of l] that Suc.prems(3,5)
    by (auto simp: tails_def dest: arg_cong [of _ _ length])
  have "\<exists>sb2 ino2. clear_ends k (rev (butlast cs)) (length offs - Suc i) sb1 ino1 = Some (sb2, ino2) \<and>
      cut sb1 ino1 (\<Union>l \<in> {1..i}. tails p (take l offs) {c l + 1..<p}) sb2 ino2"
    using Suc.IH [OF ok1 cs(2)] Suc.prems(5,6) same cs(2) by (simp add: nth_butlast)
  then obtain sb2 ino2 where r: "clear_ends k (rev (butlast cs)) (length offs - Suc i) sb1 ino1 = Some (sb2, ino2)"
      "cut sb1 ino1 (\<Union>l \<in> {1..i}. tails p (take l offs) {c l + 1..<p}) sb2 ino2" by blast
  obtain x xs where x: "rev (butlast cs) = x # xs" by (cases "rev (butlast cs)") (use cs(2) in \<open>simp_all del: length_butlast\<close>)
  have "Suc ?d = length offs - Suc i" using Suc.prems(5) by simp
  then have "clear_ends k (rev cs) ?d sb' ino = Some (sb2, ino2)"
    using r(1) unfolding cs(1) x by (simp add: c(1) f(1))
  moreover have "tails p ?par {c (Suc i) + 1..<p} \<union> (\<Union>l \<in> {1..i}. tails p (take l offs) {c l + 1..<p}) =
      (\<Union>l \<in> {1..Suc i}. tails p (take l offs) {c l + 1..<p})" by (auto simp: atLeastAtMostSuc_conv)
  ultimately show ?case using cut_trans [OF f(2) r(2)] by auto
qed

text \<open>
  What one pass over a branch has to achieve: every block at or after the new end is cut off,
  and of those before it only blocks that do not exist.
\<close>

definition cuts_from :: "super_block \<Rightarrow> inode \<Rightarrow> (int list \<Rightarrow> bool) \<Rightarrow> int list set \<Rightarrow> int list \<Rightarrow> bool" where
  "cuts_from sb ino S F offs =
     (\<forall>q. path_ok (KR_ADDR_PER_BLOCK sb) q \<and> S q \<longrightarrow>
        (path_block (KR_ADDR_PER_BLOCK sb) offs \<le> path_block (KR_ADDR_PER_BLOCK sb) q \<longrightarrow> q \<in> F) \<and>
        (q \<in> F \<longrightarrow> path_block (KR_ADDR_PER_BLOCK sb) offs \<le> path_block (KR_ADDR_PER_BLOCK sb) q \<or> walk_path sb ino q = 0))"

lemma path_compare:
  assumes p: "16 \<le> p" and q: "path_ok p q" "path_ok p offs" "hd q = hd offs"
  obtains (same) "q = offs"
  | (before) l where "0 < l" "l < length offs" "take l q = take l offs" "q ! l < offs ! l" "path_block p q < path_block p offs"
  | (after) l where "0 < l" "l < length offs" "take l q = take l offs" "offs ! l < q ! l" "path_block p offs < path_block p q"
proof (cases "q = offs")
  case False
  have len: "length q = length offs" "q \<noteq> []" "offs \<noteq> []" using q path_ok_iff [OF p] by (auto simp: positions_def)
  obtain u x r y s where d: "x \<noteq> y" "q = u @ [x] @ r" "offs = u @ [y] @ s"
    using same_length_different [OF False len(1)] by blast
  have u: "u \<noteq> []" using d q(3) by auto
  have l: "0 < length u" "length u < length offs" "take (length u) q = take (length u) offs" "q ! length u = x" "offs ! length u = y"
    using d u by simp_all
  show ?thesis
  proof (cases "x < y")
    case True
    then show ?thesis using before [OF l(1-3)] path_block_less [OF p, of u x r y s] d q l by simp
  next
    case False
    then show ?thesis using after [OF l(1-3)] path_block_less [OF p, of u y s x r] d q l by simp
  qed
qed (rule same)

lemma take_nth_append: "l < length q \<Longrightarrow> q = take l q @ q ! l # drop (Suc l) q"
  by (simp add: Cons_nth_drop_Suc)

lemma walk_take_0:
  assumes "0 < m" "q \<noteq> []" "walk_path sb ino (take m q) = 0"
  shows "walk_path sb ino q = 0"
  using walk_path_append [of "take m q" sb ino "drop m q"] assms by simp

text \<open>The ends of the pointer arrays along a path, after entry \<open>c l\<close> of the array at level \<open>l\<close>.\<close>

definition ends :: "int \<Rightarrow> int list \<Rightarrow> nat \<Rightarrow> (nat \<Rightarrow> int) \<Rightarrow> int list set" where
  "ends p offs i c = (\<Union>l \<in> {1..i}. tails p (take l offs) {c l + 1..<p})"

lemma tails_iff:
  assumes "q \<in> positions p" "l < length offs"
  shows "q \<in> tails p (take l offs) J \<longleftrightarrow> l < length q \<and> take l q = take l offs \<and> q ! l \<in> J"
proof -
  have t: "length (take l offs) = l" using assms(2) by simp
  show ?thesis
  proof
    assume "q \<in> tails p (take l offs) J"
    then obtain j r where "j \<in> J" "q = take l offs @ j # r" by (auto simp: tails_def)
    then show "l < length q \<and> take l q = take l offs \<and> q ! l \<in> J" using t by (simp add: nth_append)
  next
    assume a: "l < length q \<and> take l q = take l offs \<and> q ! l \<in> J"
    then have "q = take l offs @ q ! l # drop (Suc l) q" using take_nth_append [of l q] by simp
    then show "q \<in> tails p (take l offs) J" using assms(1) a unfolding tails_def by blast
  qed
qed

lemma take_nth_eq: "take l q = take l offs \<Longrightarrow> j < l \<Longrightarrow> q ! j = offs ! j"
  by (metis nth_take)

lemma take_take_eq: "take l q = take l offs \<Longrightarrow> j \<le> l \<Longrightarrow> take j q = take j offs"
  by (metis take_take min.absorb1)

text \<open>
  The positions that go when the pointer at \<open>offs ! i\<close> and the ends above it are cleared are those
  at or after the path, provided that the branches before its deeper offsets are empty.
\<close>

lemma cut_shared:
  assumes p: "p = KR_ADDR_PER_BLOCK sb" "16 \<le> p" and o: "path_ok p offs" "i < length offs"
    and F: "F = tails p (take i offs) {offs ! i..<e} \<union> ends p offs i c" "offs ! i < e"
    and c: "\<And>l. 0 < l \<Longrightarrow> l < i \<Longrightarrow> c l = offs ! l" "0 < i \<Longrightarrow> c i + 1 = offs ! i \<or> c i = offs ! i" "0 < i \<Longrightarrow> c i + 1 \<le> e" "i = 0 \<Longrightarrow> e = offs ! 0 + 1"
    and low: "\<And>q l. path_ok p q \<Longrightarrow> i < l \<Longrightarrow> l < length offs \<Longrightarrow> take l q = take l offs \<Longrightarrow> q ! l < offs ! l \<Longrightarrow>
      walk_path sb ino q = 0"
  shows "cuts_from sb ino (\<lambda>q. hd q = hd offs) F offs"
  unfolding cuts_from_def p(1) [symmetric]
proof (intro allI impI)
  fix q
  assume q: "path_ok p q \<and> hd q = hd offs"
  have pos: "q \<in> positions p" "length q = length offs" "q \<noteq> []" using q o path_ok_iff [OF p(2)] by (auto simp: positions_def)
  have lt: "x < p" if "x \<in> set (tl q)" for x using pos(1) that by (simp add: positions_def)
  have nlt: "q ! l < p" if "0 < l" "l < length q" for l
    using lt [of "q ! l"] nth_tl [of "l - 1" q] that nth_mem [of "l - 1" "tl q"] by simp
  have hd: "q ! 0 = offs ! 0" using q pos by (metis hd_conv_nth length_0_conv)
  have mem: "q \<in> F \<longleftrightarrow> (take i q = take i offs \<and> offs ! i \<le> q ! i \<and> q ! i < e) \<or>
      (\<exists>l. 0 < l \<and> l \<le> i \<and> take l q = take l offs \<and> c l < q ! l)"
    using tails_iff [OF pos(1), of _ offs] pos(2) o(2) nlt unfolding F(1) ends_def by (auto simp: Suc_le_eq)
  show "(path_block p offs \<le> path_block p q \<longrightarrow> q \<in> F) \<and>
      (q \<in> F \<longrightarrow> path_block p offs \<le> path_block p q \<or> walk_path sb ino q = 0)"
  proof (rule path_compare [OF p(2), of q offs])
    assume "q = offs"
    then show ?thesis using mem F(2) by simp
  next
    fix l
    assume l: "0 < l" "l < length offs" "take l q = take l offs" "q ! l < offs ! l" "path_block p q < path_block p offs"
    have "walk_path sb ino q = 0" if "q \<in> F"
    proof (cases "i < l")
      case True
      then show ?thesis using low q l by blast
    next
      case False
      have no: "\<not> (take j q = take j offs)" if "l < j" for j using take_nth_eq [of j q offs l] that l(4) by auto
      from \<open>q \<in> F\<close> show ?thesis unfolding mem
      proof
        assume a: "take i q = take i offs \<and> offs ! i \<le> q ! i \<and> q ! i < e"
        then have "i = l" using no [of i] False by (meson linorder_neqE_nat)
        then show ?thesis using a l(4) by simp
      next
        assume "\<exists>j. 0 < j \<and> j \<le> i \<and> take j q = take j offs \<and> c j < q ! j"
        then obtain j where j: "0 < j" "j \<le> i" "take j q = take j offs" "c j < q ! j" by blast
        have "j \<le> l" using no [of j] j(3) by (meson not_le)
        show ?thesis
        proof (cases "j = i")
          case True
          then have "j = l" using False \<open>j \<le> l\<close> by simp
          then show ?thesis using True j l(4) c(2) by auto
        next
          case False
          then have "c j = offs ! j" using c(1) j by simp
          then show ?thesis using j(4) take_nth_eq [OF l(3), of j] \<open>j \<le> l\<close> l(4) by (cases "j = l") auto
        qed
      qed
    qed
    then show ?thesis using l(5) by simp
  next
    fix l
    assume l: "0 < l" "l < length offs" "take l q = take l offs" "offs ! l < q ! l" "path_block p offs < path_block p q"
    have "q \<in> F"
    proof (cases "l \<le> i")
      case True
      have "c l < q ! l" using c(1) [of l] c(2) l(1,4) True by (cases "l = i") auto
      then show ?thesis unfolding mem using l(1,3) True by blast
    next
      case False
      then have "take i q = take i offs" "q ! i = offs ! i"
        using take_take_eq [OF l(3), of i] take_nth_eq [OF l(3), of i] by simp_all
      then show ?thesis unfolding mem using F(2) by simp
    qed
    then show ?thesis using l(5) by simp
  qed (use q o in simp_all)
qed

lemma kr_find_shared_eq:
  assumes io: "io_ok k" and ok: "tree_ok sb ino" and o: "path_ok (KR_ADDR_PER_BLOCK sb) offs"
    and d: "d = shared_depth offs (length offs)" and ch: "chain = branch_chain sb ino (take d offs)"
    and i: "i = shared_top sb chain (length chain - 1)"
  shows "kr_find_shared k sb ino offs =
     (if i = d - 1 \<and> 0 < i then Some (take i chain @ [(chain ! i)\<lparr>ind_p := slot_add (ind_p (chain ! i)) (- 1)\<rparr>], 0, sb, ino)
      else do { top \<leftarrow> read_slot sb ino (ind_p (chain ! i));
                (sb1, ino1) \<leftarrow> write_slot sb ino (ind_p (chain ! i)) 0;
                Some (take (Suc i) chain, top, sb1, ino1) })"
proof -
  let ?p = "KR_ADDR_PER_BLOCK sb"
  have p: "16 \<le> ?p" using ok addr_okD(2) by (simp add: tree_ok_def)
  have pos: "offs \<in> positions ?p" "offs \<noteq> []" using o path_ok_iff [OF p] by (auto simp: positions_def)
  have D: "0 < d" "d \<le> length offs" using shared_depth_props [of "length offs" offs] pos(2) by (simp_all add: d)
  have tp: "take d offs \<in> positions ?p" "take d offs \<noteq> []" using take_position [OF pos(1) D(1)] pos(2) D(1) by auto
  note C = branch_chain_nth [OF tp(2) ch]
  have ne: "chain \<noteq> []" "last chain = chain ! (length chain - 1)" using C(1) last_conv_nth by auto
  let ?m = "length chain - 1"
  have m: "?m < length chain" using C(1) by simp
  have "open_pos sb ino (take (Suc ?m) (take d offs))"
  proof (cases "?m = 0")
    case True
    have "length (take (Suc 0) (take d offs)) = 1" using tp(2) by (cases "take d offs") auto
    then show ?thesis using take_position [OF tp(1), of "Suc ?m"] unfolding open_pos_def True by simp
  next
    case False
    have "butlast (take (Suc ?m) (take d offs)) = take ?m (take d offs)" using m C(2) butlast_take [of "Suc ?m" "take d offs"] by simp
    then show ?thesis using C(5) [of ?m] m False take_position [OF tp(1), of "Suc ?m"] unfolding open_pos_def by simp
  qed
  then have rd: "read_slot sb ino (ind_p (last chain)) = Some (ind_key (last chain))"
    using read_last_slot [OF ok] C(4) [OF m] ne(2) by simp
  show ?thesis
    unfolding kr_find_shared_def Let_def d [symmetric] kr_get_branch_positions [OF io ok tp(1)] ch [symmetric] i
    by (simp only: bind.bind_lunit prod.case rd) simp
qed

lemma truncate_branch_cut:
  assumes k: "io_ok k" "quota_ok k" and ok: "fs_ok sb" "file_ok sb ino" and o: "path_ok (KR_ADDR_PER_BLOCK sb) offs"
  shows "\<exists>F sb' ino'. truncate_branch k offs sb ino = Some (sb', ino') \<and> cut sb ino F sb' ino' \<and>
     (\<forall>q \<in> F. hd offs \<le> hd q \<and> (12 \<le> hd q \<longrightarrow> hd q = hd offs)) \<and> cuts_from sb ino (\<lambda>q. hd q = hd offs \<or> hd offs < 12 \<and> hd q < 12) F offs"
proof (cases "length offs = 1")
  case True
  let ?p = "KR_ADDR_PER_BLOCK sb"
  obtain h where h: "offs = [h]" using True by (cases offs) auto
  have hb: "0 \<le> h" "h < 12" using o h by auto
  have "siblings sb ino [] [h..11] 0" using ok hb open_root by (auto simp: siblings_def tree_depth_def)
  from kr_free_branches_cut [OF this k] obtain sb' ino' where r: "kr_free_data k (map InodeSlot [h..11]) sb ino = Some (sb', ino')"
      "cut sb ino (tails ?p [] {h..11}) sb' ino'" by (auto simp: kr_free_branches_def sib_slots_def)
  have "cuts_from sb ino (\<lambda>q. hd q = hd offs \<or> hd offs < 12 \<and> hd q < 12) (tails ?p [] {h..11}) offs"
    unfolding cuts_from_def
  proof (intro allI impI)
    fix q
    assume q: "path_ok ?p q \<and> (hd q = hd offs \<or> hd offs < 12 \<and> hd q < 12)"
    have "16 \<le> ?p" using ok addr_okD(2) by (simp add: file_ok_def tree_ok_def)
    then have "q \<in> positions ?p" using q path_ok_iff by blast
    moreover obtain x where x: "q = [x]" using q hb h by (cases "(?p, q)" rule: path_ok.cases) auto
    ultimately show "(path_block ?p offs \<le> path_block ?p q \<longrightarrow> q \<in> tails ?p [] {h..11}) \<and>
        (q \<in> tails ?p [] {h..11} \<longrightarrow> path_block ?p offs \<le> path_block ?p q \<or> walk_path sb ino q = 0)"
      using q hb by (auto simp: tails_def h)
  qed
  moreover have "\<forall>q \<in> tails ?p [] {h..11}. hd offs \<le> hd q \<and> (12 \<le> hd q \<longrightarrow> hd q = hd offs)" by (auto simp: tails_def h)
  ultimately show ?thesis using r True h by (auto simp: truncate_branch_def)
next
  case False
  let ?p = "KR_ADDR_PER_BLOCK sb" and ?n = "length offs"
  have tr: "tree_ok sb ino" using ok by (simp add: file_ok_def)
  have p: "16 \<le> ?p" using tr addr_okD(2) by (simp add: tree_ok_def)
  have pos: "offs \<in> positions ?p" "offs \<noteq> []" "?n = Suc (tree_depth (hd offs))" using o path_ok_iff [OF p] by (auto simp: positions_def)
  have n: "2 \<le> ?n" "12 \<le> hd offs" using False pos(2) pos(3) by (cases offs; auto simp: tree_depth_def split: if_splits)+
  define d where "d = shared_depth offs ?n"
  define chain where "chain = branch_chain sb ino (take d offs)"
  define i where "i = shared_top sb chain (length chain - 1)"
  have D: "0 < d" "d \<le> ?n" "\<And>l. d \<le> l \<Longrightarrow> l < ?n \<Longrightarrow> offs ! l = 0" "1 < d \<Longrightarrow> offs ! (d - 1) \<noteq> 0"
    using shared_depth_props [of ?n offs] pos(2) by (simp_all add: d_def)
  have ge: "0 \<le> offs ! l" if "l < ?n" for l
    using pos(1) that by (cases l; cases offs) (auto simp: positions_def)
  have lt: "offs ! l < ?p" if "0 < l" "l < ?n" for l
    using pos(1) that by (cases l; cases offs) (auto simp: positions_def)
  have tne: "take d offs \<noteq> []" using pos(2) D(1) by simp
  note C = branch_chain_nth [OF tne chain_def]
  have lend: "length chain \<le> d" using C(2) D(2) by simp
  have tk: "take l (take d offs) = take l offs" if "l \<le> d" for l using that by (simp add: min_def)
  have C5: "walk_path sb ino (take l offs) \<noteq> 0" "ind_bh (chain ! l) = Some (uint (walk_path sb ino (take l offs)))"
      "ind_p (chain ! l) = BlockSlot (uint (walk_path sb ino (take l offs))) (offs ! l)" if "0 < l" "l < length chain" for l
    using C(5) [OF that] that lend tk [of l] by simp_all
  have T: "i \<le> length chain - 1" "\<And>l. i < l \<Longrightarrow> l \<le> length chain - 1 \<Longrightarrow>
      all_zeroes (take (nat (offs ! l)) (b_ind sb (uint (walk_path sb ino (take l offs)))))"
    using shared_top_props [of "length chain - 1" chain "\<lambda>l. uint (walk_path sb ino (take l offs))" "\<lambda>l. nat (offs ! l)" sb] C5
    by (auto simp: i_def)
  have im: "i < length chain" "i < d" "i < ?n" using T(1) C(1) lend D(2) by linarith+
  have low: "walk_path sb ino q = 0"
    if q: "path_ok ?p q" "i < l" "l < ?n" "take l q = take l offs" "q ! l < offs ! l" for q l
  proof -
    have qp: "q \<in> positions ?p" "q \<noteq> []" using q(1) path_ok_iff [OF p] by (auto simp: positions_def)
    have "hd q = hd offs" using arg_cong [OF q(4), of hd] q(2) by (simp add: hd_take)
    then have lq: "l < length q" using q(1,3) pos(3) path_ok_iff [OF p] by simp
    have q0: "0 \<le> q ! l" using qp lq by (cases l; cases q) (auto simp: positions_def)
    then have "l < d" using D(3) [of l] q(3,5) by force
    show ?thesis
    proof (cases "l < length chain")
      case True
      have l0: "0 < l" using q(2) by simp
      have len: "int (length (b_ind sb b)) = ?p" for b using tr by (simp add: tree_ok_def)
      have "nat (q ! l) < length (take (nat (offs ! l)) (b_ind sb (uint (walk_path sb ino (take l offs)))))"
        using q0 q(5) lt [OF l0 q(3)] len [of "uint (walk_path sb ino (take l offs))"] by simp
      then have "b_ind sb (uint (walk_path sb ino (take l offs))) ! nat (q ! l) = 0"
        using all_zeroes_nth [OF T(2) [OF q(2)], of "nat (q ! l)"] True q0 q(5) by simp
      moreover have "take (Suc l) q = take l offs @ [q ! l]" using q(4) lq by (simp add: take_Suc_conv_app_nth)
      moreover have "take l offs \<noteq> []" using l0 pos(2) by simp
      ultimately have "walk_path sb ino (take (Suc l) q) = 0"
        using walk_path_append [of "take l offs" sb ino "[q ! l]"] by simp
      then show ?thesis using walk_take_0 [of "Suc l" q] qp(2) by simp
    next
      case False
      then have "length chain < length (take d offs)" using \<open>l < d\<close> D(2) by simp
      then have "walk_path sb ino (take (length chain) offs) = 0" using C(3) tk [OF lend] by simp
      moreover have "take (length chain) q = take (length chain) offs" using take_take_eq [OF q(4)] False by simp
      ultimately show ?thesis using walk_take_0 [of "length chain" q] C(1) qp(2) by simp
    qed
  qed
  have hdF: "\<forall>q \<in> tails ?p (take i offs) {offs ! i..<e} \<union> ends ?p offs i c. hd offs \<le> hd q \<and> (12 \<le> hd q \<longrightarrow> hd q = hd offs)"
    if "i = 0 \<Longrightarrow> e = offs ! 0 + 1" for e c
  proof -
    have "hd q = hd offs" if "q \<in> tails ?p (take l offs) J" "0 < l" for q l J
      using that pos(2) by (cases offs; cases l) (auto simp: tails_def)
    moreover have "hd q = hd offs" if "q \<in> tails ?p (take i offs) {offs ! i..<e}" "i = 0" for q
      using that \<open>i = 0 \<Longrightarrow> e = offs ! 0 + 1\<close> pos(2) by (auto simp: tails_def hd_conv_nth)
    ultimately show ?thesis unfolding ends_def by fastforce
  qed
  have S: "cuts_from sb ino (\<lambda>q. hd q = hd offs \<or> hd offs < 12 \<and> hd q < 12) F offs"
    if "cuts_from sb ino (\<lambda>q. hd q = hd offs) F offs" for F
    using that n(2) by (simp add: cuts_from_def)
  note shared = kr_find_shared_eq [OF k(1) tr o d_def chain_def i_def]
  note ends = clear_ends_cut [OF k o p refl]
  show ?thesis
  proof (cases "i = d - 1 \<and> 0 < i")
    case True
    let ?cs = "take i chain @ [(chain ! i)\<lparr>ind_p := slot_add (ind_p (chain ! i)) (- 1)\<rparr>]"
    let ?c = "\<lambda>l. if l = i then offs ! i - 1 else offs ! l"
    have len: "length ?cs = Suc i" using im(1) by simp
    have "ind_p (?cs ! l) = BlockSlot (uint (walk_path sb ino (take l offs))) (?c l) \<and>
       walk_path sb ino (take l offs) \<noteq> 0 \<and> - 1 \<le> ?c l" if "0 < l" "l \<le> i" for l
      using C5 [of l] that im(1,3) ge [of l] by (cases "l = i") (simp_all add: nth_append)
    then obtain sb2 ino2 where r: "clear_ends k (rev ?cs) (?n - Suc i) sb ino = Some (sb2, ino2)"
        "cut sb ino (ends ?p offs i ?c) sb2 ino2"
      using ends [OF ok refl len im(3), of ?c] unfolding ends_def by blast
    have F: "ends ?p offs i ?c = tails ?p (take i offs) {offs ! i..<?p} \<union> ends ?p offs i ?c"
    proof -
      have "tails ?p (take i offs) {?c i + 1..<?p} \<subseteq> ends ?p offs i ?c" unfolding ends_def using True by (intro UN_upper) simp
      then show ?thesis by auto
    qed
    have ip: "offs ! i < ?p" using lt [OF conjunct2 [OF True] im(3)] .
    have "cuts_from sb ino (\<lambda>q. hd q = hd offs) (ends ?p offs i ?c) offs"
      by (rule cut_shared [OF refl p o im(3) F ip]) (use True ip low in auto)
    then have "cuts_from sb ino (\<lambda>q. hd q = hd offs \<or> hd offs < 12 \<and> hd q < 12) (ends ?p offs i ?c) offs" by (rule S)
    moreover have "\<forall>q \<in> ends ?p offs i ?c. hd offs \<le> hd q \<and> (12 \<le> hd q \<longrightarrow> hd q = hd offs)"
      using hdF [of ?p ?c] True by blast
    moreover have "truncate_branch k offs sb ino = Some (sb2, ino2)"
      unfolding truncate_branch_def Let_def shared if_P [OF True] if_not_P [OF False]
      by (simp only: bind.bind_lunit prod.case len r(1) if_False simp_thms)
    ultimately show ?thesis using r(2) by blast
  next
    case top: False
    let ?s = "last_slot sb ino (take (Suc i) offs)" and ?F = "tails ?p (take i offs) {offs ! i}"
    have t: "take (Suc i) offs = take i offs @ [offs ! i]" using im(3) by (simp add: take_Suc_conv_app_nth)
    have slot: "ind_p (chain ! i) = ?s" using C(4) [OF im(1)] tk [of "Suc i"] im(2) by simp
    have "0 < i \<Longrightarrow> walk_path sb ino (take i offs) \<noteq> 0" using C5(1) im(1) by blast
    then have opn: "open_pos sb ino (take i offs @ [offs ! i])"
      using take_position [OF pos(1), of "Suc i"] t by (cases "i = 0") (auto simp: open_pos_def)
    have dep: "0 < ?n - Suc i" using top im(2) D(2) n(1) by linarith
    have "Suc (tree_depth (hd (take i offs @ [offs ! i]))) = length (take i offs @ [offs ! i]) + (?n - Suc i)"
      using pos(3) im(3) t [symmetric] by (simp add: hd_take)
    from kr_free_branches_cut [OF siblings_single [OF ok opn this] k]
    obtain sb1 ino1 where f: "kr_free_branches k [?s] (?n - Suc i) sb ino = Some (sb1, ino1)" "cut sb ino ?F sb1 ino1"
      unfolding sib_slots_def t by auto
    have ok1: "fs_ok sb1" "file_ok sb1 ino1" "KR_ADDR_PER_BLOCK sb1 = ?p"
      using f(2) cut_file_ok(1) [OF ok(2) f(2)] cut_addr [OF f(2)] by (simp_all add: cut_def)
    have same: "walk_path sb1 ino1 (take l offs) = walk_path sb ino (take l offs)" if "0 < l" "l \<le> i" for l
      using cut_walk [OF f(2), of "take l offs"] take_position [OF pos(1), of l] that im(3)
      by (auto simp: tails_def dest: arg_cong [of _ _ length])
    have len: "length (take (Suc i) chain) = Suc i" using im(1) by simp
    have "ind_p (take (Suc i) chain ! l) = BlockSlot (uint (walk_path sb1 ino1 (take l offs))) (offs ! l) \<and>
       walk_path sb1 ino1 (take l offs) \<noteq> 0 \<and> - 1 \<le> offs ! l" if "0 < l" "l \<le> i" for l
      using C5 [of l] that im(1,3) ge [of l] same [OF that] by simp
    then obtain sb2 ino2 where r: "clear_ends k (rev (take (Suc i) chain)) (?n - Suc i) sb1 ino1 = Some (sb2, ino2)"
        "cut sb1 ino1 (ends ?p offs i (\<lambda>l. offs ! l)) sb2 ino2"
      using ends [OF ok1 len im(3), of "\<lambda>l. offs ! l"] unfolding ends_def by blast
    let ?G = "?F \<union> ends ?p offs i (\<lambda>l. offs ! l)"
    have e: "{offs ! i} = {offs ! i..<offs ! i + 1}" by auto
    have "cuts_from sb ino (\<lambda>q. hd q = hd offs) ?G offs"
      by (rule cut_shared [OF refl p o im(3), where e = "offs ! i + 1" and c = "\<lambda>l. offs ! l"]) (use low e in auto)
    then have "cuts_from sb ino (\<lambda>q. hd q = hd offs \<or> hd offs < 12 \<and> hd q < 12) ?G offs" by (rule S)
    moreover have "\<forall>q \<in> ?G. hd offs \<le> hd q \<and> (12 \<le> hd q \<longrightarrow> hd q = hd offs)" unfolding e by (rule hdF) simp
    moreover have "truncate_branch k offs sb ino = Some (sb2, ino2)"
    proof -
      obtain v where v: "read_slot sb ino ?s = Some v" using read_last_slot [OF tr opn] t by simp
      obtain sb0 ino0 where w: "write_slot sb ino ?s 0 = Some (sb0, ino0)"
        using write_slot_valid [of sb ino ?s 0] v by (auto simp: valid_slot_def)
      have "(if v \<noteq> 0 then free_branch k (?n - Suc i) v sb0 ino0 else Some (sb0, ino0)) = Some (sb1, ino1)"
        using detach_branch [OF dep v, of k] f(1) w by simp
      moreover have "truncate_branch k offs sb ino =
          do { (sb2, ino2) \<leftarrow> (if v \<noteq> 0 then free_branch k (?n - Suc i) v sb0 ino0 else Some (sb0, ino0));
               clear_ends k (rev (take (Suc i) chain)) (?n - Suc i) sb2 ino2 }"
        unfolding truncate_branch_def Let_def shared if_not_P [OF top] if_not_P [OF False] slot using v w len by simp
      ultimately show ?thesis using r(1) by simp
    qed
    ultimately show ?thesis using cut_trans [OF f(2) r(2)] by blast
  qed
qed

section \<open>Truncation\<close>

lemma discard_same_but_rsv: "same_but_rsv sb (kr_discard_reservation k sb ino)"
  by (simp add: kr_discard_reservation_def split: option.split)

lemma rsv_frame:
  assumes "same_but_rsv sb sb'"
  shows "walk_path sb' ino = walk_path sb ino" "kr_block_to_path sb' = kr_block_to_path sb"
    "file_ok sb ino \<Longrightarrow> file_ok sb' ino" "owned sb' ino = owned sb ino"
proof -
  obtain t n where sb': "sb' = sb\<lparr>s_rsv_window_root := t, rsv_node := n\<rparr>" using assms by (rule same_but_rsvE)
  have "walk sb' key q = walk sb key q" for key q by (induction q arbitrary: key) (simp_all add: sb')
  then show w: "walk_path sb' ino = walk_path sb ino" by (intro ext, rename_tac q, case_tac q) simp_all
  have p: "KR_ADDR_PER_BLOCK sb' = KR_ADDR_PER_BLOCK sb" by (simp add: sb' KR_ADDR_PER_BLOCK_def)
  show "kr_block_to_path sb' = kr_block_to_path sb" unfolding kr_block_to_path_def p by (simp add: sb')
  have l: "live sb' ino = live sb ino" by (simp add: live_def p w)
  then show o: "owned sb' ino = owned sb ino" by (simp add: owned_def w)
  have "data_set sb' = data_set sb"
    unfolding data_set_def block_used_def same_but_rsv_gdesc [OF assms] using same_but_rsvD(3,4,6) [OF assms] by simp
  moreover have "tree_ok sb' ino = tree_ok sb ino" unfolding tree_ok_def addr_ok_def p by (simp add: sb')
  ultimately show "file_ok sb ino \<Longrightarrow> file_ok sb' ino" by (simp add: file_ok_def l o w)
qed

lemma same_but_counter_path: "same_but_counter sb sb' \<Longrightarrow> kr_block_to_path sb' = kr_block_to_path sb"
proof -
  assume s: "same_but_counter sb sb'"
  have "s_addr_per_block_bits (sbi sb') = s_addr_per_block_bits (sbi sb)"
    using s by (cases "sbi sb"; cases "sbi sb'") (simp add: same_but_counter_def)
  then show ?thesis unfolding kr_block_to_path_def addr_per_block_frame [OF s] by simp
qed

lemma cuts_from_all:
  assumes p: "16 \<le> KR_ADDR_PER_BLOCK sb" and o: "path_ok (KR_ADDR_PER_BLOCK sb) offs"
    and F: "\<forall>q \<in> F. hd offs \<le> hd q \<and> (12 \<le> hd q \<longrightarrow> hd q = hd offs)"
    and c: "cuts_from sb ino (\<lambda>q. hd q = hd offs \<or> hd offs < 12 \<and> hd q < 12) F offs"
    and J: "J = {t. hd offs < t \<and> 12 \<le> t \<and> t \<le> 14} \<union> (if hd offs = 12 \<or> hd offs = 13 \<or> hd offs = 14 then {} else {12, 13, 14})"
  shows "cuts_from sb ino (\<lambda>q. True) (F \<union> tails (KR_ADDR_PER_BLOCK sb) [] J) offs"
  unfolding cuts_from_def
proof (intro allI impI)
  let ?p = "KR_ADDR_PER_BLOCK sb"
  fix q
  assume "path_ok ?p q \<and> True"
  then have q: "path_ok ?p q" by simp
  have pos: "q \<in> positions ?p" "q \<noteq> []" "0 \<le> hd q" "hd q < 15" "0 \<le> hd offs" "hd offs < 15"
    using q o path_ok_iff [OF p] by (auto simp: positions_def)
  have mem: "q \<in> tails ?p [] J \<longleftrightarrow> hd q \<in> J" using pos(1,2) by (cases q) (auto simp: tails_def)
  have J': "hd q \<in> J \<longleftrightarrow> hd offs < hd q \<and> 12 \<le> hd q" unfolding J using pos by auto
  show "(path_block ?p offs \<le> path_block ?p q \<longrightarrow> q \<in> F \<union> tails ?p [] J) \<and>
      (q \<in> F \<union> tails ?p [] J \<longrightarrow> path_block ?p offs \<le> path_block ?p q \<or> walk_path sb ino q = 0)"
  proof (cases "hd q = hd offs \<or> hd offs < 12 \<and> hd q < 12")
    case True
    then have "q \<notin> tails ?p [] J" unfolding mem J' by auto
    then show ?thesis using c q True unfolding cuts_from_def by blast
  next
    case False
    show ?thesis
    proof (cases "hd q < hd offs")
      case True
      then have "q \<notin> F" "q \<notin> tails ?p [] J" using F unfolding mem J' by auto
      then show ?thesis using path_block_hd [OF p q o True] by simp
    next
      case gt: False
      then have "hd offs < hd q" "12 \<le> hd q" using False by auto
      then show ?thesis using path_block_hd [OF p o q] unfolding Un_iff mem J' by simp
    qed
  qed
qed

text \<open>The super block in memory and on disk stays as it was, up to the counter of free blocks.\<close>

definition same_super :: "super_block \<Rightarrow> super_block \<Rightarrow> bool" where
  "same_super sb sb' =
     (sbi sb' = (sbi sb)\<lparr>s_freeblocks_counter := s_freeblocks_counter (sbi sb')\<rparr> \<and> es sb' = es sb \<and>
      s_blocksize sb' = s_blocksize sb \<and> s_blocksize_bits sb' = s_blocksize_bits sb \<and> b_inode sb' = b_inode sb)"

lemma same_super_refl [simp]: "same_super sb sb"
  by (simp add: same_super_def)

lemma same_super_rsv: "same_super sb sb1 \<Longrightarrow> same_but_rsv sb1 sb2 \<Longrightarrow> same_super sb sb2"
  by (elim same_but_rsvE) (simp add: same_super_def)

definition truncated :: "super_block \<Rightarrow> inode \<Rightarrow> int \<Rightarrow> super_block \<Rightarrow> inode \<Rightarrow> bool" where
  "truncated sb ino iblock sb' ino' =
     (fs_ok sb' \<and> file_ok sb' ino' \<and> (\<forall>b. block_map sb' ino' b = (if b < iblock then block_map sb ino b else 0)) \<and>
      owned sb' ino' \<subseteq> owned sb ino \<and> free_set sb' = free_set sb \<union> (owned sb ino - owned sb' ino') \<and>
      inodes_kept sb sb' \<and> same_but_data ino ino' \<and> same_super sb sb')"

lemma block_map_out:
  assumes "addr_ok sb" "b < 0 \<or> file_blocks (KR_ADDR_PER_BLOCK sb) \<le> b"
  shows "block_map sb ino b = 0"
  using block_to_path_out [OF assms] by (simp add: block_map_def)

lemma cut_truncated:
  assumes ok: "fs_ok sb" "file_ok sb ino" and c: "cut sb ino F sb' ino'"
    and b: "0 \<le> iblock" "iblock < file_blocks (KR_ADDR_PER_BLOCK sb)" "offs = fst (kr_block_to_path sb iblock)"
    and F: "cuts_from sb ino (\<lambda>q. True) F offs"
  shows "truncated sb ino iblock sb' ino'"
proof -
  let ?p = "KR_ADDR_PER_BLOCK sb"
  have a: "addr_ok sb" using ok(2) by (simp add: file_ok_def tree_ok_def)
  note p = addr_okD(2) [OF a]
  have e: "kr_block_to_path sb' = kr_block_to_path sb" using c same_but_counter_path by (simp add: cut_def)
  have offs: "path_block ?p offs = iblock" using block_to_path_eq(2) [OF a b(1,2)] b(3) by simp
  have m: "block_map sb' ino' x = (if x < iblock then block_map sb ino x else 0)" for x
  proof (cases "0 \<le> x \<and> x < file_blocks ?p")
    case True
    let ?q = "fst (kr_block_to_path sb x)"
    have q: "path_ok ?p ?q" "path_block ?p ?q = x" using block_to_path_eq [OF a] True by blast+
    have pos: "?q \<in> positions ?p" using q(1) path_ok_iff [OF p] by simp
    have "block_map sb' ino' x = (if ?q \<in> F then 0 else walk_path sb ino ?q)"
      unfolding block_map_def e by (rule cut_walk [OF c pos])
    then show ?thesis using F q unfolding cuts_from_def offs block_map_def by auto
  next
    case False
    then have "fst (kr_block_to_path sb x) = []" using block_to_path_out [OF a] by force
    then show ?thesis by (simp add: block_map_def e)
  qed
  have own: "owned sb' ino' = owned sb ino - blocks_at sb ino F" and f: "file_ok sb' ino'" using cut_file_ok [OF ok(2) c] by simp_all
  have sub: "blocks_at sb ino F \<subseteq> owned sb ino" by (auto simp: blocks_at_def owned_def)
  have "free_set sb' = free_set sb \<union> (owned sb ino - owned sb' ino')" using c sub unfolding own cut_def by auto
  moreover have "same_super sb sb'" using c by (simp add: cut_def same_but_counter_def same_super_def)
  ultimately show ?thesis unfolding truncated_def using c m f own by (auto simp: cut_def)
qed

lemma rsv_inodes_kept: "same_but_rsv sb sb' \<Longrightarrow> inodes_kept sb sb'"
  by (rule alloc_view_inodes_kept) (auto elim!: same_but_rsvE simp: alloc_view_def)

lemma truncated_rsv: "truncated sb ino b sb1 ino1 \<Longrightarrow> same_but_rsv sb1 sb2 \<Longrightarrow> truncated sb ino b sb2 ino1"
  using rsv_frame [of sb1 sb2] same_but_rsv_gdesc(6,7) [of sb1 sb2] inodes_kept_trans [OF _ rsv_inodes_kept, of sb sb1 sb2]
    same_super_rsv [of sb sb1 sb2]
  by (simp add: truncated_def block_map_def)

lemma truncate_blocks_ok:
  assumes k: "io_ok k" "quota_ok k" and ok: "fs_ok sb" "file_ok sb ino" and o: "0 \<le> offset" "1 \<le> s_blocksize sb"
  shows "\<exists>sb' ino'. kr_truncate_blocks_locked k sb ino offset = Some (sb', ino') \<and>
     truncated sb ino (drop_bit (s_blocksize_bits sb) (offset + s_blocksize sb - 1)) sb' ino'"
proof -
  let ?p = "KR_ADDR_PER_BLOCK sb" and ?b = "drop_bit (s_blocksize_bits sb) (offset + s_blocksize sb - 1)"
  let ?offs = "fst (kr_block_to_path sb ?b)"
  have a: "addr_ok sb" using ok(2) by (simp add: file_ok_def tree_ok_def)
  note p = addr_okD(2) [OF a]
  have b0: "0 \<le> ?b" using o by (simp only: drop_bit_nonnegative_int_iff)
  show ?thesis
  proof (cases "?b < file_blocks ?p")
    case False
    then have "?offs = []" using block_to_path_out [OF a] by simp
    moreover have "truncated sb ino ?b sb ino"
      using ok block_map_out [OF a] False by (auto simp: truncated_def)
    ultimately show ?thesis by (simp add: kr_truncate_blocks_locked_def Let_def)
  next
    case True
    have q: "path_ok ?p ?offs" using block_to_path_eq(1) [OF a b0 True] .
    obtain F sb1 ino1 where t: "truncate_branch k ?offs sb ino = Some (sb1, ino1)" "cut sb ino F sb1 ino1"
        "\<forall>q \<in> F. hd ?offs \<le> hd q \<and> (12 \<le> hd q \<longrightarrow> hd q = hd ?offs)"
        "cuts_from sb ino (\<lambda>q. hd q = hd ?offs \<or> hd ?offs < 12 \<and> hd q < 12) F ?offs"
      using truncate_branch_cut [OF k ok q] by blast
    have ok1: "fs_ok sb1" "file_ok sb1 ino1" "KR_ADDR_PER_BLOCK sb1 = ?p"
      using t(2) cut_file_ok(1) [OF ok(2) t(2)] cut_addr [OF t(2)] by (simp_all add: cut_def)
    let ?J = "{t. hd ?offs < t \<and> 12 \<le> t \<and> t \<le> 14} \<union> (if hd ?offs = 12 \<or> hd ?offs = 13 \<or> hd ?offs = 14 then {} else {12, 13, 14})"
    obtain sb2 ino2 where r: "do_indirects k (hd ?offs) sb1 ino1 = Some (sb2, ino2)" "cut sb1 ino1 (tails ?p [] ?J) sb2 ino2"
      using do_indirects_cut [OF k ok1(1,2), of "hd ?offs"] unfolding ok1(3) by blast
    have "truncated sb ino ?b sb2 ino2"
      by (rule cut_truncated [OF ok cut_trans [OF t(2) r(2)] b0 True refl cuts_from_all [OF p q t(3,4) refl]])
    then have "truncated sb ino ?b (kr_discard_reservation k sb2 ino2) ino2" by (rule truncated_rsv [OF _ discard_same_but_rsv])
    moreover have "?offs \<noteq> []" using q by auto
    ultimately show ?thesis using t(1) r(1) by (simp add: kr_truncate_blocks_locked_def Let_def)
  qed
qed

end
