(* ===== verification/Kr_Inode.thy ===== *)
theory Kr_Inode
  imports Kr_Truncate_Path Kr_Super Kr_Ialloc Kr_Flags
begin

text \<open>
  Inodes on disk and in memory (\<^verbatim>\<open>inode.c\<close>: \<^verbatim>\<open>kr_evict_inode\<close> and \<^verbatim>\<open>kr_setsize\<close> to
  \<^verbatim>\<open>kr_setattr\<close>).

  \<^item> An error of the model is the value left of a sum, as everywhere. An inode that an operation
    changes in memory is returned with the state.
  \<^item> \<open>b_inode sb b off\<close> is the on-disk inode at byte \<open>off\<close> of block \<open>b\<close>.
  \<^item> The tables of operations that \<^verbatim>\<open>kr_iget\<close> installs are the names of the tables.
  \<^item> What the VFS and the quota code decide is in the record \<open>vfs\<close>.
\<close>

section \<open>Model: the VFS\<close>

datatype truncate_page = DaxTruncatePage | NobhTruncatePage | BlockTruncatePage

record iattr =
  ia_valid :: "32 word"
  ia_mode :: "16 word"
  ia_uid :: "32 word"
  ia_gid :: "32 word"
  ia_size :: int

abbreviation (input) ATTR_MODE :: "32 word" where "ATTR_MODE \<equiv> 1"
abbreviation (input) ATTR_UID :: "32 word" where "ATTR_UID \<equiv> 2"
abbreviation (input) ATTR_GID :: "32 word" where "ATTR_GID \<equiv> 4"
abbreviation (input) ATTR_SIZE :: "32 word" where "ATTR_SIZE \<equiv> 8"

record vfs =
  v_init_special_inode :: "inode \<Rightarrow> 16 word \<Rightarrow> 32 word \<Rightarrow> inode"
  v_is_bad_inode :: "inode \<Rightarrow> bool"
  v_needs_sync :: "inode \<Rightarrow> bool"               \<comment> \<open>\<^verbatim>\<open>inode_needs_sync\<close>\<close>
  v_dirty :: "inode \<Rightarrow> bool"                    \<comment> \<open>\<^verbatim>\<open>sync_inode_metadata\<close> finds something to write\<close>
  v_truncate_page :: "truncate_page \<Rightarrow> inode \<Rightarrow> int \<Rightarrow> errno option"
  v_setattr_prepare :: "inode \<Rightarrow> iattr \<Rightarrow> errno option"
  v_is_quota_modification :: "inode \<Rightarrow> iattr \<Rightarrow> bool"
  v_dquot_transfer :: "inode \<Rightarrow> iattr \<Rightarrow> errno option"
  v_setattr_copy :: "inode \<Rightarrow> iattr \<Rightarrow> inode"
  v_posix_acl_chmod :: "inode \<Rightarrow> 16 word \<Rightarrow> errno option"

section \<open>Model: finding an inode on disk\<close>

text \<open>The result is the block of the inode table and the offset of the inode in it.\<close>

definition kr_get_inode :: "kernel \<Rightarrow> super_block \<Rightarrow> int \<Rightarrow> ((errno + int \<times> int) \<times> super_block) option" where
  "kr_get_inode k sb ino =
     (if (ino \<noteq> KR_ROOT_INO \<and> ino < KR_FIRST_INO sb) \<or> uint (es_inodes_count (es sb)) < ino
      then do { sb1 \<leftarrow> kr_error k sb; Some (Inl EINVAL, sb1) }
      else if KR_INODES_PER_GROUP sb \<le> 0 then None
      else do {
        (gdp, sb1) \<leftarrow> kr_get_group_desc k sb (u64 (ino - 1) div KR_INODES_PER_GROUP sb);
        case gdp of None \<Rightarrow> Some (Inl EIO, sb1)
        | Some d \<Rightarrow>
            let offset = u64 ((u64 (ino - 1) mod KR_INODES_PER_GROUP sb) * s_inode_size (sbi sb1));
                block = u64 (uint (bg_inode_table d) + drop_bit (s_blocksize_bits sb1) offset)
            in if \<not> sb_bread k block then do { sb2 \<leftarrow> kr_error k sb1; Some (Inl EIO, sb2) }
               else Some (Inr (block, offset AND (s_blocksize sb1 - 1)), sb1) })"

section \<open>Model: reading an inode\<close>

datatype i_op_table =
  kr_file_inode_operations | kr_dir_inode_operations | kr_fast_symlink_inode_operations
| kr_symlink_inode_operations | kr_special_inode_operations

datatype a_ops_table = kr_aops | kr_nobh_aops

type_synonym inode_ops = "i_op_table \<times> a_ops_table option"

definition mapping_ops :: "super_block \<Rightarrow> a_ops_table" where
  "mapping_ops sb = (if test_opt sb KR_MOUNT_NOBH then kr_nobh_aops else kr_aops)"

text \<open>\<^verbatim>\<open>nd_terminate_link\<close> stores a null byte at \<^verbatim>\<open>min(len, maxlen)\<close> of the link text.\<close>

definition nd_terminate_link :: "32 word list \<Rightarrow> int \<Rightarrow> int \<Rightarrow> 32 word list" where
  "nd_terminate_link data len maxlen =
     (let n = nat (min (u64 len) maxlen) in
      data[n div 4 := data ! (n div 4) AND NOT (push_bit (8 * (n mod 4)) 0xFF)])"

text \<open>The owner: the upper halves count unless 16-bit owners are asked for.\<close>

definition read_owner :: "super_block \<Rightarrow> 16 word \<Rightarrow> 16 word \<Rightarrow> 32 word" where
  "read_owner sb lo hi =
     (if test_opt sb KR_MOUNT_NO_UID32 then ucast lo else ucast lo OR push_bit 16 (ucast hi))"

text \<open>The fields up to the check for deleted inodes.\<close>

definition read_early :: "super_block \<Rightarrow> kr_inode \<Rightarrow> inode \<Rightarrow> inode" where
  "read_early sb raw ino =
     ino\<lparr>i_mode := ri_mode raw, i_uid := read_owner sb (ri_uid_low raw) (ri_uid_high raw),
         i_gid := read_owner sb (ri_gid_low raw) (ri_gid_high raw),
         i_nlink := ucast (ri_links_count raw), i_size := uint (ri_size raw),
         i_atime := sint (ri_atime raw), i_ctime := sint (ri_ctime raw), i_mtime := sint (ri_mtime raw),
         i_dtime := ri_dtime raw\<rparr>"

definition read_middle :: "kr_inode \<Rightarrow> inode \<Rightarrow> inode" where
  "read_middle raw ino =
     ino\<lparr>i_blocks := uint (ri_blocks raw), i_flags := ri_flags raw, i_faddr := ri_faddr raw,
         i_frag_no := ri_frag raw, i_frag_size := ri_fsize raw, i_file_acl := ri_file_acl raw, i_dir_acl := 0\<rparr>"

definition s64 :: "int \<Rightarrow> int" where
  "s64 x = (x + 2 ^ 63) mod 2 ^ 64 - 2 ^ 63"

definition read_late :: "super_block \<Rightarrow> int \<Rightarrow> kr_inode \<Rightarrow> inode \<Rightarrow> inode" where
  "read_late sb nr raw ino =
     (let ino1 = (if S_ISREG (i_mode ino)
                  then ino\<lparr>i_size := s64 (i_size ino OR push_bit 32 (uint (ri_dir_acl raw)))\<rparr>
                  else ino\<lparr>i_dir_acl := ri_dir_acl raw\<rparr>)
      in ino1\<lparr>i_dtime := 0, i_generation := ri_generation raw, i_state := 0,
              i_block_group := word_of_int (u64 (nr - 1) div KR_INODES_PER_GROUP sb), i_dir_start_lookup := 0,
              i_data := ri_block raw\<rparr>)"

definition read_kind :: "kernel \<Rightarrow> vfs \<Rightarrow> super_block \<Rightarrow> kr_inode \<Rightarrow> inode \<Rightarrow> inode \<times> inode_ops" where
  "read_kind k v sb raw ino =
     (if S_ISREG (i_mode ino) then (ino, (kr_file_inode_operations, Some (mapping_ops sb)))
      else if S_ISDIR (i_mode ino) then (ino, (kr_dir_inode_operations, Some (mapping_ops sb)))
      else if S_ISLNK (i_mode ino) then
        (if kr_inode_is_fast_symlink sb ino
         then (ino\<lparr>i_data := nd_terminate_link (i_data ino) (i_size ino) 59\<rparr>, (kr_fast_symlink_inode_operations, None))
         else (ino, (kr_symlink_inode_operations, Some (mapping_ops sb))))
      else
        (v_init_special_inode v ino (i_mode ino)
           (if ri_block raw ! 0 \<noteq> 0 then k_old_decode_dev k (ri_block raw ! 0)
            else k_new_decode_dev k (ri_block raw ! 1)),
         (kr_special_inode_operations, None)))"

text \<open>
  An inode that is in memory already keeps its tables of operations: the third component of the
  result is then \<^term>\<open>None\<close>.
\<close>

definition kr_iget ::
  "kernel \<Rightarrow> vfs \<Rightarrow> super_block \<Rightarrow> int \<Rightarrow> ((errno + inode \<times> inode_ops option) \<times> super_block) option" where
  "kr_iget k v sb nr =
     (case k_iget_locked k nr of None \<Rightarrow> Some (Inl ENOMEM, sb)
      | Some (new, ino) \<Rightarrow>
          if \<not> new then Some (Inr (ino, None), sb)
          else do {
            let ino0 = ino\<lparr>i_block_alloc_info := None\<rparr>;
            (res, sb1) \<leftarrow> kr_get_inode k sb nr;
            case res of Inl e \<Rightarrow> Some (Inl e, sb1)
            | Inr (b, off) \<Rightarrow>
                let raw = b_inode sb1 b off; ino1 = read_early sb1 raw ino0 in
                if i_nlink ino1 = 0 \<and> (i_mode ino1 = 0 \<or> i_dtime ino1 \<noteq> 0) then Some (Inl ESTALE, sb1)
                else
                  let ino2 = read_middle raw ino1 in
                  if i_file_acl ino2 \<noteq> 0 \<and> \<not> kr_data_block_valid sb1 (uint (i_file_acl ino2)) 1
                  then do { sb2 \<leftarrow> kr_error k sb1; Some (Inl EFSCORRUPTED, sb2) }
                  else
                    let (ino3, ops) = read_kind k v sb1 raw (read_late sb1 nr raw ino2) in
                    Some (Inr (kr_set_inode_flags sb1 ino3, Some ops), sb1) })"

section \<open>Model: writing an inode\<close>

definition write_owner :: "super_block \<Rightarrow> 16 word \<Rightarrow> bool \<Rightarrow> 32 word \<Rightarrow> 16 word \<times> 16 word" where
  "write_owner sb overflow deleted own =
     (if \<not> test_opt sb KR_MOUNT_NO_UID32
      then (ucast own, if deleted then 0 else ucast (drop_bit 16 own))
      else (if own AND NOT 0xFFFF \<noteq> 0 then overflow else ucast own, 0))"

definition zero_raw_inode :: kr_inode where
  "zero_raw_inode =
     \<lparr>ri_mode = 0, ri_uid_low = 0, ri_size = 0, ri_atime = 0, ri_ctime = 0, ri_mtime = 0, ri_dtime = 0,
      ri_gid_low = 0, ri_links_count = 0, ri_blocks = 0, ri_flags = 0, ri_block = replicate KR_N_BLOCKS 0,
      ri_generation = 0, ri_file_acl = 0, ri_dir_acl = 0, ri_faddr = 0, ri_frag = 0, ri_fsize = 0,
      ri_uid_high = 0, ri_gid_high = 0\<rparr>"

definition raw_fields :: "kernel \<Rightarrow> super_block \<Rightarrow> inode \<Rightarrow> kr_inode \<Rightarrow> kr_inode" where
  "raw_fields k sb ino raw =
     (let u = write_owner sb (k_fs_overflowuid k) (i_dtime ino \<noteq> 0) (i_uid ino);
          g = write_owner sb (k_fs_overflowgid k) (i_dtime ino \<noteq> 0) (i_gid ino)
      in raw\<lparr>ri_mode := i_mode ino, ri_uid_low := fst u, ri_gid_low := fst g, ri_uid_high := snd u, ri_gid_high := snd g,
             ri_links_count := ucast (i_nlink ino), ri_size := word_of_int (i_size ino),
             ri_atime := word_of_int (i_atime ino), ri_ctime := word_of_int (i_ctime ino),
             ri_mtime := word_of_int (i_mtime ino), ri_blocks := word_of_int (i_blocks ino), ri_dtime := i_dtime ino,
             ri_flags := i_flags ino, ri_faddr := i_faddr ino, ri_frag := i_frag_no ino, ri_fsize := i_frag_size ino,
             ri_file_acl := i_file_acl ino\<rparr>)"

definition raw_blocks :: "kernel \<Rightarrow> inode \<Rightarrow> kr_inode \<Rightarrow> kr_inode" where
  "raw_blocks k ino raw =
     (if S_ISCHR (i_mode ino) \<or> S_ISBLK (i_mode ino) then
        (if k_old_valid_dev k (i_rdev ino)
         then raw\<lparr>ri_block := (ri_block raw)[0 := k_old_encode_dev k (i_rdev ino), 1 := 0]\<rparr>
         else raw\<lparr>ri_block := (ri_block raw)[0 := 0, 1 := k_new_encode_dev k (i_rdev ino), 2 := 0]\<rparr>)
      else raw\<lparr>ri_block := i_data ino\<rparr>)"

text \<open>The first large file sets a feature of the file system.\<close>

definition note_large_file :: "kernel \<Rightarrow> super_block \<Rightarrow> inode \<Rightarrow> super_block option" where
  "note_large_file k sb ino =
     (if 0x7FFFFFFF < u64 (i_size ino) \<and>
         (\<not> KR_HAS_RO_COMPAT_FEATURE sb KR_FEATURE_RO_COMPAT_LARGE_FILE \<or>
          es_rev_level (es sb) = word_of_int KR_GOOD_OLD_REV)
      then
        let sb1 = kr_update_dynamic_rev sb;
            sb2 = sb1\<lparr>es := (es sb1)\<lparr>es_feature_ro_compat :=
                                       es_feature_ro_compat (es sb1) OR KR_FEATURE_RO_COMPAT_LARGE_FILE\<rparr>\<rparr>
        in kr_write_super k sb2
      else Some sb)"

text \<open>
  The raw inode is written in place; \<open>kr_write_super\<close> touches the super block and bitmaps only, so
  that the fields of the raw inode are stored in one go at the end.
\<close>

definition kr_write_inode_sync ::
  "kernel \<Rightarrow> super_block \<Rightarrow> inode \<Rightarrow> bool \<Rightarrow> (errno option \<times> super_block \<times> inode) option" where
  "kr_write_inode_sync k sb ino do_sync =
     do { (res, sb1) \<leftarrow> kr_get_inode k sb (i_ino ino);
          case res of Inl _ \<Rightarrow> Some (Some EIO, sb1, ino)
          | Inr (b, off) \<Rightarrow> do {
              let raw0 = (if i_state ino AND KR_STATE_NEW \<noteq> 0 then zero_raw_inode else b_inode sb1 b off);
              let ino1 = kr_get_inode_flags ino;
              let raw1 = raw_fields k sb1 ino1 raw0;
              (raw2, sb2) \<leftarrow>
                (if \<not> S_ISREG (i_mode ino1) then Some (raw1\<lparr>ri_dir_acl := i_dir_acl ino1\<rparr>, sb1)
                 else do { sb2 \<leftarrow> note_large_file k sb1 ino1;
                           Some (raw1\<lparr>ri_dir_acl := word_of_int (drop_bit 32 (i_size ino1))\<rparr>, sb2) });
              let raw3 = raw_blocks k ino1 (raw2\<lparr>ri_generation := i_generation ino1\<rparr>);
              let sb3 = sb2\<lparr>b_inode := (b_inode sb2)(b := (b_inode sb2 b)(off := raw3))\<rparr>;
              Some (if do_sync \<and> \<not> k_sync_buffer k b then Some EIO else None, sb3,
                    ino1\<lparr>i_state := i_state ino1 AND NOT KR_STATE_NEW\<rparr>) } }"

definition kr_write_inode ::
  "kernel \<Rightarrow> super_block \<Rightarrow> inode \<Rightarrow> bool \<Rightarrow> (errno option \<times> super_block \<times> inode) option" where
  "kr_write_inode k sb ino sync_all = kr_write_inode_sync k sb ino sync_all"

section \<open>Model: changing the size and the attributes\<close>

definition kr_setsize ::
  "kernel \<Rightarrow> vfs \<Rightarrow> super_block \<Rightarrow> inode \<Rightarrow> int \<Rightarrow> (errno option \<times> super_block \<times> inode) option" where
  "kr_setsize k v sb ino newsize =
     (if \<not> has_blocks ino then Some (Some EINVAL, sb, ino)
      else if kr_inode_is_fast_symlink sb ino then Some (Some EINVAL, sb, ino)
      else if IS_APPEND ino \<or> IS_IMMUTABLE ino then Some (Some EPERM, sb, ino)
      else
        case (if IS_DAX ino then v_truncate_page v DaxTruncatePage ino newsize
              else if test_opt sb KR_MOUNT_NOBH then v_truncate_page v NobhTruncatePage ino newsize
              else v_truncate_page v BlockTruncatePage ino newsize) of
          Some e \<Rightarrow> Some (Some e, sb, ino)
        | None \<Rightarrow> do {
            (sb1, ino1) \<leftarrow> kr_truncate_blocks_locked k sb (ino\<lparr>i_size := newsize\<rparr>) newsize;
            let ino2 = ino1\<lparr>i_mtime := k_now k, i_ctime := k_now k\<rparr>;
            if v_needs_sync v ino2 \<and> v_dirty v ino2 then do {
              (_, sb2, ino3) \<leftarrow> kr_write_inode k sb1 ino2 True;
              Some (None, sb2, ino3) }
            else Some (None, sb1, ino2) })"

definition kr_setattr ::
  "kernel \<Rightarrow> vfs \<Rightarrow> super_block \<Rightarrow> inode \<Rightarrow> iattr \<Rightarrow> (errno option \<times> super_block \<times> inode) option" where
  "kr_setattr k v sb ino attr =
     (case v_setattr_prepare v ino attr of Some e \<Rightarrow> Some (Some e, sb, ino)
      | None \<Rightarrow>
     (case (if v_is_quota_modification v ino attr then k_dquot_initialize k ino else None) of Some e \<Rightarrow> Some (Some e, sb, ino)
      | None \<Rightarrow>
     (case (if (ia_valid attr AND ATTR_UID \<noteq> 0 \<and> ia_uid attr \<noteq> i_uid ino) \<or>
               (ia_valid attr AND ATTR_GID \<noteq> 0 \<and> ia_gid attr \<noteq> i_gid ino)
            then v_dquot_transfer v ino attr else None) of Some e \<Rightarrow> Some (Some e, sb, ino)
      | None \<Rightarrow> do {
          (err, sb1, ino1) \<leftarrow>
            (if ia_valid attr AND ATTR_SIZE \<noteq> 0 \<and> ia_size attr \<noteq> i_size ino then kr_setsize k v sb ino (ia_size attr)
             else Some (None, sb, ino));
          if err \<noteq> None then Some (err, sb1, ino1)
          else
            let ino2 = v_setattr_copy v ino1 attr in
            Some (if ia_valid attr AND ATTR_MODE \<noteq> 0 then v_posix_acl_chmod v ino2 (i_mode ino2) else None, sb1, ino2) })))"

section \<open>Model: the end of an inode\<close>

definition kr_evict_inode ::
  "kernel \<Rightarrow> vfs \<Rightarrow> super_block \<Rightarrow> inode \<Rightarrow> (super_block \<times> inode) option" where
  "kr_evict_inode k v sb ino =
     (let want_delete = (i_nlink ino = 0 \<and> \<not> v_is_bad_inode v ino) in do {
        (sb1, ino1) \<leftarrow>
          (if want_delete then do {
             let ino0 = ino\<lparr>i_dtime := word_of_int (k_now k)\<rparr>;
             (_, sb0, ino1) \<leftarrow> kr_write_inode_sync k sb ino0 (v_needs_sync v ino0);
             let ino2 = ino1\<lparr>i_size := 0\<rparr>;
             if i_blocks ino2 \<noteq> 0 then kr_truncate_blocks k sb0 ino2 0 else Some (sb0, ino2) }
           else Some (sb, ino));
        let sb2 = kr_discard_reservation k sb1 ino1;
        let ino3 = ino1\<lparr>i_block_alloc_info := None\<rparr>;
        sb3 \<leftarrow> (if want_delete then kr_free_inode k sb2 ino3 else Some sb2);
        Some (sb3, ino3) })"

end
