(* ===== verification/Kr_Inode_Disk.thy ===== *)
theory Kr_Inode_Disk
  imports Kr_Inode
begin

text \<open>
  Inodes on disk: where they are stored, that an inode that is written is read back as it was and
  that no other inode is touched, and what becomes of the blocks and the number of an inode that
  is deleted.
\<close>

section \<open>Where an inode is stored\<close>

text \<open>
  The geometry of the inode tables: a block holds a whole number of inodes, and the table of a
  group a whole number of blocks.
\<close>

definition itable_ok :: "super_block \<Rightarrow> bool" where
  "itable_ok sb =
     (s_blocksize sb = 2 ^ s_blocksize_bits sb \<and> s_blocksize sb \<le> 65536 \<and> 0 < s_inode_size (sbi sb) \<and>
      0 < s_inodes_per_block (sbi sb) \<and> s_inodes_per_block (sbi sb) * s_inode_size (sbi sb) = s_blocksize sb \<and>
      s_itb_per_group (sbi sb) * s_inodes_per_block (sbi sb) = KR_INODES_PER_GROUP sb)"

definition known_inode :: "super_block \<Rightarrow> int \<Rightarrow> bool" where
  "known_inode sb ino =
     ((ino = KR_ROOT_INO \<or> KR_FIRST_INO sb \<le> ino) \<and> ino \<le> uint (es_inodes_count (es sb)))"

definition inode_slot :: "super_block \<Rightarrow> int \<Rightarrow> int \<times> int" where
  "inode_slot sb ino =
     (uint (bg_inode_table (gdesc sb (inode_group sb ino))) + int (inode_index sb ino) div s_inodes_per_block (sbi sb),
      int (inode_index sb ino) mod s_inodes_per_block (sbi sb) * s_inode_size (sbi sb))"

lemma kr_get_inode_eq:
  assumes io: "io_ok k" and ok: "ialloc_ok sb" "itable_ok sb" and n: "known_inode sb ino"
  shows "kr_get_inode k sb ino = Some (Inr (inode_slot sb ino), sb)"
proof -
  let ?I = "KR_INODES_PER_GROUP sb" and ?s = "s_inode_size (sbi sb)" and ?p = "s_inodes_per_block (sbi sb)"
  define i where "i = int (inode_index sb ino)"
  note D = ialloc_okD [OF ok(1)]
  have T: "s_blocksize sb = 2 ^ s_blocksize_bits sb" "s_blocksize sb \<le> 65536" "0 < ?s" "0 < ?p" "?p * ?s = s_blocksize sb"
    using ok(2) by (simp_all add: itable_ok_def)
  have n1: "1 \<le> ino" "ino \<le> uint (es_inodes_count (es sb))" using n D(5) by (auto simp: known_inode_def)
  have "uint (es_inodes_count (es sb)) < 4294967296" by simp
  then have u: "u64 (ino - 1) = ino - 1" using n1 by (intro u64_id) linarith+
  have g: "u64 (ino - 1) div ?I = inode_group sb ino" "u64 (ino - 1) mod ?I = i"
    using D(3) by (simp_all add: u i_def inode_group_def inode_index_def)
  have i: "0 \<le> i" "i < ?I" using inode_number(4) [OF ok(1), of ino] by (simp_all add: i_def)
  note gr = inode_group_range [OF ok(1) n1]
  have gd: "kr_get_group_desc k sb (inode_group sb ino) = Some (Some (gdesc sb (inode_group sb ino)), sb)"
    using D(1) gr by (simp add: fs_ok_def)
  have "?s \<le> ?p * ?s" using T(3,4) by simp
  then have s: "?s \<le> 65536" using T(2,5) by simp
  have "i * ?s \<le> 65536 * 65536" using i D(4) s T(3) by (intro mult_mono) auto
  then have o: "u64 (i * ?s) = i * ?s" using i T(3) by (intro u64_id) auto
  have idx: "drop_bit (s_blocksize_bits sb) (i * ?s) = i div ?p"
    unfolding drop_bit_eq_div T(1) [symmetric] unfolding T(5) [symmetric] using T(3) by simp
  have off: "(i * ?s) AND (s_blocksize sb - 1) = i mod ?p * ?s"
  proof -
    have "(i * ?s) AND (2 ^ s_blocksize_bits sb - 1) = i * ?s mod 2 ^ s_blocksize_bits sb"
      by (simp flip: take_bit_eq_mod mask_eq_exp_minus_1 take_bit_eq_mask)
    then show ?thesis unfolding T(1) [symmetric] unfolding T(5) [symmetric] mult_mod_left .
  qed
  have "i div ?p \<le> i" using zdiv_mono2 [of i 1 ?p] i T(4) by simp
  moreover have "0 \<le> i div ?p" using i T(4) by (simp add: pos_imp_zdiv_nonneg_iff)
  moreover have "uint (bg_inode_table (gdesc sb (inode_group sb ino))) < 4294967296" by simp
  ultimately have b: "u64 (uint (bg_inode_table (gdesc sb (inode_group sb ino))) + i div ?p) =
      uint (bg_inode_table (gdesc sb (inode_group sb ino))) + i div ?p"
    using i D(4) uint_ge_0 [of "bg_inode_table (gdesc sb (inode_group sb ino))"] by (intro u64_id) linarith+
  have br: "sb_bread k b" for b using io by (simp add: io_ok_def sb_bread_def)
  show ?thesis
    using n D(3) by (auto simp: kr_get_inode_def known_inode_def g gd Let_def o idx off b br inode_slot_def i_def [symmetric])
qed

lemma inode_slot_bounds:
  assumes ok: "ialloc_ok sb" "itable_ok sb" and n: "known_inode sb ino" and s: "inode_slot sb ino = (b, off)"
  shows "0 \<le> off" "off + s_inode_size (sbi sb) \<le> s_blocksize sb"
    "uint (bg_inode_table (gdesc sb (inode_group sb ino))) \<le> b"
    "b < uint (bg_inode_table (gdesc sb (inode_group sb ino))) + s_itb_per_group (sbi sb)"
proof -
  let ?s = "s_inode_size (sbi sb)" and ?p = "s_inodes_per_block (sbi sb)"
  have T: "0 < ?s" "0 < ?p" "?p * ?s = s_blocksize sb" "s_itb_per_group (sbi sb) * ?p = KR_INODES_PER_GROUP sb"
    using ok(2) by (simp_all add: itable_ok_def)
  have e: "b = uint (bg_inode_table (gdesc sb (inode_group sb ino))) + int (inode_index sb ino) div ?p"
    "off = int (inode_index sb ino) mod ?p * ?s" using s by (auto simp: inode_slot_def)
  show "0 \<le> off" using T by (simp add: e(2))
  have "int (inode_index sb ino) mod ?p + 1 \<le> ?p" using T(2) by (simp add: add1_zle_eq)
  then have "(int (inode_index sb ino) mod ?p + 1) * ?s \<le> ?p * ?s" using T(1) by (intro mult_right_mono) auto
  then show "off + ?s \<le> s_blocksize sb" using T(3) by (simp add: e(2) algebra_simps)
  show "uint (bg_inode_table (gdesc sb (inode_group sb ino))) \<le> b" using T(2) by (simp add: e(1) pos_imp_zdiv_nonneg_iff)
  have "int (inode_index sb ino) < s_itb_per_group (sbi sb) * ?p" using inode_number(4) [OF ok(1), of ino] T(4) by simp
  then have "int (inode_index sb ino) div ?p < s_itb_per_group (sbi sb)" by (rule div_lt [OF T(2)])
  then show "b < uint (bg_inode_table (gdesc sb (inode_group sb ino))) + s_itb_per_group (sbi sb)" by (simp add: e(1))
qed

text \<open>The inode table of a group lies in the group.\<close>

lemma inode_slot_group:
  assumes ok: "ialloc_ok sb" "itable_ok sb" and n: "known_inode sb ino" and s: "inode_slot sb ino = (b, off)"
  shows "group_of sb b = inode_group sb ino"
proof -
  have n1: "1 \<le> ino" "ino \<le> uint (es_inodes_count (es sb))" using n ialloc_okD(5) [OF ok(1)] by (auto simp: known_inode_def)
  note g = inode_group_range [OF ok(1) n1]
  let ?F = "kr_group_first_block_no sb (inode_group sb ino)"
  have fs: "fs_ok sb" using ialloc_okD(1) [OF ok(1)] .
  then have "group_ok sb (inode_group sb ino)" using g by (simp add: fs_ok_def)
  then have "?F \<le> b" "b < ?F + KR_BLOCKS_PER_GROUP sb"
    using inode_slot_bounds(3,4) [OF assms] by (auto simp: group_ok_def Let_def)
  then show ?thesis using group_of_eq(1) [OF fs g, of "nat (b - ?F)"] by simp
qed

lemma inode_slot_apart:
  assumes ok: "ialloc_ok sb" "itable_ok sb" and n: "known_inode sb i" "known_inode sb j" "i \<noteq> j"
    and s: "inode_slot sb i = (b, x)" "inode_slot sb j = (b, y)"
  shows "x + s_inode_size (sbi sb) \<le> y \<or> y + s_inode_size (sbi sb) \<le> x"
proof -
  let ?s = "s_inode_size (sbi sb)" and ?p = "s_inodes_per_block (sbi sb)"
  have T: "0 < ?s" "0 < ?p" using ok(2) by (simp_all add: itable_ok_def)
  have g: "inode_group sb i = inode_group sb j"
    using inode_slot_group [OF ok n(1) s(1)] inode_slot_group [OF ok n(2) s(2)] by simp
  have "inode_index sb i \<noteq> inode_index sb j" using inode_number(3) [OF ok(1), of i] inode_number(3) [OF ok(1), of j] g n(3) by auto
  moreover have "int (inode_index sb i) div ?p = int (inode_index sb j) div ?p" using s g by (simp add: inode_slot_def)
  ultimately have "int (inode_index sb i) mod ?p \<noteq> int (inode_index sb j) mod ?p"
    by (metis div_mult_mod_eq of_nat_eq_iff)
  moreover have "a * ?s + ?s \<le> c * ?s" if "a < c" for a c
  proof -
    have "(a + 1) * ?s \<le> c * ?s" using that T(1) by (intro mult_right_mono) auto
    then show ?thesis by (simp add: algebra_simps)
  qed
  ultimately show ?thesis using s unfolding inode_slot_def by (metis linorder_less_linear prod.inject)
qed

lemma alloc_view_slot:
  assumes "alloc_view sb' = alloc_view sb" "s_blocksize sb' = s_blocksize sb" "s_blocksize_bits sb' = s_blocksize_bits sb"
  shows "itable_ok sb' = itable_ok sb" "known_inode sb' = known_inode sb" "inode_slot sb' = inode_slot sb"
  using alloc_viewD [OF assms(1)] assms(2,3) by (simp_all add: itable_ok_def known_inode_def inode_slot_def fun_eq_iff)

section \<open>Writing an inode\<close>

lemma note_large_file_eq:
  assumes ok: "gd_ok sb"
  shows "\<exists>e. note_large_file k sb ino = Some (sb\<lparr>es := e\<rparr>) \<and> es_first_data_block e = es_first_data_block (es sb) \<and>
     es_blocks_count e = es_blocks_count (es sb) \<and> es_inodes_count e = es_inodes_count (es sb)"
proof -
  let ?keep = "\<lambda>e. es_first_data_block e = es_first_data_block (es sb) \<and>
     es_blocks_count e = es_blocks_count (es sb) \<and> es_inodes_count e = es_inodes_count (es sb)"
  have ws: "\<exists>e. kr_write_super k (sb\<lparr>es := e0\<rparr>) = Some (sb\<lparr>es := e\<rparr>) \<and> ?keep e" if "?keep e0" for e0
  proof -
    have "desc_loaded (sb\<lparr>es := e1\<rparr>) = desc_loaded sb" for e1
      by (simp add: desc_loaded_def desc_block_def desc_offset_def fun_eq_iff cong: option.case_cong)
    then have "gd_ok (sb\<lparr>es := e1\<rparr>)" for e1 using ok by (simp add: gd_ok_def)
    note gd = this
    have sync: "\<exists>e. kr_sync_super k (sb\<lparr>es := e1\<rparr>) = Some (sb\<lparr>es := e\<rparr>) \<and> ?keep e" if e1: "?keep e1" for e1
    proof -
      obtain e where "kr_sync_super k (sb\<lparr>es := e1\<rparr>) = Some ((sb\<lparr>es := e1\<rparr>)\<lparr>es := e\<rparr>)" "?keep e"
        by (rule that [OF kr_sync_super_eq [OF gd]]) (use e1 in simp)
      then show ?thesis by auto
    qed
    have "?keep (if es_state e0 AND KR_VALID_FS \<noteq> 0 then e0\<lparr>es_state := es_state e0 AND NOT KR_VALID_FS\<rparr> else e0)"
      using that by simp
    from sync [OF this] have "\<exists>e. kr_sync_fs k (sb\<lparr>es := e0\<rparr>) = Some (sb\<lparr>es := e\<rparr>) \<and> ?keep e"
      unfolding kr_sync_fs_def set_es_state_def by (cases "es_state e0 AND KR_VALID_FS \<noteq> 0") simp_all
    then show ?thesis using that unfolding kr_write_super_def by (cases "sb_rdonly (sb\<lparr>es := e0\<rparr>)") auto
  qed
  show ?thesis
  proof (cases "0x7FFFFFFF < u64 (i_size ino) \<and> (\<not> KR_HAS_RO_COMPAT_FEATURE sb KR_FEATURE_RO_COMPAT_LARGE_FILE \<or>
      es_rev_level (es sb) = word_of_int KR_GOOD_OLD_REV)")
    case True
    obtain e0 where e0: "kr_update_dynamic_rev sb = sb\<lparr>es := e0\<rparr>" "?keep e0"
    proof (cases "KR_GOOD_OLD_REV < uint (es_rev_level (es sb))")
      case True
      then show ?thesis using that [of "es sb"] by (simp add: kr_update_dynamic_rev_def)
    next
      case False
      then show ?thesis
        using that [of "(es sb)\<lparr>es_first_ino := word_of_int KR_GOOD_OLD_FIRST_INO,
                            es_inode_size := word_of_int KR_GOOD_OLD_INODE_SIZE,
                            es_rev_level := word_of_int KR_DYNAMIC_REV\<rparr>"] by (simp add: kr_update_dynamic_rev_def)
    qed
    show ?thesis
      unfolding note_large_file_def if_P [OF True] e0(1) Let_def
      using ws [of "e0\<lparr>es_feature_ro_compat := es_feature_ro_compat e0 OR KR_FEATURE_RO_COMPAT_LARGE_FILE\<rparr>"] e0(2) by simp
  next
    case False
    have "sb = sb\<lparr>es := es sb\<rparr>" by simp
    then show ?thesis unfolding note_large_file_def if_not_P [OF False] by (intro exI [of _ "es sb"]) simp
  qed
qed

text \<open>The image of an inode on the disk.\<close>

definition disk_image :: "kernel \<Rightarrow> super_block \<Rightarrow> inode \<Rightarrow> kr_inode" where
  "disk_image k sb ino =
     (let raw0 = (if i_state ino AND KR_STATE_NEW \<noteq> 0 then zero_raw_inode
                  else b_inode sb (fst (inode_slot sb (i_ino ino))) (snd (inode_slot sb (i_ino ino))));
          ino1 = kr_get_inode_flags ino;
          raw1 = raw_fields k sb ino1 raw0
      in raw_blocks k ino1
           (raw1\<lparr>ri_dir_acl := (if \<not> S_ISREG (i_mode ino1) then i_dir_acl ino1 else word_of_int (drop_bit 32 (i_size ino1))),
                 ri_generation := i_generation ino1\<rparr>))"

definition store_inode :: "super_block \<Rightarrow> int \<Rightarrow> kr_inode \<Rightarrow> super_block" where
  "store_inode sb nr raw =
     (let (b, off) = inode_slot sb nr in sb\<lparr>b_inode := (b_inode sb)(b := (b_inode sb b)(off := raw))\<rparr>)"

lemma kr_write_inode_sync_eq:
  assumes io: "io_ok k" and ok: "ialloc_ok sb" "itable_ok sb" and n: "known_inode sb (i_ino ino)"
  shows "\<exists>e err. kr_write_inode_sync k sb ino s =
     Some (err, (store_inode sb (i_ino ino) (disk_image k sb ino))\<lparr>es := e\<rparr>,
       (kr_get_inode_flags ino)\<lparr>i_state := i_state ino AND NOT KR_STATE_NEW\<rparr>) \<and>
     es_first_data_block e = es_first_data_block (es sb) \<and>
     es_blocks_count e = es_blocks_count (es sb) \<and> es_inodes_count e = es_inodes_count (es sb)"
proof -
  have gd: "gd_ok sb" using ialloc_okD(1) [OF ok(1)] by (simp add: fs_ok_def)
  obtain b off where s: "inode_slot sb (i_ino ino) = (b, off)" by force
  note g = kr_get_inode_eq [OF io ok n, unfolded s]
  have m: "i_mode (kr_get_inode_flags ino) = i_mode ino" "i_state (kr_get_inode_flags ino) = i_state ino"
    by (simp_all add: kr_get_inode_flags_def Let_def)
  show ?thesis
  proof (cases "S_ISREG (i_mode ino)")
    case True
    obtain e where e: "note_large_file k sb (kr_get_inode_flags ino) = Some (sb\<lparr>es := e\<rparr>)" "es_first_data_block e = es_first_data_block (es sb)"
        "es_blocks_count e = es_blocks_count (es sb)" "es_inodes_count e = es_inodes_count (es sb)"
      using note_large_file_eq [OF gd] by blast
    show ?thesis
      by (rule exI [of _ e], rule exI [of _ "if s \<and> \<not> k_sync_buffer k b then Some EIO else None"])
        (use True e in \<open>simp add: kr_write_inode_sync_def g disk_image_def store_inode_def s Let_def m\<close>)
  next
    case False
    show ?thesis
      by (rule exI [of _ "es sb"], rule exI [of _ "if s \<and> \<not> k_sync_buffer k b then Some EIO else None"])
        (use False in \<open>simp add: kr_write_inode_sync_def g disk_image_def store_inode_def s Let_def m\<close>)
  qed
qed

lemma store_inode_frame:
  assumes "es_first_data_block e = es_first_data_block (es sb)" "es_blocks_count e = es_blocks_count (es sb)"
    "es_inodes_count e = es_inodes_count (es sb)"
  shows "alloc_view ((store_inode sb nr raw)\<lparr>es := e\<rparr>) = alloc_view sb"
    "s_blocksize ((store_inode sb nr raw)\<lparr>es := e\<rparr>) = s_blocksize sb"
    "s_blocksize_bits ((store_inode sb nr raw)\<lparr>es := e\<rparr>) = s_blocksize_bits sb"
    "b_ind ((store_inode sb nr raw)\<lparr>es := e\<rparr>) = b_ind sb"
  using assms by (simp_all add: store_inode_def alloc_view_def split: prod.split)

section \<open>Reading back what was written\<close>

text \<open>The inodes that the disk format can hold.\<close>

definition fits_on_disk :: "super_block \<Rightarrow> inode \<Rightarrow> bool" where
  "fits_on_disk sb ino =
     ((S_ISREG (i_mode ino) \<and> 0 \<le> i_size ino \<and> i_size ino < 2 ^ 63 \<or> S_ISDIR (i_mode ino) \<and> 0 \<le> i_size ino \<and> i_size ino < 2 ^ 32) \<and>
      i_nlink ino \<noteq> 0 \<and> uint (i_nlink ino) < 2 ^ 16 \<and> i_dtime ino = 0 \<and> 0 \<le> i_blocks ino \<and> i_blocks ino < 2 ^ 32 \<and>
      (\<forall>t \<in> {i_atime ino, i_ctime ino, i_mtime ino}. - (2 ^ 31) \<le> t \<and> t < 2 ^ 31) \<and>
      (i_file_acl ino = 0 \<or> kr_data_block_valid sb (uint (i_file_acl ino)) 1))"

text \<open>The fields that the disk keeps; the VFS flags are those that have a counterpart on the disk.\<close>

definition same_on_disk :: "inode \<Rightarrow> inode \<Rightarrow> bool" where
  "same_on_disk a b =
     (i_mode a = i_mode b \<and> i_uid a = i_uid b \<and> i_gid a = i_gid b \<and> i_nlink a = i_nlink b \<and> i_size a = i_size b \<and>
      i_blocks a = i_blocks b \<and> i_atime a = i_atime b \<and> i_ctime a = i_ctime b \<and> i_mtime a = i_mtime b \<and>
      i_generation a = i_generation b \<and> i_data a = i_data b \<and> i_flags a = i_flags b \<and> i_faddr a = i_faddr b \<and>
      i_frag_no a = i_frag_no b \<and> i_frag_size a = i_frag_size b \<and> i_file_acl a = i_file_acl b \<and>
      (\<not> S_ISREG (i_mode a) \<longrightarrow> i_dir_acl a = i_dir_acl b) \<and> i_dtime a = i_dtime b \<and>
      (\<forall>f \<in> {S_SYNC, S_APPEND, S_IMMUTABLE, S_NOATIME, S_DIRSYNC}. (vfs_flags a AND f = 0) = (vfs_flags b AND f = 0)))"

text \<open>Copying flags changes nothing else of an inode.\<close>

lemma kr_set_inode_flags_sel [simp]:
  "i_ino (kr_set_inode_flags sb ino) = i_ino ino"
  "i_mode (kr_set_inode_flags sb ino) = i_mode ino"
  "i_uid (kr_set_inode_flags sb ino) = i_uid ino"
  "i_gid (kr_set_inode_flags sb ino) = i_gid ino"
  "i_nlink (kr_set_inode_flags sb ino) = i_nlink ino"
  "i_size (kr_set_inode_flags sb ino) = i_size ino"
  "i_blocks (kr_set_inode_flags sb ino) = i_blocks ino"
  "i_atime (kr_set_inode_flags sb ino) = i_atime ino"
  "i_ctime (kr_set_inode_flags sb ino) = i_ctime ino"
  "i_mtime (kr_set_inode_flags sb ino) = i_mtime ino"
  "i_generation (kr_set_inode_flags sb ino) = i_generation ino"
  "i_rdev (kr_set_inode_flags sb ino) = i_rdev ino"
  "i_data (kr_set_inode_flags sb ino) = i_data ino"
  "i_faddr (kr_set_inode_flags sb ino) = i_faddr ino"
  "i_frag_no (kr_set_inode_flags sb ino) = i_frag_no ino"
  "i_frag_size (kr_set_inode_flags sb ino) = i_frag_size ino"
  "i_state (kr_set_inode_flags sb ino) = i_state ino"
  "i_file_acl (kr_set_inode_flags sb ino) = i_file_acl ino"
  "i_dir_acl (kr_set_inode_flags sb ino) = i_dir_acl ino"
  "i_dtime (kr_set_inode_flags sb ino) = i_dtime ino"
  "i_block_group (kr_set_inode_flags sb ino) = i_block_group ino"
  "i_block_alloc_info (kr_set_inode_flags sb ino) = i_block_alloc_info ino"
  "i_dir_start_lookup (kr_set_inode_flags sb ino) = i_dir_start_lookup ino"
  "i_flags (kr_set_inode_flags sb ino) = i_flags ino"
  by (simp_all add: kr_set_inode_flags_def Let_def)

lemma kr_get_inode_flags_sel [simp]:
  "i_ino (kr_get_inode_flags ino) = i_ino ino"
  "i_mode (kr_get_inode_flags ino) = i_mode ino"
  "i_uid (kr_get_inode_flags ino) = i_uid ino"
  "i_gid (kr_get_inode_flags ino) = i_gid ino"
  "i_nlink (kr_get_inode_flags ino) = i_nlink ino"
  "i_size (kr_get_inode_flags ino) = i_size ino"
  "i_blocks (kr_get_inode_flags ino) = i_blocks ino"
  "i_atime (kr_get_inode_flags ino) = i_atime ino"
  "i_ctime (kr_get_inode_flags ino) = i_ctime ino"
  "i_mtime (kr_get_inode_flags ino) = i_mtime ino"
  "i_generation (kr_get_inode_flags ino) = i_generation ino"
  "i_rdev (kr_get_inode_flags ino) = i_rdev ino"
  "i_data (kr_get_inode_flags ino) = i_data ino"
  "i_faddr (kr_get_inode_flags ino) = i_faddr ino"
  "i_frag_no (kr_get_inode_flags ino) = i_frag_no ino"
  "i_frag_size (kr_get_inode_flags ino) = i_frag_size ino"
  "i_state (kr_get_inode_flags ino) = i_state ino"
  "i_file_acl (kr_get_inode_flags ino) = i_file_acl ino"
  "i_dir_acl (kr_get_inode_flags ino) = i_dir_acl ino"
  "i_dtime (kr_get_inode_flags ino) = i_dtime ino"
  "i_block_group (kr_get_inode_flags ino) = i_block_group ino"
  "i_block_alloc_info (kr_get_inode_flags ino) = i_block_alloc_info ino"
  "i_dir_start_lookup (kr_get_inode_flags ino) = i_dir_start_lookup ino"
  "vfs_flags (kr_get_inode_flags ino) = vfs_flags ino"
  by (simp_all add: kr_get_inode_flags_def Let_def)

lemma owner_round_trip:
  assumes "\<not> test_opt sb KR_MOUNT_NO_UID32"
  shows "read_owner sb (fst (write_owner sb ov False w)) (snd (write_owner sb ov False w)) = w"
proof -
  have "(ucast (ucast w :: 16 word) :: 32 word) OR push_bit 16 (ucast (ucast (drop_bit 16 w) :: 16 word)) = w"
    by (rule bit_word_eqI) (auto simp: bit_or_iff bit_push_bit_iff bit_ucast_iff bit_drop_bit_eq dest: bit_imp_le_length)
  then show ?thesis using assms by (simp add: read_owner_def write_owner_def)
qed

lemma sint_word_of_int_id:
  "- (2 ^ 31) \<le> t \<Longrightarrow> t < 2 ^ 31 \<Longrightarrow> sint (word_of_int t :: 32 word) = t"
  by (simp add: signed_of_int signed_take_bit_int_eq_self)

lemma uint_word_of_int_id: "0 \<le> t \<Longrightarrow> t < 2 ^ 32 \<Longrightarrow> uint (word_of_int t :: 32 word) = t"
  by (simp add: uint_word_of_int)

lemma size_round_trip:
  assumes "0 \<le> n" "n < 2 ^ 63"
  shows "s64 (uint (word_of_int n :: 32 word) OR push_bit 32 (uint (word_of_int (drop_bit 32 n) :: 32 word))) = n"
proof -
  have "drop_bit 32 n < 2 ^ 31" using assms by (simp add: drop_bit_eq_div)
  moreover have "0 \<le> drop_bit 32 n" using assms by (simp only: drop_bit_nonnegative_int_iff)
  ultimately have "uint (word_of_int (drop_bit 32 n) :: 32 word) = drop_bit 32 n" by (intro uint_word_of_int_id) simp_all
  moreover have "uint (word_of_int n :: 32 word) = take_bit 32 n" by (simp add: uint_word_of_int take_bit_eq_mod)
  moreover have "take_bit 32 n OR push_bit 32 (drop_bit 32 n) = n"
  proof (rule bit_eqI)
    fix m
    show "bit (take_bit 32 n OR push_bit 32 (drop_bit 32 n)) m = bit n m"
      by (cases "m < 32") (simp_all add: bit_or_iff bit_take_bit_iff bit_push_bit_iff bit_drop_bit_eq)
  qed
  ultimately show ?thesis using assms by (simp add: s64_def)
qed

lemma flag_zero_iff: "(w :: 32 word) AND push_bit n 1 = 0 \<longleftrightarrow> \<not> bit w n"
  using and_flag [of w n] by auto

text \<open>The fields of the image, for a regular file or a directory.\<close>

lemma disk_image_fields:
  assumes ok: "\<not> test_opt sb KR_MOUNT_NO_UID32" and f: "fits_on_disk sb ino" and raw_def: "raw = disk_image k sb ino"
  shows "ri_mode raw = i_mode ino" "read_owner sb (ri_uid_low raw) (ri_uid_high raw) = i_uid ino"
    "read_owner sb (ri_gid_low raw) (ri_gid_high raw) = i_gid ino" "ucast (ri_links_count raw) = i_nlink ino"
    "sint (ri_atime raw) = i_atime ino" "sint (ri_ctime raw) = i_ctime ino" "sint (ri_mtime raw) = i_mtime ino"
    "uint (ri_blocks raw) = i_blocks ino" "ri_dtime raw = 0" "ri_flags raw = i_flags (kr_get_inode_flags ino)"
    "ri_faddr raw = i_faddr ino" "ri_frag raw = i_frag_no ino" "ri_fsize raw = i_frag_size ino"
    "ri_file_acl raw = i_file_acl ino" "ri_generation raw = i_generation ino" "ri_block raw = i_data ino"
    "\<not> S_ISREG (i_mode ino) \<Longrightarrow> ri_dir_acl raw = i_dir_acl ino \<and> uint (ri_size raw) = i_size ino"
    "S_ISREG (i_mode ino) \<Longrightarrow> s64 (uint (ri_size raw) OR push_bit 32 (uint (ri_dir_acl raw))) = i_size ino"
proof -
  have m: "\<not> S_ISCHR (i_mode ino)" "\<not> S_ISBLK (i_mode ino)"
    using f by (auto simp: fits_on_disk_def S_ISREG_def S_ISDIR_def S_ISCHR_def S_ISBLK_def)
  have d: "i_dtime ino = 0" using f by (simp add: fits_on_disk_def)
  note D = raw_def [unfolded disk_image_def raw_blocks_def raw_fields_def Let_def kr_get_inode_flags_sel if_not_P [OF m(1)]]
  show "ri_mode raw = i_mode ino" "ri_dtime raw = 0" "ri_flags raw = i_flags (kr_get_inode_flags ino)"
    "ri_faddr raw = i_faddr ino" "ri_frag raw = i_frag_no ino" "ri_fsize raw = i_frag_size ino"
    "ri_file_acl raw = i_file_acl ino" "ri_generation raw = i_generation ino" "ri_block raw = i_data ino"
    by (simp_all add: D m d)
  show "read_owner sb (ri_uid_low raw) (ri_uid_high raw) = i_uid ino"
    "read_owner sb (ri_gid_low raw) (ri_gid_high raw) = i_gid ino"
    using owner_round_trip [OF ok] by (simp_all add: D m d)
  have "uint (i_nlink ino) < 2 ^ 16" using f by (simp add: fits_on_disk_def)
  then have "(ucast (ucast (i_nlink ino) :: 16 word) :: 32 word) = i_nlink ino"
    by (intro word_uint_eqI) (simp add: unsigned_ucast_eq unsigned_take_bit_eq take_bit_int_eq_self)
  then show "ucast (ri_links_count raw) = i_nlink ino" by (simp add: D m)
  show "sint (ri_atime raw) = i_atime ino" "sint (ri_ctime raw) = i_ctime ino" "sint (ri_mtime raw) = i_mtime ino"
    using f sint_word_of_int_id by (simp_all add: D m fits_on_disk_def)
  show "uint (ri_blocks raw) = i_blocks ino"
    using f uint_word_of_int_id by (simp add: D m fits_on_disk_def)
  show "\<not> S_ISREG (i_mode ino) \<Longrightarrow> ri_dir_acl raw = i_dir_acl ino \<and> uint (ri_size raw) = i_size ino"
    using f uint_word_of_int_id [of "i_size ino"] by (simp add: D m fits_on_disk_def)
  show "S_ISREG (i_mode ino) \<Longrightarrow> s64 (uint (ri_size raw) OR push_bit 32 (uint (ri_dir_acl raw))) = i_size ino"
  proof -
    assume r: "S_ISREG (i_mode ino)"
    then have "\<not> S_ISDIR (i_mode ino)" by (auto simp: S_ISREG_def S_ISDIR_def)
    then show ?thesis using size_round_trip [of "i_size ino"] f r by (simp add: D m fits_on_disk_def)
  qed
qed

lemma flags_same:
  assumes "i_flags a = i_flags (kr_get_inode_flags ino)"
  shows "\<forall>f \<in> {S_SYNC, S_APPEND, S_IMMUTABLE, S_NOATIME, S_DIRSYNC}.
     (vfs_flags (kr_set_inode_flags sb a) AND f = 0) = (vfs_flags ino AND f = 0)"
proof -
  have b: "bit (vfs_flags (kr_set_inode_flags sb a)) n = bit (vfs_flags ino) n" if "n \<in> {0, 1, 2, 3, 6}" for n
    using that unfolding vfs_flags_bit assms i_flags_bit by auto
  have "(vfs_flags (kr_set_inode_flags sb a) AND push_bit n 1 = 0) = (vfs_flags ino AND push_bit n 1 = 0)" if "n \<in> {0, 1, 2, 3, 6}" for n
    using b [OF that] by (simp only: flag_zero_iff)
  from this [of 0] this [of 1] this [of 2] this [of 3] this [of 6] show ?thesis unfolding flag_pushed by simp
qed

lemma read_disk_image:
  assumes ok: "\<not> test_opt sb KR_MOUNT_NO_UID32" and f: "fits_on_disk sb ino" and raw: "raw = disk_image k sb ino"
    and r_def: "r = read_late sb nr raw (read_middle raw (read_early sb raw fresh))"
  shows "same_on_disk (kr_set_inode_flags sb (fst (read_kind k v sb raw r)))
     ((kr_get_inode_flags ino)\<lparr>i_state := s\<rparr>)"
    "i_nlink (read_early sb raw fresh) \<noteq> 0" "i_file_acl (read_middle raw x) = i_file_acl ino"
proof -
  note F = disk_image_fields [OF ok f raw]
  show "i_nlink (read_early sb raw fresh) \<noteq> 0" using f by (simp add: read_early_def F fits_on_disk_def)
  show "i_file_acl (read_middle raw x) = i_file_acl ino" by (simp add: read_middle_def F)
  have r: "i_mode r = i_mode ino" "i_uid r = i_uid ino" "i_gid r = i_gid ino" "i_nlink r = i_nlink ino"
    "i_blocks r = i_blocks ino" "i_atime r = i_atime ino" "i_ctime r = i_ctime ino" "i_mtime r = i_mtime ino"
    "i_generation r = i_generation ino" "i_data r = i_data ino" "i_flags r = i_flags (kr_get_inode_flags ino)"
    "i_faddr r = i_faddr ino" "i_frag_no r = i_frag_no ino" "i_frag_size r = i_frag_size ino" "i_file_acl r = i_file_acl ino"
    "i_dtime r = 0"
    by (simp_all add: r_def read_late_def read_middle_def read_early_def F Let_def)
  have size: "i_size r = i_size ino" "\<not> S_ISREG (i_mode ino) \<Longrightarrow> i_dir_acl r = i_dir_acl ino"
    using F(17,18) by (cases "S_ISREG (i_mode ino)"; simp add: r_def read_late_def read_middle_def read_early_def F(1) Let_def)+
  have "S_ISREG (i_mode ino) \<or> S_ISDIR (i_mode ino)" using f by (auto simp: fits_on_disk_def)
  then have k: "fst (read_kind k v sb raw r) = r" by (auto simp: read_kind_def r(1))
  have d: "i_dtime ino = 0" using f by (simp add: fits_on_disk_def)
  show "same_on_disk (kr_set_inode_flags sb (fst (read_kind k v sb raw r))) ((kr_get_inode_flags ino)\<lparr>i_state := s\<rparr>)"
    unfolding same_on_disk_def k using flags_same [OF r(11), of sb] by (simp add: r size d)
qed

lemma reading_frame:
  assumes "sbi sb' = sbi sb" "s_blocksize sb' = s_blocksize sb"
  shows "read_early sb' = read_early sb" "read_late sb' = read_late sb" "read_kind k v sb' = read_kind k v sb"
    "kr_set_inode_flags sb' = kr_set_inode_flags sb" "kr_inode_is_fast_symlink sb' = kr_inode_is_fast_symlink sb"
proof -
  have t: "test_opt sb' = test_opt sb" using assms by (simp add: test_opt_def fun_eq_iff)
  have o: "read_owner sb' = read_owner sb" by (simp add: read_owner_def t fun_eq_iff)
  show "read_early sb' = read_early sb" by (simp add: read_early_def o fun_eq_iff)
  show "read_late sb' = read_late sb" using assms by (simp add: read_late_def fun_eq_iff)
  show f: "kr_inode_is_fast_symlink sb' = kr_inode_is_fast_symlink sb"
    using assms by (simp add: kr_inode_is_fast_symlink_def fun_eq_iff)
  have "mapping_ops sb' = mapping_ops sb" by (simp add: mapping_ops_def t)
  then show "read_kind k v sb' = read_kind k v sb" by (simp add: read_kind_def f fun_eq_iff)
  show "kr_set_inode_flags sb' = kr_set_inode_flags sb" by (simp add: kr_set_inode_flags_def t fun_eq_iff)
qed

lemma write_iget:
  assumes io: "io_ok k" and ok: "ialloc_ok sb" "itable_ok sb" and n: "known_inode sb (i_ino ino)"
    and o: "\<not> test_opt sb KR_MOUNT_NO_UID32" and f: "fits_on_disk sb ino"
    and new: "k_iget_locked k (i_ino ino) = Some (True, fresh)"
  shows "\<exists>err sb' ino' rd ops. kr_write_inode_sync k sb ino s = Some (err, sb', ino') \<and>
     kr_iget k v sb' (i_ino ino) = Some (Inr (rd, Some ops), sb') \<and> same_on_disk rd ino'"
proof -
  obtain e err where w: "kr_write_inode_sync k sb ino s =
      Some (err, (store_inode sb (i_ino ino) (disk_image k sb ino))\<lparr>es := e\<rparr>,
        (kr_get_inode_flags ino)\<lparr>i_state := i_state ino AND NOT KR_STATE_NEW\<rparr>)"
      "es_first_data_block e = es_first_data_block (es sb)" "es_blocks_count e = es_blocks_count (es sb)"
      "es_inodes_count e = es_inodes_count (es sb)"
    using kr_write_inode_sync_eq [OF io ok n] by blast
  let ?raw = "disk_image k sb ino" and ?ino = "(kr_get_inode_flags ino)\<lparr>i_state := i_state ino AND NOT KR_STATE_NEW\<rparr>"
  define sb' where "sb' = (store_inode sb (i_ino ino) ?raw)\<lparr>es := e\<rparr>"
  note F = store_inode_frame [OF w(2-4), of "i_ino ino" ?raw, folded sb'_def]
  note V = alloc_viewD [OF F(1)] and S = alloc_view_slot [OF F(1-3)]
  obtain b off where s: "inode_slot sb (i_ino ino) = (b, off)" by force
  have g: "kr_get_inode k sb' (i_ino ino) = Some (Inr (b, off), sb')"
    using kr_get_inode_eq [OF io, of sb' "i_ino ino"] V(7) S ok n s by simp
  have raw: "b_inode sb' b off = ?raw" by (simp add: sb'_def store_inode_def s)
  note R = reading_frame [OF V(1) F(2)]
  have valid: "kr_data_block_valid sb' = kr_data_block_valid sb"
    using F(1) by (simp add: kr_data_block_valid_def alloc_view_def fun_eq_iff)
  let ?f = "fresh\<lparr>i_block_alloc_info := None\<rparr>"
  note D = read_disk_image(1) [OF o f refl refl, where fresh = ?f and k = k]
    read_disk_image(2) [OF o f refl refl, where fresh = ?f and k = k] read_disk_image(3) [OF o f refl refl, where k = k]
  let ?r = "read_late sb (i_ino ino) ?raw (read_middle ?raw (read_early sb ?raw ?f))"
  have acl: "\<not> (i_file_acl (read_middle ?raw (read_early sb ?raw ?f)) \<noteq> 0 \<and>
      \<not> kr_data_block_valid sb (uint (i_file_acl (read_middle ?raw (read_early sb ?raw ?f)))) 1)"
    unfolding D(3) using f by (auto simp: fits_on_disk_def)
  have "kr_iget k v sb' (i_ino ino) =
      Some (Inr (kr_set_inode_flags sb (fst (read_kind k v sb ?raw ?r)), Some (snd (read_kind k v sb ?raw ?r))), sb')"
    using D(2) acl by (auto simp: kr_iget_def new g raw R valid Let_def split: prod.split)
  moreover have "same_on_disk (kr_set_inode_flags sb (fst (read_kind k v sb ?raw ?r))) ?ino" by (rule D(1))
  ultimately show ?thesis using w(1) unfolding sb'_def by blast
qed

lemma write_isolated:
  assumes io: "io_ok k" and ok: "ialloc_ok sb" "itable_ok sb" and n: "known_inode sb (i_ino ino)" "known_inode sb j" "j \<noteq> i_ino ino"
    and w: "kr_write_inode_sync k sb ino s = Some (err, sb', ino')"
  shows "case inode_slot sb j of (b, off) \<Rightarrow> b_inode sb' b off = b_inode sb b off"
proof -
  obtain e where e: "sb' = (store_inode sb (i_ino ino) (disk_image k sb ino))\<lparr>es := e\<rparr>"
    using kr_write_inode_sync_eq [OF io ok n(1), of s] w by auto
  obtain b off c x where s: "inode_slot sb j = (b, off)" "inode_slot sb (i_ino ino) = (c, x)" by force
  have "b \<noteq> c \<or> off \<noteq> x"
    using inode_slot_apart [OF ok n(2,1,3), of c off x] s ok(2) by (auto simp: itable_ok_def)
  then show ?thesis using s by (auto simp: e store_inode_def)
qed

section \<open>Deleting an inode\<close>

lemma truncate_direct_cut:
  assumes k: "io_ok k" "quota_ok k" and ok: "fs_ok sb" "file_ok sb ino" and h: "0 \<le> h" "h < 12"
  shows "\<exists>sb' ino'. truncate_branch k [h] sb ino = Some (sb', ino') \<and> cut sb ino (tails (KR_ADDR_PER_BLOCK sb) [] {h..11}) sb' ino'"
proof -
  have "siblings sb ino [] [h..11] 0" using ok h open_root by (auto simp: siblings_def tree_depth_def)
  from kr_free_branches_cut [OF this k] show ?thesis by (auto simp: kr_free_branches_def sib_slots_def truncate_branch_def)
qed

text \<open>Truncating to nothing frees every block of the file, the indirect blocks included.\<close>

lemma truncate_all:
  assumes k: "io_ok k" "quota_ok k" and ok: "fs_ok sb" "file_ok sb ino" and b: "s_blocksize sb = 2 ^ s_blocksize_bits sb"
  shows "\<exists>sb' ino'. kr_truncate_blocks_locked k sb ino 0 = Some (sb', ino') \<and> fs_ok sb' \<and>
     free_set sb' = free_set sb \<union> owned sb ino \<and> inodes_kept sb sb' \<and> same_but_data ino ino' \<and>
     KR_FIRST_INO sb' = KR_FIRST_INO sb \<and> es sb' = es sb"
proof -
  let ?p = "KR_ADDR_PER_BLOCK sb"
  have a: "addr_ok sb" using ok(2) by (simp add: file_ok_def tree_ok_def)
  have z: "drop_bit (s_blocksize_bits sb) (0 + s_blocksize sb - 1) = 0" by (simp add: b drop_bit_eq_div)
  have path: "fst (kr_block_to_path sb 0) = [0]" using block_to_path_block [OF a, of "[0]"] by simp
  obtain sb1 ino1 where t: "truncate_branch k [0] sb ino = Some (sb1, ino1)" "cut sb ino (tails ?p [] {0..11}) sb1 ino1"
    using truncate_direct_cut [OF k ok, of 0] by auto
  have ok1: "fs_ok sb1" "file_ok sb1 ino1" "KR_ADDR_PER_BLOCK sb1 = ?p"
    using t(2) cut_file_ok(1) [OF ok(2) t(2)] cut_addr [OF t(2)] by (simp_all add: cut_def)
  let ?J = "{t. 0 < t \<and> 12 \<le> t \<and> t \<le> 14} \<union> {12, 13, 14 :: int}"
  obtain sb2 ino2 where r: "do_indirects k 0 sb1 ino1 = Some (sb2, ino2)" "cut sb1 ino1 (tails ?p [] ?J) sb2 ino2"
    using do_indirects_cut [OF k ok1(1,2), of 0] unfolding ok1(3) by auto
  note c = cut_trans [OF t(2) r(2)]
  have "live sb ino \<subseteq> tails ?p [] {0..11} \<union> tails ?p [] ?J"
  proof
    fix q
    assume "q \<in> live sb ino"
    then have q: "q \<in> positions ?p" by (simp add: live_def)
    then obtain x s where "q = x # s" "0 \<le> x" "x < 15" by (cases q) (auto simp: positions_def)
    then show "q \<in> tails ?p [] {0..11} \<union> tails ?p [] ?J" using q by (auto simp: tails_def)
  qed
  then have "blocks_at sb ino (tails ?p [] {0..11} \<union> tails ?p [] ?J) = owned sb ino"
    unfolding blocks_at_def owned_def by (simp add: Int_absorb2)
  then have c2: "fs_ok sb2" "free_set sb2 = free_set sb \<union> owned sb ino" "inodes_kept sb sb2" "same_but_data ino ino2"
      "KR_FIRST_INO sb2 = KR_FIRST_INO sb" "es sb2 = es sb"
    using c by (cases "sbi sb"; cases "sbi sb2"; auto simp: cut_def same_but_counter_def)+
  let ?sb = "kr_discard_reservation k sb2 ino2"
  have s: "same_but_rsv sb2 ?sb" by (rule discard_same_but_rsv)
  have "kr_truncate_blocks_locked k sb ino 0 = Some (?sb, ino2)"
    unfolding kr_truncate_blocks_locked_def z Let_def path using t(1) r(1) by simp
  moreover have "fs_ok ?sb" "free_set ?sb = free_set sb \<union> owned sb ino" "inodes_kept sb ?sb"
      "KR_FIRST_INO ?sb = KR_FIRST_INO sb" "es ?sb = es sb"
    using c2 same_but_rsv_gdesc(6,7) [OF s] inodes_kept_trans [OF c2(3) rsv_inodes_kept [OF s]] same_but_rsvD(3,4) [OF s] by simp_all
  ultimately show ?thesis using c2(4) by blast
qed

lemma file_ok_view:
  assumes v: "alloc_view sb' = alloc_view sb" and b: "b_ind sb' = b_ind sb" "s_blocksize sb' = s_blocksize sb" "i_data ino' = i_data ino"
  shows "file_ok sb' ino' = file_ok sb ino" "owned sb' ino' = owned sb ino"
proof -
  have w: "walk sb' key q = walk sb key q" for key q by (induction q arbitrary: key) (simp_all add: b)
  have wp: "walk_path sb' ino' = walk_path sb ino"
  proof
    fix q
    show "walk_path sb' ino' q = walk_path sb ino q" by (cases q) (simp_all add: w b)
  qed
  have p: "KR_ADDR_PER_BLOCK sb' = KR_ADDR_PER_BLOCK sb" by (simp add: KR_ADDR_PER_BLOCK_def b)
  have l: "live sb' ino' = live sb ino" by (simp add: live_def wp p)
  show o: "owned sb' ino' = owned sb ino" by (simp add: owned_def l wp)
  show "file_ok sb' ino' = file_ok sb ino"
    unfolding file_ok_def l o wp alloc_viewD(6) [OF v] tree_ok_def addr_ok_def p alloc_viewD(1) [OF v] b ..
qed

text \<open>What makes the blocks of an unlinked inode be freed: it has blocks, and nothing forbids truncation.\<close>

definition truncatable :: "super_block \<Rightarrow> inode \<Rightarrow> bool" where
  "truncatable sb ino =
     (has_blocks ino \<and> \<not> kr_inode_is_fast_symlink sb ino \<and> \<not> IS_APPEND ino \<and> \<not> IS_IMMUTABLE ino)"

lemma truncatable_eq: "truncatable sb ino \<Longrightarrow> kr_truncate_blocks k sb ino n = kr_truncate_blocks_locked k sb ino n"
  by (simp add: truncatable_def kr_truncate_blocks_def)

lemma evict_ok:
  assumes k: "io_ok k" "quota_ok k" and ok: "ialloc_ok sb" "itable_ok sb"
    and used: "inode_in_use sb (i_ino ino)" and del: "i_nlink ino = 0" "\<not> v_is_bad_inode v ino"
    and blocks: "truncatable sb ino \<Longrightarrow> i_blocks ino \<noteq> 0 \<Longrightarrow> file_ok sb ino"
  shows "\<exists>sb' ino'. kr_evict_inode k v sb ino = Some (sb', ino') \<and> ialloc_ok sb' \<and>
     free_set sb' = free_set sb \<union> (if truncatable sb ino \<and> i_blocks ino \<noteq> 0 then owned sb ino else {}) \<and>
     free_inodes sb' = insert (i_ino ino) (free_inodes sb)"
proof -
  let ?i0 = "ino\<lparr>i_dtime := word_of_int (k_now k)\<rparr>"
  let ?i1 = "(kr_get_inode_flags ?i0)\<lparr>i_state := i_state ?i0 AND NOT KR_STATE_NEW\<rparr>"
  have kn: "known_inode sb (i_ino ?i0)" using used by (simp add: known_inode_def inode_in_use_def)
  obtain e err where w: "kr_write_inode_sync k sb ?i0 (v_needs_sync v ?i0) =
      Some (err, (store_inode sb (i_ino ?i0) (disk_image k sb ?i0))\<lparr>es := e\<rparr>, ?i1)"
      "es_first_data_block e = es_first_data_block (es sb)" "es_blocks_count e = es_blocks_count (es sb)"
      "es_inodes_count e = es_inodes_count (es sb)"
    using kr_write_inode_sync_eq [OF k(1) ok(1,2) kn, of "v_needs_sync v ?i0"] by blast
  define sb0 where "sb0 = (store_inode sb (i_ino ?i0) (disk_image k sb ?i0))\<lparr>es := e\<rparr>"
  let ?i2 = "?i1\<lparr>i_size := 0\<rparr>"
  note F = store_inode_frame [OF w(2-4), of "i_ino ?i0" "disk_image k sb ?i0", folded sb0_def]
  note V = alloc_viewD [OF F(1)]
  have fs: "fs_ok sb0" using V(4) ialloc_okD(1) [OF ok(1)] by simp
  have bs: "s_blocksize sb0 = 2 ^ s_blocksize_bits sb0" using F(2,3) ok(2) by (simp add: itable_ok_def)
  have tr: "truncatable sb0 ?i2 = truncatable sb ino" and ib: "i_blocks ?i2 = i_blocks ino"
    using F(2) by (simp_all add: truncatable_def has_blocks_def kr_inode_is_fast_symlink_def IS_APPEND_def IS_IMMUTABLE_def)
  let ?freed = "if truncatable sb ino \<and> i_blocks ino \<noteq> 0 then owned sb ino else {}"
  obtain sb1 ino1 where c: "(if i_blocks ?i2 \<noteq> 0 then kr_truncate_blocks k sb0 ?i2 0 else Some (sb0, ?i2)) = Some (sb1, ino1)"
      "fs_ok sb1" "free_set sb1 = free_set sb \<union> ?freed"
      "inodes_kept sb0 sb1" "same_but_data ?i2 ino1" "KR_FIRST_INO sb1 = KR_FIRST_INO sb0" "es sb1 = es sb0"
  proof (cases "truncatable sb ino \<and> i_blocks ino \<noteq> 0")
    case True
    then have fl: "file_ok sb0 ?i2" "owned sb0 ?i2 = owned sb ino"
      using file_ok_view [OF F(1,4,2), of ?i2 ino] blocks by simp_all
    have t: "truncatable sb0 ?i2" using True tr by simp
    from truncate_all [OF k fs fl(1) bs] fl(2) V(5) True ib that show thesis unfolding truncatable_eq [OF t] by auto
  next
    case False
    then have "(if i_blocks ?i2 \<noteq> 0 then kr_truncate_blocks k sb0 ?i2 0 else Some (sb0, ?i2)) = Some (sb0, ?i2)"
      using tr ib by (auto simp: kr_truncate_blocks_def truncatable_def)
    with that [of sb0 ?i2] fs V(5) False show thesis by (simp add: inodes_kept_def same_but_data_def)
  qed
  let ?sb2 = "kr_discard_reservation k sb1 ino1" and ?i3 = "ino1\<lparr>i_block_alloc_info := None\<rparr>"
  have s: "same_but_rsv sb1 ?sb2" by (rule discard_same_but_rsv)
  have i: "i_ino ino1 = i_ino ino" using c(5) by (cases ino1) (simp add: same_but_data_def)
  have "inodes_kept sb0 ?sb2" using inodes_kept_trans [OF c(4) rsv_inodes_kept [OF s]] .
  then have k2: "ialloc_ok ?sb2" "free_inodes ?sb2 = free_inodes sb" using V(7,8) ok(1) by (simp_all add: inodes_kept_def)
  have e0: "es_inodes_count (es sb0) = es_inodes_count (es sb)" using V(11) .
  have "inode_in_use ?sb2 (i_ino ?i3)"
    using used k2(2) i c(6,7) V(1) e0 same_but_rsvD(3,4) [OF s] by (simp add: inode_in_use_def)
  from kr_free_inode_ok [OF k(1) k2(1) this] obtain sb3 where d: "kr_free_inode k ?sb2 ?i3 = Some sb3" "ialloc_ok sb3"
      "free_set sb3 = free_set ?sb2" "free_inodes sb3 = insert (i_ino ?i3) (free_inodes ?sb2)" by blast
  have "kr_evict_inode k v sb ino = Some (sb3, ?i3)"
  proof (cases "i_blocks ino = 0")
    case True
    then have "sb1 = sb0" "ino1 = ?i2" using c(1) by simp_all
    then show ?thesis using True del d(1) w(1) [folded sb0_def] by (simp add: kr_evict_inode_def Let_def)
  next
    case False
    then show ?thesis using del c(1) d(1) w(1) [folded sb0_def] by (simp add: kr_evict_inode_def Let_def)
  qed
  then show ?thesis using d(2-4) k2(2) i c(3) same_but_rsv_gdesc(7) [OF s] by auto
qed

section \<open>Changing the size\<close>

lemma block_map_view:
  assumes "sbi sb' = sbi sb" "b_ind sb' = b_ind sb" "s_blocksize sb' = s_blocksize sb" "i_data ino' = i_data ino"
  shows "block_map sb' ino' = block_map sb ino"
proof -
  have w: "walk sb' key q = walk sb key q" for key q by (induction q arbitrary: key) (simp_all add: assms)
  have p: "KR_ADDR_PER_BLOCK sb' = KR_ADDR_PER_BLOCK sb" by (simp add: KR_ADDR_PER_BLOCK_def assms)
  have "kr_block_to_path sb' = kr_block_to_path sb" unfolding kr_block_to_path_def p assms ..
  moreover have "walk_path sb' ino' q = walk_path sb ino q" for q by (cases q) (simp_all add: w assms)
  ultimately show ?thesis by (simp add: block_map_def fun_eq_iff)
qed

lemma same_super_geometry:
  assumes "same_super sb sb'"
  shows "s_inodes_per_group (sbi sb') = s_inodes_per_group (sbi sb)" "s_inode_size (sbi sb') = s_inode_size (sbi sb)"
    "s_inodes_per_block (sbi sb') = s_inodes_per_block (sbi sb)" "s_itb_per_group (sbi sb') = s_itb_per_group (sbi sb)"
    "KR_FIRST_INO sb' = KR_FIRST_INO sb"
  using assms by (cases "sbi sb"; cases "sbi sb'"; simp add: same_super_def)+

lemma same_super_itable:
  assumes "same_super sb sb'"
  shows "itable_ok sb' = itable_ok sb" "known_inode sb' n = known_inode sb n"
  using same_super_geometry [OF assms] assms by (simp_all add: itable_ok_def known_inode_def same_super_def)

lemma setsize_sync:
  assumes k: "io_ok k" and ok: "ialloc_ok sb" "itable_ok sb" "known_inode sb (i_ino ino)"
  shows "\<exists>sb' ino'. (if c then do { (_, sb2, ino3) \<leftarrow> kr_write_inode k sb ino True; Some (None, sb2, ino3) } else Some (None, sb, ino)) =
      Some (None :: errno option, sb', ino') \<and> block_map sb' ino' = block_map sb ino \<and> i_size ino' = i_size ino"
proof (cases c)
  case True
  let ?ino = "(kr_get_inode_flags ino)\<lparr>i_state := i_state ino AND NOT KR_STATE_NEW\<rparr>"
  obtain e err where w: "kr_write_inode_sync k sb ino True = Some (err, (store_inode sb (i_ino ino) (disk_image k sb ino))\<lparr>es := e\<rparr>, ?ino)"
      "es_first_data_block e = es_first_data_block (es sb)" "es_blocks_count e = es_blocks_count (es sb)"
      "es_inodes_count e = es_inodes_count (es sb)"
    using kr_write_inode_sync_eq [OF k ok, of True] by blast
  note F = store_inode_frame [OF w(2-4), of "i_ino ino" "disk_image k sb ino"]
  have "block_map ((store_inode sb (i_ino ino) (disk_image k sb ino))\<lparr>es := e\<rparr>) ?ino = block_map sb ino"
    by (rule block_map_view [OF alloc_viewD(1) [OF F(1)] F(4,2)]) simp
  then show ?thesis using True w(1) by (simp add: kr_write_inode_def)
qed simp

lemma setsize_ok:
  assumes k: "io_ok k" "quota_ok k" and ok: "ialloc_ok sb" "itable_ok sb" "known_inode sb (i_ino ino)" "file_ok sb ino"
    and n: "0 \<le> newsize"
  shows "\<exists>err sb' ino'. kr_setsize k v sb ino newsize = Some (err, sb', ino') \<and>
     (case err of
        Some e \<Rightarrow> sb' = sb \<and> ino' = ino
      | None \<Rightarrow> truncatable sb ino \<and> i_size ino' = newsize \<and>
          (\<forall>b. block_map sb' ino' b =
             (if b < drop_bit (s_blocksize_bits sb) (newsize + s_blocksize sb - 1) then block_map sb ino b else 0)))"
proof (cases "truncatable sb ino")
  case False
  then show ?thesis by (auto simp: truncatable_def kr_setsize_def)
next
  case True
  let ?page = "if IS_DAX ino then v_truncate_page v DaxTruncatePage ino newsize
              else if test_opt sb KR_MOUNT_NOBH then v_truncate_page v NobhTruncatePage ino newsize
              else v_truncate_page v BlockTruncatePage ino newsize"
  have g: "has_blocks ino" "\<not> kr_inode_is_fast_symlink sb ino" "\<not> (IS_APPEND ino \<or> IS_IMMUTABLE ino)"
    using True by (simp_all add: truncatable_def)
  show ?thesis
  proof (cases ?page)
    case (Some e)
    then have "kr_setsize k v sb ino newsize = Some (Some e, sb, ino)" using g by (simp add: kr_setsize_def)
    then show ?thesis by simp
  next
    case None
    let ?i = "ino\<lparr>i_size := newsize\<rparr>"
    have fl: "file_ok sb ?i" using file_ok_view [of sb sb ?i ino] ok(4) by simp
    have bm: "block_map sb ?i = block_map sb ino" by (rule block_map_view) simp_all
    have bs: "1 \<le> s_blocksize sb" using ok(2) by (simp add: itable_ok_def)
    obtain sb1 ino1 where t: "kr_truncate_blocks_locked k sb ?i newsize = Some (sb1, ino1)"
        "truncated sb ?i (drop_bit (s_blocksize_bits sb) (newsize + s_blocksize sb - 1)) sb1 ino1"
      using truncate_blocks_ok [OF k ialloc_okD(1) [OF ok(1)] fl n bs] by blast
    have T: "inodes_kept sb sb1" "same_but_data ?i ino1" "same_super sb sb1" using t(2) by (simp_all add: truncated_def)
    let ?i2 = "ino1\<lparr>i_mtime := k_now k, i_ctime := k_now k\<rparr>"
    have i1: "i_ino ino1 = i_ino ino" "i_size ino1 = newsize" using T(2) by (cases ino1; simp add: same_but_data_def)+
    have ok1: "ialloc_ok sb1" "itable_ok sb1" "known_inode sb1 (i_ino ?i2)"
      using T(1) ok(1-3) same_super_itable [OF T(3)] i1 by (simp_all add: inodes_kept_def)
    obtain sb2 ino2 where r: "(if v_needs_sync v ?i2 \<and> v_dirty v ?i2
          then do { (_, sb2, ino3) \<leftarrow> kr_write_inode k sb1 ?i2 True; Some (None, sb2, ino3) } else Some (None, sb1, ?i2)) =
        Some (None :: errno option, sb2, ino2)" "block_map sb2 ino2 = block_map sb1 ?i2" "i_size ino2 = i_size ?i2"
      using setsize_sync [OF k(1) ok1] by blast
    have "kr_setsize k v sb ino newsize = Some (None, sb2, ino2)"
      unfolding kr_setsize_def using g None t(1) r(1) by (cases "v_needs_sync v ?i2 \<and> v_dirty v ?i2") (auto simp: Let_def)
    moreover have "block_map sb1 ?i2 = block_map sb1 ino1" by (rule block_map_view) simp_all
    ultimately show ?thesis using True r(2,3) i1 t(2) bm by (simp add: truncated_def)
  qed
qed

end
