(* ===== verification/Kr_Grow.thy ===== *)
theory Kr_Grow
  imports Kr_Truncate_Path
begin

text \<open>
  Allocating blocks for a file. The blocks come from the allocator, new indirect blocks are
  initialised, and the branch is spliced into the tree of pointers. The result is the old block map
  with a run of new blocks.
\<close>

section \<open>Blocks from the allocator\<close>

text \<open>The inode does not use a reservation window.\<close>

definition windowless :: "super_block \<Rightarrow> inode \<Rightarrow> bool" where
  "windowless sb ino = (i_block_alloc_info ino = None \<or> rsv_goal_size (rsv_node sb (rsv_of ino)) = 0)"

text \<open>The blocks \<open>B\<close> have been allocated, and nothing else has happened.\<close>

definition taken :: "super_block \<Rightarrow> inode \<Rightarrow> int set \<Rightarrow> super_block \<Rightarrow> inode \<Rightarrow> bool" where
  "taken sb ino B sb' ino' =
     (fs_ok sb' \<and> B \<subseteq> free_set sb \<and> free_set sb' = free_set sb - B \<and> data_set sb' = data_set sb \<union> B \<and>
      same_but_counter sb sb' \<and> b_ind sb' = b_ind sb \<and> same_but_blocks ino ino')"

lemma taken_refl: "fs_ok sb \<Longrightarrow> taken sb ino {} sb ino"
  by (simp add: taken_def)

lemma taken_trans: "taken sb ino B sb1 ino1 \<Longrightarrow> taken sb1 ino1 B' sb2 ino2 \<Longrightarrow> taken sb ino (B \<union> B') sb2 ino2"
  using same_but_counter_trans [of sb sb1 sb2] same_but_blocks_trans [of ino ino1 ino2] by (auto simp: taken_def)

lemma taken_window: "taken sb ino B sb' ino' \<Longrightarrow> windowless sb ino \<Longrightarrow> windowless sb' ino'"
  using same_but_blocksD(1,3) [of ino ino'] by (simp add: taken_def windowless_def same_but_counter_def)

lemma free_not_data: "free_set sb \<inter> data_set sb = {}"
  by (auto simp: free_set_def data_set_def)

lemma kr_new_blocks_taken:
  assumes k: "io_ok k" "quota_ok k" and ok: "fs_ok sb" "windowless sb ino" and n: "1 \<le> count" "count \<le> 268435456"
  obtains (none) e sb' ino' where "kr_new_blocks k sb ino goal count = Some (Inl e, sb', ino')" "taken sb ino {} sb' ino'"
  | (some) b n sb' ino' where "kr_new_blocks k sb ino goal count = Some (Inr (b, n), sb', ino')" "1 \<le> n" "n \<le> count"
      "taken sb ino {b..<b + n} sb' ino'"
proof -
  obtain ino1 where q: "k_dquot_alloc_block k ino count = (None, ino1)" using k(2) unfolding quota_ok_def by (metis prod.collapse)
  have w: "rsv_ready k sb (Some (rsv_of ino)) 536870912"
    if "i_block_alloc_info ino \<noteq> None" "rsv_goal_size (rsv_node sb (rsv_of ino)) \<noteq> 0"
    using ok(2) that by (simp add: windowless_def)
  obtain res sb' ino' where r: "kr_new_blocks k sb ino goal count = Some (res, sb', ino')" "fs_ok sb'" "same_files sb sb'"
      "rsv_node sb' = rsv_node sb"
      "case res of
        Inr (b, n) \<Rightarrow> 1 \<le> n \<and> n \<le> count \<and> {b..<b + n} \<subseteq> free_set sb \<and>
          free_set sb' = free_set sb - {b..<b + n} \<and> data_set sb' = data_set sb \<union> {b..<b + n} \<and>
          sbi sb' = (sbi sb)\<lparr>s_freeblocks_counter := s_freeblocks_counter (sbi sb) - n\<rparr>
      | Inl e \<Rightarrow> free_set sb' = free_set sb \<and> data_set sb' = data_set sb \<and> sbi sb' = sbi sb"
    using kr_new_blocks_ok [OF k(1) ok(1) n q w, of goal] ok(2) unfolding windowless_def
    by (fastforce split: sum.splits)
  note i = kr_new_blocks_inode [OF k(2) r(1)]
  show ?thesis
  proof (cases res)
    case (Inl e)
    then have "taken sb ino {} sb' ino'" using r i by (simp add: taken_def same_but_counter_def same_files_def)
    then show ?thesis using none r(1) Inl by blast
  next
    case (Inr x)
    obtain b n where x: "x = (b, n)" by (cases x)
    have "taken sb ino {b..<b + n} sb' ino'" using r i Inr x by (simp add: taken_def same_but_counter_def same_files_def)
    then show ?thesis using some [of b n] r Inr x by simp
  qed
qed

lemma free_each_taken:
  assumes k: "io_ok k" "quota_ok k"
  shows "taken sb0 ino0 (A \<union> set bs) sb ino \<Longrightarrow> distinct bs \<Longrightarrow> A \<inter> set bs = {} \<Longrightarrow>
    \<exists>sb' ino'. free_each k bs sb ino = Some (sb', ino') \<and> taken sb0 ino0 A sb' ino'"
proof (induction bs arbitrary: sb ino)
  case (Cons b bs)
  have t: "fs_ok sb" "A \<union> set (b # bs) \<subseteq> free_set sb0" "free_set sb = free_set sb0 - (A \<union> set (b # bs))"
    "data_set sb = data_set sb0 \<union> (A \<union> set (b # bs))" "same_but_counter sb0 sb" "b_ind sb = b_ind sb0" "same_but_blocks ino0 ino"
    using Cons.prems(1) by (simp_all add: taken_def)
  have s: "{b..<b + 1} = {b}" by auto
  have fr: "freeable sb b 1" using t(4) by (simp add: freeable_iff s)
  obtain sb1 where f: "kr_free_blocks k sb ino b 1 = Some (sb1, k_dquot_free_block k ino 1)" "fs_ok sb1"
      "free_set sb1 = free_set sb \<union> {b}" "sbi sb1 = (sbi sb)\<lparr>s_freeblocks_counter := s_freeblocks_counter (sbi sb) + 1\<rparr>"
      "same_files sb sb1" "rsv_node sb1 = rsv_node sb" "data_set sb1 = data_set sb - {b}"
    using kr_free_blocks_ok [OF k(1) t(1) fr, of ino] unfolding s by auto
  have "b \<notin> data_set sb0" using t(2) free_not_data [of sb0] by auto
  then have "free_set sb1 = free_set sb0 - (A \<union> set bs)" "data_set sb1 = data_set sb0 \<union> (A \<union> set bs)"
    using f(3,7) t(2-4) Cons.prems(2,3) by auto
  moreover have "same_but_counter sb0 sb1"
    using same_but_counter_trans [OF t(5), of sb1] f(4-6) by (simp add: same_but_counter_def same_files_def)
  moreover have "same_but_blocks ino0 (k_dquot_free_block k ino 1)"
    using same_but_blocks_trans [OF t(7)] k(2) by (simp add: quota_ok_def)
  moreover have "b_ind sb1 = b_ind sb0" using f(5) t(6) by (simp add: same_files_def)
  ultimately have "taken sb0 ino0 (A \<union> set bs) sb1 (k_dquot_free_block k ino 1)" using f(2) t(2) by (auto simp: taken_def)
  from Cons.IH [OF this] f(1) Cons.prems(2,3) show ?case by simp
qed simp

text \<open>
  The loop gets the indirect blocks and at least one data block, or gives back what it got.
\<close>

lemma alloc_blocks_loop_taken:
  assumes k: "io_ok k" "quota_ok k" and blks: "1 \<le> blks" "blks \<le> 65536" "ind \<le> 3"
  shows "taken sb0 ino0 (set got) sb ino \<Longrightarrow> distinct got \<Longrightarrow> length got \<le> ind \<Longrightarrow> windowless sb0 ino0 \<Longrightarrow>
    (\<exists>e sb' ino'. alloc_blocks_loop k sb ino goal (blks + int (ind - length got)) ind got = Some (Inl e, sb', ino') \<and>
       taken sb0 ino0 {} sb' ino') \<or>
    (\<exists>inds first num sb' ino'. alloc_blocks_loop k sb ino goal (blks + int (ind - length got)) ind got = Some (Inr (inds, first, num), sb', ino') \<and>
       length inds = ind \<and> distinct inds \<and> 1 \<le> num \<and> num \<le> blks \<and> set inds \<inter> {first..<first + num} = {} \<and>
       taken sb0 ino0 (set inds \<union> {first..<first + num}) sb' ino')"
proof (induction "ind - length got" arbitrary: got sb ino rule: less_induct)
  case less
  let ?t = "blks + int (ind - length got)"
  have t: "u64 ?t = ?t" "1 \<le> ?t" "?t \<le> 268435456" using blks by (auto intro!: u64_id)
  note w = taken_window [OF less.prems(1,4)]
  have ok: "fs_ok sb" using less.prems(1) by (simp add: taken_def)
  show ?case
  proof (cases rule: kr_new_blocks_taken [OF k ok w t(2,3), of goal, case_names none some])
    case (none e sb' ino')
    have "taken sb0 ino0 (set got) sb' ino'" using taken_trans [OF less.prems(1) none(2)] by simp
    then obtain sb2 ino2 where "free_each k got sb' ino' = Some (sb2, ino2)" "taken sb0 ino0 {} sb2 ino2"
      using free_each_taken [OF k, of sb0 ino0 "{}" got sb' ino'] less.prems(2) by auto
    then show ?thesis using none(1) by (intro disjI1) (simp add: alloc_blocks_loop.simps [of k sb] t(1))
  next
    case (some b n sb' ino')
    define fill where "fill = min (ind - length got) (nat n)"
    define got1 where "got1 = got @ map (\<lambda>i. b + int i) [0..<fill]"
    have tk: "taken sb0 ino0 (set got \<union> {b..<b + n}) sb' ino'" by (rule taken_trans [OF less.prems(1) some(4)])
    have disj: "set got \<inter> {b..<b + n} = {}" using some(4) less.prems(1) by (auto simp: taken_def)
    have fn: "int fill \<le> n" using some(2) by (auto simp: fill_def)
    have run: "(\<lambda>i. b + int i) ` {0..<fill} = {b..<b + int fill}"
    proof (intro equalityI subsetI)
      fix x assume "x \<in> {b..<b + int fill}"
      then show "x \<in> (\<lambda>i. b + int i) ` {0..<fill}" by (intro image_eqI [of _ _ "nat (x - b)"]) auto
    qed auto
    have g1: "set got1 = set got \<union> {b..<b + int fill}" "length got1 = length got + fill" "distinct got1" "length got1 \<le> ind"
    proof -
      show "set got1 = set got \<union> {b..<b + int fill}" by (simp add: got1_def run)
      show "length got1 = length got + fill" "length got1 \<le> ind" using less.prems(3) by (simp_all add: got1_def fill_def)
      have "inj_on (\<lambda>i. b + int i) {0..<fill}" by (simp add: inj_on_def)
      then show "distinct got1" using less.prems(2) disj fn run by (auto simp: got1_def distinct_map)
    qed
    have eq: "alloc_blocks_loop k sb ino goal ?t ind got =
        (if 0 < n - int fill then Some (Inr (got1, b + int fill, s32 (n - int fill)), sb', ino')
         else alloc_blocks_loop k sb' ino' goal (s32 (?t - n)) ind got1)"
      by (subst alloc_blocks_loop.simps) (simp add: t(1) some(1) Let_def fill_def [symmetric] got1_def [symmetric])
    show ?thesis
    proof (cases "0 < n - int fill")
      case True
      then have f: "fill = ind - length got" by (auto simp: fill_def min_def split: if_splits)
      have num: "n - int fill \<le> blks" using some(3) f by simp
      have s: "s32 (n - int fill) = n - int fill" using True num blks(2) by (intro s32_id) auto
      have un: "set got \<union> {b..<b + n} = set got1 \<union> {b + int fill..<b + int fill + (n - int fill)}" using fn by (auto simp: g1(1))
      have "set got1 \<inter> {b + int fill..<b + int fill + (n - int fill)} = {}" using disj by (auto simp: g1(1))
      moreover have "length got1 = ind" using f g1(2) less.prems(3) by simp
      ultimately show ?thesis using True eq s g1(3) num tk unfolding un by (intro disjI2) auto
    next
      case False
      then have f: "int fill = n" using fn by simp
      then have "0 < fill" using some(2) by simp
      then have lt: "ind - length got1 < ind - length got" using g1(2,4) by simp
      have m: "?t - n = blks + int (ind - length got1)" using f g1(2,4) less.prems(3) by (simp add: of_nat_diff)
      have s: "s32 (blks + int (ind - length got1)) = blks + int (ind - length got1)" using blks by (intro s32_id) auto
      have e: "alloc_blocks_loop k sb ino goal ?t ind got = alloc_blocks_loop k sb' ino' goal (blks + int (ind - length got1)) ind got1"
        unfolding eq if_not_P [OF False] m s ..
      have tk1: "taken sb0 ino0 (set got1) sb' ino'" using tk unfolding g1(1) f .
      show ?thesis unfolding e by (rule less.hyps [OF lt tk1 g1(3,4) less.prems(4)])
    qed
  qed
qed

lemma kr_alloc_blocks_taken:
  assumes k: "io_ok k" "quota_ok k" and ok: "fs_ok sb" "windowless sb ino" and blks: "1 \<le> blks" "blks \<le> 65536" "ind \<le> 3"
  obtains (none) e sb' ino' where "kr_alloc_blocks k sb ino goal ind blks = Some (Inl e, sb', ino')" "taken sb ino {} sb' ino'"
  | (some) inds first num sb' ino' where "kr_alloc_blocks k sb ino goal ind blks = Some (Inr (inds, first, num), sb', ino')"
      "length inds = ind" "distinct inds" "1 \<le> num" "num \<le> blks" "set inds \<inter> {first..<first + num} = {}"
      "taken sb ino (set inds \<union> {first..<first + num}) sb' ino'"
proof -
  have "s32 (blks + int ind) = blks + int ind" using blks by (intro s32_id) auto
  then show ?thesis
    using alloc_blocks_loop_taken [OF k blks, of sb ino "[]" sb ino goal] taken_refl [OF ok(1)] ok(2) none some
    by (auto simp: kr_alloc_blocks_def)
qed

section \<open>The new branch\<close>

lemma write_entries_ok:
  assumes "0 \<le> off" "off + int (length vs) \<le> int (length xs)"
  shows "\<exists>ys. write_entries xs off vs = Some ys \<and> length ys = length xs \<and>
    (\<forall>x. 0 \<le> x \<longrightarrow> ys ! nat x = (if off \<le> x \<and> x < off + int (length vs) then vs ! nat (x - off) else xs ! nat x))"
  using assms
proof (induction vs arbitrary: xs off)
  case (Cons v vs)
  have s: "set_entry xs off v = Some (xs[nat off := v])" using Cons.prems by (simp add: set_entry_def)
  obtain ys where y: "write_entries (xs[nat off := v]) (off + 1) vs = Some ys" "length ys = length xs"
      "\<And>x. 0 \<le> x \<Longrightarrow> ys ! nat x = (if off + 1 \<le> x \<and> x < off + 1 + int (length vs) then vs ! nat (x - (off + 1)) else xs[nat off := v] ! nat x)"
    using Cons.IH [of "off + 1" "xs[nat off := v]"] Cons.prems by auto
  have "ys ! nat x = (if off \<le> x \<and> x < off + int (length (v # vs)) then (v # vs) ! nat (x - off) else xs ! nat x)" if x: "0 \<le> x" for x
  proof -
    consider "x = off" | "off < x" | "x < off" by linarith
    then show ?thesis
    proof cases
      case 1
      then show ?thesis using y(3) [OF x] Cons.prems by simp
    next
      case 2
      then have "nat (x - off) = Suc (nat (x - (off + 1)))" by linarith
      then show ?thesis using 2 y(3) [OF x] Cons.prems by auto
    next
      case 3
      then show ?thesis using y(3) [OF x] x by auto
    qed
  qed
  then show ?case using s y(1,2) by auto
qed auto

text \<open>
  The entries of the new indirect block \<open>i\<close>: the next one, or the data blocks.
\<close>

definition fresh_entry :: "int list \<Rightarrow> int list \<Rightarrow> int \<Rightarrow> int \<Rightarrow> nat \<Rightarrow> int \<Rightarrow> 32 word" where
  "fresh_entry inds offs first num i x =
     (if Suc i < length inds then (if x = offs ! i then word_of_int (inds ! Suc i) else 0)
      else if offs ! i \<le> x \<and> x < offs ! i + num then word_of_int (first + (x - offs ! i)) else 0)"

lemma init_branch_ok:
  assumes k: "io_ok k"
  shows "length offs = length inds \<Longrightarrow> \<forall>x \<in> set offs. 0 \<le> x \<and> x < KR_ADDR_PER_BLOCK sb \<Longrightarrow> 1 \<le> num \<Longrightarrow>
    (inds \<noteq> [] \<Longrightarrow> last offs + num \<le> KR_ADDR_PER_BLOCK sb) \<Longrightarrow> distinct inds \<Longrightarrow>
    \<exists>cs f. init_branch k sb inds offs first num = Some (Inr cs, sb\<lparr>b_ind := f\<rparr>) \<and> (\<forall>b. b \<notin> set inds \<longrightarrow> f b = b_ind sb b) \<and>
      (\<forall>i < length inds. int (length (f (inds ! i))) = KR_ADDR_PER_BLOCK sb \<and>
         (\<forall>x. 0 \<le> x \<and> x < KR_ADDR_PER_BLOCK sb \<longrightarrow> f (inds ! i) ! nat x = fresh_entry inds offs first num i x)) \<and>
      length cs = length inds \<and> (inds \<noteq> [] \<longrightarrow> ind_key (last cs) = word_of_int first)"
proof (induction inds arbitrary: offs sb)
  case Nil
  have "sb = sb\<lparr>b_ind := b_ind sb\<rparr>" by simp
  then show ?case by (intro exI [of _ "[]"] exI [of _ "b_ind sb"]) simp
next
  case (Cons b bs)
  obtain off offs' where o: "offs = off # offs'" using Cons.prems(1) by (cases offs) auto
  define key where "key = (word_of_int (case bs of [] \<Rightarrow> first | b' # _ \<Rightarrow> b') :: 32 word)"
  define vals where "vals = (case bs of [] \<Rightarrow> map (\<lambda>i. word_of_int (first + int i)) [0..<max 1 (nat num)] | _ \<Rightarrow> [key])"
  let ?p = "KR_ADDR_PER_BLOCK sb"
  have off: "0 \<le> off" "off < ?p" using Cons.prems(2) o by auto
  have "offs' = []" if "bs = []" using that Cons.prems(1) o by simp
  then have len: "off + int (length vals) \<le> ?p"
    using Cons.prems(3,4) off o by (cases bs) (auto simp: vals_def)
  obtain ys where y: "write_entries (replicate (nat ?p) 0) off vals = Some ys" "length ys = nat ?p"
      "\<And>x. 0 \<le> x \<Longrightarrow> ys ! nat x = (if off \<le> x \<and> x < off + int (length vals) then vals ! nat (x - off) else replicate (nat ?p) 0 ! nat x)"
    using write_entries_ok [of off vals "replicate (nat ?p) 0"] off len by auto
  let ?sb = "sb\<lparr>b_ind := (b_ind sb)(b := ys)\<rparr>"
  have p: "KR_ADDR_PER_BLOCK ?sb = ?p" by (simp add: KR_ADDR_PER_BLOCK_def)
  have lo: "last offs' + num \<le> ?p" if "bs \<noteq> []"
    using Cons.prems(1,4) that o by (cases offs') auto
  have "length offs' = length bs" "\<forall>x \<in> set offs'. 0 \<le> x \<and> x < ?p" "distinct bs" using Cons.prems(1,2,5) o by simp_all
  then have "\<exists>cs f. init_branch k ?sb bs offs' first num = Some (Inr cs, ?sb\<lparr>b_ind := f\<rparr>) \<and> (\<forall>b. b \<notin> set bs \<longrightarrow> f b = b_ind ?sb b) \<and>
    (\<forall>i < length bs. int (length (f (bs ! i))) = ?p \<and>
       (\<forall>x. 0 \<le> x \<and> x < ?p \<longrightarrow> f (bs ! i) ! nat x = fresh_entry bs offs' first num i x)) \<and>
    length cs = length bs \<and> (bs \<noteq> [] \<longrightarrow> ind_key (last cs) = word_of_int first)"
    using Cons.IH [of offs' ?sb, unfolded p] Cons.prems(3) lo by blast
  then obtain cs f where r: "init_branch k ?sb bs offs' first num = Some (Inr cs, ?sb\<lparr>b_ind := f\<rparr>)"
      "\<forall>c. c \<notin> set bs \<longrightarrow> f c = b_ind ?sb c"
      "\<forall>i < length bs. int (length (f (bs ! i))) = ?p \<and>
         (\<forall>x. 0 \<le> x \<and> x < ?p \<longrightarrow> f (bs ! i) ! nat x = fresh_entry bs offs' first num i x)"
      "length cs = length bs" "bs \<noteq> [] \<longrightarrow> ind_key (last cs) = word_of_int first"
    by blast
  have fb: "f b = ys" using r(2) [rule_format, of b] Cons.prems(5) by simp
  have head: "ys ! nat x = fresh_entry (b # bs) offs first num 0 x" if x: "0 \<le> x" "x < ?p" for x
  proof (cases bs)
    case Nil
    then have "vals ! nat (x - off) = word_of_int (first + (x - off))" if "off \<le> x" "x < off + num"
      using that by (simp add: vals_def)
    then show ?thesis using y(3) [OF x(1)] x Nil Cons.prems(3) o by (auto simp: fresh_entry_def vals_def)
  next
    case (Cons b' bs')
    then show ?thesis using y(3) [OF x(1)] x o by (auto simp: fresh_entry_def vals_def key_def)
  qed
  have ent: "int (length (f ((b # bs) ! i))) = ?p \<and> (\<forall>x. 0 \<le> x \<and> x < ?p \<longrightarrow> f ((b # bs) ! i) ! nat x = fresh_entry (b # bs) offs first num i x)"
    if i: "i < length (b # bs)" for i
  proof (cases i)
    case 0
    then show ?thesis using fb head y(2) off by simp
  next
    case (Suc j)
    then show ?thesis using r(3) [rule_format, of j] i by (simp add: fresh_entry_def o)
  qed
  have "init_branch k sb (b # bs) offs first num =
      Some (Inr (\<lparr>ind_p = BlockSlot b off, ind_key = key, ind_bh = Some b\<rparr> # cs), sb\<lparr>b_ind := f\<rparr>)"
    using k y(1) r(1) by (simp add: o io_ok_def Let_def key_def [symmetric] vals_def [symmetric])
  moreover have "f c = b_ind sb c" if "c \<notin> set (b # bs)" for c using r(2) [rule_format, of c] that by simp
  moreover have "ind_key (last (\<lparr>ind_p = BlockSlot b off, ind_key = key, ind_bh = Some b\<rparr> # cs)) = word_of_int first"
    using r(4,5) by (cases bs) (auto simp: key_def)
  ultimately show ?case using ent r(4) by (intro exI [of _ "\<lparr>ind_p = BlockSlot b off, ind_key = key, ind_bh = Some b\<rparr> # cs"] exI [of _ f] conjI allI impI) simp_all
qed

section \<open>Splicing\<close>

text \<open>Consecutive pointers get consecutive block numbers.\<close>

definition written :: "super_block \<Rightarrow> inode \<Rightarrow> slot \<Rightarrow> int \<Rightarrow> int \<Rightarrow> super_block \<Rightarrow> inode \<Rightarrow> bool" where
  "written sb ino p n b sb' ino' =
     ((\<exists>f. sb' = sb\<lparr>b_ind := f\<rparr>) \<and> (\<exists>d. ino' = ino\<lparr>i_data := d\<rparr>) \<and>
      (\<forall>x. length (b_ind sb' x) = length (b_ind sb x)) \<and> length (i_data ino') = length (i_data ino) \<and>
      (\<forall>j. 0 \<le> j \<and> j < n \<longrightarrow> read_slot sb' ino' (slot_add p j) = Some (word_of_int (b + j))) \<and>
      (\<forall>s. (\<forall>j. 0 \<le> j \<and> j < n \<longrightarrow> s \<noteq> slot_add p j) \<longrightarrow> read_slot sb' ino' s = read_slot sb ino s))"

lemma slot_add_add [simp]: "slot_add (slot_add p i) j = slot_add p (i + j)" "slot_add p i = slot_add p j \<longleftrightarrow> i = j" "slot_add p 0 = p"
  by (cases p; simp)+

lemma write_slot_frame:
  assumes "write_slot sb ino s v = Some (sb', ino')"
  shows "\<exists>f. sb' = sb\<lparr>b_ind := f\<rparr>" "\<exists>d. ino' = ino\<lparr>i_data := d\<rparr>" "length (b_ind sb' x) = length (b_ind sb x)"
    "length (i_data ino') = length (i_data ino)"
proof -
  have "(\<exists>f. sb' = sb\<lparr>b_ind := f\<rparr>) \<and> (\<exists>d. ino' = ino\<lparr>i_data := d\<rparr>) \<and> (\<forall>x. length (b_ind sb' x) = length (b_ind sb x)) \<and>
      length (i_data ino') = length (i_data ino)"
  proof (cases s)
    case (InodeSlot i)
    then obtain d where "sb' = sb" "ino' = ino\<lparr>i_data := d\<rparr>" "length d = length (i_data ino)"
      using assms by (auto simp: bind_eq_Some_conv set_entry_def split: if_splits)
    then show ?thesis using exI [of "\<lambda>f. sb = sb\<lparr>b_ind := f\<rparr>" "b_ind sb"] by auto
  next
    case (BlockSlot b i)
    then obtain d where "ino' = ino" "sb' = sb\<lparr>b_ind := (b_ind sb)(b := d)\<rparr>" "length d = length (b_ind sb b)"
      using assms by (auto simp: bind_eq_Some_conv set_entry_def split: if_splits)
    then show ?thesis using exI [of "\<lambda>d. ino = ino\<lparr>i_data := d\<rparr>" "i_data ino"] by auto
  qed
  then show "\<exists>f. sb' = sb\<lparr>b_ind := f\<rparr>" "\<exists>d. ino' = ino\<lparr>i_data := d\<rparr>" "length (b_ind sb' x) = length (b_ind sb x)"
    "length (i_data ino') = length (i_data ino)" by blast+
qed

lemma splice_rest_written:
  assumes "written sb ino p i b sb1 ino1" "0 \<le> i" "\<And>j. 0 \<le> j \<Longrightarrow> j < i + int n \<Longrightarrow> valid_slot sb ino (slot_add p j)"
  shows "\<exists>sb' ino'. splice_rest sb1 ino1 p n i (b + i) = Some (sb', ino') \<and> written sb ino p (i + int n) b sb' ino'"
  using assms
proof (induction n arbitrary: i sb1 ino1)
  case (Suc n)
  note w = Suc.prems(1) [unfolded written_def]
  have old: "(\<And>j. 0 \<le> j \<Longrightarrow> j < i \<Longrightarrow> s \<noteq> slot_add p j) \<Longrightarrow> read_slot sb1 ino1 s = read_slot sb ino s" for s using w by blast
  have new: "0 \<le> j \<Longrightarrow> j < i \<Longrightarrow> read_slot sb1 ino1 (slot_add p j) = Some (word_of_int (b + j))" for j using w by blast
  have v: "valid_slot sb1 ino1 (slot_add p i)"
    using old [of "slot_add p i"] Suc.prems(2) Suc.prems(3) [of i] by (simp add: valid_slot_def)
  obtain sb2 ino2 where s: "write_slot sb1 ino1 (slot_add p i) (word_of_int (b + i)) = Some (sb2, ino2)"
    using write_slot_valid [OF v] by blast
  note f = write_slot_frame [OF s] and rd = read_write_slot [OF s]
  have "written sb ino p (i + 1) b sb2 ino2"
    unfolding written_def
  proof (intro conjI allI impI)
    show "\<exists>f. sb2 = sb\<lparr>b_ind := f\<rparr>" "\<exists>d. ino2 = ino\<lparr>i_data := d\<rparr>" using w f(1,2) by auto
    show "length (b_ind sb2 x) = length (b_ind sb x)" "length (i_data ino2) = length (i_data ino)" for x using w f(3,4) by simp_all
    show "read_slot sb2 ino2 (slot_add p j) = Some (word_of_int (b + j))" if "0 \<le> j \<and> j < i + 1" for j
      unfolding rd using new that by simp
    show "read_slot sb2 ino2 s = read_slot sb ino s" if "\<forall>j. 0 \<le> j \<and> j < i + 1 \<longrightarrow> s \<noteq> slot_add p j" for s
    proof -
      have "s \<noteq> slot_add p i" using that Suc.prems(2) by simp
      moreover have "read_slot sb1 ino1 s = read_slot sb ino s" using old [of s] that by simp
      ultimately show ?thesis unfolding rd by simp
    qed
  qed
  from Suc.IH [OF this] Suc.prems(2,3) s show ?case by (simp add: algebra_simps)
qed simp

section \<open>The pointers of the grown file\<close>

text \<open>
  The new blocks along the path \<open>q\<close>, whose first absent pointer is the one at level \<open>l\<close>: indirect
  blocks from there on, and at the end the data blocks.
\<close>

definition fresh_at :: "int list \<Rightarrow> nat \<Rightarrow> int list \<Rightarrow> int \<Rightarrow> int \<Rightarrow> int list \<Rightarrow> int option" where
  "fresh_at q l inds first num r =
     (if l \<le> length r \<and> length r < length q \<and> r = take (length r) q then Some (inds ! (length r - l))
      else if length r = length q \<and> butlast r = butlast q \<and> last q \<le> last r \<and> last r < last q + num
      then Some (first + (last r - last q)) else None)"

lemma take_snoc_eq: "r @ [j] = take (Suc (length r)) q \<Longrightarrow> length r < length q \<Longrightarrow> r = take (length r) q \<and> j = q ! length r"
  by (simp add: take_Suc_conv_app_nth)

lemma butlast_take_eq: "q \<noteq> [] \<Longrightarrow> butlast q = take (length q - 1) q"
  by (rule butlast_conv_take)

text \<open>A new block has its pointer in the slot that was absent, or in a new indirect block.\<close>

lemma fresh_snoc:
  assumes "1 \<le> l" "l \<le> length q" "length r < length q"
  shows "fresh_at q l inds first num (r @ [j]) =
    (if r = take (length r) q \<and> l \<le> Suc (length r) then
       if Suc (length r) < length q then (if j = q ! length r then Some (inds ! (Suc (length r) - l)) else None)
       else if last q \<le> j \<and> j < last q + num then Some (first + (j - last q)) else None
     else None)"
proof -
  have q: "q \<noteq> []" using assms by auto
  show ?thesis
  proof (cases "Suc (length r) < length q")
    case True
    then have "take (Suc (length r)) q = take (length r) q @ [q ! length r]" by (simp add: take_Suc_conv_app_nth)
    then show ?thesis using True by (auto simp: fresh_at_def)
  next
    case False
    then have l: "Suc (length r) = length q" using assms(3) by simp
    then have "butlast q = take (length r) q" by (simp add: butlast_conv_take flip: l)
    then show ?thesis using l assms(2) by (auto simp: fresh_at_def)
  qed
qed

lemma fresh_short: "length r < l \<Longrightarrow> l \<le> length q \<Longrightarrow> fresh_at q l inds first num r = None"
  by (simp add: fresh_at_def)

lemma shift_slot: "q \<noteq> [] \<Longrightarrow> slot_add (last_slot sb ino q) j = last_slot sb ino (butlast q @ [last q + j])"
proof -
  assume "q \<noteq> []"
  then show ?thesis by (cases q rule: rev_cases) (auto simp: last_slot_def)
qed

text \<open>What the file and the new blocks are before and after.\<close>

definition file_grows ::
  "super_block \<Rightarrow> inode \<Rightarrow> int list \<Rightarrow> nat \<Rightarrow> int list \<Rightarrow> int \<Rightarrow> int \<Rightarrow> super_block \<Rightarrow> inode \<Rightarrow> bool" where
  "file_grows sb ino q l inds first num sb' ino' =
     (tree_ok sb ino \<and> tree_ok sb' ino' \<and> KR_ADDR_PER_BLOCK sb' = KR_ADDR_PER_BLOCK sb \<and>
      1 \<le> l \<and> length inds = length q - l \<and> l \<le> length q \<and> 1 \<le> num \<and>
      inj_on (walk_path sb ino) (live sb ino) \<and> owned sb ino \<inter> set inds = {} \<and>
      (\<forall>b \<in> set inds. 0 < b \<and> b < 4294967296) \<and>
      path_ok (KR_ADDR_PER_BLOCK sb) q \<and>
      (\<forall>j. 0 \<le> j \<and> j < num \<longrightarrow> path_ok (KR_ADDR_PER_BLOCK sb) (butlast q @ [last q + j])) \<and>
      open_pos sb ino (take l q) \<and> walk_path sb ino (take l q) = 0 \<and>
      (let W = (if l < length q then 1 else num); p = last_slot sb ino (take l q) in
       (\<forall>j. 0 \<le> j \<and> j < W \<longrightarrow> read_slot sb' ino' (slot_add p j) = Some (word_of_int (hd (inds @ [first]) + j))) \<and>
       (\<forall>s. (\<forall>j. 0 \<le> j \<and> j < W \<longrightarrow> s \<noteq> slot_add p j) \<longrightarrow> (\<forall>b i. s = BlockSlot b i \<longrightarrow> b \<notin> set inds) \<longrightarrow>
          read_slot sb' ino' s = read_slot sb ino s)) \<and>
      (\<forall>i < length inds. \<forall>x. 0 \<le> x \<and> x < KR_ADDR_PER_BLOCK sb \<longrightarrow>
         b_ind sb' (inds ! i) ! nat x = fresh_entry inds (drop l q) first num i x))"

lemma open_pos_snoc: "open_pos sb ino (r @ [j]) \<Longrightarrow> r \<noteq> [] \<Longrightarrow> walk_path sb ino r \<noteq> 0"
  by (simp add: open_pos_def)

text \<open>The pointer at a position whose slot was there before.\<close>

lemma grows_slot:
  assumes g: "file_grows sb ino q l inds first num sb' ino'" and o: "open_pos sb ino (r @ [j])"
  shows "read_slot sb' ino' (last_slot sb ino (r @ [j])) =
     Some (case fresh_at q l inds first num (r @ [j]) of Some v \<Rightarrow> word_of_int v | None \<Rightarrow> walk_path sb ino (r @ [j]))"
proof -
  let ?W = "if l < length q then 1 else num" and ?p = "last_slot sb ino (take l q)"
  have G: "tree_ok sb ino" "1 \<le> l" "length inds = length q - l" "l \<le> length q" "1 \<le> num"
      "inj_on (walk_path sb ino) (live sb ino)" "owned sb ino \<inter> set inds = {}" "open_pos sb ino (take l q)"
    and W: "\<And>j. 0 \<le> j \<Longrightarrow> j < ?W \<Longrightarrow> read_slot sb' ino' (slot_add ?p j) = Some (word_of_int (hd (inds @ [first]) + j))"
    and U: "\<And>s. (\<And>j. 0 \<le> j \<Longrightarrow> j < ?W \<Longrightarrow> s \<noteq> slot_add ?p j) \<Longrightarrow> (\<And>b i. s = BlockSlot b i \<Longrightarrow> b \<notin> set inds) \<Longrightarrow>
          read_slot sb' ino' s = read_slot sb ino s"
    using g unfolding file_grows_def Let_def by blast+
  have P: "path_ok (KR_ADDR_PER_BLOCK sb) (butlast q @ [last q + j])" if "0 \<le> j" "j < num" for j
    using g that unfolding file_grows_def by blast
  have p16: "16 \<le> KR_ADDR_PER_BLOCK sb" using addr_okD(2) G(1) by (simp add: tree_ok_def)
  have tl: "take l q \<noteq> []" using G(2,4) by auto
  have par: "butlast (take l q) = take (l - 1) q" "last (take l q) = q ! (l - 1)"
    using G(2,4) tl by (simp_all add: butlast_take last_conv_nth min_absorb2)
  have written: "\<exists>i. 0 \<le> i \<and> i < ?W \<and> r = take (l - 1) q \<and> j = q ! (l - 1) + i"
    if s: "last_slot sb ino (r @ [j]) = slot_add ?p i" "0 \<le> i" "i < ?W" for i
  proof -
    have e: "slot_add ?p i = last_slot sb ino (take (l - 1) q @ [q ! (l - 1) + i])" using shift_slot [OF tl] par by simp
    have "open_pos sb ino (take (l - 1) q @ [q ! (l - 1) + i])"
    proof (cases "l < length q")
      case True
      then have "i = 0" using s by simp
      then have "take (l - 1) q @ [q ! (l - 1) + i] = take l q" using G(2,4) by (cases l) (auto simp: take_Suc_conv_app_nth)
      then show ?thesis using G(8) by simp
    next
      case False
      then have l: "l = length q" using G(4) by simp
      then have "q \<noteq> []" using G(2) by auto
      then have q: "take (l - 1) q = butlast q" "q ! (l - 1) = last q" "q \<noteq> []" using l by (simp_all add: butlast_conv_take last_conv_nth)
      have "butlast q @ [last q + i] \<in> positions (KR_ADDR_PER_BLOCK sb)" using P [of i] s False path_ok_iff [OF p16] by simp
      then show ?thesis using G(8) q by (auto simp: open_pos_def l)
    qed
    then have "r @ [j] = take (l - 1) q @ [q ! (l - 1) + i]" using last_slot_inj [OF G(6) o] s(1) e by simp
    then show ?thesis using s(2,3) by auto
  qed
  have lr: "length r < length q" if "r = take (l - 1) q" using that G(2,4) by simp
  show ?thesis
  proof (cases "\<exists>i. 0 \<le> i \<and> i < ?W \<and> last_slot sb ino (r @ [j]) = slot_add ?p i")
    case True
    then obtain i where i: "0 \<le> i" "i < ?W" "last_slot sb ino (r @ [j]) = slot_add ?p i" by blast
    then have r: "r = take (l - 1) q" "length r = l - 1" using written G(2,4) by fastforce+
    obtain i' where "j = q ! (l - 1) + i'" "0 \<le> i'" "i' < ?W" using written [OF i(3,1,2)] by blast
    moreover have "slot_add ?p i' = slot_add ?p i"
      using i(3) calculation r shift_slot [OF tl, of sb ino i'] par by simp
    ultimately have j: "j = q ! (l - 1) + i" by simp
    have "fresh_at q l inds first num (r @ [j]) = Some (hd (inds @ [first]) + i)"
    proof (cases "l < length q")
      case True
      then have "inds \<noteq> []" "i = 0" using G(3) i by auto
      moreover have "hd (inds @ [first]) = inds ! 0" using \<open>inds \<noteq> []\<close> by (simp add: hd_append hd_conv_nth)
      ultimately show ?thesis using True G(2) r j by (subst fresh_snoc) auto
    next
      case False
      then have l: "l = length q" using G(4) by simp
      moreover have "last q = q ! (l - 1)" using tl l by (simp add: last_conv_nth)
      moreover have "inds = []" using G(3) l by simp
      ultimately show ?thesis using G(2) r j i False by (subst fresh_snoc) auto
    qed
    then show ?thesis using W [OF i(1,2)] i(3) by simp
  next
    case False
    have "b \<notin> set inds" if "last_slot sb ino (r @ [j]) = BlockSlot b i" for b i
    proof -
      have "r \<noteq> []" using that by auto
      then have "r \<in> live sb ino" "b = uint (walk_path sb ino r)" using open_pos_live [OF o] that by (simp_all add: last_slot_snoc)
      then show ?thesis using G(7) by (auto simp: owned_def)
    qed
    then have "read_slot sb' ino' (last_slot sb ino (r @ [j])) = Some (walk_path sb ino (r @ [j]))"
      using U [of "last_slot sb ino (r @ [j])"] False read_last_slot [OF G(1) o] by auto
    moreover have "fresh_at q l inds first num (r @ [j]) = None"
    proof (rule ccontr)
      assume "fresh_at q l inds first num (r @ [j]) \<noteq> None"
      then obtain v where v: "fresh_at q l inds first num (r @ [j]) = Some v" by blast
      have lt: "length r < length q" using v by (rule contrapos_pp) (simp add: fresh_at_def)
      note f = v [unfolded fresh_snoc [OF G(2,4) lt]]
      have r: "r = take (length r) q" "l \<le> Suc (length r)" using f by (auto split: if_splits)
      have "\<not> l \<le> length r"
      proof
        assume l: "l \<le> length r"
        then have "take l r = take l q" "r \<noteq> []" using r(1) G(2) by (metis min.absorb1 take_take, auto)
        then have "walk_path sb ino r = 0" using walk_take_0 [of l r] g G(2) unfolding file_grows_def by simp
        then show False using open_pos_snoc [OF o \<open>r \<noteq> []\<close>] by simp
      qed
      then have "length r = l - 1" using r(2) by simp
      then have l: "length r = l - 1" "r = take (l - 1) q" using r(1) by simp_all
      define i where "i = j - q ! (l - 1)"
      have "0 \<le> i \<and> i < ?W"
      proof (cases "l < length q")
        case True
        then show ?thesis using f r l G(2) by (auto simp: i_def split: if_splits)
      next
        case False
        then have "l = length q" using G(4) by simp
        then have "last q = q ! (l - 1)" using tl by (simp add: last_conv_nth)
        moreover have ns: "\<not> Suc (length r) < length q" using \<open>l = length q\<close> l(1) G(2) by simp
        moreover have "last q \<le> j \<and> j < last q + num" using f unfolding if_not_P [OF ns] by (metis option.distinct(1))
        ultimately show ?thesis using False by (simp add: i_def)
      qed
      moreover have "last_slot sb ino (r @ [j]) = slot_add ?p i" using shift_slot [OF tl, of sb ino i] par l by (simp add: i_def)
      ultimately show False using False by blast
    qed
    ultimately show ?thesis by simp
  qed
qed

lemma grows_walk:
  assumes g: "file_grows sb ino q l inds first num sb' ino'"
  shows "r \<in> positions (KR_ADDR_PER_BLOCK sb) \<Longrightarrow> walk_path sb' ino' r =
     (case fresh_at q l inds first num r of Some v \<Rightarrow> word_of_int v | None \<Rightarrow> walk_path sb ino r)"
proof (induction r rule: rev_induct)
  case Nil
  then show ?case by (simp add: positions_def)
next
  case (snoc j r)
  have G: "tree_ok sb' ino'" "1 \<le> l" "length inds = length q - l" "l \<le> length q" "KR_ADDR_PER_BLOCK sb' = KR_ADDR_PER_BLOCK sb"
    "\<forall>b \<in> set inds. 0 < b \<and> b < 4294967296" "walk_path sb ino (take l q) = 0" "tree_ok sb ino" "path_ok (KR_ADDR_PER_BLOCK sb) q"
    using g unfolding file_grows_def by blast+
  have E: "b_ind sb' (inds ! i) ! nat x = fresh_entry inds (drop l q) first num i x"
    if "i < length inds" "0 \<le> x" "x < KR_ADDR_PER_BLOCK sb" for i x using g that unfolding file_grows_def by blast
  have P: "path_ok (KR_ADDR_PER_BLOCK sb) (butlast q @ [last q + j])" if "0 \<le> j" "j < num" for j
    using g that unfolding file_grows_def by blast
  have p16: "16 \<le> KR_ADDR_PER_BLOCK sb" using addr_okD(2) G(8) by (simp add: tree_ok_def)
  show ?case
  proof (cases "r = []")
    case True
    have "open_pos sb ino [j]" "open_pos sb' ino' [j]" using snoc.prems True G(5) by (simp_all add: open_pos_def)
    then show ?thesis unfolding True append_Nil using grows_slot [OF g, of "[]" j] read_last_slot [OF G(1), of "[j]"]
      by (simp cong: option.case_cong)
  next
    case False
    have rp: "r \<in> positions (KR_ADDR_PER_BLOCK sb)" using positions_prefix [OF snoc.prems False] .
    note IH = snoc.IH [OF rp]
    have jp: "0 \<le> j" "j < KR_ADDR_PER_BLOCK sb" "length r < Suc (tree_depth (hd r))"
      using snoc.prems positions_append [OF False, of "[j]"] by auto
    show ?thesis
    proof (cases "fresh_at q l inds first num r")
      case None
      then have w: "walk_path sb' ino' r = walk_path sb ino r" using IH by simp
      show ?thesis
      proof (cases "walk_path sb ino r = 0")
        case True
        have "fresh_at q l inds first num (r @ [j]) = None"
        proof (rule ccontr)
          assume "fresh_at q l inds first num (r @ [j]) \<noteq> None"
          then obtain v where v: "fresh_at q l inds first num (r @ [j]) = Some v" by blast
          have lt: "length r < length q" using v by (rule contrapos_pp) (simp add: fresh_at_def)
          have r: "r = take (length r) q" "l \<le> Suc (length r)" using v unfolding fresh_snoc [OF G(2,4) lt] by (auto split: if_splits)
          have "\<not> l \<le> length r" using None r(1) lt by (auto simp: fresh_at_def)
          then have "take l q = r @ [q ! length r]" using r lt by (simp add: le_Suc_eq take_Suc_conv_app_nth)
          moreover have "open_pos sb ino (take l q)" using g unfolding file_grows_def by blast
          ultimately show False using open_pos_snoc [of sb ino r] False True by simp
        qed
        then show ?thesis using True w by (simp add: walk_path_append [OF False])
      next
        case nz: False
        have o: "open_pos sb ino (r @ [j])" "open_pos sb' ino' (r @ [j])" using snoc.prems nz w G(5) by (simp_all add: open_pos_def)
        have "last_slot sb' ino' (r @ [j]) = last_slot sb ino (r @ [j])" using w False by (simp add: last_slot_snoc)
        then show ?thesis using read_last_slot [OF G(1) o(2)] grows_slot [OF g o(1)] by simp
      qed
    next
      case (Some v)
      have lt: "length r < length q"
      proof (rule ccontr)
        assume "\<not> ?thesis"
        then have s: "length r = length q" "butlast r = butlast q" "0 \<le> last r - last q" "last r - last q < num"
          using Some by (auto simp: fresh_at_def split: if_splits)
        have "butlast q @ [last q + (last r - last q)] = r" using s(2) False by (simp flip: s(2))
        then show False using P [OF s(3,4)] path_ok_iff [OF p16] jp(3) by simp
      qed
      then have r: "r = take (length r) q" "l \<le> length r" "v = inds ! (length r - l)" using Some by (auto simp: fresh_at_def split: if_splits)
      define i where "i = length r - l"
      have i: "i < length inds" "length r = l + i" using lt r(2) G(3) by (auto simp: i_def)
      have v: "0 < v" "v < 4294967296" using G(6) i(1) r(3) nth_mem [OF i(1)] by (auto simp: i_def)
      have uv: "uint (word_of_int v :: 32 word) = v" using v by (simp add: uint_word_of_int_eq take_bit_int_eq_self)
      then have nz: "(word_of_int v :: 32 word) \<noteq> 0" using v(1) uv by auto
      have "walk_path sb' ino' (r @ [j]) = fresh_entry inds (drop l q) first num i j"
        unfolding walk_path_append [OF False] using IH Some nz uv E [OF i(1) jp(1,2)] r(3) by (simp add: i_def)
      moreover have "walk_path sb ino (r @ [j]) = 0"
      proof -
        have "take l (r @ [j]) = take l q" using r(1,2) by (metis append_is_Nil_conv min.absorb1 take_append take_take diff_is_0_eq' take_0 append_Nil2)
        then show ?thesis using walk_take_0 [of l "r @ [j]"] G(2,7) by simp
      qed
      moreover have "drop l q ! i = q ! length r" "Suc i < length inds \<longleftrightarrow> Suc (length r) < length q" "Suc (length r) - l = Suc i"
        using i G(3,4) lt by auto
      moreover have "last q = q ! length r" if "\<not> Suc (length r) < length q"
      proof -
        have "length r = length q - 1" "q \<noteq> []" using that lt by auto
        then show ?thesis by (simp add: last_conv_nth)
      qed
      ultimately show ?thesis
        unfolding fresh_snoc [OF G(2,4) lt] fresh_entry_def using r(1,2) by (auto simp: le_SucI)
    qed
  qed
qed

section \<open>The grown file\<close>

lemma word32_inj: "0 \<le> a \<Longrightarrow> a < 4294967296 \<Longrightarrow> uint (word_of_int a :: 32 word) = a"
  by (simp add: uint_word_of_int_eq take_bit_int_eq_self)

lemma fresh_cases:
  assumes "fresh_at q l inds first num r = Some v" "length inds = length q - l" "l \<le> length q"
  obtains (ind) i where "i < length inds" "r = take (l + i) q" "length r = l + i" "v = inds ! i"
  | (data) j where "0 \<le> j" "j < num" "length r = length q" "r = [] \<or> r = butlast q @ [last q + j]" "v = first + j"
proof (cases "l \<le> length r \<and> length r < length q \<and> r = take (length r) q")
  case True
  then show ?thesis using assms by (intro ind [of "length r - l"]) (auto simp: fresh_at_def)
next
  case False
  then have "length r = length q" "butlast r = butlast q" "last q \<le> last r" "last r < last q + num" "v = first + (last r - last q)"
    using assms(1) by (auto simp: fresh_at_def split: if_splits)
  moreover from this have "r = [] \<or> r = butlast q @ [last q + (last r - last q)]" using append_butlast_last_id [of r] by (metis add.commute diff_add_cancel)
  ultimately show ?thesis by (intro data [of "last r - last q"]) auto
qed

lemma fresh_ind: "i < length inds \<Longrightarrow> length inds = length q - l \<Longrightarrow> fresh_at q l inds first num (take (l + i) q) = Some (inds ! i)"
  by (auto simp: fresh_at_def)

lemma fresh_data: "0 \<le> j \<Longrightarrow> j < num \<Longrightarrow> q \<noteq> [] \<Longrightarrow> fresh_at q l inds first num (butlast q @ [last q + j]) = Some (first + j)"
  by (simp add: fresh_at_def)

text \<open>The numbers of the new blocks.\<close>

definition new_set :: "int list \<Rightarrow> int \<Rightarrow> int \<Rightarrow> int set" where
  "new_set inds first num = set inds \<union> {first..<first + num}"

lemma fresh_range:
  assumes g: "file_grows sb ino q l inds first num sb' ino'"
  shows "fresh_at q l inds first num r = Some v \<Longrightarrow> v \<in> new_set inds first num"
    "v \<in> new_set inds first num \<Longrightarrow> \<exists>r \<in> positions (KR_ADDR_PER_BLOCK sb). fresh_at q l inds first num r = Some v"
proof -
  have G: "1 \<le> l" "length inds = length q - l" "l \<le> length q" "tree_ok sb ino" "path_ok (KR_ADDR_PER_BLOCK sb) q"
    using g unfolding file_grows_def by blast+
  have P: "path_ok (KR_ADDR_PER_BLOCK sb) (butlast q @ [last q + j])" if "0 \<le> j" "j < num" for j
    using g that unfolding file_grows_def by blast
  have p16: "16 \<le> KR_ADDR_PER_BLOCK sb" using addr_okD(2) G(4) by (simp add: tree_ok_def)
  have q: "q \<noteq> []" "q \<in> positions (KR_ADDR_PER_BLOCK sb)" using G path_ok_iff [OF p16] by auto
  show "fresh_at q l inds first num r = Some v \<Longrightarrow> v \<in> new_set inds first num"
    by (erule fresh_cases [OF _ G(2,3)]) (auto simp: new_set_def)
  assume "v \<in> new_set inds first num"
  then consider "v \<in> set inds" | "first \<le> v" "v < first + num" by (auto simp: new_set_def)
  then show "\<exists>r \<in> positions (KR_ADDR_PER_BLOCK sb). fresh_at q l inds first num r = Some v"
  proof cases
    case 1
    then obtain i where "i < length inds" "v = inds ! i" by (auto simp: in_set_conv_nth)
    then show ?thesis using fresh_ind [OF _ G(2)] take_position [OF q(2), of "l + i"] G(1) by (intro bexI [of _ "take (l + i) q"]) auto
  next
    case 2
    then show ?thesis using fresh_data [of "v - first" num q] P [of "v - first"] path_ok_iff [OF p16] q(1)
      by (intro bexI [of _ "butlast q @ [last q + (v - first)]"]) auto
  qed
qed

lemma fresh_inj:
  assumes "fresh_at q l inds first num r = Some v" "fresh_at q l inds first num s = Some v"
    and "length inds = length q - l" "l \<le> length q" "1 \<le> l" "distinct inds" "set inds \<inter> {first..<first + num} = {}"
  shows "r = s"
  using assms(1)
proof (cases rule: fresh_cases [OF _ assms(3,4), consumes 1, case_names ind data])
  case (ind i)
  note i = this
  show ?thesis using assms(2)
  proof (cases rule: fresh_cases [OF _ assms(3,4), consumes 1, case_names ind data])
    case (ind i')
    then show ?thesis using i assms(6) by (simp add: nth_eq_iff_index_eq)
  next
    case (data j)
    have "inds ! i \<in> set inds" using i(1) by simp
    then show ?thesis using data i(4) assms(7) by auto
  qed
next
  case (data j)
  note j = this
  have ne: "q \<noteq> []" using assms(4,5) by auto
  show ?thesis using assms(2)
  proof (cases rule: fresh_cases [OF _ assms(3,4), consumes 1, case_names ind data])
    case (ind i')
    have "inds ! i' \<in> set inds" using ind(1) by simp
    then show ?thesis using j ind(4) assms(7) by auto
  next
    case (data j')
    then show ?thesis using j ne by auto
  qed
qed

text \<open>No block stood at the positions of the new ones.\<close>

definition absent :: "super_block \<Rightarrow> inode \<Rightarrow> int list \<Rightarrow> int \<Rightarrow> bool" where
  "absent sb ino q num = (\<forall>j. 0 \<le> j \<and> j < num \<longrightarrow> walk_path sb ino (butlast q @ [last q + j]) = 0)"

lemma fresh_absent:
  assumes g: "file_grows sb ino q l inds first num sb' ino'" and a: "absent sb ino q num" and f: "fresh_at q l inds first num r = Some v"
  shows "walk_path sb ino r = 0"
proof -
  have G: "1 \<le> l" "length inds = length q - l" "l \<le> length q" "walk_path sb ino (take l q) = 0"
    using g unfolding file_grows_def by blast+
  show ?thesis using f
  proof (cases rule: fresh_cases [OF _ G(2,3), consumes 1, case_names ind data])
    case (ind i)
    have "take l r = take l q" using ind by (simp add: min_def)
    moreover have "r \<noteq> []" using ind(3) G(1) by auto
    ultimately show ?thesis using walk_take_0 [of l r] G(1,4) by simp
  next
    case (data j)
    then show ?thesis using a by (auto simp: absent_def)
  qed
qed

lemma grows_file_ok:
  assumes g: "file_grows sb ino q l inds first num sb' ino'" and a: "absent sb ino q num"
    and ok: "file_ok sb ino" and d: "distinct inds" "set inds \<inter> {first..<first + num} = {}"
    and new: "new_set inds first num \<inter> data_set sb = {}" "\<And>b. b \<in> new_set inds first num \<Longrightarrow> 0 < b \<and> b < 4294967296"
    and ds: "data_set sb' = data_set sb \<union> new_set inds first num"
  shows "file_ok sb' ino'" "owned sb' ino' = owned sb ino \<union> new_set inds first num"
proof -
  let ?f = "fresh_at q l inds first num" and ?p = "KR_ADDR_PER_BLOCK sb"
  have G: "1 \<le> l" "length inds = length q - l" "l \<le> length q" "tree_ok sb' ino'" "KR_ADDR_PER_BLOCK sb' = ?p"
    using g unfolding file_grows_def by blast+
  note inj = fresh_inj [OF _ _ G(2,3,1) d]
  have val: "uint (word_of_int v :: 32 word) = v" "(word_of_int v :: 32 word) \<noteq> 0" if "?f r = Some v" for r v
  proof -
    have v: "0 < v" "v < 4294967296" using new(2) [OF fresh_range(1) [OF g that]] by simp_all
    then show u: "uint (word_of_int v :: 32 word) = v" by (simp add: word32_inj)
    then show "(word_of_int v :: 32 word) \<noteq> 0" using v(1) u by auto
  qed
  have W: "walk_path sb' ino' r = (case ?f r of Some v \<Rightarrow> word_of_int v | None \<Rightarrow> walk_path sb ino r)" if "r \<in> positions ?p" for r
    using grows_walk [OF g that] .
  have L: "r \<in> live sb' ino' \<longleftrightarrow> r \<in> live sb ino \<or> r \<in> positions ?p \<and> ?f r \<noteq> None" for r
  proof (cases "?f r")
    case None
    then show ?thesis using W [of r] by (auto simp: live_def G(5))
  next
    case (Some v)
    then show ?thesis using W [of r] val(2) [OF Some] by (auto simp: live_def G(5))
  qed
  have old: "?f r = None" if "r \<in> live sb ino" for r using fresh_absent [OF g a] that by (cases "?f r") (auto simp: live_def)
  have sub: "owned sb ino \<subseteq> data_set sb" "inj_on (walk_path sb ino) (live sb ino)" using ok by (simp_all add: file_ok_def)
  have wo: "uint (walk_path sb' ino' r) \<in> owned sb ino" "walk_path sb' ino' r = walk_path sb ino r" if "r \<in> live sb ino" for r
    using W [of r] old [OF that] that by (auto simp: live_def owned_def)
  have wn: "uint (walk_path sb' ino' r) = v" if "r \<in> positions ?p" "?f r = Some v" for r v
    using W [OF that(1)] that(2) val(1) by simp
  show own: "owned sb' ino' = owned sb ino \<union> new_set inds first num"
  proof (intro equalityI subsetI)
    fix b assume "b \<in> owned sb' ino'"
    then obtain r where r: "r \<in> live sb' ino'" "b = uint (walk_path sb' ino' r)" by (auto simp: owned_def)
    then show "b \<in> owned sb ino \<union> new_set inds first num"
      using L [of r] wo(1) [of r] wn [of r] fresh_range(1) [OF g, of r] by auto
  next
    fix b assume "b \<in> owned sb ino \<union> new_set inds first num"
    then show "b \<in> owned sb' ino'"
    proof
      assume "b \<in> owned sb ino"
      then obtain r where r: "r \<in> live sb ino" "b = uint (walk_path sb ino r)" by (auto simp: owned_def)
      then show ?thesis using L [of r] wo(2) [OF r(1)] unfolding owned_def by (intro image_eqI [of _ _ r]) auto
    next
      assume "b \<in> new_set inds first num"
      then obtain r where r: "r \<in> positions ?p" "?f r = Some b" using fresh_range(2) [OF g] by blast
      then show ?thesis using L [of r] wn [OF r] unfolding owned_def by (intro image_eqI [of _ _ r]) auto
    qed
  qed
  have "inj_on (walk_path sb' ino') (live sb' ino')"
  proof (rule inj_onI)
    fix r s assume rs: "r \<in> live sb' ino'" "s \<in> live sb' ino'" and e: "walk_path sb' ino' r = walk_path sb' ino' s"
    have apart: "v \<notin> owned sb ino" if "?f r = Some v" for r v using fresh_range(1) [OF g that] new(1) sub(1) by blast
    show "r = s"
    proof (cases "?f r")
      case None
      then have r: "r \<in> live sb ino" using L [of r] rs(1) by simp
      have "?f s = None"
      proof (rule ccontr)
        assume "?f s \<noteq> None"
        then obtain v where v: "?f s = Some v" "s \<in> positions ?p" using rs(2) G(5) by (auto simp: live_def)
        then show False using wo(1) [OF r] wn [OF v(2,1)] apart [OF v(1)] e by simp
      qed
      then have s: "s \<in> live sb ino" using L [of s] rs(2) by simp
      show ?thesis using inj_onD [OF sub(2) _ r s] wo(2) [OF r] wo(2) [OF s] e by simp
    next
      case (Some v)
      have rp: "r \<in> positions ?p" using rs(1) G(5) by (simp add: live_def)
      have "s \<notin> live sb ino" using wo(1) [of s] wn [OF rp Some] apart [OF Some] e by auto
      then obtain u where u: "?f s = Some u" "s \<in> positions ?p" using L [of s] rs(2) by auto
      then have "u = v" using wn [OF rp Some] wn [OF u(2,1)] e by simp
      then show ?thesis using inj Some u(1) by blast
    qed
  qed
  then show "file_ok sb' ino'" using G(4) own sub(1) ds by (auto simp: file_ok_def)
qed

lemma grows_block_map:
  assumes g: "file_grows sb ino q l inds first num sb' ino'" and b: "0 \<le> b" "b < file_blocks (KR_ADDR_PER_BLOCK sb)"
    and q: "q = fst (kr_block_to_path sb b)" and n: "num \<le> snd (kr_block_to_path sb b) + 1"
    and path: "kr_block_to_path sb' = kr_block_to_path sb"
  shows "block_map sb' ino' x = (if b \<le> x \<and> x < b + num then word_of_int (first + (x - b)) else block_map sb ino x)"
proof -
  let ?p = "KR_ADDR_PER_BLOCK sb" and ?r = "fst (kr_block_to_path sb x)"
  have G: "1 \<le> l" "length inds = length q - l" "l \<le> length q" "tree_ok sb ino" "path_ok ?p q"
    using g unfolding file_grows_def by blast+
  have a: "addr_ok sb" using G(4) by (simp add: tree_ok_def)
  note p16 = addr_okD(2) [OF a]
  have ne: "q \<noteq> []" using G by auto
  have step: "fst (kr_block_to_path sb (b + j)) = butlast q @ [last q + j]" if "0 \<le> j" "j < num" for j
    using block_to_path_step [OF a b, of j] that n q by simp
  show ?thesis
  proof (cases "0 \<le> x \<and> x < file_blocks ?p")
    case True
    then have r: "path_ok ?p ?r" "path_block ?p ?r = x" using block_to_path_eq [OF a] by blast+
    have rp: "?r \<in> positions ?p" "length ?r = Suc (tree_depth (hd ?r))" using r(1) path_ok_iff [OF p16] by simp_all
    have bm: "block_map sb' ino' x = (case fresh_at q l inds first num ?r of Some v \<Rightarrow> word_of_int v | None \<Rightarrow> block_map sb ino x)"
      unfolding block_map_def path by (rule grows_walk [OF g rp(1)])
    show ?thesis
    proof (cases "b \<le> x \<and> x < b + num")
      case True
      then have "?r = butlast q @ [last q + (x - b)]" using step [of "x - b"] by simp
      then show ?thesis using bm True fresh_data [of "x - b" num q l inds first] ne by simp
    next
      case False
      have "fresh_at q l inds first num ?r = None"
      proof (rule ccontr)
        assume "\<not> ?thesis"
        then obtain v where v: "fresh_at q l inds first num ?r = Some v" by blast
        then show False
        proof (cases rule: fresh_cases [OF _ G(2,3), consumes 1, case_names ind data])
          case (ind i)
          have "hd ?r = hd q" using ind(2) G(1) ne by (simp add: hd_take)
          then have "length ?r = length q" using rp(2) G(5) path_ok_iff [OF p16] by simp
          then show False using ind(1,3) G(2) by simp
        next
          case (data j)
          then have e: "?r = fst (kr_block_to_path sb (b + j))" using step [of j] ne by auto
          have "b + j < file_blocks ?p"
          proof (rule ccontr)
            assume "\<not> ?thesis"
            then have "fst (kr_block_to_path sb (b + j)) = []" using block_to_path_out [OF a] by simp
            then show False using e rp by simp
          qed
          then have "path_block ?p (fst (kr_block_to_path sb (b + j))) = b + j" using block_to_path_eq(2) [OF a, of "b + j"] b(1) data(1) by simp
          then have "b + j = x" using r(2) unfolding e [symmetric] by simp
          then show False using False data(1,2) by auto
        qed
      qed
      then show ?thesis unfolding if_not_P [OF False] using bm by simp
    qed
  next
    case False
    then have out: "fst (kr_block_to_path sb x) = []" using block_to_path_out [OF a] by force
    have "\<not> (b \<le> x \<and> x < b + num)"
    proof
      assume "b \<le> x \<and> x < b + num"
      then show False using step [of "x - b"] out by simp
    qed
    then show ?thesis unfolding if_not_P [OF \<open>\<not> (b \<le> x \<and> x < b + num)\<close>] using out by (simp add: block_map_def path)
  qed
qed

end
