(* ===== verification/Kr_Create.thy ===== *)
theory Kr_Create
  imports Kr_Grow
begin

text \<open>
  A lookup that may create (\<^verbatim>\<open>kr_get_blocks\<close> with \<^verbatim>\<open>create\<close>), for an inode without a reservation
  window: the number of blocks it asks for, and what it leaves behind, whether it succeeds or fails.
\<close>

section \<open>How many blocks to allocate\<close>

lemma boundary_range:
  assumes "addr_ok sb" "0 \<le> b" "b < file_blocks (KR_ADDR_PER_BLOCK sb)"
  shows "0 \<le> snd (kr_block_to_path sb b)" "snd (kr_block_to_path sb b) < 32768"
proof -
  note e = block_to_path_eq [OF assms]
  note D = addr_okD(2,3) [OF assms(1)]
  have "fst (kr_block_to_path sb b) = [b]" if "b < 12" using that assms(2) by (simp add: kr_block_to_path_def Let_def)
  moreover have "b < 12" if "fst (kr_block_to_path sb b) = [i]" for i using e(1,2) that by auto
  ultimately have "0 \<le> snd (kr_block_to_path sb b) \<and> snd (kr_block_to_path sb b) < 32768"
    using e(1,3) assms(2) D
    by (cases "(KR_ADDR_PER_BLOCK sb, fst (kr_block_to_path sb b))" rule: path_ok.cases) (auto split: if_splits)
  then show "0 \<le> snd (kr_block_to_path sb b)" "snd (kr_block_to_path sb b) < 32768" by simp_all
qed

lemma next_path:
  assumes "addr_ok sb" "0 \<le> b" "b < file_blocks (KR_ADDR_PER_BLOCK sb)" "0 \<le> j" "j \<le> snd (kr_block_to_path sb b)"
  defines "q \<equiv> fst (kr_block_to_path sb b)"
  shows "path_ok (KR_ADDR_PER_BLOCK sb) (butlast q @ [last q + j])" "fst (kr_block_to_path sb (b + j)) = butlast q @ [last q + j]"
proof -
  show s: "fst (kr_block_to_path sb (b + j)) = butlast q @ [last q + j]"
    using block_to_path_step [OF assms(1-5)] by (simp add: q_def)
  have "b + j < file_blocks (KR_ADDR_PER_BLOCK sb)"
  proof (rule ccontr)
    assume "\<not> ?thesis"
    then have "fst (kr_block_to_path sb (b + j)) = []" using block_to_path_out [OF assms(1)] by simp
    then show False using s by simp
  qed
  then show "path_ok (KR_ADDR_PER_BLOCK sb) (butlast q @ [last q + j])"
    using block_to_path_eq(1) [OF assms(1), of "b + j"] assms(2,4) s by simp
qed

lemma count_absent_ok:
  assumes "\<And>j. c \<le> j \<Longrightarrow> j < c + int n \<Longrightarrow> valid_slot sb ino (slot_add p j)"
  shows "\<exists>c'. count_absent sb ino p blks n c = Some c' \<and> c \<le> c' \<and> c' \<le> c + int n \<and> (c \<le> blks \<longrightarrow> c' \<le> blks) \<and>
    (\<forall>j. c \<le> j \<and> j < c' \<longrightarrow> read_slot sb ino (slot_add p j) = Some 0)"
  using assms
proof (induction n arbitrary: c)
  case (Suc n)
  show ?case
  proof (cases "c < blks \<and> read_slot sb ino (slot_add p c) = Some 0")
    case True
    have "\<exists>c'. count_absent sb ino p blks n (c + 1) = Some c' \<and> c + 1 \<le> c' \<and> c' \<le> c + 1 + int n \<and> (c + 1 \<le> blks \<longrightarrow> c' \<le> blks) \<and>
      (\<forall>j. c + 1 \<le> j \<and> j < c' \<longrightarrow> read_slot sb ino (slot_add p j) = Some 0)"
      using Suc.prems by (intro Suc.IH) simp
    then obtain c' where c: "count_absent sb ino p blks n (c + 1) = Some c'" "c + 1 \<le> c'" "c' \<le> c + 1 + int n" "c + 1 \<le> blks \<longrightarrow> c' \<le> blks"
        "\<And>j. c + 1 \<le> j \<Longrightarrow> j < c' \<Longrightarrow> read_slot sb ino (slot_add p j) = Some 0" by blast
    have "read_slot sb ino (slot_add p j) = Some 0" if "c \<le> j" "j < c'" for j
      using c(5) [of j] that True by (cases "j = c") auto
    then show ?thesis using c True by (intro exI [of _ c']) auto
  next
    case False
    have "valid_slot sb ino (slot_add p c)" using Suc.prems [of c] by simp
    then obtain v where "read_slot sb ino (slot_add p c) = Some v" by (auto simp: valid_slot_def)
    then show ?thesis using False by (intro exI [of _ c]) auto
  qed
qed auto

text \<open>The pointers of a path that exist: the slot of the first absent one.\<close>

lemma first_absent:
  assumes ok: "tree_ok sb ino" and q: "path_ok (KR_ADDR_PER_BLOCK sb) q" and w: "walk_path sb ino q = 0"
  defines "chain \<equiv> branch_chain sb ino q"
  defines "l \<equiv> length chain"
  shows "1 \<le> l" "l \<le> length q" "walk_path sb ino (take l q) = 0" "open_pos sb ino (take l q)"
    "ind_p (last chain) = last_slot sb ino (take l q)"
proof -
  have p16: "16 \<le> KR_ADDR_PER_BLOCK sb" using addr_okD(2) ok by (simp add: tree_ok_def)
  have ne: "q \<noteq> []" using q by auto
  note B = branch_chain_nth [OF ne chain_def [THEN meta_eq_to_obj_eq], folded l_def]
  show l: "1 \<le> l" "l \<le> length q" using B(1,2) by simp_all
  show "walk_path sb ino (take l q) = 0" using B(3) w l by (cases "l = length q") auto
  have "take l q \<in> positions (KR_ADDR_PER_BLOCK sb)" using take_position q path_ok_iff [OF p16] l by auto
  moreover have "walk_path sb ino (butlast (take l q)) \<noteq> 0" if "length (take l q) \<noteq> 1"
  proof -
    have "1 < l" using that l by (auto simp: min_def split: if_splits)
    then show ?thesis using B(5) [of "l - 1"] l(2) by (simp add: butlast_take)
  qed
  ultimately show "open_pos sb ino (take l q)" by (auto simp: open_pos_def)
  have "last chain = chain ! (l - 1)" using B(1) by (simp add: l_def last_conv_nth)
  then show "ind_p (last chain) = last_slot sb ino (take l q)" using B(4) [of "l - 1"] l by simp
qed

lemma blks_to_allocate_ok:
  assumes ok: "tree_ok sb ino" and b: "0 \<le> b" "b < file_blocks (KR_ADDR_PER_BLOCK sb)" "block_map sb ino b = 0" and mx: "1 \<le> mx"
  defines "q \<equiv> fst (kr_block_to_path sb b)" and "bd \<equiv> snd (kr_block_to_path sb b)"
  defines "l \<equiv> length (branch_chain sb ino q)"
  assumes partial: "ind_p partial = last_slot sb ino (take l q)"
  shows "\<exists>c. kr_blks_to_allocate sb ino partial (int (length q - l)) mx bd = Some c \<and> 1 \<le> c \<and> c \<le> mx \<and> c \<le> bd + 1 \<and> absent sb ino q c"
proof -
  have a: "addr_ok sb" using ok by (simp add: tree_ok_def)
  note bd = boundary_range [OF a b(1,2), folded bd_def]
  have q: "path_ok (KR_ADDR_PER_BLOCK sb) q" "walk_path sb ino q = 0"
    using block_to_path_eq(1) [OF a b(1,2)] b(3) by (simp_all add: q_def block_map_def)
  note F = first_absent [OF ok q, folded l_def]
  have p16: "16 \<le> KR_ADDR_PER_BLOCK sb" using addr_okD(2) [OF a] .
  have ne: "q \<noteq> []" using q by auto
  show ?thesis
  proof (cases "l < length q")
    case True
    have u: "u64 (bd + 1) = bd + 1" "s32 (bd + 1) = bd + 1" using bd by (simp_all add: s32_id u64_id)
    let ?c = "if mx < bd + 1 then mx else bd + 1"
    have s: "s32 ?c = ?c" using bd mx by (intro s32_id) auto
    have "kr_blks_to_allocate sb ino partial (int (length q - l)) mx bd = Some (s32 ?c)"
      using True unfolding kr_blks_to_allocate_def u by simp
    then have "kr_blks_to_allocate sb ino partial (int (length q - l)) mx bd = Some ?c" unfolding s .
    moreover have "absent sb ino q ?c"
      unfolding absent_def
    proof (intro allI impI)
      fix j assume "0 \<le> j \<and> j < ?c"
      have "take l (butlast q @ [last q + j]) = take l q" using True by (auto simp: butlast_conv_take min_def)
      then show "walk_path sb ino (butlast q @ [last q + j]) = 0"
        using walk_take_0 [of l "butlast q @ [last q + j]" sb ino] F(1,3) by simp
    qed
    ultimately show ?thesis using mx bd by auto
  next
    case False
    then have l: "l = length q" using F(2) by simp
    have rd: "read_slot sb ino (slot_add (ind_p partial) j) = Some (walk_path sb ino (butlast q @ [last q + j]))"
      if j: "0 \<le> j" "j \<le> bd" for j
    proof -
      have "path_ok (KR_ADDR_PER_BLOCK sb) (butlast q @ [last q + j])"
        using next_path(1) [OF a b(1,2), of j] j by (simp add: q_def bd_def)
      then have "open_pos sb ino (butlast q @ [last q + j])" using F(4) l ne path_ok_iff [OF p16] by (auto simp: open_pos_def)
      then show ?thesis using read_last_slot [OF ok] shift_slot [OF ne] l by (simp add: partial)
    qed
    obtain c where c: "count_absent sb ino (ind_p partial) mx (nat bd) 1 = Some c" "1 \<le> c" "c \<le> 1 + bd" "1 \<le> mx \<longrightarrow> c \<le> mx"
        "\<And>j. 1 \<le> j \<Longrightarrow> j < c \<Longrightarrow> read_slot sb ino (slot_add (ind_p partial) j) = Some 0"
      using count_absent_ok [of 1 "nat bd" sb ino "ind_p partial" mx] rd bd by (auto simp: valid_slot_def)
    have "u64 bd = bd" "s32 c = c" using bd c by (simp_all add: u64_id s32_id)
    then have "kr_blks_to_allocate sb ino partial (int (length q - l)) mx bd = Some c"
      using c(1) l by (simp add: kr_blks_to_allocate_def)
    moreover have "absent sb ino q c"
      unfolding absent_def
    proof (intro allI impI)
      fix j assume j: "0 \<le> j \<and> j < c"
      show "walk_path sb ino (butlast q @ [last q + j]) = 0"
      proof (cases "j = 0")
        case True
        then show ?thesis using q(2) ne by simp
      next
        case False
        then show ?thesis using c(3) c(5) [of j] rd [of j] j by simp
      qed
    qed
    ultimately show ?thesis using c mx by auto
  qed
qed

section \<open>Allocation as a whole\<close>

text \<open>
  What a lookup that may create leaves behind: after an error the file and the free blocks are as
  they were; otherwise the file maps a run of new blocks and has got exactly the blocks that are no
  longer free.
\<close>

definition same_kind :: "inode \<Rightarrow> inode \<Rightarrow> bool" where
  "same_kind ino ino' =
     (i_ino ino' = i_ino ino \<and> i_size ino' = i_size ino \<and> i_mode ino' = i_mode ino \<and> vfs_flags ino' = vfs_flags ino \<and>
      (i_block_alloc_info ino' = None \<longrightarrow> i_block_alloc_info ino = None))"

definition created :: "super_block \<Rightarrow> inode \<Rightarrow> int \<Rightarrow> int \<Rightarrow> errno + mapping_result option \<Rightarrow> super_block \<Rightarrow> inode \<Rightarrow> bool" where
  "created sb ino b mx res sb' ino' =
     (fs_ok sb' \<and> file_ok sb' ino' \<and> same_super sb sb' \<and> same_kind ino ino' \<and> windowless sb' ino' \<and> free_set sb' \<subseteq> free_set sb \<and>
      owned sb' ino' = owned sb ino \<union> (free_set sb - free_set sb') \<and>
      (case res of
         Inl e \<Rightarrow> block_map sb' ino' = block_map sb ino \<and> free_set sb' = free_set sb
       | Inr None \<Rightarrow> False
       | Inr (Some m) \<Rightarrow> 1 \<le> m_count m \<and> m_count m \<le> mx \<and> m_new m \<and>
           {uint (m_bno m)..<uint (m_bno m) + m_count m} \<subseteq> free_set sb - free_set sb' \<and>
           (\<forall>x. block_map sb' ino' x =
              (if b \<le> x \<and> x < b + m_count m then word_of_int (uint (m_bno m) + (x - b)) else block_map sb ino x))))"

lemma data_frame:
  assumes "i_data ino' = i_data ino"
  shows "walk_path sb ino' = walk_path sb ino" "live sb ino' = live sb ino" "owned sb ino' = owned sb ino"
    "file_ok sb ino' = file_ok sb ino" "block_map sb ino' = block_map sb ino" "tree_ok sb ino' = tree_ok sb ino"
    "read_slot sb ino' = read_slot sb ino"
proof -
  show w: "walk_path sb ino' = walk_path sb ino" using assms by (intro ext, rename_tac q, case_tac q) simp_all
  show l: "live sb ino' = live sb ino" by (simp add: live_def w)
  show o: "owned sb ino' = owned sb ino" by (simp add: owned_def w l)
  show t: "tree_ok sb ino' = tree_ok sb ino" using assms by (simp add: tree_ok_def)
  show "file_ok sb ino' = file_ok sb ino" by (simp add: file_ok_def t l o w)
  show "block_map sb ino' = block_map sb ino" by (simp add: block_map_def w fun_eq_iff)
  show "read_slot sb ino' = read_slot sb ino" using assms by (intro ext, rename_tac s, case_tac s) simp_all
qed

lemma taken_frame:
  assumes t: "taken sb ino B sb' ino'" and ok: "file_ok sb ino"
  shows "file_ok sb' ino'" "owned sb' ino' = owned sb ino" "block_map sb' ino' = block_map sb ino" "KR_ADDR_PER_BLOCK sb' = KR_ADDR_PER_BLOCK sb"
    "tree_ok sb' ino'" "kr_block_to_path sb' = kr_block_to_path sb" "read_slot sb' ino' = read_slot sb ino"
proof -
  have s: "same_but_counter sb sb'" "b_ind sb' = b_ind sb" "data_set sb' = data_set sb \<union> B" "i_data ino' = i_data ino"
    using t same_but_blocksD(2) [of ino ino'] by (simp_all add: taken_def)
  have walk: "walk sb' key q = walk sb key q" for key q by (induction q arbitrary: key) (simp_all add: s(2))
  then have "walk_path sb' ino = walk_path sb ino" by (intro ext, rename_tac q, case_tac q) simp_all
  then have w: "walk_path sb' ino' = walk_path sb ino" by (simp add: data_frame(1) [OF s(4)])
  show p: "KR_ADDR_PER_BLOCK sb' = KR_ADDR_PER_BLOCK sb" by (rule addr_per_block_frame [OF s(1)])
  show k: "kr_block_to_path sb' = kr_block_to_path sb" by (rule same_but_counter_path [OF s(1)])
  show "block_map sb' ino' = block_map sb ino" by (simp add: block_map_def w k fun_eq_iff)
  have l: "live sb' ino' = live sb ino" by (simp add: live_def w p)
  then show o: "owned sb' ino' = owned sb ino" by (simp add: owned_def w)
  have "s_addr_per_block_bits (sbi sb') = s_addr_per_block_bits (sbi sb)"
    using s(1) by (cases "sbi sb"; cases "sbi sb'") (simp add: same_but_counter_def)
  then show tr: "tree_ok sb' ino'" using ok p s(2,4) by (simp add: file_ok_def tree_ok_def addr_ok_def)
  then show "file_ok sb' ino'" using ok o l w s(3) by (auto simp: file_ok_def)
  show "read_slot sb' ino' = read_slot sb ino" using s(2,4) by (intro ext, rename_tac x, case_tac x) simp_all
qed

lemma same_but_blocks_kind: "same_but_blocks ino ino' \<Longrightarrow> same_kind ino ino'"
  using same_but_blocksD [of ino ino'] by (simp add: same_kind_def)

lemma same_kind_trans: "same_kind a b \<Longrightarrow> same_kind b c \<Longrightarrow> same_kind a c"
  by (simp add: same_kind_def)

lemma same_but_counter_super: "same_but_counter sb sb' \<Longrightarrow> same_super sb sb'"
  by (simp add: same_but_counter_def same_super_def)

lemma write_slot_written:
  assumes "write_slot sb ino p (word_of_int b) = Some (sb', ino')"
  shows "written sb ino p 1 b sb' ino'"
  unfolding written_def
proof (intro conjI allI impI)
  note f = write_slot_frame [OF assms]
  show "\<exists>f. sb' = sb\<lparr>b_ind := f\<rparr>" "\<exists>d. ino' = ino\<lparr>i_data := d\<rparr>" "length (i_data ino') = length (i_data ino)" using f by simp_all
  show "length (b_ind sb' x) = length (b_ind sb x)" for x by (rule f(3))
  show "read_slot sb' ino' (slot_add p j) = Some (word_of_int (b + j))" if "0 \<le> j \<and> j < 1" for j
  proof -
    have "j = 0" using that by linarith
    then show ?thesis using read_write_slot [OF assms] by simp
  qed
  show "read_slot sb' ino' s = read_slot sb ino s" if "\<forall>j. 0 \<le> j \<and> j < 1 \<longrightarrow> s \<noteq> slot_add p j" for s
    using read_write_slot [OF assms, of s] that [rule_format, of 0] by simp
qed

text \<open>Splicing writes the new pointers, one or the whole run.\<close>

lemma kr_splice_branch_written:
  assumes v: "\<And>j. 0 \<le> j \<Longrightarrow> j < W \<Longrightarrow> valid_slot sb ino (slot_add (ind_p w) j)" and W: "W = (if ws = [] then num else 1)" and n: "1 \<le> num"
    and key: "ind_key w = word_of_int b" "0 \<le> b" "b < 4294967296"
  obtains sb' ino1 ino' where "kr_splice_branch k sb ino block (w # ws) num = Some (sb', ino')"
    "written sb ino (ind_p w) W b sb' ino1" "i_data ino' = i_data ino1" "same_kind ino ino'"
    "i_block_alloc_info ino = None \<Longrightarrow> i_block_alloc_info ino' = None"
proof -
  have "valid_slot sb ino (ind_p w)" using v [of 0] W n by (auto split: if_splits)
  then obtain sb1 ino1 where s: "write_slot sb ino (ind_p w) (ind_key w) = Some (sb1, ino1)" using write_slot_valid by blast
  note w1 = write_slot_written [OF s [unfolded key(1)]]
  have u: "uint (ind_key w) = b" using key by (simp add: word32_inj)
  obtain sb2 ino2 where r: "(if ws = [] \<and> 1 < num then splice_rest sb1 ino1 (ind_p w) (nat (num - 1)) 1 (b + 1) else Some (sb1, ino1)) = Some (sb2, ino2)"
      "written sb ino (ind_p w) W b sb2 ino2"
  proof (cases "ws = [] \<and> 1 < num")
    case True
    then have e: "1 + int (nat (num - 1)) = W" using W by simp
    have "\<exists>sb' ino'. splice_rest sb1 ino1 (ind_p w) (nat (num - 1)) 1 (b + 1) = Some (sb', ino') \<and> written sb ino (ind_p w) (1 + int (nat (num - 1))) b sb' ino'"
      by (rule splice_rest_written [OF w1]) (use v e in auto)
    then show ?thesis using that True unfolding e by auto
  next
    case False
    then have "W = 1" using W n by auto
    then show ?thesis using that [of sb1 ino1] False w1 by auto
  qed
  obtain d where d: "ino2 = ino\<lparr>i_data := d\<rparr>" using r(2) by (auto simp: written_def)
  have "\<exists>f t. kr_splice_branch k sb ino block (w # ws) num =
      Some (sb2, ino2\<lparr>i_block_alloc_info := map_option f (i_block_alloc_info ino2), i_ctime := t\<rparr>)"
    unfolding kr_splice_branch_def list.case s Option.bind_lunit prod.case u r(1) by blast
  then obtain f t where "kr_splice_branch k sb ino block (w # ws) num =
      Some (sb2, ino2\<lparr>i_block_alloc_info := map_option f (i_block_alloc_info ino2), i_ctime := t\<rparr>)" by blast
  then show ?thesis by (rule that [OF _ r(2)]) (simp_all add: d same_kind_def)
qed

text \<open>The part of \<^verbatim>\<open>kr_get_blocks\<close> after the reservation structure has been set up.\<close>

definition alloc_tail ::
  "kernel \<Rightarrow> super_block \<Rightarrow> inode \<Rightarrow> int \<Rightarrow> int \<Rightarrow> int \<Rightarrow> int list \<Rightarrow> int \<Rightarrow> indirect \<Rightarrow> nat \<Rightarrow>
   ((errno + mapping_result option) \<times> super_block \<times> inode) option" where
  "alloc_tail k sb ino goal iblock maxblocks offsets blocks_to_boundary partial l =
     do { count \<leftarrow> kr_blks_to_allocate sb ino partial (int (length offsets - l)) maxblocks blocks_to_boundary;
          (res, sb1, ino1) \<leftarrow> kr_alloc_branch k sb ino (length offsets - l) count goal (drop (l - 1) offsets) partial;
          case res of
            Inl e \<Rightarrow> Some (Inl e, sb1, ino1)
          | Inr (branch, num) \<Rightarrow>
              case (if IS_DAX ino1 then k_zeroout k (uint (ind_key (last branch))) num else None) of
                Some e \<Rightarrow> Some (Inl e, sb1, ino1)
              | None \<Rightarrow> do {
                  (sb2, ino2) \<leftarrow> kr_splice_branch k sb1 ino1 iblock branch num;
                  Some (got_it num blocks_to_boundary branch (\<not> IS_DAX ino1), sb2, ino2) } }"

text \<open>The pointers after a new branch has been initialised and spliced in.\<close>

lemma splice_grows:
  assumes ok: "file_ok sb ino" and q: "path_ok (KR_ADDR_PER_BLOCK sb) q" "walk_path sb ino q = 0"
    and l: "l = length (branch_chain sb ino q)" and num: "1 \<le> num" "\<And>j. 0 \<le> j \<Longrightarrow> j < num \<Longrightarrow> path_ok (KR_ADDR_PER_BLOCK sb) (butlast q @ [last q + j])"
    and tk: "taken sb ino B sb1 ino1" and inds: "length inds = length q - l" "set inds \<subseteq> B" "\<And>b. b \<in> set inds \<Longrightarrow> 0 < b \<and> b < 4294967296"
    and f: "\<And>b. b \<notin> set inds \<Longrightarrow> f b = b_ind sb1 b" "\<And>i. i < length inds \<Longrightarrow> int (length (f (inds ! i))) = KR_ADDR_PER_BLOCK sb"
      "\<And>i x. i < length inds \<Longrightarrow> 0 \<le> x \<Longrightarrow> x < KR_ADDR_PER_BLOCK sb \<Longrightarrow> f (inds ! i) ! nat x = fresh_entry inds (drop l q) first num i x"
  defines "W \<equiv> if l < length q then 1 else num" and "P \<equiv> last_slot sb ino (take l q)"
  shows "0 \<le> j \<Longrightarrow> j < W \<Longrightarrow> valid_slot (sb1\<lparr>b_ind := f\<rparr>) ino1 (slot_add P j)"
    "written (sb1\<lparr>b_ind := f\<rparr>) ino1 P W (hd (inds @ [first])) sb2 ino2 \<Longrightarrow> i_data ino3 = i_data ino2 \<Longrightarrow>
      file_grows sb ino q l inds first num sb2 ino3"
proof -
  let ?p = "KR_ADDR_PER_BLOCK sb"
  have t: "tree_ok sb ino" "inj_on (walk_path sb ino) (live sb ino)" "owned sb ino \<subseteq> data_set sb" using ok by (simp_all add: file_ok_def)
  note F = first_absent [OF t(1) q, folded l]
  note T = taken_frame [OF tk ok]
  have p16: "16 \<le> ?p" using addr_okD(2) t(1) by (simp add: tree_ok_def)
  have ne: "q \<noteq> []" using q by auto
  have own: "owned sb ino \<inter> set inds = {}" using tk inds(2) t(3) free_not_data [of sb] unfolding taken_def by blast
  have rd: "read_slot (sb1\<lparr>b_ind := f\<rparr>) ino1 s = read_slot sb ino s" if "\<And>b i. s = BlockSlot b i \<Longrightarrow> b \<notin> set inds" for s
    using that f(1) fun_cong [OF T(7), of s] by (cases s) auto
  have op: "open_pos sb ino (butlast (take l q) @ [last (take l q) + j])" if j: "0 \<le> j" "j < W" for j
  proof (cases "l < length q")
    case True
    have "take l q \<noteq> []" using F(1) ne by auto
    moreover have "j = 0" using j True by (simp add: W_def)
    ultimately show ?thesis using F(4) by simp
  next
    case False
    then have e: "take l q = q" "j < num" using j by (simp_all add: W_def)
    have "butlast q @ [last q + j] \<in> positions ?p" using num(2) [OF j(1) e(2)] path_ok_iff [OF p16] by simp
    then show ?thesis using F(4) ne unfolding e(1) by (auto simp: open_pos_def)
  qed
  have slot: "slot_add P j = last_slot sb ino (butlast (take l q) @ [last (take l q) + j])" for j
    unfolding P_def using F(1) ne by (intro shift_slot) auto
  have out: "b \<notin> set inds" if j: "0 \<le> j" "j < W" "slot_add P j = BlockSlot b i" for j b i
  proof -
    define r where "r = butlast (take l q)"
    have "r \<noteq> []" using j(3) unfolding slot r_def [symmetric] by auto
    then have "r \<in> live sb ino" "b = uint (walk_path sb ino r)"
      using open_pos_live [OF op [OF j(1,2)]] j(3) unfolding slot r_def [symmetric] by (simp_all add: last_slot_snoc)
    then show ?thesis using own by (auto simp: owned_def)
  qed
  show "valid_slot (sb1\<lparr>b_ind := f\<rparr>) ino1 (slot_add P j)" if "0 \<le> j" "j < W"
    using rd [of "slot_add P j"] out [OF that] read_last_slot [OF t(1) op [OF that]] unfolding slot by (simp add: valid_slot_def)
  assume w: "written (sb1\<lparr>b_ind := f\<rparr>) ino1 P W (hd (inds @ [first])) sb2 ino2" and d: "i_data ino3 = i_data ino2"
  obtain g where g: "sb2 = sb1\<lparr>b_ind := g\<rparr>" using w by (auto simp: written_def)
  have len: "length (b_ind sb2 x) = length (f x)" "length (i_data ino2) = length (i_data ino1)" for x using w by (simp_all add: written_def)
  have pw: "KR_ADDR_PER_BLOCK sb2 = ?p" using T(4) by (simp add: g KR_ADDR_PER_BLOCK_def)
  have lf: "int (length (f x)) = ?p" for x
  proof (cases "x \<in> set inds")
    case True
    then show ?thesis using f(2) by (auto simp: in_set_conv_nth)
  next
    case False
    then show ?thesis using f(1) T(4,5) by (simp add: tree_ok_def)
  qed
  have tree: "tree_ok sb2 ino2"
    using T(5) len lf T(4) unfolding tree_ok_def addr_ok_def pw by (simp add: g)
  have new: "read_slot sb2 ino2 (slot_add P j) = Some (word_of_int (hd (inds @ [first]) + j))" if "0 \<le> j" "j < W" for j
    using w that unfolding written_def by blast
  have old: "read_slot sb2 ino2 s = read_slot (sb1\<lparr>b_ind := f\<rparr>) ino1 s" if "\<And>j. 0 \<le> j \<Longrightarrow> j < W \<Longrightarrow> s \<noteq> slot_add P j" for s
    using w that unfolding written_def by blast
  have ent: "b_ind sb2 (inds ! i) = f (inds ! i)" if i: "i < length inds" for i
  proof -
    have "read_slot sb2 ino2 (BlockSlot (inds ! i) x) = read_slot (sb1\<lparr>b_ind := f\<rparr>) ino1 (BlockSlot (inds ! i) x)" for x
      by (rule old) (use out i nth_mem [OF i] in metis)
    then have "b_ind sb2 (inds ! i) = b_ind (sb1\<lparr>b_ind := f\<rparr>) (inds ! i)" by (rule b_ind_read)
    then show ?thesis by simp
  qed
  note D = data_frame(6,7) [OF d, of sb2]
  show "file_grows sb ino q l inds first num sb2 ino3"
    unfolding file_grows_def Let_def W_def [symmetric] P_def [symmetric] D
  proof (intro conjI allI impI ballI)
    show "read_slot sb2 ino2 s = read_slot sb ino s" if "\<forall>j. 0 \<le> j \<and> j < W \<longrightarrow> s \<noteq> slot_add P j" "\<forall>b i. s = BlockSlot b i \<longrightarrow> b \<notin> set inds" for s
      using old [of s] rd [of s] that by auto
    show "read_slot sb2 ino2 (slot_add P j) = Some (word_of_int (hd (inds @ [first]) + j))" if "0 \<le> j \<and> j < W" for j using new that by simp
    show "b_ind sb2 (inds ! i) ! nat x = fresh_entry inds (drop l q) first num i x" if "i < length inds" "0 \<le> x \<and> x < ?p" for i x
      using ent f(3) that by simp
    show "path_ok ?p (butlast q @ [last q + j])" if "0 \<le> j \<and> j < num" for j using num(2) that by simp
  qed (use t tree pw F inds(1,3) num(1) own q in simp_all)
qed

lemma alloc_tail_created:
  assumes k: "io_ok k" "quota_ok k" and ok: "fs_ok sb" "file_ok sb ino" "windowless sb ino" "0 \<notin> free_set sb" "\<not> IS_DAX ino"
    and b: "0 \<le> b" "b < file_blocks (KR_ADDR_PER_BLOCK sb)" "block_map sb ino b = 0" and mx: "1 \<le> mx"
  defines "q \<equiv> fst (kr_block_to_path sb b)" and "bd \<equiv> snd (kr_block_to_path sb b)"
  defines "l \<equiv> length (branch_chain sb ino q)"
  assumes partial: "ind_p partial = last_slot sb ino (take l q)"
  shows "\<exists>res sb' ino'. alloc_tail k sb ino goal b mx q bd partial l = Some (res, sb', ino') \<and> created sb ino b mx res sb' ino'"
proof -
  let ?p = "KR_ADDR_PER_BLOCK sb"
  have t: "tree_ok sb ino" "owned sb ino \<subseteq> data_set sb" using ok(2) by (simp_all add: file_ok_def)
  have a: "addr_ok sb" using t(1) by (simp add: tree_ok_def)
  have q: "path_ok ?p q" "walk_path sb ino q = 0"
    using block_to_path_eq(1) [OF a b(1,2)] b(3) by (simp_all add: q_def block_map_def)
  note F = first_absent [OF t(1) q, folded l_def]
  note bd = boundary_range [OF a b(1,2), folded bd_def]
  have p16: "16 \<le> ?p" using addr_okD(2) [OF a] .
  have ne: "q \<noteq> []" using q by auto
  obtain c where c: "kr_blks_to_allocate sb ino partial (int (length q - l)) mx bd = Some c" "1 \<le> c" "c \<le> mx" "c \<le> bd + 1" "absent sb ino q c"
    using blks_to_allocate_ok [OF t(1) b mx, folded q_def bd_def, folded l_def, OF partial] by blast
  have "length q \<le> 4" using q(1) by (cases "(?p, q)" rule: path_ok.cases) auto
  then have small: "length q - l \<le> 3" "c \<le> 65536" using F(1) c(4) bd by auto
  show ?thesis
  proof (cases rule: kr_alloc_blocks_taken [OF k ok(1,3) c(2) small(2,1), of goal, case_names none some])
    case (none e sb' ino')
    then have "alloc_tail k sb ino goal b mx q bd partial l = Some (Inl e, sb', ino')"
      using c(1) by (simp add: alloc_tail_def kr_alloc_branch_def)
    moreover have "created sb ino b mx (Inl e) sb' ino'"
      using none(2) taken_frame [OF none(2) ok(2)] same_but_counter_super same_but_blocks_kind taken_window [OF none(2) ok(3)]
      by (simp add: created_def taken_def)
    ultimately show ?thesis by blast
  next
    case (some inds first num sb1 ino1)
    let ?B = "set inds \<union> {first..<first + num}"
    have B: "?B \<subseteq> free_set sb" "free_set sb1 = free_set sb - ?B" "data_set sb1 = data_set sb \<union> ?B" "fs_ok sb1"
        "same_but_counter sb sb1" "same_but_blocks ino ino1"
      using some(7) by (simp_all add: taken_def)
    have rng: "0 < x \<and> x < 4294967296" if "x \<in> ?B" for x
    proof -
      have x: "x \<in> free_set sb" using B(1) that by blast
      then have "x \<noteq> 0" "uint (es_first_data_block (es sb)) \<le> x" "x < uint (es_blocks_count (es sb))"
        using ok(4) by (metis, simp_all add: free_set_def)
      then show ?thesis using uint_ge_0 [of "es_first_data_block (es sb)"] uint32_lt [of "es_blocks_count (es sb)"] by linarith
    qed
    note T = taken_frame [OF some(7) ok(2)]
    have np: "path_ok ?p (butlast q @ [last q + j])" if "0 \<le> j" "j < num" for j
      using next_path(1) [OF a b(1,2), of j] that some(5) c(4) by (simp add: q_def bd_def)
    have offs: "length (drop l q) = length inds" "\<forall>x \<in> set (drop l q). 0 \<le> x \<and> x < KR_ADDR_PER_BLOCK sb1"
    proof -
      show "length (drop l q) = length inds" using some(2) by simp
      have "\<forall>x \<in> set (tl q). 0 \<le> x \<and> x < ?p" using q(1) path_ok_iff [OF p16] by (simp add: positions_def)
      moreover have "set (drop l q) \<subseteq> set (tl q)" using F(1) by (cases l) (auto simp: drop_Suc dest: in_set_dropD)
      ultimately show "\<forall>x \<in> set (drop l q). 0 \<le> x \<and> x < KR_ADDR_PER_BLOCK sb1" using T(4) by auto
    qed
    have lastq: "last (drop l q) + num \<le> KR_ADDR_PER_BLOCK sb1" if "inds \<noteq> []"
    proof -
      have l: "l < length q" using that some(2) by (cases inds) auto
      then have "butlast q \<noteq> []" using F(1) by (cases q rule: rev_cases) auto
      then have "last q + (num - 1) < ?p" using np [of "num - 1"] some(4) path_ok_iff [OF p16] positions_append [of "butlast q"] by auto
      then show ?thesis using l T(4) by simp
    qed
    obtain cs f where i: "init_branch k sb1 inds (drop l q) first num = Some (Inr cs, sb1\<lparr>b_ind := f\<rparr>)"
        "\<And>b. b \<notin> set inds \<Longrightarrow> f b = b_ind sb1 b"
        "\<And>i. i < length inds \<Longrightarrow> int (length (f (inds ! i))) = ?p"
        "\<And>i x. i < length inds \<Longrightarrow> 0 \<le> x \<Longrightarrow> x < ?p \<Longrightarrow> f (inds ! i) ! nat x = fresh_entry inds (drop l q) first num i x"
        "length cs = length inds" "inds \<noteq> [] \<longrightarrow> ind_key (last cs) = word_of_int first"
      using init_branch_ok [OF k(1) offs some(4) lastq some(3), of first] unfolding T(4) by blast
    define w where "w = partial\<lparr>ind_key := word_of_int (hd (inds @ [first]))\<rparr>"
    have hd: "hd (inds @ [first]) = (case inds of [] \<Rightarrow> first | b # _ \<Rightarrow> b)" by (cases inds) simp_all
    have d: "drop 1 (drop (l - 1) q) = drop l q" using F(1) by simp
    have br: "kr_alloc_branch k sb ino (length q - l) c goal (drop (l - 1) q) partial = Some (Inr (w # cs, num), sb1\<lparr>b_ind := f\<rparr>, ino1)"
      using some(1) i(1) unfolding kr_alloc_branch_def d by (simp add: w_def hd)
    have dax: "\<not> IS_DAX ino1" using ok(5) same_but_blocksD(5) [OF B(6)] by (simp add: IS_DAX_def)
    let ?W = "if l < length q then 1 else num" and ?P = "last_slot sb ino (take l q)"
    have si: "set inds \<subseteq> ?B" by blast
    note S = splice_grows [OF ok(2) q l_def [THEN meta_eq_to_obj_eq] some(4) np some(7,2) si _ i(2-4)]
    have W: "?W = (if cs = [] then num else 1)" using i(5) some(2) F(2) by auto
    have key: "hd (inds @ [first]) \<in> ?B" using some(4) by (cases inds) auto
    obtain sb2 ino2 ino3 where s: "kr_splice_branch k (sb1\<lparr>b_ind := f\<rparr>) ino1 b (w # cs) num = Some (sb2, ino3)"
        "written (sb1\<lparr>b_ind := f\<rparr>) ino1 ?P ?W (hd (inds @ [first])) sb2 ino2" "i_data ino3 = i_data ino2" "same_kind ino1 ino3"
        "i_block_alloc_info ino1 = None \<Longrightarrow> i_block_alloc_info ino3 = None"
      by (rule kr_splice_branch_written [of ?W "sb1\<lparr>b_ind := f\<rparr>" ino1 w cs num "hd (inds @ [first])" k b])
        (use S(1) rng W some(4) rng [OF key] partial in \<open>auto simp: w_def\<close>)
    have g: "file_grows sb ino q l inds first num sb2 ino3" by (rule S(2)) (use rng s(2,3) in blast)+
    obtain h where h: "sb2 = sb1\<lparr>b_ind := h\<rparr>" using s(2) by (auto simp: written_def)
    have st: "fs_ok sb2" "free_set sb2 = free_set sb - ?B" "data_set sb2 = data_set sb \<union> ?B" "kr_block_to_path sb2 = kr_block_to_path sb"
        "same_super sb sb2"
    proof -
      show "fs_ok sb2" "free_set sb2 = free_set sb - ?B" "data_set sb2 = data_set sb \<union> ?B" using B(2-4) by (simp_all add: h)
      have "same_but_counter sb sb2" using B(5) by (simp add: h same_but_counter_def)
      then show "kr_block_to_path sb2 = kr_block_to_path sb" "same_super sb sb2"
        by (rule same_but_counter_path, rule same_but_counter_super)
    qed
    have kind: "same_kind ino ino3" using same_kind_trans [OF same_but_blocks_kind [OF B(6)] s(4)] .
    have win: "windowless sb2 ino3"
    proof -
      have "windowless sb ino3 \<or> i_block_alloc_info ino = None" using ok(3) kind by (auto simp: windowless_def same_kind_def)
      moreover have "rsv_node sb2 = rsv_node sb" using B(5) by (simp add: h same_but_counter_def)
      moreover have "i_block_alloc_info ino3 = None" if "i_block_alloc_info ino = None"
        using that same_but_blocksD(3) [OF B(6)] s(5) by simp
      ultimately show ?thesis by (auto simp: windowless_def)
    qed
    have ab: "absent sb ino q num" using c(5) some(5) by (auto simp: absent_def)
    have disj: "new_set inds first num \<inter> data_set sb = {}" using B(1) free_not_data [of sb] unfolding new_set_def by blast
    note fo = grows_file_ok [OF g ab ok(2) some(3,6) disj rng [folded new_set_def] st(3) [folded new_set_def]]
    have bm: "block_map sb2 ino3 x = (if b \<le> x \<and> x < b + num then word_of_int (first + (x - b)) else block_map sb ino x)" for x
      by (rule grows_block_map [OF g b(1,2)]) (use some(5) c(4) st(4) in \<open>auto simp: q_def bd_def\<close>)
    have lk: "ind_key (last (w # cs)) = word_of_int first"
    proof (cases "inds = []")
      case True
      then show ?thesis using i(5) by (simp add: w_def)
    next
      case False
      then show ?thesis using i(5,6) by auto
    qed
    have uf: "uint (word_of_int first :: 32 word) = first" using rng [of first] some(4) by (intro word32_inj) auto
    have "alloc_tail k sb ino goal b mx q bd partial l = Some (got_it num bd (w # cs) True, sb2, ino3)"
      unfolding alloc_tail_def using c(1) br s(1) dax by simp
    moreover have "created sb ino b mx (got_it num bd (w # cs) True) sb2 ino3"
      unfolding created_def got_it_def lk using st fo bm some(4,5) c(3) B(1) kind win uf
      by (auto simp: new_set_def)
    ultimately show ?thesis by blast
  qed
qed

text \<open>The inode uses no reservation window, and will not get one either.\<close>

definition unreserved :: "kernel \<Rightarrow> super_block \<Rightarrow> inode \<Rightarrow> bool" where
  "unreserved k sb ino =
     (if i_block_alloc_info ino = None then S_ISREG (i_mode ino) \<and> k_kmalloc k \<longrightarrow> \<not> test_opt sb KR_MOUNT_RESERVATION
      else rsv_goal_size (rsv_node sb (rsv_of ino)) = 0)"

lemma init_block_alloc_info_window:
  assumes "unreserved k sb ino" "S_ISREG (i_mode ino)" "i_block_alloc_info ino = None" "kr_init_block_alloc_info k sb ino = (sb0, ino0)"
  shows "same_but_rsv sb sb0" "windowless sb0 ino0" "\<exists>a. ino0 = ino\<lparr>i_block_alloc_info := a\<rparr>"
proof -
  show "same_but_rsv sb sb0" "windowless sb0 ino0"
    using assms by (auto simp: kr_init_block_alloc_info_def unreserved_def windowless_def upd_rsv_def same_but_rsv_def without_rsv_def split: if_splits)
  show "\<exists>a. ino0 = ino\<lparr>i_block_alloc_info := a\<rparr>" using assms(4) by (auto simp: kr_init_block_alloc_info_def split: if_splits)
qed

lemma get_blocks_alloc_tail:
  "get_blocks_alloc k sb ino b mx q bd chain =
     (let (sb0, ino0) = (if S_ISREG (i_mode ino) \<and> i_block_alloc_info ino = None then kr_init_block_alloc_info k sb ino else (sb, ino))
      in alloc_tail k sb0 ino0 (kr_find_goal k sb0 ino0 b (last chain)) b mx q bd (last chain) (length chain))"
  by (simp add: get_blocks_alloc_def alloc_tail_def Let_def split: prod.splits)

lemma created_frame:
  assumes c: "created sb0 ino0 b mx res sb' ino'" and s: "same_but_rsv sb sb0" and d: "i_data ino0 = i_data ino" "same_kind ino ino0"
  shows "created sb ino b mx res sb' ino'"
proof -
  have o: "owned sb0 ino0 = owned sb ino" using rsv_frame(4) [OF s] data_frame(3) [OF d(1)] by simp
  have m: "block_map sb0 ino0 = block_map sb ino"
    using rsv_frame(1,2) [OF s] data_frame(1) [OF d(1), of sb] by (simp add: block_map_def fun_eq_iff data_frame(1) [OF d(1)])
  have f: "free_set sb0 = free_set sb" by (rule same_but_rsv_gdesc(7) [OF s])
  have "same_super sb0 sb' \<longrightarrow> same_super sb sb'" using s by (elim same_but_rsvE) (simp add: same_super_def)
  then show ?thesis using c same_kind_trans [OF d(2)] unfolding created_def o m f by blast
qed

lemma walk_chain_rsv: "b_ind sb' = b_ind sb \<Longrightarrow> walk_chain sb' key q = walk_chain sb key q"
  by (induction q arbitrary: key) (simp_all add: Let_def)

lemma branch_chain_frame:
  assumes "same_but_rsv sb sb0" "i_data ino0 = i_data ino"
  shows "branch_chain sb0 ino0 q = branch_chain sb ino q"
proof -
  have "b_ind sb0 = b_ind sb" using assms(1) by (elim same_but_rsvE) simp
  then show ?thesis using assms(2) by (cases q) (simp_all add: walk_chain_rsv [of sb0 sb])
qed

lemma get_blocks_alloc_created:
  assumes k: "io_ok k" "quota_ok k" and ok: "fs_ok sb" "file_ok sb ino" "unreserved k sb ino" "0 \<notin> free_set sb" "\<not> IS_DAX ino"
    and b: "0 \<le> b" "b < file_blocks (KR_ADDR_PER_BLOCK sb)" "block_map sb ino b = 0" and mx: "1 \<le> mx"
    and p: "kr_block_to_path sb b = (q, bd)"
  shows "\<exists>res sb' ino'. get_blocks_alloc k sb ino b mx q bd (branch_chain sb ino q) = Some (res, sb', ino') \<and> created sb ino b mx res sb' ino'"
proof -
  let ?c = "branch_chain sb ino q"
  obtain sb0 ino0 where i: "(if S_ISREG (i_mode ino) \<and> i_block_alloc_info ino = None then kr_init_block_alloc_info k sb ino else (sb, ino)) = (sb0, ino0)"
    by (cases "if S_ISREG (i_mode ino) \<and> i_block_alloc_info ino = None then kr_init_block_alloc_info k sb ino else (sb, ino)") blast
  have s: "same_but_rsv sb sb0 \<and> windowless sb0 ino0 \<and> i_data ino0 = i_data ino \<and> same_kind ino ino0"
  proof (cases "S_ISREG (i_mode ino) \<and> i_block_alloc_info ino = None")
    case True
    then show ?thesis using init_block_alloc_info_window [OF ok(3), of sb0 ino0] i by (auto simp: same_kind_def)
  next
    case False
    then show ?thesis using ok(3) i by (auto simp: windowless_def unreserved_def same_kind_def split: if_splits)
  qed
  then have s: "same_but_rsv sb sb0" "windowless sb0 ino0" "i_data ino0 = i_data ino" "same_kind ino ino0" by blast+
  have e: "branch_chain sb0 ino0 q = ?c" by (rule branch_chain_frame [OF s(1,3)])
  have w: "walk_path sb0 ino0 = walk_path sb ino" using rsv_frame(1) [OF s(1)] data_frame(1) [OF s(3)] by simp
  have pt: "kr_block_to_path sb0 = kr_block_to_path sb" by (rule rsv_frame(2) [OF s(1)])
  have ad: "KR_ADDR_PER_BLOCK sb0 = KR_ADDR_PER_BLOCK sb" using s(1) by (elim same_but_rsvE) (simp add: KR_ADDR_PER_BLOCK_def)
  have f0: "fs_ok sb0" "file_ok sb0 ino0" "0 \<notin> free_set sb0" "\<not> IS_DAX ino0" "block_map sb0 ino0 b = 0" "b < file_blocks (KR_ADDR_PER_BLOCK sb0)"
    using ok b same_but_rsv_gdesc(6,7) [OF s(1)] rsv_frame(3) [OF s(1) ok(2)] data_frame(4) [OF s(3)] s(4)
    by (simp_all add: IS_DAX_def block_map_def w pt ad same_kind_def)
  have pa: "path_ok (KR_ADDR_PER_BLOCK sb0) q" "walk_path sb0 ino0 q = 0"
    using block_to_path_eq(1) [of sb0 b] f0 b(1) p unfolding pt by (simp_all add: file_ok_def tree_ok_def block_map_def pt)
  have t0: "tree_ok sb0 ino0" using f0(2) by (simp add: file_ok_def)
  have la: "ind_p (last ?c) = last_slot sb0 ino0 (take (length ?c) q)" using first_absent(5) [OF t0 pa] unfolding e .
  have "\<exists>res sb' ino'. alloc_tail k sb0 ino0 (kr_find_goal k sb0 ino0 b (last ?c)) b mx q bd (last ?c) (length ?c) = Some (res, sb', ino') \<and>
      created sb0 ino0 b mx res sb' ino'"
    using alloc_tail_created [OF k f0(1,2) s(2) f0(3,4) b(1) f0(6,5) mx, of "last ?c" "kr_find_goal k sb0 ino0 b (last ?c)"] la
    unfolding pt p fst_conv snd_conv e by blast
  then show ?thesis unfolding get_blocks_alloc_tail i Let_def prod.case using created_frame [OF _ s(1,3,4)] by blast
qed

text \<open>The conditions under which blocks can be allocated hold again afterwards.\<close>

lemma created_unreserved:
  assumes "created sb ino b mx res sb' ino'" "unreserved k sb ino"
  shows "unreserved k sb' ino'"
proof -
  have c: "windowless sb' ino'" "i_block_alloc_info ino' = None \<longrightarrow> i_block_alloc_info ino = None" "i_mode ino' = i_mode ino" "same_super sb sb'"
    using assms(1) by (simp_all add: created_def same_kind_def)
  have "s_mount_opt (sbi sb') = s_mount_opt (sbi sb)" using c(4) by (cases "sbi sb"; cases "sbi sb'") (simp add: same_super_def)
  then show ?thesis using c(1-3) assms(2) by (auto simp: unreserved_def windowless_def test_opt_def split: if_splits)
qed

text \<open>
  A lookup that may create: a block that is there is found, as by a lookup that may not; for one
  that is absent a run of blocks is allocated.
\<close>

lemma kr_get_blocks_create:
  assumes k: "io_ok k" "quota_ok k" and ok: "fs_ok sb" "file_ok sb ino" "unreserved k sb ino" "0 \<notin> free_set sb" "\<not> IS_DAX ino"
    and b: "0 \<le> b" "b < file_blocks (KR_ADDR_PER_BLOCK sb)" and mx: "1 \<le> mx"
  shows "\<exists>res sb' ino'. kr_get_blocks k sb ino b mx True = Some (res, sb', ino') \<and>
     (if block_map sb ino b = 0 then created sb ino b mx res sb' ino'
      else kr_get_blocks k sb ino b mx False = Some (res, sb', ino') \<and> sb' = sb \<and> ino' = ino)"
proof -
  have t: "tree_ok sb ino" "addr_ok sb" using ok(2) by (simp_all add: file_ok_def tree_ok_def)
  obtain q bd where p: "kr_block_to_path sb b = (q, bd)" by (cases "kr_block_to_path sb b")
  have q: "path_ok (KR_ADDR_PER_BLOCK sb) q" using block_to_path_eq(1) [OF t(2) b] p by simp
  note br = kr_get_branch_chain [OF k(1) t(1) q]
  have w: "walk_path sb ino q = block_map sb ino b" by (simp add: block_map_def p)
  have ne: "q \<noteq> []" using q by auto
  show ?thesis
  proof (cases "block_map sb ino b = 0")
    case True
    have "kr_get_blocks k sb ino b mx True = get_blocks_alloc k sb ino b mx q bd (branch_chain sb ino q)"
      using br ne mx True by (simp add: kr_get_blocks_def p w)
    then show ?thesis using get_blocks_alloc_created [OF k ok b True mx p] True by simp
  next
    case False
    obtain res where r: "kr_get_blocks k sb ino b mx False = Some (Inr res, sb, ino)" using kr_get_blocks_lookup [OF k(1) t(1) mx b] by blast
    have "kr_get_blocks k sb ino b mx True = kr_get_blocks k sb ino b mx False" if "\<And>c. map_more sb ino (branch_chain sb ino q) (uint (ind_key (last (branch_chain sb ino q)))) mx (nat bd) 1 \<noteq> Some (c, Some EAGAIN)"
      using br ne mx False that
      by (cases "map_more sb ino (branch_chain sb ino q) (uint (ind_key (last (branch_chain sb ino q)))) mx (nat bd) 1")
        (auto simp: kr_get_blocks_def p w)
    moreover have "map_more sb ino (branch_chain sb ino q) f m n c \<noteq> Some (c', Some EAGAIN)" for f m n c c'
      using br by (induction n arbitrary: c) (auto simp: bind_eq_Some_conv)
    ultimately show ?thesis using r False by simp
  qed
qed

end
