(* ===== verification/Kr_File_Example.thy ===== *)
theory Kr_File_Example
  imports Kr_Truncate_Path Kr_Example
begin

text \<open>
  A file on the small file system, now with blocks of 1024 bytes: its first block is block 6, and
  the single indirect block 7 maps block 8.
\<close>

definition ex_file_sb :: super_block where
  "ex_file_sb = ex_sb\<lparr>s_blocksize := 1024, s_blocksize_bits := 10,
     sbi := ex_sbi\<lparr>s_addr_per_block_bits := 8, s_freeblocks_counter := 8\<rparr>,
     s_group_desc := [Some [ex_desc\<lparr>bg_free_blocks_count := 8\<rparr>]],
     b_data := (\<lambda>b. if b = 3 then replicate 8 True @ replicate 8 False else b_data ex_sb b),
     b_ind := (\<lambda>b. if b = 7 then 8 # replicate 255 0 else replicate 256 0)\<rparr>"

definition ex_file :: inode where
  "ex_file = ex_inode\<lparr>i_size := 13312, i_blocks := 6, i_data := [6, 0, 0, 0, 0, 0, 0, 0, 0, 0, 0, 0, 7, 0, 0]\<rparr>"

lemma ex_file_sb_fields [simp]:
  "es ex_file_sb = ex_es" "gdesc ex_file_sb 0 = ex_desc\<lparr>bg_free_blocks_count := 8\<rparr>" "s_groups_count (sbi ex_file_sb) = 1"
  "kr_group_first_block_no ex_file_sb 0 = 1" "s_blocks_per_group (sbi ex_file_sb) = 16" "s_itb_per_group (sbi ex_file_sb) = 1"
  "KR_ADDR_PER_BLOCK ex_file_sb = 256"
  by (simp_all add: ex_file_sb_def ex_sb_def ex_sbi_def ex_es_def gdesc_def desc_block_def desc_offset_def
      kr_group_first_block_no_def u64_def KR_ADDR_PER_BLOCK_def)

lemma ex_file_sb_bitmap: "group_bitmap ex_file_sb 0 = replicate 8 True @ replicate 8 False"
  by (simp add: ex_desc_def) (simp add: ex_file_sb_def)

lemma ex_file_sb_ok: "fs_ok ex_file_sb"
proof -
  have "desc_loaded ex_file_sb 0" by code_simp
  then have gd: "gd_ok ex_file_sb" by (simp add: gd_ok_def one_group) (simp add: ex_file_sb_def ex_sbi_def)
  have "metadata_block ex_file_sb 0 (1 + int i) \<Longrightarrow> i < 8" for i
    by (auto simp: metadata_block_def ex_desc_def)
  moreover have "zero_bits (group_bitmap ex_file_sb 0) 16 = 8" by code_simp
  ultimately have "group_ok ex_file_sb 0"
    unfolding group_ok_def Let_def ex_file_sb_bitmap
    by (auto simp: group_geometry_def bitmap_buffer_def nth_append ex_desc_def ex_es_def intro: less_trans)
  then show ?thesis using gd by (simp add: fs_ok_def ex_es_def one_group)
qed

lemma ex_file_tree: "tree_ok ex_file_sb ex_file"
  by (simp add: tree_ok_def addr_ok_def) (simp add: ex_file_sb_def ex_file_def)


lemma ex_file_live: "live ex_file_sb ex_file = {[0], [12], [12, 0]}"
proof (intro equalityI subsetI)
  fix q
  assume "q \<in> live ex_file_sb ex_file"
  then have q: "q \<in> positions 256" "walk_path ex_file_sb ex_file q \<noteq> 0" by (simp_all add: live_def)
  obtain x r where xr: "q = x # r" "0 \<le> x" "x < 15" "length r \<le> tree_depth x" "\<forall>y \<in> set r. 0 \<le> y \<and> y < 256"
    using q(1) by (cases q) (auto simp: positions_def)
  have "list_all (\<lambda>x. i_data ex_file ! nat x = 0 \<or> x = 0 \<or> x = 12) [0..14]" by code_simp
  then have "i_data ex_file ! nat x = 0 \<or> x = 0 \<or> x = 12" using xr by (simp add: list_all_iff)
  moreover have "i_data ex_file ! nat x \<noteq> 0" using q(2) xr(1) by auto
  ultimately consider "x = 0" | "x = 12" by blast
  then show "q \<in> {[0], [12], [12, 0]}"
  proof cases
    case 1
    then show ?thesis using xr by (simp add: tree_depth_def)
  next
    case 2
    show ?thesis
    proof (cases r)
      case (Cons y s)
      then have s: "s = []" "0 \<le> y" "y < 256" using xr 2 by (auto simp: tree_depth_def)
      have "list_all (\<lambda>y. b_ind ex_file_sb 7 ! nat y = 0 \<or> y = 0) [0..255]" by code_simp
      then have "b_ind ex_file_sb 7 ! nat y = 0 \<or> y = 0" using s by (simp add: list_all_iff)
      moreover have "i_data ex_file ! 12 = 7" by code_simp
      ultimately have "y = 0" using q(2) xr(1) 2 Cons s by (auto split: if_splits)
      then show ?thesis using xr 2 Cons s by simp
    qed (use xr 2 in simp)
  qed
next
  fix q
  assume "q \<in> {[0], [12], [12, 0 :: int]}"
  moreover have "walk_path ex_file_sb ex_file [0] = 6" "walk_path ex_file_sb ex_file [12] = 7"
    "walk_path ex_file_sb ex_file [12, 0] = 8" by code_simp+
  ultimately show "q \<in> live ex_file_sb ex_file" by (auto simp: live_def positions_def tree_depth_def)
qed

lemma ex_file_ok: "file_ok ex_file_sb ex_file"
proof -
  have w: "walk_path ex_file_sb ex_file [0] = 6" "walk_path ex_file_sb ex_file [12] = 7"
    "walk_path ex_file_sb ex_file [12, 0] = 8" by code_simp+
  have g: "group_of ex_file_sb b = 0" if "1 \<le> b" "b < 17" for b using that by (simp add: group_of_def ex_es_def)
  have "b \<in> data_set ex_file_sb" if "b = 6 \<or> b = 7 \<or> b = 8" for b
    using that g [of b] ex_file_sb_bitmap
    by (auto simp: data_set_def block_used_def bit_of_def metadata_block_def ex_es_def ex_desc_def nth_append)
  then show ?thesis
    unfolding file_ok_def owned_def ex_file_live using ex_file_tree by (simp add: w del: walk_path.simps)
qed

end
