(* ===== verification/Kr_File_Spec.thy ===== *)
theory Kr_File_Spec
  imports Kr_Inode_Disk Kr_Create Kr_File_Example Kr_Ialloc_Spec Kr_Super_Spec
begin

text \<open>
  The theorems about the block map, truncation and inodes, with the example file they are applied
  to.
\<close>

section \<open>The example file\<close>

lemma ex_file_sb_ialloc: "ialloc_ok ex_file_sb"
proof -
  have "inode_bitmap ex_file_sb 0 = [True, True] @ replicate 6 False" by code_simp
  moreover have "bg_inode_bitmap (gdesc ex_file_sb 0) = 4" "bg_block_bitmap (gdesc ex_file_sb 0) = 3"
    "bg_free_inodes_count (gdesc ex_file_sb 0) = 6" by (simp_all add: ex_desc_def)
  moreover have "KR_INODES_PER_GROUP ex_file_sb = 8" "KR_FIRST_INO ex_file_sb = 2" "length (s_debts (sbi ex_file_sb)) = 1"
    by (simp_all add: ex_file_sb_def ex_sbi_def)
  moreover have "zero_bits ([True, True] @ replicate 6 False) 8 = 6" by code_simp
  ultimately have "inode_group_ok ex_file_sb 0"
    by (auto simp: inode_group_ok_def Let_def ex_es_def nth_append nth_Cons split: nat.splits)
  moreover have "few_groups ex_file_sb" using ex_file_sb_ok by (simp add: few_groups_def fs_ok_def)
  ultimately show ?thesis
    using ex_file_sb_ok \<open>KR_INODES_PER_GROUP ex_file_sb = 8\<close> \<open>KR_FIRST_INO ex_file_sb = 2\<close> \<open>length (s_debts (sbi ex_file_sb)) = 1\<close>
    by (simp add: ialloc_ok_def one_group ex_es_def)
qed

lemma ex_file_sb_itable: "itable_ok ex_file_sb"
  by (simp add: itable_ok_def ex_file_sb_def ex_sbi_def)

lemma ex_file_sb_inode: "inode_in_use ex_file_sb 2" "known_inode ex_file_sb 2" "known_inode ex_file_sb 3"
proof -
  have "inode_bitmap ex_file_sb (inode_group ex_file_sb 2) ! inode_index ex_file_sb 2" by code_simp
  then show "inode_in_use ex_file_sb 2" by (simp add: inode_in_use_def free_inodes_def) (simp add: ex_file_sb_def ex_sbi_def ex_es_def)
  show "known_inode ex_file_sb 2" "known_inode ex_file_sb 3" by (simp_all add: known_inode_def) (simp_all add: ex_file_sb_def ex_sbi_def ex_es_def)
qed

lemma ex_file_truncatable: "truncatable ex_file_sb ex_file"
  by code_simp

definition ex_vfs :: vfs where
  "ex_vfs =
     \<lparr>v_init_special_inode = (\<lambda>i m d. i\<lparr>i_rdev := d\<rparr>), v_is_bad_inode = (\<lambda>i. False), v_needs_sync = (\<lambda>i. False),
      v_dirty = (\<lambda>i. True), v_truncate_page = (\<lambda>p i n. None), v_setattr_prepare = (\<lambda>i a. None),
      v_is_quota_modification = (\<lambda>i a. False), v_dquot_transfer = (\<lambda>i a. None), v_setattr_copy = (\<lambda>i a. i),
      v_posix_acl_chmod = (\<lambda>i m. None)\<rparr>"

section \<open>The block map\<close>

text \<open>
  \<^verbatim>\<open>kr_block_to_path\<close> finds the one path of a block: for a block of the addressable range the
  path is well formed, its place is that block, and the boundary is the number of blocks that
  follow in the same array of pointers; for every other number there is no path.
\<close>

theorem kr_block_to_path_correct:
  assumes "addr_ok sb"
  shows "let p = KR_ADDR_PER_BLOCK sb; (path, boundary) = kr_block_to_path sb b in
    if 0 \<le> b \<and> b < file_blocks p
    then path_ok p path \<and> path_block p path = b \<and> boundary = (if b < KR_NDIR_BLOCKS then KR_NDIR_BLOCKS else p) - 1 - last path
    else path = []"
proof (cases "0 \<le> b \<and> b < file_blocks (KR_ADDR_PER_BLOCK sb)")
  case True
  then show ?thesis using block_to_path_eq [OF assms] by (simp add: Let_def split_beta)
next
  case False
  then have "fst (kr_block_to_path sb b) = []" using block_to_path_out [OF assms] by force
  then show ?thesis using False by (simp add: Let_def split_beta)
qed

theorem kr_block_to_path_correct_witness: "kr_block_to_path ex_sb_1k 300 = ([13, 0, 32], 223)"
proof -
  have "path_ok 256 (fst (kr_block_to_path ex_sb_1k 300)) \<and> path_block 256 (fst (kr_block_to_path ex_sb_1k 300)) = 300"
    using kr_block_to_path_correct [OF ex_sb_1k_addr(1), of 300]
    by (simp add: ex_sb_1k_addr(2) Let_def split_beta file_blocks_def)
  then show ?thesis by code_simp
qed

text \<open>
  C23. Looking a block up returns without changing anything, and reports what the block map says:
  nothing if the block is absent, otherwise its number and the length of a run of consecutive
  blocks from there on, which ends early only at the boundary or where the blocks stop being
  consecutive.
\<close>

theorem kr_get_blocks_correct:
  assumes "io_ok k" "tree_ok sb ino" "1 \<le> mx" "0 \<le> b" "b < file_blocks (KR_ADDR_PER_BLOCK sb)"
  shows "\<exists>res. kr_get_blocks k sb ino b mx False = Some (Inr res, sb, ino) \<and>
     (case res of
        None \<Rightarrow> block_map sb ino b = 0
      | Some m \<Rightarrow> m_bno m = block_map sb ino b \<and> m_bno m \<noteq> 0 \<and> 1 \<le> m_count m \<and> m_count m \<le> mx \<and>
          mapped_run sb ino b (m_count m) \<and> \<not> m_new m \<and>
          (m_count m < mx \<and> \<not> m_boundary m \<longrightarrow>
             uint (block_map sb ino (b + m_count m)) \<noteq> uint (m_bno m) + m_count m))"
  by (rule kr_get_blocks_lookup [OF assms])

theorem kr_get_blocks_correct_witness:
  "\<exists>res. kr_get_blocks ex_kernel ex_file_sb ex_file 12 4 False = Some (Inr res, ex_file_sb, ex_file) \<and> res \<noteq> None"
proof -
  have "block_map ex_file_sb ex_file 12 = 8" by code_simp
  then show ?thesis
    using kr_get_blocks_correct [OF ex_kernel_io ex_file_tree, of 4 12] by (auto simp: file_blocks_def split: option.splits)
qed

section \<open>Allocation\<close>

text \<open>
  C22. Looking a block up with leave to create returns. A block that is there is found and nothing
  changes. For a block that is absent, either the file and the free blocks stay as they were and
  the errno is returned, or a run of at most \<open>mx\<close> blocks that were free is mapped from there on: the
  block map changes nowhere else, the file stays in order, and it owns exactly what it owned before
  and the blocks that are no longer free, so that no new indirect block is lost or shared. The inode uses no reservation
  window, and block 0 is in use.
\<close>

theorem kr_get_blocks_create_correct:
  assumes "io_ok k" "quota_ok k" "fs_ok sb" "file_ok sb ino" "unreserved k sb ino" "0 \<notin> free_set sb" "\<not> IS_DAX ino"
    and "0 \<le> b" "b < file_blocks (KR_ADDR_PER_BLOCK sb)" "1 \<le> mx"
  shows "\<exists>res sb' ino'. kr_get_blocks k sb ino b mx True = Some (res, sb', ino') \<and> fs_ok sb' \<and> file_ok sb' ino' \<and>
     owned sb' ino' = owned sb ino \<union> (free_set sb - free_set sb') \<and> free_set sb' \<subseteq> free_set sb \<and>
     (case res of
        Inl e \<Rightarrow> block_map sb ino b = 0 \<and> block_map sb' ino' = block_map sb ino \<and> free_set sb' = free_set sb
      | Inr None \<Rightarrow> False
      | Inr (Some m) \<Rightarrow> 1 \<le> m_count m \<and> m_count m \<le> mx \<and> m_new m = (block_map sb ino b = 0) \<and>
          (if m_new m
           then {uint (m_bno m)..<uint (m_bno m) + m_count m} \<subseteq> free_set sb - free_set sb' \<and>
             (\<forall>x. block_map sb' ino' x =
               (if b \<le> x \<and> x < b + m_count m then word_of_int (uint (m_bno m) + (x - b)) else block_map sb ino x))
           else sb' = sb \<and> ino' = ino \<and> m_bno m = block_map sb ino b \<and> mapped_run sb ino b (m_count m)))"
proof -
  obtain res sb' ino' where r: "kr_get_blocks k sb ino b mx True = Some (res, sb', ino')"
      "if block_map sb ino b = 0 then created sb ino b mx res sb' ino'
       else kr_get_blocks k sb ino b mx False = Some (res, sb', ino') \<and> sb' = sb \<and> ino' = ino"
    using kr_get_blocks_create [OF assms] by blast
  show ?thesis
  proof (cases "block_map sb ino b = 0")
    case True
    then have "created sb ino b mx res sb' ino'" using r(2) by simp
    then show ?thesis unfolding created_def
      by (intro exI [of _ res] exI [of _ sb'] exI [of _ ino']) (use r(1) True in \<open>auto split: sum.splits option.splits\<close>)
  next
    case False
    have t: "tree_ok sb ino" using assms(4) by (simp add: file_ok_def)
    have "res = Inr x \<Longrightarrow> x \<noteq> None" "\<nexists>e. res = Inl e"
      "res = Inr (Some m) \<Longrightarrow> m_bno m = block_map sb ino b \<and> 1 \<le> m_count m \<and> m_count m \<le> mx \<and> mapped_run sb ino b (m_count m) \<and> \<not> m_new m" for x m
      using kr_get_blocks_lookup [OF assms(1) t assms(10,8,9)] r(2) False by (auto split: option.splits)
    then show ?thesis using r False assms(3,4)
      by (intro exI [of _ res] exI [of _ sb] exI [of _ ino]) (auto split: sum.splits option.splits)
  qed
qed

lemma ex_file_unreserved: "unreserved ex_kernel ex_file_sb ex_file" "0 \<notin> free_set ex_file_sb" "\<not> IS_DAX ex_file"
proof -
  show "unreserved ex_kernel ex_file_sb ex_file" by code_simp
  show "0 \<notin> free_set ex_file_sb" by (simp add: free_set_def ex_es_def)
  show "\<not> IS_DAX ex_file" by code_simp
qed

theorem kr_get_blocks_create_correct_witness:
  "\<exists>m sb' ino'. kr_get_blocks ex_kernel ex_file_sb ex_file 273 3 True = Some (Inr (Some m), sb', ino') \<and> file_ok sb' ino' \<and>
     block_map sb' ino' 273 = m_bno m \<and> block_map sb' ino' 12 = 8"
proof -
  have m: "block_map ex_file_sb ex_file 273 = 0" "block_map ex_file_sb ex_file 12 = 8" by code_simp+
  have "map_option fst (kr_get_blocks ex_kernel ex_file_sb ex_file 273 3 True) =
      Some (Inr (Some \<lparr>m_count = 3, m_bno = 11, m_new = True, m_boundary = False\<rparr>))" by code_simp
  then obtain s where ok: "kr_get_blocks ex_kernel ex_file_sb ex_file 273 3 True =
      Some (Inr (Some \<lparr>m_count = 3, m_bno = 11, m_new = True, m_boundary = False\<rparr>), s)" by (auto simp: map_option_eq_Some)
  show ?thesis
    using kr_get_blocks_create_correct [OF ex_kernel_io ex_kernel_quota ex_file_sb_ok ex_file_ok ex_file_unreserved, of 273 3] ok m
    by (cases s) (simp add: file_blocks_def)
qed

section \<open>Truncation\<close>

text \<open>
  C19. Truncating a file returns. The file then maps the blocks before the new end as before and no
  other, it stays in order, and the blocks that became free are exactly those it gave up: nothing
  that is still in use is freed and nothing that was given up is lost. No inode is affected.
\<close>

theorem kr_truncate_blocks_correct:
  assumes "io_ok k" "quota_ok k" "fs_ok sb" "file_ok sb ino" "truncatable sb ino" "0 \<le> offset" "1 \<le> s_blocksize sb"
  shows "\<exists>sb' ino'. kr_truncate_blocks k sb ino offset = Some (sb', ino') \<and>
     truncated sb ino (drop_bit (s_blocksize_bits sb) (offset + s_blocksize sb - 1)) sb' ino'"
  unfolding truncatable_eq [OF assms(5)] by (rule truncate_blocks_ok [OF assms(1-4,6,7)])

theorem kr_truncate_blocks_correct_witness:
  "\<exists>sb' ino'. kr_truncate_blocks ex_kernel ex_file_sb ex_file 1024 = Some (sb', ino') \<and>
     truncated ex_file_sb ex_file 1 sb' ino' \<and> block_map sb' ino' 0 = 6 \<and> block_map sb' ino' 12 = 0"
proof -
  have b: "s_blocksize ex_file_sb = 1024" "s_blocksize_bits ex_file_sb = 10" by (simp_all add: ex_file_sb_def)
  have m: "block_map ex_file_sb ex_file 0 = 6" by code_simp
  show ?thesis
    using kr_truncate_blocks_correct [OF ex_kernel_io ex_kernel_quota ex_file_sb_ok ex_file_ok ex_file_truncatable, of 1024] m
    by (auto simp: b truncated_def drop_bit_eq_div)
qed

text \<open>
  C25. Changing the size of a file returns. It either fails and changes nothing, or it succeeds: the
  file may be truncated, its size is then the new one, and its blocks are those before the new end.
\<close>

theorem kr_setsize_correct:
  assumes "io_ok k" "quota_ok k" "ialloc_ok sb" "itable_ok sb" "known_inode sb (i_ino ino)" "file_ok sb ino" "0 \<le> newsize"
  shows "\<exists>err sb' ino'. kr_setsize k v sb ino newsize = Some (err, sb', ino') \<and>
     (case err of
        Some e \<Rightarrow> sb' = sb \<and> ino' = ino
      | None \<Rightarrow> truncatable sb ino \<and> i_size ino' = newsize \<and>
          (\<forall>b. block_map sb' ino' b =
             (if b < drop_bit (s_blocksize_bits sb) (newsize + s_blocksize sb - 1) then block_map sb ino b else 0)))"
  by (rule setsize_ok [OF assms])

theorem kr_setsize_correct_witness:
  "\<exists>err sb' ino'. kr_setsize ex_kernel ex_vfs ex_file_sb ex_file 5000 = Some (err, sb', ino') \<and>
     (err = None \<longrightarrow> i_size ino' = 5000 \<and> block_map sb' ino' 0 = 6 \<and> block_map sb' ino' 12 = 0)"
proof -
  have b: "s_blocksize ex_file_sb = 1024" "s_blocksize_bits ex_file_sb = 10" by (simp_all add: ex_file_sb_def)
  have m: "block_map ex_file_sb ex_file 0 = 6" by code_simp
  have i: "i_ino ex_file = 2" by (simp add: ex_file_def ex_inode_def)
  show ?thesis
    using kr_setsize_correct [OF ex_kernel_io ex_kernel_quota ex_file_sb_ialloc ex_file_sb_itable _ ex_file_ok, of 5000 ex_vfs]
      ex_file_sb_inode(2) m by (auto simp: i b drop_bit_eq_div)
qed

section \<open>Inodes on disk\<close>

text \<open>
  \<^verbatim>\<open>kr_get_inode\<close> finds the place of an inode inside the inode table of the inode's group, with
  the whole inode inside one block, and two inodes never share a byte.
\<close>

theorem kr_get_inode_apart:
  assumes "io_ok k" "ialloc_ok sb" "itable_ok sb" "known_inode sb i" "known_inode sb j" "i \<noteq> j"
  shows "\<exists>b x c y. kr_get_inode k sb i = Some (Inr (b, x), sb) \<and> kr_get_inode k sb j = Some (Inr (c, y), sb) \<and>
     0 \<le> x \<and> x + s_inode_size (sbi sb) \<le> s_blocksize sb \<and>
     uint (bg_inode_table (gdesc sb (inode_group sb i))) \<le> b \<and>
     b < uint (bg_inode_table (gdesc sb (inode_group sb i))) + s_itb_per_group (sbi sb) \<and>
     (b = c \<longrightarrow> x + s_inode_size (sbi sb) \<le> y \<or> y + s_inode_size (sbi sb) \<le> x)"
proof -
  obtain b x c y where s: "inode_slot sb i = (b, x)" "inode_slot sb j = (c, y)" by force
  have "b = c \<longrightarrow> x + s_inode_size (sbi sb) \<le> y \<or> y + s_inode_size (sbi sb) \<le> x"
    using inode_slot_apart [OF assms(2-6), of b x y] s by blast
  then show ?thesis
    using kr_get_inode_eq [OF assms(1-4)] kr_get_inode_eq [OF assms(1-3,5)] s inode_slot_bounds [OF assms(2-4) s(1)] by auto
qed

theorem kr_get_inode_apart_witness:
  "\<exists>b x c y. kr_get_inode ex_kernel ex_file_sb 2 = Some (Inr (b, x), ex_file_sb) \<and>
     kr_get_inode ex_kernel ex_file_sb 3 = Some (Inr (c, y), ex_file_sb) \<and> x + 128 \<le> 1024"
  using kr_get_inode_apart [OF ex_kernel_io ex_file_sb_ialloc ex_file_sb_itable ex_file_sb_inode(2,3)]
  by (auto simp: ex_file_sb_def ex_sbi_def)

text \<open>
  C21. An inode that is written to disk and read back is the same in every field that the disk
  keeps, for regular files of any size and for directories: the size in its two halves, the owner in
  its two halves, the times, the flags in both their forms, the block pointers.
\<close>

theorem kr_write_iget_round_trip:
  assumes "io_ok k" "ialloc_ok sb" "itable_ok sb" "known_inode sb (i_ino ino)"
    "\<not> test_opt sb KR_MOUNT_NO_UID32" "fits_on_disk sb ino" "k_iget_locked k (i_ino ino) = Some (True, fresh)"
  shows "\<exists>err sb' ino' rd ops. kr_write_inode k sb ino sync_all = Some (err, sb', ino') \<and>
     kr_iget k v sb' (i_ino ino) = Some (Inr (rd, Some ops), sb') \<and> same_on_disk rd ino'"
  unfolding kr_write_inode_def by (rule write_iget [OF assms])

theorem kr_write_iget_round_trip_witness:
  "\<exists>err sb' ino' rd ops. kr_write_inode ex_kernel ex_file_sb ex_file True = Some (err, sb', ino') \<and>
     kr_iget ex_kernel ex_vfs sb' 2 = Some (Inr (rd, Some ops), sb') \<and> same_on_disk rd ino'"
proof -
  have i: "i_ino ex_file = 2" by (simp add: ex_file_def ex_inode_def)
  have "\<not> test_opt ex_file_sb KR_MOUNT_NO_UID32" "fits_on_disk ex_file_sb ex_file" by code_simp+
  moreover have "k_iget_locked ex_kernel 2 = Some (True, ex_inode)" by (simp add: ex_kernel_def)
  ultimately show ?thesis
    using kr_write_iget_round_trip [OF ex_kernel_io ex_file_sb_ialloc ex_file_sb_itable, of ex_file ex_inode True ex_vfs]
      ex_file_sb_inode(2) by (simp add: i)
qed

text \<open>
  C24. Writing an inode leaves the image of every other inode on the disk as it was.
\<close>

theorem kr_write_inode_isolated:
  assumes "io_ok k" "ialloc_ok sb" "itable_ok sb" "known_inode sb (i_ino ino)" "known_inode sb j" "j \<noteq> i_ino ino"
    "kr_write_inode k sb ino sync_all = Some (err, sb', ino')"
  shows "case inode_slot sb j of (b, off) \<Rightarrow> b_inode sb' b off = b_inode sb b off"
  by (rule write_isolated [OF assms(1-6) assms(7) [unfolded kr_write_inode_def]])

theorem kr_write_inode_isolated_witness:
  "\<exists>err sb' ino'. kr_write_inode ex_kernel ex_file_sb ex_file True = Some (err, sb', ino') \<and>
     (case inode_slot ex_file_sb 3 of (b, off) \<Rightarrow> b_inode sb' b off = b_inode ex_file_sb b off)"
proof -
  have i: "i_ino ex_file = 2" by (simp add: ex_file_def ex_inode_def)
  have n: "known_inode ex_file_sb (i_ino ex_file)" "3 \<noteq> i_ino ex_file" using ex_file_sb_inode(2) by (simp_all add: i)
  obtain err sb' ino' where w: "kr_write_inode ex_kernel ex_file_sb ex_file True = Some (err, sb', ino')"
    using kr_write_inode_sync_eq [OF ex_kernel_io ex_file_sb_ialloc ex_file_sb_itable n(1), of True]
    unfolding kr_write_inode_def by blast
  show ?thesis
    by (intro exI conjI, rule w)
      (rule kr_write_inode_isolated [OF ex_kernel_io ex_file_sb_ialloc ex_file_sb_itable n(1) ex_file_sb_inode(3) n(2) w])
qed

text \<open>
  C20. When the last link of an inode is gone and the VFS evicts it, eviction returns and exactly its
  number becomes a free inode. If it has blocks and may be truncated, exactly the blocks the file
  owned become free, its indirect blocks included; otherwise no block becomes free. An inode
  without blocks, a fast symbolic link or a device has none to give back, but the blocks of an
  append-only or immutable file stay in use.
\<close>

theorem kr_evict_inode_correct:
  assumes "io_ok k" "quota_ok k" "ialloc_ok sb" "itable_ok sb" "inode_in_use sb (i_ino ino)" "i_nlink ino = 0" "\<not> v_is_bad_inode v ino"
    and "truncatable sb ino \<Longrightarrow> i_blocks ino \<noteq> 0 \<Longrightarrow> file_ok sb ino"
  shows "\<exists>sb' ino'. kr_evict_inode k v sb ino = Some (sb', ino') \<and> ialloc_ok sb' \<and>
     free_set sb' = free_set sb \<union> (if truncatable sb ino \<and> i_blocks ino \<noteq> 0 then owned sb ino else {}) \<and>
     free_inodes sb' = insert (i_ino ino) (free_inodes sb)"
  by (rule evict_ok [OF assms])

theorem kr_evict_inode_correct_witness:
  "\<exists>sb' ino'. kr_evict_inode ex_kernel ex_vfs ex_file_sb (ex_file\<lparr>i_nlink := 0\<rparr>) = Some (sb', ino') \<and> ialloc_ok sb' \<and>
     free_set sb' = free_set ex_file_sb \<union> {6, 7, 8} \<and> free_inodes sb' = insert 2 (free_inodes ex_file_sb)"
proof -
  let ?f = "ex_file\<lparr>i_nlink := 0\<rparr>"
  have i: "i_ino ?f = 2" by (simp add: ex_file_def ex_inode_def)
  have f: "file_ok ex_file_sb ?f" "owned ex_file_sb ?f = owned ex_file_sb ex_file"
    using file_ok_view [of ex_file_sb ex_file_sb ?f ex_file] ex_file_ok by simp_all
  have w: "walk_path ex_file_sb ex_file [0] = 6" "walk_path ex_file_sb ex_file [12] = 7"
    "walk_path ex_file_sb ex_file [12, 0] = 8" by code_simp+
  have o: "owned ex_file_sb ex_file = {6, 7, 8}" unfolding owned_def ex_file_live by (simp add: w del: walk_path.simps)
  have t: "truncatable ex_file_sb ?f" by code_simp
  have "\<not> v_is_bad_inode ex_vfs ?f" "i_blocks ?f \<noteq> 0" by (simp_all add: ex_vfs_def ex_file_def)
  then show ?thesis
    using kr_evict_inode_correct [OF ex_kernel_io ex_kernel_quota ex_file_sb_ialloc ex_file_sb_itable, of ?f ex_vfs] t
      ex_file_sb_inode(1) f(1) by (simp add: i f(2) o)
qed

text \<open>
  C26. The flags of an inode survive the way from the disk form to the VFS form and back: copying
  them out again changes nothing.
\<close>

theorem inode_flags_round_trip: "kr_get_inode_flags (kr_set_inode_flags sb ino) = kr_set_inode_flags sb ino"
  by (rule kr_set_get_flags)

end
