(* ===== verification/Kr_Dir.thy ===== *)
theory Kr_Dir
  imports Kr_Inode
begin

text \<open>
  Directories (\<^verbatim>\<open>dir.c\<close>): the entries of a directory lie in the pages of its page cache, one
  after the other, each with the length that leads to the next one.

  \<^item> A page is kept as bytes. A \<^verbatim>\<open>kr_dirent *\<close> is an offset into its page, and a field of
    the entry is read from and written to the bytes, in little-endian order.
  \<^item> Every loop looks at an entry only where the header of the smallest entry still fits into
    the page, so that the reads stay in the page by their own guards; the one store without such
    a guard, in \<^verbatim>\<open>kr_set_link\<close>, is checked.
  \<^item> \<open>kr_fs\<close> is the memory that the operations on names share: the super block, the inodes
    and the pages and versions of directories, by inode number, so that two pointers to one
    directory see each other's changes. An inode in memory is addressed by its number. \<open>f_ops\<close>
    names the tables of operations installed in an inode.
  \<^item> The page cache is a parameter, the record \<open>pagecache\<close>. \<^verbatim>\<open>__block_write_begin\<close> is given
    \<^verbatim>\<open>kr_get_block\<close>, through which it allocates blocks.
  \<^item> \<^verbatim>\<open>PAGE_SIZE\<close> is 4096, so that the branches for pages of 64K are not compiled in. Page
    locks, reference counts, dirty marks and messages are not state of the model.
\<close>

section \<open>Model: bytes of a page\<close>

abbreviation (input) PAGE_SHIFT :: nat where "PAGE_SHIFT \<equiv> 12"
abbreviation (input) PAGE_SIZE :: int where "PAGE_SIZE \<equiv> 4096"
abbreviation (input) KR_NAME_LEN :: int where "KR_NAME_LEN \<equiv> 255"

type_synonym bytes = "int \<Rightarrow> 8 word"
type_synonym fname = "8 word list"

definition get16 :: "bytes \<Rightarrow> int \<Rightarrow> int" where
  "get16 p a = uint (p a) + 256 * uint (p (a + 1))"

definition get32 :: "bytes \<Rightarrow> int \<Rightarrow> int" where
  "get32 p a = get16 p a + 65536 * get16 p (a + 2)"

definition put8 :: "int \<Rightarrow> int \<Rightarrow> bytes \<Rightarrow> bytes" where
  "put8 a v p = p(a := word_of_int v)"

definition put16 :: "int \<Rightarrow> int \<Rightarrow> bytes \<Rightarrow> bytes" where
  "put16 a v p = p(a := word_of_int v, a + 1 := word_of_int (v div 256))"

definition put32 :: "int \<Rightarrow> int \<Rightarrow> bytes \<Rightarrow> bytes" where
  "put32 a v p = put16 (a + 2) (v div 65536) (put16 a v p)"

text \<open>\<^verbatim>\<open>memcpy\<close> into a page, and the bytes that \<^verbatim>\<open>memcmp\<close> reads.\<close>

fun put_bytes :: "int \<Rightarrow> 8 word list \<Rightarrow> bytes \<Rightarrow> bytes" where
  "put_bytes a [] p = p"
| "put_bytes a (b # bs) p = put_bytes (a + 1) bs (p(a := b))"

definition get_bytes :: "bytes \<Rightarrow> int \<Rightarrow> int \<Rightarrow> 8 word list" where
  "get_bytes p a n = map p [a..a + n - 1]"

section \<open>Model: directory entries\<close>

definition de_inode :: "bytes \<Rightarrow> int \<Rightarrow> int" where "de_inode p de = get32 p de"
definition de_name_len :: "bytes \<Rightarrow> int \<Rightarrow> int" where "de_name_len p de = uint (p (de + 6))"
definition de_file_type :: "bytes \<Rightarrow> int \<Rightarrow> int" where "de_file_type p de = uint (p (de + 7))"
definition de_name :: "bytes \<Rightarrow> int \<Rightarrow> fname" where "de_name p de = get_bytes p (de + 8) (de_name_len p de)"

definition set_de_inode :: "int \<Rightarrow> int \<Rightarrow> bytes \<Rightarrow> bytes" where "set_de_inode de v = put32 de v"
definition set_de_name_len :: "int \<Rightarrow> int \<Rightarrow> bytes \<Rightarrow> bytes" where "set_de_name_len de v = put8 (de + 6) v"
definition set_de_file_type :: "int \<Rightarrow> int \<Rightarrow> bytes \<Rightarrow> bytes" where "set_de_file_type de v = put8 (de + 7) v"

definition kr_rec_len_from_disk :: "bytes \<Rightarrow> int \<Rightarrow> int" where
  "kr_rec_len_from_disk p de = get16 p (de + 4)"

definition kr_rec_len_to_disk :: "int \<Rightarrow> int \<Rightarrow> bytes \<Rightarrow> bytes" where
  "kr_rec_len_to_disk de len = put16 (de + 4) len"

definition KR_DIR_REC_LEN :: "int \<Rightarrow> int" where
  "KR_DIR_REC_LEN name_len = (name_len + 8 + 3) AND NOT 3"

definition kr_match :: "fname \<Rightarrow> bytes \<Rightarrow> int \<Rightarrow> bool" where
  "kr_match name p de =
     (if int (length name) \<noteq> de_name_len p de then False
      else if de_inode p de = 0 then False
      else name = get_bytes p (de + 8) (int (length name)))"

definition kr_next_entry :: "bytes \<Rightarrow> int \<Rightarrow> int" where
  "kr_next_entry p de = de + kr_rec_len_from_disk p de"

text \<open>File types: \<^verbatim>\<open>kr_filetype_table\<close> (for \<^verbatim>\<open>readdir\<close>) and \<^verbatim>\<open>kr_type_by_mode\<close>.\<close>

definition KR_FT_MAX :: int where "KR_FT_MAX = 8"

definition kr_filetype_table :: "int list" where
  "kr_filetype_table = [0, 8, 4, 2, 6, 1, 12, 10]"

definition kr_type_by_mode :: "int list" where
  "kr_type_by_mode = [0, 5, 3, 0, 2, 0, 4, 0, 1, 0, 7, 0, 6, 0, 0]"

definition kr_set_de_type :: "super_block \<Rightarrow> inode \<Rightarrow> int \<Rightarrow> bytes \<Rightarrow> bytes option" where
  "kr_set_de_type sb ino de p =
     (if KR_HAS_INCOMPAT_FEATURE sb KR_FEATURE_INCOMPAT_FILETYPE then
        let t = unat (drop_bit 12 (i_mode ino AND S_IFMT)) in
        if t < length kr_type_by_mode then Some (set_de_file_type de (kr_type_by_mode ! t) p) else None
      else Some (set_de_file_type de 0 p))"

section \<open>Model: the state and the page cache\<close>

record page =
  p_data :: bytes
  p_checked :: bool
  p_error :: bool

record kr_fs =
  f_sb :: super_block
  f_inode :: "int \<Rightarrow> inode"
  f_page :: "int \<Rightarrow> int \<Rightarrow> page"
  f_version :: "int \<Rightarrow> 64 word"
  f_ops :: "int \<Rightarrow> inode_ops option"

type_synonym get_block_fn =
  "super_block \<Rightarrow> inode \<Rightarrow> int \<Rightarrow> int \<Rightarrow> bool \<Rightarrow>
   ((errno + (32 word \<times> int \<times> bool \<times> bool) option) \<times> super_block \<times> inode) option"

record pagecache =
  pc_read :: "int \<Rightarrow> int \<Rightarrow> errno option"      \<comment> \<open>\<^verbatim>\<open>read_mapping_page\<close> fails for the page of the directory\<close>
  pc_grab :: "int \<Rightarrow> bool"                   \<comment> \<open>\<^verbatim>\<open>grab_cache_page\<close> finds memory\<close>
  pc_write_begin :: "get_block_fn \<Rightarrow> super_block \<Rightarrow> inode \<Rightarrow> int \<Rightarrow> int \<Rightarrow>
                     (errno option \<times> super_block \<times> inode) option"   \<comment> \<open>\<^verbatim>\<open>__block_write_begin\<close>\<close>
  pc_write_page :: "int \<Rightarrow> int \<Rightarrow> errno option" \<comment> \<open>\<^verbatim>\<open>write_one_page\<close>\<close>
  pc_sync_inode :: "int \<Rightarrow> errno option"       \<comment> \<open>\<^verbatim>\<open>sync_inode_metadata\<close>\<close>

abbreviation (input) MS_SYNCHRONOUS :: "64 word" where "MS_SYNCHRONOUS \<equiv> 16"
abbreviation (input) MS_DIRSYNC :: "64 word" where "MS_DIRSYNC \<equiv> 128"

definition IS_DIRSYNC :: "super_block \<Rightarrow> inode \<Rightarrow> bool" where
  "IS_DIRSYNC sb ino =
     (s_flags sb AND (MS_SYNCHRONOUS OR MS_DIRSYNC) \<noteq> 0 \<or> vfs_flags ino AND (S_SYNC OR S_DIRSYNC) \<noteq> 0)"

definition upd_inode :: "int \<Rightarrow> (inode \<Rightarrow> inode) \<Rightarrow> kr_fs \<Rightarrow> kr_fs" where
  "upd_inode d f s = s\<lparr>f_inode := (f_inode s)(d := f (f_inode s d))\<rparr>"

definition upd_page :: "int \<Rightarrow> int \<Rightarrow> (page \<Rightarrow> page) \<Rightarrow> kr_fs \<Rightarrow> kr_fs" where
  "upd_page d n f s = s\<lparr>f_page := (f_page s)(d := (f_page s d)(n := f (f_page s d n)))\<rparr>"

definition store :: "int \<Rightarrow> int \<Rightarrow> bytes \<Rightarrow> kr_fs \<Rightarrow> kr_fs" where
  "store d n p = upd_page d n (\<lambda>pg. pg\<lparr>p_data := p\<rparr>)"

definition fs_error :: "kernel \<Rightarrow> kr_fs \<Rightarrow> kr_fs option" where
  "fs_error k s = do { sb \<leftarrow> kr_error k (f_sb s); Some (s\<lparr>f_sb := sb\<rparr>) }"

abbreviation data :: "kr_fs \<Rightarrow> int \<Rightarrow> int \<Rightarrow> bytes" where
  "data s d n \<equiv> p_data (f_page s d n)"

abbreviation isize :: "kr_fs \<Rightarrow> int \<Rightarrow> int" where
  "isize s d \<equiv> i_size (f_inode s d)"

definition kr_chunk_size :: "kr_fs \<Rightarrow> int" where
  "kr_chunk_size s = s_blocksize (f_sb s)"

definition dir_pages :: "kr_fs \<Rightarrow> int \<Rightarrow> int" where
  "dir_pages s d = drop_bit PAGE_SHIFT (isize s d + PAGE_SIZE - 1)"

definition kr_last_byte :: "kr_fs \<Rightarrow> int \<Rightarrow> int \<Rightarrow> int" where
  "kr_last_byte s d n =
     (let last_byte = u32 (u32 (isize s d) - push_bit PAGE_SHIFT n) in
      if PAGE_SIZE < last_byte then PAGE_SIZE else last_byte)"

section \<open>Model: reading a page\<close>

datatype dir_fault = Eshort | Ealign | Enamelen | Espan | Einumber

text \<open>
  The loop of \<^verbatim>\<open>kr_check_page\<close>. \<open>limit\<close> is at most \<^verbatim>\<open>PAGE_SIZE\<close>, so that \<open>offs\<close> stays
  far from the end of its range.
\<close>

function check_loop :: "bytes \<Rightarrow> int \<Rightarrow> int \<Rightarrow> int \<Rightarrow> int \<Rightarrow> dir_fault + int" where
  "check_loop p chunk_size max_inumber limit offs =
     (if offs \<le> u32 (limit - KR_DIR_REC_LEN 1) then
        let rec_len = kr_rec_len_from_disk p offs in
        if rec_len < KR_DIR_REC_LEN 1 then Inl Eshort
        else if rec_len AND 3 \<noteq> 0 then Inl Ealign
        else if rec_len < KR_DIR_REC_LEN (de_name_len p offs) then Inl Enamelen
        else if ((offs + rec_len - 1) XOR offs) AND NOT (chunk_size - 1) \<noteq> 0 then Inl Espan
        else if max_inumber < de_inode p offs then Inl Einumber
        else check_loop p chunk_size max_inumber limit (offs + rec_len)
      else Inr offs)"
  by pat_completeness auto
termination
  by (relation "measure (\<lambda>(p, chunk, mx, limit, offs). nat (u32 (limit - KR_DIR_REC_LEN 1) + 1 - offs))")
     (auto simp: KR_DIR_REC_LEN_def)

definition check_failed :: "kernel \<Rightarrow> kr_fs \<Rightarrow> int \<Rightarrow> int \<Rightarrow> bool \<Rightarrow> (bool \<times> kr_fs) option" where
  "check_failed k s d n quiet =
     do { s1 \<leftarrow> (if quiet then Some s else fs_error k s);
          Some (False, upd_page d n (\<lambda>pg. pg\<lparr>p_error := True\<rparr>) s1) }"

definition kr_check_page :: "kernel \<Rightarrow> kr_fs \<Rightarrow> int \<Rightarrow> int \<Rightarrow> bool \<Rightarrow> (bool \<times> kr_fs) option" where
  "kr_check_page k s d n quiet =
     (let chunk_size = kr_chunk_size s;
          max_inumber = uint (es_inodes_count (es (f_sb s)));
          at_end = (u64 (drop_bit PAGE_SHIFT (isize s d)) = n);
          limit = (if at_end then isize s d AND (PAGE_SIZE - 1) else PAGE_SIZE);
          out = Some (True, upd_page d n (\<lambda>pg. pg\<lparr>p_checked := True\<rparr>) s)
      in if at_end \<and> limit AND (chunk_size - 1) \<noteq> 0 then check_failed k s d n quiet
         else if at_end \<and> limit = 0 then out
         else case check_loop (data s d n) chunk_size max_inumber limit 0 of
             Inl _ \<Rightarrow> check_failed k s d n quiet
           | Inr offs \<Rightarrow> if offs \<noteq> limit then check_failed k s d n quiet else out)"

text \<open>\<^term>\<open>None\<close> is the page itself, an errno the error pointer.\<close>

definition kr_get_page ::
  "kernel \<Rightarrow> pagecache \<Rightarrow> kr_fs \<Rightarrow> int \<Rightarrow> int \<Rightarrow> bool \<Rightarrow> (errno option \<times> kr_fs) option" where
  "kr_get_page k pc s d n quiet =
     (case pc_read pc d n of Some e \<Rightarrow> Some (Some e, s)
      | None \<Rightarrow>
          if p_checked (f_page s d n) then Some (None, s)
          else if p_error (f_page s d n) then Some (Some EIO, s)
          else do {
            (ok, s1) \<leftarrow> kr_check_page k s d n quiet;
            Some (if ok then None else Some EIO, s1) })"

section \<open>Model: searching\<close>

datatype scan = Found int | ZeroLength | NotFound

function find_in_page :: "fname \<Rightarrow> bytes \<Rightarrow> int \<Rightarrow> int \<Rightarrow> scan" where
  "find_in_page name p kaddr de =
     (if de \<le> kaddr then
        if kr_rec_len_from_disk p de = 0 then ZeroLength
        else if kr_match name p de then Found de
        else find_in_page name p kaddr (kr_next_entry p de)
      else NotFound)"
  by pat_completeness auto

lemma rec_len_nonneg [simp]: "0 \<le> kr_rec_len_from_disk p de"
  by (simp add: kr_rec_len_from_disk_def get16_def)

lemma rec_len_pos [simp]: "kr_rec_len_from_disk p de \<noteq> 0 \<Longrightarrow> 0 < kr_rec_len_from_disk p de"
  using rec_len_nonneg [of p de] by linarith

termination find_in_page
  by (relation "measure (\<lambda>(name, p, kaddr, de). nat (kaddr + 1 - de))")
     (auto simp: kr_next_entry_def)

text \<open>The loop over the pages goes round from the page of the last success.\<close>

partial_function (option) find_pages ::
  "kernel \<Rightarrow> pagecache \<Rightarrow> int \<Rightarrow> fname \<Rightarrow> int \<Rightarrow> int \<Rightarrow> int \<Rightarrow> bool \<Rightarrow> kr_fs \<Rightarrow>
   ((int \<times> int) option \<times> kr_fs) option"
where
  "find_pages k pc d name start npages n dir_has_error s =
     do { (err, s1) \<leftarrow> kr_get_page k pc s d n dir_has_error;
          case (if err = None
                then find_in_page name (data s1 d n)
                       (kr_last_byte s1 d n - KR_DIR_REC_LEN (int (length name))) 0
                else NotFound) of
            Found de \<Rightarrow>
              Some (Some (n, de), upd_inode d (\<lambda>ino. ino\<lparr>i_dir_start_lookup := word_of_int n\<rparr>) s1)
          | ZeroLength \<Rightarrow> do { s2 \<leftarrow> fs_error k s1; Some (None, s2) }
          | NotFound \<Rightarrow>
              let n1 = (if npages \<le> n + 1 then 0 else n + 1) in
              if drop_bit (PAGE_SHIFT - 9) (i_blocks (f_inode s1 d)) < n1
              then do { s2 \<leftarrow> fs_error k s1; Some (None, s2) }
              else if n1 \<noteq> start
              then find_pages k pc d name start npages n1 (dir_has_error \<or> err \<noteq> None) s1
              else Some (None, s1) }"

declare find_pages.simps [code]

text \<open>The page and the entry, if there is one.\<close>

definition kr_find_entry ::
  "kernel \<Rightarrow> pagecache \<Rightarrow> kr_fs \<Rightarrow> int \<Rightarrow> fname \<Rightarrow> ((int \<times> int) option \<times> kr_fs) option" where
  "kr_find_entry k pc s d name =
     (let npages = dir_pages s d in
      if npages = 0 then Some (None, s)
      else
        let start0 = uint (i_dir_start_lookup (f_inode s d));
            start = (if npages \<le> start0 then 0 else start0)
        in find_pages k pc d name start npages start False s)"

definition kr_dotdot :: "kernel \<Rightarrow> pagecache \<Rightarrow> kr_fs \<Rightarrow> int \<Rightarrow> (int option \<times> kr_fs) option" where
  "kr_dotdot k pc s d =
     do { (err, s1) \<leftarrow> kr_get_page k pc s d 0 False;
          Some (if err = None then Some (kr_next_entry (data s1 d 0) 0) else None, s1) }"

definition kr_inode_by_name ::
  "kernel \<Rightarrow> pagecache \<Rightarrow> kr_fs \<Rightarrow> int \<Rightarrow> fname \<Rightarrow> (int \<times> kr_fs) option" where
  "kr_inode_by_name k pc s d name =
     do { (r, s1) \<leftarrow> kr_find_entry k pc s d name;
          Some (case r of None \<Rightarrow> 0 | Some (n, de) \<Rightarrow> de_inode (data s1 d n) de, s1) }"

section \<open>Model: changing a directory\<close>

definition kr_prepare_chunk ::
  "kernel \<Rightarrow> pagecache \<Rightarrow> kr_fs \<Rightarrow> int \<Rightarrow> int \<Rightarrow> int \<Rightarrow> (errno option \<times> kr_fs) option" where
  "kr_prepare_chunk k pc s d pos len =
     do { (err, sb, ino) \<leftarrow> pc_write_begin pc (kr_get_block k) (f_sb s) (f_inode s d) pos len;
          Some (err, s\<lparr>f_sb := sb, f_inode := (f_inode s)(d := ino)\<rparr>) }"

definition kr_commit_chunk ::
  "pagecache \<Rightarrow> kr_fs \<Rightarrow> int \<Rightarrow> int \<Rightarrow> int \<Rightarrow> int \<Rightarrow> errno option \<times> kr_fs" where
  "kr_commit_chunk pc s d n pos len =
     (let s1 = s\<lparr>f_version := (f_version s)(d := f_version s d + 1)\<rparr>;
          s2 = (if isize s1 d < pos + len then upd_inode d (\<lambda>ino. ino\<lparr>i_size := pos + len\<rparr>) s1 else s1)
      in if IS_DIRSYNC (f_sb s2) (f_inode s2 d) then
           (case pc_write_page pc d n of Some e \<Rightarrow> (Some e, s2) | None \<Rightarrow> (pc_sync_inode pc d, s2))
         else (None, s2))"

text \<open>What every change of an entry does to the inode of the directory at its end.\<close>

definition touch_dir :: "kernel \<Rightarrow> bool \<Rightarrow> inode \<Rightarrow> inode" where
  "touch_dir k update_times ino =
     (if update_times then ino\<lparr>i_mtime := k_now k, i_ctime := k_now k\<rparr> else ino)
       \<lparr>i_flags := i_flags ino AND NOT KR_BTREE_FL\<rparr>"

definition page_offset :: "int \<Rightarrow> int" where
  "page_offset n = push_bit PAGE_SHIFT n"

definition kr_set_link ::
  "kernel \<Rightarrow> pagecache \<Rightarrow> kr_fs \<Rightarrow> int \<Rightarrow> int \<times> int \<Rightarrow> int \<Rightarrow> bool \<Rightarrow> kr_fs option" where
  "kr_set_link k pc s dir entry ino update_times =
     (case entry of (n, de) \<Rightarrow>
        if de < 0 \<or> PAGE_SIZE < de + 8 then None
        else do {
          let pos = page_offset n + de;
          let len = kr_rec_len_from_disk (data s dir n) de;
          (err, s1) \<leftarrow> kr_prepare_chunk k pc s dir pos len;
          if err \<noteq> None then None
          else do {
            p \<leftarrow> kr_set_de_type (f_sb s1) (f_inode s1 ino) de
                  (set_de_inode de (u32 (i_ino (f_inode s1 ino))) (data s1 dir n));
            let s3 = snd (kr_commit_chunk pc (store dir n p s1) dir n pos len);
            Some (upd_inode dir (touch_dir k update_times) s3) } })"

text \<open>
  The loop of \<^verbatim>\<open>kr_add_link\<close> in one page. \<open>GotIt fresh de rec_len name_len\<close> is the place for the
  entry: past the end of the directory if \<open>fresh\<close>.
\<close>

datatype add_scan = GotIt bool int int int | AddZeroLength | AddExists | AddNextPage

function add_in_page :: "fname \<Rightarrow> bytes \<Rightarrow> int \<Rightarrow> int \<Rightarrow> int \<Rightarrow> int \<Rightarrow> add_scan" where
  "add_in_page name p chunk_size dir_end kaddr de =
     (if de \<le> kaddr then
        if de = dir_end then GotIt True de (u16 chunk_size) 0
        else if kr_rec_len_from_disk p de = 0 then AddZeroLength
        else if kr_match name p de then AddExists
        else
          let reclen = KR_DIR_REC_LEN (int (length name));
              name_len = u16 (KR_DIR_REC_LEN (de_name_len p de));
              rec_len = kr_rec_len_from_disk p de
          in if de_inode p de = 0 \<and> reclen \<le> rec_len then GotIt False de rec_len name_len
             else if name_len + reclen \<le> rec_len then GotIt False de rec_len name_len
             else add_in_page name p chunk_size dir_end kaddr (de + rec_len)
      else AddNextPage)"
  by pat_completeness auto
termination
  by (relation "measure (\<lambda>(name, p, chunk_size, dir_end, kaddr, de). nat (kaddr + 1 - de))") auto

text \<open>\<^verbatim>\<open>got_it\<close>: splitting the entry if it is in use, and filling in the new one.\<close>

definition add_fill :: "super_block \<Rightarrow> inode \<Rightarrow> fname \<Rightarrow> int \<Rightarrow> int \<Rightarrow> int \<Rightarrow> bytes \<Rightarrow> bytes option" where
  "add_fill sb ino name de rec_len name_len p =
     (let (de1, p1) = (if de_inode p de \<noteq> 0
            then (de + name_len,
                  kr_rec_len_to_disk de name_len (kr_rec_len_to_disk (de + name_len) (rec_len - name_len) p))
            else (de, p))
      in kr_set_de_type sb ino de1
           (set_de_inode de1 (u32 (i_ino ino))
             (put_bytes (de1 + 8) name (set_de_name_len de1 (int (length name)) p1))))"

definition add_at ::
  "kernel \<Rightarrow> pagecache \<Rightarrow> kr_fs \<Rightarrow> int \<Rightarrow> fname \<Rightarrow> int \<Rightarrow> int \<Rightarrow> bool \<Rightarrow> int \<Rightarrow> int \<Rightarrow> int \<Rightarrow> (errno option \<times> kr_fs) option"
where
  "add_at k pc s dir name ino n fresh de rec_len name_len =
     do { let s1 = (if fresh
                    then store dir n (set_de_inode de 0 (kr_rec_len_to_disk de (kr_chunk_size s) (data s dir n))) s
                    else s);
          let pos = page_offset n + de;
          (err, s2) \<leftarrow> kr_prepare_chunk k pc s1 dir pos rec_len;
          if err \<noteq> None then Some (err, s2)
          else do {
            p \<leftarrow> add_fill (f_sb s2) (f_inode s2 ino) name de rec_len name_len (data s2 dir n);
            let (err1, s3) = kr_commit_chunk pc (store dir n p s2) dir n pos rec_len;
            Some (err1, upd_inode dir (touch_dir k True) s3) } }"

function add_pages ::
  "kernel \<Rightarrow> pagecache \<Rightarrow> int \<Rightarrow> fname \<Rightarrow> int \<Rightarrow> int \<Rightarrow> int \<Rightarrow> kr_fs \<Rightarrow> (errno option \<times> kr_fs) option"
where
  "add_pages k pc dir name ino npages n s =
     (if n \<le> npages then do {
        (err, s1) \<leftarrow> kr_get_page k pc s dir n False;
        if err \<noteq> None then Some (err, s1)
        else
          case add_in_page name (data s1 dir n) (kr_chunk_size s1) (kr_last_byte s1 dir n)
                 (PAGE_SIZE - KR_DIR_REC_LEN (int (length name))) 0 of
            GotIt fresh de rec_len name_len \<Rightarrow> add_at k pc s1 dir name ino n fresh de rec_len name_len
          | AddZeroLength \<Rightarrow> do { s2 \<leftarrow> fs_error k s1; Some (Some EIO, s2) }
          | AddExists \<Rightarrow> Some (Some EEXIST, s1)
          | AddNextPage \<Rightarrow> add_pages k pc dir name ino npages (n + 1) s1 }
      else None)"
  by pat_completeness auto
termination
  by (relation "measure (\<lambda>(k, pc, dir, name, ino, npages, n, s). nat (npages + 1 - n))") auto

text \<open>\<open>dir\<close> is \<^verbatim>\<open>d_inode(dentry->d_parent)\<close> and \<open>name\<close> is \<^verbatim>\<open>dentry->d_name\<close>.\<close>

definition kr_add_link ::
  "kernel \<Rightarrow> pagecache \<Rightarrow> kr_fs \<Rightarrow> int \<Rightarrow> fname \<Rightarrow> int \<Rightarrow> (errno option \<times> kr_fs) option" where
  "kr_add_link k pc s dir name ino = add_pages k pc dir name ino (dir_pages s dir) 0 s"

text \<open>The entry before \<open>dir\<close> in its chunk, if any; \<^term>\<open>Inl ()\<close> is an entry of length zero.\<close>

function find_pde :: "bytes \<Rightarrow> int \<Rightarrow> int option \<Rightarrow> int \<Rightarrow> unit + int option" where
  "find_pde p dir pde de =
     (if de < dir then
        if kr_rec_len_from_disk p de = 0 then Inl ()
        else find_pde p dir (Some de) (kr_next_entry p de)
      else Inr pde)"
  by pat_completeness auto
termination
  by (relation "measure (\<lambda>(p, dir, pde, de). nat (dir - de))") (auto simp: kr_next_entry_def)

definition kr_delete_entry ::
  "kernel \<Rightarrow> pagecache \<Rightarrow> kr_fs \<Rightarrow> int \<Rightarrow> int \<times> int \<Rightarrow> (errno option \<times> kr_fs) option" where
  "kr_delete_entry k pc s host entry =
     (case entry of (n, dir) \<Rightarrow>
        let p = data s host n;
            from0 = dir AND NOT (kr_chunk_size s - 1);
            to = dir + kr_rec_len_from_disk p dir
        in case find_pde p dir None from0 of
            Inl _ \<Rightarrow> do { s1 \<leftarrow> fs_error k s; Some (Some EIO, s1) }
          | Inr pde \<Rightarrow> do {
              let from = (case pde of None \<Rightarrow> from0 | Some e \<Rightarrow> e);
              let pos = page_offset n + from;
              (err, s1) \<leftarrow> kr_prepare_chunk k pc s host pos (to - from);
              if err \<noteq> None then None
              else do {
                let p1 = (case pde of None \<Rightarrow> data s1 host n
                          | Some e \<Rightarrow> kr_rec_len_to_disk e (to - from) (data s1 host n));
                let (err1, s2) =
                  kr_commit_chunk pc (store host n (set_de_inode dir 0 p1) s1) host n pos (to - from);
                Some (err1, upd_inode host (touch_dir k True) s2) } })"

section \<open>Model: empty directories\<close>

definition dot_name :: fname where "dot_name = [0x2E, 0, 0, 0]"
definition dotdot_name :: fname where "dotdot_name = [0x2E, 0x2E, 0, 0]"

definition make_empty_data :: "super_block \<Rightarrow> inode \<Rightarrow> inode \<Rightarrow> int \<Rightarrow> bytes \<Rightarrow> bytes option" where
  "make_empty_data sb ino parent chunk_size p =
     do { let p0 = put_bytes 0 (replicate (nat chunk_size) 0) p;
          p1 \<leftarrow> kr_set_de_type sb ino 0
                 (set_de_inode 0 (u32 (i_ino ino)) (put_bytes 8 dot_name
                   (kr_rec_len_to_disk 0 (KR_DIR_REC_LEN 1) (set_de_name_len 0 1 p0))));
          let de = KR_DIR_REC_LEN 1;
          kr_set_de_type sb ino de
            (put_bytes (de + 8) dotdot_name (set_de_inode de (u32 (i_ino parent))
              (kr_rec_len_to_disk de (chunk_size - KR_DIR_REC_LEN 1) (set_de_name_len de 2 p1)))) }"

definition kr_make_empty ::
  "kernel \<Rightarrow> pagecache \<Rightarrow> kr_fs \<Rightarrow> int \<Rightarrow> int \<Rightarrow> (errno option \<times> kr_fs) option" where
  "kr_make_empty k pc s d parent =
     (if \<not> pc_grab pc d then Some (Some ENOMEM, s)
      else do {
        let chunk_size = kr_chunk_size s;
        (err, s1) \<leftarrow> kr_prepare_chunk k pc s d 0 chunk_size;
        if err \<noteq> None then Some (err, s1)
        else do {
          p \<leftarrow> make_empty_data (f_sb s1) (f_inode s1 d) (f_inode s1 parent) chunk_size (data s1 d 0);
          Some (kr_commit_chunk pc (store d 0 p s1) d 0 0 chunk_size) } })"

datatype empty_scan = PageEmpty | PageNotEmpty | EmptyZeroLength

definition dot_entry :: "bytes \<Rightarrow> int \<Rightarrow> int \<Rightarrow> bool" where
  "dot_entry p i_no de =
     (if p (de + 8) \<noteq> 0x2E then False
      else if 2 < de_name_len p de then False
      else if de_name_len p de < 2 then de_inode p de = i_no
      else p (de + 9) = 0x2E)"

function empty_in_page :: "bytes \<Rightarrow> int \<Rightarrow> int \<Rightarrow> int \<Rightarrow> empty_scan" where
  "empty_in_page p i_no kaddr de =
     (if de \<le> kaddr then
        if kr_rec_len_from_disk p de = 0 then EmptyZeroLength
        else if de_inode p de \<noteq> 0 \<and> \<not> dot_entry p i_no de then PageNotEmpty
        else empty_in_page p i_no kaddr (kr_next_entry p de)
      else PageEmpty)"
  by pat_completeness auto
termination
  by (relation "measure (\<lambda>(p, i_no, kaddr, de). nat (kaddr + 1 - de))") (auto simp: kr_next_entry_def)

function empty_pages :: "kernel \<Rightarrow> pagecache \<Rightarrow> int \<Rightarrow> int \<Rightarrow> int \<Rightarrow> bool \<Rightarrow> kr_fs \<Rightarrow> (bool \<times> kr_fs) option" where
  "empty_pages k pc d npages i dir_has_error s =
     (if i < npages then do {
        (err, s1) \<leftarrow> kr_get_page k pc s d i dir_has_error;
        if err \<noteq> None then empty_pages k pc d npages (i + 1) True s1
        else
          case empty_in_page (data s1 d i) (u32 (i_ino (f_inode s1 d))) (kr_last_byte s1 d i - KR_DIR_REC_LEN 1) 0 of
            EmptyZeroLength \<Rightarrow> do { s2 \<leftarrow> fs_error k s1; Some (False, s2) }
          | PageNotEmpty \<Rightarrow> Some (False, s1)
          | PageEmpty \<Rightarrow> empty_pages k pc d npages (i + 1) dir_has_error s1 }
      else Some (True, s))"
  by pat_completeness auto
termination
  by (relation "measure (\<lambda>(k, pc, d, npages, i, err, s). nat (npages - i))") auto

definition kr_empty_dir :: "kernel \<Rightarrow> pagecache \<Rightarrow> kr_fs \<Rightarrow> int \<Rightarrow> (bool \<times> kr_fs) option" where
  "kr_empty_dir k pc s d = empty_pages k pc d (dir_pages s d) 0 False s"

section \<open>Model: listing\<close>

type_synonym dir_entry = "fname \<times> int \<times> int"

record dir_context =
  ctx_pos :: int
  ctx_out :: "dir_entry list"

function validate_loop :: "bytes \<Rightarrow> int \<Rightarrow> int \<Rightarrow> int" where
  "validate_loop base de p =
     (if p < de then
        if kr_rec_len_from_disk base p = 0 then p else validate_loop base de (kr_next_entry base p)
      else p)"
  by pat_completeness auto
termination
  by (relation "measure (\<lambda>(base, de, p). nat (de - p))") (auto simp: kr_next_entry_def)

definition kr_validate_entry :: "bytes \<Rightarrow> int \<Rightarrow> int \<Rightarrow> int" where
  "kr_validate_entry base offset msk = validate_loop base offset (offset AND msk)"

text \<open>
  \<open>emit\<close> is \<^verbatim>\<open>dir_emit\<close>: whether the reader takes one more entry, given those it has. The second
  result says how the page ended.
\<close>

datatype read_end = PageDone | ReaderFull | ReadZeroLength

function readdir_page ::
  "(dir_entry list \<Rightarrow> dir_entry \<Rightarrow> bool) \<Rightarrow> bool \<Rightarrow> bytes \<Rightarrow> int \<Rightarrow> int \<Rightarrow> dir_context \<Rightarrow> read_end \<times> dir_context"
where
  "readdir_page emit types p limit de ctx =
     (if de \<le> limit then
        if kr_rec_len_from_disk p de = 0 then (ReadZeroLength, ctx)
        else
          let d_type = (if types \<and> de_file_type p de < KR_FT_MAX
                        then kr_filetype_table ! nat (de_file_type p de) else 0);
              e = (de_name p de, de_inode p de, d_type)
          in if de_inode p de \<noteq> 0 \<and> \<not> emit (ctx_out ctx) e then (ReaderFull, ctx)
             else readdir_page emit types p limit (kr_next_entry p de)
                    \<lparr>ctx_pos = ctx_pos ctx + kr_rec_len_from_disk p de,
                     ctx_out = (if de_inode p de \<noteq> 0 then ctx_out ctx @ [e] else ctx_out ctx)\<rparr>
      else (PageDone, ctx))"
  by pat_completeness auto
termination
  by (relation "measure (\<lambda>(emit, types, p, limit, de, ctx). nat (limit + 1 - de))") (auto simp: kr_next_entry_def)

text \<open>
  The loop over the pages. \<open>revalidate\<close> is \<^verbatim>\<open>need_revalidate\<close>; the last result is
  \<^verbatim>\<open>file->f_version\<close>.
\<close>

function readdir_pages ::
  "kernel \<Rightarrow> pagecache \<Rightarrow> (dir_entry list \<Rightarrow> dir_entry \<Rightarrow> bool) \<Rightarrow> int \<Rightarrow> bool \<Rightarrow> int \<Rightarrow> int \<Rightarrow> int \<Rightarrow> bool \<Rightarrow> dir_context \<Rightarrow>
   64 word \<Rightarrow> kr_fs \<Rightarrow> (errno option \<times> dir_context \<times> 64 word \<times> kr_fs) option"
where
  "readdir_pages k pc emit d types npages n offset revalidate ctx ver s =
     (if n < npages then do {
        (err, s1) \<leftarrow> kr_get_page k pc s d n False;
        if err \<noteq> None then do {
          s2 \<leftarrow> fs_error k s1;
          Some (err, ctx\<lparr>ctx_pos := ctx_pos ctx + (PAGE_SIZE - offset)\<rparr>, ver, s2) }
        else do {
          let p = data s1 d n;
          let offset1 = (if revalidate \<and> offset \<noteq> 0
                         then kr_validate_entry p offset (NOT (kr_chunk_size s1 - 1)) else offset);
          let ctx1 = (if revalidate \<and> offset \<noteq> 0 then ctx\<lparr>ctx_pos := page_offset n + offset1\<rparr> else ctx);
          let ver1 = (if revalidate then f_version s1 d else ver);
          case readdir_page emit types p (kr_last_byte s1 d n - KR_DIR_REC_LEN 1) offset1 ctx1 of
            (PageDone, ctx2) \<Rightarrow> readdir_pages k pc emit d types npages (n + 1) 0 False ctx2 ver1 s1
          | (ReaderFull, ctx2) \<Rightarrow> Some (None, ctx2, ver1, s1)
          | (ReadZeroLength, ctx2) \<Rightarrow> do { s2 \<leftarrow> fs_error k s1; Some (Some EIO, ctx2, ver1, s2) } } }
      else Some (None, ctx, ver, s))"
  by pat_completeness auto
termination
  by (relation "measure (\<lambda>(k, pc, emit, d, types, npages, n, offset, r, ctx, ver, s). nat (npages - n))") auto

definition kr_readdir ::
  "kernel \<Rightarrow> pagecache \<Rightarrow> (dir_entry list \<Rightarrow> dir_entry \<Rightarrow> bool) \<Rightarrow> kr_fs \<Rightarrow> int \<Rightarrow> 64 word \<Rightarrow> dir_context \<Rightarrow>
   (errno option \<times> dir_context \<times> 64 word \<times> kr_fs) option"
where
  "kr_readdir k pc emit s d f_ver ctx =
     (let pos = ctx_pos ctx in
      if isize s d - KR_DIR_REC_LEN 1 < pos then Some (None, ctx, f_ver, s)
      else readdir_pages k pc emit d (KR_HAS_INCOMPAT_FEATURE (f_sb s) KR_FEATURE_INCOMPAT_FILETYPE)
             (dir_pages s d) (drop_bit PAGE_SHIFT pos) (pos AND (PAGE_SIZE - 1)) (f_ver \<noteq> f_version s d)
             ctx f_ver s)"

end
