(* ===== verification/Kr_Dirent.thy ===== *)
theory Kr_Dirent
  imports Kr_Dir
begin

text \<open>
  The entries of one page of a directory: what bytes read back after a store, the chains of good
  entries that \<^verbatim>\<open>kr_check_page\<close> accepts, and for each loop and each store of \<^verbatim>\<open>dir.c\<close> what it
  does to the list of the entries in use. All statements are about one page given as bytes, so that
  the theory on directories only has to put pages together.
\<close>

section \<open>Bytes\<close>

definition agree :: "bytes \<Rightarrow> bytes \<Rightarrow> int \<Rightarrow> int \<Rightarrow> bool" where
  "agree p q a b = (\<forall>x. a \<le> x \<and> x < b \<longrightarrow> q x = p x)"

named_theorems byte_simps "reading back what was stored in a page"

lemma agree_refl [simp]: "agree p p a b"
  by (simp add: agree_def)

lemma agree_sub: "agree p q a b \<Longrightarrow> a \<le> a' \<Longrightarrow> b' \<le> b \<Longrightarrow> agree p q a' b'"
  by (simp add: agree_def)

lemma agree_trans: "agree p q a b \<Longrightarrow> agree q r a b \<Longrightarrow> agree p r a b"
  by (simp add: agree_def)

lemma uint8_bounds [simp]: "0 \<le> uint (w :: 8 word)" "uint (w :: 8 word) < 256"
  using uint_lt2p [of w] by simp_all

lemma uint_word8: "uint (word_of_int x :: 8 word) = x mod 256"
  by (simp add: uint_word_of_int take_bit_eq_mod)

lemma get16_bounds [simp]: "0 \<le> get16 p a" "get16 p a < 65536"
  using uint8_bounds [of "p a"] uint8_bounds [of "p (a + 1)"] unfolding get16_def by linarith+

lemma get16_put16 [byte_simps]: "0 \<le> v \<Longrightarrow> v < 65536 \<Longrightarrow> get16 (put16 a v p) a = v"
  by (simp add: get16_def put16_def uint_word8)

lemma put16_other [byte_simps]: "x < a \<or> a + 2 \<le> x \<Longrightarrow> put16 a v p x = p x"
  by (auto simp: put16_def)

lemma get16_put16_other [byte_simps]: "b + 2 \<le> a \<or> a + 2 \<le> b \<Longrightarrow> get16 (put16 a v p) b = get16 p b"
  by (auto simp: get16_def put16_def)

lemma get16_agree: "agree p q a (a + 2) \<Longrightarrow> get16 q a = get16 p a"
  by (simp add: get16_def agree_def)

lemma get32_put32 [byte_simps]:
  assumes "0 \<le> v" "v < 4294967296"
  shows "get32 (put32 a v p) a = v"
proof -
  have h: "get16 (put16 (a + 2) (v div 65536) q) (a + 2) = v div 65536" for q
    by (rule get16_put16) (use assms in auto)
  have l: "get16 (put16 (a + 2) w (put16 a v p)) a = v mod 65536" for w
  proof -
    have "get16 (put16 (a + 2) w (put16 a v p)) a = get16 (put16 a v p) a"
      by (rule get16_put16_other) simp
    also have "\<dots> = v mod 256 + 256 * (v div 256 mod 256)"
      by (simp add: get16_def put16_def uint_word8)
    also have "\<dots> = v mod 65536"
      using zmod_zmult2_eq [of 256 v 256] by simp
    finally show ?thesis .
  qed
  show ?thesis
    unfolding get32_def put32_def h l by simp
qed

lemma put32_other [byte_simps]: "x < a \<or> a + 4 \<le> x \<Longrightarrow> put32 a v p x = p x"
  by (auto simp: put32_def put16_def)

lemma get32_agree: "agree p q a (a + 4) \<Longrightarrow> get32 q a = get32 p a"
  by (simp add: get32_def get16_def agree_def)

lemma get32_bounds [simp]: "0 \<le> get32 p a" "get32 p a < 4294967296"
  using get16_bounds [of p a] get16_bounds [of p "a + 2"] unfolding get32_def by linarith+

lemma put_bytes_other [byte_simps]: "x < a \<or> a + int (length bs) \<le> x \<Longrightarrow> put_bytes a bs p x = p x"
  by (induction a bs p rule: put_bytes.induct) auto

lemma put_bytes_nth: "a \<le> x \<Longrightarrow> x < a + int (length bs) \<Longrightarrow> put_bytes a bs p x = bs ! nat (x - a)"
proof (induction a bs p rule: put_bytes.induct)
  case (2 a b bs p)
  show ?case
  proof (cases "x = a")
    case True
    then show ?thesis by (simp add: put_bytes_other)
  next
    case False
    then have "nat (x - a) = Suc (nat (x - (a + 1)))" using 2(2) by simp
    moreover have "put_bytes (a + 1) bs (p(a := b)) x = bs ! nat (x - (a + 1))"
      by (rule 2(1)) (use 2(2,3) False in auto)
    ultimately show ?thesis by simp
  qed
qed simp

lemma length_get_bytes [simp]: "length (get_bytes p a n) = nat n"
  by (simp add: get_bytes_def)

lemma get_bytes_nth [simp]: "i < nat n \<Longrightarrow> get_bytes p a n ! i = p (a + int i)"
  by (simp add: get_bytes_def nth_upto)

lemma get_put_bytes [byte_simps]: "get_bytes (put_bytes a bs p) a (int (length bs)) = bs"
  by (rule nth_equalityI) (simp_all add: put_bytes_nth)

lemma get_bytes_agree: "agree p q a (a + n) \<Longrightarrow> get_bytes q a n = get_bytes p a n"
  by (auto intro!: nth_equalityI simp: agree_def)

section \<open>Masks\<close>

lemma and_not_low: "(x :: int) AND NOT (2 ^ n - 1) = 2 ^ n * (x div 2 ^ n)"
proof -
  have "x AND NOT (mask n) = push_bit n (drop_bit n x)"
    by (rule bit_eqI) (auto simp: bit_simps)
  then show ?thesis
    by (simp add: mask_eq_exp_minus_1 push_bit_eq_mult drop_bit_eq_div mult.commute)
qed

lemma xor_and_not_low: "((x :: int) XOR y) AND NOT (2 ^ n - 1) = 0 \<longleftrightarrow> x div 2 ^ n = y div 2 ^ n"
proof -
  have "(x XOR y) AND NOT (2 ^ n - 1) = 0 \<longleftrightarrow> drop_bit n (x XOR y) = 0"
    unfolding and_not_low by (simp add: drop_bit_eq_div)
  also have "\<dots> \<longleftrightarrow> drop_bit n x = drop_bit n y"
    by (auto simp: drop_bit_xor bit_eq_iff bit_xor_iff)
  finally show ?thesis by (simp add: drop_bit_eq_div)
qed

lemma and_3_dvd: "(x :: int) AND 3 = 0 \<longleftrightarrow> 4 dvd x"
proof -
  have "x AND 3 = x mod 4" using take_bit_eq_mask [of 2 x] by (simp add: take_bit_eq_mod mask_eq_exp_minus_1)
  then show ?thesis by (simp add: dvd_eq_mod_eq_0)
qed

section \<open>Fields of an entry\<close>

lemma rec_len_bounds [simp]: "kr_rec_len_from_disk p de < 65536"
  by (simp add: kr_rec_len_from_disk_def)

lemma name_len_bounds [simp]: "0 \<le> de_name_len p de" "de_name_len p de < 256"
  by (simp_all add: de_name_len_def)

lemma de_inode_bounds [simp]: "0 \<le> de_inode p de" "de_inode p de < 4294967296"
  by (simp_all add: de_inode_def)

lemma KR_DIR_REC_LEN_eq: "KR_DIR_REC_LEN n = 4 * ((n + 11) div 4)"
  using and_not_low [of "n + 11" 2] by (simp add: KR_DIR_REC_LEN_def add.commute)

lemma rec_len_1 [simp]: "KR_DIR_REC_LEN 1 = 12" "KR_DIR_REC_LEN 2 = 12"
  by (simp_all add: KR_DIR_REC_LEN_eq)

lemma rec_len_of_name: "n + 8 \<le> KR_DIR_REC_LEN n" "KR_DIR_REC_LEN n \<le> n + 11" "4 dvd KR_DIR_REC_LEN n"
proof -
  have "(n + 11) mod 4 = n + 11 - 4 * ((n + 11) div 4)" by (simp add: minus_mult_div_eq_mod)
  then show "n + 8 \<le> KR_DIR_REC_LEN n" "KR_DIR_REC_LEN n \<le> n + 11"
    using pos_mod_bound [of 4 "n + 11"] pos_mod_sign [of 4 "n + 11"] unfolding KR_DIR_REC_LEN_eq by linarith+
  show "4 dvd KR_DIR_REC_LEN n" by (simp add: KR_DIR_REC_LEN_eq)
qed

lemma rec_len_min: "0 < n \<Longrightarrow> 12 \<le> KR_DIR_REC_LEN n"
  using rec_len_of_name(1) [of n] by (simp add: KR_DIR_REC_LEN_eq)

lemma rec_len_agree: "agree p q de (de + 8) \<Longrightarrow> kr_rec_len_from_disk q de = kr_rec_len_from_disk p de"
  unfolding kr_rec_len_from_disk_def by (rule get16_agree) (erule agree_sub; simp)

lemma name_len_agree: "agree p q de (de + 8) \<Longrightarrow> de_name_len q de = de_name_len p de"
  by (simp add: de_name_len_def agree_def)

lemma de_inode_agree: "agree p q de (de + 8) \<Longrightarrow> de_inode q de = de_inode p de"
  unfolding de_inode_def by (rule get32_agree) (erule agree_sub; simp)

lemma de_name_agree: "agree p q de (de + 8 + de_name_len p de) \<Longrightarrow> de_name q de = de_name p de"
proof -
  assume a: "agree p q de (de + 8 + de_name_len p de)"
  have "de_name_len q de = de_name_len p de"
    by (rule name_len_agree) (rule agree_sub [OF a]; simp)
  then show ?thesis
    unfolding de_name_def by (simp, intro get_bytes_agree agree_sub [OF a]) auto
qed

lemmas de_fields_agree = rec_len_agree name_len_agree de_inode_agree

lemma kr_match_iff:
  "kr_match name p de = (de_inode p de \<noteq> 0 \<and> de_name p de = name)"
proof -
  have "length (de_name p de) = nat (de_name_len p de)" by (simp add: de_name_def)
  then show ?thesis
    by (auto simp: kr_match_def de_name_def)
qed

section \<open>Chains of entries\<close>

abbreviation rlen :: "bytes \<Rightarrow> int \<Rightarrow> int" where "rlen \<equiv> kr_rec_len_from_disk"

text \<open>What \<^verbatim>\<open>kr_check_page\<close> asks of one entry, for chunks of \<open>c\<close> bytes and inodes up to \<open>m\<close>.\<close>

definition good_de :: "int \<Rightarrow> int \<Rightarrow> bytes \<Rightarrow> int \<Rightarrow> bool" where
  "good_de c m p a =
     (12 \<le> rlen p a \<and> 4 dvd rlen p a \<and> KR_DIR_REC_LEN (de_name_len p a) \<le> rlen p a \<and>
      (a + rlen p a - 1) div c = a div c \<and> de_inode p a \<le> m)"

text \<open>Good entries lie end to end from \<open>a\<close> to \<open>b\<close>.\<close>

inductive chain :: "int \<Rightarrow> int \<Rightarrow> bytes \<Rightarrow> int \<Rightarrow> int \<Rightarrow> bool" for c m p where
  chain_nil: "chain c m p a a"
| chain_cons: "good_de c m p a \<Longrightarrow> chain c m p (a + rlen p a) b \<Longrightarrow> chain c m p a b"

inductive_cases chainE: "chain c m p a b"

text \<open>The offsets of the entries, and the entries in use.\<close>

function entries :: "bytes \<Rightarrow> int \<Rightarrow> int \<Rightarrow> int list" where
  "entries p a b = (if a < b \<and> rlen p a \<noteq> 0 then a # entries p (a + rlen p a) b else [])"
  by pat_completeness auto
termination
  by (relation "measure (\<lambda>(p, a, b). nat (b - a))") auto

declare entries.simps [simp del]

definition used :: "bytes \<Rightarrow> int list \<Rightarrow> (fname \<times> int) list" where
  "used p os = map (\<lambda>a. (de_name p a, de_inode p a)) (filter (\<lambda>a. de_inode p a \<noteq> 0) os)"

abbreviation listing :: "bytes \<Rightarrow> int \<Rightarrow> int \<Rightarrow> (fname \<times> int) list" where
  "listing p a b \<equiv> used p (entries p a b)"

lemma used_Nil [simp]: "used p [] = []"
  by (simp add: used_def)

lemma used_Cons: "used p (a # os) = (if de_inode p a \<noteq> 0 then [(de_name p a, de_inode p a)] else []) @ used p os"
  by (simp add: used_def)

lemma used_append [simp]: "used p (xs @ ys) = used p xs @ used p ys"
  by (simp add: used_def)

lemma good_de_len: "good_de c m p a \<Longrightarrow> 12 \<le> rlen p a"
  by (simp add: good_de_def)

lemma good_de_name: "good_de c m p a \<Longrightarrow> 8 + de_name_len p a \<le> rlen p a"
  using rec_len_of_name(1) [of "de_name_len p a"] unfolding good_de_def by linarith

lemma chain_le: "chain c m p a b \<Longrightarrow> a \<le> b"
  by (induction rule: chain.induct) (auto dest: good_de_len)

lemma chain_lt_cases:
  assumes "chain c m p a b" "a < b"
  shows "good_de c m p a" "chain c m p (a + rlen p a) b"
  using assms by (auto elim: chainE)

lemma chain_append: "chain c m p a b \<Longrightarrow> chain c m p b d \<Longrightarrow> chain c m p a d"
  by (induction rule: chain.induct) (auto intro: chain_cons)

lemma chain_single: "good_de c m p a \<Longrightarrow> chain c m p a (a + rlen p a)"
  by (blast intro: chain_nil chain_cons)

lemma entries_nil [simp]: "entries p a a = []"
  by (simp add: entries.simps)

lemma entries_cons:
  assumes "good_de c m p a" "chain c m p (a + rlen p a) b"
  shows "entries p a b = a # entries p (a + rlen p a) b"
  using chain_le [OF assms(2)] good_de_len [OF assms(1)] by (subst entries.simps) auto

lemma entries_append:
  "chain c m p a b \<Longrightarrow> chain c m p b d \<Longrightarrow> entries p a d = entries p a b @ entries p b d"
proof (induction rule: chain.induct)
  case (chain_cons a b)
  then show ?case
    by (simp add: entries_cons [of c m p a d] entries_cons [of c m p a b] chain_append)
qed simp

lemma listing_append:
  "chain c m p a b \<Longrightarrow> chain c m p b d \<Longrightarrow> listing p a d = listing p a b @ listing p b d"
  by (simp add: entries_append)

lemma listing_cons:
  assumes "good_de c m p a" "chain c m p (a + rlen p a) b"
  shows "listing p a b = (if de_inode p a \<noteq> 0 then [(de_name p a, de_inode p a)] else []) @ listing p (a + rlen p a) b"
  by (simp only: entries_cons [OF assms] used_Cons)

lemma entries_single: "good_de c m p a \<Longrightarrow> entries p a (a + rlen p a) = [a]"
  by (simp add: entries_cons chain_nil)

text \<open>An entry of a chain splits it.\<close>

lemma chain_entry:
  assumes "chain c m p a b" "e \<in> set (entries p a b)"
  shows "a \<le> e \<and> chain c m p a e \<and> good_de c m p e \<and> chain c m p (e + rlen p e) b \<and> e + rlen p e \<le> b"
  using assms
proof (induction rule: chain.induct)
  case (chain_cons a b)
  show ?case
  proof (cases "e = a")
    case True
    then show ?thesis using chain_cons(1,2) chain_le [OF chain_cons(2)] by (simp add: chain_nil)
  next
    case False
    then have "e \<in> set (entries p (a + rlen p a) b)"
      using chain_cons(4) entries_cons [OF chain_cons(1,2)] by simp
    then show ?thesis
      using chain_cons(3) chain.chain_cons [OF chain_cons(1)] good_de_len [OF chain_cons(1)] by force
  qed
qed simp

lemma chain_split_listing:
  assumes "chain c m p a b" "e \<in> set (entries p a b)"
  shows "listing p a b = listing p a e @ (if de_inode p e \<noteq> 0 then [(de_name p e, de_inode p e)] else []) @
           listing p (e + rlen p e) b"
proof -
  have c: "chain c m p a e" "good_de c m p e" "chain c m p (e + rlen p e) b"
    using chain_entry [OF assms] by auto
  then show ?thesis
    using listing_append [OF c(1) chain_cons [OF c(2,3)]] listing_cons [OF c(2,3)] by simp
qed

text \<open>No entry reaches over the start of a chunk.\<close>

lemma chain_at_chunk:
  assumes "chain c m p a b" "0 < c" "c dvd x" "a \<le> x" "x \<le> b"
  shows "chain c m p a x \<and> chain c m p x b"
  using assms
proof (induction rule: chain.induct)
  case (chain_nil a)
  then show ?case by (simp add: chain.chain_nil)
next
  case (chain_cons a b)
  show ?case
  proof (cases "a = x")
    case True
    then show ?thesis using chain_cons by (simp add: chain.chain_nil chain.chain_cons)
  next
    case False
    have "a + rlen p a \<le> x"
    proof (rule ccontr)
      assume "\<not> a + rlen p a \<le> x"
      then have "x \<le> a + rlen p a - 1" by simp
      then have "x div c \<le> a div c"
        using zdiv_mono1 [of x "a + rlen p a - 1" c] chain_cons(1,4) by (simp add: good_de_def)
      moreover have "a div c < x div c"
      proof -
        obtain i where x: "x = i * c" using chain_cons(5) by (auto simp: dvd_def mult.commute)
        have "\<not> i \<le> a div c"
          using chain_cons(4,6) False x mult_right_mono [of i "a div c" c] div_mult_mod_eq [of a c]
            pos_mod_sign [of c a] by linarith
        then show ?thesis using chain_cons(4) x by simp
      qed
      ultimately show False by simp
    qed
    then show ?thesis
      using chain_cons by (blast intro: chain.chain_cons)
  qed
qed

text \<open>A chain depends on its own bytes only.\<close>

lemma good_de_agree:
  assumes "good_de c m p a" "agree p q a (a + rlen p a)"
  shows "good_de c m q a \<and> rlen q a = rlen p a \<and> de_inode q a = de_inode p a \<and> de_name q a = de_name p a"
proof -
  have h: "agree p q a (a + 8)" using assms good_de_len [OF assms(1)] by (auto intro: agree_sub)
  have n: "agree p q a (a + 8 + de_name_len p a)"
    using good_de_name [OF assms(1)] by (intro agree_sub [OF assms(2)]) auto
  show ?thesis
    using assms(1) by (simp add: good_de_def de_fields_agree [OF h] de_name_agree [OF n])
qed

lemma chain_agree:
  assumes "chain c m p a b" "agree p q a b"
  shows "chain c m q a b \<and> entries q a b = entries p a b \<and> listing q a b = listing p a b"
  using assms
proof (induction rule: chain.induct)
  case (chain_cons a b)
  have le: "a + rlen p a \<le> b" using chain_le chain_cons(2) by blast
  have g: "good_de c m q a \<and> rlen q a = rlen p a \<and> de_inode q a = de_inode p a \<and> de_name q a = de_name p a"
    by (rule good_de_agree [OF chain_cons(1)]) (rule agree_sub [OF chain_cons(4)]; use le in simp)
  have r: "agree p q (a + rlen p a) b"
    by (rule agree_sub [OF chain_cons(4)]) auto
  have q: "good_de c m q a" "chain c m q (a + rlen q a) b"
    using g chain_cons(3) [OF r] by auto
  show ?case
    using chain.chain_cons [OF q] entries_cons [OF q] listing_cons [OF q]
      entries_cons [OF chain_cons(1,2)] listing_cons [OF chain_cons(1,2)] g chain_cons(3) [OF r]
    by auto
qed (simp add: chain_nil)

section \<open>Loops over the entries of a page\<close>

text \<open>\<^verbatim>\<open>kr_check_page\<close> accepts the chains, and nothing else.\<close>

lemma chain_iff:
  "chain c m p a b \<longleftrightarrow> a = b \<or> good_de c m p a \<and> chain c m p (a + rlen p a) b"
  by (auto elim: chainE intro: chain_nil chain_cons)

lemma good_de_iff:
  "good_de (2 ^ n) m p a \<longleftrightarrow>
     \<not> rlen p a < 12 \<and> rlen p a AND 3 = 0 \<and> \<not> rlen p a < KR_DIR_REC_LEN (de_name_len p a) \<and>
     ((a + rlen p a - 1) XOR a) AND NOT (2 ^ n - 1) = 0 \<and> \<not> m < de_inode p a"
  unfolding good_de_def xor_and_not_low and_3_dvd by (auto simp: not_less)

declare check_loop.simps [simp del]

lemma check_loop_chain:
  assumes "12 \<le> limit" "limit \<le> PAGE_SIZE"
  shows "check_loop p (2 ^ n) m limit offs = Inr limit \<longleftrightarrow> chain (2 ^ n) m p offs limit"
  using assms
proof (induction p "(2 :: int) ^ n" m limit offs rule: check_loop.induct)
  case (1 p m limit offs)
  have lim: "u32 (limit - 12) = limit - 12"
    using 1(2,3) by (simp add: c_int)
  show ?case
  proof (cases "offs \<le> limit - 12")
    case True
    have "check_loop p (2 ^ n) m limit offs = Inr limit \<longleftrightarrow>
            good_de (2 ^ n) m p offs \<and> check_loop p (2 ^ n) m limit (offs + rlen p offs) = Inr limit"
      unfolding good_de_iff by (subst check_loop.simps) (simp add: Let_def lim True del: not_less)
    moreover have "good_de (2 ^ n) m p offs \<Longrightarrow>
        check_loop p (2 ^ n) m limit (offs + rlen p offs) = Inr limit \<longleftrightarrow> chain (2 ^ n) m p (offs + rlen p offs) limit"
      unfolding good_de_iff by (rule 1(1)) (use 1(2,3) in \<open>simp_all add: lim True\<close>)
    ultimately show ?thesis
      unfolding chain_iff [of _ _ _ offs] using True by auto
  next
    case False
    have "check_loop p (2 ^ n) m limit offs = Inr offs"
      by (subst check_loop.simps) (simp add: lim False)
    then show ?thesis
      unfolding chain_iff [of _ _ _ offs] using False chain_le good_de_len by fastforce
  qed
qed

text \<open>The search of \<^verbatim>\<open>kr_find_entry\<close>.\<close>

declare find_in_page.simps [simp del]

lemma match_rlen:
  assumes "good_de c m p e" "kr_match name p e"
  shows "KR_DIR_REC_LEN (int (length name)) \<le> rlen p e"
proof -
  have "int (length name) = de_name_len p e"
    using assms(2) by (simp add: kr_match_def split: if_splits)
  then show ?thesis using assms(1) by (simp add: good_de_def)
qed

lemma find_in_page_eq:
  assumes "chain c m p a b"
  shows "find_in_page name p (b - KR_DIR_REC_LEN (int (length name))) a =
           (case find (kr_match name p) (entries p a b) of Some e \<Rightarrow> Found e | None \<Rightarrow> NotFound)"
  using assms
proof (induction rule: chain.induct)
  case (chain_nil a)
  show ?case
    using rec_len_of_name(1) [of "int (length name)"] by (subst find_in_page.simps) simp
next
  case (chain_cons a b)
  note e = entries_cons [OF chain_cons(1,2)]
  show ?case
  proof (cases "a \<le> b - KR_DIR_REC_LEN (int (length name))")
    case True
    then show ?thesis
      using chain_cons(3) good_de_len [OF chain_cons(1)]
      by (subst find_in_page.simps) (simp add: e kr_next_entry_def)
  next
    case False
    have "\<not> kr_match name p x" if x: "x \<in> set (entries p a b)" for x
    proof
      assume k: "kr_match name p x"
      have "a \<le> x" "good_de c m p x" "x + rlen p x \<le> b"
        using chain_entry [OF chain.chain_cons [OF chain_cons(1,2)] x] by auto
      then show False using match_rlen [OF _ k, of c m] False by fastforce
    qed
    then have "find (kr_match name p) (entries p a b) = None"
      by (simp add: find_None_iff)
    then show ?thesis using False by (subst find_in_page.simps) simp
  qed
qed

text \<open>The search of \<^verbatim>\<open>kr_add_link\<close> for a place.\<close>

declare add_in_page.simps [simp del]

definition has_room :: "bytes \<Rightarrow> int \<Rightarrow> int \<Rightarrow> bool" where
  "has_room p reclen e =
     ((de_inode p e = 0 \<and> reclen \<le> rlen p e) \<or> KR_DIR_REC_LEN (de_name_len p e) + reclen \<le> rlen p e)"

lemma u16_name_len: "u16 (KR_DIR_REC_LEN (de_name_len p e)) = KR_DIR_REC_LEN (de_name_len p e)"
proof -
  have "0 \<le> KR_DIR_REC_LEN (de_name_len p e)" "KR_DIR_REC_LEN (de_name_len p e) < 65536"
    using rec_len_of_name(1,2) [of "de_name_len p e"] name_len_bounds [of p e] by linarith+
  then show ?thesis by (simp add: c_int)
qed

lemma add_in_page_cases:
  assumes "chain c m p a b" "b \<le> PAGE_SIZE" "r = add_in_page name p cs b (PAGE_SIZE - reclen) a"
    "reclen = KR_DIR_REC_LEN (int (length name))"
  shows "(r = AddExists \<and> (\<exists>e\<in>set (entries p a b). kr_match name p e)) \<or>
    (\<exists>e\<in>set (entries p a b). has_room p reclen e \<and> \<not> kr_match name p e \<and>
        r = GotIt False e (rlen p e) (KR_DIR_REC_LEN (de_name_len p e))) \<or>
    (r = GotIt True b (u16 cs) 0 \<and> b \<le> PAGE_SIZE - reclen \<and> \<not> (\<exists>e\<in>set (entries p a b). kr_match name p e)) \<or>
    (r = AddNextPage \<and> PAGE_SIZE - reclen < b)"
  using assms
proof (induction rule: chain.induct)
  case (chain_nil a)
  then show ?case by (simp add: add_in_page.simps [of _ _ _ _ _ a])
next
  case (chain_cons a b)
  note e = entries_cons [OF chain_cons(1,2)]
  have le: "a + rlen p a \<le> b" "12 \<le> rlen p a" using chain_le [OF chain_cons(2)] good_de_len [OF chain_cons(1)] by auto
  have step: "r = (if a \<le> PAGE_SIZE - reclen then
       if kr_match name p a then AddExists
       else if has_room p reclen a then GotIt False a (rlen p a) (KR_DIR_REC_LEN (de_name_len p a))
       else add_in_page name p cs b (PAGE_SIZE - reclen) (a + rlen p a) else AddNextPage)"
    using le chain_cons(5,6) by (subst chain_cons(5), subst add_in_page.simps) (auto simp: Let_def u16_name_len has_room_def)
  show ?case
  proof (cases "a \<le> PAGE_SIZE - reclen \<and> \<not> kr_match name p a \<and> \<not> has_room p reclen a")
    case True
    then have r: "r = add_in_page name p cs b (PAGE_SIZE - reclen) (a + rlen p a)" by (simp add: step)
    show ?thesis
      using chain_cons(3) [OF chain_cons(4) r chain_cons(6)] True unfolding e by auto
  next
    case False
    then show ?thesis using le by (auto simp: step e split: if_splits)
  qed
qed

section \<open>Storing into an entry\<close>

definition same_outside :: "bytes \<Rightarrow> bytes \<Rightarrow> int \<Rightarrow> int \<Rightarrow> bool" where
  "same_outside p q a b = (\<forall>x. x < a \<or> b \<le> x \<longrightarrow> q x = p x)"

lemma same_outside_agree:
  "same_outside p q a b \<Longrightarrow> b' \<le> a \<or> b \<le> a' \<Longrightarrow> agree p q a' b'"
  by (auto simp: same_outside_def agree_def)

lemma same_outside_mono: "same_outside p q a b \<Longrightarrow> a' \<le> a \<Longrightarrow> b \<le> b' \<Longrightarrow> same_outside p q a' b'"
  by (simp add: same_outside_def)

lemma same_outside_trans: "same_outside p q a b \<Longrightarrow> same_outside q r a b \<Longrightarrow> same_outside p r a b"
  by (simp add: same_outside_def)

lemma same_outside_refl [simp]: "same_outside p p a b"
  by (simp add: same_outside_def)

lemma set_de_type_cases:
  assumes "kr_set_de_type sb ino de q = Some p"
  obtains t where "p = q(de + 7 := t)"
  using assms by (auto simp: kr_set_de_type_def set_de_file_type_def put8_def Let_def split: if_splits)

definition known_type :: "inode \<Rightarrow> bool" where
  "known_type ino = (i_mode ino AND S_IFMT \<noteq> S_IFMT)"

lemma set_de_type_ok:
  assumes "known_type ino"
  shows "\<exists>p. kr_set_de_type sb ino de q = Some p"
proof -
  let ?w = "drop_bit 12 (i_mode ino AND S_IFMT)"
  have eq: "push_bit 12 ?w = i_mode ino AND S_IFMT"
  proof (rule bit_word_eqI)
    fix n
    assume "n < LENGTH(16)"
    then have "n < 12 \<Longrightarrow> \<not> bit (S_IFMT) n"
      by (auto simp: bit_simps numeral_eq_Suc less_Suc_eq)
    then show "bit (push_bit 12 ?w) n = bit (i_mode ino AND S_IFMT) n"
      using \<open>n < LENGTH(16)\<close> by (cases "n < 12") (auto simp: bit_simps)
  qed
  have "?w \<noteq> 15"
  proof
    assume "?w = 15"
    then have "push_bit 12 (15 :: 16 word) = i_mode ino AND S_IFMT" using eq by (simp only:)
    then show False using assms by (simp add: known_type_def)
  qed
  moreover have "unat ?w < 16"
  proof -
    have "unat ?w = unat (i_mode ino AND S_IFMT) div 2 ^ 12"
      unfolding unat_drop_bit_eq by (rule drop_bit_eq_div)
    moreover have "unat (i_mode ino AND S_IFMT) < 16 * 2 ^ 12"
      using unsigned_less [of "i_mode ino AND S_IFMT"] by simp
    ultimately show ?thesis by (simp add: less_mult_imp_div_less)
  qed
  ultimately have "unat ?w < 15"
    using word_unat_eq_iff [of ?w 15] by simp
  then show ?thesis
    by (simp add: kr_set_de_type_def Let_def kr_type_by_mode_def)
qed

text \<open>Filling in an entry changes its fields and keeps its length.\<close>

lemma fill_entry:
  assumes "kr_set_de_type sb ino de (set_de_inode de v (put_bytes (de + 8) name (set_de_name_len de (int (length name)) q))) = Some p"
    "length name < 256" "0 \<le> v" "v < 4294967296"
  shows "rlen p de = rlen q de" "de_name_len p de = int (length name)" "de_inode p de = v" "de_name p de = name"
    "same_outside q p de (de + 8 + int (length name))"
proof -
  obtain t where p: "p = (put32 de v (put_bytes (de + 8) name (q(de + 6 := word_of_int (int (length name))))))(de + 7 := t)"
    using set_de_type_cases [OF assms(1)] unfolding set_de_inode_def set_de_name_len_def put8_def by blast
  have ag: "agree (put32 de v r) p de (de + 4)" if "r = put_bytes (de + 8) name (q(de + 6 := word_of_int (int (length name))))" for r
    by (simp add: p agree_def that)
  show "rlen p de = rlen q de"
    unfolding kr_rec_len_from_disk_def by (rule get16_agree) (auto simp: agree_def p byte_simps)
  show len: "de_name_len p de = int (length name)"
    using assms(2) by (simp add: de_name_len_def p byte_simps uint_word8 del: of_int_of_nat_eq)
  show "de_inode p de = v"
    unfolding de_inode_def using get32_agree [OF ag [OF refl]] get32_put32 assms(3,4) by simp
  have "get_bytes p (de + 8) (int (length name)) =
          get_bytes (put_bytes (de + 8) name (q(de + 6 := word_of_int (int (length name))))) (de + 8) (int (length name))"
    by (rule get_bytes_agree) (auto simp: agree_def p byte_simps)
  then show "de_name p de = name"
    by (simp add: de_name_def len get_put_bytes)
  show "same_outside q p de (de + 8 + int (length name))"
    by (auto simp: same_outside_def p byte_simps)
qed

lemma rlen_put16: "0 \<le> v \<Longrightarrow> v < 65536 \<Longrightarrow> rlen (kr_rec_len_to_disk e v p) e = v"
  by (simp add: kr_rec_len_from_disk_def kr_rec_len_to_disk_def get16_put16)

lemma rec_len_to_disk_outside: "same_outside p (kr_rec_len_to_disk e v p) e (e + 8)"
  by (auto simp: same_outside_def kr_rec_len_to_disk_def put16_def)

lemma rec_len_to_disk_fields:
  "de_inode (kr_rec_len_to_disk e v p) e = de_inode p e"
  "de_name_len (kr_rec_len_to_disk e v p) e = de_name_len p e"
  "de_name (kr_rec_len_to_disk e v p) e = de_name p e"
proof -
  show "de_inode (kr_rec_len_to_disk e v p) e = de_inode p e"
    unfolding de_inode_def by (rule get32_agree) (auto simp: agree_def kr_rec_len_to_disk_def put16_def)
  show n: "de_name_len (kr_rec_len_to_disk e v p) e = de_name_len p e"
    by (simp add: de_name_len_def kr_rec_len_to_disk_def put16_def)
  show "de_name (kr_rec_len_to_disk e v p) e = de_name p e"
    unfolding de_name_def n by (rule get_bytes_agree) (auto simp: agree_def kr_rec_len_to_disk_def put16_def)
qed

lemma set_de_inode_fields:
  assumes "0 \<le> v" "v < 4294967296"
  shows "de_inode (set_de_inode e v p) e = v" "rlen (set_de_inode e v p) e = rlen p e"
    "de_name_len (set_de_inode e v p) e = de_name_len p e" "de_name (set_de_inode e v p) e = de_name p e"
    "same_outside p (set_de_inode e v p) e (e + 8)"
proof -
  show "de_inode (set_de_inode e v p) e = v"
    using assms by (simp add: de_inode_def set_de_inode_def get32_put32)
  show "rlen (set_de_inode e v p) e = rlen p e"
    unfolding kr_rec_len_from_disk_def by (rule get16_agree) (auto simp: agree_def set_de_inode_def byte_simps)
  show n: "de_name_len (set_de_inode e v p) e = de_name_len p e"
    by (simp add: de_name_len_def set_de_inode_def byte_simps)
  show "de_name (set_de_inode e v p) e = de_name p e"
    unfolding de_name_def n by (rule get_bytes_agree) (auto simp: agree_def set_de_inode_def byte_simps)
  show "same_outside p (set_de_inode e v p) e (e + 8)"
    by (auto simp: same_outside_def set_de_inode_def byte_simps)
qed

section \<open>Adding an entry to a page\<close>

lemma div_inside:
  assumes "(0 :: int) < c" "a \<le> x" "x \<le> y" "y div c = a div c"
  shows "x div c = a div c"
  using zdiv_mono1 [of a x c] zdiv_mono1 [of x y c] assms by linarith

text \<open>A part of an entry is in the same chunk.\<close>

lemma good_part:
  assumes g: "good_de c m p e" and "0 < c" "e \<le> a" "a + rlen q a \<le> e + rlen p e" "12 \<le> rlen q a" "4 dvd rlen q a"
    "KR_DIR_REC_LEN (de_name_len q a) \<le> rlen q a" "de_inode q a \<le> m"
  shows "good_de c m q a"
proof -
  have e: "(e + rlen p e - 1) div c = e div c" using g by (simp add: good_de_def)
  have "(a + rlen q a - 1) div c = e div c" "a div c = e div c"
    by (rule div_inside [where y = "e + rlen p e - 1"]; use assms e in linarith)+
  then show ?thesis using assms(5-8) by (simp add: good_de_def)
qed

lemma add_fill_ok:
  assumes g: "good_de c m p e" and c: "0 < c"
    and room: "has_room p (KR_DIR_REC_LEN (int (length name))) e"
    and nm: "0 < length name" "length name < 256"
    and nn: "de_inode p e \<noteq> 0 \<Longrightarrow> 0 < de_name_len p e"
    and i: "i_ino ino \<noteq> 0" "0 \<le> i_ino ino" "i_ino ino \<le> m" "i_ino ino < 4294967296"
    and f: "add_fill sb ino name e (rlen p e) (KR_DIR_REC_LEN (de_name_len p e)) p = Some q"
  shows "same_outside p q e (e + rlen p e) \<and> chain c m q e (e + rlen p e) \<and>
    listing q e (e + rlen p e) = listing p e (e + rlen p e) @ [(name, i_ino ino)] \<and>
    (de_inode p e \<noteq> 0 \<longrightarrow> e \<in> set (entries q e (e + rlen p e)) \<and> de_inode q e = de_inode p e \<and> de_name q e = de_name p e)"
proof -
  let ?n = "int (length name)" and ?nl = "KR_DIR_REC_LEN (de_name_len p e)" and ?r = "rlen p e"
  have v: "u32 (i_ino ino) = i_ino ino" using i by (simp add: c_int)
  have rn: "?n + 8 \<le> KR_DIR_REC_LEN ?n" "12 \<le> KR_DIR_REC_LEN ?n" "4 dvd KR_DIR_REC_LEN ?n"
    using rec_len_of_name [of ?n] rec_len_min [of ?n] nm by auto
  have nl: "de_name_len p e + 8 \<le> ?nl" "4 dvd ?nl" using rec_len_of_name [of "de_name_len p e"] by auto
  have r: "12 \<le> ?r" "4 dvd ?r" "?r < 65536" using g by (simp_all add: good_de_def)
  show ?thesis
  proof (cases "de_inode p e = 0")
    case True
    have "kr_set_de_type sb ino e (set_de_inode e (i_ino ino) (put_bytes (e + 8) name (set_de_name_len e ?n p))) = Some q"
      using f True v by (simp add: add_fill_def)
    note fe = fill_entry [OF this nm(2) i(2,4)]
    have le: "KR_DIR_REC_LEN ?n \<le> ?r" using room nl unfolding has_room_def by (auto simp: True) (use name_len_bounds [of p e] in linarith)
    have gq: "good_de c m q e"
      by (rule good_part [OF g c, of e]) (use fe(1-3) le r i in auto)
    show ?thesis
      using chain_single [OF gq] fe rn(1) le entries_single [OF g] entries_single [OF gq]
      by (auto simp: used_Cons True i intro: same_outside_mono)
  next
    case False
    let ?p1 = "kr_rec_len_to_disk e ?nl (kr_rec_len_to_disk (e + ?nl) (?r - ?nl) p)"
    have le: "?nl + KR_DIR_REC_LEN ?n \<le> ?r" using room False by (simp add: has_room_def)
    have "kr_set_de_type sb ino (e + ?nl)
        (set_de_inode (e + ?nl) (i_ino ino) (put_bytes (e + ?nl + 8) name (set_de_name_len (e + ?nl) ?n ?p1))) = Some q"
      using f False v by (simp add: add_fill_def)
    note fe = fill_entry [OF this nm(2) i(2,4)]
    have nl0: "8 \<le> ?nl" using nl(1) name_len_bounds(1) [of p e] by linarith
    have p1: "same_outside p ?p1 e (e + ?r)"
      using same_outside_mono [OF rec_len_to_disk_outside [of p "e + ?nl" "?r - ?nl"], of e "e + ?r"]
        same_outside_mono [OF rec_len_to_disk_outside [of "kr_rec_len_to_disk (e + ?nl) (?r - ?nl) p" e ?nl], of e "e + ?r"]
        le rn nl0 r by (auto intro: same_outside_trans)
    have out: "same_outside p q e (e + ?r)"
      using p1 same_outside_mono [OF fe(5), of e "e + ?r"] le rn nl0 by (auto intro: same_outside_trans)
    have r2: "rlen q (e + ?nl) = ?r - ?nl"
    proof -
      have "rlen ?p1 (e + ?nl) = rlen (kr_rec_len_to_disk (e + ?nl) (?r - ?nl) p) (e + ?nl)"
        by (rule rec_len_agree) (rule same_outside_agree [OF rec_len_to_disk_outside]; use nl0 in simp)
      also have "\<dots> = ?r - ?nl" by (rule rlen_put16; use le rn(2) r(3) nl0 in linarith)
      finally show ?thesis using fe(1) by simp
    qed
    have ag0: "agree p (kr_rec_len_to_disk (e + ?nl) (?r - ?nl) p) e (e + ?nl)"
      by (rule same_outside_agree [OF rec_len_to_disk_outside]) simp
    have ag1: "agree ?p1 q e (e + ?nl)" by (rule same_outside_agree [OF fe(5)]) simp
    have ag1h: "agree ?p1 q e (e + 8)" by (rule agree_sub [OF ag1]) (use nl0 in auto)
    have ag0h: "agree p (kr_rec_len_to_disk (e + ?nl) (?r - ?nl) p) e (e + 8)" by (rule agree_sub [OF ag0]) (use nl0 in auto)
    have r1: "rlen q e = ?nl"
      using rec_len_agree [OF ag1h] rlen_put16 [of ?nl e] nl0 le r rn by simp
    have n1: "de_name_len q e = de_name_len p e" "de_inode q e = de_inode p e"
      using name_len_agree [OF ag1h] de_inode_agree [OF ag1h] name_len_agree [OF ag0h] de_inode_agree [OF ag0h]
      by (simp_all add: rec_len_to_disk_fields)
    have nm1: "de_name q e = de_name p e"
    proof -
      have "de_name q e = de_name ?p1 e"
        by (rule de_name_agree) (rule agree_sub [OF ag1]; use nl(1) name_len_agree [OF ag0h] in \<open>simp add: rec_len_to_disk_fields\<close>)
      also have "\<dots> = de_name p e"
        unfolding rec_len_to_disk_fields(3) by (rule de_name_agree) (rule agree_sub [OF ag0]; use nl(1) in simp)
      finally show ?thesis .
    qed
    have m: "de_inode p e \<le> m" using g by (simp add: good_de_def)
    have ge: "12 \<le> ?nl" using rec_len_min nn [OF False] .
    have g1: "good_de c m q e"
      by (rule good_part [OF g c, of e]) (use r1 n1 ge nl le rn m in auto)
    have g2: "good_de c m q (e + ?nl)"
      by (rule good_part [OF g c, of "e + ?nl"]) (use r2 fe(2,3) nl0 nl le rn r i in auto)
    have ch: "chain c m q (e + ?nl) (e + ?r)" using chain_single [OF g2] r2 by simp
    have "entries q (e + ?nl) (e + ?r) = [e + ?nl]" using entries_single [OF g2] r2 by simp
    then have en: "entries q e (e + ?r) = [e, e + ?nl]" using entries_cons [OF g1, of "e + ?r"] ch r1 by simp
    then have "listing q e (e + ?r) = listing p e (e + ?r) @ [(name, i_ino ino)]"
      using n1 nm1 fe(3,4) False i entries_single [OF g] by (simp add: used_def)
    then show ?thesis
      using out chain_cons [OF g1, of "e + ?r"] ch r1 en n1 nm1 by simp
  qed
qed

text \<open>A stretch of a chain may be replaced.\<close>

lemma chain_replace:
  assumes "chain c m p a x" "chain c m p y b" "same_outside p q x y" "chain c m q x y"
  shows "chain c m q a b \<and> listing q a b = listing p a x @ listing q x y @ listing p y b"
proof -
  have 1: "chain c m q a x" "listing q a x = listing p a x"
    using chain_agree [OF assms(1) same_outside_agree [OF assms(3)]] by auto
  have 2: "chain c m q y b" "listing q y b = listing p y b"
    using chain_agree [OF assms(2) same_outside_agree [OF assms(3)]] by auto
  show ?thesis
    using chain_append [OF 1(1) chain_append [OF assms(4) 2(1)]]
      listing_append [OF 1(1) chain_append [OF assms(4) 2(1)]] listing_append [OF assms(4) 2(1)] 1(2) 2(2)
    by simp
qed

text \<open>The entries in use of \<open>p\<close> are entries of \<open>q\<close>, with their names and inodes.\<close>

definition keeps_entries :: "bytes \<Rightarrow> bytes \<Rightarrow> int list \<Rightarrow> int list \<Rightarrow> bool" where
  "keeps_entries p q xs ys =
     (\<forall>e\<in>set xs. de_inode p e \<noteq> 0 \<longrightarrow> e \<in> set ys \<and> de_inode q e = de_inode p e \<and> de_name q e = de_name p e)"

lemma keeps_entries_append:
  "keeps_entries p q xs xs' \<Longrightarrow> keeps_entries p q ys ys' \<Longrightarrow> keeps_entries p q (xs @ ys) (xs' @ ys')"
  by (auto simp: keeps_entries_def)

lemma keeps_entries_agree:
  assumes "chain c m p a b" "agree p q a b"
  shows "keeps_entries p q (entries p a b) (entries q a b)"
proof -
  have "good_de c m p e \<and> agree p q e (e + rlen p e)" if "e \<in> set (entries p a b)" for e
    using chain_entry [OF assms(1) that] by (auto intro: agree_sub [OF assms(2)])
  then show ?thesis
    using good_de_agree chain_agree [OF assms] unfolding keeps_entries_def by metis
qed

lemma keeps_entries_replace:
  assumes "chain c m p a x" "chain c m p x y" "chain c m p y b" "same_outside p q x y" "chain c m q x y"
    "keeps_entries p q (entries p x y) (entries q x y)"
  shows "keeps_entries p q (entries p a b) (entries q a b)"
proof -
  have ag: "agree p q a x" "agree p q y b" by (rule same_outside_agree [OF assms(4)]; simp)+
  have q: "chain c m q a x" "chain c m q y b" using chain_agree assms(1,3) ag by blast+
  have "keeps_entries p q (entries p a x @ entries p x y @ entries p y b) (entries q a x @ entries q x y @ entries q y b)"
    by (intro keeps_entries_append keeps_entries_agree [OF assms(1) ag(1)] keeps_entries_agree [OF assms(3) ag(2)] assms(6))
  then show ?thesis
    using entries_append [OF assms(1) chain_append [OF assms(2,3)]] entries_append [OF assms(2,3)]
      entries_append [OF q(1) chain_append [OF assms(5) q(2)]] entries_append [OF assms(5) q(2)] by simp
qed

text \<open>The entry that \<^verbatim>\<open>kr_add_link\<close> starts past the end of the directory.\<close>

lemma fresh_good:
  assumes "c dvd e" "4 dvd c" "512 \<le> c" "c < 65536" "0 \<le> m" "q = set_de_inode e 0 (kr_rec_len_to_disk e c p)"
  shows "good_de c m q e \<and> rlen q e = c \<and> de_inode q e = 0 \<and> same_outside p q e (e + c)"
proof -
  note f = set_de_inode_fields [where v = 0 and e = e and p = "kr_rec_len_to_disk e c p", folded assms(6)]
  have r: "rlen q e = c" using f(2) rlen_put16 [of c e p] assms by simp
  have "KR_DIR_REC_LEN (de_name_len q e) \<le> c"
    using rec_len_of_name(2) [of "de_name_len q e"] name_len_bounds [of q e] assms(3) by linarith
  moreover have "(e + c - 1) div c = e div c"
  proof -
    obtain i where "e = i * c" using assms(1) by (auto simp: dvd_def mult.commute)
    moreover have "(i * c + (c - 1)) div c = i" using assms(3) by (simp add: div_pos_pos_trivial)
    ultimately show ?thesis using assms(3) by (simp add: algebra_simps)
  qed
  moreover have "same_outside p q e (e + 8)"
    using same_outside_trans [OF rec_len_to_disk_outside f(5)] by simp
  ultimately show ?thesis
    using assms f(1) r same_outside_mono [of p q e "e + 8" e "e + c"] by (simp add: good_de_def)
qed

lemma add_fill_free: "de_inode p e = 0 \<Longrightarrow> add_fill sb ino name e r l p = add_fill sb ino name e r' l' p"
  by (simp add: add_fill_def)

lemma add_fill_defined: "known_type ino \<Longrightarrow> \<exists>q. add_fill sb ino name e r l p = Some q"
  unfolding add_fill_def Let_def by (simp add: set_de_type_ok split: prod.splits)

section \<open>Removing an entry from a page\<close>

declare find_pde.simps [simp del]

lemma find_pde_eq:
  "chain c m p a e \<Longrightarrow> find_pde p e acc a = Inr (if entries p a e = [] then acc else Some (last (entries p a e)))"
proof (induction arbitrary: acc rule: chain.induct)
  case (chain_nil a)
  then show ?case by (subst find_pde.simps) simp
next
  case (chain_cons a b)
  have "a < b" using chain_le [OF chain_cons(2)] good_de_len [OF chain_cons(1)] by simp
  then show ?case
    using chain_cons(3) [of "Some a"] good_de_len [OF chain_cons(1)]
    by (subst find_pde.simps) (simp add: kr_next_entry_def entries_cons [OF chain_cons(1,2)])
qed

lemma last_entry:
  "chain c m p a e \<Longrightarrow> entries p a e \<noteq> [] \<Longrightarrow>
     last (entries p a e) \<in> set (entries p a e) \<and> last (entries p a e) + rlen p (last (entries p a e)) = e"
proof (induction rule: chain.induct)
  case (chain_cons a b)
  show ?case
  proof (cases "entries p (a + rlen p a) b = []")
    case True
    then have "a + rlen p a = b"
      using chain_cons(2) chain_lt_cases [OF chain_cons(2)] entries_cons [of c m p "a + rlen p a" b] chain_le [OF chain_cons(2)]
      by force
    then show ?thesis using True by (simp add: entries_cons [OF chain_cons(1,2)])
  next
    case False
    then show ?thesis using chain_cons(3) by (simp add: entries_cons [OF chain_cons(1,2)])
  qed
qed simp

definition delete_bytes :: "bytes \<Rightarrow> int option \<Rightarrow> int \<Rightarrow> bytes" where
  "delete_bytes p pde e =
     set_de_inode e 0 (case pde of None \<Rightarrow> p | Some d \<Rightarrow> kr_rec_len_to_disk d (e + rlen p e - d) p)"

lemma delete_first:
  assumes "good_de c m p e" "0 \<le> m"
  shows "same_outside p (delete_bytes p None e) e (e + rlen p e) \<and> chain c m (delete_bytes p None e) e (e + rlen p e) \<and>
    listing (delete_bytes p None e) e (e + rlen p e) = []"
proof -
  let ?q = "delete_bytes p None e"
  note f = set_de_inode_fields [where v = 0 and e = e and p = p]
  have q: "?q = set_de_inode e 0 p" by (simp add: delete_bytes_def)
  have g: "good_de c m ?q e" using assms f(1-3) unfolding q by (simp add: good_de_def)
  have r: "rlen ?q e = rlen p e" using f(2) by (simp add: q)
  have "same_outside p ?q e (e + rlen p e)"
    using same_outside_mono [OF f(5), of e "e + rlen p e"] good_de_len [OF assms(1)] by (simp add: q)
  then show ?thesis
    using chain_single [OF g] entries_single [OF g] r f(1) by (simp add: used_def q)
qed

lemma delete_merge:
  assumes g: "good_de c m p e" and d: "good_de c m p d" "d + rlen p d = e" "d div c = e div c" and sz: "e + rlen p e - d < 65536"
  shows "same_outside p (delete_bytes p (Some d) e) d (e + rlen p e) \<and> chain c m (delete_bytes p (Some d) e) d (e + rlen p e) \<and>
    listing (delete_bytes p (Some d) e) d (e + rlen p e) = listing p d e"
proof -
  let ?z = "e + rlen p e" and ?q = "delete_bytes p (Some d) e"
  let ?p1 = "kr_rec_len_to_disk d (?z - d) p"
  have q: "?q = set_de_inode e 0 ?p1" by (simp add: delete_bytes_def)
  have len: "12 \<le> rlen p d" "12 \<le> rlen p e" using good_de_len g d(1) by auto
  have out: "same_outside p ?q d ?z"
    using same_outside_trans [OF same_outside_mono [OF rec_len_to_disk_outside [of p d "?z - d"], of d ?z]
        same_outside_mono [OF set_de_inode_fields(5) [where v = 0 and e = e and p = ?p1], of d ?z]] len d(2) by (simp add: q)
  have ag: "agree ?p1 ?q d e"
    unfolding q by (rule same_outside_agree [OF set_de_inode_fields(5)]) auto
  have agh: "agree ?p1 ?q d (d + 8)" by (rule agree_sub [OF ag]) (use len d(2) in auto)
  have agn: "agree ?p1 ?q d (d + 8 + de_name_len ?p1 d)"
    by (rule agree_sub [OF ag]) (use good_de_name [OF d(1)] d(2) in \<open>auto simp: rec_len_to_disk_fields\<close>)
  have f: "rlen ?q d = ?z - d" "de_name_len ?q d = de_name_len p d" "de_inode ?q d = de_inode p d" "de_name ?q d = de_name p d"
    using rec_len_agree [OF agh] name_len_agree [OF agh] de_inode_agree [OF agh] de_name_agree [OF agn]
      rlen_put16 [of "?z - d" d p] len d(2) sz by (simp_all add: rec_len_to_disk_fields)
  have gq: "good_de c m ?q d"
  proof -
    have "rlen p d + rlen p e = ?z - d" using d(2) by simp
    then have "4 dvd ?z - d" using d(1) g unfolding good_de_def by (metis dvd_add)
    moreover have "(d + (?z - d) - 1) div c = d div c" using g d(3) by (simp add: good_de_def)
    ultimately show ?thesis using f len d(1,2) by (simp add: good_de_def)
  qed
  show ?thesis
    using out chain_single [OF gq] entries_single [OF gq] entries_single [OF d(1)] f d(2) by (simp add: used_def)
qed

lemma delete_page_ok:
  assumes ch: "chain c m p 0 b" and e: "e \<in> set (entries p 0 b)" and b: "b \<le> PAGE_SIZE" and c: "c = 2 ^ n" and m: "0 \<le> m"
  obtains pde where "find_pde p e None (e AND NOT (c - 1)) = Inr pde"
    "chain c m (delete_bytes p pde e) 0 b"
    "listing (delete_bytes p pde e) 0 b = listing p 0 e @ listing p (e + rlen p e) b"
    "same_outside p (delete_bytes p pde e) (case pde of None \<Rightarrow> e | Some d \<Rightarrow> d) (e + rlen p e)"
    "pde = None \<longrightarrow> e AND NOT (c - 1) = e" "case pde of None \<Rightarrow> True | Some d \<Rightarrow> 0 \<le> d \<and> d < e"
proof -
  define x where "x = c * (e div c)"
  have c0: "0 < c" by (simp add: c)
  have msk: "e AND NOT (c - 1) = x" by (simp add: c and_not_low x_def)
  have spl: "0 \<le> e" "chain c m p 0 e" "good_de c m p e" "chain c m p (e + rlen p e) b" "e + rlen p e \<le> b"
    using chain_entry [OF ch e] by auto
  have x: "0 \<le> x" "c dvd x" "x div c = e div c" using spl(1) c0 by (simp_all add: x_def pos_imp_zdiv_nonneg_iff)
  have xe: "x \<le> e" using mult_div_mod_eq [of c e] pos_mod_sign [of c e] c0 unfolding x_def by linarith
  have cx: "chain c m p 0 x" "chain c m p x e" using chain_at_chunk [OF spl(2) c0 x(2,1) xe] by auto
  show ?thesis
  proof (cases "entries p x e = []")
    case True
    then have "x = e"
      using chain_lt_cases [OF cx(2)] entries_cons [of c m p x e] xe by force
    then show ?thesis
      using that [of None] True find_pde_eq [OF cx(2), of None] delete_first [OF spl(3) m]
        chain_replace [OF spl(2,4), of "delete_bytes p None e"] by (simp add: msk)
  next
    case False
    define d where "d = last (entries p x e)"
    have d: "d \<in> set (entries p x e)" "d + rlen p d = e"
      using last_entry [OF cx(2) False] by (simp_all add: d_def)
    have dd: "x \<le> d" "chain c m p x d" "good_de c m p d" using chain_entry [OF cx(2) d(1)] by auto
    have lt: "d < e" using d(2) good_de_len [OF dd(3)] by simp
    have "d div c = e div c"
      using zdiv_mono1 [of x d c] zdiv_mono1 [of d e c] dd(1) lt x(3) c0 by linarith
    then have mg: "same_outside p (delete_bytes p (Some d) e) d (e + rlen p e)"
      "chain c m (delete_bytes p (Some d) e) d (e + rlen p e)"
      "listing (delete_bytes p (Some d) e) d (e + rlen p e) = listing p d e"
      using delete_merge [OF spl(3) dd(3) d(2)] spl(5) b x(1) dd(1) by auto
    have cd: "chain c m p 0 d" "chain c m p d e" using chain_append [OF cx(1) dd(2)] chain_single [OF dd(3)] d(2) by auto
    have "listing p 0 e = listing p 0 d @ listing p d e" by (rule listing_append [OF cd])
    then show ?thesis
      using that [of "Some d"] find_pde_eq [OF cx(2), of None] False mg x(1) dd(1) lt
        chain_replace [OF cd(1) spl(4) mg(1,2)] by (simp add: msk d_def)
  qed
qed

section \<open>Redirecting an entry\<close>

lemma de_type_fields:
  assumes "q = p(e + 7 := t)"
  shows "rlen q e = rlen p e" "de_name_len q e = de_name_len p e" "de_inode q e = de_inode p e" "de_name q e = de_name p e"
    "same_outside p q e (e + 8)"
  using assms by (auto simp: kr_rec_len_from_disk_def de_name_len_def de_inode_def de_name_def get32_def get16_def
      same_outside_def agree_def intro!: get_bytes_agree)

lemma relink_page_ok:
  assumes ch: "chain c m p 0 b" and e: "e \<in> set (entries p 0 b)" and v: "0 < v" "v \<le> m" "v < 4294967296"
    and q: "kr_set_de_type sb ino e (set_de_inode e v p) = Some q"
  shows "chain c m q 0 b \<and> listing q 0 b = listing p 0 e @ (de_name p e, v) # listing p (e + rlen p e) b \<and>
    same_outside p q e (e + rlen p e) \<and> entries q 0 b = entries p 0 b \<and>
    (\<forall>x\<in>set (entries p 0 b). de_name q x = de_name p x \<and> (x \<noteq> e \<longrightarrow> de_inode q x = de_inode p x))"
proof -
  obtain t where t: "q = (set_de_inode e v p)(e + 7 := t)" using set_de_type_cases [OF q] by blast
  have spl: "chain c m p 0 e" "good_de c m p e" "chain c m p (e + rlen p e) b"
    using chain_entry [OF ch e] by auto
  note 1 = set_de_inode_fields [where v = v and e = e and p = p, OF less_imp_le [OF v(1)] v(3)]
  note 2 = de_type_fields [OF t]
  have g: "good_de c m q e" "rlen q e = rlen p e" using spl(2) 1 2 v by (simp_all add: good_de_def)
  have out: "same_outside p q e (e + rlen p e)"
    using same_outside_mono [OF same_outside_trans [OF 1(5) 2(5)], of e "e + rlen p e"] good_de_len [OF spl(2)] by simp
  have "listing q e (e + rlen p e) = [(de_name p e, v)]"
    using entries_single [OF g(1)] g(2) 1 2 v by (simp add: used_def)
  moreover have "entries q 0 b = entries p 0 b \<and>
    (\<forall>x\<in>set (entries p 0 b). de_name q x = de_name p x \<and> (x \<noteq> e \<longrightarrow> de_inode q x = de_inode p x))"
  proof -
    have ag: "agree p q 0 e" "agree p q (e + rlen p e) b" by (rule same_outside_agree [OF out]; simp)+
    have q: "chain c m q 0 e" "chain c m q (e + rlen p e) b" "entries q 0 e = entries p 0 e"
      "entries q (e + rlen p e) b = entries p (e + rlen p e) b"
      using chain_agree spl(1,3) ag by blast+
    have en: "entries p 0 b = entries p 0 e @ e # entries p (e + rlen p e) b"
      using entries_append [OF spl(1) chain_cons [OF spl(2,3)]] entries_cons [OF spl(2,3)] by simp
    have "entries q 0 b = entries p 0 b"
      using entries_append [OF q(1) chain_cons [OF g(1)]] entries_cons [OF g(1)] g(2) q en by simp
    moreover have "de_name q x = de_name p x \<and> de_inode q x = de_inode p x"
      if "x \<in> set (entries p 0 e) \<or> x \<in> set (entries p (e + rlen p e) b)" for x
      using that chain_entry [OF spl(1)] chain_entry [OF spl(3)] good_de_agree agree_sub [OF ag(1)] agree_sub [OF ag(2)]
      by (metis dual_order.refl)
    ultimately show ?thesis using en 1(4) 2(4) by auto
  qed
  ultimately show ?thesis
    using chain_replace [OF spl(1,3) out] chain_single [OF g(1)] g(2) out by simp
qed

section \<open>Empty directories\<close>

text \<open>The entries that \<^verbatim>\<open>kr_empty_dir\<close> ignores: \<^verbatim>\<open>.\<close> for the directory itself, and \<^verbatim>\<open>..\<close>.\<close>

definition dot_or_dotdot :: "int \<Rightarrow> fname \<times> int \<Rightarrow> bool" where
  "dot_or_dotdot i_no x = (x = ([0x2E], i_no) \<or> fst x = [0x2E, 0x2E])"

lemma get_bytes_1: "get_bytes p a 1 = [p a]"
  by (rule nth_equalityI) simp_all

lemma get_bytes_2: "get_bytes p a 2 = [p a, p (a + 1)]"
  by (rule nth_equalityI) (auto simp: less_Suc_eq numeral_2_eq_2)

lemma dot_entry_iff:
  assumes "0 < de_name_len p e"
  shows "dot_entry p i_no e \<longleftrightarrow> dot_or_dotdot i_no (de_name p e, de_inode p e)"
proof -
  have len: "length (de_name p e) = nat (de_name_len p e)" by (simp add: de_name_def)
  consider "de_name_len p e = 1" | "de_name_len p e = 2" | "2 < de_name_len p e" using assms by linarith
  then show ?thesis
  proof cases
    case 1
    then show ?thesis by (auto simp: dot_entry_def dot_or_dotdot_def de_name_def get_bytes_1)
  next
    case 2
    then show ?thesis by (auto simp: dot_entry_def dot_or_dotdot_def de_name_def get_bytes_2 add.assoc)
  next
    case 3
    then have "de_name p e \<noteq> [0x2E]" "de_name p e \<noteq> [0x2E, 0x2E]" using len by auto
    then show ?thesis using 3 by (simp add: dot_entry_def dot_or_dotdot_def)
  qed
qed

declare empty_in_page.simps [simp del]

lemma empty_in_page_eq:
  "chain c m p a b \<Longrightarrow> empty_in_page p i_no (b - 12) a =
     (if \<forall>e\<in>set (entries p a b). de_inode p e = 0 \<or> dot_entry p i_no e then PageEmpty else PageNotEmpty)"
proof (induction rule: chain.induct)
  case (chain_nil a)
  then show ?case by (subst empty_in_page.simps) simp
next
  case (chain_cons a b)
  have "a \<le> b - 12" "rlen p a \<noteq> 0" using chain_le [OF chain_cons(2)] good_de_len [OF chain_cons(1)] by auto
  then show ?case
    using chain_cons(3)
    by (subst empty_in_page.simps) (auto simp: kr_next_entry_def entries_cons [OF chain_cons(1,2)])
qed

text \<open>Names in use are not empty.\<close>

definition named :: "(fname \<times> int) list \<Rightarrow> bool" where
  "named xs = ([] \<notin> fst ` set xs)"

lemma named_append [simp]: "named (xs @ ys) \<longleftrightarrow> named xs \<and> named ys"
  by (auto simp: named_def)

lemma named_entry:
  assumes "named (used p os)" "e \<in> set os" "de_inode p e \<noteq> 0"
  shows "0 < de_name_len p e"
proof (rule ccontr)
  assume "\<not> 0 < de_name_len p e"
  then have "de_name p e = []" by (simp add: de_name_def get_bytes_def)
  moreover have "(de_name p e, de_inode p e) \<in> set (used p os)" using assms(2,3) by (auto simp: used_def)
  ultimately show False using assms(1) by (force simp: named_def)
qed

lemma empty_page_listing:
  assumes "chain c m p a b" "named (listing p a b)"
  shows "empty_in_page p i_no (b - 12) a =
    (if \<forall>x\<in>set (listing p a b). dot_or_dotdot i_no x then PageEmpty else PageNotEmpty)"
proof -
  have "(\<forall>e\<in>set (entries p a b). de_inode p e = 0 \<or> dot_entry p i_no e) \<longleftrightarrow>
          (\<forall>x\<in>set (listing p a b). dot_or_dotdot i_no x)"
    using dot_entry_iff [OF named_entry [OF assms(2)]] by (auto simp: used_def)
  then show ?thesis by (simp add: empty_in_page_eq [OF assms(1)])
qed


lemma make_empty_fields:
  assumes d: "make_empty_data sb ino parent c p = Some q" and c: "512 \<le> c" "c \<le> PAGE_SIZE"
    and i: "0 < i_ino ino" "i_ino ino < 4294967296" and j: "0 < i_ino parent" "i_ino parent < 4294967296"
  shows "rlen q 0 = 12" "de_name_len q 0 = 1" "de_inode q 0 = i_ino ino" "de_name q 0 = [0x2E]"
    "rlen q 12 = c - 12" "de_name_len q 12 = 2" "de_inode q 12 = i_ino parent" "de_name q 12 = [0x2E, 0x2E]"
proof -
  note defs = set_de_inode_def kr_rec_len_to_disk_def set_de_name_len_def put8_def dot_name_def dotdot_name_def
  have ui: "u32 (i_ino ino) = i_ino ino" "u32 (i_ino parent) = i_ino parent" using i j by (simp_all add: c_int)
  define z where "z = put_bytes 0 (replicate (nat c) 0) p"
  obtain p1 where p1: "kr_set_de_type sb ino 0
       (set_de_inode 0 (i_ino ino) (put_bytes 8 dot_name (kr_rec_len_to_disk 0 12 (set_de_name_len 0 1 z)))) = Some p1"
    and q: "kr_set_de_type sb ino 12
       (put_bytes 20 dotdot_name (set_de_inode 12 (i_ino parent)
         (kr_rec_len_to_disk 12 (c - 12) (set_de_name_len 12 2 p1)))) = Some q"
    using d by (auto simp: make_empty_data_def ui z_def split: bind_splits)
  obtain t where t: "p1 = (put32 0 (i_ino ino) (put_bytes 8 [0x2E, 0, 0, 0] (put16 4 12 (z(6 := 1)))))(7 := t)"
    using set_de_type_cases [OF p1] by (auto simp: defs)
  obtain u where u: "q = (put_bytes 20 [0x2E, 0x2E, 0, 0] (put32 12 (i_ino parent) (put16 16 (c - 12) (p1(18 := 2)))))(19 := u)"
    using set_de_type_cases [OF q] by (auto simp: defs)
  have a1: "agree p1 q 0 12"
    by (auto simp: agree_def u byte_simps)
  have h1: "agree (put16 4 12 (z(6 := 1))) q 4 7"
    by (auto simp: agree_def u t byte_simps)
  show "rlen q 0 = 12"
    using get16_agree [OF agree_sub [OF h1, of 4 "4 + 2"]] by (simp add: kr_rec_len_from_disk_def get16_put16)
  show n1: "de_name_len q 0 = 1"
    by (simp add: de_name_len_def u t byte_simps)
  have "agree (put32 0 (i_ino ino) (put_bytes 8 [0x2E, 0, 0, 0] (put16 4 12 (z(6 := 1))))) q 0 (0 + 4)"
    by (auto simp: agree_def u t byte_simps)
  from get32_agree [OF this] show "de_inode q 0 = i_ino ino"
    using i by (simp add: de_inode_def get32_put32)
  show "de_name q 0 = [0x2E]"
    unfolding de_name_def n1 get_bytes_1 by (simp add: u t byte_simps)
  have h2: "agree (put16 16 (c - 12) (p1(18 := 2))) q 16 (16 + 2)"
    by (auto simp: agree_def u byte_simps)
  show "rlen q 12 = c - 12"
    using get16_agree [OF h2] c by (simp add: kr_rec_len_from_disk_def get16_put16)
  show n2: "de_name_len q 12 = 2"
    by (simp add: de_name_len_def u byte_simps)
  have "agree (put32 12 (i_ino parent) (put16 16 (c - 12) (p1(18 := 2)))) q 12 (12 + 4)"
    by (auto simp: agree_def u byte_simps)
  from get32_agree [OF this] show "de_inode q 12 = i_ino parent"
    using j by (simp add: de_inode_def get32_put32)
  show "de_name q 12 = [0x2E, 0x2E]"
    unfolding de_name_def n2 get_bytes_2 by (simp add: u byte_simps)
qed

lemma make_empty_data_ok:
  assumes d: "make_empty_data sb ino parent c p = Some q" and c: "512 \<le> c" "c \<le> PAGE_SIZE" "4 dvd c"
    and i: "0 < i_ino ino" "i_ino ino \<le> m" "i_ino ino < 4294967296"
    and j: "0 < i_ino parent" "i_ino parent \<le> m" "i_ino parent < 4294967296"
  shows "chain c m q 0 c \<and> listing q 0 c = [([0x2E], i_ino ino), ([0x2E, 0x2E], i_ino parent)]"
proof -
  note f = make_empty_fields [OF d c(1,2) i(1,3) j(1,3)]
  have dv: "4 dvd c - 12" using c(3) by (simp add: dvd_diff)
  have g1: "good_de c m q 0" using f c(1) i by (simp add: good_de_def div_pos_pos_trivial)
  have g2: "good_de c m q 12" using f c(1) j dv by (simp add: good_de_def div_pos_pos_trivial)
  have c2: "chain c m q (0 + rlen q 0) c" using chain_single [OF g2] f by simp
  have "entries q 0 c = [0, 12]"
    using entries_cons [OF g1 c2] entries_single [OF g2] f by simp
  then show ?thesis
    using chain_cons [OF g1 c2] f i j by (simp add: used_def)
qed

lemma make_empty_data_defined: "known_type ino \<Longrightarrow> \<exists>q. make_empty_data sb ino parent c p = Some q"
  by (metis (no_types) set_de_type_ok bind.bind_lunit make_empty_data_def)

section \<open>Listing a page\<close>

declare readdir_page.simps [simp del]

text \<open>What \<^verbatim>\<open>readdir\<close> reports for an entry.\<close>

definition reported :: "bool \<Rightarrow> bytes \<Rightarrow> int \<Rightarrow> dir_entry" where
  "reported types p e =
     (de_name p e, de_inode p e,
      if types \<and> de_file_type p e < KR_FT_MAX then kr_filetype_table ! nat (de_file_type p e) else 0)"

definition reports :: "bool \<Rightarrow> bytes \<Rightarrow> int \<Rightarrow> int \<Rightarrow> dir_entry list" where
  "reports types p a b = map (reported types p) (filter (\<lambda>e. de_inode p e \<noteq> 0) (entries p a b))"

lemma reports_listing: "map (\<lambda>(n, i, t). (n, i)) (reports types p a b) = listing p a b"
  by (simp add: reports_def used_def reported_def)

lemma readdir_page_all:
  "chain c m p a b \<Longrightarrow> readdir_page (\<lambda>_ _. True) types p (b - 12) a ctx =
     (PageDone, \<lparr>ctx_pos = ctx_pos ctx + (b - a), ctx_out = ctx_out ctx @ reports types p a b\<rparr>)"
proof (induction arbitrary: ctx rule: chain.induct)
  case (chain_nil a)
  then show ?case by (subst readdir_page.simps) (simp add: reports_def)
next
  case (chain_cons a b)
  have "a \<le> b - 12" "rlen p a \<noteq> 0" using chain_le [OF chain_cons(2)] good_de_len [OF chain_cons(1)] by auto
  then show ?case
    by (subst readdir_page.simps)
       (simp add: kr_next_entry_def entries_cons [OF chain_cons(1,2)] reports_def reported_def chain_cons(3))
qed

end
