(* ===== verification/Kr_Directory.thy ===== *)
theory Kr_Directory
  imports Kr_Dirent
begin

text \<open>
  Directories as lists of names with inode numbers. \<open>dir_ok\<close> is the invariant that the checks of
  \<^verbatim>\<open>dir.c\<close> establish, \<open>dir_list\<close> the contents in the order of the pages and \<open>dir_map\<close> the
  contents as a map. Each operation is shown to return, to keep the invariant and to change the
  list in one place.
\<close>

section \<open>Directories\<close>

abbreviation csize :: "kr_fs \<Rightarrow> int" where "csize s \<equiv> s_blocksize (f_sb s)"
abbreviation max_ino :: "kr_fs \<Rightarrow> int" where "max_ino s \<equiv> uint (es_inodes_count (es (f_sb s)))"

definition page_limit :: "kr_fs \<Rightarrow> int \<Rightarrow> int \<Rightarrow> int" where
  "page_limit s d n = (if isize s d div PAGE_SIZE = n then isize s d mod PAGE_SIZE else PAGE_SIZE)"

text \<open>A size of whole chunks; a chunk is a block, which is not longer than a page.\<close>

definition dir_sized :: "kr_fs \<Rightarrow> int \<Rightarrow> bool" where
  "dir_sized s d = (csize s \<in> {512, 1024, 2048, 4096} \<and> 0 \<le> isize s d \<and> isize s d < 4294967296 \<and> csize s dvd isize s d)"

definition page_entries :: "kr_fs \<Rightarrow> int \<Rightarrow> int \<Rightarrow> int list" where
  "page_entries s d n = entries (data s d n) 0 (page_limit s d n)"

definition page_list :: "kr_fs \<Rightarrow> int \<Rightarrow> int \<Rightarrow> (fname \<times> int) list" where
  "page_list s d n = used (data s d n) (page_entries s d n)"

text \<open>
  The invariant: each page can be read and holds a chain of good entries up to its limit, and the
  names in use are not empty.
\<close>

definition page_ok :: "pagecache \<Rightarrow> kr_fs \<Rightarrow> int \<Rightarrow> int \<Rightarrow> bool" where
  "page_ok pc s d n =
     (pc_read pc d n = None \<and> \<not> p_error (f_page s d n) \<and>
      chain (csize s) (max_ino s) (data s d n) 0 (page_limit s d n) \<and> named (page_list s d n))"

definition dir_ok :: "pagecache \<Rightarrow> kr_fs \<Rightarrow> int \<Rightarrow> bool" where
  "dir_ok pc s d = (dir_sized s d \<and> (\<forall>n. 0 \<le> n \<and> n < dir_pages s d \<longrightarrow> page_ok pc s d n))"

text \<open>The contents: the names in use, with their inodes, in the order of the pages.\<close>

definition dir_list :: "kr_fs \<Rightarrow> int \<Rightarrow> (fname \<times> int) list" where
  "dir_list s d = concat (map (page_list s d) [0..dir_pages s d - 1])"

lemma csize_pow:
  assumes "dir_sized s d"
  obtains b where "csize s = 2 ^ b"
proof -
  have "csize s = 2 ^ 9 \<or> csize s = 2 ^ 10 \<or> csize s = 2 ^ 11 \<or> csize s = 2 ^ 12"
    using assms by (auto simp: dir_sized_def)
  then show thesis using that by blast
qed

lemma csize_bounds:
  assumes "dir_sized s d"
  shows "512 \<le> csize s" "csize s \<le> 4096" "4 dvd csize s" "csize s dvd 4096" "csize s dvd isize s d mod 4096"
proof -
  show 1: "512 \<le> csize s" "csize s \<le> 4096" "4 dvd csize s" "csize s dvd 4096" using assms by (auto simp: dir_sized_def)
  show "csize s dvd isize s d mod 4096"
    using 1(4) assms by (simp add: dir_sized_def dvd_mod)
qed

lemma dir_pages_eq: "dir_pages s d = (isize s d + 4095) div 4096"
  by (simp add: dir_pages_def drop_bit_eq_div algebra_simps)

lemma dir_pages_le: "n < dir_pages s d \<Longrightarrow> n \<le> isize s d div 4096"
proof -
  assume "n < dir_pages s d"
  moreover have "dir_pages s d \<le> isize s d div 4096 + 1"
    using zdiv_mono1 [of "isize s d + 4095" "isize s d + 4096" 4096] by (simp add: dir_pages_eq)
  ultimately show ?thesis by simp
qed

lemma dir_pages_nonneg: "dir_sized s d \<Longrightarrow> 0 \<le> dir_pages s d"
  by (simp add: dir_sized_def dir_pages_eq pos_imp_zdiv_nonneg_iff)

lemma page_limit_bounds: "dir_sized s d \<Longrightarrow> 0 \<le> page_limit s d n \<and> page_limit s d n \<le> 4096"
  using pos_mod_bound [of 4096 "isize s d"] by (auto simp: page_limit_def simp del: pos_mod_bound)

lemma page_limit_dvd: "dir_sized s d \<Longrightarrow> csize s dvd page_limit s d n"
  using csize_bounds(4,5) by (simp add: page_limit_def)

lemma page_limit_ge: "dir_sized s d \<Longrightarrow> page_limit s d n \<noteq> 0 \<Longrightarrow> 512 \<le> page_limit s d n"
  using page_limit_dvd [of s d n] page_limit_bounds [of s d n] csize_bounds(1) [of s d] zdvd_imp_le [of "csize s" "page_limit s d n"]
  by simp

lemma kr_last_byte_eq:
  assumes "dir_sized s d" "0 \<le> n" "n \<le> isize s d div 4096"
  shows "kr_last_byte s d n = page_limit s d n"
proof -
  let ?i = "isize s d"
  have i: "0 \<le> ?i" "?i < 4294967296" using assms(1) by (auto simp: dir_sized_def)
  have m: "4096 * (?i div 4096) + ?i mod 4096 = ?i" by simp
  have b: "0 \<le> ?i - 4096 * n" using assms(3) m pos_mod_sign [of 4096 ?i] by linarith
  have "u32 (u32 ?i - push_bit 12 n) = ?i - 4096 * n"
    using i b assms(2) by (simp add: c_int push_bit_eq_mult)
  moreover have "n \<noteq> ?i div 4096 \<Longrightarrow> 4096 \<le> ?i - 4096 * n"
    using assms(3) m pos_mod_sign [of 4096 ?i] by linarith
  moreover have "n = ?i div 4096 \<Longrightarrow> ?i - 4096 * n = ?i mod 4096" using m by linarith
  ultimately show ?thesis
    using pos_mod_bound [of 4096 ?i] unfolding kr_last_byte_def Let_def page_limit_def by auto
qed

section \<open>Reading pages\<close>

text \<open>Two states that differ in the marks on checked pages only.\<close>

definition same_data :: "kr_fs \<Rightarrow> kr_fs \<Rightarrow> bool" where
  "same_data s s' =
     (f_sb s' = f_sb s \<and> f_inode s' = f_inode s \<and> f_version s' = f_version s \<and>
      (\<forall>d n. data s' d n = data s d n \<and> p_error (f_page s' d n) = p_error (f_page s d n)))"

lemma same_data_refl [simp]: "same_data s s"
  by (simp add: same_data_def)

lemma same_data_trans: "same_data s s' \<Longrightarrow> same_data s' s'' \<Longrightarrow> same_data s s''"
  by (simp add: same_data_def)

lemma same_data_sym: "same_data s s' \<Longrightarrow> same_data s' s"
  by (simp add: same_data_def)

lemma same_dataD:
  assumes "same_data s s'"
  shows "f_sb s' = f_sb s" "f_inode s' = f_inode s" "data s' d n = data s d n" "page_limit s' d n = page_limit s d n"
    "page_entries s' d n = page_entries s d n" "page_list s' d n = page_list s d n" "dir_list s' d = dir_list s d"
    "dir_pages s' d = dir_pages s d" "kr_last_byte s' d n = kr_last_byte s d n" "page_ok pc s' d n = page_ok pc s d n"
    "dir_ok pc s' d = dir_ok pc s d" "dir_sized s' d = dir_sized s d"
proof -
  have e: "f_sb s' = f_sb s" "f_inode s' = f_inode s" "\<And>n. data s' d n = data s d n"
    "\<And>n. p_error (f_page s' d n) = p_error (f_page s d n)"
    using assms by (auto simp: same_data_def)
  note defs = page_limit_def page_entries_def page_list_def dir_pages_def kr_last_byte_def page_ok_def dir_sized_def
  show "f_sb s' = f_sb s" "f_inode s' = f_inode s" "data s' d n = data s d n" by (fact e)+
  show "page_limit s' d n = page_limit s d n" "page_entries s' d n = page_entries s d n" "page_list s' d n = page_list s d n"
    "dir_pages s' d = dir_pages s d" "kr_last_byte s' d n = kr_last_byte s d n" "page_ok pc s' d n = page_ok pc s d n"
    "dir_sized s' d = dir_sized s d"
    by (simp_all add: defs e)
  show "dir_ok pc s' d = dir_ok pc s d"
    by (simp add: dir_ok_def defs e)
  have "page_list s' d = page_list s d" by (rule ext) (simp add: defs e)
  then show "dir_list s' d = dir_list s d"
    by (simp add: dir_list_def defs e)
qed

lemma kr_check_page_ok:
  assumes "dir_sized s d" "0 \<le> n" "chain (csize s) (max_ino s) (data s d n) 0 (page_limit s d n)"
  shows "kr_check_page k s d n quiet = Some (True, upd_page d n (\<lambda>pg. pg\<lparr>p_checked := True\<rparr>) s)"
proof -
  obtain b where b: "csize s = 2 ^ b" using csize_pow [OF assms(1)] .
  have i: "0 \<le> isize s d" "isize s d < 4294967296" using assms(1) by (auto simp: dir_sized_def)
  have at_end: "u64 (drop_bit PAGE_SHIFT (isize s d)) = n \<longleftrightarrow> isize s d div PAGE_SIZE = n"
    using i by (simp add: c_int drop_bit_eq_div)
  have msk: "isize s d AND (PAGE_SIZE - 1) = isize s d mod PAGE_SIZE"
    using take_bit_eq_mask [of 12 "isize s d"] by (simp add: take_bit_eq_mod mask_eq_exp_minus_1)
  have lim: "(if isize s d div PAGE_SIZE = n then isize s d mod PAGE_SIZE else PAGE_SIZE) = page_limit s d n"
    by (simp add: page_limit_def)
  have mult: "page_limit s d n AND (csize s - 1) = 0"
    using take_bit_eq_mask [of b "page_limit s d n"] page_limit_dvd [OF assms(1), of n] b
    by (simp add: take_bit_eq_mod mask_eq_exp_minus_1)
  have "page_limit s d n \<noteq> 0 \<Longrightarrow> check_loop (data s d n) (csize s) (max_ino s) (page_limit s d n) 0 = Inr (page_limit s d n)"
    using check_loop_chain [of "page_limit s d n" "data s d n" b "max_ino s" 0] page_limit_ge [OF assms(1), of n]
      page_limit_bounds [OF assms(1), of n] assms(3) b by simp
  moreover have "page_limit s d n = 0 \<Longrightarrow> isize s d div PAGE_SIZE = n"
    by (auto simp: page_limit_def split: if_splits)
  ultimately show ?thesis
    unfolding kr_check_page_def Let_def at_end msk lim kr_chunk_size_def
    using mult by (cases "page_limit s d n = 0") simp_all
qed

lemma same_data_check: "same_data s (upd_page d n (\<lambda>pg. pg\<lparr>p_checked := True\<rparr>) s)"
  by (simp add: same_data_def upd_page_def)

lemma kr_get_page_ok:
  assumes "dir_sized s d" "0 \<le> n" "page_ok pc s d n"
  obtains s' where "kr_get_page k pc s d n quiet = Some (None, s')" "same_data s s'"
proof -
  show thesis
    using that kr_check_page_ok [of s d n k quiet] same_data_check [of s d n] assms
    by (cases "p_checked (f_page s d n)") (auto simp: kr_get_page_def page_ok_def)
qed

section \<open>Looking up a name\<close>

text \<open>The pages in the order in which \<^verbatim>\<open>kr_find_entry\<close> visits them from page \<open>n\<close> on.\<close>

definition visits :: "int \<Rightarrow> int \<Rightarrow> int \<Rightarrow> int list" where
  "visits start npages n = (if start \<le> n then [n..npages - 1] @ [0..start - 1] else [n..start - 1])"

lemma visits_step:
  assumes "0 \<le> start" "start < npages" "0 \<le> n" "n < npages" "n1 = (if npages \<le> n + 1 then 0 else n + 1)"
  shows "visits start npages n = (if n1 \<noteq> start then n # visits start npages n1 else [n])"
proof -
  consider "start \<le> n" "n + 1 < npages" | "start \<le> n" "n + 1 = npages" | "n < start" using assms by linarith
  then show ?thesis
  proof cases
    case 1
    then show ?thesis using assms upto_rec1 [of n "npages - 1"] by (auto simp: visits_def)
  next
    case 2
    then have "npages - 1 = n" "n1 = 0" using assms(5) by auto
    then have "n1 = 0" "[n..npages - 1] = [n]" by simp_all
    then show ?thesis using assms 2 by (auto simp: visits_def)
  next
    case 3
    then have n1: "n1 = n + 1" using assms by auto
    have u: "[n..start - 1] = n # [n + 1..start - 1]" using 3 by (simp add: upto_rec1)
    show ?thesis using 3 n1 u by (auto simp: visits_def)
  qed
qed

fun search :: "kr_fs \<Rightarrow> int \<Rightarrow> fname \<Rightarrow> int list \<Rightarrow> (int \<times> int) option" where
  "search s d name [] = None"
| "search s d name (n # ns) =
     (case find (kr_match name (data s d n)) (page_entries s d n) of
        Some e \<Rightarrow> Some (n, e) | None \<Rightarrow> search s d name ns)"

lemma search_Some:
  "search s d name ns = Some (n, e) \<Longrightarrow> n \<in> set ns \<and> e \<in> set (page_entries s d n) \<and> kr_match name (data s d n) e"
  by (induction ns) (auto simp: find_Some_iff split: option.splits)

lemma search_None:
  "search s d name ns = None \<Longrightarrow> n \<in> set ns \<Longrightarrow> e \<in> set (page_entries s d n) \<Longrightarrow> \<not> kr_match name (data s d n) e"
  by (induction ns) (auto simp: find_None_iff split: option.splits)

lemma search_cong: "same_data s s' \<Longrightarrow> search s' d name ns = search s d name ns"
  by (induction ns) (simp_all add: same_dataD split: option.splits)

text \<open>What a search leaves: the position for the next one, and marks on pages.\<close>

definition looked_up :: "kr_fs \<Rightarrow> int \<Rightarrow> kr_fs \<Rightarrow> bool" where
  "looked_up s d s' = (\<exists>n. same_data (upd_inode d (\<lambda>ino. ino\<lparr>i_dir_start_lookup := n\<rparr>) s) s')"

lemma same_data_looked_up: "same_data s s' \<Longrightarrow> looked_up s d s'"
  unfolding looked_up_def
  by (rule exI [of _ "i_dir_start_lookup (f_inode s d)"]) (simp add: same_data_def upd_inode_def)

lemma looked_up_after: "same_data s s' \<Longrightarrow> looked_up s d (upd_inode d (\<lambda>ino. ino\<lparr>i_dir_start_lookup := n\<rparr>) s')"
  unfolding looked_up_def
  by (rule exI [of _ n]) (simp add: same_data_def upd_inode_def)

lemma looked_up_same: "same_data s s' \<Longrightarrow> looked_up s' d s'' \<Longrightarrow> looked_up s d s''"
  unfolding looked_up_def
  by (erule exE, rename_tac n, rule_tac x = n in exI) (simp add: same_data_def upd_inode_def)

lemma looked_upD:
  assumes "looked_up s d s'"
  shows "f_sb s' = f_sb s" "isize s' d' = isize s d'" "i_blocks (f_inode s' d') = i_blocks (f_inode s d')"
    "data s' d' n = data s d' n" "page_limit s' d' n = page_limit s d' n"
    "page_entries s' d' n = page_entries s d' n" "page_list s' d' n = page_list s d' n" "dir_list s' d' = dir_list s d'"
    "dir_pages s' d' = dir_pages s d'" "dir_ok pc s' d' = dir_ok pc s d'"
    "f_version s' = f_version s"
proof -
  obtain n0 where u: "same_data (upd_inode d (\<lambda>ino. ino\<lparr>i_dir_start_lookup := n0\<rparr>) s) s'"
    using assms by (auto simp: looked_up_def)
  let ?u = "upd_inode d (\<lambda>ino. ino\<lparr>i_dir_start_lookup := n0\<rparr>) s"
  have e: "f_sb ?u = f_sb s" "isize ?u d' = isize s d'" "i_blocks (f_inode ?u d') = i_blocks (f_inode s d')"
    "f_page ?u = f_page s" "f_version ?u = f_version s"
    by (simp_all add: upd_inode_def)
  have l: "page_limit ?u d' = page_limit s d'" by (rule ext) (simp add: page_limit_def e)
  have pe: "page_entries ?u d' = page_entries s d'" by (rule ext) (simp add: page_entries_def l e)
  have pl: "page_list ?u d' = page_list s d'" by (rule ext) (simp add: page_list_def pe e)
  have dp: "dir_pages ?u d' = dir_pages s d'" by (simp add: dir_pages_def e)
  have ok: "dir_ok pc ?u d' = dir_ok pc s d'" by (simp add: dir_ok_def page_ok_def dir_sized_def dp l pl e)
  note sd = same_dataD [OF u]
  show "f_sb s' = f_sb s" "isize s' d' = isize s d'" "i_blocks (f_inode s' d') = i_blocks (f_inode s d')"
    "data s' d' n = data s d' n" "page_limit s' d' n = page_limit s d' n"
    "page_entries s' d' n = page_entries s d' n" "page_list s' d' n = page_list s d' n"
    "dir_pages s' d' = dir_pages s d'" "dir_ok pc s' d' = dir_ok pc s d'"
    by (simp_all only: sd e l pe pl dp ok)
  have "dir_list ?u d' = dir_list s d'" by (simp only: dir_list_def pl dp)
  then show "dir_list s' d' = dir_list s d'" by (simp only: sd)
  show "f_version s' = f_version s" using u e by (simp add: same_data_def)
qed

text \<open>The blocks counted for the directory reach to its last page.\<close>

definition blocks_counted :: "kr_fs \<Rightarrow> int \<Rightarrow> bool" where
  "blocks_counted s d = (dir_pages s d \<le> drop_bit (PAGE_SHIFT - 9) (i_blocks (f_inode s d)) + 1)"

definition covered :: "kr_fs \<Rightarrow> int \<Rightarrow> bool" where
  "covered s d = (isize s d \<le> 512 * i_blocks (f_inode s d))"

lemma covered_counted:
  assumes "covered s d"
  shows "blocks_counted s d"
proof -
  have "isize s d div 4096 \<le> 512 * i_blocks (f_inode s d) div 4096"
    using assms by (intro zdiv_mono1) (simp_all add: covered_def)
  also have "\<dots> = i_blocks (f_inode s d) div 8" using div_mult_mult1 [of 512 "i_blocks (f_inode s d)" 8] by simp
  finally show ?thesis
    using dir_pages_le [of "dir_pages s d - 1" s d] by (simp add: blocks_counted_def drop_bit_eq_div)
qed

lemma find_pages_ok:
  assumes "dir_ok pc s d" "blocks_counted s d" "0 \<le> start" "start < npages" "npages = dir_pages s d"
    "0 \<le> n" "n < npages" "ns = visits start npages n"
  shows "\<exists>s'. find_pages k pc d name start npages n err s = Some (search s d name ns, s') \<and> looked_up s d s'"
  using assms
proof (induction ns arbitrary: n err s)
  case Nil
  then show ?case using visits_step [of start npages n] by (auto split: if_splits)
next
  case (Cons a ns)
  have le: "n \<le> isize s d div PAGE_SIZE" using Cons.prems(5,7) by (simp add: dir_pages_le)
  have sz: "dir_sized s d" "page_ok pc s d n" using Cons.prems(1,5-7) by (auto simp: dir_ok_def)
  obtain s1 where s1: "kr_get_page k pc s d n err = Some (None, s1)" "same_data s s1"
    using kr_get_page_ok [OF sz(1) Cons.prems(6) sz(2)] by blast
  have ch: "chain (csize s) (max_ino s) (data s d n) 0 (page_limit s d n)" using sz(2) by (simp add: page_ok_def)
  have fp: "find_in_page name (data s1 d n) (kr_last_byte s1 d n - KR_DIR_REC_LEN (int (length name))) 0 =
      (case find (kr_match name (data s d n)) (page_entries s d n) of Some e \<Rightarrow> Found e | None \<Rightarrow> NotFound)"
    using find_in_page_eq [OF ch, of name]
    by (simp add: same_dataD [OF s1(2)] kr_last_byte_eq [OF sz(1) Cons.prems(6) le] page_entries_def)
  define n1 where "n1 = (if npages \<le> n + 1 then 0 else n + 1)"
  have v: "a # ns = (if n1 \<noteq> start then n # visits start npages n1 else [n])"
    using visits_step [OF Cons.prems(3,4,6,7) n1_def] Cons.prems(8) by simp
  have n1: "0 \<le> n1" "n1 < npages" using Cons.prems(6,7) by (auto simp: n1_def)
  have bl: "\<not> drop_bit (PAGE_SHIFT - 9) (i_blocks (f_inode s1 d)) < n1"
    using Cons.prems(2,5) n1 same_dataD(2) [OF s1(2)] by (simp add: blocks_counted_def)
  have step: "find_pages k pc d name start npages n err s =
     (case find (kr_match name (data s d n)) (page_entries s d n) of
        Some e \<Rightarrow> Some (Some (n, e), upd_inode d (\<lambda>ino. ino\<lparr>i_dir_start_lookup := word_of_int n\<rparr>) s1)
      | None \<Rightarrow> if n1 \<noteq> start then find_pages k pc d name start npages n1 err s1 else Some (None, s1))"
    using bl
    by (subst find_pages.simps, unfold Let_def n1_def [symmetric]) (simp add: s1(1) fp split: option.splits)
  show ?case
  proof (cases "find (kr_match name (data s d n)) (page_entries s d n)")
    case (Some e)
    then show ?thesis
      using step v looked_up_after [OF s1(2)] by (auto split: if_splits)
  next
    case None
    show ?thesis
    proof (cases "n1 = start")
      case True
      then show ?thesis using step None v same_data_looked_up [OF s1(2)] by (auto split: if_splits)
    next
      case False
      have b1: "blocks_counted s1 d" using Cons.prems(2) by (simp add: blocks_counted_def same_dataD [OF s1(2)])
      have ns: "ns = visits start npages n1" using v False by simp
      have "\<exists>s'. find_pages k pc d name start npages n1 err s1 = Some (search s1 d name ns, s') \<and> looked_up s1 d s'"
        by (rule Cons.IH) (use Cons.prems(1-5) n1 ns b1 in \<open>auto simp: same_dataD [OF s1(2)]\<close>)
      then show ?thesis
        using step None False v looked_up_same [OF s1(2)] by (auto simp: search_cong [OF s1(2)])
    qed
  qed
qed

text \<open>The result of a lookup, in a directory whose names are distinct.\<close>

lemma page_list_match:
  "(name, i) \<in> set (page_list s d n) \<longleftrightarrow> (\<exists>e\<in>set (page_entries s d n). kr_match name (data s d n) e \<and> de_inode (data s d n) e = i)"
  by (auto simp: page_list_def used_def kr_match_iff)

lemma dir_list_iff:
  "x \<in> set (dir_list s d) \<longleftrightarrow> (\<exists>n. 0 \<le> n \<and> n < dir_pages s d \<and> x \<in> set (page_list s d n))"
  by (auto simp: dir_list_def)

definition dir_map :: "kr_fs \<Rightarrow> int \<Rightarrow> fname \<Rightarrow> int option" where
  "dir_map s d = map_of (dir_list s d)"

lemma kr_find_entry_ok:
  assumes ok: "dir_ok pc s d" and bl: "blocks_counted s d"
  obtains r s' where "kr_find_entry k pc s d name = Some (r, s')" "looked_up s d s'"
    "\<forall>n e. r = Some (n, e) \<longrightarrow> 0 \<le> n \<and> n < dir_pages s d \<and> e \<in> set (page_entries s d n) \<and> kr_match name (data s d n) e"
    "r = None \<longleftrightarrow> dir_map s d name = None"
proof -
  have np: "0 \<le> dir_pages s d" using ok dir_pages_nonneg by (auto simp: dir_ok_def)
  show ?thesis
  proof (cases "dir_pages s d = 0")
    case True
    then have "dir_list s d = []" by (simp add: dir_list_def)
    then show ?thesis
      using that [of None s] True by (simp add: kr_find_entry_def same_data_looked_up dir_map_def)
  next
    case False
    define start where "start = (if dir_pages s d \<le> uint (i_dir_start_lookup (f_inode s d)) then 0
      else uint (i_dir_start_lookup (f_inode s d)))"
    have st: "0 \<le> start" "start < dir_pages s d" using False np by (auto simp: start_def)
    let ?ns = "visits start (dir_pages s d) start"
    have set_ns: "set ?ns = {0..<dir_pages s d}" using st by (auto simp: visits_def)
    obtain s' where s': "find_pages k pc d name start (dir_pages s d) start False s = Some (search s d name ?ns, s')" "looked_up s d s'"
      using find_pages_ok [OF ok bl st refl st refl] by blast
    have none: "search s d name ?ns = None \<longleftrightarrow> dir_map s d name = None"
    proof
      assume "search s d name ?ns = None"
      then have "(name, i) \<notin> set (dir_list s d)" for i
        using search_None set_ns by (auto simp: dir_list_iff page_list_match)
      then show "dir_map s d name = None" by (force simp: dir_map_def map_of_eq_None_iff)
    next
      assume a: "dir_map s d name = None"
      show "search s d name ?ns = None"
      proof (rule ccontr)
        assume "search s d name ?ns \<noteq> None"
        then obtain n e where "search s d name ?ns = Some (n, e)" by auto
        then have "(name, de_inode (data s d n) e) \<in> set (dir_list s d)"
          using search_Some set_ns by (fastforce simp: dir_list_iff page_list_match)
        then show False using a by (force simp: dir_map_def map_of_eq_None_iff)
      qed
    qed
    show ?thesis
      by (rule that [of "search s d name ?ns" s'])
         (use s' search_Some [of s d name ?ns] none set_ns False in \<open>auto simp: kr_find_entry_def Let_def start_def\<close>)
  qed
qed

lemma kr_inode_by_name_ok:
  assumes ok: "dir_ok pc s d" and bl: "blocks_counted s d" and dist: "distinct (map fst (dir_list s d))"
  obtains s' where "kr_inode_by_name k pc s d name = Some (case dir_map s d name of None \<Rightarrow> 0 | Some i \<Rightarrow> i, s')" "looked_up s d s'"
proof -
  obtain r s' where r: "kr_find_entry k pc s d name = Some (r, s')" "looked_up s d s'"
    "\<forall>n e. r = Some (n, e) \<longrightarrow> 0 \<le> n \<and> n < dir_pages s d \<and> e \<in> set (page_entries s d n) \<and> kr_match name (data s d n) e"
    "r = None \<longleftrightarrow> dir_map s d name = None"
    by (rule kr_find_entry_ok [OF ok bl, of k name])
  have "(case r of None \<Rightarrow> 0 | Some (n, e) \<Rightarrow> de_inode (data s' d n) e) = (case dir_map s d name of None \<Rightarrow> 0 | Some i \<Rightarrow> i)"
  proof (cases r)
    case None
    then show ?thesis using r(4) by simp
  next
    case (Some x)
    obtain n e where x: "x = (n, e)" by (cases x)
    have "(name, de_inode (data s d n) e) \<in> set (dir_list s d)"
      using r(3) Some x by (auto simp: dir_list_iff page_list_match)
    then have "dir_map s d name = Some (de_inode (data s d n) e)" using dist by (simp add: dir_map_def)
    then show ?thesis using Some x looked_upD(4) [OF r(2)] by simp
  qed
  then show ?thesis using that [of s'] r(1,2) by (simp add: kr_inode_by_name_def)
qed

section \<open>Changing one page\<close>

text \<open>What \<^verbatim>\<open>__block_write_begin\<close> keeps while it maps blocks of the directory.\<close>

definition kept_sb :: "super_block \<Rightarrow> super_block \<Rightarrow> bool" where
  "kept_sb sb sb' = (s_blocksize sb' = s_blocksize sb \<and> es_inodes_count (es sb') = es_inodes_count (es sb))"

definition kept_inode :: "inode \<Rightarrow> inode \<Rightarrow> bool" where
  "kept_inode ino ino' =
     (i_ino ino' = i_ino ino \<and> i_mode ino' = i_mode ino \<and> i_nlink ino' = i_nlink ino \<and> i_size ino' = i_size ino)"

definition begin_keeps :: "kernel \<Rightarrow> pagecache \<Rightarrow> super_block \<Rightarrow> inode \<Rightarrow> int \<Rightarrow> int \<Rightarrow> bool" where
  "begin_keeps k pc sb ino pos len =
     (case pc_write_begin pc (kr_get_block k) sb ino pos len of
        None \<Rightarrow> False
      | Some (err, sb', ino') \<Rightarrow>
          kept_sb sb sb' \<and> kept_inode ino ino' \<and> (pos + len \<le> i_size ino \<longrightarrow> err = None) \<and>
          i_blocks ino \<le> i_blocks ino' \<and> (err = None \<longrightarrow> pos + len \<le> 512 * i_blocks ino'))"

text \<open>
  This holds for every chunk of the directory, and for the first one past its end. The position
  that lookups start from does not matter.
\<close>

definition writable :: "kernel \<Rightarrow> pagecache \<Rightarrow> kr_fs \<Rightarrow> int \<Rightarrow> bool" where
  "writable k pc s d =
     (\<forall>n pos len. 0 \<le> pos \<and> 0 < len \<and> pos + len \<le> isize s d + csize s \<longrightarrow>
        begin_keeps k pc (f_sb s) ((f_inode s d)\<lparr>i_dir_start_lookup := n\<rparr>) pos len)"

text \<open>Writing where the directory has blocks already.\<close>

definition rewritable :: "kernel \<Rightarrow> pagecache \<Rightarrow> kr_fs \<Rightarrow> int \<Rightarrow> bool" where
  "rewritable k pc s d =
     (\<forall>pos len. 0 \<le> pos \<and> 0 < len \<and> pos + len \<le> isize s d \<longrightarrow>
        begin_keeps k pc (f_sb s) (f_inode s d) pos len)"

lemma writable_begin:
  "writable k pc s d \<Longrightarrow> 0 \<le> pos \<Longrightarrow> 0 < len \<Longrightarrow> pos + len \<le> isize s d + csize s \<Longrightarrow>
     begin_keeps k pc (f_sb s) (f_inode s d) pos len"
proof -
  assume "writable k pc s d" "0 \<le> pos" "0 < len" "pos + len \<le> isize s d + csize s"
  then have "begin_keeps k pc (f_sb s) ((f_inode s d)\<lparr>i_dir_start_lookup := i_dir_start_lookup (f_inode s d)\<rparr>) pos len"
    unfolding writable_def by blast
  then show ?thesis by simp
qed

lemma rewritable_begin:
  "rewritable k pc s d \<Longrightarrow> 0 \<le> pos \<Longrightarrow> 0 < len \<Longrightarrow> pos + len \<le> isize s d \<Longrightarrow>
     begin_keeps k pc (f_sb s) (f_inode s d) pos len"
  by (simp add: rewritable_def)

definition begun :: "kr_fs \<Rightarrow> int \<Rightarrow> kr_fs \<Rightarrow> bool" where
  "begun s d s' =
     (f_page s' = f_page s \<and> f_version s' = f_version s \<and> kept_sb (f_sb s) (f_sb s') \<and>
      kept_inode (f_inode s d) (f_inode s' d) \<and> (\<forall>d'. d' \<noteq> d \<longrightarrow> f_inode s' d' = f_inode s d'))"

lemma prepare_ok:
  assumes "begin_keeps k pc (f_sb s) (f_inode s d) pos len"
  obtains err s' where "kr_prepare_chunk k pc s d pos len = Some (err, s')" "begun s d s'"
    "pos + len \<le> isize s d \<Longrightarrow> err = None"
    "i_blocks (f_inode s d) \<le> i_blocks (f_inode s' d)" "err = None \<Longrightarrow> pos + len \<le> 512 * i_blocks (f_inode s' d)"
proof -
  obtain err sb ino where
    "pc_write_begin pc (kr_get_block k) (f_sb s) (f_inode s d) pos len = Some (err, sb, ino)"
    "kept_sb (f_sb s) sb" "kept_inode (f_inode s d) ino" "pos + len \<le> isize s d \<longrightarrow> err = None"
    "i_blocks (f_inode s d) \<le> i_blocks ino" "err = None \<longrightarrow> pos + len \<le> 512 * i_blocks ino"
    using assms by (auto simp: begin_keeps_def split: option.splits prod.splits)
  then show thesis
    using that [of err "s\<lparr>f_sb := sb, f_inode := (f_inode s)(d := ino)\<rparr>"]
    by (simp add: kr_prepare_chunk_def begun_def)
qed

text \<open>
  What happens on the way to a change of page \<open>n\<close>: the rest of the contents stays, and so do the
  identity and size of the directory.
\<close>

definition step_of :: "kr_fs \<Rightarrow> int \<Rightarrow> int \<Rightarrow> kr_fs \<Rightarrow> bool" where
  "step_of s d n s' =
     (kept_sb (f_sb s) (f_sb s') \<and> kept_inode (f_inode s d) (f_inode s' d) \<and>
      (\<forall>d'. d' \<noteq> d \<longrightarrow> f_inode s' d' = f_inode s d') \<and>
      (\<forall>d' i. (d', i) \<noteq> (d, n) \<longrightarrow> data s' d' i = data s d' i) \<and>
      (\<forall>d' i. p_error (f_page s' d' i) = p_error (f_page s d' i)))"

lemma step_of_refl: "step_of s d n s"
  by (simp add: step_of_def kept_sb_def kept_inode_def)

lemma step_of_trans: "step_of s d n s' \<Longrightarrow> step_of s' d n s'' \<Longrightarrow> step_of s d n s''"
  by (simp add: step_of_def kept_sb_def kept_inode_def)

lemma step_of_data: "same_data s s' \<Longrightarrow> step_of s d n s'"
  by (simp add: step_of_def same_data_def kept_sb_def kept_inode_def)

lemma step_of_begun: "begun s d s' \<Longrightarrow> step_of s d n s'"
  by (simp add: step_of_def begun_def)

lemma step_of_store: "step_of s d n (store d n p s)"
  by (simp add: step_of_def store_def upd_page_def kept_sb_def kept_inode_def)

text \<open>The state after a page and the inode of the directory have been written.\<close>

definition changed :: "kernel \<Rightarrow> bool \<Rightarrow> kr_fs \<Rightarrow> int \<Rightarrow> int \<Rightarrow> bytes \<Rightarrow> int \<Rightarrow> kr_fs" where
  "changed k t s d n p sz =
     s\<lparr>f_page := (f_page s)(d := (f_page s d)(n := (f_page s d n)\<lparr>p_data := p\<rparr>)),
       f_inode := (f_inode s)(d := touch_dir k t ((f_inode s d)\<lparr>i_size := sz\<rparr>)),
       f_version := (f_version s)(d := f_version s d + 1)\<rparr>"

definition commit_err :: "pagecache \<Rightarrow> kr_fs \<Rightarrow> int \<Rightarrow> int \<Rightarrow> errno option" where
  "commit_err pc s d n =
     (if IS_DIRSYNC (f_sb s) (f_inode s d) then
        (case pc_write_page pc d n of Some e \<Rightarrow> Some e | None \<Rightarrow> pc_sync_inode pc d)
      else None)"

lemma commit_fst: "fst (kr_commit_chunk pc (store d n p s) d n pos len) = commit_err pc s d n"
  by (auto simp: kr_commit_chunk_def commit_err_def Let_def store_def upd_page_def upd_inode_def IS_DIRSYNC_def
      split: option.splits)

lemma commit_snd:
  "upd_inode d (touch_dir k t) (snd (kr_commit_chunk pc (store d n p s) d n pos len)) =
     changed k t s d n p (max (isize s d) (pos + len))"
  by (simp add: kr_commit_chunk_def Let_def store_def upd_page_def upd_inode_def changed_def max_def split: option.splits)

lemma touch_dir_keeps [simp]:
  "i_size (touch_dir k t ino) = i_size ino" "i_ino (touch_dir k t ino) = i_ino ino" "i_mode (touch_dir k t ino) = i_mode ino"
  "i_nlink (touch_dir k t ino) = i_nlink ino" "i_blocks (touch_dir k t ino) = i_blocks ino"
  by (simp_all add: touch_dir_def)

lemma changed_sel:
  "f_sb (changed k t s d n p sz) = f_sb s" "isize (changed k t s d n p sz) d = sz"
  "data (changed k t s d n p sz) d n' = (if n' = n then p else data s d n')"
  "p_error (f_page (changed k t s d n p sz) d' n') = p_error (f_page s d' n')"
  "d' \<noteq> d \<Longrightarrow> f_page (changed k t s d n p sz) d' = f_page s d'"
  "d' \<noteq> d \<Longrightarrow> f_inode (changed k t s d n p sz) d' = f_inode s d'"
  "i_blocks (f_inode (changed k t s d n p sz) d) = i_blocks (f_inode s d)"
  "i_ino (f_inode (changed k t s d n p sz) d) = i_ino (f_inode s d)"
  "i_mode (f_inode (changed k t s d n p sz) d) = i_mode (f_inode s d)"
  "i_nlink (f_inode (changed k t s d n p sz) d) = i_nlink (f_inode s d)"
  by (simp_all add: changed_def)

text \<open>A change of contents: one stretch of the list of entries is replaced by another.\<close>

definition replaced :: "'a list \<Rightarrow> 'a list \<Rightarrow> 'a list \<Rightarrow> 'a list \<Rightarrow> bool" where
  "replaced ws zs l l' = (\<exists>xs ys. l = xs @ ws @ ys \<and> l' = xs @ zs @ ys)"

lemma page_list_past_end: "page_limit s d n = 0 \<Longrightarrow> page_list s d n = []"
  by (simp add: page_list_def page_entries_def)

lemma dir_pages_cases:
  assumes "dir_sized s d"
  shows "dir_pages s d = isize s d div 4096 + (if isize s d mod 4096 = 0 then 0 else 1)"
proof -
  let ?i = "isize s d"
  have "?i = 4096 * (?i div 4096) + ?i mod 4096" by simp
  moreover have "0 \<le> ?i mod 4096" "?i mod 4096 < 4096" by simp_all
  ultimately show ?thesis
    unfolding dir_pages_eq by (cases "?i mod 4096 = 0"; simp; linarith)
qed

lemma dir_list_upto:
  assumes "dir_sized s d" "N = isize s d div 4096 \<or> N = dir_pages s d - 1"
  shows "dir_list s d = concat (map (page_list s d) [0..N])"
proof (cases "N = dir_pages s d - 1")
  case False
  then have n: "N = isize s d div 4096" "isize s d mod 4096 = 0" "dir_pages s d = N"
    using assms dir_pages_cases [OF assms(1)] by (auto split: if_splits)
  then have "page_list s d N = []" by (simp add: page_list_past_end page_limit_def)
  moreover have "0 \<le> N" using n(3) dir_pages_nonneg [OF assms(1)] by simp
  ultimately show ?thesis
    using n by (simp add: dir_list_def upto_rec2)
qed (simp add: dir_list_def)

lemma replaced_concat:
  assumes "0 \<le> n" "n \<le> N" "\<And>i. 0 \<le> i \<Longrightarrow> i \<le> N \<Longrightarrow> i \<noteq> n \<Longrightarrow> g i = f i" "replaced ws zs (f n) (g n)"
  shows "replaced ws zs (concat (map f [0..N])) (concat (map g [0..N :: int]))"
proof -
  have split: "[0..N] = [0..n - 1] @ n # [n + 1..N]"
    using assms(1,2) by (simp add: upto_split3)
  have "map g [0..n - 1] = map f [0..n - 1]" "map g [n + 1..N] = map f [n + 1..N]"
    using assms(1-3) by auto
  moreover obtain xs ys where "f n = xs @ ws @ ys" "g n = xs @ zs @ ys" using assms(4) by (auto simp: replaced_def)
  ultimately show ?thesis
    unfolding replaced_def split
    by (rule_tac x = "concat (map f [0..n - 1]) @ xs" in exI, rule_tac x = "ys @ concat (map f [n + 1..N])" in exI)
       (simp del: map_eq_conv)
qed

text \<open>The size stays, or the directory grows by a chunk at its end.\<close>

definition grows :: "kr_fs \<Rightarrow> int \<Rightarrow> int \<Rightarrow> int \<Rightarrow> bool" where
  "grows s d n sz =
     (sz = isize s d \<or> sz = isize s d + csize s \<and> n = isize s d div 4096 \<and> isize s d mod 4096 + csize s \<le> 4096 \<and> sz < 4294967296)"

definition limit_of :: "int \<Rightarrow> int \<Rightarrow> int" where
  "limit_of sz n = (if sz div 4096 = n then sz mod 4096 else 4096)"

lemma page_limit_of: "page_limit s d n = limit_of (isize s d) n"
  by (simp add: page_limit_def limit_of_def)

lemma grown_limit:
  assumes "dir_sized s d" "sz = isize s d + csize s" "isize s d mod 4096 + csize s \<le> 4096"
  shows "limit_of sz (isize s d div 4096) = isize s d mod 4096 + csize s"
    "n \<noteq> isize s d div 4096 \<Longrightarrow> n \<le> isize s d div 4096 \<Longrightarrow> limit_of sz n = limit_of (isize s d) n"
    "(sz + 4095) div 4096 = isize s d div 4096 + 1" "isize s d div 4096 \<le> sz div 4096"
proof -
  let ?i = "isize s d"
  obtain q r where q: "?i div 4096 = q" and r: "?i mod 4096 = r" by simp
  have c: "512 \<le> csize s" "csize s \<le> 4096" using csize_bounds [OF assms(1)] by auto
  have i: "?i = 4096 * q + r" "0 \<le> r"
    using mult_div_mod_eq [of 4096 ?i] pos_mod_sign [of 4096 ?i] by (simp_all add: q r)
  have le: "r + csize s \<le> 4096" using assms(3) by (simp add: r)
  have dm: "sz div 4096 = q \<and> sz mod 4096 = r + csize s \<or> sz div 4096 = q + 1 \<and> r + csize s = 4096"
  proof (cases "r + csize s = 4096")
    case True
    then have "sz = 4096 * (q + 1)" using i assms(2) by (simp add: algebra_simps)
    then show ?thesis using True by simp
  next
    case False
    then have lt: "r + csize s < 4096" using le by simp
    have s: "sz = 4096 * q + (r + csize s)" using i assms(2) by linarith
    have "sz div 4096 = q" "sz mod 4096 = r + csize s"
      using lt i(2) c by (subst s, simp add: div_pos_pos_trivial)+
    then show ?thesis by simp
  qed
  then show "limit_of sz (?i div 4096) = ?i mod 4096 + csize s" by (auto simp: limit_of_def q r)
  show "n \<noteq> ?i div 4096 \<Longrightarrow> n \<le> ?i div 4096 \<Longrightarrow> limit_of sz n = limit_of ?i n" using dm by (auto simp: limit_of_def q r)
  have s: "sz + 4095 = 4096 * (q + 1) + (r + csize s - 1)" using i(1) assms(2) by (simp add: algebra_simps)
  have "(4096 * (q + 1) + (r + csize s - 1)) div 4096 = q + 1"
    using le c i(2) by (simp add: div_pos_pos_trivial)
  then show "(sz + 4095) div 4096 = ?i div 4096 + 1" by (simp only: s q)
  show "?i div 4096 \<le> sz div 4096" using dm by (auto simp: q)
qed

lemma changed_ok:
  assumes ok: "dir_ok pc s d" and n: "0 \<le> n" "n \<le> isize s d div 4096" and pok: "page_ok pc s d n" and bg: "step_of s d n s2"
    and g: "grows s d n sz" and c: "chain (csize s) (max_ino s) p 0 (limit_of sz n)"
    and r: "replaced ws zs (page_list s d n) (listing p 0 (limit_of sz n))" and nm: "named zs" and s4: "s4 = changed k t s2 d n p sz"
  shows "dir_ok pc s4 d \<and> replaced ws zs (dir_list s d) (dir_list s4 d)"
    "i \<noteq> n \<Longrightarrow> i \<le> isize s d div 4096 \<Longrightarrow> page_entries s4 d i = page_entries s d i \<and> data s4 d i = data s d i"
    "page_entries s4 d n = entries p 0 (limit_of sz n) \<and> data s4 d n = p" "dir_pages s d \<le> dir_pages s4 d"
proof -
  have sz: "dir_sized s d" using ok by (simp add: dir_ok_def)
  have b: "csize s4 = csize s" "max_ino s4 = max_ino s" "isize s4 d = sz" "data s4 d n = p"
    "\<And>i. i \<noteq> n \<Longrightarrow> data s4 d i = data s d i" "\<And>i. p_error (f_page s4 d i) = p_error (f_page s d i)"
    using bg by (simp_all add: s4 changed_sel step_of_def kept_sb_def)
  let ?N = "isize s d div 4096"
  have gr: "(sz = isize s d \<and> dir_pages s4 d = dir_pages s d) \<or>
      (sz = isize s d + csize s \<and> n = ?N \<and> isize s d mod 4096 + csize s \<le> 4096 \<and> dir_pages s4 d = ?N + 1)"
    using g grown_limit(3) [OF sz] b(3) by (auto simp: grows_def dir_pages_eq)
  have sz4: "dir_sized s4 d"
    using sz g b by (auto simp: dir_sized_def grows_def)
  have lim: "i \<noteq> n \<Longrightarrow> i \<le> ?N \<Longrightarrow> page_limit s4 d i = page_limit s d i" for i
    using gr grown_limit(2) [OF sz, of sz i] by (auto simp: page_limit_of b)
  have pl: "i \<noteq> n \<Longrightarrow> i \<le> ?N \<Longrightarrow> page_list s4 d i = page_list s d i" for i
    by (simp add: page_list_def page_entries_def lim b)
  have pln: "page_list s4 d n = listing p 0 (limit_of sz n)"
    by (simp add: page_list_def page_entries_def page_limit_of b)
  have okn: "page_ok pc s4 d n"
    using pok r nm c unfolding page_ok_def pln by (auto simp: b page_limit_of replaced_def)
  have oki: "page_ok pc s4 d i" if "0 \<le> i" "i < dir_pages s4 d" for i
  proof (cases "i = n")
    case False
    then have i: "i < dir_pages s d" "i \<le> ?N"
      using that gr dir_pages_le [of i s d] dir_pages_cases [OF sz] by (auto split: if_splits)
    then have "page_ok pc s d i" using ok that by (simp add: dir_ok_def)
    then show ?thesis unfolding page_ok_def pl [OF False i(2)] using False i lim by (simp add: b)
  qed (use okn in simp)
  have "dir_list s d = concat (map (page_list s d) [0..?N])" by (rule dir_list_upto [OF sz]) simp
  moreover have "dir_list s4 d = concat (map (page_list s4 d) [0..?N])"
    by (rule dir_list_upto [OF sz4]) (use gr b(3) in auto)
  moreover have "replaced ws zs (concat (map (page_list s d) [0..?N])) (concat (map (page_list s4 d) [0..?N]))"
    by (rule replaced_concat [OF n]) (use pl pln r in auto)
  ultimately show "dir_ok pc s4 d \<and> replaced ws zs (dir_list s d) (dir_list s4 d)" using sz4 oki by (simp add: dir_ok_def)
  show "i \<noteq> n \<Longrightarrow> i \<le> ?N \<Longrightarrow> page_entries s4 d i = page_entries s d i \<and> data s4 d i = data s d i"
    by (simp add: page_entries_def lim b)
  show "page_entries s4 d n = entries p 0 (limit_of sz n) \<and> data s4 d n = p" by (simp add: page_entries_def page_limit_of b)
  show "dir_pages s d \<le> dir_pages s4 d" using gr dir_pages_cases [OF sz] by auto
qed

text \<open>Bytes of a page past its limit do not count.\<close>

lemma step_same:
  assumes ok: "dir_ok pc s d" and st: "step_of s d n s2" and ag: "agree (data s d n) (data s2 d n) 0 (page_limit s d n)"
  shows "dir_ok pc s2 d \<and> dir_list s2 d = dir_list s d"
proof -
  have b: "csize s2 = csize s" "max_ino s2 = max_ino s" "isize s2 d = isize s d"
    "\<And>i. p_error (f_page s2 d i) = p_error (f_page s d i)" "\<And>i. i \<noteq> n \<Longrightarrow> data s2 d i = data s d i"
    using st by (simp_all add: step_of_def kept_sb_def kept_inode_def)
  have l: "page_limit s2 d = page_limit s d" by (rule ext) (simp add: page_limit_def b)
  have dp: "dir_pages s2 d = dir_pages s d" by (simp add: dir_pages_def b)
  have p: "page_ok pc s2 d i \<and> page_list s2 d i = page_list s d i" if i: "0 \<le> i" "i < dir_pages s d" for i
  proof -
    have o: "page_ok pc s d i" using ok i by (simp add: dir_ok_def)
    then have c: "chain (csize s) (max_ino s) (data s d i) 0 (page_limit s d i)" by (simp add: page_ok_def)
    have "agree (data s d i) (data s2 d i) 0 (page_limit s d i)" using ag b(5) by (cases "i = n") auto
    then have "listing (data s2 d i) 0 (page_limit s d i) = listing (data s d i) 0 (page_limit s d i)"
      "chain (csize s) (max_ino s) (data s2 d i) 0 (page_limit s d i)"
      using chain_agree [OF c] by blast+
    then have "page_list s2 d i = page_list s d i" "chain (csize s) (max_ino s) (data s2 d i) 0 (page_limit s d i)"
      by (simp_all add: page_list_def page_entries_def l)
    then show ?thesis using o by (simp add: page_ok_def b l)
  qed
  have "map (page_list s2 d) [0..dir_pages s d - 1] = map (page_list s d) [0..dir_pages s d - 1]"
    using p by auto
  then have "dir_list s2 d = dir_list s d" by (simp only: dir_list_def dp)
  then show ?thesis
    using ok p by (simp add: dir_ok_def dir_sized_def dp b)
qed

text \<open>Only the directory \<open>d\<close> may differ, and it keeps its identity.\<close>

definition only_dir :: "kr_fs \<Rightarrow> int \<Rightarrow> kr_fs \<Rightarrow> bool" where
  "only_dir s d s' =
     (kept_sb (f_sb s) (f_sb s') \<and>
      i_ino (f_inode s' d) = i_ino (f_inode s d) \<and> i_mode (f_inode s' d) = i_mode (f_inode s d) \<and>
      i_nlink (f_inode s' d) = i_nlink (f_inode s d) \<and>
      (\<forall>d'. d' \<noteq> d \<longrightarrow> f_inode s' d' = f_inode s d' \<and>
              (\<forall>i. data s' d' i = data s d' i \<and> p_error (f_page s' d' i) = p_error (f_page s d' i))))"

lemma only_dir_step: "step_of s d n s' \<Longrightarrow> only_dir s d s'"
  by (simp add: only_dir_def step_of_def kept_inode_def)

lemma only_dir_changed: "step_of s d n s' \<Longrightarrow> only_dir s d (changed k t s' d n p sz)"
  by (simp add: only_dir_def step_of_def kept_inode_def changed_sel)

lemma only_dir_other:
  assumes "only_dir s d s'" "d' \<noteq> d"
  shows "dir_list s' d' = dir_list s d'" "dir_ok pc s' d' = dir_ok pc s d'" "f_inode s' d' = f_inode s d'"
proof -
  have b: "csize s' = csize s" "max_ino s' = max_ino s" "f_inode s' d' = f_inode s d'" "\<And>i. data s' d' i = data s d' i"
    "\<And>i. p_error (f_page s' d' i) = p_error (f_page s d' i)"
    using assms by (simp_all add: only_dir_def kept_sb_def)
  have pl: "page_list s' d' = page_list s d'" by (rule ext) (simp add: page_list_def page_entries_def page_limit_def b)
  show "dir_list s' d' = dir_list s d'" "dir_ok pc s' d' = dir_ok pc s d'" "f_inode s' d' = f_inode s d'"
    by (simp_all add: dir_list_def dir_ok_def dir_sized_def page_ok_def page_limit_def dir_pages_def pl b)
qed

section \<open>Adding an entry\<close>

text \<open>The end of the part of a page in use lies in the directory.\<close>

lemma page_end:
  assumes "dir_sized s d" "n \<le> isize s d div 4096"
  shows "4096 * n + page_limit s d n \<le> isize s d" "n = isize s d div 4096 \<Longrightarrow> 4096 * n + page_limit s d n = isize s d"
proof -
  obtain q r where q: "isize s d div 4096 = q" and r: "isize s d mod 4096 = r" by simp
  have i: "isize s d = 4096 * q + r" "0 \<le> r"
    using mult_div_mod_eq [of 4096 "isize s d"] pos_mod_sign [of 4096 "isize s d"] by (simp_all add: q r)
  show "n = isize s d div 4096 \<Longrightarrow> 4096 * n + page_limit s d n = isize s d" using i by (simp add: page_limit_def q r)
  show "4096 * n + page_limit s d n \<le> isize s d"
  proof (cases "n = q")
    case False
    then have "4096 * (n + 1) \<le> 4096 * q" using assms(2) q by simp
    then show ?thesis using i False by (simp add: page_limit_def q)
  next
    case True
    then have "page_limit s d n = r" by (simp add: page_limit_def q r)
    then show ?thesis using i True by simp
  qed
qed

lemma chunk_room:
  assumes "dir_sized s d" "csize s dvd x" "x < 4096"
  shows "x + csize s \<le> 4096"
proof -
  obtain a b where "x = csize s * a" "4096 = csize s * b"
    using assms(2) csize_bounds(4) [OF assms(1)] by (auto simp: dvd_def)
  moreover have "0 < csize s" using csize_bounds(1) [OF assms(1)] by simp
  ultimately have "csize s * a < csize s * b" "0 < csize s" using assms(3) by simp_all
  then have "a + 1 \<le> b" by (simp add: mult_less_cancel_left_pos)
  then have "csize s * (a + 1) \<le> csize s * b" using \<open>0 < csize s\<close> by (simp add: mult_left_mono)
  then show ?thesis using \<open>x = csize s * a\<close> \<open>4096 = csize s * b\<close> by (simp add: algebra_simps)
qed

text \<open>The new entry: its name, and the inode it is for.\<close>

definition linkable :: "kr_fs \<Rightarrow> fname \<Rightarrow> int \<Rightarrow> bool" where
  "linkable s name ino =
     (0 < length name \<and> length name < 256 \<and> known_type (f_inode s ino) \<and>
      0 < i_ino (f_inode s ino) \<and> i_ino (f_inode s ino) \<le> max_ino s)"

lemma linkable_step: "step_of s d n s' \<Longrightarrow> linkable s' name ino = linkable s name ino \<and> i_ino (f_inode s' ino) = i_ino (f_inode s ino)"
  by (cases "ino = d") (simp_all add: linkable_def step_of_def kept_inode_def kept_sb_def known_type_def)

text \<open>Entries in use stay where they are.\<close>

definition dir_keeps :: "kr_fs \<Rightarrow> int \<Rightarrow> kr_fs \<Rightarrow> bool" where
  "dir_keeps s d s' =
     (dir_pages s d \<le> dir_pages s' d \<and>
      (\<forall>n. 0 \<le> n \<and> n < dir_pages s d \<longrightarrow>
         keeps_entries (data s d n) (data s' d n) (page_entries s d n) (page_entries s' d n)))"

lemma keeps_entries_refl: "keeps_entries p p xs xs"
  by (simp add: keeps_entries_def)

lemma keeps_entries_trans: "keeps_entries p q xs ys \<Longrightarrow> keeps_entries q r ys zs \<Longrightarrow> keeps_entries p r xs zs"
  by (simp add: keeps_entries_def)

definition add_result :: "pagecache \<Rightarrow> kr_fs \<Rightarrow> int \<Rightarrow> fname \<Rightarrow> int \<Rightarrow> errno option \<Rightarrow> kr_fs \<Rightarrow> bool" where
  "add_result pc s dir name i err s' =
     (dir_ok pc s' dir \<and> only_dir s dir s' \<and> (covered s dir \<longrightarrow> covered s' dir) \<and>
      (dir_list s' dir = dir_list s dir \<and> err \<noteq> None \<or>
       replaced [] [(name, i)] (dir_list s dir) (dir_list s' dir) \<and> dir_keeps s dir s' \<and> (\<exists>n sx. step_of s dir n sx \<and> err = commit_err pc sx dir n)))"

lemma add_store_ok:
  assumes ok: "dir_ok pc s dir" and n: "0 \<le> n" "n \<le> isize s dir div 4096" and pok: "page_ok pc s dir n"
    and lk: "linkable s name ino" and st: "step_of s dir n s2" and p: "data s2 dir n = p0" and sz: "grows s dir n sz"
    and c: "chain (csize s) (max_ino s) p0 0 (limit_of sz n)" "e \<in> set (entries p0 0 (limit_of sz n))"
    and l: "listing p0 0 (limit_of sz n) = page_list s dir n" and room: "has_room p0 (KR_DIR_REC_LEN (int (length name))) e"
    and f: "add_fill (f_sb s2) (f_inode s2 ino) name e (rlen p0 e) nl p0 = Some q"
    and nl: "de_inode p0 e \<noteq> 0 \<Longrightarrow> nl = KR_DIR_REC_LEN (de_name_len p0 e)"
    and ke: "keeps_entries (data s dir n) p0 (page_entries s dir n) (entries p0 0 (limit_of sz n))"
  shows "dir_ok pc (changed k True s2 dir n q sz) dir \<and>
    replaced [] [(name, i_ino (f_inode s ino))] (dir_list s dir) (dir_list (changed k True s2 dir n q sz) dir) \<and>
    dir_keeps s dir (changed k True s2 dir n q sz)"
proof -
  let ?i = "i_ino (f_inode s ino)" and ?z = "e + rlen p0 e"
  have sp: "chain (csize s) (max_ino s) p0 0 e" "good_de (csize s) (max_ino s) p0 e"
    "chain (csize s) (max_ino s) p0 ?z (limit_of sz n)"
    using chain_entry [OF c] by auto
  have lk2: "linkable s2 name ino" "i_ino (f_inode s2 ino) = ?i" using linkable_step [OF st] lk by auto
  have i: "0 < ?i" "?i \<le> max_ino s" "?i < 4294967296" using lk unfolding linkable_def by (auto intro: le_less_trans)
  have nm: "named (listing p0 0 (limit_of sz n))" using pok l by (simp add: page_ok_def)
  have f': "add_fill (f_sb s2) (f_inode s2 ino) name e (rlen p0 e) (KR_DIR_REC_LEN (de_name_len p0 e)) p0 = Some q"
    using f nl add_fill_free by (cases "de_inode p0 e = 0") metis+
  have c0: "0 < csize s" using csize_bounds(1) ok by (force simp: dir_ok_def)
  have fill: "same_outside p0 q e ?z" "chain (csize s) (max_ino s) q e ?z" "listing q e ?z = listing p0 e ?z @ [(name, ?i)]"
    and fk: "de_inode p0 e \<noteq> 0 \<longrightarrow> e \<in> set (entries q e ?z) \<and> de_inode q e = de_inode p0 e \<and> de_name q e = de_name p0 e"
    using add_fill_ok [OF sp(2) c0 room _ _ named_entry [OF nm c(2)] _ _ _ _ f'] lk lk2 i by (auto simp: linkable_def)
  have ch: "chain (csize s) (max_ino s) q 0 (limit_of sz n)"
    "listing q 0 (limit_of sz n) = listing p0 0 e @ (listing p0 e ?z @ [(name, ?i)]) @ listing p0 ?z (limit_of sz n)"
    using chain_replace [OF sp(1,3) fill(1,2)] fill(3) by auto
  have l2: "page_list s dir n = listing p0 0 e @ listing p0 e ?z @ listing p0 ?z (limit_of sz n)"
    unfolding l [symmetric]
    using listing_append [OF sp(1) chain_cons [OF sp(2,3)]] listing_append [OF chain_single [OF sp(2)] sp(3)] by simp
  have r: "replaced [] [(name, ?i)] (page_list s dir n) (listing q 0 (limit_of sz n))"
    unfolding replaced_def ch(2) l2
    by (rule_tac x = "listing p0 0 e @ listing p0 e ?z" in exI, rule_tac x = "listing p0 ?z (limit_of sz n)" in exI) simp
  have "named [(name, ?i)]" using lk by (auto simp: named_def linkable_def)
  note co = changed_ok [OF ok n pok st sz ch(1) r this refl, where k = k and t = True]
  have "keeps_entries p0 q (entries p0 0 (limit_of sz n)) (entries q 0 (limit_of sz n))"
    by (rule keeps_entries_replace [OF sp(1) chain_single [OF sp(2)] sp(3) fill(1,2)])
       (use fk in \<open>simp add: keeps_entries_def entries_single [OF sp(2)]\<close>)
  then have kn: "keeps_entries (data s dir n) q (page_entries s dir n) (entries q 0 (limit_of sz n))"
    using keeps_entries_trans [OF ke] by blast
  have "keeps_entries (data s dir i) (data (changed k True s2 dir n q sz) dir i) (page_entries s dir i)
          (page_entries (changed k True s2 dir n q sz) dir i)" if "i < dir_pages s dir" for i
    using kn co(2) [of i] co(3) dir_pages_le [OF that] by (cases "i = n") (simp_all add: keeps_entries_refl)
  then show ?thesis
    using co(1,4) unfolding dir_keeps_def by blast
qed

lemma writable_cong: "f_sb s' = f_sb s \<Longrightarrow> f_inode s' = f_inode s \<Longrightarrow> writable k pc s' d = writable k pc s d"
  by (simp add: writable_def)

lemma covered_after:
  assumes bc: "covered s d" and ib: "i_blocks (f_inode s d) \<le> i" "z \<noteq> isize s d \<Longrightarrow> z \<le> 512 * i"
    and s4: "isize s4 d = z" "i_blocks (f_inode s4 d) = i"
  shows "covered s4 d"
  using assms by (cases "z = isize s d") (auto simp: covered_def)

text \<open>From \<^verbatim>\<open>got_it\<close> on.\<close>

definition add_tail ::
  "kernel \<Rightarrow> pagecache \<Rightarrow> kr_fs \<Rightarrow> int \<Rightarrow> fname \<Rightarrow> int \<Rightarrow> int \<Rightarrow> int \<Rightarrow> int \<Rightarrow> int \<Rightarrow> (errno option \<times> kr_fs) option" where
  "add_tail k pc s1 dir name ino n de rec_len name_len =
     do { (err, s2) \<leftarrow> kr_prepare_chunk k pc s1 dir (page_offset n + de) rec_len;
          if err \<noteq> None then Some (err, s2)
          else do {
            p \<leftarrow> add_fill (f_sb s2) (f_inode s2 ino) name de rec_len name_len (data s2 dir n);
            Some (commit_err pc s2 dir n, changed k True s2 dir n p (max (isize s2 dir) (page_offset n + de + rec_len))) } }"

lemma add_at_tail:
  "add_at k pc s dir name ino n fresh de rec_len name_len =
     add_tail k pc (if fresh then store dir n (set_de_inode de 0 (kr_rec_len_to_disk de (csize s) (data s dir n))) s else s)
       dir name ino n de rec_len name_len"
proof -
  have "(let (err1, s3) = kr_commit_chunk pc (store dir n p s2) dir n pos len in Some (err1, upd_inode dir (touch_dir k True) s3)) =
      Some (commit_err pc s2 dir n, changed k True s2 dir n p (max (isize s2 dir) (pos + len)))" for p s2 pos len
    using commit_fst [of pc dir n p s2 pos len] commit_snd [of dir k True pc n p s2 pos len]
    by (simp add: Let_def case_prod_unfold)
  then show ?thesis by (simp add: add_at_def add_tail_def kr_chunk_size_def Let_def [of _ "\<lambda>x. _ (x :: int)"] cong: if_cong)
qed

lemma add_tail_ok:
  assumes ok: "dir_ok pc s dir" and n: "0 \<le> n" "n \<le> isize s dir div 4096" and pok: "page_ok pc s dir n"
    and lk: "linkable s name ino" and wr: "writable k pc s1 dir" and st: "step_of s dir n s1" and p: "data s1 dir n = p0"
    and bl: "i_blocks (f_inode s1 dir) = i_blocks (f_inode s dir)"
    and ag: "agree (data s dir n) p0 0 (page_limit s dir n)"
    and sz: "sz = max (isize s dir) (4096 * n + e + rlen p0 e)" "grows s dir n sz" "sz \<le> isize s dir + csize s"
    and c: "chain (csize s) (max_ino s) p0 0 (limit_of sz n)" "e \<in> set (entries p0 0 (limit_of sz n))"
    and l: "listing p0 0 (limit_of sz n) = page_list s dir n" and room: "has_room p0 (KR_DIR_REC_LEN (int (length name))) e"
    and nl: "de_inode p0 e \<noteq> 0 \<Longrightarrow> nl = KR_DIR_REC_LEN (de_name_len p0 e)"
    and ke: "keeps_entries (data s dir n) p0 (page_entries s dir n) (entries p0 0 (limit_of sz n))"
  shows "\<exists>err s'. add_tail k pc s1 dir name ino n e (rlen p0 e) nl = Some (err, s') \<and>
           add_result pc s dir name (i_ino (f_inode s ino)) err s'"
proof -
  let ?pos = "page_offset n + e" and ?i = "i_ino (f_inode s ino)"
  have dsz: "dir_sized s dir" using ok by (simp add: dir_ok_def)
  have po: "page_offset n = 4096 * n" by (simp add: page_offset_def push_bit_eq_mult)
  have eb: "0 \<le> e" "12 \<le> rlen p0 e" using chain_entry [OF c] good_de_len by blast+
  have cs: "csize s1 = csize s" "isize s1 dir = isize s dir" using st by (simp_all add: step_of_def kept_sb_def kept_inode_def)
  obtain err s2 where pr: "kr_prepare_chunk k pc s1 dir ?pos (rlen p0 e) = Some (err, s2)" "begun s1 dir s2"
    "i_blocks (f_inode s1 dir) \<le> i_blocks (f_inode s2 dir)" "err = None \<Longrightarrow> ?pos + rlen p0 e \<le> 512 * i_blocks (f_inode s2 dir)"
    by (rule prepare_ok [OF writable_begin [OF wr, of ?pos "rlen p0 e"]]) (use eb n sz cs po in auto)
  have st2: "step_of s dir n s2" using step_of_trans [OF st step_of_begun [OF pr(2)]] .
  have d2: "data s2 dir n = p0" using pr(2) p by (simp add: begun_def)
  have is2: "isize s2 dir = isize s dir" using st2 by (simp add: step_of_def kept_inode_def)
  show ?thesis
  proof (cases err)
    case (Some e0)
    have "dir_ok pc s2 dir \<and> dir_list s2 dir = dir_list s dir"
      by (rule step_same [OF ok st2]) (use ag d2 in simp)
    moreover have "covered s dir \<longrightarrow> covered s2 dir" using pr(3) bl is2 by (auto simp: covered_def)
    ultimately show ?thesis
      using Some pr(1) only_dir_step [OF st2] by (simp add: add_tail_def add_result_def)
  next
    case None
    have "known_type (f_inode s2 ino)" using linkable_step [OF st2] lk by (auto simp: linkable_def)
    then obtain q where q: "add_fill (f_sb s2) (f_inode s2 ino) name e (rlen p0 e) nl p0 = Some q"
      using add_fill_defined by blast
    let ?s4 = "changed k True s2 dir n q sz"
    have r: "add_tail k pc s1 dir name ino n e (rlen p0 e) nl = Some (commit_err pc s2 dir n, ?s4)"
      using pr(1) None q by (simp add: add_tail_def d2 is2 po sz(1))
    have "covered s dir \<longrightarrow> covered ?s4 dir"
      using covered_after [of s dir "i_blocks (f_inode s2 dir)" sz ?s4] pr(3) pr(4) [OF None] bl sz(1) po
      by (auto simp: changed_sel max_def split: if_splits)
    then show ?thesis
      using r add_store_ok [OF ok n pok lk st2 d2 sz(2) c l room q nl ke] only_dir_changed [OF st2] st2
      unfolding add_result_def by blast
  qed
qed

lemma step_same_size: "step_of s d n s' \<Longrightarrow> isize s' d = isize s d"
  by (simp add: step_of_def kept_inode_def)

text \<open>An entry with room, or an unused one.\<close>

lemma add_at_entry:
  assumes ok: "dir_ok pc s dir" and n: "0 \<le> n" "n \<le> isize s dir div 4096" and pok: "page_ok pc s dir n"
    and lk: "linkable s name ino" and wr: "writable k pc s dir" and sd: "same_data s s1"
    and e: "e \<in> set (page_entries s dir n)" "has_room (data s dir n) (KR_DIR_REC_LEN (int (length name))) e"
  shows "\<exists>err s'. add_at k pc s1 dir name ino n False e (rlen (data s dir n) e) (KR_DIR_REC_LEN (de_name_len (data s dir n) e)) =
           Some (err, s') \<and> add_result pc s dir name (i_ino (f_inode s ino)) err s'"
proof -
  let ?p = "data s dir n"
  have dsz: "dir_sized s dir" using ok by (simp add: dir_ok_def)
  have d1: "data s1 dir n = ?p" "f_inode s1 = f_inode s" "f_sb s1 = f_sb s" by (simp_all add: same_dataD [OF sd])
  have lim: "limit_of (isize s dir) n = page_limit s dir n" by (simp add: page_limit_of)
  have ch: "chain (csize s) (max_ino s) ?p 0 (page_limit s dir n)" using pok by (simp add: page_ok_def)
  have e': "e \<in> set (entries ?p 0 (page_limit s dir n))" using e(1) by (simp add: page_entries_def)
  have "e + rlen ?p e \<le> page_limit s dir n" using chain_entry [OF ch e'] by auto
  then have sz: "isize s dir = max (isize s dir) (4096 * n + e + rlen ?p e)" using page_end(1) [OF dsz n(2)] by simp
  have "\<exists>err s'. add_tail k pc s1 dir name ino n e (rlen ?p e) (KR_DIR_REC_LEN (de_name_len ?p e)) = Some (err, s') \<and>
           add_result pc s dir name (i_ino (f_inode s ino)) err s'"
    by (rule add_tail_ok [OF ok n pok lk _ step_of_data [OF sd] d1(1) _ _ sz])
       (use wr e ch e' csize_bounds(1) [OF dsz] in
         \<open>auto simp: writable_cong [OF d1(3,2)] d1 grows_def lim page_list_def page_entries_def keeps_entries_refl\<close>)
  then show ?thesis by (simp add: add_at_tail)
qed

text \<open>A chunk past the end.\<close>

lemma add_at_fresh:
  assumes ok: "dir_ok pc s dir" and n: "0 \<le> n" "n \<le> isize s dir div 4096" and pok: "page_ok pc s dir n"
    and lk: "linkable s name ino" and wr: "writable k pc s dir" and sd: "same_data s s1"
    and e: "e = page_limit s dir n" "e \<le> 4096 - KR_DIR_REC_LEN (int (length name))" and sz: "isize s dir + csize s < 4294967296"
  shows "\<exists>err s'. add_at k pc s1 dir name ino n True e (csize s) nl = Some (err, s') \<and>
           add_result pc s dir name (i_ino (f_inode s ino)) err s'"
proof -
  let ?p = "data s dir n" and ?c = "csize s" and ?z = "isize s dir + csize s"
  have dsz: "dir_sized s dir" using ok by (simp add: dir_ok_def)
  note cb = csize_bounds [OF dsz]
  have nm: "length name < 256" "0 < length name" using lk by (simp_all add: linkable_def)
  have e4: "e < 4096" using e(2) rec_len_of_name(1) [of "int (length name)"] by linarith
  have nN: "n = isize s dir div 4096" "e = isize s dir mod 4096"
    using e4 e(1) by (auto simp: page_limit_def split: if_splits)
  have ce: "?c dvd e" using page_limit_dvd [OF dsz] e(1) by simp
  have fit: "e + ?c \<le> 4096" using chunk_room [OF dsz ce e4] .
  have g: "grows s dir n ?z" using nN fit sz by (simp add: grows_def)
  have lim: "limit_of ?z n = e + ?c" using grown_limit(1) [OF dsz refl] fit nN by simp
  define p0 where "p0 = set_de_inode e 0 (kr_rec_len_to_disk e ?c ?p)"
  have "0 \<le> max_ino s" by simp
  then have fg: "good_de ?c (max_ino s) p0 e" "rlen p0 e = ?c" "de_inode p0 e = 0" "same_outside ?p p0 e (e + ?c)"
    using fresh_good [OF ce cb(3,1) _ _ p0_def, of "max_ino s"] cb by auto
  have ag: "agree ?p p0 0 e" by (rule same_outside_agree [OF fg(4)]) simp
  have ch: "chain ?c (max_ino s) ?p 0 e" using pok e(1) by (simp add: page_ok_def)
  have ch0: "chain ?c (max_ino s) p0 0 e" "listing p0 0 e = listing ?p 0 e" using chain_agree [OF ch ag] by blast+
  have ch1: "chain ?c (max_ino s) p0 e (e + ?c)" using chain_single [OF fg(1)] fg(2) by simp
  have en: "entries p0 e (e + ?c) = [e]" using entries_single [OF fg(1)] fg(2) by simp
  have in_e: "e \<in> set (entries p0 0 (e + ?c))" using entries_append [OF ch0(1) ch1] en by simp
  have li: "listing p0 0 (e + ?c) = page_list s dir n"
    using listing_append [OF ch0(1) ch1] en ch0(2) fg(3) by (simp add: used_def page_list_def page_entries_def e(1))
  have "keeps_entries ?p p0 (entries ?p 0 e @ []) (entries p0 0 e @ entries p0 e (e + ?c))"
    by (rule keeps_entries_append [OF keeps_entries_agree [OF ch ag]]) (simp add: keeps_entries_def)
  then have ke: "keeps_entries ?p p0 (page_entries s dir n) (entries p0 0 (e + ?c))"
    using entries_append [OF ch0(1) ch1] by (simp add: page_entries_def e(1))
  have room: "has_room p0 (KR_DIR_REC_LEN (int (length name))) e"
    using fg(2,3) rec_len_of_name(2) [of "int (length name)"] nm cb(1) by (simp add: has_room_def)
  let ?s1 = "store dir n p0 s1"
  have d1: "data ?s1 dir n = p0" "f_inode ?s1 = f_inode s" "f_sb ?s1 = f_sb s" "f_sb s1 = f_sb s" "data s1 dir n = ?p"
    by (simp_all add: store_def upd_page_def same_dataD [OF sd])
  have st: "step_of s dir n ?s1" by (rule step_of_trans [OF step_of_data [OF sd] step_of_store])
  have zz: "?z = max (isize s dir) (4096 * n + e + rlen p0 e)"
    using page_end(2) [OF dsz n(2) nN(1)] e(1) fg(2) cb(1) by simp
  have "\<exists>err s'. add_tail k pc ?s1 dir name ino n e (rlen p0 e) nl = Some (err, s') \<and>
           add_result pc s dir name (i_ino (f_inode s ino)) err s'"
    by (rule add_tail_ok [OF ok n pok lk _ st d1(1) _ _ zz g])
       (use wr ag e(1) ch0 ch1 chain_append in_e li room fg(3) ke in
         \<open>auto simp: writable_cong [OF d1(3,2)] d1 lim\<close>)
  then show ?thesis by (simp add: add_at_tail d1 p0_def [symmetric] fg(2))
qed

section \<open>Adding a link\<close>

text \<open>The page past the end, which a full directory grows into, can be read.\<close>

definition can_grow :: "pagecache \<Rightarrow> kr_fs \<Rightarrow> int \<Rightarrow> bool" where
  "can_grow pc s d = (page_ok pc s d (isize s d div 4096) \<and> isize s d + csize s < 4294967296)"

lemma page_ok_upto:
  assumes "dir_ok pc s d" "can_grow pc s d" "0 \<le> n" "n \<le> isize s d div 4096"
  shows "page_ok pc s d n"
proof (cases "n < dir_pages s d")
  case False
  then have "n = isize s d div 4096"
    using assms dir_pages_cases [of s d] by (auto simp: dir_ok_def split: if_splits)
  then show ?thesis using assms(2) by (simp add: can_grow_def)
qed (use assms in \<open>simp add: dir_ok_def\<close>)

lemma dir_map_match:
  assumes "0 \<le> n" "n < dir_pages s d" "e \<in> set (page_entries s d n)" "kr_match name (data s d n) e"
  shows "name \<in> dom (dir_map s d)"
proof -
  have "(name, de_inode (data s d n) e) \<in> set (dir_list s d)" using assms by (auto simp: dir_list_iff page_list_match)
  then show ?thesis unfolding dir_map_def dom_map_of_conv_image_fst by force
qed

lemma page_entries_past_end: "page_limit s d n = 0 \<Longrightarrow> page_entries s d n = []"
  by (simp add: page_entries_def)

declare add_pages.simps [simp del]

lemma add_pages_step:
  assumes ok: "dir_ok pc s dir" and cg: "can_grow pc s dir" and lk: "linkable s name ino" and wr: "writable k pc s dir"
    and new: "name \<notin> dom (dir_map s dir)" and n: "0 \<le> n" "n \<le> isize s dir div 4096" and sd: "same_data s s1"
  obtains err s' where "add_pages k pc dir name ino (dir_pages s dir) n s1 = Some (err, s')"
      "add_result pc s dir name (i_ino (f_inode s ino)) err s'"
    | s2 where "add_pages k pc dir name ino (dir_pages s dir) n s1 = add_pages k pc dir name ino (dir_pages s dir) (n + 1) s2"
      "same_data s s2" "n + 1 \<le> isize s dir div 4096"
proof -
  have dsz: "dir_sized s dir" using ok by (simp add: dir_ok_def)
  let ?reclen = "KR_DIR_REC_LEN (int (length name))" and ?p = "data s dir n" and ?l = "page_limit s dir n"
  have pok: "page_ok pc s dir n" by (rule page_ok_upto [OF ok cg n])
  obtain s2 where s2: "kr_get_page k pc s1 dir n False = Some (None, s2)" "same_data s1 s2"
    by (rule kr_get_page_ok [of s1 dir n pc k False]) (use dsz pok n in \<open>auto simp: same_dataD [OF sd]\<close>)
  have sd2: "same_data s s2" using same_data_trans [OF sd s2(2)] .
  have ch: "chain (csize s) (max_ino s) ?p 0 ?l" using pok by (simp add: page_ok_def)
  define r where "r = add_in_page name ?p (csize s) ?l (PAGE_SIZE - ?reclen) 0"
  have eq: "add_pages k pc dir name ino (dir_pages s dir) n s1 =
    (case r of GotIt fresh de rec_len name_len \<Rightarrow> add_at k pc s2 dir name ino n fresh de rec_len name_len
        | AddZeroLength \<Rightarrow> do { s2 \<leftarrow> fs_error k s2; Some (Some EIO, s2) }
        | AddExists \<Rightarrow> Some (Some EEXIST, s2)
        | AddNextPage \<Rightarrow> add_pages k pc dir name ino (dir_pages s dir) (n + 1) s2)"
    using n(2) dir_pages_cases [OF dsz]
    by (subst add_pages.simps)
       (simp add: s2(1) same_dataD [OF sd2] kr_last_byte_eq [OF dsz n] kr_chunk_size_def r_def)
  have lb: "?l \<le> 4096" using page_limit_bounds [OF dsz] by blast
  have u: "u16 (csize s) = csize s" using csize_bounds [OF dsz] by (simp add: c_int)
  have nomatch: "\<not> kr_match name ?p e" if "e \<in> set (page_entries s dir n)" for e
  proof
    assume m: "kr_match name ?p e"
    have "n < dir_pages s dir"
      using that n dir_pages_cases [OF dsz] page_entries_past_end [of s dir n]
      by (cases "n = isize s dir div 4096") (auto simp: page_limit_def)
    then show False using dir_map_match [OF n(1) _ that m] new by blast
  qed
  consider (entry) e where "e \<in> set (page_entries s dir n)" "has_room ?p ?reclen e"
        "r = GotIt False e (rlen ?p e) (KR_DIR_REC_LEN (de_name_len ?p e))"
    | (fresh) "r = GotIt True ?l (csize s) 0" "?l \<le> 4096 - ?reclen"
    | (nxt) "r = AddNextPage" "4096 - ?reclen < ?l"
    using add_in_page_cases [OF ch lb r_def refl] nomatch unfolding page_entries_def u by blast
  then show thesis
  proof cases
    case entry
    then show ?thesis using add_at_entry [OF ok n pok lk wr sd2 entry(1,2)] that(1) by (auto simp: eq)
  next
    case fresh
    then show ?thesis using add_at_fresh [OF ok n pok lk wr sd2 refl fresh(2)] cg that(1) by (auto simp: eq can_grow_def)
  next
    case nxt
    have "3830 < ?l" using nxt(2) rec_len_of_name(2) [of "int (length name)"] lk by (auto simp: linkable_def)
    moreover have "512 dvd ?l"
      using page_limit_dvd [OF dsz, of n] dsz by (auto simp: dir_sized_def intro: dvd_trans)
    ultimately have "?l = 4096" using lb by presburger
    moreover have "isize s dir mod 4096 < 4096" by simp
    ultimately have "n \<noteq> isize s dir div 4096" by (auto simp: page_limit_def)
    then show ?thesis using that(2) [of s2] eq nxt(1) n sd2 by auto
  qed
qed

lemma add_pages_ok:
  assumes "dir_ok pc s dir" "can_grow pc s dir" "linkable s name ino" "writable k pc s dir" "name \<notin> dom (dir_map s dir)"
    and n: "0 \<le> n" "n \<le> isize s dir div 4096" and sd: "same_data s s1"
  shows "\<exists>err s'. add_pages k pc dir name ino (dir_pages s dir) n s1 = Some (err, s') \<and>
           add_result pc s dir name (i_ino (f_inode s ino)) err s'"
  using n sd
proof (induction "nat (isize s dir div 4096 - n)" arbitrary: n s1 rule: less_induct)
  case less
  show ?case
  proof (rule add_pages_step [OF assms(1-5) less(2-4)])
    fix err s'
    assume "add_pages k pc dir name ino (dir_pages s dir) n s1 = Some (err, s')"
      "add_result pc s dir name (i_ino (f_inode s ino)) err s'"
    then show ?case by blast
  next
    fix s2
    assume "add_pages k pc dir name ino (dir_pages s dir) n s1 = add_pages k pc dir name ino (dir_pages s dir) (n + 1) s2"
      "same_data s s2" "n + 1 \<le> isize s dir div 4096"
    then show ?case using less(1) [of "n + 1" s2] less(2) by simp
  qed
qed

lemma kr_add_link_ok:
  assumes "dir_ok pc s dir" "can_grow pc s dir" "linkable s name ino" "writable k pc s dir" "name \<notin> dom (dir_map s dir)"
  obtains err s' where "kr_add_link k pc s dir name ino = Some (err, s')"
    "add_result pc s dir name (i_ino (f_inode s ino)) err s'"
proof -
  have "0 \<le> isize s dir div 4096" using assms(1) by (simp add: dir_ok_def dir_sized_def pos_imp_zdiv_nonneg_iff)
  then show thesis
    using add_pages_ok [OF assms, of 0 s] that by (auto simp: kr_add_link_def)
qed

section \<open>Removing and redirecting an entry\<close>

lemma dir_entry_facts:
  assumes ok: "dir_ok pc s d" and n: "0 \<le> n" "n < dir_pages s d" and e: "e \<in> set (page_entries s d n)"
  shows "dir_sized s d" "n \<le> isize s d div 4096" "page_ok pc s d n"
    "chain (csize s) (max_ino s) (data s d n) 0 (limit_of (isize s d) n)" "e \<in> set (entries (data s d n) 0 (limit_of (isize s d) n))"
    "0 \<le> e" "12 \<le> rlen (data s d n) e" "page_offset n + e + rlen (data s d n) e \<le> isize s d" "e + rlen (data s d n) e \<le> 4096"
proof -
  show sz: "dir_sized s d" using ok by (simp add: dir_ok_def)
  show nN: "n \<le> isize s d div 4096" using dir_pages_le n(2) .
  show po: "page_ok pc s d n" using ok n by (simp add: dir_ok_def)
  show ch: "chain (csize s) (max_ino s) (data s d n) 0 (limit_of (isize s d) n)" using po by (simp add: page_ok_def page_limit_of)
  show e': "e \<in> set (entries (data s d n) 0 (limit_of (isize s d) n))" using e by (simp add: page_entries_def page_limit_of)
  have f: "0 \<le> e \<and> 12 \<le> rlen (data s d n) e \<and> e + rlen (data s d n) e \<le> limit_of (isize s d) n"
    using chain_entry [OF ch e'] good_de_len by blast
  then show "0 \<le> e" "12 \<le> rlen (data s d n) e" by auto
  show "page_offset n + e + rlen (data s d n) e \<le> isize s d"
    using page_end(1) [OF sz nN] f by (simp add: page_limit_of page_offset_def push_bit_eq_mult)
  show "e + rlen (data s d n) e \<le> 4096" using f page_limit_bounds [OF sz, of n] by (simp add: page_limit_of)
qed

lemma kr_delete_entry_ok:
  assumes ok: "dir_ok pc s d" and n: "0 \<le> n" "n < dir_pages s d" and e: "e \<in> set (page_entries s d n)"
    and used: "de_inode (data s d n) e \<noteq> 0" and wr: "rewritable k pc s d"
  obtains err s' where "kr_delete_entry k pc s d (n, e) = Some (err, s')" "dir_ok pc s' d" "only_dir s d s'"
    "replaced [(de_name (data s d n) e, de_inode (data s d n) e)] [] (dir_list s d) (dir_list s' d)"
    "\<exists>sx. step_of s d n sx \<and> err = commit_err pc sx d n" "covered s d \<longrightarrow> covered s' d"
proof -
  let ?p = "data s d n" and ?l = "limit_of (isize s d) n"
  note f = dir_entry_facts [OF ok n e]
  obtain b where b: "csize s = 2 ^ b" using csize_pow [OF f(1)] .
  have lb: "?l \<le> 4096" using page_limit_bounds [OF f(1), of n] by (simp add: page_limit_of)
  obtain pde where pde: "find_pde ?p e None (e AND NOT (csize s - 1)) = Inr pde"
    "chain (csize s) (max_ino s) (delete_bytes ?p pde e) 0 ?l"
    "listing (delete_bytes ?p pde e) 0 ?l = listing ?p 0 e @ listing ?p (e + rlen ?p e) ?l"
    "pde = None \<longrightarrow> e AND NOT (csize s - 1) = e" "case pde of None \<Rightarrow> True | Some d \<Rightarrow> 0 \<le> d \<and> d < e"
    by (rule delete_page_ok [OF f(4,5) lb b]) simp_all
  define from0 where "from0 = (case pde of None \<Rightarrow> e AND NOT (csize s - 1) | Some x \<Rightarrow> x)"
  have fr: "0 \<le> from0" "from0 \<le> e" using pde(4,5) f(6) by (auto simp: from0_def split: option.splits)
  have po: "0 \<le> page_offset n" using n(1) by (simp add: page_offset_def)
  let ?len = "e + rlen ?p e - from0" and ?pos = "page_offset n + from0"
  obtain err s1 where pr: "kr_prepare_chunk k pc s d ?pos ?len = Some (err, s1)" "begun s d s1"
    "?pos + ?len \<le> isize s d \<Longrightarrow> err = None"
    "i_blocks (f_inode s d) \<le> i_blocks (f_inode s1 d)"
    by (rule prepare_ok [OF rewritable_begin [OF wr, of ?pos ?len]]) (use fr po f(7,8) in auto)
  have e0: "err = None" using pr(3) f(8) by simp
  have st: "step_of s d n s1" using step_of_begun [OF pr(2)] .
  have d1: "data s1 d n = ?p" "isize s1 d = isize s d" using pr(2) by (simp_all add: begun_def kept_inode_def)
  have sz: "max (isize s d) (?pos + ?len) = isize s d" using f(8) by simp
  let ?s4 = "changed k True s1 d n (delete_bytes ?p pde e) (isize s d)"
  have data: "set_de_inode e 0 (case pde of None \<Rightarrow> data s1 d n | Some x \<Rightarrow> kr_rec_len_to_disk x ?len (data s1 d n)) =
      delete_bytes ?p pde e"
    by (simp add: delete_bytes_def from0_def d1(1) split: option.splits)
  have cm: "(case kr_commit_chunk pc (store d n (delete_bytes ?p pde e) s1) d n ?pos ?len of
      (err1, s2) \<Rightarrow> Some (err1, upd_inode d (touch_dir k True) s2)) = Some (commit_err pc s1 d n, ?s4)"
    using commit_fst [of pc d n "delete_bytes ?p pde e" s1 ?pos ?len]
      commit_snd [of d k True pc n "delete_bytes ?p pde e" s1 ?pos ?len] sz d1(2) by (simp add: case_prod_unfold)
  have res: "kr_delete_entry k pc s d (n, e) = Some (commit_err pc s1 d n, ?s4)"
    unfolding kr_delete_entry_def Let_def kr_chunk_size_def prod.case pde(1) sum.case from0_def [symmetric]
    by (simp add: pr(1) e0 data cm)
  have spl: "page_list s d n = listing ?p 0 e @ [(de_name ?p e, de_inode ?p e)] @ listing ?p (e + rlen ?p e) ?l"
    using chain_split_listing [OF f(4,5)] used by (simp add: page_list_def page_entries_def page_limit_of)
  have r: "replaced [(de_name ?p e, de_inode ?p e)] [] (page_list s d n) (listing (delete_bytes ?p pde e) 0 ?l)"
    unfolding replaced_def spl pde(3) by force
  have "dir_ok pc ?s4 d \<and> replaced [(de_name ?p e, de_inode ?p e)] [] (dir_list s d) (dir_list ?s4 d)"
    by (rule changed_ok [OF ok n(1) f(2,3) st _ pde(2) r _ refl]) (simp_all add: grows_def named_def)
  moreover have "covered s d \<longrightarrow> covered ?s4 d"
    using covered_after [of s d "i_blocks (f_inode s1 d)" "isize s d" ?s4] pr(4) by (auto simp: changed_sel)
  ultimately show thesis
    using that [OF res] only_dir_changed [OF st] st by blast
qed

lemma kr_set_link_ok:
  assumes ok: "dir_ok pc s d" and n: "0 \<le> n" "n < dir_pages s d" and e: "e \<in> set (page_entries s d n)"
    and used: "de_inode (data s d n) e \<noteq> 0" and wr: "rewritable k pc s d" and kt: "known_type (f_inode s ino)"
    and i: "0 < i_ino (f_inode s ino)" "i_ino (f_inode s ino) \<le> max_ino s"
  obtains s' where "kr_set_link k pc s d (n, e) ino t = Some s'" "dir_ok pc s' d" "only_dir s d s'"
    "replaced [(de_name (data s d n) e, de_inode (data s d n) e)] [(de_name (data s d n) e, i_ino (f_inode s ino))]
       (dir_list s d) (dir_list s' d)" "dir_pages s d \<le> dir_pages s' d"
    "\<forall>i x. 0 \<le> i \<and> i < dir_pages s d \<and> x \<in> set (page_entries s d i) \<and> (i, x) \<noteq> (n, e) \<longrightarrow>
       x \<in> set (page_entries s' d i) \<and> de_inode (data s' d i) x = de_inode (data s d i) x \<and> de_name (data s' d i) x = de_name (data s d i) x"
    "covered s d \<longrightarrow> covered s' d"
proof -
  let ?p = "data s d n" and ?l = "limit_of (isize s d) n" and ?i = "i_ino (f_inode s ino)"
  note f = dir_entry_facts [OF ok n e]
  have po: "0 \<le> page_offset n" using n(1) by (simp add: page_offset_def)
  let ?len = "rlen ?p e" and ?pos = "page_offset n + e"
  obtain err s1 where pr: "kr_prepare_chunk k pc s d ?pos ?len = Some (err, s1)" "begun s d s1"
    "?pos + ?len \<le> isize s d \<Longrightarrow> err = None"
    "i_blocks (f_inode s d) \<le> i_blocks (f_inode s1 d)"
    by (rule prepare_ok [OF rewritable_begin [OF wr, of ?pos ?len]]) (use po f(6-8) in auto)
  have e0: "err = None" using pr(3) f(8) by simp
  have st: "step_of s d n s1" using step_of_begun [OF pr(2)] .
  have d1: "data s1 d n = ?p" "isize s1 d = isize s d" "i_ino (f_inode s1 ino) = ?i" "known_type (f_inode s1 ino)"
    using pr(2) kt by (cases "ino = d"; simp add: begun_def kept_inode_def known_type_def)+
  have i32: "?i < 4294967296" using i(2) le_less_trans uint32_lt by blast
  have u: "u32 ?i = ?i" using i i32 by (simp add: c_int)
  obtain q where q: "kr_set_de_type (f_sb s1) (f_inode s1 ino) e (set_de_inode e ?i ?p) = Some q"
    using set_de_type_ok [OF d1(4)] by blast
  have rl: "chain (csize s) (max_ino s) q 0 ?l" "listing q 0 ?l = listing ?p 0 e @ (de_name ?p e, ?i) # listing ?p (e + rlen ?p e) ?l"
    and re: "entries q 0 ?l = entries ?p 0 ?l"
    "\<forall>x\<in>set (entries ?p 0 ?l). de_name q x = de_name ?p x \<and> (x \<noteq> e \<longrightarrow> de_inode q x = de_inode ?p x)"
    using relink_page_ok [OF f(4,5) i(1,2) i32 q] by auto
  let ?s4 = "changed k t s1 d n q (isize s d)"
  have sz: "max (isize s d) (?pos + ?len) = isize s d" using f(8) by simp
  have "\<not> (e < 0 \<or> PAGE_SIZE < e + 8)" using f(6,7,9) by simp
  then have res: "kr_set_link k pc s d (n, e) ino t = Some ?s4"
    using pr(1) commit_snd [of d k t pc n q s1 ?pos ?len]
    by (simp add: kr_set_link_def e0 d1 u q sz)
  have spl: "page_list s d n = listing ?p 0 e @ [(de_name ?p e, de_inode ?p e)] @ listing ?p (e + rlen ?p e) ?l"
    using chain_split_listing [OF f(4,5)] used by (simp add: page_list_def page_entries_def page_limit_of)
  have r: "replaced [(de_name ?p e, de_inode ?p e)] [(de_name ?p e, ?i)] (page_list s d n) (listing q 0 ?l)"
    unfolding replaced_def spl rl(2) by force
  have "named (page_list s d n)" using f(3) by (simp add: page_ok_def)
  then have nm: "named [(de_name ?p e, ?i)]" unfolding spl by (simp add: named_def)
  have gr: "grows s d n (isize s d)" by (simp add: grows_def)
  note co = changed_ok [OF ok n(1) f(2,3) st gr rl(1) r nm refl, where k = k and t = t]
  have "\<forall>i x. 0 \<le> i \<and> i < dir_pages s d \<and> x \<in> set (page_entries s d i) \<and> (i, x) \<noteq> (n, e) \<longrightarrow>
       x \<in> set (page_entries ?s4 d i) \<and> de_inode (data ?s4 d i) x = de_inode (data s d i) x \<and> de_name (data ?s4 d i) x = de_name (data s d i) x"
  proof (intro allI impI)
    fix i x
    assume a: "0 \<le> i \<and> i < dir_pages s d \<and> x \<in> set (page_entries s d i) \<and> (i, x) \<noteq> (n, e)"
    show "x \<in> set (page_entries ?s4 d i) \<and> de_inode (data ?s4 d i) x = de_inode (data s d i) x \<and> de_name (data ?s4 d i) x = de_name (data s d i) x"
      using a co(2) [of i] co(3) re dir_pages_le [of i s d]
      by (cases "i = n") (auto simp: page_entries_def [of s] page_limit_of)
  qed
  moreover have "covered s d \<longrightarrow> covered ?s4 d"
    using covered_after [of s d "i_blocks (f_inode s1 d)" "isize s d" ?s4] pr(4) by (auto simp: changed_sel)
  ultimately show thesis
    using that [OF res _ only_dir_changed [OF st]] co(1,4) by blast
qed

section \<open>The directory as a map\<close>

lemma replaced_distinct:
  assumes "replaced [x] [] l l'" "distinct (map fst l)"
  shows "distinct (map fst l')" "map_of l' = (map_of l)(fst x := None)"
proof -
  obtain xs ys where l: "l = xs @ [x] @ ys" "l' = xs @ ys" using assms(1) by (auto simp: replaced_def)
  show "distinct (map fst l')" using assms(2) l by auto
  have "fst x \<notin> fst ` set xs" "fst x \<notin> fst ` set ys" using assms(2) l by auto
  then have "map_of xs (fst x) = None" "map_of ys (fst x) = None" by (simp_all add: map_of_eq_None_iff)
  then show "map_of l' = (map_of l)(fst x := None)"
    by (intro ext) (auto simp: l map_add_def split: option.splits)
qed

lemma replaced_insert:
  assumes "replaced [] [x] l l'" "distinct (map fst l)" "fst x \<notin> dom (map_of l)"
  shows "distinct (map fst l')" "map_of l' = (map_of l)(fst x \<mapsto> snd x)"
proof -
  obtain xs ys where l: "l = xs @ ys" "l' = xs @ [x] @ ys" using assms(1) by (auto simp: replaced_def)
  have n: "fst x \<notin> fst ` set xs" "fst x \<notin> fst ` set ys" using assms(3) l by (auto simp: dom_map_of_conv_image_fst)
  then show "distinct (map fst l')" using assms(2) l by auto
  have "map_of xs (fst x) = None" "map_of ys (fst x) = None" using n by (simp_all add: map_of_eq_None_iff)
  then show "map_of l' = (map_of l)(fst x \<mapsto> snd x)"
    by (intro ext) (auto simp: l map_add_def split: option.splits)
qed

lemma replaced_update:
  assumes "replaced [(a, x)] [(a, y)] l l'" "distinct (map fst l)"
  shows "distinct (map fst l')" "map_of l' = (map_of l)(a \<mapsto> y)"
proof -
  obtain xs ys where l: "l = xs @ [(a, x)] @ ys" "l' = xs @ [(a, y)] @ ys" using assms(1) by (auto simp: replaced_def)
  show "distinct (map fst l')" using assms(2) l by auto
  have "a \<notin> fst ` set xs" "a \<notin> fst ` set ys" using assms(2) l by auto
  then have "map_of xs a = None" "map_of ys a = None" by (simp_all add: map_of_eq_None_iff)
  then show "map_of l' = (map_of l)(a \<mapsto> y)"
    by (intro ext) (auto simp: l map_add_def split: option.splits)
qed

section \<open>Whole directories\<close>

declare empty_pages.simps [simp del] readdir_pages.simps [simp del]

lemma dir_list_from:
  assumes "0 \<le> n" "n < dir_pages s d"
  shows "concat (map (page_list s d) [n..dir_pages s d - 1]) =
    page_list s d n @ concat (map (page_list s d) [n + 1..dir_pages s d - 1])"
  using assms by (subst upto_rec1) simp_all

lemma get_page_in:
  assumes ok: "dir_ok pc s d" and sd: "same_data s s1" and n: "0 \<le> n" "n < dir_pages s d"
  obtains s2 where "kr_get_page k pc s1 d n quiet = Some (None, s2)" "same_data s s2" "data s2 d n = data s d n"
    "kr_last_byte s2 d n = page_limit s d n" "chain (csize s) (max_ino s) (data s d n) 0 (page_limit s d n)"
    "named (listing (data s d n) 0 (page_limit s d n))"
proof -
  have f: "dir_sized s d" "page_ok pc s d n" using ok n by (auto simp: dir_ok_def)
  obtain s2 where s2: "kr_get_page k pc s1 d n quiet = Some (None, s2)" "same_data s1 s2"
    by (rule kr_get_page_ok [of s1 d n pc k quiet]) (use f n in \<open>auto simp: same_dataD [OF sd]\<close>)
  have sd2: "same_data s s2" using same_data_trans [OF sd s2(2)] .
  show thesis
    using that [OF s2(1) sd2] f(2) kr_last_byte_eq [OF f(1) n(1) dir_pages_le [OF n(2)]]
    by (simp add: same_dataD [OF sd2] page_ok_def page_list_def page_entries_def)
qed

lemma empty_pages_ok:
  assumes ok: "dir_ok pc s d" and n: "0 \<le> n" "n \<le> dir_pages s d" and sd: "same_data s s1"
  shows "\<exists>s'. empty_pages k pc d (dir_pages s d) n err s1 =
      Some (\<forall>x\<in>set (concat (map (page_list s d) [n..dir_pages s d - 1])). dot_or_dotdot (u32 (i_ino (f_inode s d))) x, s') \<and>
    same_data s s'"
  using n sd
proof (induction "nat (dir_pages s d - n)" arbitrary: n s1 rule: less_induct)
  case less
  let ?i = "u32 (i_ino (f_inode s d))"
  show ?case
  proof (cases "n < dir_pages s d")
    case False
    then show ?thesis using less.prems by (subst empty_pages.simps) auto
  next
    case True
    obtain s2 where s2: "kr_get_page k pc s1 d n err = Some (None, s2)" "same_data s s2" "data s2 d n = data s d n"
      "kr_last_byte s2 d n = page_limit s d n" "chain (csize s) (max_ino s) (data s d n) 0 (page_limit s d n)"
      "named (listing (data s d n) 0 (page_limit s d n))"
      by (rule get_page_in [OF ok less.prems(3,1) True])
    have pl: "listing (data s d n) 0 (page_limit s d n) = page_list s d n" by (simp add: page_list_def page_entries_def)
    have step: "empty_pages k pc d (dir_pages s d) n err s1 =
        (if \<forall>x\<in>set (page_list s d n). dot_or_dotdot ?i x then empty_pages k pc d (dir_pages s d) (n + 1) err s2 else Some (False, s2))"
      using empty_page_listing [OF s2(5,6), of ?i] True
      by (subst empty_pages.simps) (simp add: s2(1,3,4) pl same_dataD(2) [OF s2(2)])
    obtain s' where "empty_pages k pc d (dir_pages s d) (n + 1) err s2 =
      Some (\<forall>x\<in>set (concat (map (page_list s d) [n + 1..dir_pages s d - 1])). dot_or_dotdot ?i x, s')" "same_data s s'"
      using less(1) [of "n + 1" s2] True less.prems(1) s2(2) by auto
    then show ?thesis
      using step s2(2) dir_list_from [OF less.prems(1) True] by auto
  qed
qed

lemma kr_empty_dir_ok:
  assumes "dir_ok pc s d"
  obtains s' where "kr_empty_dir k pc s d = Some (\<forall>x\<in>set (dir_list s d). dot_or_dotdot (u32 (i_ino (f_inode s d))) x, s')"
    "same_data s s'"
  using empty_pages_ok [OF assms, of 0 s k False] dir_pages_nonneg [of s d] assms that
  by (auto simp: kr_empty_dir_def dir_list_def dir_ok_def)

text \<open>Listing a directory from its start, for a reader that takes everything.\<close>

definition dir_reports :: "kr_fs \<Rightarrow> int \<Rightarrow> int list \<Rightarrow> dir_entry list" where
  "dir_reports s d ns =
     concat (map (\<lambda>n. reports (KR_HAS_INCOMPAT_FEATURE (f_sb s) KR_FEATURE_INCOMPAT_FILETYPE) (data s d n) 0 (page_limit s d n)) ns)"

lemma dir_reports_list: "map (\<lambda>(n, i, t). (n, i)) (dir_reports s d [0..dir_pages s d - 1]) = dir_list s d"
proof -
  have "page_list s d = (\<lambda>n. listing (data s d n) 0 (page_limit s d n))"
    by (rule ext) (simp add: page_list_def page_entries_def)
  then show ?thesis by (simp add: dir_reports_def dir_list_def map_concat o_def reports_listing)
qed

lemma page_limit_sum:
  assumes "dir_sized s d" "n < dir_pages s d"
  shows "min (4096 * (n + 1)) (isize s d) = 4096 * n + page_limit s d n"
  using page_end [OF assms(1) dir_pages_le [OF assms(2)]] page_limit_bounds [OF assms(1), of n]
  by (cases "n = isize s d div 4096") (auto simp: page_limit_def)

lemma readdir_pages_all:
  assumes ok: "dir_ok pc s d" and n: "0 \<le> n" "n \<le> dir_pages s d" and sd: "same_data s s1"
    and pos: "ctx_pos ctx = min (4096 * n) (isize s d)" and ft: "t = KR_HAS_INCOMPAT_FEATURE (f_sb s) KR_FEATURE_INCOMPAT_FILETYPE"
  shows "\<exists>ver' s'. readdir_pages k pc (\<lambda>_ _. True) d t (dir_pages s d) n 0 rv ctx ver s1 =
      Some (None, \<lparr>ctx_pos = isize s d, ctx_out = ctx_out ctx @ dir_reports s d [n..dir_pages s d - 1]\<rparr>, ver', s') \<and> same_data s s'"
  using n sd pos
proof (induction "nat (dir_pages s d - n)" arbitrary: n s1 ctx ver rv rule: less_induct)
  case less
  have dsz: "dir_sized s d" using ok by (simp add: dir_ok_def)
  show ?case
  proof (cases "n < dir_pages s d")
    case False
    then have nd: "n = dir_pages s d" using less.prems by simp
    have "isize s d \<le> 4096 * dir_pages s d"
      using mult_div_mod_eq [of 4096 "isize s d + 4095"] pos_mod_bound [of 4096 "isize s d + 4095"] unfolding dir_pages_eq by linarith
    then show ?thesis
      using less.prems nd by (subst readdir_pages.simps) (auto simp: dir_reports_def intro!: exI [of _ ver])
  next
    case True
    obtain s2 where s2: "kr_get_page k pc s1 d n False = Some (None, s2)" "same_data s s2" "data s2 d n = data s d n"
      "kr_last_byte s2 d n = page_limit s d n" "chain (csize s) (max_ino s) (data s d n) 0 (page_limit s d n)"
      by (rule get_page_in [OF ok less.prems(3,1) True])
    let ?ctx = "\<lparr>ctx_pos = ctx_pos ctx + page_limit s d n, ctx_out = ctx_out ctx @ reports t (data s d n) 0 (page_limit s d n)\<rparr>"
    have step: "readdir_pages k pc (\<lambda>_ _. True) d t (dir_pages s d) n 0 rv ctx ver s1 =
       readdir_pages k pc (\<lambda>_ _. True) d t (dir_pages s d) (n + 1) 0 False ?ctx (if rv then f_version s2 d else ver) s2"
      using readdir_page_all [OF s2(5), of t ctx] True
      by (subst readdir_pages.simps) (simp add: s2(1,3,4))
    have "min (4096 * n) (isize s d) = 4096 * n" using page_end(1) [OF dsz dir_pages_le [OF True]] page_limit_bounds [OF dsz, of n] by simp
    then have p1: "ctx_pos ?ctx = min (4096 * (n + 1)) (isize s d)"
      using less.prems(4) page_limit_sum [OF dsz True] by simp
    obtain ver' s' where "readdir_pages k pc (\<lambda>_ _. True) d t (dir_pages s d) (n + 1) 0 False ?ctx (if rv then f_version s2 d else ver) s2 =
      Some (None, \<lparr>ctx_pos = isize s d, ctx_out = ctx_out ?ctx @ dir_reports s d [n + 1..dir_pages s d - 1]\<rparr>, ver', s')" "same_data s s'"
      using less(1) [OF _ _ _ s2(2) p1] True less.prems(1) by fastforce
    moreover have "dir_reports s d [n..dir_pages s d - 1] =
        reports t (data s d n) 0 (page_limit s d n) @ dir_reports s d [n + 1..dir_pages s d - 1]"
      using True unfolding dir_reports_def ft by (subst upto_rec1) simp_all
    ultimately show ?thesis using step by auto
  qed
qed

lemma kr_readdir_ok:
  assumes ok: "dir_ok pc s d"
  obtains ver' s' where "kr_readdir k pc (\<lambda>_ _. True) s d ver \<lparr>ctx_pos = 0, ctx_out = []\<rparr> =
      Some (None, \<lparr>ctx_pos = isize s d, ctx_out = dir_reports s d [0..dir_pages s d - 1]\<rparr>, ver', s')" "same_data s s'"
proof -
  have dsz: "dir_sized s d" using ok by (simp add: dir_ok_def)
  have "csize s dvd isize s d" "0 \<le> isize s d" using dsz by (simp_all add: dir_sized_def)
  then have i: "isize s d = 0 \<or> 512 \<le> isize s d"
    using csize_bounds(1) [OF dsz] zdvd_imp_le [of "csize s" "isize s d"] by force
  show thesis
  proof (cases "isize s d = 0")
    case True
    then have "dir_pages s d = 0" by (simp add: dir_pages_eq)
    then show ?thesis
      using that [of ver s] True by (simp add: kr_readdir_def dir_reports_def)
  next
    case False
    obtain ver' s' where "readdir_pages k pc (\<lambda>_ _. True) d (KR_HAS_INCOMPAT_FEATURE (f_sb s) KR_FEATURE_INCOMPAT_FILETYPE)
        (dir_pages s d) 0 0 (ver \<noteq> f_version s d) \<lparr>ctx_pos = 0, ctx_out = []\<rparr> ver s =
      Some (None, \<lparr>ctx_pos = isize s d, ctx_out = [] @ dir_reports s d [0..dir_pages s d - 1]\<rparr>, ver', s')" "same_data s s'"
      using readdir_pages_all [OF ok _ _ same_data_refl _ refl, of 0 "\<lparr>ctx_pos = 0, ctx_out = []\<rparr>" k "ver \<noteq> f_version s d" ver]
        dir_pages_nonneg [OF dsz] dsz by (auto simp: dir_sized_def)
    then show ?thesis
      using that [of ver' s'] i False by (simp add: kr_readdir_def)
  qed
qed

section \<open>A new directory\<close>

lemma commit_sel:
  "f_sb (snd (kr_commit_chunk pc s d n pos len)) = f_sb s" "f_page (snd (kr_commit_chunk pc s d n pos len)) = f_page s"
  "f_inode (snd (kr_commit_chunk pc s d n pos len)) = (f_inode s)(d := (f_inode s d)\<lparr>i_size := max (isize s d) (pos + len)\<rparr>)"
  by (auto simp: kr_commit_chunk_def Let_def upd_inode_def max_def fun_eq_iff split: option.splits)

lemma kr_make_empty_ok:
  assumes c: "csize s \<in> {512, 1024, 2048, 4096}" and new: "isize s d = 0"
    and bk: "begin_keeps k pc (f_sb s) (f_inode s d) 0 (csize s)" and rd: "pc_read pc d 0 = None" "\<not> p_error (f_page s d 0)"
    and kt: "known_type (f_inode s d)" and ne: "parent \<noteq> d"
    and i: "0 < i_ino (f_inode s d)" "i_ino (f_inode s d) \<le> max_ino s"
    and j: "0 < i_ino (f_inode s parent)" "i_ino (f_inode s parent) \<le> max_ino s"
  obtains begun err s' where "map_option fst (kr_prepare_chunk k pc s d 0 (csize s)) = Some begun"
    "kr_make_empty k pc s d parent = Some (err, s')" "only_dir s d s'"
    "if \<not> pc_grab pc d then err = Some ENOMEM \<and> s' = s
     else if begun \<noteq> None then err = begun \<and> dir_list s' d = [] \<and> isize s' d = 0
     else err = commit_err pc s' d 0 \<and> dir_ok pc s' d \<and> covered s' d \<and> isize s' d = csize s \<and>
       dir_list s' d = [([0x2E], i_ino (f_inode s d)), ([0x2E, 0x2E], i_ino (f_inode s parent))]"
proof -
  obtain err sb ino where pr: "pc_write_begin pc (kr_get_block k) (f_sb s) (f_inode s d) 0 (csize s) = Some (err, sb, ino)"
    "kept_sb (f_sb s) sb" "kept_inode (f_inode s d) ino" "err = None \<longrightarrow> csize s \<le> 512 * i_blocks ino"
    using bk by (auto simp: begin_keeps_def split: option.splits prod.splits)
  let ?s1 = "s\<lparr>f_sb := sb, f_inode := (f_inode s)(d := ino)\<rparr>"
  have bg: "step_of s d 0 ?s1" using pr by (simp add: step_of_def)
  have e: "csize ?s1 = csize s" "max_ino ?s1 = max_ino s" "isize ?s1 d = 0" "i_ino (f_inode ?s1 d) = i_ino (f_inode s d)"
    "f_inode ?s1 parent = f_inode s parent" "known_type ino"
    using pr(2,3) new ne kt by (simp_all add: kept_sb_def kept_inode_def known_type_def)
  have prep: "kr_prepare_chunk k pc s d 0 (csize s) = Some (err, ?s1)" using pr(1) by (simp add: kr_prepare_chunk_def)
  have begun: "map_option fst (kr_prepare_chunk k pc s d 0 (csize s)) = Some err" using prep by simp
  show thesis
  proof (cases "pc_grab pc d")
    case gr: False
    have "only_dir s d s" by (simp add: only_dir_def kept_sb_def)
    then show ?thesis using that [of err "Some ENOMEM" s] begun gr by (simp add: kr_make_empty_def)
  next
    case gr: True
    show ?thesis
    proof (cases err)
      case (Some x)
      have "dir_list ?s1 d = []" using e(3) by (simp add: dir_list_def dir_pages_eq)
      then show ?thesis
        using that [of err err ?s1] begun Some gr prep only_dir_step [OF bg] e(3) by (simp add: kr_make_empty_def kr_chunk_size_def)
    next
      case None
      obtain p where p: "make_empty_data sb ino (f_inode s parent) (csize s) (data s d 0) = Some p"
        using make_empty_data_defined [OF e(6)] by blast
      define s2 where "s2 = snd (kr_commit_chunk pc (store d 0 p ?s1) d 0 0 (csize s))"
      have c4: "4 dvd csize s" "512 \<le> csize s" "csize s \<le> 4096" using c by auto
      have k2: "f_sb s2 = sb" "f_inode s2 = (f_inode s)(d := ino\<lparr>i_size := csize s\<rparr>)" "data s2 d 0 = p"
        "p_error (f_page s2 d 0) = p_error (f_page s d 0)"
        using e(3) c4(2) by (simp_all add: s2_def commit_sel store_def upd_page_def max_def)
      have od: "only_dir s d s2"
        using pr(2,3) unfolding only_dir_def by (simp add: s2_def commit_sel store_def upd_page_def kept_inode_def)
      have sb2: "csize s2 = csize s" "max_ino s2 = max_ino s" using pr(2) by (simp_all add: k2 kept_sb_def)
      have i2: "i_ino ino = i_ino (f_inode s d)" using pr(3) by (simp add: kept_inode_def)
      have lt: "i_ino (f_inode s d) < 4294967296" "i_ino (f_inode s parent) < 4294967296"
        using i(2) j(2) le_less_trans uint32_lt by blast+
      have ch: "chain (csize s) (max_ino s) p 0 (csize s)"
        "listing p 0 (csize s) = [([0x2E], i_ino (f_inode s d)), ([0x2E, 0x2E], i_ino (f_inode s parent))]"
        using make_empty_data_ok [OF p c4(2,3,1), of "max_ino s"] i j lt i2 by auto
      have is2: "isize s2 d = csize s" by (simp add: k2)
      have lim: "page_limit s2 d 0 = csize s" using c by (auto simp: page_limit_def is2)
      have np: "dir_pages s2 d = 1" using c by (auto simp: dir_pages_eq is2)
      have pl: "page_list s2 d 0 = [([0x2E], i_ino (f_inode s d)), ([0x2E, 0x2E], i_ino (f_inode s parent))]"
        by (simp add: page_list_def page_entries_def lim k2(3) ch(2))
      then have dl: "dir_list s2 d = [([0x2E], i_ino (f_inode s d)), ([0x2E, 0x2E], i_ino (f_inode s parent))]"
        by (simp add: dir_list_def np)
      have "page_ok pc s2 d 0" using rd ch(1) by (simp add: page_ok_def k2 lim pl named_def sb2 [unfolded k2])
      moreover have "dir_sized s2 d" using c by (auto simp: dir_sized_def is2 sb2)
      ultimately have "dir_ok pc s2 d" 
        by (simp add: dir_ok_def np) (metis int_one_le_iff_zero_less linorder_not_less order_antisym)
      moreover have "covered s2 d" using pr(4) None by (simp add: covered_def k2)
      moreover have "kr_make_empty k pc s d parent = Some (fst (kr_commit_chunk pc (store d 0 p ?s1) d 0 0 (csize s)), s2)"
        using gr prep None p ne by (simp add: kr_make_empty_def kr_chunk_size_def s2_def)
      moreover have "fst (kr_commit_chunk pc (store d 0 p ?s1) d 0 0 (csize s)) = commit_err pc s2 d 0"
        unfolding commit_fst by (simp add: commit_err_def IS_DIRSYNC_def k2)
      ultimately show ?thesis using that [of err _ s2] begun None gr od is2 dl by simp
    qed
  qed
qed

end
