(* ===== verification/Kr_Namei.thy ===== *)
theory Kr_Namei
  imports Kr_Directory
begin

text \<open>
  Names (\<^verbatim>\<open>namei.c\<close>): the operations of a directory that the VFS calls. They compose the
  directory code, the inode allocator and the end of an inode.

  \<^item> A dentry is the number of its directory and its name; \<^verbatim>\<open>d_inode(dentry)\<close> is a number, or
    \<^term>\<open>None\<close> for a negative dentry.
  \<^item> The dentry cache and the reference counts of inodes belong to the VFS. What the code gets
    from them is in the record \<open>names\<close>: \<open>n_iput\<close> drops a reference and is given
    \<^verbatim>\<open>kr_evict_inode\<close>, which it calls when the reference was the last one. The pair of
    \<^verbatim>\<open>ihold\<close> and \<^verbatim>\<open>iput\<close> in \<^verbatim>\<open>kr_link\<close> cancels: the caller holds another reference.
  \<^item> A new inode has no pages: they read as zeros.
\<close>

section \<open>Model: the VFS below names\<close>

record names =
  n_iput :: "(super_block \<Rightarrow> inode \<Rightarrow> (super_block \<times> inode) option) \<Rightarrow> super_block \<Rightarrow> inode \<Rightarrow>
             (super_block \<times> inode) option"
  n_splice_alias :: "int option \<Rightarrow> errno option"     \<comment> \<open>\<^verbatim>\<open>d_splice_alias\<close> of an inode or none fails\<close>
  n_obtain_alias :: "int \<Rightarrow> errno option"            \<comment> \<open>\<^verbatim>\<open>d_obtain_alias\<close> fails\<close>
  n_d_tmpfile :: "inode \<Rightarrow> inode"                    \<comment> \<open>\<^verbatim>\<open>d_tmpfile\<close>\<close>
  n_page_symlink :: "kr_fs \<Rightarrow> int \<Rightarrow> 8 word list \<Rightarrow> (errno option \<times> kr_fs) option"

abbreviation (input) RENAME_NOREPLACE :: "32 word" where "RENAME_NOREPLACE \<equiv> 1"
abbreviation (input) S_IRWXUGO :: "16 word" where "S_IRWXUGO \<equiv> 0x1FF"

definition fs_iput :: "kernel \<Rightarrow> vfs \<Rightarrow> names \<Rightarrow> int \<Rightarrow> kr_fs \<Rightarrow> kr_fs option" where
  "fs_iput k v nm i s =
     do { (sb, ino) \<leftarrow> n_iput nm (kr_evict_inode k v) (f_sb s) (f_inode s i);
          Some (s\<lparr>f_sb := sb, f_inode := (f_inode s)(i := ino)\<rparr>) }"

definition inode_inc_link_count :: "int \<Rightarrow> kr_fs \<Rightarrow> kr_fs" where
  "inode_inc_link_count i = upd_inode i (\<lambda>ino. ino\<lparr>i_nlink := i_nlink ino + 1\<rparr>)"

definition inode_dec_link_count :: "int \<Rightarrow> kr_fs \<Rightarrow> kr_fs" where
  "inode_dec_link_count i = upd_inode i (\<lambda>ino. ino\<lparr>i_nlink := i_nlink ino - 1\<rparr>)"

definition set_ctime :: "int \<Rightarrow> int \<Rightarrow> kr_fs \<Rightarrow> kr_fs" where
  "set_ctime i t = upd_inode i (\<lambda>ino. ino\<lparr>i_ctime := t\<rparr>)"

definition fresh_page :: page where
  "fresh_page = \<lparr>p_data = (\<lambda>_. 0), p_checked = False, p_error = False\<rparr>"

text \<open>A new inode enters the memory; \<^verbatim>\<open>kr_alloc_inode\<close> has set its version to one.\<close>

definition enter_new :: "inode \<Rightarrow> inode_ops option \<Rightarrow> kr_fs \<Rightarrow> kr_fs" where
  "enter_new ino ops s =
     (let i = i_ino ino in
      s\<lparr>f_inode := (f_inode s)(i := ino), f_page := (f_page s)(i := (\<lambda>_. fresh_page)),
        f_version := (f_version s)(i := 1), f_ops := (f_ops s)(i := ops)\<rparr>)"

definition fs_new_inode ::
  "kernel \<Rightarrow> vfs \<Rightarrow> names \<Rightarrow> kr_fs \<Rightarrow> int \<Rightarrow> 16 word \<Rightarrow> ((errno + inode) \<times> kr_fs) option" where
  "fs_new_inode k v nm s dir mode =
     do { (r, sb) \<leftarrow> kr_new_inode k (\<lambda>sb ino. map_option fst (n_iput nm (kr_evict_inode k v) sb ino))
                      (f_sb s) (f_inode s dir) mode;
          Some (r, s\<lparr>f_sb := sb\<rparr>) }"

text \<open>An inode that \<^verbatim>\<open>kr_iget\<close> has given; \<open>ops\<close> is \<^term>\<open>None\<close> if it was in memory.\<close>

definition fs_iget :: "kernel \<Rightarrow> vfs \<Rightarrow> kr_fs \<Rightarrow> int \<Rightarrow> ((errno + int) \<times> kr_fs) option" where
  "fs_iget k v s nr =
     do { (r, sb) \<leftarrow> kr_iget k v (f_sb s) nr;
          let s1 = s\<lparr>f_sb := sb\<rparr>;
          Some (case r of Inl e \<Rightarrow> (Inl e, s1)
                | Inr (ino, None) \<Rightarrow> (Inr nr, s1\<lparr>f_inode := (f_inode s)(nr := ino)\<rparr>)
                | Inr (ino, Some ops) \<Rightarrow>
                    (Inr nr, s1\<lparr>f_inode := (f_inode s)(nr := ino), f_version := (f_version s)(nr := 1),
                               f_ops := (f_ops s)(nr := Some ops)\<rparr>)) }"

section \<open>Model: looking up\<close>

definition kr_lookup ::
  "kernel \<Rightarrow> vfs \<Rightarrow> pagecache \<Rightarrow> names \<Rightarrow> kr_fs \<Rightarrow> int \<Rightarrow> fname \<Rightarrow> ((errno + int option) \<times> kr_fs) option" where
  "kr_lookup k v pc nm s dir name =
     (if KR_NAME_LEN < int (length name) then Some (Inl ENAMETOOLONG, s)
      else do {
        (ino, s1) \<leftarrow> kr_inode_by_name k pc s dir name;
        if ino \<noteq> 0 then do {
          (r, s2) \<leftarrow> fs_iget k v s1 ino;
          case r of
            Inl e \<Rightarrow> if e = ESTALE then do { s3 \<leftarrow> fs_error k s2; Some (Inl EIO, s3) } else Some (Inl e, s2)
          | Inr i \<Rightarrow> Some (case n_splice_alias nm (Some i) of Some e \<Rightarrow> Inl e | None \<Rightarrow> Inr (Some i), s2) }
        else Some (case n_splice_alias nm None of Some e \<Rightarrow> Inl e | None \<Rightarrow> Inr None, s1) })"

definition kr_get_parent ::
  "kernel \<Rightarrow> vfs \<Rightarrow> pagecache \<Rightarrow> names \<Rightarrow> kr_fs \<Rightarrow> int \<Rightarrow> ((errno + int) \<times> kr_fs) option" where
  "kr_get_parent k v pc nm s child =
     do { (ino, s1) \<leftarrow> kr_inode_by_name k pc s child [0x2E, 0x2E];
          if ino = 0 then Some (Inl ENOENT, s1)
          else do {
            (r, s2) \<leftarrow> fs_iget k v s1 ino;
            Some (case r of Inl e \<Rightarrow> Inl e
                  | Inr i \<Rightarrow> (case n_obtain_alias nm i of Some e \<Rightarrow> Inl e | None \<Rightarrow> Inr i), s2) } }"

section \<open>Model: creating\<close>

definition kr_add_nondir ::
  "kernel \<Rightarrow> vfs \<Rightarrow> pagecache \<Rightarrow> names \<Rightarrow> kr_fs \<Rightarrow> int \<Rightarrow> fname \<Rightarrow> int \<Rightarrow> (errno option \<times> kr_fs) option" where
  "kr_add_nondir k v pc nm s dir name i =
     do { (err, s1) \<leftarrow> kr_add_link k pc s dir name i;
          if err = None then Some (None, s1)
          else do { s2 \<leftarrow> fs_iput k v nm i (inode_dec_link_count i s1); Some (err, s2) } }"

definition kr_create ::
  "kernel \<Rightarrow> vfs \<Rightarrow> pagecache \<Rightarrow> names \<Rightarrow> kr_fs \<Rightarrow> int \<Rightarrow> fname \<Rightarrow> 16 word \<Rightarrow> (errno option \<times> kr_fs) option" where
  "kr_create k v pc nm s dir name mode =
     (case k_dquot_initialize k (f_inode s dir) of Some e \<Rightarrow> Some (Some e, s)
      | None \<Rightarrow> do {
          (r, s1) \<leftarrow> fs_new_inode k v nm s dir mode;
          case r of Inl e \<Rightarrow> Some (Some e, s1)
          | Inr ino \<Rightarrow>
              let s2 = enter_new ino (Some (kr_file_inode_operations, Some (mapping_ops (f_sb s1)))) s1
              in kr_add_nondir k v pc nm s2 dir name (i_ino ino) })"

definition kr_tmpfile ::
  "kernel \<Rightarrow> vfs \<Rightarrow> names \<Rightarrow> kr_fs \<Rightarrow> int \<Rightarrow> 16 word \<Rightarrow> ((errno + int) \<times> kr_fs) option" where
  "kr_tmpfile k v nm s dir mode =
     do { (r, s1) \<leftarrow> fs_new_inode k v nm s dir mode;
          Some (case r of Inl e \<Rightarrow> (Inl e, s1)
                | Inr ino \<Rightarrow>
                    (Inr (i_ino ino),
                     upd_inode (i_ino ino) (n_d_tmpfile nm)
                       (enter_new ino (Some (kr_file_inode_operations, Some (mapping_ops (f_sb s1)))) s1))) }"

text \<open>\<^verbatim>\<open>kr_mknod\<close> leaves the operations that \<^verbatim>\<open>new_inode\<close> gave the inode.\<close>

definition kr_mknod ::
  "kernel \<Rightarrow> vfs \<Rightarrow> pagecache \<Rightarrow> names \<Rightarrow> kr_fs \<Rightarrow> int \<Rightarrow> fname \<Rightarrow> 16 word \<Rightarrow> 32 word \<Rightarrow> (errno option \<times> kr_fs) option" where
  "kr_mknod k v pc nm s dir name mode rdev =
     (case k_dquot_initialize k (f_inode s dir) of Some e \<Rightarrow> Some (Some e, s)
      | None \<Rightarrow> do {
          (r, s1) \<leftarrow> fs_new_inode k v nm s dir mode;
          case r of Inl e \<Rightarrow> Some (Some e, s1)
          | Inr ino \<Rightarrow>
              let s2 = upd_inode (i_ino ino) (\<lambda>x. v_init_special_inode v x (i_mode x) rdev) (enter_new ino None s1)
              in kr_add_nondir k v pc nm s2 dir name (i_ino ino) })"

text \<open>\<^verbatim>\<open>memcpy\<close> into the array of block numbers, whose words are little-endian.\<close>

definition set_byte :: "32 word \<Rightarrow> nat \<Rightarrow> 8 word \<Rightarrow> 32 word" where
  "set_byte w b x = (w AND NOT (push_bit (8 * b) 0xFF)) OR push_bit (8 * b) (ucast x)"

fun put_link :: "nat \<Rightarrow> 8 word list \<Rightarrow> 32 word list \<Rightarrow> 32 word list" where
  "put_link i [] ws = ws"
| "put_link i (b # bs) ws = put_link (Suc i) bs (ws[i div 4 := set_byte (ws ! (i div 4)) (i mod 4) b])"

definition set_fast_link :: "8 word list \<Rightarrow> inode \<Rightarrow> inode" where
  "set_fast_link symname ino =
     ino\<lparr>i_data := put_link 0 (symname @ [0]) (i_data ino), i_size := int (length symname)\<rparr>"

definition kr_symlink ::
  "kernel \<Rightarrow> vfs \<Rightarrow> pagecache \<Rightarrow> names \<Rightarrow> kr_fs \<Rightarrow> int \<Rightarrow> fname \<Rightarrow> 8 word list \<Rightarrow> (errno option \<times> kr_fs) option" where
  "kr_symlink k v pc nm s dir name symname =
     (let l = u32 (int (length symname) + 1) in
      if s_blocksize (f_sb s) < l then Some (Some ENAMETOOLONG, s)
      else
        case k_dquot_initialize k (f_inode s dir) of Some e \<Rightarrow> Some (Some e, s)
        | None \<Rightarrow> do {
            (r, s1) \<leftarrow> fs_new_inode k v nm s dir (S_IFLNK OR S_IRWXUGO);
            case r of Inl e \<Rightarrow> Some (Some e, s1)
            | Inr ino \<Rightarrow>
                if 60 < l then do {
                  let s2 = enter_new ino (Some (kr_symlink_inode_operations, Some (mapping_ops (f_sb s1)))) s1;
                  (err, s3) \<leftarrow> n_page_symlink nm s2 (i_ino ino) (symname @ [0]);
                  if err \<noteq> None then do {
                    s4 \<leftarrow> fs_iput k v nm (i_ino ino) (inode_dec_link_count (i_ino ino) s3);
                    Some (err, s4) }
                  else kr_add_nondir k v pc nm s3 dir name (i_ino ino) }
                else
                  let s2 = enter_new (set_fast_link symname ino) (Some (kr_fast_symlink_inode_operations, None)) s1
                  in kr_add_nondir k v pc nm s2 dir name (i_ino ino) })"

definition kr_link ::
  "kernel \<Rightarrow> pagecache \<Rightarrow> kr_fs \<Rightarrow> int \<Rightarrow> int \<Rightarrow> fname \<Rightarrow> (errno option \<times> kr_fs) option" where
  "kr_link k pc s i dir name =
     (case k_dquot_initialize k (f_inode s dir) of Some e \<Rightarrow> Some (Some e, s)
      | None \<Rightarrow> do {
          (err, s1) \<leftarrow> kr_add_link k pc (inode_inc_link_count i (set_ctime i (k_now k) s)) dir name i;
          Some (err, if err = None then s1 else inode_dec_link_count i s1) })"

text \<open>\<^verbatim>\<open>out_fail\<close> of \<^verbatim>\<open>kr_mkdir\<close>.\<close>

definition mkdir_fail ::
  "kernel \<Rightarrow> vfs \<Rightarrow> names \<Rightarrow> int \<Rightarrow> int \<Rightarrow> errno option \<Rightarrow> kr_fs \<Rightarrow> (errno option \<times> kr_fs) option" where
  "mkdir_fail k v nm dir i err s =
     do { s1 \<leftarrow> fs_iput k v nm i (inode_dec_link_count i (inode_dec_link_count i s));
          Some (err, inode_dec_link_count dir s1) }"

definition kr_mkdir ::
  "kernel \<Rightarrow> vfs \<Rightarrow> pagecache \<Rightarrow> names \<Rightarrow> kr_fs \<Rightarrow> int \<Rightarrow> fname \<Rightarrow> 16 word \<Rightarrow> (errno option \<times> kr_fs) option" where
  "kr_mkdir k v pc nm s dir name mode =
     (case k_dquot_initialize k (f_inode s dir) of Some e \<Rightarrow> Some (Some e, s)
      | None \<Rightarrow> do {
          (r, s1) \<leftarrow> fs_new_inode k v nm (inode_inc_link_count dir s) dir (S_IFDIR OR mode);
          case r of Inl e \<Rightarrow> Some (Some e, inode_dec_link_count dir s1)
          | Inr ino \<Rightarrow> do {
              let i = i_ino ino;
              let s2 = inode_inc_link_count i
                         (enter_new ino (Some (kr_dir_inode_operations, Some (mapping_ops (f_sb s1)))) s1);
              (err, s3) \<leftarrow> kr_make_empty k pc s2 i dir;
              if err \<noteq> None then mkdir_fail k v nm dir i err s3
              else do {
                (err1, s4) \<leftarrow> kr_add_link k pc s3 dir name i;
                if err1 \<noteq> None then mkdir_fail k v nm dir i err1 s4 else Some (None, s4) } } })"

section \<open>Model: removing and renaming\<close>

text \<open>\<open>i\<close> is \<^verbatim>\<open>d_inode(dentry)\<close>.\<close>

definition kr_unlink ::
  "kernel \<Rightarrow> pagecache \<Rightarrow> kr_fs \<Rightarrow> int \<Rightarrow> fname \<Rightarrow> int \<Rightarrow> (errno option \<times> kr_fs) option" where
  "kr_unlink k pc s dir name i =
     (case k_dquot_initialize k (f_inode s dir) of Some e \<Rightarrow> Some (Some e, s)
      | None \<Rightarrow> do {
          (r, s1) \<leftarrow> kr_find_entry k pc s dir name;
          case r of None \<Rightarrow> Some (Some ENOENT, s1)
          | Some de \<Rightarrow> do {
              (err, s2) \<leftarrow> kr_delete_entry k pc s1 dir de;
              Some (err, if err \<noteq> None then s2
                         else inode_dec_link_count i (set_ctime i (i_ctime (f_inode s2 dir)) s2)) } })"

definition kr_rmdir ::
  "kernel \<Rightarrow> pagecache \<Rightarrow> kr_fs \<Rightarrow> int \<Rightarrow> fname \<Rightarrow> int \<Rightarrow> (errno option \<times> kr_fs) option" where
  "kr_rmdir k pc s dir name i =
     do { (empty, s1) \<leftarrow> kr_empty_dir k pc s i;
          if \<not> empty then Some (Some ENOTEMPTY, s1)
          else do {
            (err, s2) \<leftarrow> kr_unlink k pc s1 dir name i;
            Some (err, if err \<noteq> None then s2
                       else inode_dec_link_count dir (inode_dec_link_count i
                              (upd_inode i (\<lambda>ino. ino\<lparr>i_size := 0\<rparr>) s2))) } }"

text \<open>The target of a rename exists: it is replaced. \<open>moved_dir\<close> is \<^verbatim>\<open>dir_de\<close> being set.\<close>

definition rename_over ::
  "kernel \<Rightarrow> pagecache \<Rightarrow> bool \<Rightarrow> int \<Rightarrow> fname \<Rightarrow> int \<Rightarrow> int \<Rightarrow> kr_fs \<Rightarrow> (errno option \<times> kr_fs) option" where
  "rename_over k pc moved_dir new_dir new_name new_i old_i s =
     do { (empty, s1) \<leftarrow> (if moved_dir then kr_empty_dir k pc s new_i else Some (True, s));
          if \<not> empty then Some (Some ENOTEMPTY, s1)
          else do {
            (r, s2) \<leftarrow> kr_find_entry k pc s1 new_dir new_name;
            case r of None \<Rightarrow> Some (Some ENOENT, s2)
            | Some new_de \<Rightarrow> do {
                s3 \<leftarrow> kr_set_link k pc s2 new_dir new_de old_i True;
                let s4 = set_ctime new_i (k_now k) s3;
                let s5 = (if moved_dir then upd_inode new_i (\<lambda>ino. ino\<lparr>i_nlink := i_nlink ino - 1\<rparr>) s4 else s4);
                Some (None, inode_dec_link_count new_i s5) } } }"

definition rename_new ::
  "kernel \<Rightarrow> pagecache \<Rightarrow> bool \<Rightarrow> int \<Rightarrow> fname \<Rightarrow> int \<Rightarrow> kr_fs \<Rightarrow> (errno option \<times> kr_fs) option" where
  "rename_new k pc moved_dir new_dir new_name old_i s =
     do { (err, s1) \<leftarrow> kr_add_link k pc s new_dir new_name old_i;
          Some (err, if err = None \<and> moved_dir then inode_inc_link_count new_dir s1 else s1) }"

text \<open>The second half of a rename: the old name goes, and \<^verbatim>\<open>..\<close> of a moved directory follows.\<close>

definition rename_finish ::
  "kernel \<Rightarrow> pagecache \<Rightarrow> int \<Rightarrow> int \<times> int \<Rightarrow> int \<Rightarrow> int option \<Rightarrow> int \<Rightarrow> kr_fs \<Rightarrow> kr_fs option" where
  "rename_finish k pc old_dir old_de old_i dir_de new_dir s =
     do { (_, s1) \<leftarrow> kr_delete_entry k pc (set_ctime old_i (k_now k) s) old_dir old_de;
          case dir_de of None \<Rightarrow> Some s1
          | Some de \<Rightarrow> do {
              s2 \<leftarrow> (if old_dir \<noteq> new_dir then kr_set_link k pc s1 old_i (0, de) new_dir False else Some s1);
              Some (inode_dec_link_count old_dir s2) } }"

definition kr_rename ::
  "kernel \<Rightarrow> pagecache \<Rightarrow> kr_fs \<Rightarrow> int \<Rightarrow> fname \<Rightarrow> int \<Rightarrow> int \<Rightarrow> fname \<Rightarrow> int option \<Rightarrow> 32 word \<Rightarrow> (errno option \<times> kr_fs) option" where
  "kr_rename k pc s old_dir old_name old_i new_dir new_name new_inode flags =
     (if flags AND NOT RENAME_NOREPLACE \<noteq> 0 then Some (Some EINVAL, s)
      else
        case (case k_dquot_initialize k (f_inode s old_dir) of Some e \<Rightarrow> Some e
              | None \<Rightarrow> k_dquot_initialize k (f_inode s new_dir)) of
          Some e \<Rightarrow> Some (Some e, s)
        | None \<Rightarrow> do {
            (r, s1) \<leftarrow> kr_find_entry k pc s old_dir old_name;
            case r of None \<Rightarrow> Some (Some ENOENT, s1)
            | Some old_de \<Rightarrow> do {
                let is_dir = S_ISDIR (i_mode (f_inode s1 old_i));
                (dir_de, s2) \<leftarrow> (if is_dir then kr_dotdot k pc s1 old_i else Some (None, s1));
                if is_dir \<and> dir_de = None then Some (Some EIO, s2)
                else do {
                  (err, s3) \<leftarrow>
                    (case new_inode of
                       Some new_i \<Rightarrow> rename_over k pc is_dir new_dir new_name new_i old_i s2
                     | None \<Rightarrow> rename_new k pc is_dir new_dir new_name old_i s2);
                  if err \<noteq> None then Some (err, s3)
                  else do {
                    s4 \<leftarrow> rename_finish k pc old_dir old_de old_i dir_de new_dir s3;
                    Some (None, s4) } } } })"

end
