(* ===== verification/Kr_Names.thy ===== *)
theory Kr_Names
  imports Kr_Namei
begin

text \<open>
  What the operations on names do to directories seen as maps from names to inode numbers
  (\<open>dir_map\<close>) and to the link counts (\<open>nlinks\<close>). The invariant \<open>dir_inv\<close> is kept by each of
  them; \<open>names_frame\<close> says which directories an operation leaves alone.
\<close>

section \<open>What the directories of two states have in common\<close>

text \<open>The contents of all directories, and the sizes and kinds of all inodes.\<close>

definition same_contents :: "kr_fs \<Rightarrow> kr_fs \<Rightarrow> bool" where
  "same_contents s s' =
     (kept_sb (f_sb s) (f_sb s') \<and>
      (\<forall>d n. data s' d n = data s d n \<and> p_error (f_page s' d n) = p_error (f_page s d n)) \<and>
      (\<forall>d. i_size (f_inode s' d) = i_size (f_inode s d) \<and> i_blocks (f_inode s' d) = i_blocks (f_inode s d) \<and>
           i_mode (f_inode s' d) = i_mode (f_inode s d) \<and> i_ino (f_inode s' d) = i_ino (f_inode s d)))"

lemma same_contents_trans: "same_contents s s' \<Longrightarrow> same_contents s' s'' \<Longrightarrow> same_contents s s''"
  by (simp add: same_contents_def kept_sb_def)

lemma same_contents_data: "same_data s s' \<Longrightarrow> same_contents s s'"
  by (simp add: same_contents_def same_data_def kept_sb_def)

lemma same_contents_looked_up: "looked_up s d s' \<Longrightarrow> same_contents s s'"
  by (auto simp: looked_up_def same_contents_def same_data_def kept_sb_def upd_inode_def)

lemma same_contents_upd:
  "(\<And>x. i_size (f x) = i_size x \<and> i_blocks (f x) = i_blocks x \<and> i_mode (f x) = i_mode x \<and> i_ino (f x) = i_ino x) \<Longrightarrow>
     same_contents s (upd_inode i f s)"
  by (simp add: same_contents_def upd_inode_def kept_sb_def)

lemma same_contents_counts:
  "same_contents s (inode_inc_link_count i s)" "same_contents s (inode_dec_link_count i s)" "same_contents s (set_ctime i t s)"
  unfolding inode_inc_link_count_def inode_dec_link_count_def set_ctime_def by (rule same_contents_upd; simp)+

lemma same_contentsD:
  assumes "same_contents s s'"
  shows "csize s' = csize s" "max_ino s' = max_ino s" "isize s' d = isize s d" "data s' d n = data s d n"
    "page_limit s' d n = page_limit s d n" "page_entries s' d n = page_entries s d n" "page_list s' d n = page_list s d n"
    "dir_pages s' d = dir_pages s d" "dir_list s' d = dir_list s d" "dir_map s' d = dir_map s d" "dir_ok pc s' d = dir_ok pc s d"
    "covered s' d = covered s d" "page_ok pc s' d n = page_ok pc s d n" "can_grow pc s' d = can_grow pc s d"
    "i_mode (f_inode s' d) = i_mode (f_inode s d)" "i_ino (f_inode s' d) = i_ino (f_inode s d)"
    "linkable s' name d = linkable s name d"
proof -
  have e: "csize s' = csize s" "max_ino s' = max_ino s" "isize s' d = isize s d" "\<And>n. data s' d n = data s d n"
    "\<And>n. p_error (f_page s' d n) = p_error (f_page s d n)" "i_blocks (f_inode s' d) = i_blocks (f_inode s d)"
    "i_mode (f_inode s' d) = i_mode (f_inode s d)" "i_ino (f_inode s' d) = i_ino (f_inode s d)"
    using assms by (simp_all add: same_contents_def kept_sb_def)
  have l: "page_limit s' d = page_limit s d" by (rule ext) (simp add: page_limit_def e)
  have pe: "page_entries s' d = page_entries s d" by (rule ext) (simp add: page_entries_def l e)
  have pl: "page_list s' d = page_list s d" by (rule ext) (simp add: page_list_def pe e)
  have po: "page_ok pc s' d = page_ok pc s d" by (rule ext) (simp add: page_ok_def l pl e)
  have dp: "dir_pages s' d = dir_pages s d" by (simp add: dir_pages_def e)
  show "csize s' = csize s" "max_ino s' = max_ino s" "isize s' d = isize s d" "data s' d n = data s d n"
    "page_limit s' d n = page_limit s d n" "page_entries s' d n = page_entries s d n" "page_list s' d n = page_list s d n"
    "dir_pages s' d = dir_pages s d" "page_ok pc s' d n = page_ok pc s d n"
    "i_mode (f_inode s' d) = i_mode (f_inode s d)" "i_ino (f_inode s' d) = i_ino (f_inode s d)"
    by (simp_all add: e l pe pl po dp)
  show "dir_list s' d = dir_list s d" "dir_map s' d = dir_map s d" "dir_ok pc s' d = dir_ok pc s d" "covered s' d = covered s d"
    "can_grow pc s' d = can_grow pc s d" "linkable s' name d = linkable s name d"
    by (simp_all add: dir_list_def dir_map_def dir_ok_def dir_sized_def covered_def can_grow_def linkable_def known_type_def po pl dp e)
qed

text \<open>The invariant of a directory that names are looked up in.\<close>

definition dir_inv :: "pagecache \<Rightarrow> kr_fs \<Rightarrow> int \<Rightarrow> bool" where
  "dir_inv pc s d = (dir_ok pc s d \<and> covered s d \<and> distinct (map fst (dir_list s d)))"

lemma same_contents_inv: "same_contents s s' \<Longrightarrow> dir_inv pc s' d = dir_inv pc s d"
  by (simp add: dir_inv_def same_contentsD)

text \<open>A change of the directory \<open>d\<close> alone, up to link counts.\<close>

definition nlinks :: "kr_fs \<Rightarrow> int \<Rightarrow> 32 word" where
  "nlinks s i = i_nlink (f_inode s i)"

definition names_frame :: "int set \<Rightarrow> kr_fs \<Rightarrow> kr_fs \<Rightarrow> bool" where
  "names_frame ds s s' =
     (csize s' = csize s \<and> max_ino s' = max_ino s \<and>
      (\<forall>i. i_mode (f_inode s' i) = i_mode (f_inode s i) \<and> i_ino (f_inode s' i) = i_ino (f_inode s i)) \<and>
      (\<forall>d. d \<notin> ds \<longrightarrow> isize s' d = isize s d \<and> i_blocks (f_inode s' d) = i_blocks (f_inode s d) \<and>
          (\<forall>n. data s' d n = data s d n \<and> p_error (f_page s' d n) = p_error (f_page s d n))))"

lemma names_frame_trans: "names_frame A s s' \<Longrightarrow> names_frame B s' s'' \<Longrightarrow> names_frame (A \<union> B) s s''"
  by (simp add: names_frame_def)

lemma names_frame_contents: "same_contents s s' \<Longrightarrow> names_frame ds s s'"
  by (simp add: names_frame_def same_contents_def kept_sb_def)

lemma only_dir_frame: "only_dir s d s' \<Longrightarrow> names_frame {d} s s' \<and> nlinks s' = nlinks s"
proof -
  assume o: "only_dir s d s'"
  have "i_mode (f_inode s' i) = i_mode (f_inode s i) \<and> i_ino (f_inode s' i) = i_ino (f_inode s i) \<and>
        i_nlink (f_inode s' i) = i_nlink (f_inode s i)" for i
    using o by (cases "i = d") (simp_all add: only_dir_def)
  then show ?thesis
    using o by (simp add: names_frame_def only_dir_def kept_sb_def fun_eq_iff nlinks_def)
qed

lemma names_frameD:
  assumes "names_frame ds s s'" "d \<notin> ds"
  shows "data s' d n = data s d n" "page_entries s' d n = page_entries s d n" "dir_pages s' d = dir_pages s d"
    "dir_list s' d = dir_list s d" "dir_map s' d = dir_map s d" "dir_inv pc s' d = dir_inv pc s d" "isize s' d = isize s d"
    "dir_ok pc s' d = dir_ok pc s d"
proof -
  have e: "csize s' = csize s" "max_ino s' = max_ino s" "isize s' d = isize s d" "\<And>n. data s' d n = data s d n"
    "\<And>n. p_error (f_page s' d n) = p_error (f_page s d n)" "i_blocks (f_inode s' d) = i_blocks (f_inode s d)"
    using assms by (simp_all add: names_frame_def)
  have l: "page_limit s' d = page_limit s d" by (rule ext) (simp add: page_limit_def e)
  have pe: "page_entries s' d = page_entries s d" by (rule ext) (simp add: page_entries_def l e)
  have pl: "page_list s' d = page_list s d" by (rule ext) (simp add: page_list_def pe e)
  have dp: "dir_pages s' d = dir_pages s d" by (simp add: dir_pages_def e)
  show "data s' d n = data s d n" "page_entries s' d n = page_entries s d n" "dir_pages s' d = dir_pages s d" "isize s' d = isize s d"
    by (simp_all add: e pe dp)
  show "dir_list s' d = dir_list s d" "dir_map s' d = dir_map s d" "dir_inv pc s' d = dir_inv pc s d" "dir_ok pc s' d = dir_ok pc s d"
    by (simp_all add: dir_list_def dir_map_def dir_inv_def dir_ok_def page_ok_def dir_sized_def covered_def l pl dp e)
qed

lemma nlinks_simps [simp]:
  "nlinks (inode_inc_link_count i s) = (nlinks s)(i := nlinks s i + 1)"
  "nlinks (inode_dec_link_count i s) = (nlinks s)(i := nlinks s i - 1)"
  "nlinks (set_ctime i t s) = nlinks s"
  by (auto simp: nlinks_def inode_inc_link_count_def inode_dec_link_count_def set_ctime_def upd_inode_def)

lemma nlinks_looked_up: "looked_up s d s' \<Longrightarrow> nlinks s' = nlinks s"
  by (auto simp: looked_up_def same_data_def nlinks_def upd_inode_def)

lemma nlinks_data: "same_data s s' \<Longrightarrow> nlinks s' = nlinks s"
  by (simp add: same_data_def nlinks_def fun_eq_iff)

lemma writable_looked_up: "looked_up s d s' \<Longrightarrow> writable k pc s' d' = writable k pc s d'"
  by (cases "d' = d") (auto simp: looked_up_def same_data_def writable_def upd_inode_def)

text \<open>Writing into blocks that are there works, whatever the state.\<close>

definition steady :: "kernel \<Rightarrow> pagecache \<Rightarrow> bool" where
  "steady k pc =
     (\<forall>sb ino pos len. 0 \<le> pos \<and> 0 < len \<and> pos + len \<le> i_size ino \<and> i_size ino \<le> 512 * i_blocks ino \<longrightarrow>
        begin_keeps k pc sb ino pos len)"

lemma steady_rewritable: "steady k pc \<Longrightarrow> covered s d \<Longrightarrow> rewritable k pc s d"
  by (simp add: steady_def rewritable_def covered_def)

text \<open>No error is reported when a directory is written through.\<close>

definition syncs :: "pagecache \<Rightarrow> int \<Rightarrow> bool" where
  "syncs pc d = ((\<forall>n. pc_write_page pc d n = None) \<and> pc_sync_inode pc d = None)"

lemma commit_syncs: "syncs pc d \<Longrightarrow> commit_err pc s d n = None"
  by (simp add: syncs_def commit_err_def)

section \<open>Operations on one directory as operations on a map\<close>

lemma find_named:
  assumes "dir_inv pc s d" "dir_map s d name = Some i"
  obtains n e s' where "kr_find_entry k pc s d name = Some (Some (n, e), s')" "looked_up s d s'"
    "0 \<le> n" "n < dir_pages s d" "e \<in> set (page_entries s d n)" "de_name (data s d n) e = name" "de_inode (data s d n) e = i" "i \<noteq> 0"
proof -
  have ok: "dir_ok pc s d" "blocks_counted s d" using assms(1) covered_counted by (auto simp: dir_inv_def)
  obtain r s' where r: "kr_find_entry k pc s d name = Some (r, s')" "looked_up s d s'"
    "\<forall>n e. r = Some (n, e) \<longrightarrow> 0 \<le> n \<and> n < dir_pages s d \<and> e \<in> set (page_entries s d n) \<and> kr_match name (data s d n) e"
    "r = None \<longleftrightarrow> dir_map s d name = None"
    by (rule kr_find_entry_ok [OF ok, of k name])
  obtain n e where x: "r = Some (n, e)" using r(4) assms(2) by (cases r) auto
  then have f: "0 \<le> n" "n < dir_pages s d" "e \<in> set (page_entries s d n)" "kr_match name (data s d n) e" using r(3) by auto
  have "(name, de_inode (data s d n) e) \<in> set (dir_list s d)" using f by (auto simp: dir_list_iff page_list_match)
  then have "de_inode (data s d n) e = i" using assms by (simp add: dir_inv_def dir_map_def)
  then show thesis using that r(1,2) x f by (simp add: kr_match_iff)
qed

lemma find_unnamed:
  assumes "dir_inv pc s d" "dir_map s d name = None"
  obtains s' where "kr_find_entry k pc s d name = Some (None, s')" "looked_up s d s'"
proof -
  have ok: "dir_ok pc s d" "blocks_counted s d" using assms(1) covered_counted by (auto simp: dir_inv_def)
  obtain r s' where "kr_find_entry k pc s d name = Some (r, s')" "looked_up s d s'" "r = None \<longleftrightarrow> dir_map s d name = None"
    by (rule kr_find_entry_ok [OF ok, of k name])
  then show thesis using that assms(2) by auto
qed

lemma delete_named:
  assumes inv: "dir_inv pc s d" and st: "steady k pc" and n: "0 \<le> n" "n < dir_pages s d" and e: "e \<in> set (page_entries s d n)"
    and nm: "de_name (data s d n) e = name" "de_inode (data s d n) e \<noteq> 0"
  obtains err s' where "kr_delete_entry k pc s d (n, e) = Some (err, s')" "dir_inv pc s' d" "only_dir s d s'"
    "dir_map s' d = (dir_map s d)(name := None)" "syncs pc d \<longrightarrow> err = None"
proof -
  have ok: "dir_ok pc s d" "covered s d" "distinct (map fst (dir_list s d))" using inv by (auto simp: dir_inv_def)
  obtain err s' where r: "kr_delete_entry k pc s d (n, e) = Some (err, s')" "dir_ok pc s' d" "only_dir s d s'"
    "replaced [(de_name (data s d n) e, de_inode (data s d n) e)] [] (dir_list s d) (dir_list s' d)"
    "\<exists>sx. step_of s d n sx \<and> err = commit_err pc sx d n" "covered s d \<longrightarrow> covered s' d"
    by (rule kr_delete_entry_ok [OF ok(1) n e nm(2) steady_rewritable [OF st ok(2)]])
  note rd = replaced_distinct [OF r(4) ok(3)]
  show thesis
    using that [OF r(1) _ r(3)] r(2,5,6) ok(2) rd nm(1) commit_syncs
    by (auto simp: dir_inv_def dir_map_def)
qed

lemma add_new:
  assumes inv: "dir_inv pc s d" and cg: "can_grow pc s d" and lk: "linkable s name i" and wr: "writable k pc s d"
    and new: "name \<notin> dom (dir_map s d)"
  obtains err s' where "kr_add_link k pc s d name i = Some (err, s')" "dir_inv pc s' d" "only_dir s d s'"
    "dir_map s' d = dir_map s d \<and> err \<noteq> None \<or>
     dir_map s' d = (dir_map s d)(name \<mapsto> i_ino (f_inode s i)) \<and> dir_keeps s d s' \<and> (syncs pc d \<longrightarrow> err = None)"
proof -
  have ok: "dir_ok pc s d" "covered s d" "distinct (map fst (dir_list s d))" using inv by (auto simp: dir_inv_def)
  obtain err s' where r: "kr_add_link k pc s d name i = Some (err, s')" "add_result pc s d name (i_ino (f_inode s i)) err s'"
    by (rule kr_add_link_ok [OF ok(1) cg lk wr new])
  have o: "dir_ok pc s' d" "only_dir s d s'" using r(2) by (auto simp: add_result_def)
  have c: "covered s' d" using r(2) ok(2) by (simp add: add_result_def)
  consider "dir_list s' d = dir_list s d" "err \<noteq> None"
    | n sx where "replaced [] [(name, i_ino (f_inode s i))] (dir_list s d) (dir_list s' d)" "dir_keeps s d s'"
        "err = commit_err pc sx d n"
    using r(2) unfolding add_result_def by blast
  then show thesis
  proof cases
    case 1
    then show ?thesis using that [OF r(1) _ o(2)] o(1) c ok(3) by (simp add: dir_inv_def dir_map_def)
  next
    case 2
    note ri = replaced_insert [OF 2(1) ok(3)]
    show ?thesis
      using that [OF r(1) _ o(2)] o(1) c 2 ri new commit_syncs by (auto simp: dir_inv_def dir_map_def)
  qed
qed

lemma set_named:
  assumes inv: "dir_inv pc s d" and st: "steady k pc" and n: "0 \<le> n" "n < dir_pages s d" and e: "e \<in> set (page_entries s d n)"
    and nm: "de_name (data s d n) e = name" "de_inode (data s d n) e \<noteq> 0" and kt: "known_type (f_inode s i)"
    and i: "0 < i_ino (f_inode s i)" "i_ino (f_inode s i) \<le> max_ino s"
  obtains s' where "kr_set_link k pc s d (n, e) i t = Some s'" "dir_inv pc s' d" "only_dir s d s'"
    "dir_map s' d = (dir_map s d)(name \<mapsto> i_ino (f_inode s i))" "dir_pages s d \<le> dir_pages s' d"
    "\<forall>a x. 0 \<le> a \<and> a < dir_pages s d \<and> x \<in> set (page_entries s d a) \<and> (a, x) \<noteq> (n, e) \<longrightarrow>
       x \<in> set (page_entries s' d a) \<and> de_inode (data s' d a) x = de_inode (data s d a) x \<and> de_name (data s' d a) x = de_name (data s d a) x"
proof -
  have ok: "dir_ok pc s d" "covered s d" "distinct (map fst (dir_list s d))" using inv by (auto simp: dir_inv_def)
  obtain s' where r: "kr_set_link k pc s d (n, e) i t = Some s'" "dir_ok pc s' d" "only_dir s d s'"
    "replaced [(de_name (data s d n) e, de_inode (data s d n) e)] [(de_name (data s d n) e, i_ino (f_inode s i))]
       (dir_list s d) (dir_list s' d)" "dir_pages s d \<le> dir_pages s' d"
    "\<forall>a x. 0 \<le> a \<and> a < dir_pages s d \<and> x \<in> set (page_entries s d a) \<and> (a, x) \<noteq> (n, e) \<longrightarrow>
       x \<in> set (page_entries s' d a) \<and> de_inode (data s' d a) x = de_inode (data s d a) x \<and> de_name (data s' d a) x = de_name (data s d a) x"
    "covered s d \<longrightarrow> covered s' d"
    by (rule kr_set_link_ok [OF ok(1) n e nm(2) steady_rewritable [OF st ok(2)] kt i])
  note ru = replaced_update [OF r(4) ok(3)]
  show thesis
    by (rule that [OF r(1) _ r(3) _ r(5,6)]) (use r(2,7) ok(2) ru nm(1) in \<open>auto simp: dir_inv_def dir_map_def\<close>)
qed

section \<open>Unlinking\<close>

lemma kr_unlink_ok:
  assumes inv: "dir_inv pc s dir" and st: "steady k pc" and sy: "syncs pc dir"
    and dq: "k_dquot_initialize k (f_inode s dir) = None" and nm: "dir_map s dir name = Some j"
  obtains s' where "kr_unlink k pc s dir name i = Some (None, s')" "dir_inv pc s' dir"
    "dir_map s' dir = (dir_map s dir)(name := None)" "nlinks s' = (nlinks s)(i := nlinks s i - 1)" "names_frame {dir} s s'"
proof -
  obtain n e s1 where f: "kr_find_entry k pc s dir name = Some (Some (n, e), s1)" "looked_up s dir s1"
    "0 \<le> n" "n < dir_pages s dir" "e \<in> set (page_entries s dir n)" "de_name (data s dir n) e = name" "de_inode (data s dir n) e = j" "j \<noteq> 0"
    by (rule find_named [OF inv nm])
  have sc: "same_contents s s1" using same_contents_looked_up [OF f(2)] .
  note c = same_contentsD [OF sc]
  obtain err s2 where d: "kr_delete_entry k pc s1 dir (n, e) = Some (err, s2)" "dir_inv pc s2 dir" "only_dir s1 dir s2"
    "dir_map s2 dir = (dir_map s1 dir)(name := None)" "syncs pc dir \<longrightarrow> err = None"
    by (rule delete_named [of pc s1 dir k n e name]) (use inv st f same_contents_inv [OF sc] in \<open>auto simp: c\<close>)
  let ?s = "inode_dec_link_count i (set_ctime i (i_ctime (f_inode s2 dir)) s2)"
  have sc2: "same_contents s2 ?s"
    using same_contents_trans [OF same_contents_counts(3) same_contents_counts(2)] .
  have "names_frame ({} \<union> {dir} \<union> {}) s ?s"
    using names_frame_trans [OF names_frame_trans [OF names_frame_contents [OF sc]] names_frame_contents [OF sc2]] only_dir_frame [OF d(3)] by blast
  moreover have "kr_unlink k pc s dir name i = Some (None, ?s)"
    using f(1) d(1,5) sy dq by (simp add: kr_unlink_def)
  ultimately show thesis
    using that [of ?s] d(2,4) only_dir_frame [OF d(3)] nlinks_looked_up [OF f(2)]
    by (simp add: same_contentsD [OF sc2] same_contents_inv [OF sc2] c)
qed

lemma kr_unlink_missing:
  assumes inv: "dir_inv pc s dir" and dq: "k_dquot_initialize k (f_inode s dir) = None" and nm: "dir_map s dir name = None"
  obtains s' where "kr_unlink k pc s dir name i = Some (Some ENOENT, s')" "same_contents s s'" "nlinks s' = nlinks s"
proof -
  obtain s1 where "kr_find_entry k pc s dir name = Some (None, s1)" "looked_up s dir s1"
    by (rule find_unnamed [OF inv nm])
  then show thesis
    using that [of s1] dq same_contents_looked_up nlinks_looked_up by (simp add: kr_unlink_def)
qed

section \<open>Linking\<close>

lemma kr_link_ok:
  assumes inv: "dir_inv pc s dir" and cg: "can_grow pc s dir" and lk: "linkable s name i" and wr: "writable k pc s dir"
    and new: "name \<notin> dom (dir_map s dir)" and ne: "i \<noteq> dir" and dq: "k_dquot_initialize k (f_inode s dir) = None"
  obtains err s' where "kr_link k pc s i dir name = Some (err, s')" "dir_inv pc s' dir" "names_frame {dir} s s'"
    "err \<noteq> None \<and> nlinks s' = nlinks s \<and> (dir_map s' dir = dir_map s dir \<or> \<not> syncs pc dir) \<or>
     err = None \<and> nlinks s' = (nlinks s)(i := nlinks s i + 1) \<and> dir_map s' dir = (dir_map s dir)(name \<mapsto> i_ino (f_inode s i))"
proof -
  let ?s1 = "inode_inc_link_count i (set_ctime i (k_now k) s)"
  have sc: "same_contents s ?s1" using same_contents_trans [OF same_contents_counts(3) same_contents_counts(1)] .
  note c = same_contentsD [OF sc]
  have fi: "f_inode ?s1 dir = f_inode s dir" "f_sb ?s1 = f_sb s"
    using ne by (simp_all add: inode_inc_link_count_def set_ctime_def upd_inode_def)
  have wr1: "writable k pc ?s1 dir" using wr by (simp add: writable_def fi)
  obtain err s2 where a: "kr_add_link k pc ?s1 dir name i = Some (err, s2)" "dir_inv pc s2 dir" "only_dir ?s1 dir s2"
    "dir_map s2 dir = dir_map ?s1 dir \<and> err \<noteq> None \<or>
     dir_map s2 dir = (dir_map ?s1 dir)(name \<mapsto> i_ino (f_inode ?s1 i)) \<and> dir_keeps ?s1 dir s2 \<and> (syncs pc dir \<longrightarrow> err = None)"
    by (rule add_new [of pc ?s1 dir name i k]) (use inv cg lk wr1 new same_contents_inv [OF sc] in \<open>auto simp: c\<close>)
  have nl: "nlinks s2 = (nlinks s)(i := nlinks s i + 1)" using only_dir_frame [OF a(3)] by simp
  have fr: "names_frame ({} \<union> {dir}) s s2"
    using names_frame_trans [OF names_frame_contents [OF sc]] only_dir_frame [OF a(3)] by blast
  let ?s3 = "if err = None then s2 else inode_dec_link_count i s2"
  have sc3: "same_contents s2 ?s3" using same_contents_counts(2) by (simp add: same_contents_def kept_sb_def)
  have "names_frame ({} \<union> {dir} \<union> {}) s ?s3" using names_frame_trans [OF fr names_frame_contents [OF sc3]] .
  moreover have "kr_link k pc s i dir name = Some (err, ?s3)" using a(1) dq by (simp add: kr_link_def)
  ultimately show thesis
    using that [of err ?s3] a(2,4) nl by (auto simp: same_contentsD [OF sc3] same_contents_inv [OF sc3] c)
qed

section \<open>Removing a directory\<close>

lemma empty_size: 
  "names_frame {i} s (upd_inode i (\<lambda>ino. ino\<lparr>i_size := 0\<rparr>) s)"
  "nlinks (upd_inode i (\<lambda>ino. ino\<lparr>i_size := 0\<rparr>) s) = nlinks s"
  by (auto simp: names_frame_def upd_inode_def nlinks_def)

lemma kr_rmdir_not_empty:
  assumes "dir_ok pc s i" "\<not> (\<forall>x\<in>set (dir_list s i). dot_or_dotdot (u32 (i_ino (f_inode s i))) x)"
  obtains s' where "kr_rmdir k pc s dir name i = Some (Some ENOTEMPTY, s')" "same_contents s s'" "nlinks s' = nlinks s"
proof -
  obtain s1 where "kr_empty_dir k pc s i = Some (\<forall>x\<in>set (dir_list s i). dot_or_dotdot (u32 (i_ino (f_inode s i))) x, s1)" "same_data s s1"
    by (rule kr_empty_dir_ok [OF assms(1)])
  then show thesis
    using that [of s1] assms(2) same_contents_data nlinks_data by (simp add: kr_rmdir_def)
qed

lemma kr_rmdir_ok:
  assumes ok: "dir_ok pc s i" and em: "\<forall>x\<in>set (dir_list s i). dot_or_dotdot (u32 (i_ino (f_inode s i))) x"
    and inv: "dir_inv pc s dir" and st: "steady k pc" and sy: "syncs pc dir" and ne: "i \<noteq> dir"
    and dq: "k_dquot_initialize k (f_inode s dir) = None" and nm: "dir_map s dir name = Some j"
  obtains s' where "kr_rmdir k pc s dir name i = Some (None, s')" "dir_inv pc s' dir"
    "dir_map s' dir = (dir_map s dir)(name := None)" "names_frame {dir, i} s s'" "isize s' i = 0"
    "nlinks s' = (nlinks s)(i := nlinks s i - 2, dir := nlinks s dir - 1)"
proof -
  obtain s1 where e0: "kr_empty_dir k pc s i = Some (\<forall>x\<in>set (dir_list s i). dot_or_dotdot (u32 (i_ino (f_inode s i))) x, s1)" "same_data s s1"
    by (rule kr_empty_dir_ok [OF ok])
  have e: "kr_empty_dir k pc s i = Some (True, s1)" "same_data s s1" using e0 em by simp_all
  note c = same_contentsD [OF same_contents_data [OF e(2)]]
  have dq1: "k_dquot_initialize k (f_inode s1 dir) = None" using dq same_dataD(2) [OF e(2)] by simp
  obtain s2 where u: "kr_unlink k pc s1 dir name i = Some (None, s2)" "dir_inv pc s2 dir"
    "dir_map s2 dir = (dir_map s1 dir)(name := None)" "nlinks s2 = (nlinks s1)(i := nlinks s1 i - 1)" "names_frame {dir} s1 s2"
    by (rule kr_unlink_ok [of pc s1 dir k name j i])
       (use inv st sy dq1 nm same_contents_inv [OF same_contents_data [OF e(2)]] in \<open>auto simp: c\<close>)
  let ?s3 = "upd_inode i (\<lambda>ino. ino\<lparr>i_size := 0\<rparr>) s2" and ?s = "inode_dec_link_count dir (inode_dec_link_count i (upd_inode i (\<lambda>ino. ino\<lparr>i_size := 0\<rparr>) s2))"
  note z = empty_size [of i s2]
  have sc: "same_contents ?s3 ?s" by (rule same_contents_trans [OF same_contents_counts(2) same_contents_counts(2)])
  have f3: "names_frame {i} s2 ?s" using names_frame_trans [OF z(1) names_frame_contents [OF sc, of "{}"]] ne by simp
  have "names_frame ({} \<union> {dir} \<union> {i}) s ?s"
    using names_frame_trans [OF names_frame_trans [OF names_frame_contents [OF same_contents_data [OF e(2)]] u(5)] f3] .
  moreover have "dir_inv pc ?s dir" "dir_map ?s dir = (dir_map s dir)(name := None)"
    using names_frameD [OF f3, of dir] ne u(2,3) by (auto simp: c)
  moreover have "isize ?s i = 0" by (simp add: inode_dec_link_count_def upd_inode_def)
  moreover have "nlinks ?s = (nlinks s)(i := nlinks s i - 2, dir := nlinks s dir - 1)"
    using ne u(4) nlinks_data [OF e(2)] z(2) by (auto simp: fun_eq_iff)
  moreover have "kr_rmdir k pc s dir name i = Some (None, ?s)" using e(1) u(1) by (simp add: kr_rmdir_def)
  ultimately show thesis using that [of ?s] by (simp add: insert_commute)
qed

section \<open>Renaming\<close>

text \<open>The entry for a name, by its place.\<close>

definition entry_at :: "kr_fs \<Rightarrow> int \<Rightarrow> fname \<Rightarrow> int \<Rightarrow> int \<times> int \<Rightarrow> bool" where
  "entry_at s d name i x =
     (case x of (n, e) \<Rightarrow>
        0 \<le> n \<and> n < dir_pages s d \<and> e \<in> set (page_entries s d n) \<and> de_name (data s d n) e = name \<and>
        de_inode (data s d n) e = i \<and> i \<noteq> 0)"

lemma entry_at_contents: "same_contents s s' \<Longrightarrow> entry_at s' d name i x = entry_at s d name i x"
  by (simp add: entry_at_def same_contentsD split: prod.splits)

lemma entry_at_frame: "names_frame ds s s' \<Longrightarrow> d \<notin> ds \<Longrightarrow> entry_at s' d name i x = entry_at s d name i x"
  by (simp add: entry_at_def names_frameD split: prod.splits)

text \<open>
  The first half of a rename: the new name leads to the inode, every entry of another name stays
  in its place, and a replaced file has one link less; or nothing has changed.
\<close>

definition half_done ::
  "pagecache \<Rightarrow> kr_fs \<Rightarrow> int \<Rightarrow> fname \<Rightarrow> int option \<Rightarrow> int \<Rightarrow> errno option \<Rightarrow> kr_fs \<Rightarrow> bool" where
  "half_done pc s new_dir new_name new_inode i err s' =
     (dir_inv pc s' new_dir \<and> names_frame {new_dir} s s' \<and>
      (err \<noteq> None \<and> dir_map s' new_dir = dir_map s new_dir \<and> nlinks s' = nlinks s \<or>
       err = None \<and> dir_map s' new_dir = (dir_map s new_dir)(new_name \<mapsto> i) \<and>
       nlinks s' = (case new_inode of None \<Rightarrow> nlinks s | Some j \<Rightarrow> (nlinks s)(j := nlinks s j - 1)) \<and>
       (\<forall>name v x. name \<noteq> new_name \<and> entry_at s new_dir name v x \<longrightarrow> entry_at s' new_dir name v x)))"

lemma rename_new_ok:
  assumes inv: "dir_inv pc s d" and cg: "can_grow pc s d" and lk: "linkable s name i" and wr: "writable k pc s d"
    and new: "dir_map s d name = None" and sy: "syncs pc d"
  obtains err s' where "rename_new k pc False d name i s = Some (err, s')" "half_done pc s d name None (i_ino (f_inode s i)) err s'"
proof -
  obtain err s' where a: "kr_add_link k pc s d name i = Some (err, s')" "dir_inv pc s' d" "only_dir s d s'"
    "dir_map s' d = dir_map s d \<and> err \<noteq> None \<or>
     dir_map s' d = (dir_map s d)(name \<mapsto> i_ino (f_inode s i)) \<and> dir_keeps s d s' \<and> (syncs pc d \<longrightarrow> err = None)"
    by (rule add_new [OF inv cg lk wr]) (use new in auto)
  have "dir_keeps s d s' \<Longrightarrow> entry_at s d nm v x \<Longrightarrow> entry_at s' d nm v x" for nm v x
    by (force simp: dir_keeps_def keeps_entries_def entry_at_def split: prod.splits)
  then have "half_done pc s d name None (i_ino (f_inode s i)) err s'"
    using a(2,4) only_dir_frame [OF a(3)] sy unfolding half_done_def by auto
  then show thesis using that a(1) by (simp add: rename_new_def)
qed

lemma rename_over_ok:
  assumes inv: "dir_inv pc s d" and st: "steady k pc" and old: "dir_map s d name = Some v" and kt: "known_type (f_inode s i)"
    and i: "0 < i_ino (f_inode s i)" "i_ino (f_inode s i) \<le> max_ino s"
  obtains s' where "rename_over k pc False d name j i s = Some (None, s')"
    "half_done pc s d name (Some j) (i_ino (f_inode s i)) None s'"
proof -
  obtain n e s1 where f: "kr_find_entry k pc s d name = Some (Some (n, e), s1)" "looked_up s d s1"
    "0 \<le> n" "n < dir_pages s d" "e \<in> set (page_entries s d n)" "de_name (data s d n) e = name" "de_inode (data s d n) e = v" "v \<noteq> 0"
    by (rule find_named [OF inv old])
  have sc: "same_contents s s1" using same_contents_looked_up [OF f(2)] .
  note c = same_contentsD [OF sc]
  have kt1: "known_type (f_inode s1 i)" using kt c(15) by (simp add: known_type_def)
  obtain s2 where l: "kr_set_link k pc s1 d (n, e) i True = Some s2" "dir_inv pc s2 d" "only_dir s1 d s2"
    "dir_map s2 d = (dir_map s1 d)(name \<mapsto> i_ino (f_inode s1 i))" "dir_pages s1 d \<le> dir_pages s2 d"
    "\<forall>a x. 0 \<le> a \<and> a < dir_pages s1 d \<and> x \<in> set (page_entries s1 d a) \<and> (a, x) \<noteq> (n, e) \<longrightarrow>
       x \<in> set (page_entries s2 d a) \<and> de_inode (data s2 d a) x = de_inode (data s1 d a) x \<and> de_name (data s2 d a) x = de_name (data s1 d a) x"
    by (rule set_named [of pc s1 d k n e name i True])
       (use inv st f kt1 i same_contents_inv [OF sc] in \<open>auto simp: c\<close>)
  let ?s = "inode_dec_link_count j (set_ctime j (k_now k) s2)"
  have sc2: "same_contents s2 ?s" using same_contents_trans [OF same_contents_counts(3) same_contents_counts(2)] .
  have "entry_at s2 d nm w x" if "nm \<noteq> name" "entry_at s d nm w x" for nm w x
  proof -
    obtain a y where x: "x = (a, y)" by (cases x)
    have "(a, y) \<noteq> (n, e)" using that f(6) by (auto simp: entry_at_def x)
    then show ?thesis using that(2) l(5,6) by (auto simp: entry_at_def x c)
  qed
  then have keep: "nm \<noteq> name \<and> entry_at s d nm w x \<longrightarrow> entry_at ?s d nm w x" for nm w x
    by (simp add: entry_at_contents [OF sc2])
  have fr: "names_frame ({} \<union> {d} \<union> {}) s ?s"
    using names_frame_trans [OF names_frame_trans [OF names_frame_contents [OF sc]] names_frame_contents [OF sc2]] only_dir_frame [OF l(3)] by blast
  have "nlinks ?s = (nlinks s)(j := nlinks s j - 1)" using only_dir_frame [OF l(3)] nlinks_looked_up [OF f(2)] by simp
  then have "half_done pc s d name (Some j) (i_ino (f_inode s i)) None ?s"
    using l(2,4) fr keep by (simp add: half_done_def same_contentsD [OF sc2] same_contents_inv [OF sc2] c)
  then show thesis using that f(1) l(1) by (simp add: rename_over_def)
qed

text \<open>The second half, for a file: the old name goes.\<close>

lemma rename_finish_ok:
  assumes inv: "dir_inv pc s d" and st: "steady k pc" and e: "entry_at s d name v x"
  obtains s' where "rename_finish k pc d x i None new_dir s = Some s'" "dir_inv pc s' d" "names_frame {d} s s'"
    "dir_map s' d = (dir_map s d)(name := None)" "nlinks s' = nlinks s"
proof -
  obtain n p where x: "x = (n, p)" by (cases x)
  let ?s = "set_ctime i (k_now k) s"
  have sc: "same_contents s ?s" by (rule same_contents_counts(3))
  note c = same_contentsD [OF sc]
  obtain err s' where r: "kr_delete_entry k pc ?s d (n, p) = Some (err, s')" "dir_inv pc s' d" "only_dir ?s d s'"
    "dir_map s' d = (dir_map ?s d)(name := None)" "syncs pc d \<longrightarrow> err = None"
    by (rule delete_named [of pc ?s d k n p name])
       (use inv st e same_contents_inv [OF sc] in \<open>auto simp: c entry_at_def x\<close>)
  have "names_frame ({} \<union> {d}) s s'" using names_frame_trans [OF names_frame_contents [OF sc]] only_dir_frame [OF r(3)] by blast
  then show thesis
    using that r(1,2,4) only_dir_frame [OF r(3)] by (simp add: rename_finish_def x c)
qed

text \<open>The names of all directories after the rename.\<close>

definition renamed :: "(int \<Rightarrow> fname \<Rightarrow> int option) \<Rightarrow> int \<Rightarrow> fname \<Rightarrow> int \<Rightarrow> fname \<Rightarrow> int \<Rightarrow> int \<Rightarrow> fname \<Rightarrow> int option" where
  "renamed m old_dir old_name new_dir new_name i d name =
     (if d = old_dir \<and> name = old_name then None else if d = new_dir \<and> name = new_name then Some i else m d name)"

lemma kr_rename_file_ok:
  assumes io: "dir_inv pc s old_dir" and inw: "dir_inv pc s new_dir" and st: "steady k pc" and sy: "syncs pc new_dir"
    and cg: "can_grow pc s new_dir" and lk: "linkable s new_name i" and wr: "writable k pc s new_dir"
    and old: "dir_map s old_dir old_name = Some v" and fil: "\<not> S_ISDIR (i_mode (f_inode s i))"
    and target: "new_inode = None \<longleftrightarrow> dir_map s new_dir new_name = None"
    and ne: "(old_dir, old_name) \<noteq> (new_dir, new_name)"
    and dq: "k_dquot_initialize k (f_inode s old_dir) = None" "k_dquot_initialize k (f_inode s new_dir) = None"
    and fl: "flags AND NOT RENAME_NOREPLACE = 0"
  obtains err s' where "kr_rename k pc s old_dir old_name i new_dir new_name new_inode flags = Some (err, s')"
    "dir_inv pc s' old_dir" "dir_inv pc s' new_dir"
    "if err = None
     then dir_map s' = renamed (dir_map s) old_dir old_name new_dir new_name (i_ino (f_inode s i)) \<and>
          nlinks s' = (case new_inode of None \<Rightarrow> nlinks s | Some j \<Rightarrow> (nlinks s)(j := nlinks s j - 1))
     else dir_map s' = dir_map s \<and> nlinks s' = nlinks s"
proof -
  let ?i = "i_ino (f_inode s i)"
  obtain n e s1 where f: "kr_find_entry k pc s old_dir old_name = Some (Some (n, e), s1)" "looked_up s old_dir s1"
    "0 \<le> n" "n < dir_pages s old_dir" "e \<in> set (page_entries s old_dir n)" "de_name (data s old_dir n) e = old_name"
    "de_inode (data s old_dir n) e = v" "v \<noteq> 0"
    by (rule find_named [OF io old])
  have sc: "same_contents s s1" using same_contents_looked_up [OF f(2)] .
  note c = same_contentsD [OF sc]
  have at1: "entry_at s1 old_dir old_name v (n, e)" using f(3-8) by (simp add: entry_at_def c)
  have file1: "\<not> S_ISDIR (i_mode (f_inode s1 i))" using fil c(15) by simp
  have inv1: "dir_inv pc s1 new_dir" "dir_inv pc s1 old_dir" using io inw same_contents_inv [OF sc] by auto
  let ?half = "case new_inode of Some j \<Rightarrow> rename_over k pc False new_dir new_name j i s1 | None \<Rightarrow> rename_new k pc False new_dir new_name i s1"
  have "\<exists>err s2. ?half = Some (err, s2) \<and> half_done pc s1 new_dir new_name new_inode ?i err s2"
  proof (cases new_inode)
    case None
    then have n1: "dir_map s1 new_dir new_name = None" using target by (simp add: c)
    show ?thesis
      by (rule rename_new_ok [OF inv1(1) _ _ _ n1 sy, of i k])
         (use cg lk wr writable_looked_up [OF f(2)] None in \<open>auto simp: c\<close>)
  next
    case (Some j)
    then obtain w where w: "dir_map s1 new_dir new_name = Some w" using target by (auto simp: c)
    have k1: "known_type (f_inode s1 i)" "0 < i_ino (f_inode s1 i)" "i_ino (f_inode s1 i) \<le> max_ino s1"
      using lk c(15,16) by (simp_all add: linkable_def known_type_def c)
    show ?thesis
      by (rule rename_over_ok [OF inv1(1) st w k1, of j]) (use Some c(16) in auto)
  qed
  then obtain err s2 where h: "?half = Some (err, s2)" "half_done pc s1 new_dir new_name new_inode ?i err s2" by blast
  have hh: "(case new_inode of None \<Rightarrow> rename_new k pc False new_dir new_name i s1 | Some j \<Rightarrow> rename_over k pc False new_dir new_name j i s1) = Some (err, s2)"
    using h(1) .
  have fr2: "names_frame {new_dir} s1 s2" "dir_inv pc s2 new_dir" using h(2) by (auto simp: half_done_def)
  have io2: "dir_inv pc s2 old_dir" using names_frameD(6) [OF fr2(1), of old_dir] fr2(2) inv1(2) by (cases "old_dir = new_dir") auto
  have nl1: "nlinks s1 = nlinks s" using nlinks_looked_up [OF f(2)] .
  have m1: "dir_map s1 = dir_map s" by (rule ext) (simp add: c)
  have ren: "kr_rename k pc s old_dir old_name i new_dir new_name new_inode flags =
     (if err \<noteq> None then Some (err, s2)
      else do { s4 \<leftarrow> rename_finish k pc old_dir (n, e) i None new_dir s2; Some (None, s4) })"
    using f(1) dq fl file1 hh by (simp add: kr_rename_def Let_def cong: option.case_cong)
  show thesis
  proof (cases "err = None")
    case False
    then have "dir_map s2 d = dir_map s1 d" for d
      using h(2) names_frameD(5) [OF fr2(1), of d] by (cases "d = new_dir") (auto simp: half_done_def)
    then show ?thesis
      using that [of err s2] False ren io2 fr2(2) h(2) nl1 m1 by (auto simp: half_done_def fun_eq_iff)
  next
    case True
    have at2: "entry_at s2 old_dir old_name v (n, e)"
      using at1 h(2) True ne entry_at_frame [OF fr2(1), of old_dir] by (cases "old_dir = new_dir") (auto simp: half_done_def)
    obtain s4 where r: "rename_finish k pc old_dir (n, e) i None new_dir s2 = Some s4" "dir_inv pc s4 old_dir" "names_frame {old_dir} s2 s4"
      "dir_map s4 old_dir = (dir_map s2 old_dir)(old_name := None)" "nlinks s4 = nlinks s2"
      by (rule rename_finish_ok [OF io2 st at2])
    have m: "dir_map s4 d = renamed (dir_map s) old_dir old_name new_dir new_name ?i d" for d
    proof -
      have "dir_map s2 d = (if d = new_dir then (dir_map s d)(new_name \<mapsto> ?i) else dir_map s d)"
        using h(2) True names_frameD(5) [OF fr2(1), of d] m1 by (auto simp: half_done_def)
      then show ?thesis
        using r(4) names_frameD(5) [OF r(3), of d] ne by (cases "d = old_dir") (auto simp: renamed_def fun_eq_iff)
    qed
    have "dir_inv pc s4 new_dir" using names_frameD(6) [OF r(3), of new_dir] r(2) fr2(2) by (cases "old_dir = new_dir") auto
    moreover have "dir_map s4 = renamed (dir_map s) old_dir old_name new_dir new_name ?i" by (rule ext) (rule m)
    moreover have "nlinks s4 = (case new_inode of None \<Rightarrow> nlinks s | Some j \<Rightarrow> (nlinks s)(j := nlinks s j - 1))"
      using r(5) h(2) True unfolding half_done_def nl1 by simp
    moreover have "kr_rename k pc s old_dir old_name i new_dir new_name new_inode flags = Some (None, s4)"
      using ren True r(1) by simp
    ultimately show ?thesis
      by (intro that [of None s4]) (simp_all add: r(2))
  qed
qed

end
