(* ===== verification/Kr_Dir_Spec.thy ===== *)
theory Kr_Dir_Spec
  imports Kr_Names Kr_File_Example
begin

text \<open>
  The properties of directories and of the operations on names, with an example directory. The
  locale \<open>name_table\<close> states what a directory promises to its users, a finite map from names to
  inode numbers that is read and changed by single calls; it is interpreted on the directory code.
\<close>

section \<open>The interface of a directory\<close>

locale name_table =
  fixes inv :: "'s \<Rightarrow> bool"
    and abs :: "'s \<Rightarrow> 'n \<Rightarrow> 'v option"
    and look :: "'s \<Rightarrow> 'n \<Rightarrow> 'v option \<Rightarrow> 's \<Rightarrow> bool"
    and enter :: "'s \<Rightarrow> 'n \<Rightarrow> 'v \<Rightarrow> 's \<Rightarrow> bool"
    and drop :: "'s \<Rightarrow> 'n \<Rightarrow> 's \<Rightarrow> bool"
  assumes look_law: "inv s \<Longrightarrow> look s n r s' \<Longrightarrow> inv s' \<and> abs s' = abs s \<and> r = abs s n"
    and enter_law: "inv s \<Longrightarrow> abs s n = None \<Longrightarrow> enter s n v s' \<Longrightarrow> inv s' \<and> abs s' = (abs s)(n \<mapsto> v)"
    and drop_law: "inv s \<Longrightarrow> drop s n s' \<Longrightarrow> inv s' \<and> abs s' = (abs s)(n := None)"
begin

lemma enter_look: "inv s \<Longrightarrow> abs s n = None \<Longrightarrow> enter s n v s' \<Longrightarrow> look s' m r s'' \<Longrightarrow> r = (if m = n then Some v else abs s m)"
  using enter_law [of s n v s'] look_law [of s' m r s''] by auto

lemma drop_look: "inv s \<Longrightarrow> drop s n s' \<Longrightarrow> look s' m r s'' \<Longrightarrow> r = (if m = n then None else abs s m)"
  using drop_law [of s n s'] look_law [of s' m r s''] by auto

lemma enter_drop: "inv s \<Longrightarrow> abs s n = None \<Longrightarrow> enter s n v s' \<Longrightarrow> drop s' n s'' \<Longrightarrow> inv s'' \<and> abs s'' = abs s"
  using enter_law [of s n v s'] drop_law [of s' n s''] by auto

end

text \<open>The calls of the directory code, as relations between the states before and after.\<close>

definition name_look :: "kernel \<Rightarrow> pagecache \<Rightarrow> int \<Rightarrow> kr_fs \<Rightarrow> fname \<Rightarrow> int option \<Rightarrow> kr_fs \<Rightarrow> bool" where
  "name_look k pc d s name r s' =
     (\<exists>i. kr_inode_by_name k pc s d name = Some (i, s') \<and> r = (if i = 0 then None else Some i))"

definition name_enter :: "kernel \<Rightarrow> pagecache \<Rightarrow> int \<Rightarrow> kr_fs \<Rightarrow> fname \<Rightarrow> int \<Rightarrow> kr_fs \<Rightarrow> bool" where
  "name_enter k pc d s name v s' =
     (can_grow pc s d \<and> writable k pc s d \<and>
      (\<exists>i. linkable s name i \<and> i_ino (f_inode s i) = v \<and> kr_add_link k pc s d name i = Some (None, s')))"

definition name_drop :: "kernel \<Rightarrow> pagecache \<Rightarrow> int \<Rightarrow> kr_fs \<Rightarrow> fname \<Rightarrow> kr_fs \<Rightarrow> bool" where
  "name_drop k pc d s name s' =
     (steady k pc \<and> (\<exists>de s1. kr_find_entry k pc s d name = Some (Some de, s1) \<and> kr_delete_entry k pc s1 d de = Some (None, s')))"

lemma dir_map_nonzero: "dir_map s d name \<noteq> Some 0"
proof
  assume "dir_map s d name = Some 0"
  then have "(name, 0) \<in> set (dir_list s d)" by (simp add: dir_map_def map_of_SomeD)
  then show False by (auto simp: dir_list_iff page_list_def used_def)
qed

lemma name_look_law:
  assumes "dir_inv pc s d" "name_look k pc d s name r s'"
  shows "dir_inv pc s' d \<and> dir_map s' d = dir_map s d \<and> r = dir_map s d name"
proof -
  have ok: "dir_ok pc s d" "blocks_counted s d" "distinct (map fst (dir_list s d))"
    using assms(1) covered_counted by (auto simp: dir_inv_def)
  obtain s1 where s1: "kr_inode_by_name k pc s d name = Some (case dir_map s d name of None \<Rightarrow> 0 | Some i \<Rightarrow> i, s1)" "looked_up s d s1"
    by (rule kr_inode_by_name_ok [OF ok])
  have sc: "same_contents s s1" using same_contents_looked_up [OF s1(2)] .
  have "s' = s1" "r = dir_map s d name"
    using assms(2) s1(1) dir_map_nonzero [of s d name] by (auto simp: name_look_def split: option.splits)
  then show ?thesis using assms(1) by (simp add: same_contents_inv [OF sc] same_contentsD [OF sc])
qed

lemma name_enter_law:
  assumes inv: "dir_inv pc s d" and new: "dir_map s d name = None" and e: "name_enter k pc d s name v s'"
  shows "dir_inv pc s' d \<and> dir_map s' d = (dir_map s d)(name \<mapsto> v)"
proof -
  obtain i where i: "can_grow pc s d" "writable k pc s d" "linkable s name i" "i_ino (f_inode s i) = v"
    "kr_add_link k pc s d name i = Some (None, s')"
    using e by (auto simp: name_enter_def)
  have "name \<notin> dom (dir_map s d)" using new by auto
  then obtain err s1 where "kr_add_link k pc s d name i = Some (err, s1)" "dir_inv pc s1 d"
    "dir_map s1 d = dir_map s d \<and> err \<noteq> None \<or>
     dir_map s1 d = (dir_map s d)(name \<mapsto> i_ino (f_inode s i)) \<and> dir_keeps s d s1 \<and> (syncs pc d \<longrightarrow> err = None)"
    by (rule add_new [OF inv i(1,3,2)])
  then show ?thesis using i by auto
qed

lemma name_drop_law:
  assumes inv: "dir_inv pc s d" and dr: "name_drop k pc d s name s'"
  shows "dir_inv pc s' d \<and> dir_map s' d = (dir_map s d)(name := None)"
proof -
  obtain de s1 where f: "steady k pc" "kr_find_entry k pc s d name = Some (Some de, s1)" "kr_delete_entry k pc s1 d de = Some (None, s')"
    using dr by (auto simp: name_drop_def)
  show ?thesis
  proof (cases "dir_map s d name")
    case None
    obtain s2 where "kr_find_entry k pc s d name = Some (None, s2)" "looked_up s d s2" by (rule find_unnamed [OF inv None])
    then show ?thesis using f(2) by simp
  next
    case (Some i)
    obtain n e s2 where g: "kr_find_entry k pc s d name = Some (Some (n, e), s2)" "looked_up s d s2"
      "0 \<le> n" "n < dir_pages s d" "e \<in> set (page_entries s d n)" "de_name (data s d n) e = name" "de_inode (data s d n) e = i" "i \<noteq> 0"
      by (rule find_named [OF inv Some])
    have sc: "same_contents s s2" using same_contents_looked_up [OF g(2)] .
    note c = same_contentsD [OF sc]
    obtain err s3 where "kr_delete_entry k pc s2 d (n, e) = Some (err, s3)" "dir_inv pc s3 d" "dir_map s3 d = (dir_map s2 d)(name := None)"
      by (rule delete_named [of pc s2 d k n e name]) (use inv f(1) g same_contents_inv [OF sc] in \<open>auto simp: c\<close>)
    then show ?thesis using f(2,3) g(1) by (simp add: c)
  qed
qed

interpretation kr_names: name_table "\<lambda>s. dir_inv pc s d" "\<lambda>s. dir_map s d" "name_look k pc d" "name_enter k pc d" "name_drop k pc d"
  for k :: kernel and pc :: pagecache and d :: int
  by unfold_locales (use name_look_law name_enter_law name_drop_law in blast)+

section \<open>An example\<close>

text \<open>
  A directory of one block: \<^verbatim>\<open>.\<close> and \<^verbatim>\<open>..\<close>, both inode 2, and \<^verbatim>\<open>a\<close>, inode 5. The page cache
  never fails and counts the blocks of what it is asked to write.
\<close>

definition ex_entries :: "8 word list" where
  "ex_entries =
     [2, 0, 0, 0, 12, 0, 1, 0, 0x2E, 0, 0, 0,
      2, 0, 0, 0, 12, 0, 2, 0, 0x2E, 0x2E, 0, 0,
      5, 0, 0, 0, 0xE8, 3, 1, 0, 0x61, 0, 0, 0]"

definition ex_bytes :: bytes where
  "ex_bytes x = (if 0 \<le> x \<and> x < 36 then ex_entries ! nat x else 0)"

definition ex_root :: inode where
  "ex_root = ex_inode\<lparr>i_ino := 2, i_mode := 0x41ED, i_nlink := 3, i_size := 1024, i_blocks := 2\<rparr>"

definition ex_plain :: inode where
  "ex_plain = ex_inode\<lparr>i_ino := 5, i_mode := 0x81A4, i_nlink := 1, i_size := 0, i_blocks := 0\<rparr>"

definition ex_newdir :: inode where
  "ex_newdir = ex_inode\<lparr>i_ino := 6, i_mode := 0x41ED, i_nlink := 2, i_size := 0, i_blocks := 0\<rparr>"

definition ex_fs :: kr_fs where
  "ex_fs = \<lparr>f_sb = ex_file_sb, f_inode = (\<lambda>i. if i = 2 then ex_root else if i = 6 then ex_newdir else ex_plain),
     f_page = (\<lambda>d n. \<lparr>p_data = (if d = 2 \<and> n = 0 then ex_bytes else (\<lambda>_. 0)), p_checked = False, p_error = False\<rparr>),
     f_version = (\<lambda>_. 1), f_ops = (\<lambda>_. None)\<rparr>"

definition ex_pc :: pagecache where
  "ex_pc = \<lparr>pc_read = (\<lambda>d n. None), pc_grab = (\<lambda>d. True),
     pc_write_begin = (\<lambda>gb sb ino pos len. Some (None, sb, ino\<lparr>i_blocks := max (i_blocks ino) ((pos + len + 511) div 512)\<rparr>)),
     pc_write_page = (\<lambda>d n. None), pc_sync_inode = (\<lambda>d. None)\<rparr>"

lemma ex_inode_sel [simp]:
  "i_size ex_root = 1024" "i_size ex_newdir = 0" "i_ino ex_root = 2" "i_ino ex_newdir = 6" "i_ino ex_plain = 5"
  "i_blocks ex_root = 2" "i_blocks ex_newdir = 0" "i_nlink ex_plain = 1"
  by (simp_all add: ex_root_def ex_newdir_def ex_plain_def)

lemma ex_fs_sel [simp]:
  "csize ex_fs = 1024" "max_ino ex_fs = 8" "f_inode ex_fs 2 = ex_root" "f_inode ex_fs 5 = ex_plain"
  "f_inode ex_fs 6 = ex_newdir" "data ex_fs 2 0 = ex_bytes" "\<not> p_error (f_page ex_fs d n)"
  by (simp_all add: ex_fs_def ex_es_def) (simp add: ex_file_sb_def)

lemma ex_pages [simp]: "dir_pages ex_fs 2 = 1" "page_limit ex_fs 2 0 = 1024"
  by (simp_all add: dir_pages_eq page_limit_def)

lemma ex_begin: "0 \<le> pos \<Longrightarrow> 0 < len \<Longrightarrow> begin_keeps k ex_pc sb ino pos len"
proof -
  have "pos + len \<le> 512 * ((pos + len + 511) div 512)"
    using mult_div_mod_eq [of 512 "pos + len + 511"] pos_mod_bound [of 512 "pos + len + 511"] by linarith
  then have "pos + len \<le> 512 * max (i_blocks ino) ((pos + len + 511) div 512)" by linarith
  then show ?thesis
    unfolding begin_keeps_def ex_pc_def kept_sb_def kept_inode_def by simp
qed

lemma ex_steady: "steady k ex_pc"
  by (simp add: steady_def ex_begin)

lemma ex_writable: "writable k ex_pc s d"
  by (simp add: writable_def ex_begin)

lemma ex_syncs: "syncs ex_pc d"
  by (simp add: syncs_def ex_pc_def)

lemma ex_chain: "chain 1024 8 ex_bytes 0 1024"
proof -
  have "check_loop ex_bytes (2 ^ 10) 8 1024 0 = Inr 1024" by code_simp
  then have "chain (2 ^ 10) 8 ex_bytes 0 1024" by (subst (asm) check_loop_chain) simp_all
  then show ?thesis by simp
qed

lemma ex_listing: "listing ex_bytes 0 1024 = [([0x2E], 2), ([0x2E, 0x2E], 2), ([0x61], 5)]"
  by code_simp

lemma ex_dir_list: "dir_list ex_fs 2 = [([0x2E], 2), ([0x2E, 0x2E], 2), ([0x61], 5)]"
  by (simp add: dir_list_def page_list_def page_entries_def ex_listing)

lemma ex_page_ok: "page_ok ex_pc ex_fs 2 0"
  by (simp add: page_ok_def page_list_def page_entries_def ex_chain ex_listing named_def) (simp add: ex_pc_def)

lemma ex_dir_ok: "dir_ok ex_pc ex_fs 2"
proof -
  have "0 \<le> n \<and> n < 1 \<longleftrightarrow> n = 0" for n :: int by auto
  then show ?thesis using ex_page_ok by (simp add: dir_ok_def dir_sized_def)
qed

lemma ex_dir_inv: "dir_inv ex_pc ex_fs 2"
  by (simp add: dir_inv_def ex_dir_ok ex_dir_list covered_def)

lemma ex_can_grow: "can_grow ex_pc ex_fs 2"
  by (simp add: can_grow_def ex_page_ok)

lemma ex_linkable: "0 < length name \<Longrightarrow> length name < 256 \<Longrightarrow> linkable ex_fs name 5"
  by (simp add: linkable_def known_type_def ex_plain_def)

lemma ex_dir_map: "dir_map ex_fs 2 = [[0x2E] \<mapsto> 2, [0x2E, 0x2E] \<mapsto> 2, [0x61] \<mapsto> 5]"
  by (auto simp: dir_map_def ex_dir_list)


lemma ex_kernel_dquot [simp]: "k_dquot_initialize ex_kernel i = None"
  by (simp add: ex_kernel_def)

section \<open>Reading directories\<close>

text \<open>
  C27. The check that guards every page accepts exactly the pages that are chains of good entries
  up to the end of the directory: each entry is long enough for its name, a multiple of four
  bytes, inside one block and for an inode that exists, and the entries lie end to end.
\<close>

theorem kr_check_page_correct:
  assumes "dir_sized s d" "0 \<le> n" "n \<le> isize s d div PAGE_SIZE"
  shows "map_option fst (kr_check_page k s d n True) =
    Some (chain (csize s) (max_ino s) (data s d n) 0 (page_limit s d n))"
proof (cases "chain (csize s) (max_ino s) (data s d n) 0 (page_limit s d n)")
  case True
  then show ?thesis using kr_check_page_ok [OF assms(1,2) True] by simp
next
  case False
  obtain b where b: "csize s = 2 ^ b" using csize_pow [OF assms(1)] .
  have i: "0 \<le> isize s d" "isize s d < 4294967296" using assms(1) by (auto simp: dir_sized_def)
  have at_end: "u64 (drop_bit PAGE_SHIFT (isize s d)) = n \<longleftrightarrow> isize s d div PAGE_SIZE = n"
    using i by (simp add: c_int drop_bit_eq_div)
  have msk: "isize s d AND (PAGE_SIZE - 1) = isize s d mod PAGE_SIZE"
    using take_bit_eq_mask [of 12 "isize s d"] by (simp add: take_bit_eq_mod mask_eq_exp_minus_1)
  have lim: "(if isize s d div PAGE_SIZE = n then isize s d mod PAGE_SIZE else PAGE_SIZE) = page_limit s d n"
    by (simp add: page_limit_def)
  have nz: "page_limit s d n \<noteq> 0" using False by (auto simp: chain_nil)
  have "check_loop (data s d n) (csize s) (max_ino s) (page_limit s d n) 0 \<noteq> Inr (page_limit s d n)"
    using check_loop_chain [of "page_limit s d n" "data s d n" b "max_ino s" 0] page_limit_ge [OF assms(1) nz]
      page_limit_bounds [OF assms(1), of n] False b by simp
  then show ?thesis
    unfolding kr_check_page_def Let_def at_end msk lim kr_chunk_size_def
    using False nz by (auto simp: check_failed_def split: sum.splits)
qed

theorem kr_check_page_correct_witness:
  "map_option fst (kr_check_page ex_kernel ex_fs 2 0 True) = Some True"
  using kr_check_page_correct [of ex_fs 2 0 ex_kernel] ex_dir_ok ex_chain by (simp add: dir_ok_def)



text \<open>
  C29. Listing a directory from its start, for a reader that takes every entry, reports the names
  in use with their inodes, each once and in order, and ends at the end of the directory.
\<close>

theorem kr_readdir_correct:
  assumes "dir_ok pc s d"
  shows "\<exists>out ver' s'. kr_readdir k pc (\<lambda>_ _. True) s d ver \<lparr>ctx_pos = 0, ctx_out = []\<rparr> =
      Some (None, \<lparr>ctx_pos = isize s d, ctx_out = out\<rparr>, ver', s') \<and>
    map (\<lambda>(name, i, t). (name, i)) out = dir_list s d \<and> dir_list s' d = dir_list s d"
proof -
  obtain ver' s' where "kr_readdir k pc (\<lambda>_ _. True) s d ver \<lparr>ctx_pos = 0, ctx_out = []\<rparr> =
      Some (None, \<lparr>ctx_pos = isize s d, ctx_out = dir_reports s d [0..dir_pages s d - 1]\<rparr>, ver', s')" "same_data s s'"
    by (rule kr_readdir_ok [OF assms])
  then show ?thesis using dir_reports_list [of s d] same_dataD(7) by blast
qed

theorem kr_readdir_correct_witness:
  "\<exists>out ver' s'. kr_readdir ex_kernel ex_pc (\<lambda>_ _. True) ex_fs 2 0 \<lparr>ctx_pos = 0, ctx_out = []\<rparr> =
      Some (None, \<lparr>ctx_pos = 1024, ctx_out = out\<rparr>, ver', s') \<and>
    map (\<lambda>(name, i, t). (name, i)) out = [([0x2E], 2), ([0x2E, 0x2E], 2), ([0x61], 5)]"
  using kr_readdir_correct [OF ex_dir_ok, of ex_kernel 0] by (auto simp: ex_dir_list)

section \<open>Changing directories\<close>

text \<open>
  C30. Adding a name that the directory does not have: the call returns, and afterwards the
  directory maps the name to the inode and every other name to what it was; if the blocks cannot
  be had, nothing changes and an error says so. The directory stays a chain of good entries with
  distinct names, and no other directory changes.
\<close>

theorem kr_add_link_correct:
  assumes "dir_inv pc s d" "can_grow pc s d" "linkable s name i" "writable k pc s d" "syncs pc d" "dir_map s d name = None"
  shows "\<exists>err s'. kr_add_link k pc s d name i = Some (err, s') \<and> dir_inv pc s' d \<and>
    dir_map s' = (if err = None then (dir_map s)(d := (dir_map s d)(name \<mapsto> i_ino (f_inode s i))) else dir_map s) \<and>
    nlinks s' = nlinks s"
proof -
  have new: "name \<notin> dom (dir_map s d)" using assms(6) by auto
  obtain err s' where a: "kr_add_link k pc s d name i = Some (err, s')" "dir_inv pc s' d" "only_dir s d s'"
    "dir_map s' d = dir_map s d \<and> err \<noteq> None \<or>
     dir_map s' d = (dir_map s d)(name \<mapsto> i_ino (f_inode s i)) \<and> dir_keeps s d s' \<and> (syncs pc d \<longrightarrow> err = None)"
    by (rule add_new [OF assms(1-4) new])
  have f: "names_frame {d} s s'" "nlinks s' = nlinks s" using only_dir_frame [OF a(3)] by auto
  have "dir_map s' x = (if err = None then (dir_map s)(d := (dir_map s d)(name \<mapsto> i_ino (f_inode s i))) else dir_map s) x" for x
    using names_frameD(5) [OF f(1), of x] a(4) assms(5) by (cases "x = d") auto
  then have "dir_map s' = (if err = None then (dir_map s)(d := (dir_map s d)(name \<mapsto> i_ino (f_inode s i))) else dir_map s)" by (rule ext)
  then show ?thesis using a(1,2) f(2) by blast
qed

theorem kr_add_link_correct_witness:
  "\<exists>err s'. kr_add_link ex_kernel ex_pc ex_fs 2 [0x62] 5 = Some (err, s') \<and>
    dir_map s' 2 [0x62] = (if err = None then Some 5 else None) \<and> dir_map s' 2 [0x61] = Some 5"
proof -
  have "dir_map ex_fs 2 [0x62] = None" by (simp add: ex_dir_map)
  from kr_add_link_correct [OF ex_dir_inv ex_can_grow ex_linkable ex_writable ex_syncs this, of ex_kernel]
  obtain err s' where "kr_add_link ex_kernel ex_pc ex_fs 2 [0x62] 5 = Some (err, s')"
    "dir_map s' = (if err = None then (dir_map ex_fs)(2 := (dir_map ex_fs 2)([0x62] \<mapsto> 5)) else dir_map ex_fs)"
    by auto
  then show ?thesis by (cases "err = None") (auto simp: ex_dir_map)
qed

text \<open>
  C31. A new directory. If there is memory for the page and its first chunk can be prepared, it holds
  exactly \<^verbatim>\<open>.\<close> for itself and \<^verbatim>\<open>..\<close> for its parent, \<^verbatim>\<open>kr_empty_dir\<close> finds it empty, and the call
  fails only where a directory is written synchronously and writing fails; the entries are in place
  all the same. Without memory the call answers \<^verbatim>\<open>ENOMEM\<close> and nothing changes, and if the chunk
  cannot be prepared it answers the error of that and the directory has no entries.
\<close>

theorem kr_make_empty_correct:
  assumes "csize s \<in> {512, 1024, 2048, 4096}" "isize s d = 0" "parent \<noteq> d"
    and "begin_keeps k pc (f_sb s) (f_inode s d) 0 (csize s)" "pc_read pc d 0 = None" "\<not> p_error (f_page s d 0)"
    and "known_type (f_inode s d)" "0 < i_ino (f_inode s d)" "i_ino (f_inode s d) \<le> max_ino s"
    and "0 < i_ino (f_inode s parent)" "i_ino (f_inode s parent) \<le> max_ino s"
  shows "\<exists>begun err s'. map_option fst (kr_prepare_chunk k pc s d 0 (csize s)) = Some begun \<and>
    kr_make_empty k pc s d parent = Some (err, s') \<and>
    (if \<not> pc_grab pc d then err = Some ENOMEM \<and> s' = s
     else if begun \<noteq> None then err = begun \<and> dir_list s' d = []
     else dir_inv pc s' d \<and> dir_list s' d = [([0x2E], i_ino (f_inode s d)), ([0x2E, 0x2E], i_ino (f_inode s parent))] \<and>
       map_option fst (kr_empty_dir k pc s' d) = Some True \<and>
       err = (if \<not> IS_DIRSYNC (f_sb s') (f_inode s' d) then None
              else case pc_write_page pc d 0 of Some e \<Rightarrow> Some e | None \<Rightarrow> pc_sync_inode pc d))"
proof -
  let ?l = "[([0x2E :: 8 word], i_ino (f_inode s d)), ([0x2E, 0x2E], i_ino (f_inode s parent))]"
  obtain begun err s' where m: "map_option fst (kr_prepare_chunk k pc s d 0 (csize s)) = Some begun"
    "kr_make_empty k pc s d parent = Some (err, s')" "only_dir s d s'"
    "if \<not> pc_grab pc d then err = Some ENOMEM \<and> s' = s
     else if begun \<noteq> None then err = begun \<and> dir_list s' d = [] \<and> isize s' d = 0
     else err = commit_err pc s' d 0 \<and> dir_ok pc s' d \<and> covered s' d \<and> isize s' d = csize s \<and> dir_list s' d = ?l"
    by (rule kr_make_empty_ok [OF assms(1,2,4-7,3,8-11)])
  have i: "u32 (i_ino (f_inode s' d)) = i_ino (f_inode s d)"
    using m(3) assms(8,9) le_less_trans [OF assms(9) uint32_lt] by (simp add: only_dir_def c_int)
  have empty: "map_option fst (kr_empty_dir k pc s' d) = Some True" if ok: "dir_ok pc s' d" and l: "dir_list s' d = ?l"
  proof -
    obtain s2 where "kr_empty_dir k pc s' d = Some (\<forall>x\<in>set (dir_list s' d). dot_or_dotdot (u32 (i_ino (f_inode s' d))) x, s2)"
      by (rule kr_empty_dir_ok [OF ok])
    then show ?thesis by (simp add: l i dot_or_dotdot_def)
  qed
  have inv: "dir_inv pc s' d" if "dir_ok pc s' d" "covered s' d" "dir_list s' d = ?l" using that by (simp add: dir_inv_def)
  show ?thesis
    using m(1,2,4) empty inv
    by (intro exI [of _ begun] exI [of _ err] exI [of _ s']) (auto simp: commit_err_def split: if_splits)
qed

theorem kr_make_empty_correct_witness:
  "\<exists>s'. kr_make_empty ex_kernel ex_pc ex_fs 6 2 = Some (None, s') \<and> dir_inv ex_pc s' 6 \<and> dir_list s' 6 = [([0x2E], 6), ([0x2E, 0x2E], 2)] \<and>
     map_option fst (kr_empty_dir ex_kernel ex_pc s' 6) = Some True"
proof -
  have g: "pc_grab ex_pc 6" "pc_read ex_pc 6 0 = None" "pc_write_page ex_pc 6 0 = None" "pc_sync_inode ex_pc 6 = None" by (simp_all add: ex_pc_def)
  have "known_type ex_newdir" by (simp add: known_type_def ex_newdir_def)
  moreover have "map_option fst (kr_prepare_chunk ex_kernel ex_pc ex_fs 6 0 (csize ex_fs)) = Some None"
    by (simp add: kr_prepare_chunk_def ex_pc_def)
  ultimately show ?thesis
    using kr_make_empty_correct [of ex_fs 6 2 ex_kernel ex_pc] g ex_begin [of 0 "csize ex_fs"] by (auto split: if_splits)
qed

section \<open>Names\<close>

lemma ex_nlinks: "nlinks ex_fs 5 = 1" "nlinks ex_fs 2 = 3"
  by (simp_all add: nlinks_def ex_root_def)



text \<open>
  C33. A second name for a file and its removal again: if the link is made, unlinking it returns
  without error and leaves all names and link counts as they were; if the link fails, they are as
  they were already.
\<close>

theorem link_unlink_round_trip:
  assumes "dir_inv pc s dir" "can_grow pc s dir" "linkable s name i" "writable k pc s dir" "dir_map s dir name = None"
    and "i \<noteq> dir" "steady k pc" "syncs pc dir" "\<forall>x. k_dquot_initialize k x = None"
  shows "\<exists>err s1. kr_link k pc s i dir name = Some (err, s1) \<and>
    (if err = None
     then dir_map s1 dir name = Some (i_ino (f_inode s i)) \<and> nlinks s1 i = nlinks s i + 1 \<and>
       (\<exists>s2. kr_unlink k pc s1 dir name i = Some (None, s2) \<and> dir_inv pc s2 dir \<and> dir_map s2 = dir_map s \<and> nlinks s2 = nlinks s)
     else dir_inv pc s1 dir \<and> dir_map s1 = dir_map s \<and> nlinks s1 = nlinks s)"
proof -
  have new: "name \<notin> dom (dir_map s dir)" using assms(5) by auto
  have dq: "k_dquot_initialize k x = None" for x using assms(9) by blast
  obtain err s1 where l: "kr_link k pc s i dir name = Some (err, s1)" "dir_inv pc s1 dir" "names_frame {dir} s s1"
    "err \<noteq> None \<and> nlinks s1 = nlinks s \<and> (dir_map s1 dir = dir_map s dir \<or> \<not> syncs pc dir) \<or>
     err = None \<and> nlinks s1 = (nlinks s)(i := nlinks s i + 1) \<and> dir_map s1 dir = (dir_map s dir)(name \<mapsto> i_ino (f_inode s i))"
    by (rule kr_link_ok [OF assms(1-4) new assms(6) dq])
  have oth: "d \<noteq> dir \<Longrightarrow> dir_map s1 d = dir_map s d" for d using names_frameD(5) [OF l(3)] by simp
  show ?thesis
  proof (cases "err = None")
    case False
    then have "dir_map s1 d = dir_map s d" for d using l(4) assms(8) oth by (cases "d = dir") auto
    then show ?thesis using l(1,2,4) False by auto
  next
    case True
    then have m: "nlinks s1 = (nlinks s)(i := nlinks s i + 1)" "dir_map s1 dir = (dir_map s dir)(name \<mapsto> i_ino (f_inode s i))"
      using l(4) by auto
    have m2: "dir_map s1 dir name = Some (i_ino (f_inode s i))" using m(2) by simp
    obtain s2 where u: "kr_unlink k pc s1 dir name i = Some (None, s2)" "dir_inv pc s2 dir"
      "dir_map s2 dir = (dir_map s1 dir)(name := None)" "nlinks s2 = (nlinks s1)(i := nlinks s1 i - 1)" "names_frame {dir} s1 s2"
      by (rule kr_unlink_ok [OF l(2) assms(7,8) dq m2])
    have "dir_map s2 dir = dir_map s dir" using u(3) m(2) assms(5) by (auto simp: fun_eq_iff)
    then have "dir_map s2 d = dir_map s d" for d using names_frameD(5) [OF u(5)] oth by (cases "d = dir") auto
    then have "dir_map s2 = dir_map s" "nlinks s2 = nlinks s" using u(4) m(1) by auto
    then show ?thesis using l(1) True u(1,2) m by auto
  qed
qed

theorem link_unlink_round_trip_witness:
  "\<exists>err s1. kr_link ex_kernel ex_pc ex_fs 5 2 [0x62] = Some (err, s1) \<and>
    (err = None \<longrightarrow> dir_map s1 2 [0x62] = Some 5 \<and> nlinks s1 5 = 2)"
proof -
  have "dir_map ex_fs 2 [0x62] = None" by (simp add: ex_dir_map)
  from link_unlink_round_trip [OF ex_dir_inv ex_can_grow ex_linkable ex_writable this _ ex_steady ex_syncs, of ex_kernel]
  show ?thesis by (fastforce simp: ex_nlinks split: if_splits)
qed

text \<open>
  C34. Removing a directory. One that holds more than \<^verbatim>\<open>.\<close> and \<^verbatim>\<open>..\<close> is refused with
  \<^verbatim>\<open>ENOTEMPTY\<close>, and nothing changes. An empty one loses its name, its size and its two links,
  and its parent the link that \<^verbatim>\<open>..\<close> was.
\<close>

theorem kr_rmdir_correct:
  assumes "dir_ok pc s i" "dir_inv pc s dir" "steady k pc" "syncs pc dir" "i \<noteq> dir"
    and "k_dquot_initialize k (f_inode s dir) = None" "dir_map s dir name \<noteq> None"
  shows "\<exists>err s'. kr_rmdir k pc s dir name i = Some (err, s') \<and> dir_inv pc s' dir \<and>
    (if \<forall>x\<in>set (dir_list s i). dot_or_dotdot (u32 (i_ino (f_inode s i))) x
     then err = None \<and> dir_map s' dir = (dir_map s dir)(name := None) \<and> isize s' i = 0 \<and>
       nlinks s' = (nlinks s)(i := nlinks s i - 2, dir := nlinks s dir - 1)
     else err = Some ENOTEMPTY \<and> dir_map s' = dir_map s \<and> nlinks s' = nlinks s)"
proof (cases "\<forall>x\<in>set (dir_list s i). dot_or_dotdot (u32 (i_ino (f_inode s i))) x")
  case True
  obtain j where "dir_map s dir name = Some j" using assms(7) by auto
  then obtain s' where "kr_rmdir k pc s dir name i = Some (None, s')" "dir_inv pc s' dir"
    "dir_map s' dir = (dir_map s dir)(name := None)" "isize s' i = 0" "nlinks s' = (nlinks s)(i := nlinks s i - 2, dir := nlinks s dir - 1)"
    by (rule kr_rmdir_ok [OF assms(1) True assms(2-6)])
  then show ?thesis using True by (intro exI conjI) (assumption | simp)+
next
  case False
  obtain s' where r: "kr_rmdir k pc s dir name i = Some (Some ENOTEMPTY, s')" "same_contents s s'" "nlinks s' = nlinks s"
    by (rule kr_rmdir_not_empty [OF assms(1) False])
  have "dir_map s' = dir_map s" by (rule ext) (rule same_contentsD(10) [OF r(2)])
  then show ?thesis using r False assms(2) same_contents_inv [OF r(2)] by (simp only: if_False) blast
qed

theorem kr_rmdir_correct_witness:
  "\<exists>err s'. kr_rmdir ex_kernel ex_pc ex_fs 2 [0x61] 6 = Some (err, s') \<and> dir_inv ex_pc s' 2 \<and> dir_map s' 2 [0x61] = None \<and> nlinks s' 2 = 2"
proof -
  have ok: "dir_ok ex_pc ex_fs 6" by (auto simp: dir_ok_def dir_sized_def dir_pages_eq)
  have "dir_list ex_fs 6 = []" by (simp add: dir_list_def dir_pages_eq)
  then show ?thesis
    using kr_rmdir_correct [OF ok ex_dir_inv ex_steady ex_syncs, of ex_kernel "[0x61]"] by (fastforce simp: ex_dir_map ex_nlinks)
qed

text \<open>
  C35. Renaming a file. If the call succeeds, the old name is gone, the new name leads to the file,
  whether or not the two directories are the same one, and every other name of every directory is
  as before; a file that the new name led to has one link less. If it fails, no name and no link
  count has changed.
\<close>

theorem kr_rename_correct:
  assumes "dir_inv pc s old_dir" "dir_inv pc s new_dir" "steady k pc" "syncs pc new_dir" "can_grow pc s new_dir"
    and "linkable s new_name i" "writable k pc s new_dir" "dir_map s old_dir old_name = Some v"
    and "\<not> S_ISDIR (i_mode (f_inode s i))" "new_inode = None \<longleftrightarrow> dir_map s new_dir new_name = None"
    and "(old_dir, old_name) \<noteq> (new_dir, new_name)"
    and "k_dquot_initialize k (f_inode s old_dir) = None" "k_dquot_initialize k (f_inode s new_dir) = None"
    and "flags AND NOT RENAME_NOREPLACE = 0"
  shows "\<exists>err s'. kr_rename k pc s old_dir old_name i new_dir new_name new_inode flags = Some (err, s') \<and>
    dir_inv pc s' old_dir \<and> dir_inv pc s' new_dir \<and>
    (if err = None
     then dir_map s' = renamed (dir_map s) old_dir old_name new_dir new_name (i_ino (f_inode s i)) \<and>
          nlinks s' = (case new_inode of None \<Rightarrow> nlinks s | Some j \<Rightarrow> (nlinks s)(j := nlinks s j - 1))
     else dir_map s' = dir_map s \<and> nlinks s' = nlinks s)"
proof -
  obtain err s' where "kr_rename k pc s old_dir old_name i new_dir new_name new_inode flags = Some (err, s')"
    "dir_inv pc s' old_dir" "dir_inv pc s' new_dir"
    "if err = None
     then dir_map s' = renamed (dir_map s) old_dir old_name new_dir new_name (i_ino (f_inode s i)) \<and>
          nlinks s' = (case new_inode of None \<Rightarrow> nlinks s | Some j \<Rightarrow> (nlinks s)(j := nlinks s j - 1))
     else dir_map s' = dir_map s \<and> nlinks s' = nlinks s"
    by (rule kr_rename_file_ok [OF assms])
  then show ?thesis by blast
qed

theorem kr_rename_correct_witness:
  "\<exists>err s'. kr_rename ex_kernel ex_pc ex_fs 2 [0x61] 5 2 [0x62] None 0 = Some (err, s') \<and>
    dir_map s' 2 [0x62] = (if err = None then Some 5 else None) \<and> dir_map s' 2 [0x61] = (if err = None then None else Some 5)"
proof -
  have "dir_map ex_fs 2 [0x61] = Some 5" "None = (None :: int option) \<longleftrightarrow> dir_map ex_fs 2 [0x62] = None" by (simp_all add: ex_dir_map)
  moreover have "\<not> S_ISDIR (i_mode (f_inode ex_fs 5))" by (simp add: ex_plain_def S_ISDIR_def)
  ultimately have "\<exists>err s'. kr_rename ex_kernel ex_pc ex_fs 2 [0x61] 5 2 [0x62] None 0 = Some (err, s') \<and>
    (if err = None then dir_map s' = renamed (dir_map ex_fs) 2 [0x61] 2 [0x62] 5 else dir_map s' = dir_map ex_fs)"
    using kr_rename_correct [OF ex_dir_inv ex_dir_inv ex_steady ex_syncs ex_can_grow ex_linkable ex_writable,
        where k = ex_kernel and old_name = "[0x61]" and new_name = "[0x62]" and v = 5 and new_inode = None and flags = 0] by fastforce
  then obtain err s' where r: "kr_rename ex_kernel ex_pc ex_fs 2 [0x61] 5 2 [0x62] None 0 = Some (err, s')"
    "if err = None then dir_map s' = renamed (dir_map ex_fs) 2 [0x61] 2 [0x62] 5 else dir_map s' = dir_map ex_fs" by blast
  then show ?thesis by (cases "err = None") (auto simp: renamed_def ex_dir_map)
qed

section \<open>What the code gets wrong\<close>

text \<open>
  When a directory is written through and the write fails, \<^verbatim>\<open>kr_add_link\<close> returns the error with
  the entry in place. \<^verbatim>\<open>kr_add_nondir\<close> and \<^verbatim>\<open>kr_mkdir\<close> then give up the inode that the entry
  names.
\<close>

definition ex_sync_fs :: kr_fs where
  "ex_sync_fs = ex_fs\<lparr>f_sb := ex_file_sb\<lparr>s_flags := MS_DIRSYNC\<rparr>\<rparr>"

definition ex_bad_pc :: pagecache where
  "ex_bad_pc = ex_pc\<lparr>pc_write_page := (\<lambda>d n. Some EIO)\<rparr>"

lemma failed_sync_leaves_entry:
  "(case kr_add_link ex_kernel ex_bad_pc ex_sync_fs 2 [0x62] 5 of
      None \<Rightarrow> False
    | Some (err, s') \<Rightarrow> err = Some EIO \<and> map_option fst (kr_inode_by_name ex_kernel ex_bad_pc s' 2 [0x62]) = Some 5)"
  by code_simp

text \<open>
  \<^verbatim>\<open>kr_dotdot\<close> takes the entry after the first one without asking whether there is one. In a
  directory whose first entry fills the page it points past the page, and moving the directory
  stores there.
\<close>

lemma dotdot_past_page:
  assumes "dir_ok pc s d" "0 < dir_pages s d" "kr_rec_len_from_disk (data s d 0) 0 = PAGE_SIZE"
  shows "\<exists>s'. kr_dotdot k pc s d = Some (Some PAGE_SIZE, s') \<and> kr_set_link k pc s' d (0, PAGE_SIZE) parent t = None"
proof -
  have "dir_sized s d" "page_ok pc s d 0" using assms(1,2) by (auto simp: dir_ok_def)
  obtain s' where "kr_get_page k pc s d 0 False = Some (None, s')" "same_data s s'"
    by (rule kr_get_page_ok [of s d 0 pc k False]) (use \<open>dir_sized s d\<close> \<open>page_ok pc s d 0\<close> in auto)
  then show ?thesis
    using assms(3) by (simp add: kr_dotdot_def kr_next_entry_def kr_set_link_def same_dataD)
qed

text \<open>
  An entry in use with an empty name passes the check, and gets a length of eight bytes, which the
  check refuses, when \<^verbatim>\<open>kr_add_link\<close> takes the room behind it.
\<close>

definition ex_nameless :: bytes where
  "ex_nameless = put16 4 1024 (put32 0 5 (\<lambda>_. 0))"

lemma nameless_entry_breaks_page:
  "check_loop ex_nameless 1024 8 1024 0 = Inr 1024 \<and>
   (case add_fill ex_file_sb ex_plain [0x62] 0 1024 (KR_DIR_REC_LEN 0) ex_nameless of
      None \<Rightarrow> False | Some q \<Rightarrow> check_loop q 1024 8 1024 0 = Inl Eshort)"
  by code_simp

text \<open>The table of file types has no entry for the type 15, which a damaged inode can have.\<close>

lemma type_table_too_short:
  assumes "KR_HAS_INCOMPAT_FEATURE sb KR_FEATURE_INCOMPAT_FILETYPE" "i_mode ino AND S_IFMT = S_IFMT"
  shows "kr_set_de_type sb ino de p = None"
  using assms by (simp add: kr_set_de_type_def kr_type_by_mode_def Let_def)

end
