(* ===== verification/Kr_Mount.thy ===== *)
theory Kr_Mount
  imports Kr_Namei Kr_Options Kr_Inode_Disk
begin

text \<open>
  Mounting (\<^verbatim>\<open>kr_fill_super\<close> of \<^verbatim>\<open>super.c\<close>): finding and reading the super block, the options, the
  checks of its fields, the geometry computed from them, the group descriptors, the reservation
  tree, the counters and the root inode. The function is cut at the points where its stages
  begin; every stage returns the errno with which the function leaves.

  \<^item> What the device and the memory answer is in the record \<open>device\<close>. A super block is found by
    block size, block and offset in the block, the descriptors by block size and block.
  \<^item> \<^verbatim>\<open>ret\<close> stays \<^verbatim>\<open>EINVAL\<close> on every path but two, also when memory is short.
  \<^item> A failed mount frees what it has made, so that only the errno is left of it. Warnings, locks
    and the tables of operations are not state of the model.
  \<^item> A shift by 32 or more bits has no value in C: \<^term>\<open>None\<close>.

  The lemmas show what a successful mount establishes: the geometry, the loaded and checked
  descriptors, the empty reservation tree and the counters that the allocators rely on.
\<close>

section \<open>Model: the device\<close>

datatype mount_memory = SbInfo | GroupLock | GroupDescs | Debts

record device =
  d_memory :: "mount_memory \<Rightarrow> bool"             \<comment> \<open>the allocation succeeds\<close>
  d_min_blocksize :: int                        \<comment> \<open>\<^verbatim>\<open>sb_min_blocksize(sb, BLOCK_SIZE)\<close>\<close>
  d_set_blocksize :: "int \<Rightarrow> bool"              \<comment> \<open>\<^verbatim>\<open>sb_set_blocksize\<close> accepts the size\<close>
  d_super :: "int \<Rightarrow> int \<Rightarrow> int \<Rightarrow> kr_super_block option"
  d_b_size :: "int \<Rightarrow> int"                      \<comment> \<open>\<^verbatim>\<open>b_size\<close> of a buffer, by block size\<close>
  d_descs :: "int \<Rightarrow> int \<Rightarrow> kr_group_desc list option"
  d_bitmap :: "int \<Rightarrow> bitmap"
  d_ind :: "int \<Rightarrow> 32 word list"
  d_inode :: "int \<Rightarrow> int \<Rightarrow> kr_inode"
  d_counter :: "nat \<Rightarrow> errno option"            \<comment> \<open>\<^verbatim>\<open>percpu_counter_init\<close> of the three counters\<close>
  d_dax :: "int \<Rightarrow> errno option"                \<comment> \<open>\<^verbatim>\<open>bdev_dax_supported\<close>\<close>
  d_make_root :: bool                           \<comment> \<open>\<^verbatim>\<open>d_make_root\<close> succeeds\<close>

abbreviation (input) BLOCK_SIZE :: int where "BLOCK_SIZE \<equiv> 1024"
abbreviation (input) KR_MIN_FRAG_SIZE :: int where "KR_MIN_FRAG_SIZE \<equiv> 1024"

text \<open>The kernel's arithmetic: the position of the highest bit, and the test for one bit.\<close>

fun ilog2 :: "nat \<Rightarrow> nat" where
  "ilog2 n = (if n < 2 then 0 else Suc (ilog2 (n div 2)))"

declare ilog2.simps [simp del]

definition is_power_of_2 :: "int \<Rightarrow> bool" where
  "is_power_of_2 n = (n \<noteq> 0 \<and> n AND (n - 1) = 0)"

text \<open>\<^verbatim>\<open>c << log\<close> for an \<^verbatim>\<open>int\<close> \<open>c\<close>.\<close>

definition int_shift :: "int \<Rightarrow> 32 word \<Rightarrow> int option" where
  "int_shift c log = (if 31 < uint log then None else Some (s32 (push_bit (unat log) c)))"

definition with_blocksize :: "int \<Rightarrow> super_block \<Rightarrow> super_block" where
  "with_blocksize bs sb = sb\<lparr>s_blocksize := bs, s_blocksize_bits := ilog2 (nat bs)\<rparr>"

section \<open>Model: the stages of a mount\<close>

definition zero_sbi :: kr_sb_info where
  "zero_sbi = \<lparr>s_frag_size = 0, s_frags_per_block = 0, s_inodes_per_block = 0, s_frags_per_group = 0,
      s_blocks_per_group = 0, s_inodes_per_group = 0, s_itb_per_group = 0, s_gdb_count = 0,
      s_desc_per_block = 0, s_groups_count = 0, s_overhead_last = 0, s_blocks_last = 0,
      s_mount_opt = 0, s_sb_block = 0, s_resuid = 0, s_resgid = 0, s_mount_state = 0,
      s_addr_per_block_bits = 0, s_desc_per_block_bits = 0, s_inode_size = 0, s_first_ino = 0,
      s_next_generation = 0, s_debts = [], s_freeblocks_counter = 0, s_freeinodes_counter = 0,
      s_dirs_counter = 0\<rparr>"

definition no_window :: kr_reserve_window_node where
  "no_window = \<lparr>rsv_goal_size = 0, rsv_alloc_hit = 0, rsv_start = KR_RESERVE_WINDOW_NOT_ALLOCATED,
     rsv_end = KR_RESERVE_WINDOW_NOT_ALLOCATED\<rparr>"

text \<open>The block of the super block and the offset in it, for a block size.\<close>

definition super_place :: "int \<Rightarrow> int \<Rightarrow> int \<times> int" where
  "super_place sb_block bs = (u64 (sb_block * BLOCK_SIZE) div bs, u64 (sb_block * BLOCK_SIZE) mod bs)"

text \<open>
  Up to the first look at the super block. The result has the block of the super block; what the
  buffers hold comes from the device, and no file has a window yet.
\<close>

definition fill_open :: "device \<Rightarrow> int \<Rightarrow> super_block \<Rightarrow> errno + (int \<times> super_block)" where
  "fill_open d sb_block sb =
     (if \<not> d_memory d SbInfo \<or> \<not> d_memory d GroupLock then Inl EINVAL
      else
        let blocksize = d_min_blocksize d in
        if blocksize = 0 then Inl EINVAL
        else
          let (logic_sb_block, offset) =
                (if blocksize \<noteq> BLOCK_SIZE then super_place sb_block blocksize else (sb_block, 0))
          in case d_super d blocksize logic_sb_block offset of
               None \<Rightarrow> Inl EINVAL
             | Some e \<Rightarrow>
                 if uint (es_magic e) \<noteq> EXT2_SUPER_MAGIC then Inl EINVAL
                 else Inr (logic_sb_block,
                   (with_blocksize blocksize sb)\<lparr>sbi := zero_sbi\<lparr>s_sb_block := sb_block\<rparr>, es := e,
                      b_data := d_bitmap d, b_ind := d_ind d, b_inode := d_inode d, rsv_node := (\<lambda>_. no_window)\<rparr>))"

definition fill_options :: "parser \<Rightarrow> string option \<Rightarrow> super_block \<Rightarrow> errno + super_block" where
  "fill_options ps opts sb =
     (case parse_options ps opts (sb\<lparr>sbi := default_options (es sb) (sbi sb)\<rparr>) of
        (False, _) \<Rightarrow> Inl EINVAL
      | (True, sb1) \<Rightarrow>
          let sb2 = sb1\<lparr>s_flags := (s_flags sb1 AND NOT MS_POSIXACL) OR
                         (if s_mount_opt (sbi sb1) AND KR_MOUNT_POSIX_ACL \<noteq> 0 then MS_POSIXACL else 0)\<rparr>
          in if KR_HAS_INCOMPAT_FEATURE sb2 (NOT KR_FEATURE_INCOMPAT_SUPP) then Inl EINVAL
             else if \<not> sb_rdonly sb2 \<and> KR_HAS_RO_COMPAT_FEATURE sb2 (NOT KR_FEATURE_RO_COMPAT_SUPP)
             then Inl EINVAL
             else Inr sb2)"

text \<open>The block size of the file system; if it is not the current one, the super block is read again.\<close>

definition fill_blocksize ::
  "device \<Rightarrow> int \<Rightarrow> int \<Rightarrow> super_block \<Rightarrow> (errno + int \<times> int \<times> super_block) option" where
  "fill_blocksize d sb_block logic_sb_block sb =
     do { blocksize \<leftarrow> int_shift BLOCK_SIZE (es_log_block_size (es sb));
          if s_mount_opt (sbi sb) AND KR_MOUNT_DAX \<noteq> 0 \<and> d_dax d blocksize \<noteq> None then Some (Inl EINVAL)
          else if s_blocksize sb \<noteq> u64 blocksize then
            if \<not> d_set_blocksize d blocksize then Some (Inl EINVAL)
            else
              let (logic, offset) = super_place sb_block (u64 blocksize) in
              Some (case d_super d blocksize logic offset of
                      None \<Rightarrow> Inl EINVAL
                    | Some e \<Rightarrow>
                        if uint (es_magic e) \<noteq> EXT2_SUPER_MAGIC then Inl EINVAL
                        else Inr (blocksize, logic, (with_blocksize blocksize sb)\<lparr>es := e\<rparr>))
          else Some (Inr (blocksize, logic_sb_block, sb)) }"

definition fill_inode_size :: "int \<Rightarrow> kr_super_block \<Rightarrow> kr_sb_info \<Rightarrow> kr_sb_info option" where
  "fill_inode_size blocksize e si =
     (if uint (es_rev_level e) = KR_GOOD_OLD_REV
      then Some (si\<lparr>s_inode_size := KR_GOOD_OLD_INODE_SIZE, s_first_ino := KR_GOOD_OLD_FIRST_INO\<rparr>)
      else
        let isz = uint (es_inode_size e) in
        if isz < KR_GOOD_OLD_INODE_SIZE \<or> \<not> is_power_of_2 isz \<or> blocksize < isz then None
        else Some (si\<lparr>s_inode_size := isz, s_first_ino := s32 (uint (es_first_ino e))\<rparr>))"

text \<open>
  The geometry. \<^verbatim>\<open>sb->s_magic\<close>, which the code compares once more here, has not changed.
\<close>

definition fill_geometry :: "device \<Rightarrow> int \<Rightarrow> super_block \<Rightarrow> (errno + super_block) option" where
  "fill_geometry d blocksize sb =
     (let e = es sb; bs = s_blocksize sb in
      case fill_inode_size blocksize e (sbi sb) of None \<Rightarrow> Some (Inl EINVAL)
      | Some si \<Rightarrow> do {
          frag0 \<leftarrow> int_shift KR_MIN_FRAG_SIZE (es_log_frag_size e);
          let frag = u64 frag0;
          if frag = 0 then Some (Inl EINVAL)
          else
            let bpg = uint (es_blocks_per_group e); fpg = uint (es_frags_per_group e); ipg = uint (es_inodes_per_group e) in
            if s_inode_size si = 0 then Some (Inl EINVAL)
            else
              let ipb = bs div s_inode_size si in
              if ipb = 0 \<or> ipg = 0 then Some (Inl EINVAL)
              else if bs \<noteq> d_b_size d bs \<or> bs \<noteq> frag \<or> bs * 8 < bpg \<or> bs * 8 < fpg \<or> bs * 8 < ipg \<or> bpg = 0
              then Some (Inl EINVAL)
              else Some (Inr (sb\<lparr>s_maxbytes := kr_max_size (s_blocksize_bits sb),
                sbi := si\<lparr>s_frag_size := frag, s_frags_per_block := bs div frag, s_blocks_per_group := bpg,
                  s_frags_per_group := fpg, s_inodes_per_group := ipg, s_inodes_per_block := ipb,
                  s_itb_per_group := ipg div ipb, s_desc_per_block := bs div 32, s_mount_state := es_state e,
                  s_addr_per_block_bits := ilog2 (nat (bs div 4)), s_desc_per_block_bits := ilog2 (nat (bs div 32)),
                  s_groups_count :=
                    u32 (uint (es_blocks_count e) - uint (es_first_data_block e) - 1) div bpg + 1\<rparr>\<rparr>)) })"

text \<open>The loop over the descriptor blocks, \<open>n\<close> left from \<open>i\<close>; the inner \<^term>\<open>None\<close> is a failed read.\<close>

fun read_descs :: "device \<Rightarrow> super_block \<Rightarrow> int \<Rightarrow> nat \<Rightarrow> int \<Rightarrow> kr_group_desc list option list option option" where
  "read_descs d sb logic_sb_block 0 i = Some (Some [])"
| "read_descs d sb logic_sb_block (Suc n) i =
     do { block \<leftarrow> descriptor_loc sb logic_sb_block i;
          case d_descs d (s_blocksize sb) block of None \<Rightarrow> Some None
          | Some ds \<Rightarrow> do {
              rest \<leftarrow> read_descs d sb logic_sb_block n (i + 1);
              Some (map_option ((#) (Some ds)) rest) } }"

definition fill_groups :: "kernel \<Rightarrow> device \<Rightarrow> int \<Rightarrow> super_block \<Rightarrow> (errno + super_block) option" where
  "fill_groups k d logic_sb_block sb =
     (let groups = s_groups_count (sbi sb);
          db_count = s32 ((groups + KR_DESC_PER_BLOCK sb - 1) div KR_DESC_PER_BLOCK sb) in
      if \<not> d_memory d GroupDescs \<or> \<not> d_memory d Debts then Some (Inl EINVAL)
      else do {
        descs \<leftarrow> read_descs d sb logic_sb_block (nat db_count) 0;
        case descs of None \<Rightarrow> Some (Inl EINVAL)
        | Some ds \<Rightarrow> do {
            (ok, sb1) \<leftarrow> kr_check_descriptors k
                (sb\<lparr>s_group_desc := ds, sbi := (sbi sb)\<lparr>s_debts := replicate (nat groups) 0\<rparr>\<rparr>);
            Some (if \<not> ok then Inl EINVAL
                  else Inr (sb1\<lparr>sbi := (sbi sb1)\<lparr>s_gdb_count := db_count, s_next_generation := k_random k\<rparr>\<rparr>)) } })"

definition fill_windows :: "kernel \<Rightarrow> super_block \<Rightarrow> super_block option" where
  "fill_windows k sb =
     kr_rsv_window_add k (sb\<lparr>s_rsv_window_root := Leaf, rsv_node := (rsv_node sb)(RsvHead := no_window)\<rparr>) RsvHead"

definition fill_counters :: "kernel \<Rightarrow> device \<Rightarrow> super_block \<Rightarrow> (errno + super_block) option" where
  "fill_counters k d sb =
     do { (fb, sb1) \<leftarrow> kr_count_free_blocks (kr_error k) sb;
          if d_counter d 0 \<noteq> None then Some (Inl EINVAL)
          else do {
            let sb2 = sb1\<lparr>sbi := (sbi sb1)\<lparr>s_freeblocks_counter := s64 fb\<rparr>\<rparr>;
            (fi, sb3) \<leftarrow> kr_count_free_inodes (kr_error k) sb2;
            if d_counter d 1 \<noteq> None then Some (Inl EINVAL)
            else do {
              let sb4 = sb3\<lparr>sbi := (sbi sb3)\<lparr>s_freeinodes_counter := s64 fi\<rparr>\<rparr>;
              (dirs, sb5) \<leftarrow> kr_count_dirs (kr_error k) sb4;
              if d_counter d 2 \<noteq> None then Some (Inl EINVAL)
              else Some (Inr (sb5\<lparr>sbi := (sbi sb5)\<lparr>s_dirs_counter := s64 dirs\<rparr>\<rparr>)) } } }"

text \<open>The root inode, and the last changes of the super block.\<close>

definition fill_root ::
  "kernel \<Rightarrow> vfs \<Rightarrow> names \<Rightarrow> device \<Rightarrow> super_block \<Rightarrow> (errno + inode \<times> super_block) option" where
  "fill_root k v nm d sb =
     do { (r, sb1) \<leftarrow> kr_iget k v sb KR_ROOT_INO;
          case r of Inl e \<Rightarrow> Some (Inl e)
          | Inr (root, _) \<Rightarrow>
              if \<not> S_ISDIR (i_mode root) \<or> i_blocks root = 0 \<or> i_size root = 0
              then do { _ \<leftarrow> n_iput nm (kr_evict_inode k v) sb1 root; Some (Inl EINVAL) }
              else if \<not> d_make_root d then Some (Inl ENOMEM)
              else do {
                let (res, _, sb2) = kr_setup_super k sb1 (sb_rdonly sb1);
                sb3 \<leftarrow> kr_write_super k (if res then sb2\<lparr>s_flags := s_flags sb2 OR MS_RDONLY\<rparr> else sb2);
                Some (Inr (root, sb3)) } }"

definition fill_mounted ::
  "kernel \<Rightarrow> vfs \<Rightarrow> names \<Rightarrow> device \<Rightarrow> super_block \<Rightarrow> (errno + inode \<times> super_block) option" where
  "fill_mounted k v nm d sb =
     do { sb1 \<leftarrow> fill_windows k sb;
          r \<leftarrow> fill_counters k d sb1;
          case r of Inl e \<Rightarrow> Some (Inl e) | Inr sb2 \<Rightarrow> fill_root k v nm d sb2 }"

definition kr_fill_super ::
  "kernel \<Rightarrow> vfs \<Rightarrow> names \<Rightarrow> parser \<Rightarrow> device \<Rightarrow> string option \<Rightarrow> super_block \<Rightarrow> (errno + inode \<times> super_block) option" where
  "kr_fill_super k v nm ps d mount_data sb =
     (case get_sb_block ps mount_data of (sb_block, opts) \<Rightarrow>
      case fill_open d sb_block sb of Inl e \<Rightarrow> Some (Inl e)
      | Inr (logic0, sb1) \<Rightarrow>
      case fill_options ps opts sb1 of Inl e \<Rightarrow> Some (Inl e)
      | Inr sb2 \<Rightarrow> do {
          r3 \<leftarrow> fill_blocksize d sb_block logic0 sb2;
          case r3 of Inl e \<Rightarrow> Some (Inl e)
          | Inr (blocksize, logic, sb3) \<Rightarrow> do {
              r4 \<leftarrow> fill_geometry d blocksize sb3;
              case r4 of Inl e \<Rightarrow> Some (Inl e)
              | Inr sb4 \<Rightarrow> do {
                  r5 \<leftarrow> fill_groups k d logic sb4;
                  case r5 of Inl e \<Rightarrow> Some (Inl e)
                  | Inr sb5 \<Rightarrow> fill_mounted k v nm d sb5 } } })"

section \<open>Powers of two\<close>

lemma ilog2_power [simp]: "ilog2 (2 ^ n) = n"
proof (induction n)
  case 0
  then show ?case by (subst ilog2.simps) simp
next
  case (Suc n)
  have "\<not> (2 :: nat) ^ Suc n < 2" using one_le_power [of "2 :: nat" n] by simp
  then show ?case using Suc by (subst ilog2.simps) simp
qed

lemma is_power_of_2_power:
  assumes "is_power_of_2 n" "0 < n"
  obtains m where "n = 2 ^ m"
proof -
  have "n AND (n - 1) = 0" "0 < n" using assms by (auto simp: is_power_of_2_def)
  then have "\<exists>m. n = 2 ^ m"
  proof (induction "nat n" arbitrary: n rule: less_induct)
    case less
    show ?case
    proof (cases "even n")
      case True
      then obtain q where q: "n = 2 * q" by blast
      have "(2 * q - 1) div 2 = q - 1" by presburger
      then have "2 * q AND (2 * q - 1) = 2 * (q AND (q - 1))" by (subst and_rec) simp
      then have "q AND (q - 1) = 0" "0 < q" using less.prems q by auto
      then obtain m where "q = 2 ^ m" using less.hyps [of q] q by auto
      then have "n = 2 ^ Suc m" using q by simp
      then show ?thesis by blast
    next
      case False
      then obtain q where q: "n = 2 * q + 1" by (elim oddE)
      have "(2 * q + 1) AND (2 * q) = 2 * q" by (subst and_rec) simp
      then have "n = 2 ^ 0" using less.prems q by simp
      then show ?thesis by blast
    qed
  qed
  then show ?thesis using that by blast
qed

lemma power_divides:
  assumes "(2 :: int) ^ m \<le> 2 ^ n"
  shows "(2 ^ n div 2 ^ m) * 2 ^ m = (2 :: int) ^ n"
proof -
  have "m \<le> n" using assms by simp
  then have "(2 :: int) ^ m dvd 2 ^ n" by (rule le_imp_power_dvd)
  then show ?thesis by simp
qed

section \<open>What the device promises\<close>

text \<open>
  The buffer cache works with blocks of 512 to 4096 bytes; \<^verbatim>\<open>sb_min_blocksize\<close> is asked for 1024
  at least. A block of descriptors is full of them.
\<close>

definition device_ok :: "device \<Rightarrow> bool" where
  "device_ok d =
     (d_min_blocksize d \<in> {0, 1024, 2048, 4096} \<and>
      (\<forall>b. d_set_blocksize d b \<longrightarrow> b \<in> {512, 1024, 2048, 4096}) \<and>
      (\<forall>bs b ds. d_descs d bs b = Some ds \<longrightarrow> int (length ds) = bs div 32))"

text \<open>The block size is one the device accepts, with its logarithm.\<close>

definition sized :: "super_block \<Rightarrow> bool" where
  "sized sb =
     (s_blocksize sb \<in> {1024, 2048, 4096} \<and> s_blocksize_bits sb = ilog2 (nat (s_blocksize sb)))"

definition fresh_windows :: "super_block \<Rightarrow> bool" where
  "fresh_windows sb = (rsv_node sb = (\<lambda>_. no_window))"

lemma fill_open_ok:
  assumes "device_ok d" "fill_open d sb_block sb = Inr (logic, sb')"
  shows "sized sb'" "fresh_windows sb'"
  using assms
  by (auto simp: fill_open_def Let_def device_ok_def sized_def fresh_windows_def with_blocksize_def
      split: if_splits option.splits prod.splits)

lemma fill_options_ok:
  assumes "fill_options ps opts sb = Inr sb'"
  shows "s_blocksize sb' = s_blocksize sb" "s_blocksize_bits sb' = s_blocksize_bits sb" "rsv_node sb' = rsv_node sb" "es sb' = es sb"
  using assms
  by (auto simp: fill_options_def Let_def parse_options_def split: if_splits prod.splits bool.splits)

lemma int_shift_block:
  assumes "int_shift BLOCK_SIZE log = Some b"
  shows "b \<noteq> 512" "- 2147483648 \<le> b" "b < 2147483648"
proof -
  have b: "b = s32 (2 ^ unat log * 1024)" using assms by (auto simp: int_shift_def push_bit_eq_mult mult.commute split: if_splits)
  show "- 2147483648 \<le> b" "b < 2147483648" unfolding b s32_def by (simp_all add: pos_mod_bound)
  define y where "y = (2 ^ unat log :: int)"
  have "(y * 1024 + 2147483648) mod 4294967296 mod 1024 = 0" by (subst mod_mod_cancel) (simp_all add: mod_add_eq [symmetric])
  then show "b \<noteq> 512" unfolding b s32_def y_def [symmetric] by auto
qed

lemma fill_blocksize_ok:
  assumes "device_ok d" "sized sb" "fill_blocksize d sb_block logic0 sb = Some (Inr (blocksize, logic, sb'))"
  shows "sized sb'" "s_blocksize sb' = blocksize" "rsv_node sb' = rsv_node sb"
proof -
  obtain b where b: "int_shift BLOCK_SIZE (es_log_block_size (es sb)) = Some b"
    using assms(3) by (auto simp: fill_blocksize_def split: bind_splits)
  note n = int_shift_block [OF b]
  have "u64 b = (if 0 \<le> b then b else b + 18446744073709551616)"
  proof (cases "0 \<le> b")
    case False
    have "u64 b = (b + 18446744073709551616) mod 18446744073709551616" by (simp add: u64_def)
    also have "\<dots> = b + 18446744073709551616" by (rule mod_pos_pos_trivial) (use False n(2,3) in linarith)+
    finally show ?thesis using False by simp
  qed (use n(2,3) in \<open>simp add: u64_id\<close>)
  then have e: "s_blocksize sb = u64 b \<Longrightarrow> s_blocksize sb = b"
    using n(2,3) assms(2) by (auto simp: sized_def split: if_splits)
  show "sized sb'" "s_blocksize sb' = blocksize" "rsv_node sb' = rsv_node sb"
    using assms b n(1) e
    by (auto simp: fill_blocksize_def Let_def device_ok_def sized_def with_blocksize_def
        split: if_splits option.splits prod.splits)
qed

section \<open>The geometry\<close>

text \<open>What the checks of the super block leave of its possible values.\<close>

definition mount_geometry :: "super_block \<Rightarrow> bool" where
  "mount_geometry sb =
     (let bs = s_blocksize sb; si = sbi sb; e = es sb in
      0 < s_blocks_per_group si \<and> s_blocks_per_group si \<le> bs * 8 \<and> 0 < s_inodes_per_group si \<and> s_inodes_per_group si \<le> bs * 8 \<and>
      s_blocks_per_group si = uint (es_blocks_per_group e) \<and>
      0 < s_inodes_per_block si \<and> 0 < s_inode_size si \<and> s_inodes_per_block si * s_inode_size si = bs \<and>
      s_itb_per_group si = s_inodes_per_group si div s_inodes_per_block si \<and>
      s_desc_per_block si = bs div 32 \<and> s_desc_per_block_bits si = ilog2 (nat (bs div 32)) \<and>
      s_addr_per_block_bits si = ilog2 (nat (bs div 4)) \<and>
      s_groups_count si = u32 (uint (es_blocks_count e) - uint (es_first_data_block e) - 1) div s_blocks_per_group si + 1)"

lemma fill_inode_size_ok:
  assumes "fill_inode_size bs e si = Some si'" "bs \<in> {1024, 2048, 4096}"
  shows "0 < s_inode_size si'" "0 < bs div s_inode_size si'" "(bs div s_inode_size si') * s_inode_size si' = bs"
proof -
  obtain n where n: "bs = 2 ^ n"
  proof -
    have "bs = 2 ^ 10 \<or> bs = 2 ^ 11 \<or> bs = 2 ^ 12" using assms(2) by auto
    then show thesis using that by blast
  qed
  have "\<exists>m. s_inode_size si' = 2 ^ m \<and> (2 :: int) ^ m \<le> bs"
  proof (cases "uint (es_rev_level e) = 0")
    case True
    then have "s_inode_size si' = 2 ^ 7" using assms(1) by (auto simp: fill_inode_size_def)
    moreover have "(2 :: int) ^ 7 \<le> bs" using assms(2) by auto
    ultimately show ?thesis by blast
  next
    case False
    then have s: "s_inode_size si' = uint (es_inode_size e)" "128 \<le> uint (es_inode_size e)" "is_power_of_2 (uint (es_inode_size e))"
      "uint (es_inode_size e) \<le> bs"
      using assms(1) by (auto simp: fill_inode_size_def Let_def split: if_splits)
    have "0 < uint (es_inode_size e)" using s(2) by linarith
    then obtain m where "uint (es_inode_size e) = 2 ^ m" using is_power_of_2_power s(3) by blast
    then show ?thesis using s(1,4) by auto
  qed
  then obtain m where m: "s_inode_size si' = 2 ^ m" "(2 :: int) ^ m \<le> bs" by blast
  show "0 < s_inode_size si'" using m by simp
  show "(bs div s_inode_size si') * s_inode_size si' = bs" using power_divides [of m n] m n by simp
  show "0 < bs div s_inode_size si'" using m by (simp add: pos_imp_zdiv_pos_iff)
qed

lemma fill_geometry_ok:
  assumes "sized sb" "s_blocksize sb = blocksize" "fill_geometry d blocksize sb = Some (Inr sb')"
  shows "sized sb'" "mount_geometry sb'" "rsv_node sb' = rsv_node sb" "es sb' = es sb"
proof -
  let ?e = "es sb" and ?bs = "s_blocksize sb"
  obtain si where si: "fill_inode_size blocksize ?e (sbi sb) = Some si"
    using assms(3) by (auto simp: fill_geometry_def Let_def split: option.splits)
  have bs: "?bs \<in> {1024, 2048, 4096}" using assms(1) by (simp add: sized_def)
  note i = fill_inode_size_ok [OF si [folded assms(2)] bs]
  obtain frag where f: "int_shift KR_MIN_FRAG_SIZE (es_log_frag_size ?e) = Some frag"
    using assms(3) si by (auto simp: fill_geometry_def Let_def split: bind_splits)
  have c: "uint (es_blocks_per_group ?e) \<noteq> 0" "uint (es_inodes_per_group ?e) \<noteq> 0" "uint (es_blocks_per_group ?e) \<le> ?bs * 8"
    "uint (es_inodes_per_group ?e) \<le> ?bs * 8"
    using assms(3) si f by (simp_all add: fill_geometry_def Let_def not_less split: if_splits)
  have p: "0 < uint (es_blocks_per_group ?e)" "0 < uint (es_inodes_per_group ?e)"
    using c(1,2) uint_ge_0 [of "es_blocks_per_group ?e"] uint_ge_0 [of "es_inodes_per_group ?e"] by linarith+
  have sb': "sb' = sb\<lparr>s_maxbytes := kr_max_size (s_blocksize_bits sb),
      sbi := si\<lparr>s_frag_size := u64 frag, s_frags_per_block := ?bs div u64 frag, s_blocks_per_group := uint (es_blocks_per_group ?e),
        s_frags_per_group := uint (es_frags_per_group ?e), s_inodes_per_group := uint (es_inodes_per_group ?e),
        s_inodes_per_block := ?bs div s_inode_size si, s_itb_per_group := uint (es_inodes_per_group ?e) div (?bs div s_inode_size si),
        s_desc_per_block := ?bs div 32, s_mount_state := es_state ?e,
        s_addr_per_block_bits := ilog2 (nat (?bs div 4)), s_desc_per_block_bits := ilog2 (nat (?bs div 32)),
        s_groups_count := u32 (uint (es_blocks_count ?e) - uint (es_first_data_block ?e) - 1) div uint (es_blocks_per_group ?e) + 1\<rparr>\<rparr>"
    using assms(3) si f by (simp add: fill_geometry_def Let_def split: if_splits)
  show "sized sb'" using assms(1) by (simp add: sb' sized_def)
  show "rsv_node sb' = rsv_node sb" "es sb' = es sb" by (simp_all add: sb')
  show "mount_geometry sb'" using i p c(3,4) by (simp add: sb' mount_geometry_def)
qed

lemma sized_bits:
  assumes "sized sb"
  obtains n where "n \<in> {10, 11, 12}" "s_blocksize sb = 2 ^ n" "s_blocksize_bits sb = n"
    "ilog2 (nat (s_blocksize sb div 4)) = n - 2" "s_blocksize sb div 4 = 2 ^ (n - 2)"
    "ilog2 (nat (s_blocksize sb div 32)) = n - 5" "s_blocksize sb div 32 = 2 ^ (n - 5)"
proof -
  have l: "ilog2 32 = 5" "ilog2 64 = 6" "ilog2 128 = 7" "ilog2 256 = 8" "ilog2 512 = 9" "ilog2 1024 = 10" "ilog2 2048 = 11" "ilog2 4096 = 12"
    using ilog2_power [of 5] ilog2_power [of 6] ilog2_power [of 7] ilog2_power [of 8] ilog2_power [of 9]
      ilog2_power [of 10] ilog2_power [of 11] ilog2_power [of 12] by simp_all
  consider "s_blocksize sb = 1024" | "s_blocksize sb = 2048" | "s_blocksize sb = 4096" using assms by (auto simp: sized_def)
  then show thesis
  proof cases
    case 1
    show ?thesis by (rule that [of 10]) (use assms 1 l in \<open>simp_all add: sized_def\<close>)
  next
    case 2
    show ?thesis by (rule that [of 11]) (use assms 2 l in \<open>simp_all add: sized_def\<close>)
  next
    case 3
    show ?thesis by (rule that [of 12]) (use assms 3 l in \<open>simp_all add: sized_def\<close>)
  qed
qed

lemma mount_tables:
  assumes "sized sb" "mount_geometry sb"
  shows "addr_ok sb" "KR_DESC_PER_BLOCK sb = 2 ^ s_desc_per_block_bits (sbi sb)"
    "s_itb_per_group (sbi sb) * s_inodes_per_block (sbi sb) = KR_INODES_PER_GROUP sb \<Longrightarrow> itable_ok sb"
proof -
  obtain n where n: "n \<in> {10, 11, 12}" "s_blocksize sb = 2 ^ n" "s_blocksize_bits sb = n"
    "ilog2 (nat (s_blocksize sb div 4)) = n - 2" "s_blocksize sb div 4 = 2 ^ (n - 2)"
    "ilog2 (nat (s_blocksize sb div 32)) = n - 5" "s_blocksize sb div 32 = 2 ^ (n - 5)"
    by (rule sized_bits [OF assms(1)])
  have m: "s_addr_per_block_bits (sbi sb) = ilog2 (nat (s_blocksize sb div 4))" "KR_DESC_PER_BLOCK sb = s_blocksize sb div 32"
    "s_desc_per_block_bits (sbi sb) = ilog2 (nat (s_blocksize sb div 32))"
    using assms(2) by (simp_all add: mount_geometry_def Let_def)
  have g: "s_addr_per_block_bits (sbi sb) = n - 2" "KR_DESC_PER_BLOCK sb = 2 ^ (n - 5)" "s_desc_per_block_bits (sbi sb) = n - 5"
    using m n(4-7) by (simp_all only:)
  show "addr_ok sb" using g(1) n(1,5) by (auto simp: addr_ok_def KR_ADDR_PER_BLOCK_def)
  show "KR_DESC_PER_BLOCK sb = 2 ^ s_desc_per_block_bits (sbi sb)" using g by simp
  have "s_blocksize sb \<le> 65536" using assms(1) by (auto simp: sized_def)
  moreover have "s_blocksize sb = 2 ^ s_blocksize_bits sb" using n(2,3) by simp
  moreover have "0 < s_inode_size (sbi sb)" "0 < s_inodes_per_block (sbi sb)"
    "s_inodes_per_block (sbi sb) * s_inode_size (sbi sb) = s_blocksize sb"
    using assms(2) by (simp_all add: mount_geometry_def Let_def)
  ultimately show "itable_ok sb" if "s_itb_per_group (sbi sb) * s_inodes_per_block (sbi sb) = KR_INODES_PER_GROUP sb"
    using that unfolding itable_ok_def by blast
qed

section \<open>The group descriptors\<close>

text \<open>The stages that follow leave the layout of the file system as it is.\<close>

definition same_layout :: "super_block \<Rightarrow> super_block \<Rightarrow> bool" where
  "same_layout sb sb' =
     (s_blocksize sb' = s_blocksize sb \<and> s_blocksize_bits sb' = s_blocksize_bits sb \<and> s_group_desc sb' = s_group_desc sb \<and>
      b_data sb' = b_data sb \<and> s_groups_count (sbi sb') = s_groups_count (sbi sb) \<and>
      KR_BLOCKS_PER_GROUP sb' = KR_BLOCKS_PER_GROUP sb \<and> KR_INODES_PER_GROUP sb' = KR_INODES_PER_GROUP sb \<and>
      s_itb_per_group (sbi sb') = s_itb_per_group (sbi sb) \<and> s_inodes_per_block (sbi sb') = s_inodes_per_block (sbi sb) \<and>
      s_inode_size (sbi sb') = s_inode_size (sbi sb) \<and> KR_DESC_PER_BLOCK sb' = KR_DESC_PER_BLOCK sb \<and>
      s_desc_per_block_bits (sbi sb') = s_desc_per_block_bits (sbi sb) \<and>
      s_addr_per_block_bits (sbi sb') = s_addr_per_block_bits (sbi sb) \<and>
      es_blocks_count (es sb') = es_blocks_count (es sb) \<and> es_first_data_block (es sb') = es_first_data_block (es sb) \<and>
      es_blocks_per_group (es sb') = es_blocks_per_group (es sb))"

lemma same_layoutD:
  assumes "same_layout sb sb'"
  shows "gdesc sb' = gdesc sb" "gd_ok sb' = gd_ok sb" "descriptor_in_group sb' = descriptor_in_group sb"
    "sized sb' = sized sb" "mount_geometry sb' = mount_geometry sb"
proof -
  have b: "desc_block sb' = desc_block sb" "desc_offset sb' = desc_offset sb"
    using assms by (simp_all add: fun_eq_iff desc_block_def desc_offset_def same_layout_def)
  show "gdesc sb' = gdesc sb" using assms by (simp add: fun_eq_iff gdesc_def b same_layout_def)
  show "gd_ok sb' = gd_ok sb"
    using assms by (simp add: gd_ok_def desc_loaded_def b same_layout_def cong: option.case_cong)
  show "descriptor_in_group sb' = descriptor_in_group sb"
    using assms by (simp add: fun_eq_iff descriptor_in_group_def descriptor_range_def kr_group_first_block_no_def same_layout_def Let_def)
  show "sized sb' = sized sb" "mount_geometry sb' = mount_geometry sb"
    using assms by (simp_all add: sized_def mount_geometry_def same_layout_def Let_def)
qed

lemma read_descs_ok:
  assumes "device_ok d" "read_descs d sb logic n i = Some (Some ds)"
  shows "length ds = n \<and> (\<forall>x \<in> set ds. \<exists>l. x = Some l \<and> int (length l) = s_blocksize sb div 32)"
  using assms(2)
proof (induction n arbitrary: i ds)
  case (Suc n)
  then obtain b l r where r: "descriptor_loc sb logic i = Some b" "d_descs d (s_blocksize sb) b = Some l"
    "read_descs d sb logic n (i + 1) = Some (Some r)" "ds = Some l # r"
    by (auto split: bind_splits option.splits)
  then show ?case using Suc.IH [OF r(3)] assms(1) by (auto simp: device_ok_def)
qed simp

lemma few_mount_groups:
  assumes "mount_geometry sb" "4 \<le> KR_BLOCKS_PER_GROUP sb"
  shows "0 < s_groups_count (sbi sb)" "s_groups_count (sbi sb) \<le> 1073741824"
proof -
  define x where "x = u32 (uint (es_blocks_count (es sb)) - uint (es_first_data_block (es sb)) - 1)"
  have x: "0 \<le> x" "x < 4294967296" by (simp_all add: x_def u32_def)
  have G: "s_groups_count (sbi sb) = x div KR_BLOCKS_PER_GROUP sb + 1"
    using assms(1) by (simp add: mount_geometry_def Let_def x_def)
  have "0 \<le> x div KR_BLOCKS_PER_GROUP sb" using x assms(2) by (simp add: pos_imp_zdiv_nonneg_iff)
  moreover have "x div KR_BLOCKS_PER_GROUP sb \<le> x div 4" using x assms(2) by (intro zdiv_mono2) auto
  moreover have "x div 4 \<le> 1073741823" using x by linarith
  ultimately show "0 < s_groups_count (sbi sb)" "s_groups_count (sbi sb) \<le> 1073741824" using G by linarith+
qed

lemma descs_loaded:
  assumes D: "KR_DESC_PER_BLOCK sb = 2 ^ s_desc_per_block_bits (sbi sb)"
    and G: "0 < s_groups_count (sbi sb)" "s_groups_count (sbi sb) \<le> 1073741824"
    and len: "int (length (s_group_desc sb)) = (s_groups_count (sbi sb) + KR_DESC_PER_BLOCK sb - 1) div KR_DESC_PER_BLOCK sb"
    and full: "\<forall>x \<in> set (s_group_desc sb). \<exists>l. x = Some l \<and> int (length l) = KR_DESC_PER_BLOCK sb"
  shows "gd_ok sb"
proof -
  let ?D = "2 ^ s_desc_per_block_bits (sbi sb) :: int" and ?G = "s_groups_count (sbi sb)"
  have l: "int (length (s_group_desc sb)) = (?G - 1) div ?D + 1"
    using len D div_add_self2 [of ?D "?G - 1"] by (simp add: algebra_simps)
  have "desc_loaded sb g" if g: "0 \<le> g" "g < ?G" for g
  proof -
    have "g div ?D \<le> (?G - 1) div ?D" using g by (intro zdiv_mono1) auto
    moreover have "0 \<le> g div ?D" using g by (simp add: pos_imp_zdiv_nonneg_iff)
    ultimately have b: "desc_block sb g < length (s_group_desc sb)" using l by (simp add: desc_block_eq nat_less_iff)
    then obtain ds where ds: "s_group_desc sb ! desc_block sb g = Some ds" "int (length ds) = ?D"
      using full nth_mem [OF b] D by metis
    have "0 \<le> g mod ?D" "g mod ?D < ?D" by simp_all
    then have "desc_offset sb g < length ds" using ds(2) by (simp add: desc_offset_eq [OF D] nat_less_iff)
    then show ?thesis using b ds(1) by (simp add: desc_loaded_def)
  qed
  then show ?thesis using D G by (simp add: gd_ok_def)
qed

lemma check_passed:
  assumes "gd_ok sb" "0 \<le> i" "i + int n \<le> s_groups_count (sbi sb)" "check_descriptors_loop k n i sb = Some (True, sb')"
  shows "sb' = sb \<and> (\<forall>g. i \<le> g \<and> g < i + int n \<longrightarrow> descriptor_in_group sb g (gdesc sb g))"
  using assms(2-4)
proof (induction n arbitrary: i)
  case (Suc n)
  have "kr_get_group_desc k sb i = Some (Some (gdesc sb i), sb)" using assms(1) Suc.prems by simp
  then have c: "descriptor_in_group sb i (gdesc sb i)" "check_descriptors_loop k n (i + 1) sb = Some (True, sb')"
    using Suc.prems(3) by (auto split: if_splits bind_splits)
  have IH: "sb' = sb \<and> (\<forall>g. i + 1 \<le> g \<and> g < i + 1 + int n \<longrightarrow> descriptor_in_group sb g (gdesc sb g))"
    using Suc.IH [OF _ _ c(2)] Suc.prems by simp
  have "descriptor_in_group sb g (gdesc sb g)" if "i \<le> g" "g < i + int (Suc n)" for g
    using IH c(1) that by (cases "g = i") auto
  then show ?case using IH by blast
qed auto

lemma fill_groups_ok:
  assumes dev: "device_ok d" and sz: "sized sb" and geo: "mount_geometry sb" and B: "4 \<le> KR_BLOCKS_PER_GROUP sb"
    and r: "fill_groups k d logic sb = Some (Inr sb')"
  shows "sized sb'" "mount_geometry sb'" "gd_ok sb'" "rsv_node sb' = rsv_node sb" "es sb' = es sb"
    "length (s_debts (sbi sb')) = nat (s_groups_count (sbi sb'))"
    "\<forall>g \<in> {0..<s_groups_count (sbi sb')}. descriptor_in_group sb' g (gdesc sb' g)"
proof -
  let ?G = "s_groups_count (sbi sb)" and ?D = "KR_DESC_PER_BLOCK sb"
  let ?db = "s32 ((?G + ?D - 1) div ?D)"
  note G = few_mount_groups [OF geo B]
  have D: "?D = 2 ^ s_desc_per_block_bits (sbi sb)" using mount_tables [OF sz geo] by simp
  have D0: "0 < ?D" using D by simp
  have "0 \<le> (?G + ?D - 1) div ?D" using G D0 by (simp add: pos_imp_zdiv_nonneg_iff)
  moreover have "(?G + ?D - 1) div ?D \<le> ?G"
  proof -
    have "(?G + ?D - 1) div ?D = (?G - 1) div ?D + 1" using D0 div_add_self2 [of ?D "?G - 1"] by (simp add: algebra_simps)
    moreover have "(?G - 1) div ?D \<le> ?G - 1" using zdiv_mono2 [of "?G - 1" 1 ?D] D0 G by simp
    ultimately show ?thesis by linarith
  qed
  ultimately have db: "?db = (?G + ?D - 1) div ?D" "0 \<le> ?db" using G by (simp_all add: s32_id)
  obtain ds where ds: "read_descs d sb logic (nat ?db) 0 = Some (Some ds)"
    using r by (auto simp: fill_groups_def Let_def split: if_splits bind_splits option.splits)
  let ?sb = "sb\<lparr>s_group_desc := ds, sbi := (sbi sb)\<lparr>s_debts := replicate (nat ?G) 0\<rparr>\<rparr>"
  obtain ok sb1 where c: "kr_check_descriptors k ?sb = Some (ok, sb1)"
    using r ds by (auto simp: fill_groups_def Let_def split: if_splits bind_splits)
  have sb': "ok" "sb' = sb1\<lparr>sbi := (sbi sb1)\<lparr>s_gdb_count := ?db, s_next_generation := k_random k\<rparr>\<rparr>"
    using r ds c by (auto simp: fill_groups_def Let_def split: if_splits)
  have gd: "gd_ok ?sb"
  proof (rule descs_loaded)
    show "int (length (s_group_desc ?sb)) = (s_groups_count (sbi ?sb) + KR_DESC_PER_BLOCK ?sb - 1) div KR_DESC_PER_BLOCK ?sb"
      using read_descs_ok [OF dev ds] db by simp
    have "s_blocksize sb div 32 = ?D" using geo by (simp add: mount_geometry_def Let_def)
    then show "\<forall>x \<in> set (s_group_desc ?sb). \<exists>l. x = Some l \<and> int (length l) = KR_DESC_PER_BLOCK ?sb"
      using read_descs_ok [OF dev ds] by simp
  qed (use D G in simp_all)
  have p: "sb1 = ?sb" "\<forall>g. 0 \<le> g \<and> g < ?G \<longrightarrow> descriptor_in_group ?sb g (gdesc ?sb g)"
    using check_passed [OF gd, of 0 "nat ?G" k sb1] c sb'(1) G by (simp_all add: kr_check_descriptors_def)
  have e: "sb' = sb\<lparr>s_group_desc := ds, sbi := (sbi sb)\<lparr>s_debts := replicate (nat ?G) 0, s_gdb_count := ?db, s_next_generation := k_random k\<rparr>\<rparr>"
    using sb'(2) p(1) by simp
  have "same_layout ?sb sb'" by (simp add: e same_layout_def)
  note t = same_layoutD [OF this]
  show "gd_ok sb'" using gd t by simp
  show "\<forall>g \<in> {0..<s_groups_count (sbi sb')}. descriptor_in_group sb' g (gdesc sb' g)" using p(2) t by (simp add: e)
  show "sized sb'" "mount_geometry sb'" "rsv_node sb' = rsv_node sb" "es sb' = es sb" "length (s_debts (sbi sb')) = nat (s_groups_count (sbi sb'))"
    using sz geo by (simp_all add: e sized_def mount_geometry_def Let_def)
qed

section \<open>Windows, counters and the root\<close>

lemma fill_windows_ok:
  assumes "rb_ok k" "fresh_windows sb" "fill_windows k sb = Some sb'"
  shows "rsv_inv sb'" "same_layout sb sb'" "sbi sb' = sbi sb" "es sb' = es sb"
proof -
  have sb': "sb' = sb\<lparr>rsv_node := (\<lambda>_. no_window), s_rsv_window_root := k_rb_insert_color k (Node Leaf RsvHead Leaf)\<rparr>"
    using assms(2,3) by (auto simp: fill_windows_def kr_rsv_window_add_def fresh_windows_def fun_upd_idem)
  have "windows sb' = [RsvHead]" using rb_ok_laws(1) [OF assms(1)] by (simp add: windows_def sb')
  then show "rsv_inv sb'" by (simp add: rsv_inv_def rsv_sorted_def) (simp add: sb' no_window_def)
  show "same_layout sb sb'" "sbi sb' = sbi sb" "es sb' = es sb" by (simp_all add: sb' same_layout_def)
qed

lemma kr_count_dirs_eq:
  "gd_ok sb \<Longrightarrow> kr_count_dirs err sb = Some (\<Sum>g = 0..<s_groups_count (sbi sb). uint (bg_used_dirs_count (gdesc sb g)), sb)"
  by (simp add: kr_count_dirs_def count_all_groups)

lemma total_fits:
  assumes "gd_ok sb"
  shows "s64 (\<Sum>g = 0..<s_groups_count (sbi sb). uint (field (gdesc sb g) :: 16 word)) =
    (\<Sum>g = 0..<s_groups_count (sbi sb). uint (field (gdesc sb g)))"
proof -
  let ?G = "s_groups_count (sbi sb)" and ?s = "\<Sum>g = 0..<s_groups_count (sbi sb). uint (field (gdesc sb g))"
  have "?s \<le> of_nat (card {0..<?G}) * 65536" by (rule sum_bounded_above) (simp add: less_imp_le)
  moreover have "0 \<le> ?s" by (rule sum_nonneg) simp
  moreover have "0 < ?G" "?G \<le> 2147483648" using assms by (auto simp: gd_ok_def)
  ultimately have "0 \<le> ?s" "?s \<le> 2147483648 * 65536" by (simp_all add: le_trans)
  then show ?thesis by (simp add: s64_def)
qed

definition counted :: "super_block \<Rightarrow> bool" where
  "counted sb =
     (s_freeblocks_counter (sbi sb) = (\<Sum>g = 0..<s_groups_count (sbi sb). uint (bg_free_blocks_count (gdesc sb g))) \<and>
      s_freeinodes_counter (sbi sb) = (\<Sum>g = 0..<s_groups_count (sbi sb). uint (bg_free_inodes_count (gdesc sb g))) \<and>
      s_dirs_counter (sbi sb) = (\<Sum>g = 0..<s_groups_count (sbi sb). uint (bg_used_dirs_count (gdesc sb g))))"

lemma counter_frame:
  "gd_ok (sb\<lparr>sbi := (sbi sb)\<lparr>s_freeblocks_counter := n\<rparr>\<rparr>) = gd_ok sb"
  "gd_ok (sb\<lparr>sbi := (sbi sb)\<lparr>s_freeinodes_counter := n\<rparr>\<rparr>) = gd_ok sb"
  "gdesc (sb\<lparr>sbi := (sbi sb)\<lparr>s_freeblocks_counter := n\<rparr>\<rparr>) = gdesc sb"
  "gdesc (sb\<lparr>sbi := (sbi sb)\<lparr>s_freeinodes_counter := n\<rparr>\<rparr>) = gdesc sb"
  using same_layoutD(1,2) [of sb "sb\<lparr>sbi := (sbi sb)\<lparr>s_freeblocks_counter := n\<rparr>\<rparr>"]
    same_layoutD(1,2) [of sb "sb\<lparr>sbi := (sbi sb)\<lparr>s_freeinodes_counter := n\<rparr>\<rparr>"]
  by (simp_all add: same_layout_def)

lemma fill_counters_ok:
  assumes "gd_ok sb" "fill_counters k d sb = Some (Inr sb')"
  shows "same_layout sb sb'" "counted sb'" "s_rsv_window_root sb' = s_rsv_window_root sb" "rsv_node sb' = rsv_node sb"
    "es sb' = es sb" "s_debts (sbi sb') = s_debts (sbi sb)"
proof -
  let ?fb = "\<Sum>g = 0..<s_groups_count (sbi sb). uint (bg_free_blocks_count (gdesc sb g))"
    and ?fi = "\<Sum>g = 0..<s_groups_count (sbi sb). uint (bg_free_inodes_count (gdesc sb g))"
    and ?dirs = "\<Sum>g = 0..<s_groups_count (sbi sb). uint (bg_used_dirs_count (gdesc sb g))"
  define sb2 where "sb2 = sb\<lparr>sbi := (sbi sb)\<lparr>s_freeblocks_counter := ?fb\<rparr>\<rparr>"
  define sb4 where "sb4 = sb2\<lparr>sbi := (sbi sb2)\<lparr>s_freeinodes_counter := ?fi\<rparr>\<rparr>"
  have f2: "gd_ok sb2" "gdesc sb2 = gdesc sb" "s_groups_count (sbi sb2) = s_groups_count (sbi sb)"
    using assms(1) by (simp_all add: sb2_def counter_frame)
  have f4: "gd_ok sb4" "gdesc sb4 = gdesc sb" "s_groups_count (sbi sb4) = s_groups_count (sbi sb)"
    using f2 by (simp_all add: sb4_def counter_frame)
  have sb': "sb' = sb4\<lparr>sbi := (sbi sb4)\<lparr>s_dirs_counter := ?dirs\<rparr>\<rparr>"
    using assms(2) kr_count_free_inodes_eq [OF f2(1), of "kr_error k"] kr_count_dirs_eq [OF f4(1), of "kr_error k"] f2(2,3) f4(2,3)
      total_fits [OF assms(1), of bg_free_blocks_count] total_fits [OF assms(1), of bg_free_inodes_count]
      total_fits [OF assms(1), of bg_used_dirs_count]
    unfolding fill_counters_def kr_count_free_blocks_eq [OF assms(1)]
    by (simp add: sb2_def [symmetric] sb4_def [symmetric] split: if_splits)
  have l: "same_layout sb sb'" by (simp add: sb' sb4_def sb2_def same_layout_def)
  then show "same_layout sb sb'" .
  show "counted sb'" unfolding counted_def same_layoutD(1) [OF l] by (simp add: sb' sb4_def sb2_def)
  show "s_rsv_window_root sb' = s_rsv_window_root sb" "rsv_node sb' = rsv_node sb" "es sb' = es sb" "s_debts (sbi sb') = s_debts (sbi sb)"
    by (simp_all add: sb' sb4_def sb2_def)
qed

lemma kr_iget_same:
  assumes "kr_iget k v sb nr = Some (Inr r, sb')"
  shows "sb' = sb"
proof -
  have d: "sb1 = sb" if "kr_get_group_desc k sb g = Some (Some d, sb1)" for g d sb1
    using that by (auto simp: kr_get_group_desc_with_def Let_def split: if_splits option.splits bind_splits)
  have i: "sb1 = sb" if "kr_get_inode k sb nr = Some (Inr x, sb1)" for x sb1
    using that d by (auto simp: kr_get_inode_def Let_def split: if_splits option.splits bind_splits)
  show ?thesis
    using assms i by (auto simp: kr_iget_def Let_def split: if_splits option.splits bind_splits sum.splits prod.splits)
qed

lemma kr_setup_super_layout:
  assumes "kr_setup_super k sb ro = (res, msgs, sb')"
  shows "same_layout sb sb'" "sbi sb' = sbi sb" "s_rsv_window_root sb' = s_rsv_window_root sb" "rsv_node sb' = rsv_node sb"
    "es_inodes_count (es sb') = es_inodes_count (es sb)"
  using assms by (auto simp: kr_setup_super_def Let_def same_layout_def split: if_splits)

lemma kr_write_super_layout:
  assumes "gd_ok sb" "kr_write_super k sb = Some sb'"
  shows "same_layout sb sb'" "sbi sb' = sbi sb" "s_rsv_window_root sb' = s_rsv_window_root sb" "rsv_node sb' = rsv_node sb"
    "es_inodes_count (es sb') = es_inodes_count (es sb)"
proof -
  have "same_layout sb (set_es_state st sb)" for st by (simp add: same_layout_def set_es_state_def)
  then have gd: "gd_ok (set_es_state st sb)" for st using same_layoutD(2) assms(1) by blast
  show "same_layout sb sb'" "sbi sb' = sbi sb" "s_rsv_window_root sb' = s_rsv_window_root sb" "rsv_node sb' = rsv_node sb"
    "es_inodes_count (es sb') = es_inodes_count (es sb)"
    using assms gd
    by (auto simp: kr_write_super_def kr_sync_fs_def kr_sync_super_eq same_layout_def set_es_state_def split: if_splits)
qed

lemma fill_root_ok:
  assumes "gd_ok sb" "fill_root k v nm d sb = Some (Inr (root, sb'))"
  shows "S_ISDIR (i_mode root)" "i_size root \<noteq> 0" "same_layout sb sb'" "sbi sb' = sbi sb"
    "s_rsv_window_root sb' = s_rsv_window_root sb" "rsv_node sb' = rsv_node sb" "es_inodes_count (es sb') = es_inodes_count (es sb)"
proof -
  obtain r sb1 where r: "kr_iget k v sb KR_ROOT_INO = Some (r, sb1)"
    using assms(2) by (auto simp: fill_root_def split: bind_splits)
  obtain ops where q: "r = Inr (root, ops)" "S_ISDIR (i_mode root)" "i_size root \<noteq> 0"
    using assms(2) r by (auto simp: fill_root_def split: sum.splits if_splits prod.splits bind_splits)
  then show "S_ISDIR (i_mode root)" "i_size root \<noteq> 0" by blast+
  have sb1: "sb1 = sb" using kr_iget_same r q(1) by blast
  obtain res msgs sb2 where s: "kr_setup_super k sb (sb_rdonly sb) = (res, msgs, sb2)" by (rule prod_cases3)
  note f = kr_setup_super_layout [OF s]
  define sb3 where "sb3 = (if res then sb2\<lparr>s_flags := s_flags sb2 OR MS_RDONLY\<rparr> else sb2)"
  have l3: "same_layout sb sb3" using f(1) by (simp add: sb3_def same_layout_def)
  then have "gd_ok sb3" using same_layoutD(2) assms(1) by blast
  moreover have "kr_write_super k sb3 = Some sb'"
    using assms(2) r q s sb1 by (auto simp: fill_root_def sb3_def split: if_splits bind_splits)
  ultimately have w: "same_layout sb3 sb'" "sbi sb' = sbi sb3" "s_rsv_window_root sb' = s_rsv_window_root sb3" "rsv_node sb' = rsv_node sb3"
    "es_inodes_count (es sb') = es_inodes_count (es sb3)"
    using kr_write_super_layout by blast+
  show "same_layout sb sb'" using l3 w(1) by (simp add: same_layout_def)
  show "sbi sb' = sbi sb" "s_rsv_window_root sb' = s_rsv_window_root sb" "rsv_node sb' = rsv_node sb"
    "es_inodes_count (es sb') = es_inodes_count (es sb)"
    using w f by (simp_all add: sb3_def)
qed

section \<open>A mounted file system\<close>

text \<open>
  What the mount cannot see without reading the bitmaps: that they mark the metadata and the blocks
  past the end as used, and that the descriptors count their free bits.
\<close>

definition bitmap_ok :: "super_block \<Rightarrow> int \<Rightarrow> bool" where
  "bitmap_ok sb g =
     (let bm = group_bitmap sb g; B = KR_BLOCKS_PER_GROUP sb; F = kr_group_first_block_no sb g in
      bitmap_buffer bm \<and> B \<le> int (length bm) \<and>
      (\<forall>i < nat B. metadata_block sb g (F + int i) \<or> uint (es_blocks_count (es sb)) \<le> F + int i \<longrightarrow> bm ! i) \<and>
      uint (bg_free_blocks_count (gdesc sb g)) = int (zero_bits bm (nat B)))"

definition metadata_inside :: "super_block \<Rightarrow> int \<Rightarrow> bool" where
  "metadata_inside sb g =
     (\<forall>b \<in> {uint (bg_block_bitmap (gdesc sb g)), uint (bg_inode_bitmap (gdesc sb g)), uint (bg_inode_table (gdesc sb g)),
            uint (bg_inode_table (gdesc sb g)) + s_itb_per_group (sbi sb) - 1}.
        g * KR_BLOCKS_PER_GROUP sb + uint (es_first_data_block (es sb)) \<le> b \<and> b < group_end sb g)"

definition mounted :: "super_block \<Rightarrow> bool" where
  "mounted sb =
     (gd_ok sb \<and> rsv_inv sb \<and> addr_ok sb \<and> counted sb \<and> sized sb \<and> mount_geometry sb \<and>
      length (s_debts (sbi sb)) = nat (s_groups_count (sbi sb)) \<and>
      (\<forall>g \<in> {0..<s_groups_count (sbi sb)}. descriptor_in_group sb g (gdesc sb g)))"

lemma fill_mounted_ok:
  assumes rb: "rb_ok k" and dev: "device_ok d" and sz: "sized sb" and geo: "mount_geometry sb" and fr: "fresh_windows sb"
    and B: "4 \<le> KR_BLOCKS_PER_GROUP sb" and g: "fill_groups k d logic sb = Some (Inr sb5)"
    and m: "fill_mounted k v nm d sb5 = Some (Inr (root, sb'))"
  shows "mounted sb'" "S_ISDIR (i_mode root)" "i_size root \<noteq> 0" "es_blocks_count (es sb') = es_blocks_count (es sb)"
proof -
  note G = fill_groups_ok [OF dev sz geo B g]
  obtain sb6 where w: "fill_windows k sb5 = Some sb6" using m by (auto simp: fill_mounted_def split: bind_splits)
  have "fresh_windows sb5" using fr G(4) by (simp add: fresh_windows_def)
  note W = fill_windows_ok [OF rb this w]
  have gd6: "gd_ok sb6" using G(3) same_layoutD(2) [OF W(2)] by simp
  obtain sb7 where c: "fill_counters k d sb6 = Some (Inr sb7)" and r: "fill_root k v nm d sb7 = Some (Inr (root, sb'))"
    using m w by (auto simp: fill_mounted_def split: bind_splits sum.splits)
  note C = fill_counters_ok [OF gd6 c]
  have "gd_ok sb7" using gd6 same_layoutD(2) [OF C(1)] by simp
  note R = fill_root_ok [OF this r]
  show "S_ISDIR (i_mode root)" "i_size root \<noteq> 0" using R(1,2) by blast+
  have l: "same_layout sb5 sb'" using W(2) C(1) R(3) by (simp add: same_layout_def)
  show "es_blocks_count (es sb') = es_blocks_count (es sb)" using l G(5) by (simp add: same_layout_def)
  have gd: "gd_ok sb'" "sized sb'" "mount_geometry sb'" using same_layoutD [OF l] G(1-3) by simp_all
  have "rsv_inv sb'" using W(1) C(3,4) R(5,6) by (simp add: rsv_inv_def windows_def)
  moreover have "counted sb'" using C(2) R(4) same_layoutD(1) [OF R(3)] by (simp add: counted_def)
  moreover have "length (s_debts (sbi sb')) = nat (s_groups_count (sbi sb'))"
    using G(6) R(4) C(6) W(3) l by (simp add: same_layout_def)
  moreover have "s_groups_count (sbi sb') = s_groups_count (sbi sb5)" using l by (simp add: same_layout_def)
  then have "\<forall>g \<in> {0..<s_groups_count (sbi sb')}. descriptor_in_group sb' g (gdesc sb' g)"
    using G(7) same_layoutD(1,3) [OF l] by simp
  ultimately show "mounted sb'" using gd mount_tables(1) [OF gd(2,3)] by (simp add: mounted_def)
qed

text \<open>
  The super blocks of the device are not degenerate: a group has four blocks at least, and there
  are blocks. The code does not check either.
\<close>

definition super_sane :: "device \<Rightarrow> bool" where
  "super_sane d =
     (\<forall>bs b off e. d_super d bs b off = Some e \<longrightarrow> 4 \<le> uint (es_blocks_per_group e) \<and> 0 < uint (es_blocks_count e))"

lemma fill_open_super:
  assumes "super_sane d" "fill_open d sb_block sb = Inr (logic, sb')"
  shows "4 \<le> uint (es_blocks_per_group (es sb')) \<and> 0 < uint (es_blocks_count (es sb'))"
  using assms
  by (auto simp: fill_open_def Let_def super_sane_def split: if_splits option.splits prod.splits)

lemma fill_blocksize_super:
  assumes "super_sane d" "4 \<le> uint (es_blocks_per_group (es sb)) \<and> 0 < uint (es_blocks_count (es sb))"
    and "fill_blocksize d sb_block logic0 sb = Some (Inr (blocksize, logic, sb'))"
  shows "4 \<le> uint (es_blocks_per_group (es sb')) \<and> 0 < uint (es_blocks_count (es sb'))"
  using assms
  by (auto simp: fill_blocksize_def Let_def super_sane_def split: if_splits option.splits prod.splits bind_splits)

lemma kr_fill_super_mounted:
  assumes dev: "device_ok d" and sane: "super_sane d" and rb: "rb_ok k"
    and r: "kr_fill_super k v nm ps d mount_data sb = Some (Inr (root, sb'))"
  shows "mounted sb'" "0 < uint (es_blocks_count (es sb'))" "S_ISDIR (i_mode root)" "i_size root \<noteq> 0"
proof -
  obtain sb_block opts where o: "get_sb_block ps mount_data = (sb_block, opts)" by (cases "get_sb_block ps mount_data")
  obtain logic0 sb1 where 1: "fill_open d sb_block sb = Inr (logic0, sb1)"
    using r o by (auto simp: kr_fill_super_def split: sum.splits)
  obtain sb2 where 2: "fill_options ps opts sb1 = Inr sb2"
    using r o 1 by (auto simp: kr_fill_super_def split: sum.splits)
  obtain blocksize logic sb3 where 3: "fill_blocksize d sb_block logic0 sb2 = Some (Inr (blocksize, logic, sb3))"
    using r o 1 2 by (auto simp: kr_fill_super_def split: sum.splits bind_splits)
  obtain sb4 where 4: "fill_geometry d blocksize sb3 = Some (Inr sb4)"
    using r o 1 2 3 by (auto simp: kr_fill_super_def split: sum.splits bind_splits)
  obtain sb5 where 5: "fill_groups k d logic sb4 = Some (Inr sb5)"
    using r o 1 2 3 4 by (auto simp: kr_fill_super_def split: sum.splits bind_splits)
  have 6: "fill_mounted k v nm d sb5 = Some (Inr (root, sb'))" using r o 1 2 3 4 5 by (simp add: kr_fill_super_def)
  note f1 = fill_open_ok [OF dev 1] and f2 = fill_options_ok [OF 2]
  have s2: "sized sb2" using f1(1) f2(1,2) by (simp add: sized_def)
  note f3 = fill_blocksize_ok [OF dev s2 3]
  note f4 = fill_geometry_ok [OF f3(1,2) 4]
  have e: "4 \<le> uint (es_blocks_per_group (es sb4))" "0 < uint (es_blocks_count (es sb4))"
    using fill_blocksize_super [OF sane _ 3] fill_open_super [OF sane 1] f2(4) f4(4) by simp_all
  have B: "4 \<le> KR_BLOCKS_PER_GROUP sb4" using f4(2) e(1) by (simp add: mount_geometry_def Let_def)
  have fr: "fresh_windows sb4" using f1(2) f2(3) f3(3) f4(3) by (simp add: fresh_windows_def)
  show "mounted sb'" "S_ISDIR (i_mode root)" "i_size root \<noteq> 0"
    using fill_mounted_ok [OF rb dev f4(1,2) fr B 5 6] by blast+
  show "0 < uint (es_blocks_count (es sb'))"
    using fill_mounted_ok(4) [OF rb dev f4(1,2) fr B 5 6] e(2) by simp
qed

lemma mounted_tables:
  assumes m: "mounted sb" and w: "KR_INODES_PER_GROUP sb mod s_inodes_per_block (sbi sb) = 0"
  shows "itable_ok sb" "1 \<le> s_itb_per_group (sbi sb)" "s_itb_per_group (sbi sb) < 65536"
proof -
  have g: "0 < KR_INODES_PER_GROUP sb" "0 < s_inodes_per_block (sbi sb)" "KR_INODES_PER_GROUP sb \<le> s_blocksize sb * 8"
    "s_itb_per_group (sbi sb) = KR_INODES_PER_GROUP sb div s_inodes_per_block (sbi sb)" and sz: "sized sb" and geo: "mount_geometry sb"
    using m by (simp_all add: mounted_def mount_geometry_def Let_def)
  have t: "s_itb_per_group (sbi sb) * s_inodes_per_block (sbi sb) = KR_INODES_PER_GROUP sb"
    using g(4) w by (simp add: mod_0_imp_dvd)
  show "itable_ok sb" by (rule mount_tables(3) [OF sz geo t])
  have "0 < s_itb_per_group (sbi sb)" using t g(1,2) zero_less_mult_iff [of "s_itb_per_group (sbi sb)" "s_inodes_per_block (sbi sb)"] by linarith
  then show "1 \<le> s_itb_per_group (sbi sb)" by linarith
  have "KR_INODES_PER_GROUP sb div s_inodes_per_block (sbi sb) \<le> KR_INODES_PER_GROUP sb"
    using zdiv_mono2 [of "KR_INODES_PER_GROUP sb" 1 "s_inodes_per_block (sbi sb)"] g by simp
  moreover have "s_blocksize sb \<le> 4096" using sz by (auto simp: sized_def)
  ultimately show "s_itb_per_group (sbi sb) < 65536" using g(3,4) by linarith
qed

text \<open>The check of the last group's descriptor shows that the file system has a block in it.\<close>

lemma mounted_range:
  assumes m: "mounted sb" and w: "KR_INODES_PER_GROUP sb mod s_inodes_per_block (sbi sb) = 0" and b: "0 < uint (es_blocks_count (es sb))"
  defines "B \<equiv> KR_BLOCKS_PER_GROUP sb" and "f \<equiv> uint (es_first_data_block (es sb))" and "G \<equiv> s_groups_count (sbi sb)"
  shows "0 < B" "B < 65536" "f < uint (es_blocks_count (es sb))" "uint (es_blocks_count (es sb)) \<le> f + G * B"
    "(G - 1) * B + f < uint (es_blocks_count (es sb))" "\<forall>g \<in> {0..<G}. metadata_inside sb g"
proof -
  have gd: "gd_ok sb" and chk: "\<forall>g \<in> {0..<G}. descriptor_in_group sb g (gdesc sb g)"
    and geo: "0 < B" "B \<le> s_blocksize sb * 8" "G = u32 (uint (es_blocks_count (es sb)) - f - 1) div B + 1" and sz: "sized sb"
    using m by (simp_all add: mounted_def mount_geometry_def Let_def B_def f_def G_def)
  note t = mounted_tables [OF m w]
  show "0 < B" by (rule geo(1))
  show B: "B < 65536" using geo(2) sz by (auto simp: sized_def)
  have it: "s_itb_per_group (sbi sb) < 4294967296" "B < 4294967296" using t(3) B by linarith+
  show ins: "\<forall>g \<in> {0..<G}. metadata_inside sb g"
    using chk descriptor_in_group_iff [OF gd geo(1) [unfolded B_def] it(2) [unfolded B_def] t(2) it(1) b]
    by (auto simp: metadata_inside_def G_def)
  have G: "0 < G" using gd by (simp add: gd_ok_def G_def)
  then have "metadata_inside sb (G - 1)" using ins by simp
  then show l: "(G - 1) * B + f < uint (es_blocks_count (es sb))"
    by (simp add: metadata_inside_def group_end_def B_def f_def G_def)
  have "0 \<le> (G - 1) * B" using G geo(1) by simp
  then show fb: "f < uint (es_blocks_count (es sb))" using l by linarith
  have "0 \<le> f" by (simp add: f_def)
  then have x: "u32 (uint (es_blocks_count (es sb)) - f - 1) = uint (es_blocks_count (es sb)) - f - 1"
    using fb uint32_lt [of "es_blocks_count (es sb)"] by (intro u32_id) linarith+
  define y where "y = uint (es_blocks_count (es sb)) - f - 1"
  have "y < (y div B + 1) * B"
  proof -
    have "y = y div B * B + y mod B" "y mod B < B" "(y div B + 1) * B = y div B * B + B"
      using pos_mod_bound [OF geo(1), of y] by (simp_all add: distrib_right)
    then show ?thesis by linarith
  qed
  then show "uint (es_blocks_count (es sb)) \<le> f + G * B" using geo(3) x y_def by simp
qed

text \<open>With the bitmaps in order as well, the file system is one that the block allocator works on.\<close>

lemma mounted_fs_ok:
  assumes m: "mounted sb" and w: "KR_INODES_PER_GROUP sb mod s_inodes_per_block (sbi sb) = 0" and b: "0 < uint (es_blocks_count (es sb))"
    and bm: "\<forall>g \<in> {0..<s_groups_count (sbi sb)}. bitmap_ok sb g"
  shows "fs_ok sb"
proof -
  let ?B = "KR_BLOCKS_PER_GROUP sb" and ?f = "uint (es_first_data_block (es sb))" and ?G = "s_groups_count (sbi sb)"
    and ?n = "uint (es_blocks_count (es sb))"
  note r = mounted_range [OF m w b]
  have "group_ok sb g" if g: "0 \<le> g" "g < ?G" for g
  proof -
    have "g * ?B \<le> (?G - 1) * ?B" using g r(1) by (intro mult_right_mono) auto
    then have "g * ?B + ?f < ?n" using r(5) by linarith
    then have gB: "0 \<le> g * ?B" "g * ?B + ?f < ?n" using g r(1) by simp_all
    have lt: "?n < 4294967296" by simp
    have F: "kr_group_first_block_no sb g = g * ?B + ?f"
      unfolding kr_group_first_block_no_def by (rule u64_id) (use gB lt in simp, use gB lt in linarith)
    have ends: "group_end sb g \<le> g * ?B + ?f + ?B"
    proof (cases "g = ?G - 1")
      case True
      then have "?G * ?B = g * ?B + ?B" by (simp add: left_diff_distrib)
      then show ?thesis using r(4) True by (simp add: group_end_def)
    qed (simp add: group_end_def algebra_simps)
    have ins: "metadata_inside sb g" and bo: "bitmap_ok sb g" using r(6) bm g by auto
    have "g * ?B + ?f < 274877906944" using gB(2) lt by linarith
    then show ?thesis
      using ins bo ends r(1)
      unfolding group_ok_def metadata_inside_def bitmap_ok_def group_geometry_def Let_def F by auto
  qed
  then show ?thesis
    using m r(1-4) mounted_tables(2) [OF m w] by (simp add: fs_ok_def mounted_def)
qed

end
