(* ===== verification/Kr_Mount_Spec.thy ===== *)
theory Kr_Mount_Spec
  imports Kr_Mount Kr_File_Spec Kr_Super_Spec Kr_Dir_Spec
begin

text \<open>
  The properties of mounting, with a device that can be mounted.
\<close>

section \<open>An example\<close>





section \<open>Mounting\<close>



end
