(* ===== verification/Kr_Ioctl.thy ===== *)
theory Kr_Ioctl
  imports Kr_Namei
begin

text \<open>
  Calls on open files: \<^verbatim>\<open>ioctl.c\<close>, the functions of \<^verbatim>\<open>file.c\<close>, the ends of a write in \<^verbatim>\<open>inode.c\<close>
  and the lookup of a file handle in \<^verbatim>\<open>super.c\<close>.

  \<^item> A command is known by its name. \<open>user\<close> is what the caller and the kernel answer: the number at
    \<^verbatim>\<open>arg\<close>, if it can be read, whether it can be written, write access to the mount and the rights
    of the caller. An \<^verbatim>\<open>ioctl\<close> gives its errno, the number it stores at \<^verbatim>\<open>arg\<close>, and the state.
  \<^item> The generic code of the kernel (\<^verbatim>\<open>generic_file_fsync\<close>, \<^verbatim>\<open>block_write_begin\<close>,
    \<^verbatim>\<open>generic_write_end\<close>, \<^verbatim>\<open>blockdev_direct_IO\<close>) is a parameter, as a step from one state to the
    next with an \<^verbatim>\<open>int\<close> result.
\<close>

section \<open>Model: ioctl\<close>

datatype ioctl_cmd =
  KR_IOC_GETFLAGS | KR_IOC_SETFLAGS | KR_IOC_GETVERSION | KR_IOC_SETVERSION
| KR_IOC_GETRSVSZ | KR_IOC_SETRSVSZ | KR_IOC_OTHER

record user =
  u_get :: "int option"            \<comment> \<open>\<^verbatim>\<open>get_user\<close> of the \<^verbatim>\<open>int\<close> at \<^verbatim>\<open>arg\<close>\<close>
  u_put :: bool                    \<comment> \<open>\<^verbatim>\<open>put_user\<close> succeeds\<close>
  u_want_write :: "errno option"   \<comment> \<open>\<^verbatim>\<open>mnt_want_write_file\<close>\<close>
  u_owner :: bool                  \<comment> \<open>\<^verbatim>\<open>inode_owner_or_capable\<close>\<close>
  u_immutable :: bool              \<comment> \<open>\<^verbatim>\<open>capable(CAP_LINUX_IMMUTABLE)\<close>\<close>

definition put_user :: "user \<Rightarrow> int \<Rightarrow> super_block \<Rightarrow> inode \<Rightarrow> errno option \<times> int option \<times> super_block \<times> inode" where
  "put_user u n sb ino = (if u_put u then (None, Some n, sb, ino) else (Some EFAULT, None, sb, ino))"

definition ioctl_setflags ::
  "kernel \<Rightarrow> user \<Rightarrow> super_block \<Rightarrow> inode \<Rightarrow> errno option \<times> int option \<times> super_block \<times> inode" where
  "ioctl_setflags k u sb ino =
     (case u_want_write u of Some e \<Rightarrow> (Some e, None, sb, ino)
      | None \<Rightarrow>
          if \<not> u_owner u then (Some EACCES, None, sb, ino)
          else case u_get u of None \<Rightarrow> (Some EFAULT, None, sb, ino)
          | Some arg \<Rightarrow>
              let flags = kr_mask_flags (i_mode ino) (word_of_int arg); oldflags = i_flags ino in
              if vfs_flags ino AND S_NOQUOTA \<noteq> 0 then (Some EPERM, None, sb, ino)
              else if (flags XOR oldflags) AND (KR_APPEND_FL OR KR_IMMUTABLE_FL) \<noteq> 0 \<and> \<not> u_immutable u
              then (Some EPERM, None, sb, ino)
              else
                let flags1 = flags AND KR_FL_USER_MODIFIABLE;
                    flags2 = flags1 OR (oldflags AND NOT KR_FL_USER_MODIFIABLE);
                    ino1 = kr_set_inode_flags sb (ino\<lparr>i_flags := flags2\<rparr>)
                in (None, None, sb, ino1\<lparr>i_ctime := k_now k\<rparr>))"

definition ioctl_setversion ::
  "kernel \<Rightarrow> user \<Rightarrow> super_block \<Rightarrow> inode \<Rightarrow> errno option \<times> int option \<times> super_block \<times> inode" where
  "ioctl_setversion k u sb ino =
     (if \<not> u_owner u then (Some EPERM, None, sb, ino)
      else case u_want_write u of Some e \<Rightarrow> (Some e, None, sb, ino)
      | None \<Rightarrow>
          case u_get u of None \<Rightarrow> (Some EFAULT, None, sb, ino)
          | Some arg \<Rightarrow> (None, None, sb, ino\<lparr>i_ctime := k_now k, i_generation := word_of_int arg\<rparr>))"

text \<open>\<^verbatim>\<open>rsv_window_size\<close> is an \<^verbatim>\<open>unsigned short\<close>.\<close>

definition ioctl_setrsvsz ::
  "kernel \<Rightarrow> user \<Rightarrow> super_block \<Rightarrow> inode \<Rightarrow> errno option \<times> int option \<times> super_block \<times> inode" where
  "ioctl_setrsvsz k u sb ino =
     (if \<not> test_opt sb KR_MOUNT_RESERVATION \<or> \<not> S_ISREG (i_mode ino) then (Some ENOTTY, None, sb, ino)
      else if \<not> u_owner u then (Some EACCES, None, sb, ino)
      else case u_get u of None \<Rightarrow> (Some EFAULT, None, sb, ino)
      | Some arg \<Rightarrow>
          case u_want_write u of Some e \<Rightarrow> (Some e, None, sb, ino)
          | None \<Rightarrow>
              let rsv_window_size = (if KR_MAX_RESERVE_BLOCKS < u16 arg then KR_MAX_RESERVE_BLOCKS else u16 arg);
                  (sb1, ino1) = (if i_block_alloc_info ino = None then kr_init_block_alloc_info k sb ino else (sb, ino))
              in if i_block_alloc_info ino1 \<noteq> None
                 then (None, None, upd_rsv (rsv_of ino1) (\<lambda>w. w\<lparr>rsv_goal_size := word_of_int rsv_window_size\<rparr>) sb1, ino1)
                 else (None, None, sb1, ino1))"

definition kr_ioctl ::
  "kernel \<Rightarrow> user \<Rightarrow> super_block \<Rightarrow> inode \<Rightarrow> ioctl_cmd \<Rightarrow> errno option \<times> int option \<times> super_block \<times> inode" where
  "kr_ioctl k u sb ino cmd =
     (case cmd of
        KR_IOC_GETFLAGS \<Rightarrow>
          let ino1 = kr_get_inode_flags ino in put_user u (uint (i_flags ino1 AND KR_FL_USER_VISIBLE)) sb ino1
      | KR_IOC_SETFLAGS \<Rightarrow> ioctl_setflags k u sb ino
      | KR_IOC_GETVERSION \<Rightarrow> put_user u (uint (i_generation ino)) sb ino
      | KR_IOC_SETVERSION \<Rightarrow> ioctl_setversion k u sb ino
      | KR_IOC_GETRSVSZ \<Rightarrow>
          if test_opt sb KR_MOUNT_RESERVATION \<and> S_ISREG (i_mode ino) \<and> i_block_alloc_info ino \<noteq> None
          then put_user u (u16 (uint (rsv_goal_size (rsv_node sb (rsv_of ino))))) sb ino
          else (Some ENOTTY, None, sb, ino)
      | KR_IOC_SETRSVSZ \<Rightarrow> ioctl_setrsvsz k u sb ino
      | KR_IOC_OTHER \<Rightarrow> (Some ENOTTY, None, sb, ino))"

datatype ioctl32_cmd =
  KR_IOC32_GETFLAGS | KR_IOC32_SETFLAGS | KR_IOC32_GETVERSION | KR_IOC32_SETVERSION | KR_IOC32_OTHER

definition kr_compat_ioctl ::
  "kernel \<Rightarrow> user \<Rightarrow> super_block \<Rightarrow> inode \<Rightarrow> ioctl32_cmd \<Rightarrow> errno option \<times> int option \<times> super_block \<times> inode" where
  "kr_compat_ioctl k u sb ino cmd =
     (case cmd of
        KR_IOC32_GETFLAGS \<Rightarrow> kr_ioctl k u sb ino KR_IOC_GETFLAGS
      | KR_IOC32_SETFLAGS \<Rightarrow> kr_ioctl k u sb ino KR_IOC_SETFLAGS
      | KR_IOC32_GETVERSION \<Rightarrow> kr_ioctl k u sb ino KR_IOC_GETVERSION
      | KR_IOC32_SETVERSION \<Rightarrow> kr_ioctl k u sb ino KR_IOC_SETVERSION
      | KR_IOC32_OTHER \<Rightarrow> (Some ENOIOCTLCMD, None, sb, ino))"

section \<open>Model: files\<close>

definition kr_release_file :: "kernel \<Rightarrow> bool \<Rightarrow> super_block \<Rightarrow> inode \<Rightarrow> super_block" where
  "kr_release_file k fmode_write sb ino = (if fmode_write then kr_discard_reservation k sb ino else sb)"

text \<open>\<open>generic\<close> is \<^verbatim>\<open>generic_file_fsync\<close>; \<open>as_eio\<close> is the flag of the device's mapping, tested and cleared.\<close>

definition kr_fsync ::
  "kernel \<Rightarrow> (super_block \<Rightarrow> errno option \<times> super_block) \<Rightarrow> bool \<Rightarrow> super_block \<Rightarrow> (errno option \<times> bool \<times> super_block) option" where
  "kr_fsync k generic as_eio sb =
     (case generic sb of (ret, sb1) \<Rightarrow>
        if ret = Some EIO then do { sb2 \<leftarrow> kr_error k sb1; Some (Some EIO, as_eio, sb2) }
        else if as_eio then do { sb2 \<leftarrow> kr_error k sb1; Some (Some EIO, False, sb2) }
        else Some (ret, False, sb1))"

text \<open>
  \<open>begin\<close> is \<^verbatim>\<open>block_write_begin\<close> or \<^verbatim>\<open>nobh_write_begin\<close> with \<^verbatim>\<open>kr_get_block\<close>; a negative number is
  an error.
\<close>

definition kr_write_begin ::
  "kernel \<Rightarrow> (super_block \<Rightarrow> inode \<Rightarrow> int \<Rightarrow> int \<Rightarrow> (int \<times> super_block \<times> inode) option) \<Rightarrow>
   super_block \<Rightarrow> inode \<Rightarrow> int \<Rightarrow> int \<Rightarrow> (int \<times> super_block \<times> inode) option" where
  "kr_write_begin k start sb ino pos len =
     do { (ret, sb1, ino1) \<leftarrow> start sb ino pos len;
          if ret < 0 then do { (sb2, ino2) \<leftarrow> kr_write_failed k sb1 ino1 (pos + len); Some (ret, sb2, ino2) }
          else Some (ret, sb1, ino1) }"

text \<open>The comparison \<^verbatim>\<open>ret < len\<close> is one of \<^verbatim>\<open>unsigned\<close> numbers.\<close>

definition kr_write_end ::
  "kernel \<Rightarrow> (super_block \<Rightarrow> inode \<Rightarrow> int \<Rightarrow> int \<Rightarrow> int \<Rightarrow> (int \<times> super_block \<times> inode) option) \<Rightarrow>
   super_block \<Rightarrow> inode \<Rightarrow> int \<Rightarrow> int \<Rightarrow> int \<Rightarrow> (int \<times> super_block \<times> inode) option" where
  "kr_write_end k finish sb ino pos len copied =
     do { (ret, sb1, ino1) \<leftarrow> finish sb ino pos len copied;
          if u32 ret < len then do { (sb2, ino2) \<leftarrow> kr_write_failed k sb1 ino1 (pos + len); Some (ret, sb2, ino2) }
          else Some (ret, sb1, ino1) }"

definition kr_direct_IO ::
  "kernel \<Rightarrow> (super_block \<Rightarrow> inode \<Rightarrow> int \<Rightarrow> int \<Rightarrow> (int \<times> super_block \<times> inode) option) \<Rightarrow> bool \<Rightarrow>
   super_block \<Rightarrow> inode \<Rightarrow> int \<Rightarrow> int \<Rightarrow> ((errno + int) \<times> super_block \<times> inode) option" where
  "kr_direct_IO k direct is_write sb ino offset count =
     (if IS_DAX ino then Some (Inl EIO, sb, ino)
      else do {
        (ret, sb1, ino1) \<leftarrow> direct sb ino offset count;
        if ret < 0 \<and> is_write
        then do { (sb2, ino2) \<leftarrow> kr_write_failed k sb1 ino1 (s64 (offset + count)); Some (Inr ret, sb2, ino2) }
        else Some (Inr ret, sb1, ino1) })"

section \<open>Model: file handles\<close>

text \<open>The inode of a handle, whose generation is compared unless it is zero.\<close>

definition kr_nfs_get_inode ::
  "kernel \<Rightarrow> vfs \<Rightarrow> names \<Rightarrow> super_block \<Rightarrow> int \<Rightarrow> 32 word \<Rightarrow> ((errno + inode) \<times> super_block) option" where
  "kr_nfs_get_inode k v nm sb ino generation =
     (if ino < u64 (KR_FIRST_INO sb) \<and> ino \<noteq> KR_ROOT_INO then Some (Inl ESTALE, sb)
      else if uint (es_inodes_count (es sb)) < ino then Some (Inl ESTALE, sb)
      else do {
        (r, sb1) \<leftarrow> kr_iget k v sb ino;
        case r of Inl e \<Rightarrow> Some (Inl e, sb1)
        | Inr (i, _) \<Rightarrow>
            if generation \<noteq> 0 \<and> i_generation i \<noteq> generation
            then do { (sb2, _) \<leftarrow> n_iput nm (kr_evict_inode k v) sb1 i; Some (Inl ESTALE, sb2) }
            else Some (Inr i, sb1) })"

end
