(* ===== verification/Kr_Ioctl_Spec.thy ===== *)
theory Kr_Ioctl_Spec
  imports Kr_Ioctl Kr_Mount_Spec
begin

text \<open>
  The properties of the calls on open files.
\<close>

section \<open>Flags\<close>

text \<open>The copy of the flags for the VFS agrees with that for the disk.\<close>

definition flags_synced :: "inode \<Rightarrow> bool" where
  "flags_synced ino = (kr_get_inode_flags ino = ino)"

lemma kr_set_inode_flags_same:
  "i_flags (kr_set_inode_flags sb ino) = i_flags ino" "i_mode (kr_set_inode_flags sb ino) = i_mode ino"
  by (simp_all add: kr_set_inode_flags_def Let_def)

lemma get_flags_ctime: "kr_get_inode_flags (ino\<lparr>i_ctime := t\<rparr>) = (kr_get_inode_flags ino)\<lparr>i_ctime := t\<rparr>"
  by (simp add: kr_get_inode_flags_def Let_def)

lemma set_flags_synced: "flags_synced ((kr_set_inode_flags sb ino)\<lparr>i_ctime := t\<rparr>)"
  by (simp add: flags_synced_def get_flags_ctime kr_set_get_flags)

lemma bit_modifiable: "bit KR_FL_USER_MODIFIABLE 4" "bit KR_FL_USER_MODIFIABLE 5"
  by simp_all

lemma merged_flags: "bit ((f AND m) OR (g AND NOT m)) n \<longleftrightarrow> (if bit m n then bit f n else bit g n)" for f g m :: "32 word"
  by (cases "bit m n") (auto simp: bit_or_iff bit_and_iff bit_not_iff dest: bit_imp_le_length)

lemma locked_bits: "(f XOR g) AND (KR_APPEND_FL OR KR_IMMUTABLE_FL) = 0 \<Longrightarrow> bit f 4 = bit g 4 \<and> bit f 5 = bit g 5" for f g :: "32 word"
proof -
  assume a: "(f XOR g) AND (KR_APPEND_FL OR KR_IMMUTABLE_FL) = 0"
  have "\<not> bit ((f XOR g) AND (KR_APPEND_FL OR KR_IMMUTABLE_FL)) n" for n unfolding a by simp
  from this [of 4] this [of 5] show ?thesis
    by (auto simp: bit_and_iff bit_xor_iff bit_or_iff)
qed

text \<open>
  C37. Setting the flags of a file. If it fails, nothing has changed. If it succeeds, exactly the
  flags that users may change have the values asked for, as far as the type of the file allows
  them, the two copies of the flags agree, and reading the flags back gives the new ones. Without
  the capability the append-only and the immutable flag are never changed.
\<close>

theorem ioctl_flags_round_trip:
  assumes "kr_ioctl k u sb ino KR_IOC_SETFLAGS = (err, out, sb', ino')" "u_get u = Some arg"
  shows "sb' = sb \<and>
    (err \<noteq> None \<longrightarrow> ino' = ino) \<and>
    (err = None \<longrightarrow> flags_synced ino' \<and>
       (\<forall>n. bit (i_flags ino') n \<longleftrightarrow>
          (if bit KR_FL_USER_MODIFIABLE n then bit (kr_mask_flags (i_mode ino) (word_of_int arg)) n else bit (i_flags ino) n)) \<and>
       (\<forall>u'. u_put u' \<longrightarrow> kr_ioctl k u' sb' ino' KR_IOC_GETFLAGS = (None, Some (uint (i_flags ino' AND KR_FL_USER_VISIBLE)), sb', ino'))) \<and>
    (\<not> u_immutable u \<longrightarrow> (\<forall>n \<in> {4, 5}. bit (i_flags ino') n = bit (i_flags ino) n))"
proof (cases "err = None")
  case False
  then have "sb' = sb" "ino' = ino"
    using assms by (auto simp: kr_ioctl_def ioctl_setflags_def Let_def split: option.splits if_splits)
  then show ?thesis using False by (simp only: simp_thms) blast
next
  case True
  let ?f = "kr_mask_flags (i_mode ino) (word_of_int arg)"
  let ?new = "?f AND KR_FL_USER_MODIFIABLE OR i_flags ino AND NOT KR_FL_USER_MODIFIABLE"
  have r: "sb' = sb" "ino' = (kr_set_inode_flags sb (ino\<lparr>i_flags := ?new\<rparr>))\<lparr>i_ctime := k_now k\<rparr>"
    "u_immutable u \<or> (?f XOR i_flags ino) AND (KR_APPEND_FL OR KR_IMMUTABLE_FL) = 0"
    using assms True unfolding kr_ioctl_def ioctl_setflags_def Let_def
    by (auto split: option.splits if_splits)
  have f: "i_flags ino' = ?new" by (simp add: r(2) kr_set_inode_flags_same)
  have b: "bit (i_flags ino') n \<longleftrightarrow> (if bit KR_FL_USER_MODIFIABLE n then bit ?f n else bit (i_flags ino) n)" for n
    unfolding f by (rule merged_flags)
  have s: "flags_synced ino'" unfolding r(2) by (rule set_flags_synced)
  have g: "u_put u' \<Longrightarrow> kr_ioctl k u' sb' ino' KR_IOC_GETFLAGS = (None, Some (uint (i_flags ino' AND KR_FL_USER_VISIBLE)), sb', ino')" for u'
    using s by (simp add: kr_ioctl_def put_user_def flags_synced_def)
  have l: "\<not> u_immutable u \<Longrightarrow> bit (i_flags ino') 4 = bit (i_flags ino) 4 \<and> bit (i_flags ino') 5 = bit (i_flags ino) 5"
    using r(3) locked_bits b [of 4] b [of 5] bit_modifiable by auto
  show ?thesis using r(1) True s b g l by auto
qed

definition ex_user :: user where
  "ex_user = \<lparr>u_get = Some 0x88, u_put = True, u_want_write = None, u_owner = True, u_immutable = False\<rparr>"

theorem ioctl_flags_round_trip_witness:
  "\<exists>ino'. kr_ioctl ex_kernel ex_user ex_sb ex_inode KR_IOC_SETFLAGS = (None, None, ex_sb, ino') \<and> flags_synced ino' \<and> bit (i_flags ino') 7"
proof -
  have "fst (kr_ioctl ex_kernel ex_user ex_sb ex_inode KR_IOC_SETFLAGS) = None"
    "fst (snd (kr_ioctl ex_kernel ex_user ex_sb ex_inode KR_IOC_SETFLAGS)) = None" by code_simp+
  then obtain sb' ino' where r: "kr_ioctl ex_kernel ex_user ex_sb ex_inode KR_IOC_SETFLAGS = (None, None, sb', ino')"
    by (cases "kr_ioctl ex_kernel ex_user ex_sb ex_inode KR_IOC_SETFLAGS") auto
  have "bit (kr_mask_flags (i_mode ex_inode) (word_of_int 0x88)) 7" "bit KR_FL_USER_MODIFIABLE 7" by code_simp+
  then show ?thesis using ioctl_flags_round_trip [OF r, of "0x88"] r by (simp add: ex_user_def)
qed

section \<open>The size of the reservation window\<close>

lemma rsv_inv_outside:
  assumes "rsv_inv sb" "p \<notin> set (windows sb)" "rsv_end (f (rsv_node sb p)) = 0"
  shows "rsv_inv (upd_rsv p f sb)"
proof -
  have w: "windows (upd_rsv p f sb) = windows sb" by (simp add: windows_def upd_rsv_def)
  have "RsvHead \<in> set (windows sb)" using assms(1) by (cases "windows sb") (auto simp: rsv_inv_def)
  then have n: "p \<noteq> RsvHead" using assms(2) by auto
  have same: "rsv_node (upd_rsv p f sb) q = rsv_node sb q" if "q \<in> set (windows sb)" for q
    using that assms(2) by (auto simp: upd_rsv_def)
  have "rsv_sorted (rsv_node (upd_rsv p f sb)) (windows sb)"
  proof -
    have s: "sorted_wrt (\<lambda>p q. win_end sb p < win_start sb q) (windows sb)"
      "\<forall>q \<in> set (windows sb). 0 \<le> win_start sb q \<and> win_start sb q \<le> win_end sb q"
      using assms(1) unfolding rsv_inv_def rsv_sorted_def by blast+
    define node where "node = rsv_node (upd_rsv p f sb)"
    have n: "\<And>q. q \<in> set (windows sb) \<Longrightarrow> node q = rsv_node sb q" using same by (simp only: node_def)
    have "sorted_wrt (\<lambda>p q. rsv_end (node p) < rsv_start (node q)) (windows sb)"
      by (rule sorted_wrt_mono_rel [OF _ s(1)]) (simp add: n)
    then show ?thesis unfolding rsv_sorted_def node_def [symmetric] using s(2) n by simp
  qed
  moreover have "q \<in> set (windows sb) \<longleftrightarrow> q = RsvHead \<or> rsv_end (rsv_node (upd_rsv p f sb) q) \<noteq> 0" for q
    using assms n by (cases "q = p") (auto simp: rsv_inv_def upd_rsv_def)
  moreover have a: "windows sb \<noteq> []" "hd (windows sb) = RsvHead" "win_start sb RsvHead = 0" "win_end sb RsvHead = 0"
    "\<forall>q \<in> set (windows sb). win_end sb q < 1099511627776"
    using assms(1) unfolding rsv_inv_def by blast+
  moreover have "rsv_node (upd_rsv p f sb) RsvHead = rsv_node sb RsvHead" using n by (simp add: upd_rsv_def)
  moreover have "\<forall>q \<in> set (windows sb). win_end (upd_rsv p f sb) q < 1099511627776"
  proof
    fix q assume "q \<in> set (windows sb)"
    then show "win_end (upd_rsv p f sb) q < 1099511627776" using a(5) same [of q] by (simp only:)
  qed
  ultimately show ?thesis unfolding rsv_inv_def w by (simp only: simp_thms)
qed

text \<open>
  C38. Setting the size of the window of a regular file keeps the windows sorted and disjoint, stores
  at most \<^verbatim>\<open>KR_MAX_RESERVE_BLOCKS\<close>, whatever number is asked for, and reading it back gives the size
  that is stored.
\<close>

theorem ioctl_window_size_bounded:
  assumes "kr_ioctl k u sb ino KR_IOC_SETRSVSZ = (None, out, sb', ino')" "u_get u = Some arg" "rsv_inv sb"
    and "i_block_alloc_info ino = None \<longrightarrow> RsvOf (i_ino ino) \<notin> set (windows sb)" "k_kmalloc k \<or> i_block_alloc_info ino \<noteq> None"
  shows "rsv_inv sb' \<and> i_block_alloc_info ino' \<noteq> None \<and>
    uint (rsv_goal_size (rsv_node sb' (rsv_of ino'))) = min (u16 arg) KR_MAX_RESERVE_BLOCKS \<and>
    (\<forall>u'. u_put u' \<longrightarrow> kr_ioctl k u' sb' ino' KR_IOC_GETRSVSZ = (None, Some (min (u16 arg) KR_MAX_RESERVE_BLOCKS), sb', ino'))"
proof -
  let ?n = "if KR_MAX_RESERVE_BLOCKS < u16 arg then KR_MAX_RESERVE_BLOCKS else u16 arg"
  have n: "?n = min (u16 arg) KR_MAX_RESERVE_BLOCKS" "0 \<le> ?n" "?n \<le> 1027" by (auto simp: u16_def)
  define s where "s = (if i_block_alloc_info ino = None then kr_init_block_alloc_info k sb ino else (sb, ino))"
  have i: "rsv_inv (fst s)" "i_block_alloc_info (snd s) \<noteq> None" "i_ino (snd s) = i_ino ino" "i_mode (snd s) = i_mode ino"
    "test_opt (fst s) = test_opt sb"
  proof -
    show "rsv_inv (fst s)"
      using assms(3-5) rsv_inv_outside [of sb "rsv_of ino"] by (auto simp: s_def kr_init_block_alloc_info_def)
    show "i_block_alloc_info (snd s) \<noteq> None" "i_ino (snd s) = i_ino ino" "i_mode (snd s) = i_mode ino" "test_opt (fst s) = test_opt sb"
      using assms(5) by (auto simp: s_def kr_init_block_alloc_info_def fun_eq_iff test_opt_def upd_rsv_def)
  qed
  have r: "test_opt sb KR_MOUNT_RESERVATION" "S_ISREG (i_mode ino)"
    "sb' = upd_rsv (rsv_of (snd s)) (\<lambda>w. w\<lparr>rsv_goal_size := word_of_int ?n\<rparr>) (fst s)" "ino' = snd s"
    using assms(1,2) i(2) unfolding kr_ioctl_def ioctl_setrsvsz_def Let_def s_def [symmetric]
    by (auto split: option.splits if_splits prod.splits)
  have sz: "uint (rsv_goal_size (rsv_node sb' (rsv_of ino'))) = ?n"
    using n(2,3) by (simp add: r(3,4) upd_rsv_def uint_word_of_int_eq take_bit_int_eq_self)
  have inv: "rsv_inv sb'" unfolding r(3) using i(1) by (subst rsv_inv_set_goal_size)
  have "u16 (uint (rsv_goal_size (rsv_node sb' (rsv_of ino')))) = ?n" unfolding sz using n(2,3) by (simp add: u16_def)
  moreover have "test_opt sb' KR_MOUNT_RESERVATION" "S_ISREG (i_mode ino')"
    using r(1,2) i(4) fun_cong [OF i(5), of KR_MOUNT_RESERVATION] by (simp_all add: r(3,4) upd_rsv_def test_opt_def)
  ultimately show ?thesis using inv sz i(2) n(1) r(4) by (simp add: kr_ioctl_def put_user_def)
qed

theorem ioctl_window_size_bounded_witness:
  "\<exists>out sb' ino'. kr_ioctl ex_kernel (ex_user\<lparr>u_get := Some 5000\<rparr>) (ex_sb\<lparr>sbi := ex_sbi\<lparr>s_mount_opt := KR_MOUNT_RESERVATION\<rparr>\<rparr>) ex_inode KR_IOC_SETRSVSZ =
      (None, out, sb', ino') \<and> uint (rsv_goal_size (rsv_node sb' (rsv_of ino'))) = 1027"
proof -
  let ?u = "ex_user\<lparr>u_get := Some 5000\<rparr>" and ?sb = "ex_sb\<lparr>sbi := ex_sbi\<lparr>s_mount_opt := KR_MOUNT_RESERVATION\<rparr>\<rparr>"
  have "fst (kr_ioctl ex_kernel ?u ?sb ex_inode KR_IOC_SETRSVSZ) = None" by code_simp
  then obtain out sb' ino' where r: "kr_ioctl ex_kernel ?u ?sb ex_inode KR_IOC_SETRSVSZ = (None, out, sb', ino')"
    by (cases "kr_ioctl ex_kernel ?u ?sb ex_inode KR_IOC_SETRSVSZ") auto
  have "rsv_inv ?sb" "RsvOf (i_ino ex_inode) \<notin> set (windows ?sb)" "k_kmalloc ex_kernel"
    by (simp_all add: rsv_inv_def windows_def rsv_sorted_def ex_sb_def ex_kernel_def)
  then show ?thesis using ioctl_window_size_bounded [OF r, of 5000] r by (simp add: u16_def)
qed

section \<open>File handles\<close>

text \<open>
  A handle leads to an inode only if its number is in use for files and the generation is the one
  it was made for; the file system is not changed.
\<close>

lemma kr_nfs_get_inode_match:
  assumes "kr_nfs_get_inode k v nm sb nr gen = Some (Inr i, sb')" "0 \<le> KR_FIRST_INO sb" "KR_FIRST_INO sb < 4294967296"
  shows "known_inode sb nr" "gen = 0 \<or> i_generation i = gen" "sb' = sb"
proof -
  have f: "u64 (KR_FIRST_INO sb) = KR_FIRST_INO sb" using assms(2,3) by (simp add: u64_id)
  obtain r sb1 where r: "kr_iget k v sb nr = Some (r, sb1)" "known_inode sb nr"
    using assms(1) f by (auto simp: kr_nfs_get_inode_def known_inode_def split: if_splits bind_splits)
  then obtain ops where "r = Inr (i, ops)" "sb' = sb1" "gen = 0 \<or> i_generation i = gen"
    using assms(1) f by (auto simp: kr_nfs_get_inode_def known_inode_def split: if_splits sum.splits bind_splits)
  then show "known_inode sb nr" "gen = 0 \<or> i_generation i = gen" "sb' = sb" using r kr_iget_same by blast+
qed

section \<open>Failed writes\<close>

text \<open>
  A write that could not be begun leaves no blocks past the end of the file: what the kernel's code
  allocated is freed again.
\<close>

lemma kr_write_begin_failed:
  assumes "start sb ino pos len = Some (ret, sb1, ino1)" "ret < 0"
  shows "kr_write_begin k start sb ino pos len =
    (if i_size ino1 < pos + len
     then map_option (\<lambda>(sb2, ino2). (ret, sb2, ino2)) (kr_truncate_blocks k sb1 ino1 (i_size ino1)) else Some (ret, sb1, ino1))"
  using assms by (cases "kr_truncate_blocks k sb1 ino1 (i_size ino1)") (auto simp: kr_write_begin_def kr_write_failed_def)

text \<open>An error of \<^verbatim>\<open>generic_write_end\<close> does not count as less than the length.\<close>

lemma kr_write_end_ignores_error:
  assumes "finish sb ino pos len copied = Some (ret, sb1, ino1)" "- 4096 < ret" "ret < 0" "len \<le> 4096"
  shows "kr_write_end k finish sb ino pos len copied = Some (ret, sb1, ino1)"
proof -
  have "u32 ret = ret + 4294967296"
  proof -
    have "u32 ret = (ret + 4294967296) mod 4294967296" by (simp add: u32_def)
    also have "\<dots> = ret + 4294967296" by (rule mod_pos_pos_trivial) (use assms(2,3) in linarith)+
    finally show ?thesis .
  qed
  then show ?thesis using assms by (simp add: kr_write_end_def)
qed

end
