(* ===== verification/Kr_Quota.thy ===== *)
theory Kr_Quota
  imports Kr_Create
begin

text \<open>
  Quota files (\<^verbatim>\<open>super.c\<close>, \<^verbatim>\<open>kr_quota_read\<close> and \<^verbatim>\<open>kr_quota_write\<close>): reading and writing the bytes of
  a file through its block map. The contents of the data blocks are \<open>disk\<close>, a list of bytes for
  each block; \<open>ino\<close> is the inode \<^verbatim>\<open>sb_dqopt(sb)->files[type]\<close>. A length is that of the data.
\<close>

section \<open>Model\<close>

partial_function (option) quota_read_loop ::
  "kernel \<Rightarrow> (int \<Rightarrow> 8 word list) \<Rightarrow> super_block \<Rightarrow> inode \<Rightarrow> int \<Rightarrow> int \<Rightarrow> int \<Rightarrow> 8 word list \<Rightarrow>
   ((errno + 8 word list) \<times> super_block \<times> inode) option"
where
  "quota_read_loop k disk sb ino blk offset toread data =
     (if \<not> 0 < toread then Some (Inr data, sb, ino)
      else
        let tocopy = (if s_blocksize sb - offset < toread then s_blocksize sb - offset else toread) in
        do { (res, sb1, ino1) \<leftarrow> kr_get_block k sb ino blk (s_blocksize sb) False;
             case res of
               Inl e \<Rightarrow> Some (Inl e, sb1, ino1)
             | Inr None \<Rightarrow>
                 quota_read_loop k disk sb1 ino1 (blk + 1) 0 (toread - tocopy) (data @ replicate (nat tocopy) 0)
             | Inr (Some (b, _)) \<Rightarrow>
                 if \<not> sb_bread k (uint b) then Some (Inl EIO, sb1, ino1)
                 else quota_read_loop k disk sb1 ino1 (blk + 1) 0 (toread - tocopy)
                        (data @ take (nat tocopy) (drop (nat offset) (disk (uint b)))) })"

declare quota_read_loop.simps [code]

definition kr_quota_read ::
  "kernel \<Rightarrow> (int \<Rightarrow> 8 word list) \<Rightarrow> super_block \<Rightarrow> inode \<Rightarrow> int \<Rightarrow> int \<Rightarrow>
   ((errno + 8 word list) \<times> super_block \<times> inode) option"
where
  "kr_quota_read k disk sb ino len off =
     (let blk = drop_bit (s_blocksize_bits sb) off; offset = s32 (off AND (s_blocksize sb - 1)) in
      if i_size ino < off then Some (Inr [], sb, ino)
      else
        let len1 = (if u64 (i_size ino) < u64 (off + len) then u64 (i_size ino - off) else len)
        in quota_read_loop k disk sb ino blk offset len1 [])"

text \<open>
  The loop of \<^verbatim>\<open>kr_quota_write\<close> gives \<^verbatim>\<open>err\<close> and \<^verbatim>\<open>towrite\<close> at the label \<^verbatim>\<open>out\<close>. \<^verbatim>\<open>kr_get_block\<close>
  leaves no number in the buffer head if it maps nothing.
\<close>

partial_function (option) quota_write_loop ::
  "kernel \<Rightarrow> (int \<Rightarrow> 8 word list) \<Rightarrow> super_block \<Rightarrow> inode \<Rightarrow> int \<Rightarrow> int \<Rightarrow> 8 word list \<Rightarrow>
   (errno option \<times> int \<times> (int \<Rightarrow> 8 word list) \<times> super_block \<times> inode) option"
where
  "quota_write_loop k disk sb ino blk offset data =
     (let towrite = int (length data) in
      if \<not> 0 < towrite then Some (None, towrite, disk, sb, ino)
      else
        let tocopy = (if s_blocksize sb - offset < towrite then s_blocksize sb - offset else towrite) in
        do { (res, sb1, ino1) \<leftarrow> kr_get_block k sb ino blk (s_blocksize sb) True;
             case res of
               Inl e \<Rightarrow> Some (Some e, towrite, disk, sb1, ino1)
             | Inr None \<Rightarrow> None
             | Inr (Some (b, _)) \<Rightarrow>
                 if \<not> (if offset \<noteq> 0 \<or> tocopy \<noteq> s_blocksize sb1 then sb_bread k (uint b) else k_getblk k (uint b))
                 then Some (Some EIO, towrite, disk, sb1, ino1)
                 else
                   let old = disk (uint b);
                       new = take (nat offset) old @ take (nat tocopy) data @ drop (nat (offset + tocopy)) old
                   in quota_write_loop k (disk(uint b := new)) sb1 ino1 (blk + 1) 0 (drop (nat tocopy) data) })"

declare quota_write_loop.simps [code]

definition kr_quota_write ::
  "kernel \<Rightarrow> (int \<Rightarrow> 8 word list) \<Rightarrow> super_block \<Rightarrow> inode \<Rightarrow> 8 word list \<Rightarrow> int \<Rightarrow>
   ((errno + int) \<times> (int \<Rightarrow> 8 word list) \<times> super_block \<times> inode) option"
where
  "kr_quota_write k disk sb ino data off =
     (let len = int (length data); blk = drop_bit (s_blocksize_bits sb) off;
          offset = s32 (off AND (s_blocksize sb - 1)) in
      do { (err, towrite, disk1, sb1, ino1) \<leftarrow> quota_write_loop k disk sb ino blk offset data;
           if len = towrite then Some (case err of Some e \<Rightarrow> Inl e | None \<Rightarrow> Inr 0, disk1, sb1, ino1)
           else
             let ino2 = (if u64 (i_size ino1) < u64 (off + len - towrite) then ino1\<lparr>i_size := off + len - towrite\<rparr> else ino1)
             in Some (Inr (len - towrite), disk1, sb1, ino2\<lparr>i_mtime := k_now k, i_ctime := k_now k\<rparr>) })"

section \<open>The bytes of a file\<close>

definition file_byte :: "(int \<Rightarrow> 8 word list) \<Rightarrow> super_block \<Rightarrow> inode \<Rightarrow> int \<Rightarrow> 8 word" where
  "file_byte disk sb ino i =
     (let v = block_map sb ino (i div s_blocksize sb) in
      if v = 0 then 0 else disk (uint v) ! nat (i mod s_blocksize sb))"

definition disk_ok :: "(int \<Rightarrow> 8 word list) \<Rightarrow> super_block \<Rightarrow> bool" where
  "disk_ok disk sb =
     (s_blocksize sb = 2 ^ s_blocksize_bits sb \<and> s_blocksize_bits sb \<le> 16 \<and> (\<forall>b. int (length (disk b)) = s_blocksize sb))"

lemma disk_okD:
  assumes "disk_ok disk sb"
  shows "1 \<le> s_blocksize sb" "s_blocksize sb \<le> 65536" "int (length (disk b)) = s_blocksize sb"
    "u32 (drop_bit (s_blocksize_bits sb) (s_blocksize sb)) = 1" "drop_bit (s_blocksize_bits sb) x = x div s_blocksize sb"
    "s32 (x AND (s_blocksize sb - 1)) = x mod s_blocksize sb"
proof -
  have e: "s_blocksize sb = 2 ^ s_blocksize_bits sb" "s_blocksize_bits sb \<le> 16" using assms by (simp_all add: disk_ok_def)
  have "(2::int) ^ s_blocksize_bits sb \<le> 2 ^ 16" using e(2) by (intro power_increasing) simp_all
  then show b: "1 \<le> s_blocksize sb" "s_blocksize sb \<le> 65536" by (simp_all add: e(1))
  show "int (length (disk b)) = s_blocksize sb" using assms by (simp add: disk_ok_def)
  show d: "drop_bit (s_blocksize_bits sb) x = x div s_blocksize sb" for x by (simp add: drop_bit_eq_div e(1))
  show "u32 (drop_bit (s_blocksize_bits sb) (s_blocksize sb)) = 1" unfolding d using b by (simp add: u32_def)
  have "x AND (s_blocksize sb - 1) = x mod s_blocksize sb"
    by (simp add: e(1) flip: take_bit_eq_mod mask_eq_exp_minus_1 take_bit_eq_mask)
  moreover have "0 < s_blocksize sb" using b by simp
  then have "0 \<le> x mod s_blocksize sb" "x mod s_blocksize sb < 65536"
    using b pos_mod_bound [of "s_blocksize sb" x] pos_mod_sign [of "s_blocksize sb" x] by linarith+
  ultimately show "s32 (x AND (s_blocksize sb - 1)) = x mod s_blocksize sb" by (simp add: s32_id)
qed

lemma kr_get_block_lookup:
  assumes "io_ok k" "tree_ok sb ino" "disk_ok disk sb" "0 \<le> b" "b < file_blocks (KR_ADDR_PER_BLOCK sb)"
  shows "\<exists>n nw bd. kr_get_block k sb ino b (s_blocksize sb) False =
     Some (Inr (if block_map sb ino b = 0 then None else Some (block_map sb ino b, n, nw, bd)), sb, ino)"
proof -
  obtain res where r: "kr_get_blocks k sb ino b 1 False = Some (Inr res, sb, ino)"
      "case res of None \<Rightarrow> block_map sb ino b = 0 | Some m \<Rightarrow> m_bno m = block_map sb ino b \<and> m_bno m \<noteq> 0"
    using kr_get_blocks_lookup [OF assms(1,2) order.refl assms(4,5)] by (fastforce split: option.splits)
  show ?thesis
    using r by (cases res) (auto simp: kr_get_block_def disk_okD(4) [OF assms(3)])
qed

lemma block_bytes:
  fixes bs :: int
  assumes "0 \<le> offset" "0 \<le> i" "offset + i < bs"
  shows "(blk * bs + offset + i) div bs = blk" "(blk * bs + offset + i) mod bs = offset + i"
proof -
  have e: "blk * bs + offset + i = (offset + i) + blk * bs" by simp
  have "(offset + i) div bs = 0" "(offset + i) mod bs = offset + i" using assms by simp_all
  then show "(blk * bs + offset + i) div bs = blk" "(blk * bs + offset + i) mod bs = offset + i" using assms unfolding e by simp_all
qed

text \<open>Reading gives the bytes of the file, zeroes for absent blocks, and changes nothing.\<close>

lemma quota_read_loop_ok:
  assumes k: "io_ok k" and ok: "tree_ok sb ino" "disk_ok disk sb"
  shows "0 \<le> blk \<Longrightarrow> 0 \<le> offset \<Longrightarrow> offset < s_blocksize sb \<Longrightarrow> blk * s_blocksize sb + offset + int n \<le> file_blocks (KR_ADDR_PER_BLOCK sb) * s_blocksize sb \<Longrightarrow>
    quota_read_loop k disk sb ino blk offset (int n) data =
      Some (Inr (data @ map (\<lambda>i. file_byte disk sb ino (blk * s_blocksize sb + offset + int i)) [0..<n]), sb, ino)"
proof (induction n arbitrary: blk offset data rule: less_induct)
  case (less n)
  let ?bs = "s_blocksize sb" and ?N = "file_blocks (KR_ADDR_PER_BLOCK sb)"
  note D = disk_okD [OF ok(2)]
  show ?case
  proof (cases "n = 0")
    case True
    then show ?thesis by (subst quota_read_loop.simps) simp
  next
    case False
    define t where "t = (if ?bs - offset < int n then ?bs - offset else int n)"
    have t: "1 \<le> t" "t \<le> int n" "offset + t \<le> ?bs" "t < int n \<Longrightarrow> offset + t = ?bs" using less.prems(2,3) False by (auto simp: t_def split: if_splits)
    have b: "blk < ?N"
    proof -
      have "blk * ?bs < ?N * ?bs" using less.prems(2,4) False by linarith
      then show ?thesis using D(1) by simp
    qed
    let ?v = "block_map sb ino blk"
    obtain x nw bd where r: "kr_get_block k sb ino blk ?bs False = Some (Inr (if ?v = 0 then None else Some (?v, x, nw, bd)), sb, ino)"
      using kr_get_block_lookup [OF k ok less.prems(1) b] by blast
    let ?f = "\<lambda>i. file_byte disk sb ino (blk * ?bs + offset + int i)"
    let ?piece = "if ?v = 0 then replicate (nat t) 0 else take (nat t) (drop (nat offset) (disk (uint ?v)))"
    have fb: "?f i = (if ?v = 0 then 0 else disk (uint ?v) ! (nat offset + i))" if "i < nat t" for i
    proof -
      have "(blk * ?bs + offset + int i) div ?bs = blk" "(blk * ?bs + offset + int i) mod ?bs = offset + int i"
        using block_bytes [OF less.prems(2), of "int i" ?bs blk] that t(3) by auto
      moreover have "nat (offset + int i) = nat offset + i" using less.prems(2) by simp
      ultimately show ?thesis by (simp add: file_byte_def Let_def)
    qed
    have piece: "?piece = map ?f [0..<nat t]"
    proof (rule nth_equalityI)
      have "nat t \<le> length (disk (uint ?v)) - nat offset" using D(3) [of "uint ?v"] t(3) less.prems(2) by linarith
      then show "length ?piece = length (map ?f [0..<nat t])" by simp
      show "?piece ! i = map ?f [0..<nat t] ! i" if "i < length ?piece" for i
        using that fb [of i] by (auto split: if_splits)
    qed
    have step: "quota_read_loop k disk sb ino blk offset (int n) data = quota_read_loop k disk sb ino (blk + 1) 0 (int n - t) (data @ ?piece)"
      using k False r by (subst quota_read_loop.simps) (simp add: t_def [symmetric] Let_def sb_bread_def io_ok_def)
    have n: "int n - t = int (n - nat t)" "n - nat t < n" using t False by (auto simp: of_nat_diff)
    show ?thesis
    proof (cases "t < int n")
      case True
      have e: "(blk + 1) * ?bs + 0 + int i = blk * ?bs + offset + int (nat t + i)" for i using t(1) t(4) [OF True] by (simp add: algebra_simps)
      have "(blk + 1) * ?bs + 0 + int (n - nat t) \<le> ?N * ?bs"
      proof -
        have "int (nat t + (n - nat t)) = int n" using t by simp
        then show ?thesis using less.prems(4) unfolding e by simp
      qed
      then have "quota_read_loop k disk sb ino (blk + 1) 0 (int (n - nat t)) (data @ ?piece) =
          Some (Inr ((data @ ?piece) @ map (\<lambda>i. ?f (nat t + i)) [0..<n - nat t]), sb, ino)"
        using less.IH [OF n(2), of "blk + 1" 0 "data @ ?piece"] less.prems(1) D(1) unfolding e by simp
      moreover have "map ?f [0..<nat t] @ map (\<lambda>i. ?f (nat t + i)) [0..<n - nat t] = map ?f [0..<n]"
      proof (rule nth_equalityI)
        show "length (map ?f [0..<nat t] @ map (\<lambda>i. ?f (nat t + i)) [0..<n - nat t]) = length (map ?f [0..<n])" using t by simp
        show "(map ?f [0..<nat t] @ map (\<lambda>i. ?f (nat t + i)) [0..<n - nat t]) ! i = map ?f [0..<n] ! i"
          if "i < length (map ?f [0..<nat t] @ map (\<lambda>i. ?f (nat t + i)) [0..<n - nat t])" for i
          using that t by (auto simp: nth_append)
      qed
      ultimately show ?thesis unfolding step n(1) piece by simp
    next
      case False
      then have "t = int n" using t(2) by simp
      then show ?thesis unfolding step piece by (subst quota_read_loop.simps) simp
    qed
  qed
qed

lemma kr_quota_read_ok:
  assumes "io_ok k" "tree_ok sb ino" "disk_ok disk sb" "0 \<le> off" "0 \<le> len" "len < 4611686018427387904"
    and "i_size ino \<le> file_blocks (KR_ADDR_PER_BLOCK sb) * s_blocksize sb" "i_size ino < 4611686018427387904" "off \<le> i_size ino"
  shows "kr_quota_read k disk sb ino len off =
    Some (Inr (map (\<lambda>i. file_byte disk sb ino (off + int i)) [0..<nat (min len (i_size ino - off))]), sb, ino)"
proof -
  let ?bs = "s_blocksize sb"
  note D = disk_okD [OF assms(3)]
  have u: "u64 (i_size ino) = i_size ino" "u64 (off + len) = off + len" "u64 (i_size ino - off) = i_size ino - off"
    using assms by (auto intro!: u64_id)
  have m: "(if u64 (i_size ino) < u64 (off + len) then u64 (i_size ino - off) else len) = int (nat (min len (i_size ino - off)))"
    unfolding u using assms by auto
  have o: "off div ?bs * ?bs + off mod ?bs = off" by simp
  have "0 < ?bs" using D(1) by simp
  then have r: "0 \<le> off div ?bs" "0 \<le> off mod ?bs" "off mod ?bs < ?bs" using assms(4) by (simp_all add: pos_imp_zdiv_nonneg_iff)
  have "off div ?bs * ?bs + off mod ?bs + int (nat (min len (i_size ino - off))) \<le> file_blocks (KR_ADDR_PER_BLOCK sb) * ?bs"
    unfolding o using assms by auto
  from quota_read_loop_ok [OF assms(1-3) r this, of "[]"] show ?thesis
    unfolding kr_quota_read_def Let_def D(5,6) m o using assms(9) by simp
qed

section \<open>Writing\<close>

lemma block_map_inj:
  assumes ok: "file_ok sb ino" and e: "block_map sb ino x = block_map sb ino y" "block_map sb ino x \<noteq> 0"
  shows "x = y"
proof -
  let ?p = "KR_ADDR_PER_BLOCK sb"
  have a: "addr_ok sb" "inj_on (walk_path sb ino) (live sb ino)" using ok by (simp_all add: file_ok_def tree_ok_def)
  note p16 = addr_okD(2) [OF a(1)]
  have r: "path_ok ?p (fst (kr_block_to_path sb z)) \<and> path_block ?p (fst (kr_block_to_path sb z)) = z" if "block_map sb ino z \<noteq> 0" for z
    using that block_map_out [OF a(1), of z ino] block_to_path_eq(1,2) [OF a(1), of z] by force
  have l: "fst (kr_block_to_path sb z) \<in> live sb ino" if "block_map sb ino z \<noteq> 0" for z
    using r [OF that] that path_ok_iff [OF p16] by (simp add: live_def block_map_def)
  have "fst (kr_block_to_path sb x) = fst (kr_block_to_path sb y)"
    using inj_onD [OF a(2) _ l l, of x y] e by (simp add: block_map_def)
  then show ?thesis using r [of x] r [of y] e by metis
qed

text \<open>A file that can be written: allocation works, and the size of the blocks is known.\<close>

definition writable :: "kernel \<Rightarrow> (int \<Rightarrow> 8 word list) \<Rightarrow> super_block \<Rightarrow> inode \<Rightarrow> bool" where
  "writable k disk sb ino =
     (fs_ok sb \<and> file_ok sb ino \<and> unreserved k sb ino \<and> 0 \<notin> free_set sb \<and> \<not> IS_DAX ino \<and> disk_ok disk sb)"

text \<open>
  What writing \<open>n\<close> bytes of \<open>data\<close> at \<open>a\<close> does: they are in the file, no other byte of a block that was
  there changes, and no block outside the file is touched.
\<close>

definition stored ::
  "(int \<Rightarrow> 8 word list) \<Rightarrow> super_block \<Rightarrow> inode \<Rightarrow> int \<Rightarrow> 8 word list \<Rightarrow> int \<Rightarrow> (int \<Rightarrow> 8 word list) \<Rightarrow> super_block \<Rightarrow> inode \<Rightarrow> bool" where
  "stored disk sb ino a data n disk' sb' ino' =
     ((\<forall>i. 0 \<le> i \<and> i < n \<longrightarrow> block_map sb' ino' ((a + i) div s_blocksize sb) \<noteq> 0 \<and> file_byte disk' sb' ino' (a + i) = data ! nat i) \<and>
      (\<forall>i. i < a \<or> a + n \<le> i \<longrightarrow> block_map sb ino (i div s_blocksize sb) \<noteq> 0 \<longrightarrow> file_byte disk' sb' ino' i = file_byte disk sb ino i) \<and>
      (\<forall>x. block_map sb ino x \<noteq> 0 \<longrightarrow> block_map sb' ino' x = block_map sb ino x) \<and>
      (\<forall>b. b \<notin> owned sb' ino' \<longrightarrow> disk' b = disk b) \<and>
      owned sb ino \<subseteq> owned sb' ino' \<and> owned sb' ino' \<subseteq> owned sb ino \<union> free_set sb \<and> free_set sb' \<subseteq> free_set sb \<and>
      same_super sb sb' \<and> same_kind ino ino')"

lemma same_super_size: "same_super sb sb' \<Longrightarrow> s_blocksize sb' = s_blocksize sb" "same_super sb sb' \<Longrightarrow> s_blocksize_bits sb' = s_blocksize_bits sb"
    "same_super sb sb' \<Longrightarrow> KR_ADDR_PER_BLOCK sb' = KR_ADDR_PER_BLOCK sb"
  by (simp_all add: same_super_def KR_ADDR_PER_BLOCK_def)

lemma same_super_trans: "same_super a b \<Longrightarrow> same_super b c \<Longrightarrow> same_super a c"
  by (simp add: same_super_def) (metis kr_sb_info.surjective kr_sb_info.update_convs(24))

lemma same_kind_refl [simp]: "same_kind ino ino"
  by (simp add: same_kind_def)

text \<open>The block of one round: it is there, or has been allocated.\<close>

lemma kr_get_block_create:
  assumes k: "io_ok k" "quota_ok k" and w: "writable k disk sb ino" and b: "0 \<le> b" "b < file_blocks (KR_ADDR_PER_BLOCK sb)"
  obtains (failed) e sb' ino' where "kr_get_block k sb ino b (s_blocksize sb) True = Some (Inl e, sb', ino')"
      "writable k disk sb' ino'" "block_map sb' ino' = block_map sb ino" "free_set sb' = free_set sb" "owned sb' ino' = owned sb ino"
      "same_super sb sb'" "same_kind ino ino'" "block_map sb ino b = 0"
  | (mapped) m sb' ino' where "kr_get_block k sb ino b (s_blocksize sb) True = Some (Inr (Some m), sb', ino')"
      "writable k disk sb' ino'" "fst m = block_map sb' ino' b" "block_map sb' ino' b \<noteq> 0"
      "\<forall>x. x \<noteq> b \<longrightarrow> block_map sb' ino' x = block_map sb ino x" "block_map sb ino b \<noteq> 0 \<longrightarrow> block_map sb' ino' b = block_map sb ino b"
      "owned sb ino \<subseteq> owned sb' ino'" "owned sb' ino' \<subseteq> owned sb ino \<union> free_set sb" "free_set sb' \<subseteq> free_set sb"
      "same_super sb sb'" "same_kind ino ino'"
proof -
  have W: "fs_ok sb" "file_ok sb ino" "unreserved k sb ino" "0 \<notin> free_set sb" "\<not> IS_DAX ino" "disk_ok disk sb" using w by (simp_all add: writable_def)
  have t: "tree_ok sb ino" using W(2) by (simp add: file_ok_def)
  obtain res sb' ino' where r: "kr_get_blocks k sb ino b 1 True = Some (res, sb', ino')"
      "if block_map sb ino b = 0 then created sb ino b 1 res sb' ino'
       else kr_get_blocks k sb ino b 1 False = Some (res, sb', ino') \<and> sb' = sb \<and> ino' = ino"
    using kr_get_blocks_create [OF k W(1-5) b order.refl] by blast
  note D = disk_okD(4) [OF W(6)]
  show ?thesis
  proof (cases "block_map sb ino b = 0")
    case False
    then have "kr_get_blocks k sb ino b 1 False = Some (res, sb, ino)" "sb' = sb" "ino' = ino" using r(2) by simp_all
    moreover from this obtain m where "res = Inr (Some m)" "m_bno m = block_map sb ino b"
      using kr_get_blocks_lookup [OF k(1) t order.refl b] False by (auto split: option.splits)
    ultimately show ?thesis using r(1) w False
      by (intro mapped [of "(m_bno m, push_bit (s_blocksize_bits sb) (m_count m), m_new m, m_boundary m)" sb ino]) (auto simp: kr_get_block_def D)
  next
    case True
    then have c: "created sb ino b 1 res sb' ino'" using r(2) by simp
    have ss: "same_super sb sb'" using c by (simp add: created_def)
    have "disk_ok disk sb'" using W(6) by (simp add: disk_ok_def same_super_size(1,2) [OF ss])
    moreover have "\<not> IS_DAX ino'" using W(5) c by (simp add: created_def same_kind_def IS_DAX_def)
    ultimately have w': "writable k disk sb' ino'"
      using c created_unreserved [OF c W(3)] W(4) by (auto simp: writable_def created_def)
    show ?thesis
    proof (cases res)
      case (Inl e)
      then show ?thesis using r(1) c w' D True by (intro failed [of e sb' ino']) (auto simp: kr_get_block_def created_def)
    next
      case (Inr x)
      then obtain m where m: "res = Inr (Some m)" using c by (cases x) (auto simp: created_def)
      have C: "1 \<le> m_count m" "m_count m \<le> 1" "{uint (m_bno m)..<uint (m_bno m) + m_count m} \<subseteq> free_set sb - free_set sb'"
          "\<And>x. block_map sb' ino' x = (if b \<le> x \<and> x < b + m_count m then word_of_int (uint (m_bno m) + (x - b)) else block_map sb ino x)"
          "owned sb' ino' = owned sb ino \<union> (free_set sb - free_set sb')" "free_set sb' \<subseteq> free_set sb" "same_super sb sb'" "same_kind ino ino'"
        using c unfolding m created_def by simp_all
      have one: "m_count m = 1" using C(1,2) by simp
      have bm: "block_map sb' ino' b = m_bno m" "\<forall>x. x \<noteq> b \<longrightarrow> block_map sb' ino' x = block_map sb ino x" using C(4) unfolding one by auto
      have "uint (m_bno m) \<in> free_set sb" using C(3) unfolding one by auto
      then have nz: "block_map sb' ino' b \<noteq> 0" using W(4) unfolding bm(1) by (metis unsigned_0)
      show ?thesis using r(1) w' C(5-8) bm nz True D m
        by (intro mapped [of "(m_bno m, push_bit (s_blocksize_bits sb') (m_count m), m_new m, m_boundary m)" sb' ino']) (auto simp: kr_get_block_def)
    qed
  qed
qed

lemma stored_none:
  assumes "block_map sb' ino' = block_map sb ino" "free_set sb' = free_set sb" "owned sb' ino' = owned sb ino" "same_super sb sb'" "same_kind ino ino'"
  shows "stored disk sb ino a data 0 disk sb' ino'"
  using assms by (auto simp: stored_def file_byte_def Let_def same_super_size)

text \<open>One round writes into the block that was got.\<close>

lemma stored_block:
  assumes w: "writable k disk sb1 ino1" and v: "v = block_map sb1 ino1 blk" "v \<noteq> 0"
    and bm: "\<forall>x. x \<noteq> blk \<longrightarrow> block_map sb1 ino1 x = block_map sb ino x" "block_map sb ino blk \<noteq> 0 \<longrightarrow> block_map sb1 ino1 blk = block_map sb ino blk"
    and ow: "owned sb ino \<subseteq> owned sb1 ino1" "owned sb1 ino1 \<subseteq> owned sb ino \<union> free_set sb" "free_set sb1 \<subseteq> free_set sb"
    and ss: "same_super sb sb1" "same_kind ino ino1" and bs: "bs = s_blocksize sb"
    and o: "0 \<le> offset" "0 \<le> t" "offset + t \<le> bs" "t \<le> int (length data)"
  defines "new \<equiv> take (nat offset) (disk (uint v)) @ take (nat t) data @ drop (nat (offset + t)) (disk (uint v))"
  shows "stored disk sb ino (blk * bs + offset) data t (disk(uint v := new)) sb1 ino1" "writable k (disk(uint v := new)) sb1 ino1"
proof -
  have f: "file_ok sb1 ino1" "disk_ok disk sb1" using w by (simp_all add: writable_def)
  note D = disk_okD [OF f(2)]
  have b1: "s_blocksize sb1 = bs" using same_super_size(1) [OF ss(1)] bs by simp
  have len: "length (disk (uint v)) = nat bs" "0 < bs" using D(1) D(3) [of "uint v"] b1 by auto
  have ln: "length new = nat bs" unfolding new_def using len o by (simp add: nat_add_distrib)
  have "int (length new) = s_blocksize sb1" using ln len(2) b1 by simp
  then have "int (length ((disk(uint v := new)) b)) = s_blocksize sb1" for b using D(3) [of b] by (cases "b = uint v") auto
  then have "disk_ok (disk(uint v := new)) sb1" using f(2) unfolding disk_ok_def by blast
  then show "writable k (disk(uint v := new)) sb1 ino1" using w by (simp add: writable_def)
  have inside: "new ! nat (offset + i) = data ! nat i" if "0 \<le> i" "i < t" for i
  proof -
    have e: "nat (offset + i) = nat offset + nat i" using o that by (simp add: nat_add_distrib)
    have "length (take (nat offset) (disk (uint v))) = nat offset" using len o by simp
    then show ?thesis unfolding new_def e using that o by (simp add: nth_append)
  qed
  have outside: "new ! nat j = disk (uint v) ! nat j" if "0 \<le> j" "j < bs" "j < offset \<or> offset + t \<le> j" for j
  proof (cases "j < offset")
    case True
    then show ?thesis unfolding new_def using len o that by (simp add: nth_append)
  next
    case False
    have l: "length (take (nat offset) (disk (uint v))) = nat offset" "length (take (nat t) data) = nat t" using len o by simp_all
    have m: "\<not> nat j < nat offset" "\<not> nat j - nat offset < nat t" "nat (offset + t) + (nat j - nat offset - nat t) = nat j"
      using False that o by linarith+
    have "new ! nat j = drop (nat (offset + t)) (disk (uint v)) ! (nat j - nat offset - nat t)"
      unfolding new_def nth_append l if_not_P [OF m(1)] if_not_P [OF m(2)] ..
    also have "\<dots> = disk (uint v) ! nat j" using m(3) len o by (subst nth_drop) simp_all
    finally show ?thesis .
  qed
  have other: "uint u \<noteq> uint v" if "u = block_map sb1 ino1 x" "x \<noteq> blk" "u \<noteq> 0" for u x
    using block_map_inj [OF f(1), of x blk] that v by (auto simp flip: word_uint_eq_iff)
  have dm: "(blk * bs + offset + i) div bs = blk" "(blk * bs + offset + i) mod bs = offset + i" if "0 \<le> i" "i < t" for i
    using block_bytes [OF o(1) that(1), of bs blk] that o(3) by simp_all
  show "stored disk sb ino (blk * bs + offset) data t (disk(uint v := new)) sb1 ino1"
    unfolding stored_def bs [symmetric]
  proof (intro conjI allI impI)
    fix i assume i: "0 \<le> i \<and> i < t"
    then show "block_map sb1 ino1 ((blk * bs + offset + i) div bs) \<noteq> 0" using dm(1) [of i] v by simp
    show "file_byte (disk(uint v := new)) sb1 ino1 (blk * bs + offset + i) = data ! nat i"
      using dm [of i] i v inside [of i] by (simp add: file_byte_def Let_def b1)
  next
    fix i assume i: "i < blk * bs + offset \<or> blk * bs + offset + t \<le> i" and m: "block_map sb ino (i div bs) \<noteq> 0"
    have same: "block_map sb1 ino1 (i div bs) = block_map sb ino (i div bs)" using bm m by (cases "i div bs = blk") auto
    show "file_byte (disk(uint v := new)) sb1 ino1 i = file_byte disk sb ino i"
    proof (cases "i div bs = blk")
      case True
      have "i = blk * bs + i mod bs" using True by (metis div_mult_mod_eq)
      then have "i mod bs < offset \<or> offset + t \<le> i mod bs" using i by linarith
      moreover have "0 \<le> i mod bs" "i mod bs < bs" using len(2) by simp_all
      ultimately have "new ! nat (i mod bs) = disk (uint v) ! nat (i mod bs)" by (intro outside)
      then show ?thesis using True same m v by (simp add: file_byte_def Let_def b1 flip: bs)
    next
      case False
      then show ?thesis using other [OF refl False] same m by (simp add: file_byte_def Let_def b1 flip: bs)
    qed
  next
    fix x assume "block_map sb ino x \<noteq> 0"
    then show "block_map sb1 ino1 x = block_map sb ino x" using bm by (cases "x = blk") auto
  next
    fix b assume b: "b \<notin> owned sb1 ino1"
    have "uint v \<in> owned sb1 ino1"
    proof -
      have a: "addr_ok sb1" using f(1) by (simp add: file_ok_def tree_ok_def)
      have "path_ok (KR_ADDR_PER_BLOCK sb1) (fst (kr_block_to_path sb1 blk))"
        using v block_map_out [OF a, of blk ino1] block_to_path_eq(1) [OF a, of blk] by force
      then have "fst (kr_block_to_path sb1 blk) \<in> live sb1 ino1"
        using v path_ok_iff [OF addr_okD(2) [OF a]] by (simp add: live_def block_map_def)
      then show ?thesis using v(1) by (auto simp: owned_def block_map_def)
    qed
    then show "(disk(uint v := new)) b = disk b" using b by auto
  qed (use ow ss in simp_all)
qed

lemma stored_trans:
  assumes s: "stored disk sb ino a data n disk1 sb1 ino1" and s2: "stored disk1 sb1 ino1 (a + n) (drop (nat n) data) n' disk2 sb2 ino2"
    and n: "0 \<le> n" "0 \<le> n'" "n \<le> int (length data)"
  shows "stored disk sb ino a data (n + n') disk2 sb2 ino2"
proof -
  note S = s [unfolded stored_def] and T = s2 [unfolded stored_def]
  have bs: "s_blocksize sb1 = s_blocksize sb" using S same_super_size(1) by blast
  have new: "block_map sb1 ino1 ((a + i) div s_blocksize sb) \<noteq> 0 \<and> file_byte disk1 sb1 ino1 (a + i) = data ! nat i" if "0 \<le> i" "i < n" for i using S that by blast
  have new2: "block_map sb2 ino2 ((a + n + i) div s_blocksize sb) \<noteq> 0 \<and> file_byte disk2 sb2 ino2 (a + n + i) = drop (nat n) data ! nat i" if "0 \<le> i" "i < n'" for i
    using T that unfolding bs by blast
  have old: "file_byte disk1 sb1 ino1 i = file_byte disk sb ino i" if "i < a \<or> a + n \<le> i" "block_map sb ino (i div s_blocksize sb) \<noteq> 0" for i
    using S that by blast
  have old2: "file_byte disk2 sb2 ino2 i = file_byte disk1 sb1 ino1 i" if "i < a + n \<or> a + n + n' \<le> i" "block_map sb1 ino1 (i div s_blocksize sb) \<noteq> 0" for i
    using T that unfolding bs by blast
  have bm: "block_map sb1 ino1 x = block_map sb ino x" if "block_map sb ino x \<noteq> 0" for x using S that by blast
  have bm2: "block_map sb2 ino2 x = block_map sb1 ino1 x" if "block_map sb1 ino1 x \<noteq> 0" for x using T that by blast
  show ?thesis
    unfolding stored_def
  proof (intro conjI allI impI)
    fix i assume i: "0 \<le> i \<and> i < n + n'"
    have "block_map sb2 ino2 ((a + i) div s_blocksize sb) \<noteq> 0 \<and> file_byte disk2 sb2 ino2 (a + i) = data ! nat i"
    proof (cases "i < n")
      case True
      then show ?thesis using new [of i] i old2 [of "a + i"] bm2 by simp
    next
      case False
      have "drop (nat n) data ! nat (i - n) = data ! nat i" using False n i by (subst nth_drop) (simp_all add: nat_diff_distrib)
      then show ?thesis using new2 [of "i - n"] False i by simp
    qed
    then show "block_map sb2 ino2 ((a + i) div s_blocksize sb) \<noteq> 0" "file_byte disk2 sb2 ino2 (a + i) = data ! nat i" by simp_all
  next
    fix i assume "i < a \<or> a + (n + n') \<le> i" "block_map sb ino (i div s_blocksize sb) \<noteq> 0"
    then show "file_byte disk2 sb2 ino2 i = file_byte disk sb ino i" using old [of i] old2 [of i] bm n by (auto simp: algebra_simps)
  next
    show "block_map sb2 ino2 x = block_map sb ino x" if "block_map sb ino x \<noteq> 0" for x using bm [OF that] bm2 [of x] that by simp
    show "disk2 b = disk b" if "b \<notin> owned sb2 ino2" for b
    proof -
      have "disk2 b = disk1 b" "b \<notin> owned sb1 ino1" using T that by blast+
      then show ?thesis using S by simp
    qed
    show "same_super sb sb2" using S T same_super_trans by blast
    show "same_kind ino ino2" using S T same_kind_trans by blast
  qed (use S T in blast)+
qed

lemma quota_write_loop_ok:
  assumes k: "io_ok k" "quota_ok k"
  shows "writable k disk sb ino \<Longrightarrow> 0 \<le> blk \<Longrightarrow> 0 \<le> offset \<Longrightarrow> offset < s_blocksize sb \<Longrightarrow>
      blk * s_blocksize sb + offset + int (length data) \<le> file_blocks (KR_ADDR_PER_BLOCK sb) * s_blocksize sb \<Longrightarrow>
    \<exists>err left disk' sb' ino'. quota_write_loop k disk sb ino blk offset data = Some (err, left, disk', sb', ino') \<and>
      0 \<le> left \<and> left \<le> int (length data) \<and> (err = None \<longrightarrow> left = 0) \<and> (left = 0 \<longrightarrow> err = None) \<and> writable k disk' sb' ino' \<and>
      (left = int (length data) \<longrightarrow> block_map sb' ino' = block_map sb ino \<and> disk' = disk \<and> free_set sb' = free_set sb) \<and>
      ((\<forall>i. 0 \<le> i \<and> i < int (length data) \<longrightarrow> block_map sb ino ((blk * s_blocksize sb + offset + i) div s_blocksize sb) \<noteq> 0) \<longrightarrow> left = 0) \<and>
      stored disk sb ino (blk * s_blocksize sb + offset) data (int (length data) - left) disk' sb' ino'"
proof (induction "length data" arbitrary: disk sb ino blk offset data rule: less_induct)
  case less
  let ?bs = "s_blocksize sb" and ?n = "int (length data)" and ?N = "file_blocks (KR_ADDR_PER_BLOCK sb)"
  note w = less.prems(1)
  have dk: "disk_ok disk sb" using w by (simp add: writable_def)
  note D = disk_okD [OF dk]
  show ?case
  proof (cases "data = []")
    case True
    have "quota_write_loop k disk sb ino blk offset data = Some (None, 0, disk, sb, ino)" using True by (subst quota_write_loop.simps) simp
    moreover have "stored disk sb ino (blk * ?bs + offset) data 0 disk sb ino" by (rule stored_none) simp_all
    ultimately show ?thesis using True w by (intro exI [of _ None] exI [of _ "0::int"] exI [of _ disk] exI [of _ sb] exI [of _ ino]) simp
  next
    case False
    define t where "t = (if ?bs - offset < ?n then ?bs - offset else ?n)"
    have n: "0 < ?n" using False by simp
    then have n1: "1 \<le> ?n" by linarith
    have t: "1 \<le> t" "t \<le> ?n" "offset + t \<le> ?bs" "t < ?n \<Longrightarrow> offset + t = ?bs" using less.prems(3,4) n1 by (auto simp: t_def split: if_splits)
    have b: "blk < ?N"
    proof -
      have "blk * ?bs < ?N * ?bs" using less.prems(3,5) n by linarith
      then show ?thesis using D(1) by simp
    qed
    show ?thesis
    proof (cases rule: kr_get_block_create [OF k w less.prems(2) b, case_names failed mapped])
      case (failed e sb' ino')
      have "quota_write_loop k disk sb ino blk offset data = Some (Some e, ?n, disk, sb', ino')"
        using n failed(1) by (subst quota_write_loop.simps) (simp add: Let_def t_def [symmetric])
      moreover have "stored disk sb ino (blk * ?bs + offset) data 0 disk sb' ino'" by (rule stored_none [OF failed(3-7)])
      moreover have "\<exists>i. 0 \<le> i \<and> i < ?n \<and> block_map sb ino ((blk * ?bs + offset + i) div ?bs) = 0"
        using failed(8) block_bytes(1) [OF less.prems(3), of 0 ?bs blk] less.prems(4) n by (intro exI [of _ 0]) simp
      ultimately show ?thesis using failed(2-4) n
        by (intro exI [of _ "Some e"] exI [of _ ?n] exI [of _ disk] exI [of _ sb'] exI [of _ ino']) simp
    next
      case (mapped m sb1 ino1)
      define v where "v = block_map sb1 ino1 blk"
      define new where "new = take (nat offset) (disk (uint v)) @ take (nat t) data @ drop (nat (offset + t)) (disk (uint v))"
      note S = stored_block [OF mapped(2) v_def mapped(4) [folded v_def] mapped(5,6) mapped(7-11) refl less.prems(3) _ t(3) t(2)]
      have st: "stored disk sb ino (blk * ?bs + offset) data t (disk(uint v := new)) sb1 ino1" "writable k (disk(uint v := new)) sb1 ino1"
        using S t(1) by (simp_all add: new_def)
      have m: "fst m = v" "s_blocksize sb1 = ?bs" "KR_ADDR_PER_BLOCK sb1 = KR_ADDR_PER_BLOCK sb"
        using mapped(3) same_super_size(1,3) [OF mapped(10)] by (simp_all add: v_def)
      have step: "quota_write_loop k disk sb ino blk offset data = quota_write_loop k (disk(uint v := new)) sb1 ino1 (blk + 1) 0 (drop (nat t) data)"
        using n k(1) mapped(1) m(1) by (cases m, subst quota_write_loop.simps)
          (simp add: Let_def t_def [symmetric] new_def [symmetric] sb_bread_def io_ok_def)
      have dl: "length (drop (nat t) data) < length data" "int (length (drop (nat t) data)) = ?n - t" using t(1,2) n by auto
      show ?thesis
      proof (cases "t < ?n")
        case True
        have e: "(blk + 1) * ?bs + 0 = blk * ?bs + offset + t" using t(4) [OF True] by (simp add: algebra_simps)
        have "(blk + 1) * ?bs + 0 + int (length (drop (nat t) data)) \<le> ?N * ?bs" unfolding e dl(2) using less.prems(5) by simp
        then have pre: "0 \<le> blk + 1" "0 \<le> (0::int)" "0 < s_blocksize sb1"
            "(blk + 1) * s_blocksize sb1 + 0 + int (length (drop (nat t) data)) \<le> file_blocks (KR_ADDR_PER_BLOCK sb1) * s_blocksize sb1"
          using less.prems(2) D(1) by (simp_all add: m(2,3))
        obtain err left disk' sb' ino' where r:
          "quota_write_loop k (disk(uint v := new)) sb1 ino1 (blk + 1) 0 (drop (nat t) data) = Some (err, left, disk', sb', ino')"
          "0 \<le> left" "left \<le> ?n - t" "err = None \<longrightarrow> left = 0" "left = 0 \<longrightarrow> err = None" "writable k disk' sb' ino'"
          "stored (disk(uint v := new)) sb1 ino1 (blk * ?bs + offset + t) (drop (nat t) data) (?n - t - left) disk' sb' ino'"
          "(\<forall>i. 0 \<le> i \<and> i < ?n - t \<longrightarrow> block_map sb1 ino1 ((blk * ?bs + offset + t + i) div ?bs) \<noteq> 0) \<longrightarrow> left = 0"
          using less.hyps [OF dl(1) st(2) pre] unfolding m(2,3) dl(2) e by blast
        have "left = 0" if "\<forall>i. 0 \<le> i \<and> i < ?n \<longrightarrow> block_map sb ino ((blk * ?bs + offset + i) div ?bs) \<noteq> 0"
        proof (rule r(8) [rule_format])
          fix i assume i: "0 \<le> i \<and> i < ?n - t"
          have "block_map sb ino ((blk * ?bs + offset + (t + i)) div ?bs) \<noteq> 0" using that i t(1) by simp
          then have "block_map sb1 ino1 ((blk * ?bs + offset + (t + i)) div ?bs) \<noteq> 0" using mapped(4,5) by metis
          then show "block_map sb1 ino1 ((blk * ?bs + offset + t + i) div ?bs) \<noteq> 0" by (simp add: add.assoc)
        qed
        note full = this
        have "stored disk sb ino (blk * ?bs + offset) data (t + (?n - t - left)) disk' sb' ino'"
          by (rule stored_trans [OF st(1) r(7)]) (use t r(3) in auto)
        then show ?thesis unfolding step using r(1-6) t(1) full
          by (intro exI [of _ err] exI [of _ left] exI [of _ disk'] exI [of _ sb'] exI [of _ ino']) simp
      next
        case False
        then have tn: "t = ?n" using t(2) by simp
        then have "drop (nat t) data = []" by simp
        then have "quota_write_loop k disk sb ino blk offset data = Some (None, 0, disk(uint v := new), sb1, ino1)"
          unfolding step by (subst quota_write_loop.simps) simp
        then show ?thesis using st n unfolding tn
          by (intro exI [of _ None] exI [of _ "0::int"] exI [of _ "disk(uint v := new)"] exI [of _ sb1] exI [of _ ino1]) simp
      qed
    qed
  qed
qed

lemma kr_quota_write_ok:
  assumes k: "io_ok k" "quota_ok k" and w: "writable k disk sb ino" and off: "0 \<le> off" "data \<noteq> []"
      "off + int (length data) \<le> file_blocks (KR_ADDR_PER_BLOCK sb) * s_blocksize sb" "off + int (length data) < 4611686018427387904"
    and sz: "0 \<le> i_size ino" "i_size ino < 4611686018427387904"
  shows "\<exists>res disk' sb' ino'. kr_quota_write k disk sb ino data off = Some (res, disk', sb', ino') \<and> writable k disk' sb' ino' \<and>
     ((\<forall>i. 0 \<le> i \<and> i < int (length data) \<longrightarrow> block_map sb ino ((off + i) div s_blocksize sb) \<noteq> 0) \<longrightarrow> res = Inr (int (length data))) \<and>
     (case res of
        Inl e \<Rightarrow> disk' = disk \<and> block_map sb' ino' = block_map sb ino \<and> free_set sb' = free_set sb
      | Inr n \<Rightarrow> 1 \<le> n \<and> n \<le> int (length data) \<and> i_size ino' = max (i_size ino) (off + n)) \<and>
     stored disk sb ino off data (case res of Inl e \<Rightarrow> 0 | Inr n \<Rightarrow> n) disk' sb' (ino'\<lparr>i_size := i_size ino\<rparr>)"
proof -
  let ?bs = "s_blocksize sb" and ?n = "int (length data)"
  have dk: "disk_ok disk sb" using w by (simp add: writable_def)
  note D = disk_okD [OF dk]
  have o: "off div ?bs * ?bs + off mod ?bs = off" by simp
  have "0 < ?bs" using D(1) by simp
  then have r: "0 \<le> off div ?bs" "0 \<le> off mod ?bs" "off mod ?bs < ?bs" using off(1) by (simp_all add: pos_imp_zdiv_nonneg_iff)
  have n: "0 < ?n" using off(2) by simp
  obtain err left disk' sb' ino1 where l: "quota_write_loop k disk sb ino (off div ?bs) (off mod ?bs) data = Some (err, left, disk', sb', ino1)"
      "0 \<le> left" "left \<le> ?n" "err = None \<longrightarrow> left = 0" "left = 0 \<longrightarrow> err = None" "writable k disk' sb' ino1"
      "left = ?n \<longrightarrow> block_map sb' ino1 = block_map sb ino \<and> disk' = disk \<and> free_set sb' = free_set sb"
      "(\<forall>i. 0 \<le> i \<and> i < ?n \<longrightarrow> block_map sb ino ((off + i) div ?bs) \<noteq> 0) \<longrightarrow> left = 0"
      "stored disk sb ino off data (?n - left) disk' sb' ino1"
    using quota_write_loop_ok [OF k w r, of data] off(3) unfolding o by blast
  have i1: "i_size ino1 = i_size ino" using l(9) by (simp add: stored_def same_kind_def)
  note eq = kr_quota_write_def [of k disk sb ino data off, unfolded Let_def D(5,6) l(1) Option.bind_lunit prod.case]
  show ?thesis
  proof (cases "left = ?n")
    case True
    then obtain e where "err = Some e" using l(4) n by (cases err) auto
    then have "kr_quota_write k disk sb ino data off = Some (Inl e, disk', sb', ino1)" using eq True by simp
    moreover have e1: "ino1\<lparr>i_size := i_size ino\<rparr> = ino1" by (simp add: i1 [symmetric])
    have "stored disk sb ino off data 0 disk' sb' (ino1\<lparr>i_size := i_size ino\<rparr>)" unfolding e1 using l(9) True by simp
    moreover have "\<not> (\<forall>i. 0 \<le> i \<and> i < ?n \<longrightarrow> block_map sb ino ((off + i) div ?bs) \<noteq> 0)"
    proof
      assume "\<forall>i. 0 \<le> i \<and> i < ?n \<longrightarrow> block_map sb ino ((off + i) div ?bs) \<noteq> 0"
      then have "left = 0" by (rule l(8) [THEN mp])
      then show False using True n by simp
    qed
    ultimately show ?thesis using l(6,7) True
      by (intro exI [of _ "Inl e"] exI [of _ disk'] exI [of _ sb'] exI [of _ ino1]) (simp only: sum.case simp_thms)
  next
    case False
    define ino2 where "ino2 = (if u64 (i_size ino1) < u64 (off + ?n - left) then ino1\<lparr>i_size := off + ?n - left\<rparr> else ino1)\<lparr>i_mtime := k_now k, i_ctime := k_now k\<rparr>"
    have u: "u64 (i_size ino1) = i_size ino" "u64 (off + ?n - left) = off + ?n - left" using i1 sz off l(2,3) by (auto intro!: u64_id)
    have s2: "i_size ino2 = max (i_size ino) (off + (?n - left))" using i1 unfolding ino2_def u by auto
    have d2: "i_data ino2 = i_data ino1" "i_data (ino2\<lparr>i_size := i_size ino\<rparr>) = i_data ino1" by (simp_all add: ino2_def)
    note F = data_frame [OF d2(1)] and G = data_frame [OF d2(2)]
    have k2: "same_kind ino (ino2\<lparr>i_size := i_size ino\<rparr>)" "unreserved k sb' ino2 = unreserved k sb' ino1" "IS_DAX ino2 = IS_DAX ino1"
      using l(9) by (auto simp: stored_def same_kind_def ino2_def unreserved_def IS_DAX_def)
    have "writable k disk' sb' ino2" using l(6) k2(2,3) F(4) by (simp add: writable_def)
    moreover have "stored disk sb ino off data (?n - left) disk' sb' (ino2\<lparr>i_size := i_size ino\<rparr>)"
      using l(9) k2(1) unfolding stored_def file_byte_def G(3,5) by blast
    moreover have "kr_quota_write k disk sb ino data off = Some (Inr (?n - left), disk', sb', ino2)" using eq False by (simp add: ino2_def)
    ultimately show ?thesis using s2 l(2,3,8) False
      by (intro exI [of _ "Inr (?n - left)"] exI [of _ disk'] exI [of _ sb'] exI [of _ ino2]) auto
  qed
qed

end
