(* ===== verification/Kr_Quota_Spec.thy ===== *)
theory Kr_Quota_Spec
  imports Kr_Quota Kr_File_Spec
begin


text \<open>
  C40. Reading a quota file returns the bytes of the file from the offset on, as many as were asked for
  but none past the end, with zeroes where no block is allocated, and changes nothing.
\<close>

theorem kr_quota_read_correct:
  assumes "io_ok k" "tree_ok sb ino" "disk_ok disk sb" "0 \<le> off" "0 \<le> len" "len < 4611686018427387904"
    and "i_size ino \<le> file_blocks (KR_ADDR_PER_BLOCK sb) * s_blocksize sb" "i_size ino < 4611686018427387904"
  shows "kr_quota_read k disk sb ino len off =
    Some (Inr (map (\<lambda>i. file_byte disk sb ino (off + int i)) [0..<nat (min len (i_size ino - off))]), sb, ino)"
proof (cases "off \<le> i_size ino")
  case True
  then show ?thesis by (rule kr_quota_read_ok [OF assms])
next
  case False
  then have "nat (min len (i_size ino - off)) = 0" by simp
  then show ?thesis using False by (simp add: kr_quota_read_def Let_def)
qed

definition ex_disk :: "int \<Rightarrow> 8 word list" where
  "ex_disk b = replicate 1024 (word_of_int b)"

lemma ex_disk_ok: "disk_ok ex_disk ex_file_sb"
proof -
  have "s_blocksize ex_file_sb = 1024" "s_blocksize_bits ex_file_sb = 10" by (simp_all add: ex_file_sb_def)
  then show ?thesis by (simp add: disk_ok_def ex_disk_def)
qed

theorem kr_quota_read_correct_witness:
  "\<exists>bytes. kr_quota_read ex_kernel ex_disk ex_file_sb ex_file 2 1023 = Some (Inr bytes, ex_file_sb, ex_file) \<and> bytes = [6, 0]"
proof -
  have "[file_byte ex_disk ex_file_sb ex_file 1023, file_byte ex_disk ex_file_sb ex_file 1024] = [6, 0]" by code_simp
  moreover have "i_size ex_file = 13312" "s_blocksize ex_file_sb = 1024" by (simp_all add: ex_file_def ex_file_sb_def)
  ultimately show ?thesis
    using kr_quota_read_correct [OF ex_kernel_io ex_file_tree ex_disk_ok, of 1023 2] by (simp add: file_blocks_def upt_rec)
qed




end
