(* ===== verification/Spec2Isabelle.thy ===== *)
theory Spec2Isabelle
  imports Kr_Balloc_Spec Kr_Ialloc_Spec Kr_Super_Spec Kr_File_Spec Kr_Dir_Spec Kr_Mount_Spec Kr_Ioctl_Spec
    Kr_Quota_Spec
begin

text \<open>
  Verification of the \<^verbatim>\<open>kr\<close> file system, a kernel module in \<^verbatim>\<open>src/Exercises/Exercise19\<close>.

  \<^bold>\<open>The program.\<close> \<^verbatim>\<open>kr\<close> keeps files on a block device in the format of ext2. The device is cut
  into groups of blocks; each has a descriptor, a bitmap of its blocks, a bitmap of its inodes and a
  table of inodes. An inode maps the blocks of its file through direct and up to three levels of
  indirect pointers. A directory is a file of variable-length entries. The VFS calls the module
  through tables of operations: names (\<^verbatim>\<open>namei.c\<close>) work on directories (\<^verbatim>\<open>dir.c\<close>) and inodes
  (\<^verbatim>\<open>ialloc.c\<close>, \<^verbatim>\<open>inode.c\<close>); both ask the block map (\<^verbatim>\<open>inode.c\<close>) for blocks, which it takes
  from the block allocator with its reservation windows (\<^verbatim>\<open>balloc.c\<close>); \<^verbatim>\<open>super.c\<close> mounts the
  file system, keeps its state and reports its errors.

  \<^bold>\<open>The theories\<close>, bottom up; the specifications at the end of each group hold the properties.

  \<^item> \<open>Kr_Prelude\<close>: fixed-width arithmetic of C (\<open>u16\<close>, \<open>u32\<close>, \<open>u64\<close>, \<open>s32\<close>, \<open>s64\<close>, division),
    errnos, bitmaps as lists and the collections of simplification rules.
  \<^item> \<open>Kr_Types\<close>: the structures, flags, macros and inline functions of \<^verbatim>\<open>kr.h\<close>, and the record
    \<open>kernel\<close> of what the module calls in the kernel.
  \<^item> \<open>Kr_Group\<close>, \<open>Kr_Flags\<close>: group descriptors, counting, \<^verbatim>\<open>kr_error\<close> and \<^verbatim>\<open>kr_sync_super\<close>; the
    two copies of the inode flags.
  \<^item> \<open>Kr_Bitmap\<close>, \<open>Kr_Reserve\<close>, \<open>Kr_Window\<close>, \<open>Kr_Balloc\<close>, \<open>Kr_New_Blocks\<close>: \<^verbatim>\<open>balloc.c\<close>, from the
    search for a free bit over the tree of reservation windows to \<^verbatim>\<open>kr_new_blocks\<close> and
    \<^verbatim>\<open>kr_free_blocks\<close>. The invariant \<open>fs_ok\<close> says that bitmaps, descriptors and geometry agree,
    \<open>rsv_inv\<close> that the windows are sorted and disjoint; the locale \<open>block_allocator\<close> is the
    contract towards the block map; \<open>window_ready\<close> is what an allocation asks of the window of an
    inode that uses one. Properties: \<open>Kr_Balloc_Spec\<close>.
  \<^item> \<open>Kr_Ialloc\<close>, \<open>Kr_New_Inode\<close>: \<^verbatim>\<open>ialloc.c\<close>, the group policies, allocation and release of
    inodes, as an instance of the locale \<open>object_pool\<close>. Properties: \<open>Kr_Ialloc_Spec\<close>.
  \<^item> \<open>Kr_Super\<close>, \<open>Kr_Options\<close>: \<^verbatim>\<open>super.c\<close>, the valid and error flags through sync, freeze, remount
    and unmount, the checks of the descriptors, \<^verbatim>\<open>statfs\<close>, and the mount options, parsed and
    shown. Properties: \<open>Kr_Super_Spec\<close>.
  \<^item> \<open>Kr_Bmap\<close>, \<open>Kr_Alloc_Frame\<close>, \<open>Kr_Truncate\<close>, \<open>Kr_Cut\<close>, \<open>Kr_Truncate_Path\<close>, \<open>Kr_Inode\<close>,
    \<open>Kr_Inode_Disk\<close>, \<open>Kr_Grow\<close>, \<open>Kr_Create\<close>: \<^verbatim>\<open>inode.c\<close>. The abstract view of a file is \<open>block_map\<close>, from block numbers
    in the file to blocks on the device; lookup agrees with it, allocation extends it and truncation cuts it. Inodes are
    found in, read from and written to the tables. Properties: \<open>Kr_File_Spec\<close>.
  \<^item> \<open>Kr_Dir\<close>, \<open>Kr_Dirent\<close>, \<open>Kr_Directory\<close>: \<^verbatim>\<open>dir.c\<close> on the bytes of pages. A good page is a
    \<open>chain\<close> of entries; the abstract view of a directory is \<open>dir_map\<close>, from names to inode numbers.
    \<open>Kr_Namei\<close>, \<open>Kr_Names\<close>: \<^verbatim>\<open>namei.c\<close>, with the effect of each operation on \<open>dir_map\<close> and the
    link counts. The locale \<open>name_table\<close> is the contract of a directory. Properties: \<open>Kr_Dir_Spec\<close>.
  \<^item> \<open>Kr_Mount\<close>: \<^verbatim>\<open>kr_fill_super\<close>. A successful mount establishes the invariants that the other
    groups assume. Properties: \<open>Kr_Mount_Spec\<close>.
  \<^item> \<open>Kr_Ioctl\<close>: calls on open files (\<^verbatim>\<open>ioctl.c\<close>, \<^verbatim>\<open>file.c\<close>), the begin and end of a write, direct
    access and file handles. Properties: \<open>Kr_Ioctl_Spec\<close>.
  \<^item> \<open>Kr_Quota\<close>: quota files (\<^verbatim>\<open>kr_quota_read\<close>, \<^verbatim>\<open>kr_quota_write\<close>), the bytes of a file through
    its block map; \<open>file_byte\<close> is the reference. Properties: \<open>Kr_Quota_Spec\<close>.
  \<^item> \<open>Kr_Example\<close>, \<open>Kr_File_Example\<close>: a small file system on which the hypotheses hold.

  \<^bold>\<open>How code becomes definitions.\<close> A structure is a record and a function of the source a
  definition of the same name; a loop is a recursive function of its own. Fields on the disk are
  words of their width; local variables are integers, cut to their C type where a value may leave
  it. The super block, the descriptors, bitmaps, indirect blocks, inode tables and the tree of
  windows are one record \<open>super_block\<close>, which operations take and return. \<open>kr_fs\<close> adds the inodes in
  memory, addressed by number, and the pages of directories, so that two pointers to one object
  alias in the model as they do in the code.

  \<^bold>\<open>Results.\<close> A call returns an \<^typ>\<open>'a option\<close>; \<^term>\<open>None\<close> stands for never returning (a \<^verbatim>\<open>BUG\<close>, a
  panic, a deadlock, a loop without end) and for an access outside a buffer. Errors are errnos, on
  the left of a sum or as an \<open>errno option\<close>. Loops that need an argument to end are defined by
  \<^theory_text>\<open>partial_function\<close> over options, with no fuel; the theorems about them say that they return.

  \<^bold>\<open>Parameters.\<close> The kernel around the module is not under \<^verbatim>\<open>src/\<close>: the buffer cache, memory, the
  clock, quota, the red-black tree library, the option parser, the page cache, the dentry cache and
  the device are the records \<open>kernel\<close>, \<open>parser\<close>, \<open>vfs\<close>, \<open>pagecache\<close>, \<open>names\<close> and \<open>device\<close>. What is
  assumed of them is named: \<open>io_ok\<close> (no read errors), \<open>quota_ok\<close>, \<open>inode_calls_ok\<close>, \<open>rb_ok\<close>,
  \<open>parser_ok\<close>, \<open>begin_keeps\<close> (preparing a write changes nothing but blocks), \<open>device_ok\<close>. The bytes of data
  blocks are an argument \<open>disk\<close>.

  \<^bold>\<open>Bounds.\<close> Pages have 4096 bytes and \<^verbatim>\<open>unsigned long\<close> 64 bits. The invariants limit groups to
  fewer than 65536 blocks and file systems to \<open>2 ^ 30\<close> or \<open>2 ^ 31\<close> groups, which the formats of
  the disk imply for blocks of up to 4096 bytes.

  \<^bold>\<open>Not modelled.\<close> Concurrency: each operation runs alone, and locks appear only where taking one
  twice would hang. Messages, dirty marks and reference counts of buffers. The operations of a file
  that only call the generic code of the kernel with \<^verbatim>\<open>kr_get_block\<close> (reading, writing and mapping
  pages). Extended attributes and access control lists (\<^verbatim>\<open>Unused/\<close>) are not part of the module that
  is built. The other exercises are small modules that only call the kernel.
\<close>

end
